(* ===== verification/Prelude.thy ===== *)
theory Prelude
  imports Main "HOL-Library.Word" "HOL-Library.Multiset" "HOL-Library.Sublist"
    "HOL-Library.Char_ord" "HOL-Library.List_Lexorder"
begin

unbundle bit_operations_syntax

text \<open>
  The prelude of the development: names for the machine types of the Go sources, the
  collections of simplification rules the component theories fill, and the lemmas on lists,
  options, association lists and words that several components share. Nothing here models
  a particular file of the program.

  Go maps are modelled as association lists with distinct keys (\<open>al_get\<close>, \<open>al_put\<close>,
  \<open>al_del\<close>): the list fixes an order, and where the code ranges over a map, whose order Go
  leaves open, the component takes the order of iteration as a parameter that has to satisfy
  \<open>range_order\<close>.
\<close>

type_synonym byte = "8 word"
type_synonym u8 = "8 word"
type_synonym u16 = "16 word"
type_synonym u32 = "32 word"
type_synonym u64 = "64 word"

named_theorems go_string "characteristic facts of the modelled functions of the package strings"
named_theorems al_simps "association lists as Go maps"
named_theorems ip_simps "unfolding rules of the address layer"
named_theorems strm "characteristic facts of the string matchers"

section \<open>Go maps\<close>

type_synonym ('k, 'v) go_map = "('k \<times> 'v) list"

abbreviation al_get :: "('k, 'v) go_map \<Rightarrow> 'k \<Rightarrow> 'v option" where
  "al_get \<equiv> map_of"

fun al_put :: "'k \<Rightarrow> 'v \<Rightarrow> ('k, 'v) go_map \<Rightarrow> ('k, 'v) go_map" where
  "al_put k v [] = [(k, v)]"
| "al_put k v ((k', v') # m) = (if k' = k then (k, v) # m else (k', v') # al_put k v m)"

definition al_del :: "'k \<Rightarrow> ('k, 'v) go_map \<Rightarrow> ('k, 'v) go_map" where
  "al_del k m = filter (\<lambda>e. fst e \<noteq> k) m"

definition al_keys :: "('k, 'v) go_map \<Rightarrow> 'k list" where
  "al_keys m = map fst m"

abbreviation al_ok :: "('k, 'v) go_map \<Rightarrow> bool" where
  "al_ok m \<equiv> distinct (map fst m)"

text \<open>An order in which a \<open>for range\<close> loop visits the entries of a map: any permutation.\<close>

definition range_order :: "('a list \<Rightarrow> 'a list) \<Rightarrow> bool" where
  "range_order f \<longleftrightarrow> (\<forall>xs. mset (f xs) = mset xs)"

lemma range_order_set [simp]: "range_order f \<Longrightarrow> set (f xs) = set xs"
  by (metis range_order_def set_mset_mset)

lemma range_order_mset: "range_order f \<Longrightarrow> mset (f xs) = mset xs"
  by (simp add: range_order_def)

lemma range_order_id [simp]: "range_order (\<lambda>xs. xs)" "range_order rev"
  by (simp_all add: range_order_def)

lemma al_get_put [al_simps]: "al_get (al_put k v m) = (al_get m)(k \<mapsto> v)"
  by (induction k v m rule: al_put.induct) (auto simp: fun_eq_iff)

lemma set_keys_put [al_simps]: "fst ` set (al_put k v m) = insert k (fst ` set m)"
  by (induction k v m rule: al_put.induct) auto

lemma al_ok_put [al_simps]: "al_ok (al_put k v m) \<longleftrightarrow> al_ok m"
proof (induction k v m rule: al_put.induct)
  case (2 k v k' v' m)
  then show ?case using set_keys_put [of k v m] by (auto simp: image_iff)
qed simp

lemma length_al_put [al_simps]:
  "length (al_put k v m) = (if al_get m k = None then Suc (length m) else length m)"
  by (induction k v m rule: al_put.induct) auto

lemma al_get_del [al_simps]: "al_get (al_del k m) = (al_get m)(k := None)"
  unfolding al_del_def
  by (induction m) (auto simp: fun_eq_iff)

lemma al_ok_del [al_simps]: "al_ok m \<Longrightarrow> al_ok (al_del k m)"
  unfolding al_del_def by (induction m) (auto simp: image_iff)

lemma set_keys_del [al_simps]: "fst ` set (al_del k m) = fst ` set m - {k}"
  unfolding al_del_def by auto

lemma al_get_None_iff: "al_get m k = None \<longleftrightarrow> k \<notin> fst ` set m"
  by (rule map_of_eq_None_iff)

section \<open>Lists\<close>

text \<open>Looping over a list and stopping at the first error.\<close>

fun map_err :: "('a \<Rightarrow> 'e + 'b) \<Rightarrow> 'a list \<Rightarrow> 'e + 'b list" where
  "map_err f [] = Inr []"
| "map_err f (x # xs) =
     (case f x of Inl e \<Rightarrow> Inl e
      | Inr y \<Rightarrow> (case map_err f xs of Inl e \<Rightarrow> Inl e | Inr ys \<Rightarrow> Inr (y # ys)))"

lemma map_err_Inr: "map_err f xs = Inr ys \<longleftrightarrow> list_all2 (\<lambda>x y. f x = Inr y) xs ys"
proof (induction xs arbitrary: ys)
  case (Cons x xs)
  show ?case
    by (cases ys; cases "f x"; cases "map_err f xs") (auto simp flip: Cons.IH)
qed auto

lemma map_err_Inl: "map_err f xs = Inl e \<Longrightarrow> \<exists>x \<in> set xs. f x = Inl e"
  by (induction xs) (auto split: sum.splits)

lemma map_err_length: "map_err f xs = Inr ys \<Longrightarrow> length ys = length xs"
  by (auto simp: map_err_Inr dest: list_all2_lengthD)

lemma mset_filter_partition:
  "mset (filter P xs) + mset (filter (\<lambda>x. \<not> P x) xs) = mset xs"
  by (induction xs) auto

lemma ex_singleton_conv [simp]: "(\<exists>x \<in> set [a]. P x) \<longleftrightarrow> P a"
  by simp

lemma list_length1E:
  assumes "length xs = Suc 0"
  obtains x where "xs = [x]"
  using assms by (cases xs) auto

text \<open>The three-way case on a list (empty, one element, more) that the matchers start with.\<close>

lemma list_cases3:
  obtains (nil) "xs = []" | (one) x where "xs = [x]" | (many) "1 < length xs"
  by (cases xs; cases "tl xs") auto

lemma case_list_many [simp]:
  "1 < length xs \<Longrightarrow> (case xs of [] \<Rightarrow> a | x # ys \<Rightarrow> (case ys of [] \<Rightarrow> b x | _ \<Rightarrow> c)) = c"
  by (auto split: list.splits)

lemma nth_list_update_any: "h < length xs \<Longrightarrow> xs[a := v] ! h = (if a = h then v else xs ! h)"
  by (cases "a < length xs") (auto simp: nth_list_update)

lemma filter_False_conv': "(\<And>x. x \<in> set xs \<Longrightarrow> \<not> P x) \<Longrightarrow> filter P xs = []"
  by (induction xs) auto

section \<open>Big-endian bytes as words\<close>

definition be_word :: "byte list \<Rightarrow> 'a::len word" where
  "be_word bs = foldl (\<lambda>acc b. push_bit 8 acc OR ucast b) 0 bs"

lemma be_word_Nil [simp]: "be_word [] = 0"
  by (simp add: be_word_def)

lemma be_word_snoc: "be_word (bs @ [b]) = push_bit 8 (be_word bs) OR ucast b"
  by (simp add: be_word_def)

text \<open>Dropping the low bytes of a big-endian value leaves the value of the leading bytes,
  cut to the width that remains.\<close>

lemma drop_byte_be_word_snoc:
  "drop_bit 8 (be_word (bs @ [b]) :: 'a::len word) =
   (take_bit (LENGTH('a) - 8) (be_word bs) :: 'a word)"
proof (rule bit_word_eqI)
  fix n assume n: "n < LENGTH('a)"
  have "\<not> bit (ucast b :: 'a word) (8 + n)"
    using bit_imp_le_length [of b "8 + n"] by (auto simp: bit_ucast_iff)
  then show "bit (drop_bit 8 (be_word (bs @ [b])) :: 'a word) n =
      bit (take_bit (LENGTH('a) - 8) (be_word bs) :: 'a word) n"
    using n by (auto simp: be_word_snoc bit_simps)
qed

lemma drop_bit_be_word_cong:
  "length xs' = length ys' \<Longrightarrow>
   drop_bit (8 * length xs') (be_word (xs @ xs') :: 'a::len word) =
   drop_bit (8 * length ys') (be_word (xs @ ys') :: 'a word)"
proof (induction xs' arbitrary: ys' rule: rev_induct)
  case (snoc x xs')
  then obtain y ys0 where ys': "ys' = ys0 @ [y]" and len: "length xs' = length ys0"
    by (metis append_butlast_last_id butlast_snoc length_0_conv length_butlast snoc_eq_iff_butlast)
  have drop_cut: "drop_bit (8 * length zs + 8) (be_word (xs @ zs @ [z]) :: 'a word) =
      take_bit (LENGTH('a) - 8 - 8 * length zs) (drop_bit (8 * length zs) (be_word (xs @ zs)))"
    for zs :: "byte list" and z
    using drop_byte_be_word_snoc [of "xs @ zs" z, where 'a = 'a]
    by (metis (no_types, lifting) add.commute append_assoc drop_bit_drop_bit drop_bit_take_bit)
  show ?case
    using drop_cut [of xs' x] drop_cut [of ys0 y] snoc.IH [OF len] len
    by (simp add: ys' add.commute)
qed simp

end
