(* ===== verification/GoNet.thy ===== *)
theory GoNet
  imports GoStrings
begin

text \<open>
  The parts of the Go packages \<open>net\<close> and \<open>net/netip\<close> that the modelled sources use:
  \<open>net.IP\<close> with \<open>To4\<close>, \<open>To16\<close> and \<open>ParseIP\<close>, \<open>netip.Addr\<close> without zones, and
  \<open>netip.Prefix\<close>. The last section is the interface of the third-party package
  \<open>go4.org/netipx\<close>: it is not part of the repository, so it is a record of functions the
  definitions take as an argument, and \<open>netipx_ok\<close> states what its documentation promises.
\<close>

type_synonym ip = "byte list"

section \<open>net.IP\<close>

definition is_v4_mapped :: "ip \<Rightarrow> bool" where
  "is_v4_mapped p \<longleftrightarrow>
     length p = 16 \<and> take 10 p = replicate 10 0 \<and> p ! 10 = 0xff \<and> p ! 11 = 0xff"

definition To4 :: "ip \<Rightarrow> ip option" where
  "To4 p = (if length p = 4 then Some p
            else if is_v4_mapped p then Some (drop 12 p) else None)"

definition To16 :: "ip \<Rightarrow> ip option" where
  "To16 p = (if length p = 4 then Some (replicate 10 0 @ [0xff, 0xff] @ p)
             else if length p = 16 then Some p else None)"

section \<open>netip.Addr and netip.Prefix\<close>

datatype addr = AddrZero | V4 "32 word" | V6 "128 word"

fun Is4 :: "addr \<Rightarrow> bool" where
  "Is4 (V4 w) = True"
| "Is4 a = False"

fun Is6 :: "addr \<Rightarrow> bool" where
  "Is6 (V6 w) = True"
| "Is6 a = False"

definition AddrIsValid :: "addr \<Rightarrow> bool" where
  "AddrIsValid a \<longleftrightarrow> a \<noteq> AddrZero"

fun BitLen :: "addr \<Rightarrow> nat" where
  "BitLen AddrZero = 0"
| "BitLen (V4 w) = 32"
| "BitLen (V6 w) = 128"

definition AddrFromSlice :: "ip \<Rightarrow> addr option" where
  "AddrFromSlice p = (if length p = 4 then Some (V4 (be_word p))
                      else if length p = 16 then Some (V6 (be_word p)) else None)"

text \<open>A prefix keeps its length plus one, zero for an invalid prefix, as \<open>bitsPlusOne\<close> does.\<close>

record netprefix =
  pfx_ip :: addr
  pfx_bits1 :: nat

definition PrefixFrom :: "addr \<Rightarrow> nat \<Rightarrow> netprefix" where
  "PrefixFrom a b = \<lparr>pfx_ip = a,
     pfx_bits1 = (if a \<noteq> AddrZero \<and> b \<le> BitLen a then Suc b else 0)\<rparr>"

definition PrefixIsValid :: "netprefix \<Rightarrow> bool" where
  "PrefixIsValid p \<longleftrightarrow> 0 < pfx_bits1 p"

definition PrefixBits :: "netprefix \<Rightarrow> int" where
  "PrefixBits p = int (pfx_bits1 p) - 1"

fun same_top_bits :: "nat \<Rightarrow> addr \<Rightarrow> addr \<Rightarrow> bool" where
  "same_top_bits n (V4 v) (V4 w) = (drop_bit (32 - n) v = drop_bit (32 - n) w)"
| "same_top_bits n (V6 v) (V6 w) = (drop_bit (128 - n) v = drop_bit (128 - n) w)"
| "same_top_bits n a b = False"

definition PrefixContains :: "netprefix \<Rightarrow> addr \<Rightarrow> bool" where
  "PrefixContains p a \<longleftrightarrow> PrefixIsValid p \<and> same_top_bits (pfx_bits1 p - 1) (pfx_ip p) a"

text \<open>Every value of the Go type \<open>netip.Prefix\<close> satisfies this; \<open>PrefixFrom\<close> establishes it.\<close>

definition PrefixWf :: "netprefix \<Rightarrow> bool" where
  "PrefixWf p \<longleftrightarrow> (pfx_ip p = AddrZero \<longrightarrow> pfx_bits1 p = 0) \<and> pfx_bits1 p \<le> Suc (BitLen (pfx_ip p))"

section \<open>ParseIP\<close>

text \<open>\<open>v4_fields\<close> is the loop of \<open>parseIPv4Fields\<close>: the current value and digit count, the
  fields read so far, and whether the previous byte was a dot (or the start).\<close>

fun v4_fields :: "nat \<Rightarrow> nat \<Rightarrow> byte list \<Rightarrow> string \<Rightarrow> ip option" where
  "v4_fields v d fs [] = (if length fs < 3 then None else Some (fs @ [of_nat v]))"
| "v4_fields v d fs (c # cs) =
     (if is_digit c then
        (if d = 1 \<and> v = 0 then None
         else let v' = v * 10 + digit_value c
              in if 255 < v' then None else v4_fields v' (Suc d) fs cs)
      else if c = CHR ''.'' then
        (if d = 0 \<or> cs = [] then None
         else if length fs = 3 then None
         else v4_fields 0 0 (fs @ [of_nat v]) cs)
      else None)"

definition parseIPv4 :: "string \<Rightarrow> ip option" where
  "parseIPv4 s = v4_fields 0 0 [] s"

definition hex_value :: "char \<Rightarrow> nat option" where
  "hex_value c =
     (if is_digit c then Some (digit_value c)
      else if CHR ''a'' \<le> c \<and> c \<le> CHR ''f'' then Some (of_char c - 87)
      else if CHR ''A'' \<le> c \<and> c \<le> CHR ''F'' then Some (of_char c - 55)
      else None)"

text \<open>The hexadecimal digits at the start of a group: how many, and their value.\<close>

fun hex_group :: "string \<Rightarrow> nat \<Rightarrow> nat \<Rightarrow> nat \<times> nat" where
  "hex_group [] off acc = (off, acc)"
| "hex_group (c # cs) off acc =
     (case hex_value c of None \<Rightarrow> (off, acc) | Some h \<Rightarrow> hex_group cs (Suc off) (16 * acc + h))"

text \<open>The main loop of \<open>parseIPv6\<close>: bytes written so far, position of the ellipsis, rest of the
  input. A group of more than four digits is refused; at most eight groups are read.\<close>

function v6_groups :: "byte list \<Rightarrow> nat option \<Rightarrow> string \<Rightarrow> (byte list \<times> nat option \<times> string) option"
where
  "v6_groups bs ell s =
     (if 16 \<le> length bs then Some (bs, ell, s)
      else (case hex_group s 0 0 of (off, acc) \<Rightarrow>
        if off = 0 \<or> 4 < off then None
        else if off < length s \<and> s ! off = CHR ''.'' then
          (if ell = None \<and> length bs \<noteq> 12 then None
           else if 16 < length bs + 4 then None
           else (case parseIPv4 s of None \<Rightarrow> None | Some v4 \<Rightarrow> Some (bs @ v4, ell, [])))
        else
          let bs' = bs @ [of_nat (acc div 256), of_nat (acc mod 256)]; s' = drop off s
          in if s' = [] then Some (bs', ell, [])
             else if hd s' \<noteq> CHR '':'' then None
             else if length s' = 1 then None
             else if hd (tl s') = CHR '':'' then
               (if ell \<noteq> None then None
                else if tl (tl s') = [] then Some (bs', Some (length bs'), [])
                else v6_groups bs' (Some (length bs')) (tl (tl s')))
             else v6_groups bs' ell (tl s')))"
  by pat_completeness auto
termination by (relation "measure (\<lambda>(bs, ell, s). 16 - length bs)") auto

declare v6_groups.simps [simp del]

definition v6_finish :: "byte list \<times> nat option \<times> string \<Rightarrow> ip option" where
  "v6_finish r =
     (case r of (bs, ell, s) \<Rightarrow>
        if s \<noteq> [] then None
        else if length bs < 16 then
          (case ell of None \<Rightarrow> None
           | Some e \<Rightarrow> Some (take e bs @ replicate (16 - length bs) 0 @ drop e bs))
        else if ell \<noteq> None then None else Some bs)"

definition parseIPv6 :: "string \<Rightarrow> ip option" where
  "parseIPv6 s =
     (if HasPrefix s ''::'' then
        (if length s = 2 then Some (replicate 16 0)
         else Option.bind (v6_groups [] (Some 0) (drop 2 s)) v6_finish)
      else Option.bind (v6_groups [] None s) v6_finish)"

text \<open>\<open>net.ParseIP\<close> refuses zones and returns the 16-byte form of both families.\<close>

definition ParseIP :: "string \<Rightarrow> ip option" where
  "ParseIP s =
     (case dropWhile (\<lambda>c. c \<notin> {CHR ''.'', CHR '':'', CHR ''%''}) s of
        [] \<Rightarrow> None
      | c # _ \<Rightarrow>
          if c = CHR ''.'' then Option.bind (parseIPv4 s) To16
          else if c = CHR '':'' then (if CHR ''%'' \<in> set s then None else parseIPv6 s)
          else None)"

section \<open>The package netipx\<close>

record 's netipx =
  FromStdIP :: "ip \<Rightarrow> addr option"
  IPSetBuild :: "netprefix list \<Rightarrow> 's option"
  SetContains :: "'s \<Rightarrow> addr \<Rightarrow> bool"
  SetPrefixes :: "'s \<Rightarrow> netprefix list"

text \<open>
  \<open>FromStdIP\<close> accepts 4 and 16 byte addresses and unmaps IPv4-in-IPv6; a set built from valid
  prefixes contains exactly the addresses of these prefixes; \<open>Prefixes\<close> lists valid prefixes
  that cover exactly the set.
\<close>

definition std_addr :: "ip \<Rightarrow> addr option" where
  "std_addr p = (case To4 p of Some q \<Rightarrow> Some (V4 (be_word q))
                 | None \<Rightarrow> if length p = 16 then Some (V6 (be_word p)) else None)"

definition netipx_ok :: "'s netipx \<Rightarrow> bool" where
  "netipx_ok nx \<longleftrightarrow>
     (\<forall>p. FromStdIP nx p = std_addr p) \<and>
     (\<forall>ps s. list_all (\<lambda>p. PrefixIsValid p \<and> PrefixWf p) ps \<longrightarrow> IPSetBuild nx ps = Some s \<longrightarrow>
        (\<forall>a. SetContains nx s a \<longleftrightarrow> (\<exists>p \<in> set ps. PrefixContains p a)) \<and>
        (\<forall>a. SetContains nx s a \<longleftrightarrow> (\<exists>p \<in> set (SetPrefixes nx s). PrefixContains p a)) \<and>
        list_all (\<lambda>p. PrefixIsValid p \<and> PrefixWf p) (SetPrefixes nx s))"

text \<open>A concrete implementation, a set as the list of its prefixes, shows that the promises can
  be kept; it serves only to instantiate the parameter in closed examples.\<close>

definition list_netipx :: "netprefix list netipx" where
  "list_netipx = \<lparr>FromStdIP = std_addr, IPSetBuild = Some,
     SetContains = (\<lambda>ps a. \<exists>p \<in> set ps. PrefixContains p a), SetPrefixes = (\<lambda>ps. ps)\<rparr>"

lemma list_netipx_ok [simp]: "netipx_ok list_netipx"
  by (simp add: netipx_ok_def list_netipx_def)

lemma netipx_FromStdIP: "netipx_ok nx \<Longrightarrow> FromStdIP nx p = std_addr p"
  by (simp add: netipx_ok_def)

section \<open>Lemmas\<close>

lemma PrefixWf_PrefixFrom [simp]: "PrefixWf (PrefixFrom a b)"
  by (simp add: PrefixWf_def PrefixFrom_def)

lemma same_top_bits_refl: "a \<noteq> AddrZero \<Longrightarrow> same_top_bits n a a"
  by (cases a) auto

lemma same_top_bits_mono:
  "same_top_bits n a b \<Longrightarrow> m \<le> n \<Longrightarrow> same_top_bits m a b"
proof (induction n a b rule: same_top_bits.induct)
  case (1 n v w)
  have "drop_bit (n - m) (drop_bit (32 - n) v) = drop_bit (n - m) (drop_bit (32 - n) w)"
    using 1 by simp
  then show ?case using 1 by (cases "n \<le> 32") (auto simp: drop_bit_drop_bit intro: arg_cong)
next
  case (2 n v w)
  have "drop_bit (n - m) (drop_bit (128 - n) v) = drop_bit (n - m) (drop_bit (128 - n) w)"
    using 2 by simp
  then show ?case using 2 by (cases "n \<le> 128") (auto simp: drop_bit_drop_bit intro: arg_cong)
qed auto

lemma same_top_bits_trans:
  "same_top_bits n a b \<Longrightarrow> same_top_bits n b c \<Longrightarrow> same_top_bits n a c"
  by (cases a; cases b; cases c) auto

lemma same_top_bits_sym: "same_top_bits n a b \<longleftrightarrow> same_top_bits n b a"
  by (cases a; cases b) auto

lemma PrefixContains_same:
  "same_top_bits n a b \<Longrightarrow> pfx_bits1 p \<le> Suc n \<Longrightarrow> PrefixContains p a \<longleftrightarrow> PrefixContains p b"
proof -
  assume ab: "same_top_bits n a b" and le: "pfx_bits1 p \<le> Suc n"
  from ab le have "same_top_bits (pfx_bits1 p - 1) a b"
    by (rule_tac same_top_bits_mono) auto
  then show ?thesis
    unfolding PrefixContains_def
    by (metis same_top_bits_sym same_top_bits_trans)
qed

lemma length_To4: "To4 p = Some q \<Longrightarrow> length q = 4"
  by (auto simp: To4_def is_v4_mapped_def split: if_splits)

lemma std_addr_cases:
  assumes "std_addr p = Some a"
  obtains (v4) q where "To4 p = Some q" "a = V4 (be_word q)"
  | (v6) "To4 p = None" "length p = 16" "a = V6 (be_word p)"
  using assms by (auto simp: std_addr_def split: option.splits if_splits)

lemma std_addr_not_zero: "std_addr p \<noteq> Some AddrZero"
  by (auto simp: std_addr_def split: option.splits)

lemma v4_fields_length: "v4_fields v d fs s = Some p \<Longrightarrow> length fs \<le> 3 \<Longrightarrow> length p = 4"
  by (induction v d fs s rule: v4_fields.induct) (auto simp: Let_def split: if_splits)

lemma parseIPv4_length: "parseIPv4 s = Some p \<Longrightarrow> length p = 4"
  by (auto simp: parseIPv4_def dest: v4_fields_length)

lemma v6_groups_step:
  assumes "v6_groups bs ell s = Some (bs', ell', s')" "length bs \<le> 16" "even (length bs)"
    "\<forall>e. ell = Some e \<longrightarrow> e \<le> length bs"
  shows "(length bs' \<le> 16 \<and> (\<forall>e. ell' = Some e \<longrightarrow> e \<le> length bs')) \<or>
    length bs \<le> 14 \<and> (\<exists>x y t e2. (e2 = ell \<or> e2 = Some (length bs + 2)) \<and>
      v6_groups (bs @ [x, y]) e2 t = Some (bs', ell', s'))"
proof -
  have le14: "\<not> 16 \<le> length bs \<Longrightarrow> length bs \<le> 14"
    using assms(3) by presburger
  obtain off acc where g: "hex_group s 0 0 = (off, acc)" by (cases "hex_group s 0 0")
  show ?thesis
    using assms le14
    by (subst (asm) v6_groups.simps)
      (fastforce simp: Let_def g split: if_splits option.splits dest!: parseIPv4_length)
qed

lemma v6_groups_bounds:
  "v6_groups bs ell s = Some (bs', ell', s') \<Longrightarrow> length bs \<le> 16 \<Longrightarrow> even (length bs) \<Longrightarrow>
   \<forall>e. ell = Some e \<longrightarrow> e \<le> length bs \<Longrightarrow>
   length bs' \<le> 16 \<and> (\<forall>e. ell' = Some e \<longrightarrow> e \<le> length bs')"
proof (induction "16 - length bs" arbitrary: bs ell s rule: less_induct)
  case less
  from v6_groups_step [OF less.prems] show ?case
  proof (elim disjE conjE exE)
    fix x y t e2
    assume le: "length bs \<le> 14" and rec: "v6_groups (bs @ [x, y]) e2 t = Some (bs', ell', s')"
      and e2: "e2 = ell"
    then show ?thesis using less.prems
      by (intro less.hyps [OF _ rec]) (auto simp: e2)
  next
    fix x y t e2
    assume le: "length bs \<le> 14" and rec: "v6_groups (bs @ [x, y]) e2 t = Some (bs', ell', s')"
      and e2: "e2 = Some (length bs + 2)"
    then show ?thesis using less.prems(3)
      by (intro less.hyps [OF _ rec]) (auto simp: e2)
  qed blast
qed

lemma v6_finish_length:
  "v6_finish (bs, ell, s) = Some p \<Longrightarrow> length bs \<le> 16 \<Longrightarrow> (\<And>e. ell = Some e \<Longrightarrow> e \<le> length bs) \<Longrightarrow>
   length p = 16"
  by (auto simp: v6_finish_def split: if_splits option.splits)

lemma parseIPv6_length: "parseIPv6 s = Some p \<Longrightarrow> length p = 16"
proof -
  assume "parseIPv6 s = Some p"
  then consider "p = replicate 16 0"
    | ell t r where "v6_groups [] ell t = Some r" "v6_finish r = Some p"
        "\<And>e. ell = Some e \<Longrightarrow> e = 0"
    by (fastforce simp: parseIPv6_def bind_eq_Some_conv split: if_splits)
  then show ?thesis
  proof cases
    case 2
    obtain bs ell' s' where r: "r = (bs, ell', s')" by (cases r)
    from v6_groups_bounds [OF 2(1) [unfolded r]] 2(3)
    have "length bs \<le> 16 \<and> (\<forall>e. ell' = Some e \<longrightarrow> e \<le> length bs)" by auto
    with 2(2) r show ?thesis by (auto dest: v6_finish_length)
  qed simp
qed

lemma ParseIP_length: "ParseIP s = Some p \<Longrightarrow> length p = 16"
  by (auto simp: ParseIP_def bind_eq_Some_conv To16_def
      split: list.splits if_splits dest: parseIPv4_length parseIPv6_length)

end
