(* ===== verification/Net.thy ===== *)
theory Net
  imports GoNet
begin

text \<open>
  The package \<open>common/net\<close>: addresses (\<open>address.go\<close>), ports and port lists (\<open>port.go\<close>),
  networks (\<open>network.go\<close>) and destinations (\<open>destination.go\<close>). An \<open>Address\<close> value of Go is
  \<open>nil\<close> or one of three types; nil is \<open>None\<close> of an option. Calling \<open>Domain()\<close> on an IP
  address, or \<open>IP()\<close> on a domain, panics in Go and is \<open>None\<close> here.
\<close>

section \<open>Addresses\<close>

datatype AddressFamily = AddressFamilyIPv4 | AddressFamilyIPv6 | AddressFamilyDomain

definition IsIPv4 :: "AddressFamily \<Rightarrow> bool" where
  "IsIPv4 af \<longleftrightarrow> af = AddressFamilyIPv4"

definition IsIPv6 :: "AddressFamily \<Rightarrow> bool" where
  "IsIPv6 af \<longleftrightarrow> af = AddressFamilyIPv6"

definition IsIP :: "AddressFamily \<Rightarrow> bool" where
  "IsIP af \<longleftrightarrow> af = AddressFamilyIPv4 \<or> af = AddressFamilyIPv6"

definition IsDomain :: "AddressFamily \<Rightarrow> bool" where
  "IsDomain af \<longleftrightarrow> af = AddressFamilyDomain"

datatype Address = ipv4Address ip | ipv6Address ip | domainAddress string

fun Family :: "Address \<Rightarrow> AddressFamily" where
  "Family (ipv4Address p) = AddressFamilyIPv4"
| "Family (ipv6Address p) = AddressFamilyIPv6"
| "Family (domainAddress d) = AddressFamilyDomain"

fun AddrIP :: "Address \<Rightarrow> ip option" where
  "AddrIP (ipv4Address p) = Some p"
| "AddrIP (ipv6Address p) = Some p"
| "AddrIP (domainAddress d) = None"

fun AddrDomain :: "Address \<Rightarrow> string option" where
  "AddrDomain (domainAddress d) = Some d"
| "AddrDomain a = None"

definition isAlphaNum :: "char \<Rightarrow> bool" where
  "isAlphaNum c \<longleftrightarrow> is_digit c \<or> is_lower c \<or> is_upper c"

definition IPAddress :: "ip \<Rightarrow> Address option" where
  "IPAddress p =
     (if length p = 4 then Some (ipv4Address p)
      else if length p = 16 then
        (if take 10 p = replicate 10 0 \<and> p ! 10 = 0xff \<and> p ! 11 = 0xff
         then Some (ipv4Address (drop 12 p)) else Some (ipv6Address p))
      else None)"

definition strip_brackets :: "string \<Rightarrow> string" where
  "strip_brackets s =
     (if s \<noteq> [] \<and> hd s = CHR ''['' \<and> last s = CHR '']'' then butlast (tl s) else s)"

text \<open>\<open>ParseAddress\<close>: the string \<open>[\<close> alone is not bracketed in the sense of the code, since its
  first and last byte differ. An address that \<open>net.ParseIP\<close> rejects is a domain.\<close>

definition ParseAddress :: "string \<Rightarrow> Address" where
  "ParseAddress s =
     (let a = strip_brackets s;
          a' = (if a \<noteq> [] \<and> (\<not> isAlphaNum (hd a) \<or> \<not> isAlphaNum (last a)) then TrimSpace a else a)
      in case ParseIP a' of
           Some p \<Rightarrow> (case IPAddress p of Some r \<Rightarrow> r | None \<Rightarrow> domainAddress a')
         | None \<Rightarrow> domainAddress a')"

datatype IPOrDomain = IPOrDomain_Ip ip | IPOrDomain_Domain string

definition AsAddress :: "IPOrDomain \<Rightarrow> Address option" where
  "AsAddress d = (case d of IPOrDomain_Ip p \<Rightarrow> IPAddress p | IPOrDomain_Domain s \<Rightarrow> Some (domainAddress s))"

definition NewIPOrDomain :: "Address \<Rightarrow> IPOrDomain" where
  "NewIPOrDomain a =
     (case a of domainAddress s \<Rightarrow> IPOrDomain_Domain s
      | ipv4Address p \<Rightarrow> IPOrDomain_Ip p | ipv6Address p \<Rightarrow> IPOrDomain_Ip p)"

section \<open>Ports\<close>

type_synonym Port = u16

datatype port_error = InvalidPortInt u32 | InvalidPortString string

definition PortFromBytes :: "byte list \<Rightarrow> Port option" where
  "PortFromBytes bs = (if length bs < 2 then None else Some (be_word (take 2 bs)))"

definition PortFromInt :: "u32 \<Rightarrow> port_error + Port" where
  "PortFromInt v = (if v = 0 \<or> 65535 < v then Inl (InvalidPortInt v) else Inr (ucast v))"

definition PortFromString :: "string \<Rightarrow> port_error + Port" where
  "PortFromString s =
     (case ParseUint32 s of Inl e \<Rightarrow> Inl (InvalidPortString s) | Inr v \<Rightarrow> PortFromInt (of_nat v))"

definition PortString :: "Port \<Rightarrow> string" where
  "PortString p = nat_digits (unat p)"

record PortRange =
  PRFrom :: u32
  PRTo :: u32

definition PortRangeContains :: "PortRange \<Rightarrow> Port \<Rightarrow> bool" where
  "PortRangeContains r p \<longleftrightarrow> (ucast (PRFrom r) :: Port) \<le> p \<and> p \<le> (ucast (PRTo r) :: Port)"

definition SinglePortRange :: "Port \<Rightarrow> PortRange" where
  "SinglePortRange p = \<lparr>PRFrom = ucast p, PRTo = ucast p\<rparr>"

record MemoryPortRange =
  MFrom :: Port
  MTo :: Port

type_synonym MemoryPortList = "MemoryPortRange list"

definition MemoryPortRangeContains :: "MemoryPortRange \<Rightarrow> Port \<Rightarrow> bool" where
  "MemoryPortRangeContains r p \<longleftrightarrow> MFrom r \<le> p \<and> p \<le> MTo r"

definition PortListFromProto :: "PortRange list \<Rightarrow> MemoryPortList" where
  "PortListFromProto l = map (\<lambda>r. \<lparr>MFrom = ucast (PRFrom r), MTo = ucast (PRTo r)\<rparr>) l"

fun MemoryPortListContains :: "MemoryPortList \<Rightarrow> Port \<Rightarrow> bool" where
  "MemoryPortListContains [] p = False"
| "MemoryPortListContains (r # rs) p =
     (if MemoryPortRangeContains r p then True else MemoryPortListContains rs p)"

section \<open>Networks and destinations\<close>

text \<open>A protobuf enumeration: an \<open>int32\<close> that may hold values with no name.\<close>

type_synonym Network = int

abbreviation (input) "Network_Unknown \<equiv> (0 :: int)"
abbreviation (input) "Network_TCP \<equiv> (2 :: int)"
abbreviation (input) "Network_UDP \<equiv> (3 :: int)"
abbreviation (input) "Network_UNIX \<equiv> (4 :: int)"

definition SystemString :: "Network \<Rightarrow> string" where
  "SystemString n = (if n = Network_TCP then ''tcp'' else if n = Network_UDP then ''udp''
     else if n = Network_UNIX then ''unix'' else ''unknown'')"

fun HasNetwork :: "Network list \<Rightarrow> Network \<Rightarrow> bool" where
  "HasNetwork [] n = False"
| "HasNetwork (v # vs) n = (if v = n then True else HasNetwork vs n)"

record Destination =
  DAddress :: "Address option"
  DPort :: Port
  DNetwork :: Network

definition TCPDestination :: "Address option \<Rightarrow> Port \<Rightarrow> Destination" where
  "TCPDestination a p = \<lparr>DAddress = a, DPort = p, DNetwork = Network_TCP\<rparr>"

definition UDPDestination :: "Address option \<Rightarrow> Port \<Rightarrow> Destination" where
  "UDPDestination a p = \<lparr>DAddress = a, DPort = p, DNetwork = Network_UDP\<rparr>"

definition UnixDestination :: "Address option \<Rightarrow> Destination" where
  "UnixDestination a = \<lparr>DAddress = a, DPort = 0, DNetwork = Network_UNIX\<rparr>"

definition DestIsValid :: "Destination \<Rightarrow> bool" where
  "DestIsValid d \<longleftrightarrow> DNetwork d \<noteq> Network_Unknown"

text \<open>The zero value of the Go struct.\<close>

definition zero_destination :: Destination where
  "zero_destination = \<lparr>DAddress = None, DPort = 0, DNetwork = Network_Unknown\<rparr>"

section \<open>Properties\<close>

lemma MemoryPortListContains_iff:
  "MemoryPortListContains l p \<longleftrightarrow> (\<exists>r \<in> set l. MFrom r \<le> p \<and> p \<le> MTo r)"
  by (induction l) (auto simp: MemoryPortRangeContains_def)

lemma PortListFromProto_Contains:
  "MemoryPortListContains (PortListFromProto l) p \<longleftrightarrow> (\<exists>r \<in> set l. PortRangeContains r p)"
  by (auto simp: MemoryPortListContains_iff PortListFromProto_def PortRangeContains_def)

lemma HasNetwork_iff: "HasNetwork l n \<longleftrightarrow> n \<in> set l"
  by (induction l) auto

lemma IPAddress_16: "length p = 16 \<Longrightarrow> IPAddress p \<noteq> None"
  by (simp add: IPAddress_def)

lemma ParseAddress_no_fallback:
  "ParseIP s = Some p \<Longrightarrow> \<exists>a. IPAddress p = Some a"
  using ParseIP_length [of s p] IPAddress_16 [of p] by auto

lemma IPAddress_std_addr:
  "IPAddress p = Some a \<longleftrightarrow>
   (\<exists>q. To4 p = Some q \<and> a = ipv4Address q) \<or> (To4 p = None \<and> length p = 16 \<and> a = ipv6Address p)"
  by (auto simp: IPAddress_def To4_def is_v4_mapped_def)

end
