(* ===== verification/IPMatcherDefs.thy ===== *)
theory IPMatcherDefs
  imports Net "HOL-Library.Product_Lexorder"
begin

text \<open>
  The definitions of \<open>common/geodata/ip_matcher.go\<close>: IP sets with the length of their longest
  prefix, the heuristic matchers that test one representative per /24 or /64 when no prefix is
  longer, the matcher over several of them, and the factory that builds sets from CIDRs.
  Every function takes the record \<open>nx\<close> of the third-party package netipx. Where the code
  ranges over a map and the order shows in the result (\<open>FilterIPs\<close>), the order of iteration
  is a parameter.
\<close>

section \<open>Sets and matchers\<close>

record 's IPSet =
  ipv4 :: 's
  ipv6 :: 's
  max4 :: u8
  max6 :: u8

record 's HeuristicIPMatcher =
  ipset :: "'s IPSet"
  mreverse :: bool

record ipBucket =
  rep :: addr
  ips :: "ip list"

type_synonym key = "byte list"

definition newHeuristicIPMatcher :: "'s IPSet \<Rightarrow> bool \<Rightarrow> 's HeuristicIPMatcher" where
  "newHeuristicIPMatcher s r = \<lparr>ipset = s, mreverse = r\<rparr>"

definition matchAddr :: "'s netipx \<Rightarrow> 's HeuristicIPMatcher \<Rightarrow> addr \<Rightarrow> bool" where
  "matchAddr nx m a =
     (if Is4 a then
        (if max4 (ipset m) = 0xff then mreverse m
         else SetContains nx (ipv4 (ipset m)) a \<noteq> mreverse m)
      else if Is6 a then
        (if max6 (ipset m) = 0xff then mreverse m
         else SetContains nx (ipv6 (ipset m)) a \<noteq> mreverse m)
      else False)"

definition Match :: "'s netipx \<Rightarrow> 's HeuristicIPMatcher \<Rightarrow> ip \<Rightarrow> bool" where
  "Match nx m p = (case FromStdIP nx p of None \<Rightarrow> False | Some a \<Rightarrow> matchAddr nx m a)"

definition prefixKeyFromIP :: "ip \<Rightarrow> key option" where
  "prefixKeyFromIP p =
     (case To4 p of
        Some q \<Rightarrow> Some ([4, q ! 0, q ! 1, q ! 2] @ replicate 5 0)
      | None \<Rightarrow>
          (case To16 p of Some q \<Rightarrow> Some (6 # take 8 q) | None \<Rightarrow> None))"

abbreviation heur4 :: "'s HeuristicIPMatcher \<Rightarrow> bool" where
  "heur4 m \<equiv> max4 (ipset m) \<le> 24"

abbreviation heur6 :: "'s HeuristicIPMatcher \<Rightarrow> bool" where
  "heur6 m \<equiv> max6 (ipset m) \<le> 64"

definition key_heur :: "'s HeuristicIPMatcher \<Rightarrow> key \<Rightarrow> bool" where
  "key_heur m k \<longleftrightarrow> (k ! 0 = 4 \<and> heur4 m) \<or> (k ! 0 = 6 \<and> heur6 m)"

section \<open>HeuristicIPMatcher\<close>

fun any_plain :: "'s netipx \<Rightarrow> 's HeuristicIPMatcher \<Rightarrow> ip list \<Rightarrow> bool" where
  "any_plain nx m [] = False"
| "any_plain nx m (p # ps) =
     (case FromStdIP nx p of
        Some a \<Rightarrow> if matchAddr nx m a then True else any_plain nx m ps
      | None \<Rightarrow> any_plain nx m ps)"

fun any_buckets :: "'s netipx \<Rightarrow> 's HeuristicIPMatcher \<Rightarrow> key list \<Rightarrow> ip list \<Rightarrow> bool" where
  "any_buckets nx m seen [] = False"
| "any_buckets nx m seen (p # ps) =
     (case prefixKeyFromIP p of
        None \<Rightarrow> any_buckets nx m seen ps
      | Some k \<Rightarrow>
          if key_heur m k \<and> k \<in> set seen then any_buckets nx m seen ps
          else (case FromStdIP nx p of
                  None \<Rightarrow> any_buckets nx m seen ps
                | Some a \<Rightarrow>
                    if matchAddr nx m a then True
                    else any_buckets nx m (if key_heur m k then k # seen else seen) ps))"

definition AnyMatch :: "'s netipx \<Rightarrow> 's HeuristicIPMatcher \<Rightarrow> ip list \<Rightarrow> bool" where
  "AnyMatch nx m ps =
     (case ps of
        [] \<Rightarrow> False
      | [p] \<Rightarrow> Match nx m p
      | _ \<Rightarrow> if \<not> heur4 m \<and> \<not> heur6 m then any_plain nx m ps else any_buckets nx m [] ps)"

fun matches_plain :: "'s netipx \<Rightarrow> 's HeuristicIPMatcher \<Rightarrow> ip list \<Rightarrow> bool" where
  "matches_plain nx m [] = True"
| "matches_plain nx m (p # ps) =
     (case FromStdIP nx p of
        None \<Rightarrow> False
      | Some a \<Rightarrow> if \<not> matchAddr nx m a then False else matches_plain nx m ps)"

text \<open>The first loop of \<open>Matches\<close>: it fills the buckets and the list of precise addresses;
  \<open>None\<close> is its early \<open>return false\<close>.\<close>

fun matches_split :: "'s netipx \<Rightarrow> 's HeuristicIPMatcher \<Rightarrow> (key, addr) go_map \<Rightarrow> addr list \<Rightarrow>
    ip list \<Rightarrow> ((key, addr) go_map \<times> addr list) option" where
  "matches_split nx m bk pr [] = Some (bk, pr)"
| "matches_split nx m bk pr (p # ps) =
     (case prefixKeyFromIP p of
        None \<Rightarrow> None
      | Some k \<Rightarrow>
          if key_heur m k then
            (if al_get bk k = None then
               (case FromStdIP nx p of None \<Rightarrow> None
                | Some a \<Rightarrow> matches_split nx m (al_put k a bk) pr ps)
             else matches_split nx m bk pr ps)
          else
            (case FromStdIP nx p of None \<Rightarrow> None
             | Some a \<Rightarrow> matches_split nx m bk (pr @ [a]) ps))"

definition Matches :: "'s netipx \<Rightarrow> 's HeuristicIPMatcher \<Rightarrow> ip list \<Rightarrow> bool" where
  "Matches nx m ps =
     (case ps of
        [] \<Rightarrow> False
      | [p] \<Rightarrow> Match nx m p
      | _ \<Rightarrow>
          if \<not> heur4 m \<and> \<not> heur6 m then matches_plain nx m ps
          else (case matches_split nx m [] [] ps of
                  None \<Rightarrow> False
                | Some (bk, pr) \<Rightarrow>
                    list_all (\<lambda>e. matchAddr nx m (snd e)) bk \<and> list_all (matchAddr nx m) pr))"

fun filter_plain :: "'s netipx \<Rightarrow> 's HeuristicIPMatcher \<Rightarrow> ip list \<Rightarrow> ip list \<times> ip list" where
  "filter_plain nx m [] = ([], [])"
| "filter_plain nx m (p # ps) =
     (case filter_plain nx m ps of (mt, un) \<Rightarrow>
        (case FromStdIP nx p of
           None \<Rightarrow> (mt, un)
         | Some a \<Rightarrow> if matchAddr nx m a then (p # mt, un) else (mt, p # un)))"

fun filter_split :: "'s netipx \<Rightarrow> 's HeuristicIPMatcher \<Rightarrow> (key, ipBucket) go_map \<Rightarrow> ip list \<Rightarrow>
    ip list \<Rightarrow> (key, ipBucket) go_map \<times> ip list" where
  "filter_split nx m bk pr [] = (bk, pr)"
| "filter_split nx m bk pr (p # ps) =
     (case prefixKeyFromIP p of
        None \<Rightarrow> filter_split nx m bk pr ps
      | Some k \<Rightarrow>
          if (k ! 0 = 4 \<and> \<not> heur4 m) \<or> (k ! 0 = 6 \<and> \<not> heur6 m)
          then filter_split nx m bk (pr @ [p]) ps
          else (case al_get bk k of
                  Some b \<Rightarrow> filter_split nx m (al_put k (b\<lparr>ips := ips b @ [p]\<rparr>) bk) pr ps
                | None \<Rightarrow>
                    (case FromStdIP nx p of
                       None \<Rightarrow> filter_split nx m bk pr ps
                     | Some a \<Rightarrow>
                         filter_split nx m (al_put k \<lparr>rep = a, ips = [p]\<rparr> bk) pr ps)))"

fun filter_buckets :: "'s netipx \<Rightarrow> 's HeuristicIPMatcher \<Rightarrow> (key \<times> ipBucket) list \<Rightarrow>
    ip list \<times> ip list" where
  "filter_buckets nx m [] = ([], [])"
| "filter_buckets nx m ((k, b) # bs) =
     (case filter_buckets nx m bs of (mt, un) \<Rightarrow>
        if matchAddr nx m (rep b) then (ips b @ mt, un) else (mt, ips b @ un))"

type_synonym bucket_order = "(key \<times> ipBucket) list \<Rightarrow> (key \<times> ipBucket) list"

definition FilterIPs :: "'s netipx \<Rightarrow> bucket_order \<Rightarrow> 's HeuristicIPMatcher \<Rightarrow> ip list \<Rightarrow>
    ip list \<times> ip list" where
  "FilterIPs nx ord m ps =
     (case ps of
        [] \<Rightarrow> ([], [])
      | [p] \<Rightarrow>
          (case FromStdIP nx p of
             None \<Rightarrow> ([], [])
           | Some a \<Rightarrow> if matchAddr nx m a then ([p], []) else ([], [p]))
      | _ \<Rightarrow>
          if \<not> heur4 m \<and> \<not> heur6 m then filter_plain nx m ps
          else (case filter_split nx m [] [] ps of (bk, pr) \<Rightarrow>
                  (case filter_buckets nx m (ord bk) of (mt, un) \<Rightarrow>
                     (case filter_plain nx m pr of (mt', un') \<Rightarrow> (mt @ mt', un @ un')))))"

definition ToggleReverse :: "'s HeuristicIPMatcher \<Rightarrow> 's HeuristicIPMatcher" where
  "ToggleReverse m = m\<lparr>mreverse := \<not> mreverse m\<rparr>"

definition SetReverse :: "bool \<Rightarrow> 's HeuristicIPMatcher \<Rightarrow> 's HeuristicIPMatcher" where
  "SetReverse r m = m\<lparr>mreverse := r\<rparr>"

section \<open>GeneralMultiIPMatcher\<close>

text \<open>A list of matchers behind the interface \<open>IPMatcher\<close>; the methods of the interface are
  arguments.\<close>

fun general_Match :: "('m \<Rightarrow> ip \<Rightarrow> bool) \<Rightarrow> 'm list \<Rightarrow> ip \<Rightarrow> bool" where
  "general_Match f [] p = False"
| "general_Match f (m # ms) p = (if f m p then True else general_Match f ms p)"

fun general_AnyMatch :: "('m \<Rightarrow> ip list \<Rightarrow> bool) \<Rightarrow> 'm list \<Rightarrow> ip list \<Rightarrow> bool" where
  "general_AnyMatch f [] ps = False"
| "general_AnyMatch f (m # ms) ps = (if f m ps then True else general_AnyMatch f ms ps)"

fun general_Matches :: "('m \<Rightarrow> ip list \<Rightarrow> bool) \<Rightarrow> 'm list \<Rightarrow> ip list \<Rightarrow> bool" where
  "general_Matches f [] ps = False"
| "general_Matches f (m # ms) ps = (if f m ps then True else general_Matches f ms ps)"

fun general_FilterIPs :: "('m \<Rightarrow> ip list \<Rightarrow> ip list \<times> ip list) \<Rightarrow> 'm list \<Rightarrow>
    ip list \<Rightarrow> ip list \<Rightarrow> ip list \<times> ip list" where
  "general_FilterIPs f [] mt un = (mt, un)"
| "general_FilterIPs f (m # ms) mt un =
     (if un = [] then (mt, un)
      else (case f m un of (mt', un') \<Rightarrow> general_FilterIPs f ms (mt @ mt') un'))"

section \<open>HeuristicMultiIPMatcher\<close>

fun any_addr :: "'s netipx \<Rightarrow> 's HeuristicIPMatcher list \<Rightarrow> addr \<Rightarrow> bool" where
  "any_addr nx [] a = False"
| "any_addr nx (m # ms) a = (if matchAddr nx m a then True else any_addr nx ms a)"

definition multi_Match :: "'s netipx \<Rightarrow> 's HeuristicIPMatcher list \<Rightarrow> ip \<Rightarrow> bool" where
  "multi_Match nx ms p = (case FromStdIP nx p of None \<Rightarrow> False | Some a \<Rightarrow> any_addr nx ms a)"

text \<open>The inner loop of \<open>AnyMatch\<close> over the matchers for one address: the lazily converted
  address (\<open>AddrZero\<close> until then), the state byte (0 not initialised, 1 initialised, 4 or 6:
  the matchers with buckets for that family may be skipped) and the buckets. The result is the
  answer and the buckets.\<close>

fun multi_any_inner :: "'s netipx \<Rightarrow> ip \<Rightarrow> 's HeuristicIPMatcher list \<Rightarrow> addr \<Rightarrow> byte \<Rightarrow> key list \<Rightarrow>
    bool \<times> key list" where
  "multi_any_inner nx p [] ipx state seen = (False, seen)"
| "multi_any_inner nx p (m # ms) ipx state seen =
     (case (if state = 0 \<and> (heur4 m \<or> heur6 m) then
              (case prefixKeyFromIP p of
                 None \<Rightarrow> None
               | Some k \<Rightarrow> if k \<in> set seen then Some (k ! 0, seen) else Some (1, k # seen))
            else Some (state, seen)) of
        None \<Rightarrow> (False, seen)
      | Some (state', seen') \<Rightarrow>
          if (heur4 m \<and> state' = 4) \<or> (heur6 m \<and> state' = 6)
          then multi_any_inner nx p ms ipx state' seen'
          else (case (if AddrIsValid ipx then Some ipx else FromStdIP nx p) of
                  None \<Rightarrow> (False, seen')
                | Some a \<Rightarrow>
                    if matchAddr nx m a then (True, seen')
                    else multi_any_inner nx p ms a state' seen'))"

fun multi_any_loop :: "'s netipx \<Rightarrow> 's HeuristicIPMatcher list \<Rightarrow> key list \<Rightarrow> ip list \<Rightarrow> bool" where
  "multi_any_loop nx ms seen [] = False"
| "multi_any_loop nx ms seen (p # ps) =
     (case multi_any_inner nx p ms AddrZero 0 seen of (r, seen') \<Rightarrow>
        if r then True else multi_any_loop nx ms seen' ps)"

definition multi_AnyMatch :: "'s netipx \<Rightarrow> 's HeuristicIPMatcher list \<Rightarrow> ip list \<Rightarrow> bool" where
  "multi_AnyMatch nx ms ps =
     (case ps of [] \<Rightarrow> False | [p] \<Rightarrow> multi_Match nx ms p | _ \<Rightarrow> multi_any_loop nx ms [] ps)"

text \<open>The views of \<open>Matches\<close>: a nil map or slice is \<open>None\<close>.\<close>

record ipViews =
  vbuckets4 :: "(key, addr) go_map option"
  vbuckets6 :: "(key, addr) go_map option"
  vprecise4 :: "addr list option"
  vprecise6 :: "addr list option"

definition empty_views :: ipViews where
  "empty_views = \<lparr>vbuckets4 = None, vbuckets6 = None, vprecise4 = None, vprecise6 = None\<rparr>"

text \<open>One address entered into the view of its family; \<open>None\<close> is the early \<open>return false\<close>.\<close>

definition view_step :: "'s netipx \<Rightarrow> bool \<Rightarrow> bool \<Rightarrow> key \<Rightarrow> ip \<Rightarrow>
    (key, addr) go_map option \<times> addr list option \<Rightarrow> ((key, addr) go_map option \<times> addr list option) option"
where
  "view_step nx needH needP k p v =
     (case v of (bk, pr) \<Rightarrow>
        (case (if needH \<and> al_get (the bk) k = None then
                 (case FromStdIP nx p of None \<Rightarrow> None
                  | Some a \<Rightarrow> Some (a, map_option (al_put k a) bk))
               else Some (AddrZero, bk)) of
           None \<Rightarrow> None
         | Some (ipx, bk') \<Rightarrow>
             if needP then
               (case (if AddrIsValid ipx then Some ipx else FromStdIP nx p) of
                  None \<Rightarrow> None
                | Some a \<Rightarrow> Some (bk', map_option (\<lambda>l. l @ [a]) pr))
             else Some (bk', pr)))"

fun views_loop :: "'s netipx \<Rightarrow> bool \<Rightarrow> bool \<Rightarrow> bool \<Rightarrow> bool \<Rightarrow> ip list \<Rightarrow> ipViews \<Rightarrow> ipViews option"
where
  "views_loop nx h4 h6 p4 p6 [] v = Some v"
| "views_loop nx h4 h6 p4 p6 (p # ps) v =
     (case prefixKeyFromIP p of
        None \<Rightarrow> None
      | Some k \<Rightarrow>
          if k ! 0 = 4 then
            (case view_step nx h4 p4 k p (vbuckets4 v, vprecise4 v) of
               None \<Rightarrow> None
             | Some (b, l) \<Rightarrow> views_loop nx h4 h6 p4 p6 ps (v\<lparr>vbuckets4 := b, vprecise4 := l\<rparr>))
          else if k ! 0 = 6 then
            (case view_step nx h6 p6 k p (vbuckets6 v, vprecise6 v) of
               None \<Rightarrow> None
             | Some (b, l) \<Rightarrow> views_loop nx h4 h6 p4 p6 ps (v\<lparr>vbuckets6 := b, vprecise6 := l\<rparr>))
          else None)"

text \<open>\<open>ensureForMatcher\<close>: the views that the matcher needs and that are still nil are created
  and filled.\<close>

definition ensureForMatcher :: "'s netipx \<Rightarrow> 's HeuristicIPMatcher \<Rightarrow> ip list \<Rightarrow> ipViews \<Rightarrow> ipViews option"
where
  "ensureForMatcher nx m ps v =
     (let needHeur4 = heur4 m \<and> vbuckets4 v = None;
          needHeur6 = heur6 m \<and> vbuckets6 v = None;
          needPrec4 = \<not> heur4 m \<and> vprecise4 v = None;
          needPrec6 = \<not> heur6 m \<and> vprecise6 v = None
      in if \<not> needHeur4 \<and> \<not> needHeur6 \<and> \<not> needPrec4 \<and> \<not> needPrec6 then Some v
         else views_loop nx needHeur4 needHeur6 needPrec4 needPrec6 ps
                (v\<lparr>vbuckets4 := if needHeur4 then Some [] else vbuckets4 v,
                   vbuckets6 := if needHeur6 then Some [] else vbuckets6 v,
                   vprecise4 := if needPrec4 then Some [] else vprecise4 v,
                   vprecise6 := if needPrec6 then Some [] else vprecise6 v\<rparr>))"

definition view_all :: "'s netipx \<Rightarrow> 's HeuristicIPMatcher \<Rightarrow> bool \<Rightarrow>
    (key, addr) go_map option \<Rightarrow> addr list option \<Rightarrow> bool" where
  "view_all nx m heur bk pr =
     (if heur then list_all (\<lambda>e. matchAddr nx m (snd e)) (case bk of None \<Rightarrow> [] | Some b \<Rightarrow> b)
      else list_all (matchAddr nx m) (case pr of None \<Rightarrow> [] | Some l \<Rightarrow> l))"

fun multi_matches_loop :: "'s netipx \<Rightarrow> 's HeuristicIPMatcher list \<Rightarrow> ip list \<Rightarrow> ipViews \<Rightarrow> bool" where
  "multi_matches_loop nx [] ps v = False"
| "multi_matches_loop nx (m # ms) ps v =
     (case ensureForMatcher nx m ps v of
        None \<Rightarrow> False
      | Some v' \<Rightarrow>
          if view_all nx m (heur4 m) (vbuckets4 v') (vprecise4 v') \<and>
             view_all nx m (heur6 m) (vbuckets6 v') (vprecise6 v')
          then True else multi_matches_loop nx ms ps v')"

definition multi_Matches :: "'s netipx \<Rightarrow> 's HeuristicIPMatcher list \<Rightarrow> ip list \<Rightarrow> bool" where
  "multi_Matches nx ms ps =
     (case ps of [] \<Rightarrow> False | [p] \<Rightarrow> multi_Match nx ms p
      | _ \<Rightarrow> multi_matches_loop nx ms ps empty_views)"

end
