(* ===== verification/IPFactoryDefs.thy ===== *)
theory IPFactoryDefs
  imports IPMatcherDefs
begin

text \<open>
  The rest of \<open>common/geodata/ip_matcher.go\<close>, \<open>FilterIPs\<close> of the matcher over several
  heuristic matchers, the factory and \<open>buildOptimizedIPMatcher\<close>, and the registry of
  reloadable matchers of \<open>common/geodata/ip_registry.go\<close>. Reading a GeoIP file (\<open>loadIP\<close>) is
  I/O and a parameter. The shared cache of the factory holds weak references, so an entry may
  be absent at any time; it is a map that the functions pass along.
\<close>

section \<open>FilterIPs over several matchers\<close>

record ipBucketViews =
  fbuckets4 :: "(key, ipBucket option) go_map option"
  fbuckets6 :: "(key, ipBucket option) go_map option"
  fprecise4 :: "(addr, ip option) go_map option"
  fprecise6 :: "(addr, ip option) go_map option"

definition empty_bucket_views :: ipBucketViews where
  "empty_bucket_views =
     \<lparr>fbuckets4 = None, fbuckets6 = None, fprecise4 = None, fprecise6 = None\<rparr>"

text \<open>One address entered into the view of its family. An address that netipx rejects leaves
  the views as they are (the \<open>continue\<close> of the code), but a bucket already extended stays so.\<close>

definition bucket_step :: "'s netipx \<Rightarrow> bool \<Rightarrow> bool \<Rightarrow> key \<Rightarrow> ip \<Rightarrow>
    (key, ipBucket option) go_map option \<times> (addr, ip option) go_map option \<Rightarrow>
    (key, ipBucket option) go_map option \<times> (addr, ip option) go_map option" where
  "bucket_step nx needH needP k p v =
     (case v of (bk, pr) \<Rightarrow>
        (case (if needH then
                 (case al_get (the bk) k of
                    Some b \<Rightarrow>
                      Some (AddrZero,
                        map_option (al_put k (map_option (\<lambda>x. x\<lparr>ips := ips x @ [p]\<rparr>) b)) bk)
                  | None \<Rightarrow>
                      (case FromStdIP nx p of
                         None \<Rightarrow> None
                       | Some a \<Rightarrow> Some (a, map_option (al_put k (Some \<lparr>rep = a, ips = [p]\<rparr>)) bk)))
               else Some (AddrZero, bk)) of
           None \<Rightarrow> (bk, pr)
         | Some (ipx, bk') \<Rightarrow>
             if needP then
               (case (if AddrIsValid ipx then Some ipx else FromStdIP nx p) of
                  None \<Rightarrow> (bk', pr)
                | Some a \<Rightarrow> (bk', map_option (al_put a (Some p)) pr))
             else (bk', pr)))"

fun bucket_views_loop :: "'s netipx \<Rightarrow> bool \<Rightarrow> bool \<Rightarrow> bool \<Rightarrow> bool \<Rightarrow> ip list \<Rightarrow> ipBucketViews \<Rightarrow>
    ipBucketViews" where
  "bucket_views_loop nx h4 h6 p4 p6 [] v = v"
| "bucket_views_loop nx h4 h6 p4 p6 (p # ps) v =
     bucket_views_loop nx h4 h6 p4 p6 ps
       (case prefixKeyFromIP p of
          None \<Rightarrow> v
        | Some k \<Rightarrow>
            if k ! 0 = 4 then
              (case bucket_step nx h4 p4 k p (fbuckets4 v, fprecise4 v) of
                 (b, l) \<Rightarrow> v\<lparr>fbuckets4 := b, fprecise4 := l\<rparr>)
            else if k ! 0 = 6 then
              (case bucket_step nx h6 p6 k p (fbuckets6 v, fprecise6 v) of
                 (b, l) \<Rightarrow> v\<lparr>fbuckets6 := b, fprecise6 := l\<rparr>)
            else v)"

definition bucketEnsureForMatcher :: "'s netipx \<Rightarrow> 's HeuristicIPMatcher \<Rightarrow> ip list \<Rightarrow> ipBucketViews \<Rightarrow>
    ipBucketViews" where
  "bucketEnsureForMatcher nx m ps v =
     (let needHeur4 = heur4 m \<and> fbuckets4 v = None;
          needHeur6 = heur6 m \<and> fbuckets6 v = None;
          needPrec4 = \<not> heur4 m \<and> fprecise4 v = None;
          needPrec6 = \<not> heur6 m \<and> fprecise6 v = None
      in if \<not> needHeur4 \<and> \<not> needHeur6 \<and> \<not> needPrec4 \<and> \<not> needPrec6 then v
         else bucket_views_loop nx needHeur4 needHeur6 needPrec4 needPrec6 ps
                (v\<lparr>fbuckets4 := if needHeur4 then Some [] else fbuckets4 v,
                   fbuckets6 := if needHeur6 then Some [] else fbuckets6 v,
                   fprecise4 := if needPrec4 then Some [] else fprecise4 v,
                   fprecise6 := if needPrec6 then Some [] else fprecise6 v\<rparr>))"

text \<open>The loops that move what a matcher accepts from a view to the matched list: the entry of
  the map becomes nil.\<close>

fun drain_buckets :: "'s netipx \<Rightarrow> 's HeuristicIPMatcher \<Rightarrow> (key \<times> ipBucket option) list \<Rightarrow>
    (key, ipBucket option) go_map \<Rightarrow> ip list \<Rightarrow> (key, ipBucket option) go_map \<times> ip list" where
  "drain_buckets nx m [] bk mt = (bk, mt)"
| "drain_buckets nx m ((k, b) # es) bk mt =
     (case b of
        None \<Rightarrow> drain_buckets nx m es bk mt
      | Some x \<Rightarrow>
          if matchAddr nx m (rep x) then drain_buckets nx m es (al_put k None bk) (mt @ ips x)
          else drain_buckets nx m es bk mt)"

fun drain_precise :: "'s netipx \<Rightarrow> 's HeuristicIPMatcher \<Rightarrow> (addr \<times> ip option) list \<Rightarrow>
    (addr, ip option) go_map \<Rightarrow> ip list \<Rightarrow> (addr, ip option) go_map \<times> ip list" where
  "drain_precise nx m [] pr mt = (pr, mt)"
| "drain_precise nx m ((a, b) # es) pr mt =
     (case b of
        None \<Rightarrow> drain_precise nx m es pr mt
      | Some p \<Rightarrow>
          if matchAddr nx m a then drain_precise nx m es (al_put a None pr) (mt @ [p])
          else drain_precise nx m es pr mt)"

text \<open>The orders of iteration: over the buckets of one heuristic matcher, and over the two kinds
  of views.\<close>

record view_order =
  ordH :: bucket_order
  ordB :: "(key \<times> ipBucket option) list \<Rightarrow> (key \<times> ipBucket option) list"
  ordP :: "(addr \<times> ip option) list \<Rightarrow> (addr \<times> ip option) list"

definition drain_family :: "'s netipx \<Rightarrow> view_order \<Rightarrow> 's HeuristicIPMatcher \<Rightarrow> bool \<Rightarrow>
    (key, ipBucket option) go_map option \<Rightarrow> (addr, ip option) go_map option \<Rightarrow> ip list \<Rightarrow>
    (key, ipBucket option) go_map option \<times> (addr, ip option) go_map option \<times> ip list" where
  "drain_family nx o1 m heur bk pr mt =
     (if heur then
        (case bk of None \<Rightarrow> (bk, pr, mt)
         | Some b \<Rightarrow> (case drain_buckets nx m (ordB o1 b) b mt of (b', mt') \<Rightarrow> (Some b', pr, mt')))
      else
        (case pr of None \<Rightarrow> (bk, pr, mt)
         | Some l \<Rightarrow> (case drain_precise nx m (ordP o1 l) l mt of (l', mt') \<Rightarrow> (bk, Some l', mt'))))"

fun multi_filter_loop :: "'s netipx \<Rightarrow> view_order \<Rightarrow> 's HeuristicIPMatcher list \<Rightarrow> ip list \<Rightarrow>
    ipBucketViews \<Rightarrow> ip list \<Rightarrow> ipBucketViews \<times> ip list" where
  "multi_filter_loop nx o1 [] ps v mt = (v, mt)"
| "multi_filter_loop nx o1 (m # ms) ps v mt =
     (let v' = bucketEnsureForMatcher nx m ps v in
        case drain_family nx o1 m (heur4 m) (fbuckets4 v') (fprecise4 v') mt of
          (b4, l4, mt') \<Rightarrow>
            (case drain_family nx o1 m (heur6 m) (fbuckets6 v') (fprecise6 v') mt' of
               (b6, l6, mt'') \<Rightarrow>
                 multi_filter_loop nx o1 ms ps
                   \<lparr>fbuckets4 = b4, fbuckets6 = b6, fprecise4 = l4, fprecise6 = l6\<rparr> mt''))"

definition left_buckets :: "view_order \<Rightarrow> (key, ipBucket option) go_map option \<Rightarrow> ip list" where
  "left_buckets o1 bk =
     (case bk of None \<Rightarrow> []
      | Some b \<Rightarrow> concat (map (\<lambda>e. case snd e of None \<Rightarrow> [] | Some x \<Rightarrow> ips x) (ordB o1 b)))"

definition left_precise :: "view_order \<Rightarrow> (addr, ip option) go_map option \<Rightarrow> ip list" where
  "left_precise o1 pr =
     (case pr of None \<Rightarrow> []
      | Some l \<Rightarrow> concat (map (\<lambda>e. case snd e of None \<Rightarrow> [] | Some p \<Rightarrow> [p]) (ordP o1 l)))"

definition multi_FilterIPs :: "'s netipx \<Rightarrow> view_order \<Rightarrow> 's HeuristicIPMatcher list \<Rightarrow> ip list \<Rightarrow>
    ip list \<times> ip list" where
  "multi_FilterIPs nx o1 ms ps =
     (case ps of
        [] \<Rightarrow> ([], [])
      | [p] \<Rightarrow>
          (case FromStdIP nx p of
             None \<Rightarrow> ([], [])
           | Some a \<Rightarrow> if any_addr nx ms a then ([p], []) else ([], [p]))
      | _ \<Rightarrow>
          (case multi_filter_loop nx o1 ms ps empty_bucket_views [] of (v, mt) \<Rightarrow>
             (mt, left_buckets o1 (fbuckets4 v) @ left_precise o1 (fprecise4 v) @
                  left_buckets o1 (fbuckets6 v) @ left_precise o1 (fprecise6 v))))"

definition multi_ToggleReverse :: "'s HeuristicIPMatcher list \<Rightarrow> 's HeuristicIPMatcher list" where
  "multi_ToggleReverse ms = map ToggleReverse ms"

definition multi_SetReverse :: "bool \<Rightarrow> 's HeuristicIPMatcher list \<Rightarrow> 's HeuristicIPMatcher list" where
  "multi_SetReverse r ms = map (SetReverse r) ms"

section \<open>IPSetFactory\<close>

record CIDR =
  cidr_ip :: ip
  cidr_prefix :: u32

record GeoIPRule =
  gip_file :: string
  gip_code :: string
  gip_reverse :: bool

datatype IPRule = IPRule_Custom CIDR bool | IPRule_Geoip GeoIPRule

datatype 'e ip_error = LoadFailed 'e | BuildIPv4Failed | BuildIPv6Failed | NoValidIPMatcher

text \<open>The callback of \<open>createFrom\<close>: a CIDR that gives no valid prefix is logged and skipped.\<close>

definition cidr_netprefix :: "CIDR \<Rightarrow> netprefix option" where
  "cidr_netprefix c =
     (case AddrFromSlice (cidr_ip c) of
        None \<Rightarrow> None
      | Some a \<Rightarrow>
          (let p = PrefixFrom a (unat (cidr_prefix c)) in if PrefixIsValid p then Some p else None))"

definition family_prefixes :: "(addr \<Rightarrow> bool) \<Rightarrow> CIDR list \<Rightarrow> netprefix list" where
  "family_prefixes fam cs = filter (\<lambda>p. fam (pfx_ip p)) (List.map_filter cidr_netprefix cs)"

fun max_bits :: "int \<Rightarrow> netprefix list \<Rightarrow> int" where
  "max_bits n [] = n"
| "max_bits n (p # ps) = max_bits (if n < PrefixBits p then PrefixBits p else n) ps"

definition max_code :: "netprefix list \<Rightarrow> u8" where
  "max_code ps =
     (if ps = [] then 0xff else if max_bits 0 ps = 0 then 0xfe else of_int (max_bits 0 ps))"

definition createFrom :: "'s netipx \<Rightarrow> CIDR list \<Rightarrow> 'e ip_error + 's IPSet" where
  "createFrom nx cs =
     (case IPSetBuild nx (family_prefixes Is4 cs) of
        None \<Rightarrow> Inl BuildIPv4Failed
      | Some s4 \<Rightarrow>
          (case IPSetBuild nx (family_prefixes Is6 cs) of
             None \<Rightarrow> Inl BuildIPv6Failed
           | Some s6 \<Rightarrow>
               Inr \<lparr>ipv4 = s4, ipv6 = s6,
                    max4 = max_code (SetPrefixes nx s4), max6 = max_code (SetPrefixes nx s6)\<rparr>))"

definition CreateFromCIDRs :: "'s netipx \<Rightarrow> CIDR list \<Rightarrow> 'e ip_error + 's IPSet" where
  "CreateFromCIDRs nx cs = createFrom nx cs"

fun geoip_key_loop :: "(string \<times> string) option \<Rightarrow> GeoIPRule list \<Rightarrow> string" where
  "geoip_key_loop prev [] = []"
| "geoip_key_loop prev (r # rs) =
     (if prev = Some (gip_file r, gip_code r) then geoip_key_loop prev rs
      else gip_file r @ '':'' @ gip_code r @ '','' @
           geoip_key_loop (Some (gip_file r, gip_code r)) rs)"

definition buildGeoIPRulesKey :: "GeoIPRule list \<Rightarrow> string" where
  "buildGeoIPRulesKey rs = geoip_key_loop None (sort_key (\<lambda>r. (gip_file r, gip_code r)) rs)"

type_synonym 's ip_cache = "(string, 's IPSet) go_map"
type_synonym 'e ip_loader = "string \<Rightarrow> string \<Rightarrow> 'e + CIDR list"

definition load_rules :: "'e ip_loader \<Rightarrow> GeoIPRule list \<Rightarrow> 'e + CIDR list" where
  "load_rules load rs =
     (case map_err (\<lambda>r. load (gip_file r) (gip_code r)) rs of Inl e \<Rightarrow> Inl e | Inr cs \<Rightarrow> Inr (concat cs))"

definition GetOrCreateFromGeoIPRules :: "'s netipx \<Rightarrow> 'e ip_loader \<Rightarrow> 's ip_cache \<Rightarrow> GeoIPRule list \<Rightarrow>
    ('e ip_error + 's IPSet) \<times> 's ip_cache" where
  "GetOrCreateFromGeoIPRules nx load cache rs =
     (case al_get cache (buildGeoIPRulesKey rs) of
        Some s \<Rightarrow> (Inr s, cache)
      | None \<Rightarrow>
          (case load_rules load rs of
             Inl e \<Rightarrow> (Inl (LoadFailed e), cache)
           | Inr cs \<Rightarrow>
               (case createFrom nx cs of
                  Inl e \<Rightarrow> (Inl e, cache)
                | Inr s \<Rightarrow> (Inr s, al_put (buildGeoIPRulesKey rs) s cache))))"

section \<open>buildOptimizedIPMatcher\<close>

datatype 's IPMatcher = Heuristic "'s HeuristicIPMatcher" | HeuristicMulti "'s HeuristicIPMatcher list"

definition posCustom :: "IPRule list \<Rightarrow> CIDR list" where
  "posCustom rs = List.map_filter (\<lambda>r. case r of IPRule_Custom c False \<Rightarrow> Some c | _ \<Rightarrow> None) rs"

definition negCustom :: "IPRule list \<Rightarrow> CIDR list" where
  "negCustom rs = List.map_filter (\<lambda>r. case r of IPRule_Custom c True \<Rightarrow> Some c | _ \<Rightarrow> None) rs"

definition posGeoip :: "IPRule list \<Rightarrow> GeoIPRule list" where
  "posGeoip rs = List.map_filter
     (\<lambda>r. case r of IPRule_Geoip g \<Rightarrow> if gip_reverse g then None else Some g | _ \<Rightarrow> None) rs"

definition negGeoip :: "IPRule list \<Rightarrow> GeoIPRule list" where
  "negGeoip rs = List.map_filter
     (\<lambda>r. case r of IPRule_Geoip g \<Rightarrow> if gip_reverse g then Some g else None | _ \<Rightarrow> None) rs"

definition custom_sub :: "'s netipx \<Rightarrow> CIDR list \<Rightarrow> bool \<Rightarrow> 'e ip_error + 's HeuristicIPMatcher list" where
  "custom_sub nx cs r =
     (if cs = [] then Inr []
      else (case CreateFromCIDRs nx cs of Inl e \<Rightarrow> Inl e | Inr s \<Rightarrow> Inr [newHeuristicIPMatcher s r]))"

definition geoip_sub :: "'s netipx \<Rightarrow> 'e ip_loader \<Rightarrow> 's ip_cache \<Rightarrow> GeoIPRule list \<Rightarrow> bool \<Rightarrow>
    ('e ip_error + 's HeuristicIPMatcher list) \<times> 's ip_cache" where
  "geoip_sub nx load cache gs r =
     (if gs = [] then (Inr [], cache)
      else (case GetOrCreateFromGeoIPRules nx load cache gs of
              (Inl e, c) \<Rightarrow> (Inl e, c) | (Inr s, c) \<Rightarrow> (Inr [newHeuristicIPMatcher s r], c)))"

definition pick_matcher :: "'s HeuristicIPMatcher list \<Rightarrow> 'e ip_error + 's IPMatcher" where
  "pick_matcher subs =
     (case subs of [] \<Rightarrow> Inl NoValidIPMatcher | [m] \<Rightarrow> Inr (Heuristic m) | _ \<Rightarrow> Inr (HeuristicMulti subs))"

definition buildOptimizedIPMatcher :: "'s netipx \<Rightarrow> 'e ip_loader \<Rightarrow> 's ip_cache \<Rightarrow> IPRule list \<Rightarrow>
    ('e ip_error + 's IPMatcher) \<times> 's ip_cache" where
  "buildOptimizedIPMatcher nx load cache rs =
     (case custom_sub nx (posCustom rs) False of
        Inl e \<Rightarrow> (Inl e, cache)
      | Inr s1 \<Rightarrow>
          (case custom_sub nx (negCustom rs) True of
             Inl e \<Rightarrow> (Inl e, cache)
           | Inr s2 \<Rightarrow>
               (case geoip_sub nx load cache (posGeoip rs) False of
                  (Inl e, c) \<Rightarrow> (Inl e, c)
                | (Inr s3, c) \<Rightarrow>
                    (case geoip_sub nx load c (negGeoip rs) True of
                       (Inl e, c') \<Rightarrow> (Inl e, c')
                     | (Inr s4, c') \<Rightarrow> (pick_matcher (s1 @ s2 @ s3 @ s4), c')))))"

section \<open>The methods of the interface IPMatcher\<close>

fun ipm_Match :: "'s netipx \<Rightarrow> 's IPMatcher \<Rightarrow> ip \<Rightarrow> bool" where
  "ipm_Match nx (Heuristic m) p = Match nx m p"
| "ipm_Match nx (HeuristicMulti ms) p = multi_Match nx ms p"

fun ipm_AnyMatch :: "'s netipx \<Rightarrow> 's IPMatcher \<Rightarrow> ip list \<Rightarrow> bool" where
  "ipm_AnyMatch nx (Heuristic m) ps = AnyMatch nx m ps"
| "ipm_AnyMatch nx (HeuristicMulti ms) ps = multi_AnyMatch nx ms ps"

fun ipm_Matches :: "'s netipx \<Rightarrow> 's IPMatcher \<Rightarrow> ip list \<Rightarrow> bool" where
  "ipm_Matches nx (Heuristic m) ps = Matches nx m ps"
| "ipm_Matches nx (HeuristicMulti ms) ps = multi_Matches nx ms ps"

fun ipm_FilterIPs :: "'s netipx \<Rightarrow> view_order \<Rightarrow> 's IPMatcher \<Rightarrow> ip list \<Rightarrow> ip list \<times> ip list" where
  "ipm_FilterIPs nx o1 (Heuristic m) ps = FilterIPs nx (ordH o1) m ps"
| "ipm_FilterIPs nx o1 (HeuristicMulti ms) ps = multi_FilterIPs nx o1 ms ps"

fun ipm_ToggleReverse :: "'s IPMatcher \<Rightarrow> 's IPMatcher" where
  "ipm_ToggleReverse (Heuristic m) = Heuristic (ToggleReverse m)"
| "ipm_ToggleReverse (HeuristicMulti ms) = HeuristicMulti (multi_ToggleReverse ms)"

fun ipm_SetReverse :: "bool \<Rightarrow> 's IPMatcher \<Rightarrow> 's IPMatcher" where
  "ipm_SetReverse r (Heuristic m) = Heuristic (SetReverse r m)"
| "ipm_SetReverse r (HeuristicMulti ms) = HeuristicMulti (multi_SetReverse r ms)"

section \<open>DynamicIPMatcher and IPRegistry\<close>

record 's DynamicIPMatcher =
  dyn_rules :: "IPRule list"
  dyn_matcher :: "'s IPMatcher"
  dyn_reverse :: bool
  dyn_reverseSet :: bool

definition dyn_Match :: "'s netipx \<Rightarrow> 's DynamicIPMatcher \<Rightarrow> ip \<Rightarrow> bool" where
  "dyn_Match nx d p = ipm_Match nx (dyn_matcher d) p"

definition dyn_AnyMatch :: "'s netipx \<Rightarrow> 's DynamicIPMatcher \<Rightarrow> ip list \<Rightarrow> bool" where
  "dyn_AnyMatch nx d ps = ipm_AnyMatch nx (dyn_matcher d) ps"

definition dyn_Matches :: "'s netipx \<Rightarrow> 's DynamicIPMatcher \<Rightarrow> ip list \<Rightarrow> bool" where
  "dyn_Matches nx d ps = ipm_Matches nx (dyn_matcher d) ps"

definition dyn_FilterIPs :: "'s netipx \<Rightarrow> view_order \<Rightarrow> 's DynamicIPMatcher \<Rightarrow> ip list \<Rightarrow>
    ip list \<times> ip list" where
  "dyn_FilterIPs nx o1 d ps = ipm_FilterIPs nx o1 (dyn_matcher d) ps"

definition dyn_ToggleReverse :: "'s DynamicIPMatcher \<Rightarrow> 's DynamicIPMatcher" where
  "dyn_ToggleReverse d =
     d\<lparr>dyn_reverse := \<not> dyn_reverse d, dyn_matcher := ipm_ToggleReverse (dyn_matcher d)\<rparr>"

definition dyn_SetReverse :: "bool \<Rightarrow> 's DynamicIPMatcher \<Rightarrow> 's DynamicIPMatcher" where
  "dyn_SetReverse r d =
     d\<lparr>dyn_reverse := r, dyn_reverseSet := True, dyn_matcher := ipm_SetReverse r (dyn_matcher d)\<rparr>"

definition dyn_Reload :: "'s DynamicIPMatcher \<Rightarrow> 's IPMatcher \<Rightarrow> 's DynamicIPMatcher" where
  "dyn_Reload d m =
     d\<lparr>dyn_matcher := (if dyn_reverseSet d then ipm_SetReverse (dyn_reverse d) m
                        else if dyn_reverse d then ipm_ToggleReverse m else m)\<rparr>"

definition NewDynamicIPMatcher :: "IPRule list \<Rightarrow> 's IPMatcher \<Rightarrow> 's DynamicIPMatcher" where
  "NewDynamicIPMatcher rs m =
     dyn_Reload \<lparr>dyn_rules = rs, dyn_matcher = m, dyn_reverse = False, dyn_reverseSet = False\<rparr> m"

text \<open>The registry: its factory's cache and the matchers still referenced. \<open>Reload\<close> rebuilds all
  of them with a new factory first, and replaces them only when every build succeeded.\<close>

record 's IPRegistry =
  reg_cache :: "'s ip_cache"
  reg_matchers :: "'s DynamicIPMatcher list"

definition BuildIPMatcher :: "'s netipx \<Rightarrow> 'e ip_loader \<Rightarrow> 's IPRegistry \<Rightarrow> IPRule list \<Rightarrow>
    ('e ip_error + 's DynamicIPMatcher) \<times> 's IPRegistry" where
  "BuildIPMatcher nx load reg rs =
     (case buildOptimizedIPMatcher nx load (reg_cache reg) rs of
        (Inl e, c) \<Rightarrow> (Inl e, reg\<lparr>reg_cache := c\<rparr>)
      | (Inr m, c) \<Rightarrow>
          (let d = NewDynamicIPMatcher rs m
           in (Inr d, reg\<lparr>reg_cache := c, reg_matchers := reg_matchers reg @ [d]\<rparr>)))"

fun rebuild_all :: "'s netipx \<Rightarrow> 'e ip_loader \<Rightarrow> 's ip_cache \<Rightarrow> 's DynamicIPMatcher list \<Rightarrow>
    'e ip_error + ('s ip_cache \<times> 's IPMatcher list)" where
  "rebuild_all nx load c [] = Inr (c, [])"
| "rebuild_all nx load c (d # ds) =
     (case buildOptimizedIPMatcher nx load c (dyn_rules d) of
        (Inl e, c') \<Rightarrow> Inl e
      | (Inr m, c') \<Rightarrow>
          (case rebuild_all nx load c' ds of Inl e \<Rightarrow> Inl e | Inr (c'', ms) \<Rightarrow> Inr (c'', m # ms)))"

definition RegistryReload :: "'s netipx \<Rightarrow> 'e ip_loader \<Rightarrow> 's IPRegistry \<Rightarrow>
    'e ip_error option \<times> 's IPRegistry" where
  "RegistryReload nx load reg =
     (case rebuild_all nx load [] (reg_matchers reg) of
        Inl e \<Rightarrow> (Some e, reg)
      | Inr (c, ms) \<Rightarrow>
          (None, reg\<lparr>reg_cache := c, reg_matchers := map2 dyn_Reload (reg_matchers reg) ms\<rparr>))"

end
