(* ===== verification/IPMatcher.thy ===== *)
theory IPMatcher
  imports IPFactoryDefs
begin

text \<open>
  The contract of the Go interface \<open>IPMatcher\<close> as two locales, and its proof for the heuristic
  matchers of \<open>common/geodata/ip_matcher.go\<close>. \<open>ip_matcher\<close> is what every implementation
  promises; \<open>exact_ip_matcher\<close> adds that \<open>Matches\<close> and \<open>FilterIPs\<close> decide each address on
  its own. The representation invariant of a heuristic matcher says that netipx keeps its
  promises and that \<open>max4\<close> and \<open>max6\<close> describe the prefixes of the two sets.
\<close>

section \<open>The contracts\<close>

locale ip_matcher =
  fixes inv :: "'m \<Rightarrow> bool"
    and M :: "'m \<Rightarrow> ip \<Rightarrow> bool"
    and Any :: "'m \<Rightarrow> ip list \<Rightarrow> bool"
    and All :: "'m \<Rightarrow> ip list \<Rightarrow> bool"
  assumes match_valid: "inv m \<Longrightarrow> M m p \<Longrightarrow> std_addr p \<noteq> None"
    and any_match: "inv m \<Longrightarrow> Any m ps \<longleftrightarrow> (\<exists>p \<in> set ps. M m p)"
    and matches_only: "inv m \<Longrightarrow> All m ps \<Longrightarrow> ps \<noteq> [] \<and> (\<forall>p \<in> set ps. M m p)"
begin

lemma any_append: "inv m \<Longrightarrow> Any m (ps @ qs) \<longleftrightarrow> Any m ps \<or> Any m qs"
  by (auto simp: any_match)

lemma any_perm: "inv m \<Longrightarrow> set ps = set qs \<Longrightarrow> Any m ps \<longleftrightarrow> Any m qs"
  by (simp add: any_match)

lemma all_imp_any: "inv m \<Longrightarrow> All m ps \<Longrightarrow> Any m ps"
  using matches_only [of m ps] by (cases ps) (auto simp: any_match)

lemma general_Match_iff: "general_Match M ms p \<longleftrightarrow> (\<exists>m \<in> set ms. M m p)"
  by (induction ms) auto

lemma general_AnyMatch_iff:
  "list_all inv ms \<Longrightarrow> general_AnyMatch Any ms ps \<longleftrightarrow> (\<exists>p \<in> set ps. general_Match M ms p)"
  by (induction ms) (auto simp: any_match general_Match_iff)

lemma general_Matches_iff: "general_Matches All ms ps \<longleftrightarrow> (\<exists>m \<in> set ms. All m ps)"
  by (induction ms) auto

end

text \<open>The matcher over a list of matchers (\<open>GeneralMultiIPMatcher\<close>) keeps the contract of the
  matchers it holds.\<close>

locale ip_matcher_member = member: ip_matcher inv M Any All
  for inv :: "'m \<Rightarrow> bool" and M :: "'m \<Rightarrow> ip \<Rightarrow> bool" and Any :: "'m \<Rightarrow> ip list \<Rightarrow> bool"
    and All :: "'m \<Rightarrow> ip list \<Rightarrow> bool"

sublocale ip_matcher_member \<subseteq> general: ip_matcher "list_all inv" "general_Match M"
  "general_AnyMatch Any" "general_Matches All"
proof
  fix ms :: "'m list" and p :: ip and ps :: "ip list"
  assume ms: "list_all inv ms"
  show "general_Match M ms p \<Longrightarrow> std_addr p \<noteq> None"
    using ms by (auto simp: member.general_Match_iff list_all_iff dest: member.match_valid)
  show "general_AnyMatch Any ms ps \<longleftrightarrow> (\<exists>p \<in> set ps. general_Match M ms p)"
    using ms by (rule member.general_AnyMatch_iff)
  show "general_Matches All ms ps \<Longrightarrow> ps \<noteq> [] \<and> (\<forall>p \<in> set ps. general_Match M ms p)"
    using ms by (auto simp: member.general_Matches_iff member.general_Match_iff list_all_iff
        dest: member.matches_only)
qed

locale exact_ip_matcher = ip_matcher inv M Any All
  for inv :: "'m \<Rightarrow> bool" and M :: "'m \<Rightarrow> ip \<Rightarrow> bool" and Any :: "'m \<Rightarrow> ip list \<Rightarrow> bool"
    and All :: "'m \<Rightarrow> ip list \<Rightarrow> bool" +
  fixes Filter :: "'m \<Rightarrow> ip list \<Rightarrow> ip list \<times> ip list"
  assumes matches_iff: "inv m \<Longrightarrow> All m ps \<longleftrightarrow> ps \<noteq> [] \<and> (\<forall>p \<in> set ps. M m p)"
    and filter_matched: "inv m \<Longrightarrow> mset (fst (Filter m ps)) = mset (filter (M m) ps)"
    and filter_unmatched: "inv m \<Longrightarrow>
      mset (snd (Filter m ps)) = mset (filter (\<lambda>p. std_addr p \<noteq> None \<and> \<not> M m p) ps)"
begin

lemma filter_partition:
  "inv m \<Longrightarrow> mset (fst (Filter m ps)) + mset (snd (Filter m ps)) =
    mset (filter (\<lambda>p. std_addr p \<noteq> None) ps)"
proof -
  assume m: "inv m"
  have "mset (filter (M m) ps) + mset (filter (\<lambda>p. std_addr p \<noteq> None \<and> \<not> M m p) ps) =
      mset (filter (\<lambda>p. std_addr p \<noteq> None) ps)"
    by (induction ps) (auto dest: match_valid [OF m])
  with m show ?thesis by (simp only: filter_matched filter_unmatched)
qed

lemma filter_matched_set: "inv m \<Longrightarrow> set (fst (Filter m ps)) = {p \<in> set ps. M m p}"
  using filter_matched [of m ps, THEN mset_eq_setD] by simp

lemma filter_unmatched_set:
  "inv m \<Longrightarrow> set (snd (Filter m ps)) = {p \<in> set ps. std_addr p \<noteq> None \<and> \<not> M m p}"
  using filter_unmatched [of m ps, THEN mset_eq_setD] by simp

lemma filter_disjoint: "inv m \<Longrightarrow> set (fst (Filter m ps)) \<inter> set (snd (Filter m ps)) = {}"
  using filter_matched_set [of m ps] filter_unmatched_set [of m ps] by auto

lemma any_iff_matched: "inv m \<Longrightarrow> Any m ps \<longleftrightarrow> fst (Filter m ps) \<noteq> []"
  using filter_matched_set [of m ps] by (auto simp: any_match simp flip: set_empty)

end

section \<open>The representation invariant\<close>

text \<open>A set and the code of its longest prefix, for one address family.\<close>

definition family_ok :: "'s netipx \<Rightarrow> 's \<Rightarrow> u8 \<Rightarrow> bool" where
  "family_ok nx s mx \<longleftrightarrow>
     (\<forall>a. SetContains nx s a \<longleftrightarrow> (\<exists>p \<in> set (SetPrefixes nx s). PrefixContains p a)) \<and>
     list_all (\<lambda>p. PrefixIsValid p \<and> PrefixWf p) (SetPrefixes nx s) \<and>
     mx = max_code (SetPrefixes nx s)"

definition ipset_ok :: "'s netipx \<Rightarrow> 's IPSet \<Rightarrow> bool" where
  "ipset_ok nx s \<longleftrightarrow> family_ok nx (ipv4 s) (max4 s) \<and> family_ok nx (ipv6 s) (max6 s)"

definition heur_inv :: "'s netipx \<Rightarrow> 's HeuristicIPMatcher \<Rightarrow> bool" where
  "heur_inv nx m \<longleftrightarrow> netipx_ok nx \<and> ipset_ok nx (ipset m)"

lemma max_bits_ge: "n \<le> max_bits n ps"
proof (induction ps arbitrary: n)
  case (Cons p ps)
  then show ?case by (simp add: order_trans less_imp_le) (meson less_imp_le order_trans)
qed simp

lemma max_bits_upper: "p \<in> set ps \<Longrightarrow> PrefixBits p \<le> max_bits n ps"
proof (induction ps arbitrary: n)
  case (Cons q ps)
  show ?case
  proof (cases "p = q")
    case True
    then show ?thesis
      using max_bits_ge [of "PrefixBits p" ps] max_bits_ge [of n ps] by (simp add: not_less)
  next
    case False
    with Cons show ?thesis by simp
  qed
qed simp

lemma max_bits_attained:
  "max_bits n ps = n \<or> (\<exists>p \<in> set ps. max_bits n ps = PrefixBits p)"
proof (induction ps arbitrary: n)
  case (Cons p ps)
  show ?case
    using Cons [of "PrefixBits p"] Cons [of n] by (cases "n < PrefixBits p") auto
qed simp

lemma PrefixBits_le_128: "PrefixWf p \<Longrightarrow> PrefixBits p \<le> 128"
  by (cases "pfx_ip p") (auto simp: PrefixWf_def PrefixBits_def)

lemma max_bits_le_128:
  assumes "list_all PrefixWf ps"
  shows "max_bits 0 ps \<le> 128"
  using max_bits_attained [of 0 ps] assms PrefixBits_le_128 by (fastforce simp: list_all_iff)

lemma max_code_bound:
  assumes "list_all PrefixWf ps" "max_code ps \<le> of_nat c" "c \<le> 128" "p \<in> set ps"
  shows "PrefixBits p \<le> int c"
proof -
  have c: "of_nat c < (0xfe :: u8)"
    using assms(3) by (simp add: word_less_nat_alt unat_of_nat)
  have "max_code ps < 0xfe" using assms(2) c by (rule le_less_trans)
  then have ne: "max_code ps \<noteq> 0xff" "max_code ps \<noteq> 0xfe"
    by auto
  then have mc: "max_code ps = of_int (max_bits 0 ps)"
    using assms(4) by (auto simp: max_code_def split: if_splits)
  have b: "0 \<le> max_bits 0 ps" "max_bits 0 ps \<le> 128"
    using max_bits_ge [of 0 ps] max_bits_le_128 [OF assms(1)] by auto
  then have "uint (of_int (max_bits 0 ps) :: u8) = max_bits 0 ps"
    by (simp add: uint_word_of_int_eq take_bit_int_eq_self)
  moreover have "uint (of_nat c :: u8) = int c"
    using assms(3) by (simp add: uint_nat unat_of_nat)
  ultimately have "max_bits 0 ps \<le> int c"
    using assms(2) mc by (simp add: word_le_def)
  with max_bits_upper [OF assms(4), of 0] show ?thesis by simp
qed

lemma family_same:
  assumes "family_ok nx s mx" "mx \<le> of_nat c" "c \<le> 128" "same_top_bits c a b"
  shows "SetContains nx s a \<longleftrightarrow> SetContains nx s b"
proof -
  have "PrefixContains p a \<longleftrightarrow> PrefixContains p b" if p: "p \<in> set (SetPrefixes nx s)" for p
  proof (rule PrefixContains_same [OF assms(4)])
    have "PrefixBits p \<le> int c"
      using assms p by (intro max_code_bound [of "SetPrefixes nx s"])
        (auto simp: family_ok_def list_all_iff)
    then show "pfx_bits1 p \<le> Suc c" by (simp add: PrefixBits_def)
  qed
  with assms(1) show ?thesis by (auto simp: family_ok_def)
qed

lemma family_empty: "family_ok nx s 0xff \<Longrightarrow> \<not> SetContains nx s a"
proof -
  assume ok: "family_ok nx s 0xff"
  then have "SetPrefixes nx s = []"
  proof (rule_tac ccontr)
    assume ne: "SetPrefixes nx s \<noteq> []"
    let ?b = "max_bits 0 (SetPrefixes nx s)"
    have b: "0 \<le> ?b" "?b \<le> 128"
      using ok max_bits_ge [of 0 "SetPrefixes nx s"] max_bits_le_128 [of "SetPrefixes nx s"]
      by (auto simp: family_ok_def list_all_iff)
    have "(0xff :: u8) = of_int ?b"
      using ok ne by (auto simp: family_ok_def max_code_def split: if_splits)
    moreover from b have "uint (of_int ?b :: u8) = ?b"
      by (simp add: uint_word_of_int_eq take_bit_int_eq_self)
    ultimately have "?b = 255" by simp
    with b show False by simp
  qed
  with ok show ?thesis by (simp add: family_ok_def)
qed

section \<open>Representatives\<close>

lemma heur_inv_std: "heur_inv nx m \<Longrightarrow> FromStdIP nx p = std_addr p"
  by (simp add: heur_inv_def netipx_FromStdIP)

lemma Match_std:
  "heur_inv nx m \<Longrightarrow> Match nx m p \<longleftrightarrow> (\<exists>a. std_addr p = Some a \<and> matchAddr nx m a)"
  by (simp add: Match_def heur_inv_std split: option.split)

lemma key_None_iff: "prefixKeyFromIP p = None \<longleftrightarrow> std_addr p = None"
  by (auto simp: prefixKeyFromIP_def std_addr_def To16_def To4_def split: option.splits if_splits)

lemma key_Some_std: "prefixKeyFromIP p = Some k \<Longrightarrow> \<exists>a. std_addr p = Some a"
  using key_None_iff [of p] by auto

lemma key_family:
  assumes "prefixKeyFromIP p = Some k" "std_addr p = Some a"
  shows "k ! 0 = 4 \<and> Is4 a \<or> k ! 0 = 6 \<and> Is6 a"
  using assms by (auto simp: prefixKeyFromIP_def std_addr_def split: option.splits if_splits)

lemma key_same_v4:
  assumes "length p = 4" "length q = 4" "p ! 0 = q ! 0" "p ! 1 = q ! 1" "p ! 2 = q ! 2"
  shows "same_top_bits 24 (V4 (be_word p)) (V4 (be_word q))"
proof -
  obtain x y z u where p: "p = [x, y, z, u]"
    using assms(1) by (auto simp: numeral_eq_Suc length_Suc_conv)
  obtain x' y' z' v where q: "q = [x', y', z', v]"
    using assms(2) by (auto simp: numeral_eq_Suc length_Suc_conv)
  have "q = [x, y, z] @ [v]" "p = [x, y, z] @ [u]" using assms p q by simp_all
  then show ?thesis
    using drop_bit_be_word_cong [of "[u]" "[v]" "[x, y, z]", where 'a = 32] by simp
qed

lemma key_same_v6:
  assumes "length p = 16" "length q = 16" "take 8 p = take 8 q"
  shows "same_top_bits 64 (V6 (be_word p)) (V6 (be_word q))"
proof -
  have "drop_bit (8 * length (drop 8 p)) (be_word (take 8 p @ drop 8 p) :: 128 word) =
      drop_bit (8 * length (drop 8 q)) (be_word (take 8 p @ drop 8 q))"
    using assms by (intro drop_bit_be_word_cong) simp
  then have "drop_bit (8 * length (drop 8 p)) (be_word p :: 128 word) =
      drop_bit (8 * length (drop 8 q)) (be_word q)"
    using assms(3) by (metis append_take_drop_id)
  then show ?thesis using assms by simp
qed

lemma key_same:
  assumes "prefixKeyFromIP p = Some k" "prefixKeyFromIP q = Some k"
    "std_addr p = Some a" "std_addr q = Some b"
  shows "k ! 0 = 4 \<and> same_top_bits 24 a b \<or> k ! 0 = 6 \<and> same_top_bits 64 a b"
  using assms(3)
proof (cases rule: std_addr_cases)
  case (v4 x)
  with assms(1,2) obtain y where y: "To4 q = Some y" "x ! 0 = y ! 0" "x ! 1 = y ! 1" "x ! 2 = y ! 2"
    and k: "k ! 0 = 4"
    by (auto simp: prefixKeyFromIP_def split: option.splits)
  with assms(4) have "b = V4 (be_word y)" by (simp add: std_addr_def)
  with k v4 y key_same_v4 [of x y] show ?thesis by (simp add: length_To4)
next
  case v6
  with assms(1) have k: "k = 6 # take 8 p" by (simp add: prefixKeyFromIP_def To16_def)
  with assms(2) have q: "To4 q = None" by (auto simp: prefixKeyFromIP_def split: option.splits)
  then have "length q \<noteq> 4" by (auto simp: To4_def)
  with k assms(2) q have "length q = 16" "take 8 q = take 8 p"
    by (auto simp: prefixKeyFromIP_def To16_def split: option.splits if_splits)
  moreover from this q assms(4) have "b = V6 (be_word q)" by (simp add: std_addr_def)
  ultimately show ?thesis using v6 k key_same_v6 [of p q] by simp
qed

text \<open>Addresses with the same key are equal for a matcher that uses buckets for the family: one
  representative decides for all of them.\<close>

lemma Match_same_key:
  assumes inv: "heur_inv nx m" and "key_heur m k"
    "prefixKeyFromIP p = Some k" "prefixKeyFromIP q = Some k"
  shows "Match nx m p \<longleftrightarrow> Match nx m q"
proof -
  obtain a b where ab: "std_addr p = Some a" "std_addr q = Some b"
    using assms(3,4) by (meson key_Some_std)
  consider "k ! 0 = 4" "heur4 m" "same_top_bits 24 a b" | "k ! 0 = 6" "heur6 m" "same_top_bits 64 a b"
    using key_same [OF assms(3,4) ab] assms(2) by (auto simp: key_heur_def)
  then have "matchAddr nx m a \<longleftrightarrow> matchAddr nx m b"
  proof cases
    case 1
    have "SetContains nx (ipv4 (ipset m)) a \<longleftrightarrow> SetContains nx (ipv4 (ipset m)) b"
      using inv 1 by (intro family_same [where c = 24]) (auto simp: heur_inv_def ipset_ok_def)
    with 1 key_family [OF assms(3) ab(1)] key_family [OF assms(4) ab(2)] show ?thesis
      by (auto simp: matchAddr_def)
  next
    case 2
    have "SetContains nx (ipv6 (ipset m)) a \<longleftrightarrow> SetContains nx (ipv6 (ipset m)) b"
      using inv 2 by (intro family_same [where c = 64]) (auto simp: heur_inv_def ipset_ok_def)
    with 2 key_family [OF assms(3) ab(1)] key_family [OF assms(4) ab(2)] show ?thesis
      by (cases a; cases b) (auto simp: matchAddr_def)
  qed
  with ab inv show ?thesis by (simp add: Match_std)
qed

section \<open>HeuristicIPMatcher keeps the exact contract\<close>

lemma any_plain_iff: "any_plain nx m ps \<longleftrightarrow> (\<exists>p \<in> set ps. Match nx m p)"
  by (induction ps) (auto simp: Match_def split: option.splits)

lemma any_buckets_iff:
  assumes inv: "heur_inv nx m"
    and "\<And>k q. k \<in> set seen \<Longrightarrow> prefixKeyFromIP q = Some k \<Longrightarrow> \<not> Match nx m q"
  shows "any_buckets nx m seen ps \<longleftrightarrow> (\<exists>p \<in> set ps. Match nx m p)"
  using assms(2)
proof (induction ps arbitrary: seen)
  case (Cons p ps)
  note std = heur_inv_std [OF inv] Match_std [OF inv]
  show ?case
  proof (cases "prefixKeyFromIP p")
    case None
    then have "\<not> Match nx m p" using key_None_iff [of p] by (simp add: std)
    with None Cons show ?thesis by simp
  next
    case (Some k)
    then obtain a where a: "std_addr p = Some a" using key_Some_std by blast
    have seen: "\<not> Match nx m q"
      if "\<not> Match nx m p" "j \<in> set (if key_heur m k then k # seen else seen)" "prefixKeyFromIP q = Some j"
      for j q
      using that Cons.prems [of j q] Match_same_key [OF inv _ Some, of q] by (auto split: if_splits)
    show ?thesis
      using Some a Cons.prems [of k p] Cons.IH [OF Cons.prems] Cons.IH [OF seen]
      by (auto simp: std)
  qed
qed simp

lemma AnyMatch_iff: "heur_inv nx m \<Longrightarrow> AnyMatch nx m ps \<longleftrightarrow> (\<exists>p \<in> set ps. Match nx m p)"
  using any_buckets_iff [of nx m "[]" ps]
  by (cases ps rule: list_cases3) (simp_all add: AnyMatch_def any_plain_iff)

lemma matches_plain_iff: "matches_plain nx m ps \<longleftrightarrow> (\<forall>p \<in> set ps. Match nx m p)"
  by (induction ps) (auto simp: Match_def split: option.splits)

lemma list_all_put:
  "al_get bk k = None \<Longrightarrow> list_all P (al_put k a bk) \<longleftrightarrow> P (k, a) \<and> list_all P bk"
  by (induction k a bk rule: al_put.induct) auto

lemma matches_split_iff:
  assumes inv: "heur_inv nx m"
    and "\<And>k a q. al_get bk k = Some a \<Longrightarrow> prefixKeyFromIP q = Some k \<Longrightarrow> key_heur m k \<Longrightarrow>
      Match nx m q \<longleftrightarrow> matchAddr nx m a"
  shows "(case matches_split nx m bk pr ps of None \<Rightarrow> False
      | Some (bk', pr') \<Rightarrow> list_all (\<lambda>e. matchAddr nx m (snd e)) bk' \<and> list_all (matchAddr nx m) pr') \<longleftrightarrow>
    list_all (\<lambda>e. matchAddr nx m (snd e)) bk \<and> list_all (matchAddr nx m) pr \<and>
    (\<forall>p \<in> set ps. Match nx m p)"
  using assms(2)
proof (induction ps arbitrary: bk pr)
  case (Cons p ps)
  note std = heur_inv_std [OF inv] Match_std [OF inv]
  show ?case
  proof (cases "prefixKeyFromIP p")
    case None
    then have "\<not> Match nx m p" using key_None_iff [of p] by (simp add: std)
    with None show ?thesis by simp
  next
    case (Some k)
    then obtain a where a: "std_addr p = Some a" using key_Some_std by blast
    then have mp: "Match nx m p \<longleftrightarrow> matchAddr nx m a" by (simp add: std)
    show ?thesis
    proof (cases "key_heur m k \<and> al_get bk k = None")
      case True
      have put: "Match nx m q \<longleftrightarrow> matchAddr nx m c"
        if "al_get (al_put k a bk) j = Some c" "prefixKeyFromIP q = Some j" "key_heur m j" for j c q
        using that Cons.prems [of j c q] Match_same_key [OF inv _ Some, of q] True mp
        by (auto simp: al_simps split: if_splits)
      from True Some a mp Cons.IH [OF put] show ?thesis
        by (auto simp: heur_inv_std [OF inv] list_all_put)
    next
      case False
      have "\<exists>c. al_get bk k = Some c \<and> (Match nx m p \<longleftrightarrow> matchAddr nx m c)" if "key_heur m k"
        using False that Cons.prems [of k _ p] Some by auto
      moreover have "matchAddr nx m c" if "list_all (\<lambda>e. matchAddr nx m (snd e)) bk" "al_get bk k = Some c"
        for c using that by (fastforce simp: list_all_iff dest: map_of_SomeD)
      ultimately show ?thesis
        using False Some a mp Cons.IH [OF Cons.prems] by (auto simp: heur_inv_std [OF inv])
    qed
  qed
qed simp

lemma Matches_iff: "heur_inv nx m \<Longrightarrow> Matches nx m ps \<longleftrightarrow> ps \<noteq> [] \<and> (\<forall>p \<in> set ps. Match nx m p)"
  using matches_split_iff [of nx m "[]" "[]" ps]
  by (cases ps rule: list_cases3) (auto simp: Matches_def matches_plain_iff)

lemma filter_plain_eq:
  "heur_inv nx m \<Longrightarrow> filter_plain nx m ps =
    (filter (Match nx m) ps, filter (\<lambda>p. std_addr p \<noteq> None \<and> \<not> Match nx m p) ps)"
  by (induction ps) (auto simp: Match_std heur_inv_std split: option.splits)

text \<open>The buckets of \<open>FilterIPs\<close>: the addresses of a bucket have its key, and the
  representative decides for them.\<close>

definition bucket_ok :: "'s netipx \<Rightarrow> 's HeuristicIPMatcher \<Rightarrow> key \<times> ipBucket \<Rightarrow> bool" where
  "bucket_ok nx m e \<longleftrightarrow> (\<forall>p \<in> set (ips (snd e)). prefixKeyFromIP p = Some (fst e)) \<and>
     (\<forall>q. prefixKeyFromIP q = Some (fst e) \<longrightarrow> (Match nx m q \<longleftrightarrow> matchAddr nx m (rep (snd e))))"

abbreviation bucket_ips :: "(key \<times> ipBucket) list \<Rightarrow> ip multiset" where
  "bucket_ips bk \<equiv> mset (concat (map (\<lambda>e. ips (snd e)) bk))"

lemma bucket_ips_cong: "mset xs = mset ys \<Longrightarrow> bucket_ips xs = bucket_ips ys"
proof -
  assume eq: "mset xs = mset ys"
  have "bucket_ips zs = (\<Sum>e\<in>#mset zs. mset (ips (snd e)))" for zs
    by (induction zs) auto
  with eq show ?thesis by simp
qed

lemma bucket_ips_put:
  "al_get bk k = None \<Longrightarrow> bucket_ips (al_put k b bk) = bucket_ips bk + mset (ips b)"
  "al_get bk k = Some c \<Longrightarrow> ips b = ips c @ ps \<Longrightarrow> bucket_ips (al_put k b bk) = bucket_ips bk + mset ps"
  by (induction k b bk rule: al_put.induct) (auto split: if_splits)

lemma list_all_put_intro: "P (k, v) \<Longrightarrow> list_all P m \<Longrightarrow> list_all P (al_put k v m)"
  by (induction k v m rule: al_put.induct) auto

lemma filter_split_spec:
  assumes inv: "heur_inv nx m" and "list_all (bucket_ok nx m) bk"
    and "filter_split nx m bk pr ps = (bk', pr')"
  shows "list_all (bucket_ok nx m) bk' \<and>
    bucket_ips bk' + mset pr' = bucket_ips bk + mset pr + mset (filter (\<lambda>p. std_addr p \<noteq> None) ps)"
  using assms(2,3)
proof (induction ps arbitrary: bk pr)
  case (Cons p ps)
  show ?case
  proof (cases "prefixKeyFromIP p")
    case None
    with Cons show ?thesis by (simp add: key_None_iff)
  next
    case (Some k)
    then obtain a where a: "std_addr p = Some a" using key_Some_std by blast
    let ?precise = "(k ! 0 = 4 \<and> \<not> heur4 m) \<or> (k ! 0 = 6 \<and> \<not> heur6 m)"
    have key: "key_heur m k" if "\<not> ?precise"
      using key_family [OF Some a] that by (auto simp: key_heur_def)
    have new: "bucket_ok nx m (k, \<lparr>rep = a, ips = [p]\<rparr>)" if "\<not> ?precise"
      using Match_same_key [OF inv key [OF that] Some] a Some
      by (simp add: bucket_ok_def Match_std [OF inv])
    have ext: "bucket_ok nx m (k, b\<lparr>ips := ips b @ [p]\<rparr>)" if "al_get bk k = Some b" for b
      using Cons.prems(1) map_of_SomeD [OF that] Some
      by (fastforce simp: list_all_iff bucket_ok_def)
    show ?thesis
    proof (cases ?precise)
      case True
      with Some Cons.prems(2) have "filter_split nx m bk (pr @ [p]) ps = (bk', pr')" by simp
      from Cons.IH [OF Cons.prems(1) this] a show ?thesis by simp
    next
      case False
      show ?thesis
      proof (cases "al_get bk k")
        case None
        with Some False Cons.prems(2) a
        have "filter_split nx m (al_put k \<lparr>rep = a, ips = [p]\<rparr> bk) pr ps = (bk', pr')"
          by (auto simp: heur_inv_std [OF inv] split: if_splits)
        from Cons.IH [OF list_all_put_intro [OF new [OF False] Cons.prems(1)] this] a None
        show ?thesis by (simp add: bucket_ips_put)
      next
        case (Some b)
        with \<open>prefixKeyFromIP p = Some k\<close> False Cons.prems(2)
        have "filter_split nx m (al_put k (b\<lparr>ips := ips b @ [p]\<rparr>) bk) pr ps = (bk', pr')"
          by (auto split: if_splits)
        from Cons.IH [OF list_all_put_intro [OF ext [OF Some] Cons.prems(1)] this] a
          bucket_ips_put(2) [OF Some, of "b\<lparr>ips := ips b @ [p]\<rparr>" "[p]"]
        show ?thesis by simp
      qed
    qed
  qed
qed simp

lemma filter_buckets_spec:
  "list_all (bucket_ok nx m) bk \<Longrightarrow>
   mset (fst (filter_buckets nx m bk)) = filter_mset (Match nx m) (bucket_ips bk) \<and>
   mset (snd (filter_buckets nx m bk)) = filter_mset (\<lambda>p. \<not> Match nx m p) (bucket_ips bk)"
proof (induction bk)
  case (Cons e bk)
  obtain k b where e: "e = (k, b)" by (cases e)
  have "Match nx m p \<longleftrightarrow> matchAddr nx m (rep b)" if "p \<in> set (ips b)" for p
    using Cons.prems that by (auto simp: e bucket_ok_def)
  then have "filter (Match nx m) (ips b) = (if matchAddr nx m (rep b) then ips b else [])"
    "filter (\<lambda>p. \<not> Match nx m p) (ips b) = (if matchAddr nx m (rep b) then [] else ips b)"
    by (auto simp: filter_id_conv intro: filter_False_conv')
  with Cons show ?case
    by (auto simp: e split: prod.split simp flip: mset_filter)
qed simp

lemma FilterIPs_spec:
  assumes inv: "heur_inv nx m" and ord: "range_order ord"
  shows "mset (fst (FilterIPs nx ord m ps)) = mset (filter (Match nx m) ps) \<and>
    mset (snd (FilterIPs nx ord m ps)) = mset (filter (\<lambda>p. std_addr p \<noteq> None \<and> \<not> Match nx m p) ps)"
proof (cases ps rule: list_cases3)
  case (one p)
  then show ?thesis
    by (auto simp: FilterIPs_def Match_std [OF inv] heur_inv_std [OF inv] split: option.split)
next
  case many
  obtain bk pr where sp: "filter_split nx m [] [] ps = (bk, pr)" by fastforce
  have bk: "list_all (bucket_ok nx m) bk"
    and tot: "bucket_ips bk + mset pr = mset (filter (\<lambda>p. std_addr p \<noteq> None) ps)"
    using filter_split_spec [OF inv _ sp] by auto
  have "bucket_ips (ord bk) = bucket_ips bk"
    by (rule bucket_ips_cong) (rule range_order_mset [OF ord])
  moreover have "list_all (bucket_ok nx m) (ord bk)"
    using bk ord by (simp add: list_all_iff)
  ultimately have b: "mset (fst (filter_buckets nx m (ord bk))) = filter_mset (Match nx m) (bucket_ips bk)"
    "mset (snd (filter_buckets nx m (ord bk))) = filter_mset (\<lambda>p. \<not> Match nx m p) (bucket_ips bk)"
    using filter_buckets_spec [of nx m "ord bk"] by auto
  have valid: "std_addr p \<noteq> None" if "p \<in> set pr" for p
    using tot that by (metis (mono_tags, lifting) mem_Collect_eq set_filter set_mset_mset union_iff)
  have "filter_mset P (bucket_ips bk) + mset (filter P pr) =
      mset (filter (\<lambda>p. std_addr p \<noteq> None \<and> P p) ps)" for P
  proof -
    have "filter_mset P (bucket_ips bk + mset pr) = mset (filter (\<lambda>p. std_addr p \<noteq> None \<and> P p) ps)"
      by (simp only: tot) (simp add: filter_filter_mset conj_commute flip: mset_filter)
    then show ?thesis by (simp add: mset_filter)
  qed
  note part = this
  have m: "((\<exists>a. std_addr p = Some a) \<and> Match nx m p) = Match nx m p" for p
    by (auto simp: Match_std [OF inv])
  show ?thesis
  proof (cases "\<not> heur4 m \<and> \<not> heur6 m")
    case True
    with many show ?thesis by (simp add: FilterIPs_def filter_plain_eq [OF inv])
  next
    case False
    have "filter (\<lambda>p. std_addr p \<noteq> None \<and> \<not> Match nx m p) pr = filter (\<lambda>p. \<not> Match nx m p) pr"
      using valid by (intro filter_cong) auto
    with False many b part [of "Match nx m"] part [of "\<lambda>p. \<not> Match nx m p"] show ?thesis
      by (auto simp: FilterIPs_def sp filter_plain_eq [OF inv] m split: prod.split)
  qed
qed (simp add: FilterIPs_def)

text \<open>The heuristic matcher implements the exact contract, for every order of iteration.\<close>

interpretation heur: exact_ip_matcher "\<lambda>m. heur_inv nx m \<and> range_order ord" "Match nx" "AnyMatch nx"
  "Matches nx" "FilterIPs nx ord" for nx :: "'s netipx" and ord :: bucket_order
  by unfold_locales (auto simp: AnyMatch_iff Matches_iff FilterIPs_spec Match_std)

interpretation heur_member: ip_matcher_member "heur_inv nx" "Match nx" "AnyMatch nx" "Matches nx"
  for nx :: "'s netipx"
  by unfold_locales (auto simp: AnyMatch_iff Matches_iff Match_std)

end
