(* ===== verification/IPMulti.thy ===== *)
theory IPMulti
  imports IPMatcher
begin

text \<open>
  The matcher over several heuristic matchers (\<open>HeuristicMultiIPMatcher\<close>) implements the contract
  of the interface: \<open>AnyMatch\<close> with its shared buckets and skip states decides like testing every
  address against every matcher, and \<open>Matches\<close> with its lazily built views holds exactly when
  one of the matchers accepts all addresses.
\<close>

section \<open>Match and AnyMatch\<close>

abbreviation multi_inv :: "'s netipx \<Rightarrow> 's HeuristicIPMatcher list \<Rightarrow> bool" where
  "multi_inv nx ms \<equiv> netipx_ok nx \<and> list_all (heur_inv nx) ms"

lemma any_addr_iff: "any_addr nx ms a \<longleftrightarrow> (\<exists>m \<in> set ms. matchAddr nx m a)"
  by (induction ms) auto

lemma multi_Match_iff: "multi_Match nx ms p \<longleftrightarrow> (\<exists>m \<in> set ms. Match nx m p)"
  by (auto simp: multi_Match_def Match_def any_addr_iff split: option.split)

lemma multi_any_inner_invalid:
  assumes "netipx_ok nx" "std_addr p = None"
  shows "multi_any_inner nx p ms AddrZero 0 seen = (False, seen)"
  using assms key_None_iff [of p]
  by (cases ms) (auto simp: netipx_FromStdIP AddrIsValid_def)

lemma multi_any_inner_valid:
  assumes nx: "netipx_ok nx" and p: "prefixKeyFromIP p = Some k" "std_addr p = Some a"
    and "ipx = AddrZero \<or> ipx = a" "st = 0 \<or> st = 1 \<or> st = k ! 0"
    and "list_all (heur_inv nx) ms"
    and "st = k ! 0 \<or> st = 0 \<and> k \<in> set seen \<Longrightarrow> \<forall>m \<in> set ms. key_heur m k \<longrightarrow> \<not> Match nx m p"
  shows "fst (multi_any_inner nx p ms ipx st seen) \<longleftrightarrow> (\<exists>m \<in> set ms. Match nx m p)"
    and "set (snd (multi_any_inner nx p ms ipx st seen)) \<subseteq> insert k (set seen)"
proof -
  have k: "k ! 0 = 4 \<or> k ! 0 = 6" using key_family [OF p] by auto
  have a0: "a \<noteq> AddrZero" using p std_addr_not_zero by metis
  have "(fst (multi_any_inner nx p ms ipx st seen) \<longleftrightarrow> (\<exists>m \<in> set ms. Match nx m p)) \<and>
    set (snd (multi_any_inner nx p ms ipx st seen)) \<subseteq> insert k (set seen)"
    using assms(4-)
  proof (induction ms arbitrary: ipx st seen)
    case (Cons m ms)
    have m: "heur_inv nx m" "list_all (heur_inv nx) ms" using Cons.prems(3) by simp_all
    have mp: "Match nx m p \<longleftrightarrow> matchAddr nx m a" using Match_std [OF m(1)] p by simp
    have skip: "key_heur m k" if "st' = k ! 0" "heur4 m \<and> st' = 4 \<or> heur6 m \<and> st' = 6" for st'
      using that k by (auto simp: key_heur_def)
    define st' where "st' = (if st = 0 \<and> (heur4 m \<or> heur6 m)
      then (if k \<in> set seen then k ! 0 else 1) else st)"
    define seen' where "seen' = (if st = 0 \<and> (heur4 m \<or> heur6 m) \<and> k \<notin> set seen
      then k # seen else seen)"
    have st': "st' = 0 \<or> st' = 1 \<or> st' = k ! 0" using Cons.prems(2) by (auto simp: st'_def)
    have ns: "\<not> (st' = 0 \<and> k \<in> set seen' \<and> \<not> (st = 0 \<and> k \<in> set seen))"
      by (auto simp: st'_def seen'_def)
    have imp: "st = k ! 0 \<or> st = 0 \<and> k \<in> set seen" if "st' = k ! 0 \<or> st' = 0 \<and> k \<in> set seen'"
      using that k ns by (auto simp: st'_def split: if_splits)
    have skp: "\<forall>m \<in> set (m # ms). key_heur m k \<longrightarrow> \<not> Match nx m p"
      if "st' = k ! 0 \<or> st' = 0 \<and> k \<in> set seen'"
      using Cons.prems(4) [OF imp [OF that]] .
    have IH: "(fst (multi_any_inner nx p ms i st' seen') \<longleftrightarrow> (\<exists>m \<in> set ms. Match nx m p)) \<and>
        set (snd (multi_any_inner nx p ms i st' seen')) \<subseteq> insert k (set seen')"
      if "i = AddrZero \<or> i = a" for i
      using Cons.IH [OF that st' m(2)] skp by simp
    have sel: "(if st = 0 \<and> (heur4 m \<or> heur6 m) then
        (case prefixKeyFromIP p of None \<Rightarrow> None
         | Some k \<Rightarrow> if k \<in> set seen then Some (k ! 0, seen) else Some (1, k # seen))
        else Some (st, seen)) = Some (st', seen')"
      using p by (auto simp: st'_def seen'_def)
    have adr: "(if AddrIsValid ipx then Some ipx else FromStdIP nx p) = Some a"
      using Cons.prems(1) p a0 by (auto simp: AddrIsValid_def netipx_FromStdIP [OF nx])
    have step: "multi_any_inner nx p (m # ms) ipx st seen =
        (if (heur4 m \<and> st' = 4) \<or> (heur6 m \<and> st' = 6) then multi_any_inner nx p ms ipx st' seen'
         else if matchAddr nx m a then (True, seen') else multi_any_inner nx p ms a st' seen')"
      by (simp only: multi_any_inner.simps sel adr option.case prod.case)
    have sub: "set seen' \<subseteq> insert k (set seen)" by (auto simp: seen'_def)
    show ?case
    proof (cases "(heur4 m \<and> st' = 4) \<or> (heur6 m \<and> st' = 6)")
      case True
      then have "st' = k ! 0" using st' by auto
      with True skip skp have "\<not> Match nx m p" by auto
      moreover have "multi_any_inner nx p (m # ms) ipx st seen = multi_any_inner nx p ms ipx st' seen'"
        using step True by (simp only: if_True)
      ultimately show ?thesis using IH [OF Cons.prems(1)] sub by (simp only: list.set) blast
    next
      case False
      then have "multi_any_inner nx p (m # ms) ipx st seen =
          (if matchAddr nx m a then (True, seen') else multi_any_inner nx p ms a st' seen')"
        using step by (simp only: if_False)
      then show ?thesis using IH [of a] sub by (cases "matchAddr nx m a") (simp_all add: mp, blast)
    qed
  qed auto
  then show "fst (multi_any_inner nx p ms ipx st seen) \<longleftrightarrow> (\<exists>m \<in> set ms. Match nx m p)"
    and "set (snd (multi_any_inner nx p ms ipx st seen)) \<subseteq> insert k (set seen)"
    by blast+
qed

lemma multi_any_loop_iff:
  assumes inv: "multi_inv nx ms"
    and "\<And>k m q. k \<in> set seen \<Longrightarrow> m \<in> set ms \<Longrightarrow> key_heur m k \<Longrightarrow> prefixKeyFromIP q = Some k \<Longrightarrow>
      \<not> Match nx m q"
  shows "multi_any_loop nx ms seen ps \<longleftrightarrow> (\<exists>p \<in> set ps. multi_Match nx ms p)"
  using assms(2)
proof (induction ps arbitrary: seen)
  case (Cons p ps)
  obtain r seen' where i: "multi_any_inner nx p ms AddrZero 0 seen = (r, seen')" by fastforce
  show ?case
  proof (cases "prefixKeyFromIP p")
    case None
    then have "std_addr p = None" by (simp add: key_None_iff)
    with inv i have "r = False" "seen' = seen" "\<not> multi_Match nx ms p"
      by (auto simp: multi_any_inner_invalid multi_Match_def netipx_FromStdIP)
    with i Cons show ?thesis by simp
  next
    case (Some k)
    then obtain a where a: "std_addr p = Some a" using key_Some_std by blast
    have k: "k ! 0 \<noteq> 0" using key_family [OF Some a] by auto
    have "\<forall>m \<in> set ms. key_heur m k \<longrightarrow> \<not> Match nx m p" if "0 = k ! 0 \<or> (0 :: byte) = 0 \<and> k \<in> set seen"
      using that k Cons.prems [of k _ p] Some by auto
    from multi_any_inner_valid [of nx p k a AddrZero 0 ms seen] this inv Some a i
    have v: "r \<longleftrightarrow> (\<exists>m \<in> set ms. Match nx m p)" "set seen' \<subseteq> insert k (set seen)"
      by simp_all
    have r: "r \<longleftrightarrow> multi_Match nx ms p" using v(1) by (auto simp: multi_Match_iff)
    have "\<not> Match nx m q"
      if "\<not> r" "j \<in> set seen'" "m \<in> set ms" "key_heur m j" "prefixKeyFromIP q = Some j" for j m q
    proof (cases "j = k")
      case True
      have "heur_inv nx m" using inv that(3) by (simp add: list_all_iff)
      from Match_same_key [OF this that(4) _ that(5), of p] True Some that(1,3) r show ?thesis
        by (auto simp: multi_Match_iff)
    next
      case False
      with v(2) that Cons.prems [of j m q] show ?thesis by auto
    qed
    then have "\<not> r \<Longrightarrow> multi_any_loop nx ms seen' ps \<longleftrightarrow> (\<exists>p \<in> set ps. multi_Match nx ms p)"
      by (intro Cons.IH) auto
    with i r show ?thesis by auto
  qed
qed simp

lemma multi_AnyMatch_iff:
  "multi_inv nx ms \<Longrightarrow> multi_AnyMatch nx ms ps \<longleftrightarrow> (\<exists>p \<in> set ps. multi_Match nx ms p)"
  using multi_any_loop_iff [of nx ms "[]" ps]
  by (cases ps rule: list_cases3) (simp_all add: multi_AnyMatch_def)

section \<open>Matches\<close>

text \<open>What the views hold after the addresses \<open>qs\<close>: a bucket view has an entry for every key of
  its family, with the address of one of the \<open>qs\<close>; a precise view has their addresses.\<close>

definition in_family :: "byte \<Rightarrow> ip \<Rightarrow> bool" where
  "in_family n q \<longleftrightarrow> (\<exists>k. prefixKeyFromIP q = Some k \<and> k ! 0 = n)"

definition bk_good :: "byte \<Rightarrow> ip list \<Rightarrow> (key, addr) go_map \<Rightarrow> bool" where
  "bk_good n qs bk \<longleftrightarrow>
     (\<forall>(k, a) \<in> set bk. k ! 0 = n \<and> (\<exists>q \<in> set qs. prefixKeyFromIP q = Some k \<and> std_addr q = Some a)) \<and>
     (\<forall>q \<in> set qs. \<forall>k. prefixKeyFromIP q = Some k \<longrightarrow> k ! 0 = n \<longrightarrow> al_get bk k \<noteq> None)"

definition pr_good :: "byte \<Rightarrow> ip list \<Rightarrow> addr list \<Rightarrow> bool" where
  "pr_good n qs pr \<longleftrightarrow> set pr = {a. \<exists>q \<in> set qs. in_family n q \<and> std_addr q = Some a}"

lemma bk_good_all:
  assumes inv: "heur_inv nx m" and good: "bk_good n ps bk"
    and heur: "\<And>k. k ! 0 = n \<Longrightarrow> key_heur m k"
  shows "list_all (\<lambda>e. matchAddr nx m (snd e)) bk \<longleftrightarrow> (\<forall>p \<in> set ps. in_family n p \<longrightarrow> Match nx m p)"
proof safe
  fix p assume all: "list_all (\<lambda>e. matchAddr nx m (snd e)) bk" and p: "p \<in> set ps" "in_family n p"
  then obtain k a where k: "prefixKeyFromIP p = Some k" "k ! 0 = n" and a: "(k, a) \<in> set bk"
    using good by (fastforce simp: bk_good_def in_family_def dest: map_of_SomeD)
  then obtain q where q: "prefixKeyFromIP q = Some k" "std_addr q = Some a"
    using good by (auto simp: bk_good_def)
  have "matchAddr nx m a" using all a by (auto simp: list_all_iff)
  then have "Match nx m q" using q by (auto simp: Match_std [OF inv])
  with Match_same_key [OF inv heur k(1) q(1)] k(2) show "Match nx m p" by simp
next
  assume all: "\<forall>p \<in> set ps. in_family n p \<longrightarrow> Match nx m p"
  have "matchAddr nx m a" if ka: "(k, a) \<in> set bk" for k a
  proof -
    obtain q where "q \<in> set ps" "prefixKeyFromIP q = Some k" "std_addr q = Some a" "k ! 0 = n"
      using good ka by (auto simp: bk_good_def)
    with all have "Match nx m q" by (auto simp: in_family_def)
    with \<open>std_addr q = Some a\<close> show ?thesis by (simp add: Match_std [OF inv])
  qed
  then show "list_all (\<lambda>e. matchAddr nx m (snd e)) bk" by (auto simp: list_all_iff)
qed

lemma pr_good_all:
  assumes "heur_inv nx m" "pr_good n ps pr"
  shows "list_all (matchAddr nx m) pr \<longleftrightarrow> (\<forall>p \<in> set ps. in_family n p \<longrightarrow> Match nx m p)"
proof -
  have "\<exists>a. std_addr p = Some a" if "in_family n p" for p
    using that key_Some_std by (auto simp: in_family_def)
  moreover have "list_all (matchAddr nx m) pr \<longleftrightarrow>
      (\<forall>a. (\<exists>q \<in> set ps. in_family n q \<and> std_addr q = Some a) \<longrightarrow> matchAddr nx m a)"
    using assms(2) by (auto simp: pr_good_def list_all_iff)
  ultimately show ?thesis unfolding Match_std [OF assms(1)] by (metis option.inject)
qed

lemma set_put_new: "al_get m k = None \<Longrightarrow> set (al_put k v m) = insert (k, v) (set m)"
  by (induction k v m rule: al_put.induct) (auto split: if_splits)

lemma bk_good_snoc:
  assumes "bk_good n qs bk" "prefixKeyFromIP p = Some k" "std_addr p = Some a"
  shows "k ! 0 \<noteq> n \<Longrightarrow> bk_good n (qs @ [p]) bk"
    and "k ! 0 = n \<Longrightarrow> al_get bk k = None \<Longrightarrow> bk_good n (qs @ [p]) (al_put k a bk)"
    and "al_get bk k \<noteq> None \<Longrightarrow> bk_good n (qs @ [p]) bk"
  using assms by (fastforce simp: bk_good_def set_put_new al_simps)+

lemma pr_good_snoc:
  assumes "pr_good n qs pr" "prefixKeyFromIP p = Some k" "std_addr p = Some a"
  shows "pr_good n (qs @ [p]) (if k ! 0 = n then pr @ [a] else pr)"
  using assms by (auto simp: pr_good_def in_family_def)

text \<open>A view that is being built has the entries for the addresses read so far; the others stay.\<close>

definition view_rel :: "bool \<Rightarrow> ('v \<Rightarrow> bool) \<Rightarrow> 'v option \<Rightarrow> 'v option \<Rightarrow> bool" where
  "view_rel need good v0 v \<longleftrightarrow> (if need then (\<exists>x. v = Some x \<and> good x) else v = v0)"

lemma view_step_ok:
  assumes nx: "netipx_ok nx" and p: "prefixKeyFromIP p = Some k" "std_addr p = Some a"
    and "view_rel h (bk_good (k ! 0) qs) b0 b" "view_rel pr (pr_good (k ! 0) qs) l0 l"
  shows "\<exists>b' l'. view_step nx h pr k p (b, l) = Some (b', l') \<and>
    view_rel h (bk_good (k ! 0) (qs @ [p])) b0 b' \<and> view_rel pr (pr_good (k ! 0) (qs @ [p])) l0 l'"
proof -
  have a0: "a \<noteq> AddrZero" using p std_addr_not_zero by metis
  define b' where "b' = (if h \<and> al_get (the b) k = None then map_option (al_put k a) b else b)"
  have "view_rel h (bk_good (k ! 0) (qs @ [p])) b0 b'"
    using assms(4) bk_good_snoc(2,3) [OF _ p] by (auto simp: view_rel_def b'_def split: if_splits)
  moreover have "view_rel pr (pr_good (k ! 0) (qs @ [p])) l0 (if pr then map_option (\<lambda>l. l @ [a]) l else l)"
    using assms(5) pr_good_snoc [OF _ p, of "k ! 0"] by (auto simp: view_rel_def)
  moreover have "view_step nx h pr k p (b, l) = Some (b', if pr then map_option (\<lambda>l. l @ [a]) l else l)"
    using p a0 by (auto simp: view_step_def b'_def netipx_FromStdIP [OF nx] AddrIsValid_def)
  ultimately show ?thesis by blast
qed

lemma view_rel_other:
  assumes "prefixKeyFromIP p = Some k" "std_addr p = Some a" "k ! 0 \<noteq> n"
  shows "view_rel h (bk_good n qs) b0 b \<Longrightarrow> view_rel h (bk_good n (qs @ [p])) b0 b"
    and "view_rel h (pr_good n qs) l0 l \<Longrightarrow> view_rel h (pr_good n (qs @ [p])) l0 l"
  using bk_good_snoc(1) [OF _ assms(1,2), of n] pr_good_snoc [OF _ assms(1,2), of n] assms(3)
  by (auto simp: view_rel_def)

definition views_rel :: "bool \<Rightarrow> bool \<Rightarrow> bool \<Rightarrow> bool \<Rightarrow> ip list \<Rightarrow> ipViews \<Rightarrow> ipViews \<Rightarrow> bool" where
  "views_rel h4 h6 p4 p6 qs v0 v \<longleftrightarrow>
     view_rel h4 (bk_good 4 qs) (vbuckets4 v0) (vbuckets4 v) \<and>
     view_rel h6 (bk_good 6 qs) (vbuckets6 v0) (vbuckets6 v) \<and>
     view_rel p4 (pr_good 4 qs) (vprecise4 v0) (vprecise4 v) \<and>
     view_rel p6 (pr_good 6 qs) (vprecise6 v0) (vprecise6 v)"

lemma views_loop_ok:
  assumes nx: "netipx_ok nx" and "\<forall>p \<in> set ps. std_addr p \<noteq> None" "views_rel h4 h6 p4 p6 qs v0 v"
  shows "\<exists>v'. views_loop nx h4 h6 p4 p6 ps v = Some v' \<and> views_rel h4 h6 p4 p6 (qs @ ps) v0 v'"
  using assms(2,3)
proof (induction ps arbitrary: qs v)
  case (Cons p ps)
  then obtain a k where p: "prefixKeyFromIP p = Some k" "std_addr p = Some a"
    using key_None_iff [of p] by auto
  note rel = Cons.prems(2) [unfolded views_rel_def]
  consider "k ! 0 = 4" | "k ! 0 = 6" using key_family [OF p] by auto
  then obtain w where "views_loop nx h4 h6 p4 p6 (p # ps) v = views_loop nx h4 h6 p4 p6 ps w"
    "views_rel h4 h6 p4 p6 (qs @ [p]) v0 w"
  proof cases
    case 1
    with view_step_ok [OF nx p, of h4 qs _ _ p4] rel obtain b l where
      "view_step nx h4 p4 k p (vbuckets4 v, vprecise4 v) = Some (b, l)"
      "view_rel h4 (bk_good 4 (qs @ [p])) (vbuckets4 v0) b"
      "view_rel p4 (pr_good 4 (qs @ [p])) (vprecise4 v0) l" by metis
    with 1 p rel view_rel_other [OF p, of 6] show ?thesis
      by (intro that [of "v\<lparr>vbuckets4 := b, vprecise4 := l\<rparr>"]) (auto simp: views_rel_def)
  next
    case 2
    with view_step_ok [OF nx p, of h6 qs _ _ p6] rel obtain b l where
      "view_step nx h6 p6 k p (vbuckets6 v, vprecise6 v) = Some (b, l)"
      "view_rel h6 (bk_good 6 (qs @ [p])) (vbuckets6 v0) b"
      "view_rel p6 (pr_good 6 (qs @ [p])) (vprecise6 v0) l" by metis
    with 2 p rel view_rel_other [OF p, of 4] show ?thesis
      by (intro that [of "v\<lparr>vbuckets6 := b, vprecise6 := l\<rparr>"]) (auto simp: views_rel_def)
  qed
  with Cons.IH [of "qs @ [p]" w] Cons.prems(1) show ?case by auto
qed auto

lemma views_loop_invalid:
  assumes "p \<in> set ps" "std_addr p = None"
  shows "views_loop nx h4 h6 p4 p6 ps v = None"
  using assms key_None_iff [of p]
  by (induction ps arbitrary: v) (auto split: option.split)

text \<open>Between two matchers every view is absent or complete.\<close>

definition full_views :: "ip list \<Rightarrow> ipViews \<Rightarrow> bool" where
  "full_views ps v \<longleftrightarrow>
     pred_option (bk_good 4 ps) (vbuckets4 v) \<and> pred_option (bk_good 6 ps) (vbuckets6 v) \<and>
     pred_option (pr_good 4 ps) (vprecise4 v) \<and> pred_option (pr_good 6 ps) (vprecise6 v)"

lemma ensureForMatcher_ok:
  assumes nx: "netipx_ok nx" and valid: "\<forall>p \<in> set ps. std_addr p \<noteq> None" and v: "full_views ps v"
  shows "\<exists>v'. ensureForMatcher nx m ps v = Some v' \<and> full_views ps v' \<and>
    (if heur4 m then vbuckets4 v' \<noteq> None else vprecise4 v' \<noteq> None) \<and>
    (if heur6 m then vbuckets6 v' \<noteq> None else vprecise6 v' \<noteq> None)"
proof -
  define h4 where "h4 \<longleftrightarrow> heur4 m \<and> vbuckets4 v = None"
  define h6 where "h6 \<longleftrightarrow> heur6 m \<and> vbuckets6 v = None"
  define p4 where "p4 \<longleftrightarrow> \<not> heur4 m \<and> vprecise4 v = None"
  define p6 where "p6 \<longleftrightarrow> \<not> heur6 m \<and> vprecise6 v = None"
  note d = h4_def h6_def p4_def p6_def
  let ?w = "v\<lparr>vbuckets4 := if h4 then Some [] else vbuckets4 v,
    vbuckets6 := if h6 then Some [] else vbuckets6 v,
    vprecise4 := if p4 then Some [] else vprecise4 v,
    vprecise6 := if p6 then Some [] else vprecise6 v\<rparr>"
  have "views_rel h4 h6 p4 p6 [] v ?w"
    by (simp add: views_rel_def view_rel_def bk_good_def pr_good_def)
  from views_loop_ok [OF nx valid this] obtain v' where
    l: "views_loop nx h4 h6 p4 p6 ps ?w = Some v'" and rel: "views_rel h4 h6 p4 p6 ps v v'" by auto
  have full: "full_views ps v'" using rel v
    by (auto simp: views_rel_def view_rel_def full_views_def split: if_splits)
  have e: "ensureForMatcher nx m ps v =
      (if \<not> h4 \<and> \<not> h6 \<and> \<not> p4 \<and> \<not> p6 then Some v else views_loop nx h4 h6 p4 p6 ps ?w)"
    by (simp only: ensureForMatcher_def Let_def h4_def h6_def p4_def p6_def)
  show ?thesis
  proof (cases "\<not> h4 \<and> \<not> h6 \<and> \<not> p4 \<and> \<not> p6")
    case True
    then show ?thesis using e v by (auto simp: d)
  next
    case False
    then have "ensureForMatcher nx m ps v = Some v'" unfolding e l by (rule if_not_P)
    moreover have "if heur4 m then vbuckets4 v' \<noteq> None else vprecise4 v' \<noteq> None"
      using rel by (auto simp: views_rel_def view_rel_def d split: if_splits)
    moreover have "if heur6 m then vbuckets6 v' \<noteq> None else vprecise6 v' \<noteq> None"
      using rel by (auto simp: views_rel_def view_rel_def d split: if_splits)
    ultimately show ?thesis using full by blast
  qed
qed

lemma view_all_iff:
  assumes inv: "heur_inv nx m" and "pred_option (bk_good n ps) bk" "pred_option (pr_good n ps) pr"
    and "if h then bk \<noteq> None else pr \<noteq> None" "\<And>k. h \<Longrightarrow> k ! 0 = n \<Longrightarrow> key_heur m k"
  shows "view_all nx m h bk pr \<longleftrightarrow> (\<forall>p \<in> set ps. in_family n p \<longrightarrow> Match nx m p)"
  using assms bk_good_all [OF inv] pr_good_all [OF inv]
  by (cases h) (auto simp: view_all_def)

lemma multi_matches_loop_iff:
  assumes nx: "netipx_ok nx" and valid: "\<forall>p \<in> set ps. std_addr p \<noteq> None"
    and "list_all (heur_inv nx) ms" "full_views ps v"
  shows "multi_matches_loop nx ms ps v \<longleftrightarrow> (\<exists>m \<in> set ms. \<forall>p \<in> set ps. Match nx m p)"
  using assms(3,4)
proof (induction ms arbitrary: v)
  case (Cons m ms)
  obtain v' where e: "ensureForMatcher nx m ps v = Some v'" and full: "full_views ps v'"
    and n4: "if heur4 m then vbuckets4 v' \<noteq> None else vprecise4 v' \<noteq> None"
    and n6: "if heur6 m then vbuckets6 v' \<noteq> None else vprecise6 v' \<noteq> None"
    using ensureForMatcher_ok [OF nx valid Cons.prems(2), of m] by blast
  have m: "heur_inv nx m" using Cons.prems(1) by simp
  have fam: "in_family 4 p \<or> in_family 6 p" if "p \<in> set ps" for p
    using valid that key_None_iff [of p] key_family [of p] by (fastforce simp: in_family_def)
  have "view_all nx m (heur4 m) (vbuckets4 v') (vprecise4 v') \<longleftrightarrow>
      (\<forall>p \<in> set ps. in_family 4 p \<longrightarrow> Match nx m p)"
    "view_all nx m (heur6 m) (vbuckets6 v') (vprecise6 v') \<longleftrightarrow>
      (\<forall>p \<in> set ps. in_family 6 p \<longrightarrow> Match nx m p)"
    using full by (intro view_all_iff [OF m _ _ n4] view_all_iff [OF m _ _ n6];
        simp add: full_views_def key_heur_def)+
  then have "view_all nx m (heur4 m) (vbuckets4 v') (vprecise4 v') \<and>
      view_all nx m (heur6 m) (vbuckets6 v') (vprecise6 v') \<longleftrightarrow> (\<forall>p \<in> set ps. Match nx m p)"
    using fam by blast
  with e Cons.IH [OF _ full] Cons.prems(1) show ?case by auto
qed simp

lemma multi_matches_loop_invalid:
  assumes "p \<in> set ps" "std_addr p = None"
  shows "\<not> multi_matches_loop nx ms ps empty_views"
proof (cases ms)
  case (Cons m ms')
  have "ensureForMatcher nx m ps empty_views = None"
    by (simp add: ensureForMatcher_def empty_views_def views_loop_invalid [OF assms] Let_def)
  with Cons show ?thesis by simp
qed simp

lemma multi_Matches_iff:
  assumes "multi_inv nx ms"
  shows "multi_Matches nx ms ps \<longleftrightarrow> ps \<noteq> [] \<and> (\<exists>m \<in> set ms. \<forall>p \<in> set ps. Match nx m p)"
proof (cases ps rule: list_cases3)
  case many
  then have l: "multi_Matches nx ms ps \<longleftrightarrow> multi_matches_loop nx ms ps empty_views" "ps \<noteq> []"
    by (auto simp: multi_Matches_def)
  show ?thesis
  proof (cases "\<forall>p \<in> set ps. std_addr p \<noteq> None")
    case True
    with assms l show ?thesis
      by (simp add: multi_matches_loop_iff full_views_def empty_views_def)
  next
    case False
    then obtain p where p: "p \<in> set ps" "std_addr p = None" by blast
    with assms have "\<not> Match nx m p" if "m \<in> set ms" for m
      using that by (auto simp: Match_def netipx_FromStdIP)
    with l p multi_matches_loop_invalid [OF p] show ?thesis by blast
  qed
qed (auto simp: multi_Matches_def multi_Match_iff)

interpretation hmulti: ip_matcher "multi_inv nx" "multi_Match nx" "multi_AnyMatch nx" "multi_Matches nx"
  for nx :: "'s netipx"
proof
  fix ms :: "'s HeuristicIPMatcher list" and p ps
  assume inv: "multi_inv nx ms"
  show "multi_Match nx ms p \<Longrightarrow> std_addr p \<noteq> None"
    using inv by (auto simp: multi_Match_def netipx_FromStdIP split: option.splits)
  show "multi_AnyMatch nx ms ps \<longleftrightarrow> (\<exists>p \<in> set ps. multi_Match nx ms p)"
    using inv by (rule multi_AnyMatch_iff)
  show "multi_Matches nx ms ps \<Longrightarrow> ps \<noteq> [] \<and> (\<forall>p \<in> set ps. multi_Match nx ms p)"
    using inv by (auto simp: multi_Matches_iff multi_Match_iff)
qed

end
