(* ===== verification/IPFactory.thy ===== *)
theory IPFactory
  imports IPMulti
begin

text \<open>
  The factory of IP sets, the optimised matcher it builds from rules, and the registry of
  reloadable matchers: a set contains exactly the addresses of its CIDRs, the key of the shared
  cache identifies the GeoIP lists it stands for, the matcher built from rules accepts exactly
  the addresses the rules mean, and reloading replaces all matchers or none.
\<close>

section \<open>Sets from CIDRs\<close>

definition cidr_covers :: "CIDR \<Rightarrow> addr \<Rightarrow> bool" where
  "cidr_covers c a \<longleftrightarrow> (case cidr_netprefix c of None \<Rightarrow> False | Some p \<Rightarrow> PrefixContains p a)"

abbreviation covered :: "CIDR set \<Rightarrow> addr \<Rightarrow> bool" where
  "covered C a \<equiv> \<exists>c \<in> C. cidr_covers c a"

lemma cidr_netprefix_valid: "cidr_netprefix c = Some p \<Longrightarrow> PrefixIsValid p \<and> PrefixWf p"
  by (auto simp: cidr_netprefix_def Let_def split: option.splits if_splits)

lemma family_prefixes_valid: "list_all (\<lambda>p. PrefixIsValid p \<and> PrefixWf p) (family_prefixes fam cs)"
  by (auto simp: family_prefixes_def list_all_iff map_filter_def dest: cidr_netprefix_valid)

lemma family_prefixes_covered:
  assumes "\<And>p. PrefixContains p a \<Longrightarrow> fam (pfx_ip p)"
  shows "(\<exists>p \<in> set (family_prefixes fam cs). PrefixContains p a) \<longleftrightarrow> covered (set cs) a"
  using assms by (force simp: family_prefixes_def map_filter_def cidr_covers_def split: option.splits)

lemma PrefixContains_family:
  "PrefixContains p a \<Longrightarrow> (Is4 a \<longrightarrow> Is4 (pfx_ip p)) \<and> (Is6 a \<longrightarrow> Is6 (pfx_ip p))"
  by (cases a; cases "pfx_ip p") (auto simp: PrefixContains_def)

lemma IPSetBuild_family:
  assumes "netipx_ok nx" "IPSetBuild nx (family_prefixes fam cs) = Some s"
  shows "family_ok nx s (max_code (SetPrefixes nx s))"
    and "SetContains nx s a \<longleftrightarrow> (\<exists>p \<in> set (family_prefixes fam cs). PrefixContains p a)"
proof -
  have "(\<forall>a. SetContains nx s a \<longleftrightarrow> (\<exists>p \<in> set (family_prefixes fam cs). PrefixContains p a)) \<and>
      (\<forall>a. SetContains nx s a \<longleftrightarrow> (\<exists>p \<in> set (SetPrefixes nx s). PrefixContains p a)) \<and>
      list_all (\<lambda>p. PrefixIsValid p \<and> PrefixWf p) (SetPrefixes nx s)"
    using assms family_prefixes_valid [of fam cs] unfolding netipx_ok_def by blast
  then show "family_ok nx s (max_code (SetPrefixes nx s))"
    and "SetContains nx s a \<longleftrightarrow> (\<exists>p \<in> set (family_prefixes fam cs). PrefixContains p a)"
    unfolding family_ok_def by blast+
qed

lemma family_ok_ne_empty: "family_ok nx s mx \<Longrightarrow> SetContains nx s a \<Longrightarrow> mx \<noteq> 0xff"
  by (auto dest: family_empty)

lemma createFrom_Match:
  assumes nx: "netipx_ok nx" and c: "createFrom nx cs = Inr s"
  shows "heur_inv nx (newHeuristicIPMatcher s r)"
    and "Match nx (newHeuristicIPMatcher s r) p \<longleftrightarrow>
      (\<exists>a. std_addr p = Some a \<and> covered (set cs) a \<noteq> r)"
proof -
  obtain s4 s6 where b4: "IPSetBuild nx (family_prefixes Is4 cs) = Some s4"
    and b6: "IPSetBuild nx (family_prefixes Is6 cs) = Some s6"
    and s: "s = \<lparr>ipv4 = s4, ipv6 = s6, max4 = max_code (SetPrefixes nx s4),
      max6 = max_code (SetPrefixes nx s6)\<rparr>"
    using c by (auto simp: createFrom_def split: option.splits)
  note ok = IPSetBuild_family(1) [OF nx b4] IPSetBuild_family(1) [OF nx b6]
  show inv: "heur_inv nx (newHeuristicIPMatcher s r)"
    using nx ok by (simp add: heur_inv_def ipset_ok_def newHeuristicIPMatcher_def s)
  have "SetContains nx s4 a \<longleftrightarrow> covered (set cs) a" if "Is4 a" for a
    unfolding IPSetBuild_family(2) [OF nx b4] using that PrefixContains_family
    by (intro family_prefixes_covered) blast
  moreover have "SetContains nx s6 a \<longleftrightarrow> covered (set cs) a" if "Is6 a" for a
    unfolding IPSetBuild_family(2) [OF nx b6] using that PrefixContains_family
    by (intro family_prefixes_covered) blast
  moreover have "Is4 a \<or> Is6 a" if "std_addr p = Some a" for a
    using that by (cases rule: std_addr_cases) auto
  ultimately have "matchAddr nx (newHeuristicIPMatcher s r) a \<longleftrightarrow> covered (set cs) a \<noteq> r"
    if "std_addr p = Some a" for a
    using that ok [THEN family_ok_ne_empty]
    by (auto simp: matchAddr_def newHeuristicIPMatcher_def s)
  then show "Match nx (newHeuristicIPMatcher s r) p \<longleftrightarrow>
      (\<exists>a. std_addr p = Some a \<and> covered (set cs) a \<noteq> r)"
    by (auto simp: Match_std [OF inv])
qed

section \<open>The cache key\<close>

abbreviation rule_pair :: "GeoIPRule \<Rightarrow> string \<times> string" where
  "rule_pair r \<equiv> (gip_file r, gip_code r)"

definition gip_ok :: "GeoIPRule \<Rightarrow> bool" where
  "gip_ok r \<longleftrightarrow> CHR '':'' \<notin> set (gip_file r) \<and> CHR '','' \<notin> set (gip_code r)"

fun pair_text :: "string \<times> string \<Rightarrow> string" where
  "pair_text (f, c) = f @ '':'' @ c @ '',''"

fun dedup :: "'a option \<Rightarrow> 'a list \<Rightarrow> 'a list" where
  "dedup prev [] = []"
| "dedup prev (x # xs) = (if prev = Some x then dedup prev xs else x # dedup (Some x) xs)"

lemma geoip_key_dedup:
  "geoip_key_loop prev rs = concat (map pair_text (dedup prev (map rule_pair rs)))"
  by (induction prev rs rule: geoip_key_loop.induct) auto

lemma set_dedup: "set (dedup prev xs) \<union> set_option prev = set xs \<union> set_option prev"
  by (induction prev xs rule: dedup.induct) (auto split: if_splits)

lemma dedup_None: "set (dedup None xs) = set xs"
  using set_dedup [of None xs] by simp

lemma dedup_sorted:
  "sorted xs \<Longrightarrow> (\<forall>p \<in> set_option prev. \<forall>x \<in> set xs. p \<le> x) \<Longrightarrow>
   sorted_wrt (<) (dedup prev xs) \<and> (\<forall>p \<in> set_option prev. \<forall>x \<in> set (dedup prev xs). p < x)"
proof (induction prev xs rule: dedup.induct)
  case (2 prev x xs)
  show ?case
  proof (cases "prev = Some x")
    case False
    with 2 have "sorted_wrt (<) (dedup (Some x) xs) \<and> (\<forall>y \<in> set (dedup (Some x) xs). x < y)" by simp
    moreover have "p < x" if "prev = Some p" for p
      using 2(4) False that by (auto simp: less_le)
    ultimately show ?thesis using False by (auto intro: less_trans)
  qed (use 2 in auto)
qed simp

lemma span_inj:
  "x \<notin> set xs \<Longrightarrow> x \<notin> set ys \<Longrightarrow> xs @ x # us = ys @ x # vs \<longleftrightarrow> xs = ys \<and> us = vs"
proof (induction xs arbitrary: ys)
  case (Cons a xs)
  then show ?case by (cases ys) auto
qed (case_tac ys, auto)

lemma pair_text_inj:
  assumes "CHR '':'' \<notin> set (fst p)" "CHR '','' \<notin> set (snd p)"
    "CHR '':'' \<notin> set (fst q)" "CHR '','' \<notin> set (snd q)"
  shows "pair_text p @ u = pair_text q @ v \<longleftrightarrow> p = q \<and> u = v"
  using assms by (cases p; cases q) (auto simp: span_inj)

lemma concat_pair_text_inj:
  assumes "\<forall>p \<in> set ps \<union> set qs. CHR '':'' \<notin> set (fst p) \<and> CHR '','' \<notin> set (snd p)"
  shows "concat (map pair_text ps) = concat (map pair_text qs) \<longleftrightarrow> ps = qs"
  using assms
proof (induction ps arbitrary: qs)
  case Nil
  then show ?case by (cases qs) auto
next
  case (Cons p ps)
  show ?case
  proof (cases qs)
    case Nil
    then show ?thesis by (cases p) auto
  next
    case (Cons q qs')
    with Cons.prems Cons.IH [of qs'] pair_text_inj [of p q] show ?thesis by auto
  qed
qed

lemma buildGeoIPRulesKey_iff:
  assumes "list_all gip_ok rs" "list_all gip_ok rs'"
  shows "buildGeoIPRulesKey rs = buildGeoIPRulesKey rs' \<longleftrightarrow> rule_pair ` set rs = rule_pair ` set rs'"
proof -
  let ?s = "\<lambda>rs. map rule_pair (sort_key rule_pair rs)"
  let ?d = "\<lambda>rs. dedup None (?s rs)"
  have key: "buildGeoIPRulesKey rs = concat (map pair_text (?d rs))" for rs
    by (simp add: buildGeoIPRulesKey_def geoip_key_dedup)
  have sd: "set (?d rs) = rule_pair ` set rs" for rs by (simp add: dedup_None)
  have ss: "sorted_wrt (<) (?d rs)" for rs
    using dedup_sorted [of "?s rs" None] by simp
  have "?d rs = ?d rs' \<longleftrightarrow> set (?d rs) = set (?d rs')"
    using strict_sorted_equal [OF ss ss, of rs' rs] by auto
  moreover have "concat (map pair_text (?d rs)) = concat (map pair_text (?d rs')) \<longleftrightarrow> ?d rs = ?d rs'"
    using assms by (intro concat_pair_text_inj) (auto simp: dedup_None list_all_iff gip_ok_def)
  ultimately show ?thesis by (simp only: key sd)
qed

section \<open>The shared cache\<close>

text \<open>The CIDRs of the lists that GeoIP rules name, as the loader returns them.\<close>

definition geoip_cidrs :: "'e ip_loader \<Rightarrow> GeoIPRule list \<Rightarrow> CIDR set" where
  "geoip_cidrs load gs =
     \<Union> ((\<lambda>g. case load (gip_file g) (gip_code g) of Inl e \<Rightarrow> {} | Inr cs \<Rightarrow> set cs) ` set gs)"

definition cache_ok :: "'s netipx \<Rightarrow> 'e ip_loader \<Rightarrow> 's ip_cache \<Rightarrow> bool" where
  "cache_ok nx load cache \<longleftrightarrow>
     (\<forall>k s. al_get cache k = Some s \<longrightarrow>
        (\<exists>gs cs. list_all gip_ok gs \<and> k = buildGeoIPRulesKey gs \<and> load_rules load gs = Inr cs \<and>
           createFrom nx cs = (Inr s :: 'e ip_error + 's IPSet)))"

lemma cache_ok_empty [simp]: "cache_ok nx load []"
  by (simp add: cache_ok_def)

lemma cache_ok_forget: "cache_ok nx load cache \<Longrightarrow> cache_ok nx load (al_del k cache)"
  by (auto simp: cache_ok_def al_simps split: if_splits)

lemma load_rules_cidrs: "load_rules load gs = Inr cs \<Longrightarrow> set cs = geoip_cidrs load gs"
proof -
  assume "load_rules load gs = Inr cs"
  then obtain css where css: "list_all2 (\<lambda>g c. load (gip_file g) (gip_code g) = Inr c) gs css"
    and cs: "cs = concat css"
    by (auto simp: load_rules_def simp flip: map_err_Inr split: sum.splits)
  from css have "set (concat css) = geoip_cidrs load gs"
    by (induction gs css rule: list_all2_induct) (auto simp: geoip_cidrs_def)
  with cs show ?thesis by simp
qed

lemma geoip_cidrs_pairs:
  "rule_pair ` set gs = rule_pair ` set gs' \<Longrightarrow> geoip_cidrs load gs = geoip_cidrs load gs'"
proof -
  assume eq: "rule_pair ` set gs = rule_pair ` set gs'"
  have e: "geoip_cidrs load gs =
      \<Union> ((\<lambda>p. case load (fst p) (snd p) of Inl e \<Rightarrow> {} | Inr cs \<Rightarrow> set cs) ` (rule_pair ` set gs))" for gs
    by (simp add: geoip_cidrs_def image_image)
  show ?thesis unfolding e eq ..
qed

lemma GetOrCreate_sound:
  fixes nx :: "'s netipx" and load :: "'e ip_loader"
  assumes ok: "cache_ok nx load cache" and gs: "list_all gip_ok gs"
    and r: "GetOrCreateFromGeoIPRules nx load cache gs = (Inr s, cache')"
  shows "cache_ok nx load cache'"
    and "\<exists>cs. set cs = geoip_cidrs load gs \<and> createFrom nx cs = (Inr s :: 'e ip_error + 's IPSet)"
proof -
  have "cache_ok nx load cache' \<and>
    (\<exists>cs. set cs = geoip_cidrs load gs \<and> createFrom nx cs = (Inr s :: 'e ip_error + 's IPSet))"
  proof (cases "al_get cache (buildGeoIPRulesKey gs)")
    case None
    then obtain cs where "load_rules load gs = Inr cs" "createFrom nx cs = (Inr s :: 'e ip_error + 's IPSet)"
      "cache' = al_put (buildGeoIPRulesKey gs) s cache"
      using r by (auto simp: GetOrCreateFromGeoIPRules_def split: sum.splits)
    with ok gs load_rules_cidrs [of load gs cs] show ?thesis
      by (auto simp: cache_ok_def al_simps)
  next
    case (Some s')
    then have "s' = s" "cache' = cache" using r by (simp_all add: GetOrCreateFromGeoIPRules_def)
    moreover obtain gs' cs where "list_all gip_ok gs'" "buildGeoIPRulesKey gs = buildGeoIPRulesKey gs'"
      "load_rules load gs' = Inr cs" "createFrom nx cs = (Inr s' :: 'e ip_error + 's IPSet)"
      using ok Some unfolding cache_ok_def by blast
    moreover from this have "geoip_cidrs load gs = geoip_cidrs load gs'"
      using gs by (intro geoip_cidrs_pairs) (simp add: buildGeoIPRulesKey_iff)
    ultimately show ?thesis using ok load_rules_cidrs [of load gs' cs] by auto
  qed
  then show "cache_ok nx load cache'"
    "\<exists>cs. set cs = geoip_cidrs load gs \<and> createFrom nx cs = (Inr s :: 'e ip_error + 's IPSet)" by blast+
qed

lemma GetOrCreate_error:
  assumes "cache_ok nx load cache" "GetOrCreateFromGeoIPRules nx load cache gs = (Inl e, cache')"
  shows "cache_ok nx load cache'"
  using assms by (auto simp: GetOrCreateFromGeoIPRules_def split: option.splits sum.splits)

section \<open>The matcher built from rules\<close>

fun ipm_inv :: "'s netipx \<Rightarrow> 's IPMatcher \<Rightarrow> bool" where
  "ipm_inv nx (Heuristic m) = heur_inv nx m"
| "ipm_inv nx (HeuristicMulti ms) = multi_inv nx ms"

interpretation ipm: ip_matcher "ipm_inv nx" "ipm_Match nx" "ipm_AnyMatch nx" "ipm_Matches nx"
  for nx :: "'s netipx"
proof
  fix m :: "'s IPMatcher" and p ps
  assume inv: "ipm_inv nx m"
  note h = heur_member.member.match_valid heur_member.member.any_match heur_member.member.matches_only
  note hs = hmulti.match_valid hmulti.any_match hmulti.matches_only
  show "ipm_Match nx m p \<Longrightarrow> std_addr p \<noteq> None"
    using inv by (cases m) (simp_all only: ipm_inv.simps ipm_Match.simps h(1) hs(1) not_False_eq_True)
  show "ipm_AnyMatch nx m ps \<longleftrightarrow> (\<exists>p \<in> set ps. ipm_Match nx m p)"
    using inv by (cases m) (simp_all only: ipm_inv.simps ipm_Match.simps ipm_AnyMatch.simps h(2) hs(2))
  show "ipm_Matches nx m ps \<Longrightarrow> ps \<noteq> [] \<and> (\<forall>p \<in> set ps. ipm_Match nx m p)"
    using inv h(3) [of nx _ ps] hs(3) [of nx _ ps] by (cases m) auto
qed

text \<open>What a list of rules accepts: an address of a CIDR or list that is not negated, or an
  address outside of all the negated CIDRs (if there are any), or outside of all the negated
  lists.\<close>

definition rules_accept :: "'e ip_loader \<Rightarrow> IPRule list \<Rightarrow> addr \<Rightarrow> bool" where
  "rules_accept load rs a \<longleftrightarrow>
     covered (set (posCustom rs)) a \<or>
     negCustom rs \<noteq> [] \<and> \<not> covered (set (negCustom rs)) a \<or>
     covered (geoip_cidrs load (posGeoip rs)) a \<or>
     negGeoip rs \<noteq> [] \<and> \<not> covered (geoip_cidrs load (negGeoip rs)) a"

lemma custom_sub_Match:
  fixes nx :: "'s netipx"
  assumes "netipx_ok nx" "custom_sub nx cs r = (Inr ms :: 'e ip_error + 's HeuristicIPMatcher list)"
  shows "list_all (heur_inv nx) ms"
    and "(\<exists>m \<in> set ms. Match nx m p) \<longleftrightarrow>
      cs \<noteq> [] \<and> (\<exists>a. std_addr p = Some a \<and> covered (set cs) a \<noteq> r)"
proof -
  have "ms = [] \<and> cs = [] \<or> cs \<noteq> [] \<and> (\<exists>s. createFrom nx cs = (Inr s :: 'e ip_error + 's IPSet) \<and>
      ms = [newHeuristicIPMatcher s r])"
    using assms(2) by (auto simp: custom_sub_def CreateFromCIDRs_def split: if_splits sum.splits)
  then consider "ms = []" "cs = []"
    | s where "cs \<noteq> []" "createFrom nx cs = (Inr s :: 'e ip_error + 's IPSet)" "ms = [newHeuristicIPMatcher s r]"
    by blast
  note c = this
  show "list_all (heur_inv nx) ms"
    using c by cases (simp_all add: createFrom_Match(1) [OF assms(1)])
  show "(\<exists>m \<in> set ms. Match nx m p) \<longleftrightarrow>
      cs \<noteq> [] \<and> (\<exists>a. std_addr p = Some a \<and> covered (set cs) a \<noteq> r)"
    using c
  proof cases
    case (2 s)
    from createFrom_Match(2) [OF assms(1) 2(2), of r p] 2(1,3) show ?thesis by simp
  qed simp
qed

lemma geoip_sub_Match:
  fixes nx :: "'s netipx" and load :: "'e ip_loader"
  assumes "netipx_ok nx" "cache_ok nx load c" "list_all gip_ok gs"
    and "geoip_sub nx load c gs r = (Inr ms, c')"
  shows "list_all (heur_inv nx) ms" and "cache_ok nx load c'"
    and "(\<exists>m \<in> set ms. Match nx m p) \<longleftrightarrow>
      gs \<noteq> [] \<and> (\<exists>a. std_addr p = Some a \<and> covered (geoip_cidrs load gs) a \<noteq> r)"
proof -
  have "list_all (heur_inv nx) ms \<and> cache_ok nx load c' \<and> ((\<exists>m \<in> set ms. Match nx m p) \<longleftrightarrow>
      gs \<noteq> [] \<and> (\<exists>a. std_addr p = Some a \<and> covered (geoip_cidrs load gs) a \<noteq> r))"
  proof (cases "gs = []")
    case False
    then obtain s where s: "GetOrCreateFromGeoIPRules nx load c gs = (Inr s, c')"
      "ms = [newHeuristicIPMatcher s r]"
      using assms(4) by (auto simp: geoip_sub_def split: prod.splits sum.splits)
    from GetOrCreate_sound(2) [OF assms(2,3) s(1)] obtain cs where
      cs: "set cs = geoip_cidrs load gs" "createFrom nx cs = (Inr s :: 'e ip_error + 's IPSet)" by blast
    show ?thesis
      unfolding s(2) using createFrom_Match(2) [OF assms(1) cs(2), of r p] False
        createFrom_Match(1) [OF assms(1) cs(2), of r] GetOrCreate_sound(1) [OF assms(2,3) s(1)]
      by (simp add: cs(1))
  qed (use assms in \<open>auto simp: geoip_sub_def\<close>)
  note all = this
  show "list_all (heur_inv nx) ms" by (rule all [THEN conjunct1])
  show "cache_ok nx load c'" by (rule all [THEN conjunct2, THEN conjunct1])
  show "(\<exists>m \<in> set ms. Match nx m p) \<longleftrightarrow>
      gs \<noteq> [] \<and> (\<exists>a. std_addr p = Some a \<and> covered (geoip_cidrs load gs) a \<noteq> r)"
    by (rule all [THEN conjunct2, THEN conjunct2])
qed

lemma pick_matcher_Match:
  assumes "netipx_ok nx" "list_all (heur_inv nx) ms" "pick_matcher ms = Inr m"
  shows "ipm_inv nx m \<and> (ipm_Match nx m p \<longleftrightarrow> (\<exists>m \<in> set ms. Match nx m p))"
  using assms by (auto simp: pick_matcher_def multi_Match_iff split: list.splits)

lemma buildOptimizedIPMatcher_sound:
  fixes nx :: "'s netipx" and load :: "'e ip_loader"
  assumes nx: "netipx_ok nx" and c: "cache_ok nx load c"
    and gs: "list_all gip_ok (posGeoip rs)" "list_all gip_ok (negGeoip rs)"
    and b: "buildOptimizedIPMatcher nx load c rs = (Inr m, c')"
  shows "cache_ok nx load c'" and "ipm_inv nx m"
    and "ipm_Match nx m p \<longleftrightarrow> (\<exists>a. std_addr p = Some a \<and> rules_accept load rs a)"
proof -
  obtain s1 s2 s3 s4 c1 where s: "custom_sub nx (posCustom rs) False = (Inr s1 :: 'e ip_error + _)"
    "custom_sub nx (negCustom rs) True = (Inr s2 :: 'e ip_error + _)"
    "geoip_sub nx load c (posGeoip rs) False = (Inr s3, c1)"
    "geoip_sub nx load c1 (negGeoip rs) True = (Inr s4, c')"
    and pick: "pick_matcher (s1 @ s2 @ s3 @ s4) = (Inr m :: 'e ip_error + _)"
    using b by (auto simp: buildOptimizedIPMatcher_def split: sum.splits prod.splits)
  note s1 = custom_sub_Match [OF nx s(1)] and s2 = custom_sub_Match [OF nx s(2)]
  note s3 = geoip_sub_Match [OF nx c gs(1) s(3)]
  note s4 = geoip_sub_Match [OF nx s3(2) gs(2) s(4)]
  show "cache_ok nx load c'" by (rule s4(2))
  have inv: "list_all (heur_inv nx) (s1 @ s2 @ s3 @ s4)"
    by (simp add: s1(1) s2(1) s3(1) s4(1))
  note p = pick_matcher_Match [OF nx inv pick]
  show "ipm_inv nx m" using p [of p] by (rule conjunct1)
  have "ipm_Match nx m p \<longleftrightarrow> (\<exists>m \<in> set s1. Match nx m p) \<or> (\<exists>m \<in> set s2. Match nx m p) \<or>
      (\<exists>m \<in> set s3. Match nx m p) \<or> (\<exists>m \<in> set s4. Match nx m p)"
    unfolding conjunct2 [OF p] by (auto simp only: set_append Un_iff)
  also have "\<dots> \<longleftrightarrow> (\<exists>a. std_addr p = Some a \<and> rules_accept load rs a)"
    unfolding s1(2) s2(2) s3(3) s4(3) rules_accept_def
    by (cases "std_addr p") (auto simp: geoip_cidrs_def)
  finally show "ipm_Match nx m p \<longleftrightarrow> (\<exists>a. std_addr p = Some a \<and> rules_accept load rs a)" .
qed

section \<open>The registry\<close>

definition rules_ok :: "IPRule list \<Rightarrow> bool" where
  "rules_ok rs \<longleftrightarrow> list_all gip_ok (posGeoip rs) \<and> list_all gip_ok (negGeoip rs)"

definition dyn_inv :: "'s netipx \<Rightarrow> 's DynamicIPMatcher \<Rightarrow> bool" where
  "dyn_inv nx d \<longleftrightarrow> ipm_inv nx (dyn_matcher d) \<and> rules_ok (dyn_rules d)"

definition registry_inv :: "'s netipx \<Rightarrow> 'e ip_loader \<Rightarrow> 's IPRegistry \<Rightarrow> bool" where
  "registry_inv nx load reg \<longleftrightarrow> cache_ok nx load (reg_cache reg) \<and> list_all (dyn_inv nx) (reg_matchers reg)"

lemma heur_inv_reverse [simp]:
  "heur_inv nx (ToggleReverse m) \<longleftrightarrow> heur_inv nx m" "heur_inv nx (SetReverse r m) \<longleftrightarrow> heur_inv nx m"
  by (simp_all add: heur_inv_def ToggleReverse_def SetReverse_def)

lemma ipm_inv_reverse [simp]:
  "ipm_inv nx (ipm_ToggleReverse m) \<longleftrightarrow> ipm_inv nx m" "ipm_inv nx (ipm_SetReverse r m) \<longleftrightarrow> ipm_inv nx m"
  by (cases m; simp add: multi_ToggleReverse_def multi_SetReverse_def list_all_iff)+

interpretation dyn: ip_matcher "dyn_inv nx" "dyn_Match nx" "dyn_AnyMatch nx" "dyn_Matches nx"
  for nx :: "'s netipx"
  by unfold_locales
    (auto simp: dyn_inv_def dyn_Match_def dyn_AnyMatch_def dyn_Matches_def ipm.any_match
      dest: ipm.match_valid ipm.matches_only)

lemma dyn_Reload_inv: "ipm_inv nx m \<Longrightarrow> rules_ok (dyn_rules d) \<Longrightarrow> dyn_inv nx (dyn_Reload d m)"
  by (simp add: dyn_inv_def dyn_Reload_def)

lemma dyn_reverse_inv:
  "dyn_inv nx d \<Longrightarrow> dyn_inv nx (dyn_ToggleReverse d)" "dyn_inv nx d \<Longrightarrow> dyn_inv nx (dyn_SetReverse r d)"
  by (simp_all add: dyn_inv_def dyn_ToggleReverse_def dyn_SetReverse_def)

lemma rebuild_all_sound:
  assumes nx: "netipx_ok nx" and "cache_ok nx load c" "\<forall>d \<in> set ds. rules_ok (dyn_rules d)"
    and "rebuild_all nx load c ds = Inr (c', ms)"
  shows "cache_ok nx load c' \<and> length ms = length ds \<and>
    (\<forall>i < length ds. ipm_inv nx (ms ! i) \<and>
      (\<forall>p. ipm_Match nx (ms ! i) p \<longleftrightarrow>
        (\<exists>a. std_addr p = Some a \<and> rules_accept load (dyn_rules (ds ! i)) a)))"
  using assms(2-)
proof (induction ds arbitrary: c ms)
  case (Cons d ds)
  then obtain m c1 ms' where b: "buildOptimizedIPMatcher nx load c (dyn_rules d) = (Inr m, c1)"
    and r: "rebuild_all nx load c1 ds = Inr (c', ms')" and ms: "ms = m # ms'"
    by (auto split: prod.splits sum.splits)
  have ok: "list_all gip_ok (posGeoip (dyn_rules d))" "list_all gip_ok (negGeoip (dyn_rules d))"
    using Cons.prems(2) by (auto simp: rules_ok_def)
  note s = buildOptimizedIPMatcher_sound [OF nx Cons.prems(1) ok b]
  from Cons.IH [OF s(1) _ r] Cons.prems(2) s(2,3) ms show ?case
    by (simp add: All_less_Suc2)
qed simp

lemma rebuild_all_error:
  "rebuild_all nx load c ds = Inl e \<Longrightarrow>
   \<exists>d \<in> set ds. \<exists>c1 c2. buildOptimizedIPMatcher nx load c1 (dyn_rules d) = (Inl e, c2)"
  by (induction ds arbitrary: c) (auto split: prod.splits sum.splits)

lemma BuildIPMatcher_inv:
  assumes nx: "netipx_ok nx" and inv: "registry_inv nx load reg" and "rules_ok rs"
    and b: "BuildIPMatcher nx load reg rs = (Inr d, reg')"
  shows "registry_inv nx load reg'"
    and "dyn_Match nx d p \<longleftrightarrow> (\<exists>a. std_addr p = Some a \<and> rules_accept load rs a)"
proof -
  obtain m c where o: "buildOptimizedIPMatcher nx load (reg_cache reg) rs = (Inr m, c)"
    and d: "d = NewDynamicIPMatcher rs m"
    and reg': "reg' = reg\<lparr>reg_cache := c, reg_matchers := reg_matchers reg @ [d]\<rparr>"
    using b by (auto simp: BuildIPMatcher_def Let_def split: prod.splits sum.splits)
  have ok: "list_all gip_ok (posGeoip rs)" "list_all gip_ok (negGeoip rs)"
    using assms(3) by (auto simp: rules_ok_def)
  note s = buildOptimizedIPMatcher_sound [OF nx _ ok o]
  show "registry_inv nx load reg'"
    using s inv assms(3)
    by (simp add: registry_inv_def reg' d NewDynamicIPMatcher_def dyn_Reload_inv)
  show "dyn_Match nx d p \<longleftrightarrow> (\<exists>a. std_addr p = Some a \<and> rules_accept load rs a)"
    using s(3) inv
    by (simp add: d NewDynamicIPMatcher_def dyn_Match_def dyn_Reload_def registry_inv_def)
qed

end
