(* ===== verification/IPProps.thy ===== *)
theory IPProps
  imports IPFactory
begin

text \<open>
  The properties of the IP matchers, each at a concrete input: the package netipx is instantiated
  by sets that are lists of prefixes. \<open>ex_pos\<close> is the matcher of 10.0.0.0/8 and 10.1.2.0/24,
  \<open>ex_host\<close> that of 10.1.2.3/32.
\<close>

definition ex_cidrs :: "CIDR list" where
  "ex_cidrs = [\<lparr>cidr_ip = [10, 0, 0, 0], cidr_prefix = 8\<rparr>, \<lparr>cidr_ip = [10, 1, 2, 0], cidr_prefix = 24\<rparr>]"

definition ex_pos :: "netprefix list HeuristicIPMatcher" where
  "ex_pos = newHeuristicIPMatcher
     \<lparr>ipv4 = [PrefixFrom (V4 0x0a000000) 8, PrefixFrom (V4 0x0a010200) 24], ipv6 = [],
      max4 = 24, max6 = 0xff\<rparr> False"

definition ex_host :: "netprefix list HeuristicIPMatcher" where
  "ex_host = newHeuristicIPMatcher
     \<lparr>ipv4 = [PrefixFrom (V4 0x0a010203) 32], ipv6 = [], max4 = 32, max6 = 0xff\<rparr> False"

lemma be_word_4: "be_word [a, b, c, d] =
    push_bit 8 (push_bit 8 (push_bit 8 (ucast a) OR ucast b) OR ucast c) OR ucast d"
  by (simp add: be_word_def)

lemma ex_create: "createFrom list_netipx ex_cidrs = Inr (ipset ex_pos)"
  by (simp add: createFrom_def ex_cidrs_def ex_pos_def newHeuristicIPMatcher_def list_netipx_def
      family_prefixes_def map_filter_def cidr_netprefix_def AddrFromSlice_def be_word_4
      PrefixFrom_def PrefixIsValid_def Let_def max_code_def PrefixBits_def)

lemma ex_create_host:
  "createFrom list_netipx [\<lparr>cidr_ip = [10, 1, 2, 3], cidr_prefix = 32\<rparr>] = Inr (ipset ex_host)"
  by (simp add: createFrom_def ex_host_def newHeuristicIPMatcher_def list_netipx_def
      family_prefixes_def map_filter_def cidr_netprefix_def AddrFromSlice_def be_word_4
      PrefixFrom_def PrefixIsValid_def Let_def max_code_def PrefixBits_def)

lemma ex_inv: "heur_inv list_netipx ex_pos" "heur_inv list_netipx ex_host"
  using createFrom_Match(1) [OF list_netipx_ok ex_create] createFrom_Match(1) [OF list_netipx_ok ex_create_host]
  by (simp_all add: ex_pos_def ex_host_def newHeuristicIPMatcher_def)

lemma ex_std [simp]:
  "std_addr [10, 1, 2, 3] = Some (V4 0x0a010203)" "std_addr [8, 8, 8, 8] = Some (V4 0x08080808)"
  "std_addr [10, 0, 0, 1] = Some (V4 0x0a000001)" "std_addr [1, 2] = None"
  by (simp_all add: std_addr_def To4_def is_v4_mapped_def be_word_4)

definition ex_eight :: "netprefix list HeuristicIPMatcher" where
  "ex_eight = newHeuristicIPMatcher
     \<lparr>ipv4 = [PrefixFrom (V4 0x08000000) 8], ipv6 = [], max4 = 8, max6 = 0xff\<rparr> False"

lemma ex_matches [simp]:
  "matchAddr list_netipx ex_pos (V4 0x0a010203)" "\<not> matchAddr list_netipx ex_pos (V4 0x08080808)"
  "matchAddr list_netipx ex_pos (V4 0x0a000001)" "\<not> matchAddr list_netipx ex_host (V4 0x0a000001)"
  "matchAddr list_netipx ex_host (V4 0x0a010203)" "\<not> matchAddr list_netipx ex_host (V4 0x08080808)"
  "\<not> matchAddr list_netipx ex_eight (V4 0x0a010203)" "matchAddr list_netipx ex_eight (V4 0x08080808)"
  by (simp_all add: matchAddr_def ex_pos_def ex_host_def ex_eight_def newHeuristicIPMatcher_def list_netipx_def
      PrefixContains_def PrefixIsValid_def PrefixFrom_def)

lemma ex_keys [simp]:
  "prefixKeyFromIP [10, 1, 2, 3] = Some [4, 10, 1, 2, 0, 0, 0, 0, 0]"
  "prefixKeyFromIP [8, 8, 8, 8] = Some [4, 8, 8, 8, 0, 0, 0, 0, 0]"
  by (simp_all add: prefixKeyFromIP_def To4_def numeral_eq_Suc)

lemma ex_max [simp]:
  "max4 (ipset ex_host) = 32" "max6 (ipset ex_host) = 0xff" "max4 (ipset ex_eight) = 8"
  "max6 (ipset ex_eight) = 0xff"
  by (simp_all add: ex_host_def ex_eight_def newHeuristicIPMatcher_def)

section \<open>One set\<close>

text \<open>C11. A heuristic matcher tests one representative per /24 or /64 instead of every address
  when no prefix of its set is longer. This changes no answer: \<open>AnyMatch\<close> holds exactly when some
  address matches, and \<open>Matches\<close> exactly when there is an address and all of them match.\<close>

theorem heuristic_any_all_exact:
  assumes "heur_inv nx m"
  shows "(AnyMatch nx m ps \<longleftrightarrow> (\<exists>p \<in> set ps. Match nx m p)) \<and>
    (Matches nx m ps \<longleftrightarrow> ps \<noteq> [] \<and> (\<forall>p \<in> set ps. Match nx m p))"
  using assms by (simp add: heur.any_match [where ord = rev] heur.matches_iff [where ord = rev])

theorem heuristic_any_all_exact_witness:
  "AnyMatch list_netipx ex_pos [[8, 8, 8, 8], [10, 1, 2, 3]] \<and>
   Matches list_netipx ex_pos [[10, 0, 0, 1], [10, 1, 2, 3]]"
  using heuristic_any_all_exact [OF ex_inv(1), of "[[8, 8, 8, 8], [10, 1, 2, 3]]"]
    heuristic_any_all_exact [OF ex_inv(1), of "[[10, 0, 0, 1], [10, 1, 2, 3]]"]
  by (simp add: Match_std [OF ex_inv(1)])

text \<open>C12. \<open>FilterIPs\<close> of a heuristic matcher splits the valid addresses, with their
  multiplicities and whatever the order in which the buckets are visited, into those that match
  and those that do not; invalid addresses are dropped.\<close>

theorem heuristic_filter_splits:
  assumes "heur_inv nx m" "range_order ord"
  shows "mset (fst (FilterIPs nx ord m ps)) = mset (filter (Match nx m) ps) \<and>
    mset (snd (FilterIPs nx ord m ps)) = mset (filter (\<lambda>p. std_addr p \<noteq> None \<and> \<not> Match nx m p) ps)"
  using assms heur.filter_matched heur.filter_unmatched by blast

theorem heuristic_filter_splits_witness:
  "mset (fst (FilterIPs list_netipx rev ex_pos [[8, 8, 8, 8], [1, 2], [10, 1, 2, 3]])) =
     mset (filter (Match list_netipx ex_pos) [[8, 8, 8, 8], [1, 2], [10, 1, 2, 3]]) \<and>
   mset (snd (FilterIPs list_netipx rev ex_pos [[8, 8, 8, 8], [1, 2], [10, 1, 2, 3]])) =
     mset (filter (\<lambda>p. std_addr p \<noteq> None \<and> \<not> Match list_netipx ex_pos p)
       [[8, 8, 8, 8], [1, 2], [10, 1, 2, 3]])"
  by (rule heuristic_filter_splits [OF ex_inv(1) range_order_id(2)])

section \<open>Several sets\<close>

text \<open>C13. The matcher over several sets shares buckets and lazily built views between them.
  \<open>AnyMatch\<close> still holds exactly when some address matches one of the sets, and \<open>Matches\<close>
  exactly when there is an address and one single set accepts all addresses.\<close>

theorem multi_any_all_exact:
  assumes "netipx_ok nx" "list_all (heur_inv nx) ms"
  shows "(multi_AnyMatch nx ms ps \<longleftrightarrow> (\<exists>p \<in> set ps. \<exists>m \<in> set ms. Match nx m p)) \<and>
    (multi_Matches nx ms ps \<longleftrightarrow> ps \<noteq> [] \<and> (\<exists>m \<in> set ms. \<forall>p \<in> set ps. Match nx m p))"
  using assms hmulti.any_match [of nx ms ps] multi_Matches_iff [of nx ms ps]
  by (simp add: multi_Match_iff)

theorem multi_any_all_exact_witness:
  "multi_AnyMatch list_netipx [ex_host, ex_pos] [[8, 8, 8, 8], [10, 0, 0, 1]] \<and>
   multi_Matches list_netipx [ex_host, ex_pos] [[10, 1, 2, 3], [10, 0, 0, 1]] \<and>
   \<not> multi_Matches list_netipx [ex_host, ex_pos] [[10, 1, 2, 3], [8, 8, 8, 8]]"
proof -
  have inv: "list_all (heur_inv list_netipx) [ex_host, ex_pos]" by (simp add: ex_inv)
  show ?thesis
    using multi_any_all_exact [OF list_netipx_ok inv, of "[[8, 8, 8, 8], [10, 0, 0, 1]]"]
      multi_any_all_exact [OF list_netipx_ok inv, of "[[10, 1, 2, 3], [10, 0, 0, 1]]"]
      multi_any_all_exact [OF list_netipx_ok inv, of "[[10, 1, 2, 3], [8, 8, 8, 8]]"]
    by (simp add: Match_std [OF ex_inv(1)] Match_std [OF ex_inv(2)])
qed

text \<open>\<open>FilterIPs\<close> of the matcher over several sets does not split: with the sets 10.1.2.3/32
  (precise view) and 8.0.0.0/8 (buckets), the addresses 10.1.2.3 and 8.8.8.8 are both matched and
  both returned as unmatched, since an address matched in one view stays in the other one.\<close>

theorem multi_filter_does_not_split:
  "multi_FilterIPs list_netipx \<lparr>ordH = (\<lambda>e. e), ordB = (\<lambda>e. e), ordP = (\<lambda>e. e)\<rparr> [ex_host, ex_eight]
     [[10, 1, 2, 3], [8, 8, 8, 8]] =
   ([[10, 1, 2, 3], [8, 8, 8, 8]], [[10, 1, 2, 3], [8, 8, 8, 8]])"
proof -
  have [simp]: "FromStdIP list_netipx = std_addr" by (simp add: list_netipx_def)
  show ?thesis
    by (simp add: multi_FilterIPs_def empty_bucket_views_def bucketEnsureForMatcher_def Let_def
        bucket_step_def AddrIsValid_def drain_family_def left_buckets_def left_precise_def)
qed

section \<open>Factory and registry\<close>

text \<open>The set the factory builds from CIDRs accepts exactly the addresses that one of the CIDRs
  covers; the reversed matcher accepts exactly the other valid addresses.\<close>

theorem set_matches_its_cidrs:
  assumes "netipx_ok nx" "createFrom nx cs = Inr s"
  shows "Match nx (newHeuristicIPMatcher s r) p \<longleftrightarrow>
    (\<exists>a. std_addr p = Some a \<and> (\<exists>c \<in> set cs. cidr_covers c a) \<noteq> r)"
  using assms by (rule createFrom_Match(2))

theorem set_matches_its_cidrs_witness:
  "createFrom list_netipx ex_cidrs = Inr (ipset ex_pos) \<and>
   (Match list_netipx (newHeuristicIPMatcher (ipset ex_pos) True) [8, 8, 8, 8] \<longleftrightarrow>
    (\<exists>a. std_addr [8, 8, 8, 8] = Some a \<and> (\<exists>c \<in> set ex_cidrs. cidr_covers c a) \<noteq> True))"
  using set_matches_its_cidrs [OF list_netipx_ok ex_create, of True "[8, 8, 8, 8]"] ex_create by blast

text \<open>The key under which the factory caches the set of a list of GeoIP rules is the same for
  two lists exactly when they name the same lists of the same files, whatever their order and
  repetitions, provided file names have no colon and codes no comma.\<close>

theorem geoip_key_identifies_lists:
  assumes "list_all gip_ok rs" "list_all gip_ok rs'"
  shows "buildGeoIPRulesKey rs = buildGeoIPRulesKey rs' \<longleftrightarrow>
    (\<lambda>r. (gip_file r, gip_code r)) ` set rs = (\<lambda>r. (gip_file r, gip_code r)) ` set rs'"
  using assms by (rule buildGeoIPRulesKey_iff)

theorem geoip_key_identifies_lists_witness:
  "buildGeoIPRulesKey [\<lparr>gip_file = ''geoip.dat'', gip_code = ''CN'', gip_reverse = False\<rparr>,
      \<lparr>gip_file = ''geoip.dat'', gip_code = ''AU'', gip_reverse = False\<rparr>] =
   buildGeoIPRulesKey [\<lparr>gip_file = ''geoip.dat'', gip_code = ''AU'', gip_reverse = True\<rparr>,
      \<lparr>gip_file = ''geoip.dat'', gip_code = ''CN'', gip_reverse = True\<rparr>,
      \<lparr>gip_file = ''geoip.dat'', gip_code = ''AU'', gip_reverse = True\<rparr>]"
  by (subst geoip_key_identifies_lists) (auto simp: gip_ok_def)

text \<open>C15. The matcher built from rules, from cached or freshly loaded GeoIP lists, accepts exactly
  the addresses the rules mean, and leaves the cache faithful to the files. The names of files and the
  codes hold no separator of the cache keys (\<open>rules_ok\<close>).\<close>

theorem build_accepts_rules:
  assumes "netipx_ok nx" "cache_ok nx load c" "rules_ok rs"
    "buildOptimizedIPMatcher nx load c rs = (Inr m, c')"
  shows "cache_ok nx load c' \<and> ipm_inv nx m \<and>
    (ipm_Match nx m p \<longleftrightarrow> (\<exists>a. std_addr p = Some a \<and> rules_accept load rs a))"
  using assms(3) buildOptimizedIPMatcher_sound [OF assms(1,2) _ _ assms(4)]
  by (simp add: rules_ok_def)

definition ex_load :: "string ip_loader" where
  "ex_load file code = (if code = ''T'' then Inr ex_cidrs else Inl ''no such code'')"

definition ex_rules :: "IPRule list" where
  "ex_rules = [IPRule_Geoip \<lparr>gip_file = ''f'', gip_code = ''T'', gip_reverse = False\<rparr>]"

lemma ex_rules_ok: "rules_ok ex_rules"
  by (simp add: rules_ok_def ex_rules_def posGeoip_def negGeoip_def map_filter_def gip_ok_def)

lemma ex_build:
  "buildOptimizedIPMatcher list_netipx ex_load [] ex_rules = (Inr (Heuristic ex_pos), [(''f:T,'', ipset ex_pos)])"
  by (simp add: buildOptimizedIPMatcher_def ex_rules_def posCustom_def negCustom_def posGeoip_def
      negGeoip_def map_filter_def custom_sub_def geoip_sub_def GetOrCreateFromGeoIPRules_def
      load_rules_def ex_load_def pick_matcher_def buildGeoIPRulesKey_def ex_create)
    (simp add: ex_pos_def newHeuristicIPMatcher_def)

theorem build_accepts_rules_witness:
  "ipm_inv list_netipx (Heuristic ex_pos) \<and>
   (ipm_Match list_netipx (Heuristic ex_pos) [10, 1, 2, 3] \<longleftrightarrow>
    (\<exists>a. std_addr [10, 1, 2, 3] = Some a \<and> rules_accept ex_load ex_rules a))"
  using build_accepts_rules [OF list_netipx_ok cache_ok_empty ex_rules_ok ex_build] by blast

text \<open>C16. Reloading the GeoIP data replaces the state of every registered matcher or of none. On
  failure the registry is unchanged and some matcher could not be rebuilt. On success the
  invariant of the registry holds for the new files, every matcher keeps its rules and its
  reverse settings, and one that is not reversed accepts what its rules mean with the new files.\<close>

theorem registry_reload_all_or_nothing:
  assumes nx: "netipx_ok nx" and inv: "registry_inv nx load reg"
  shows "case RegistryReload nx load' reg of
      (Some e, reg') \<Rightarrow> reg' = reg \<and> (\<exists>d \<in> set (reg_matchers reg). \<exists>c c'.
        buildOptimizedIPMatcher nx load' c (dyn_rules d) = (Inl e, c'))
    | (None, reg') \<Rightarrow> registry_inv nx load' reg' \<and>
        map dyn_rules (reg_matchers reg') = map dyn_rules (reg_matchers reg) \<and>
        map dyn_reverse (reg_matchers reg') = map dyn_reverse (reg_matchers reg) \<and>
        map dyn_reverseSet (reg_matchers reg') = map dyn_reverseSet (reg_matchers reg) \<and>
        (\<forall>d \<in> set (reg_matchers reg'). \<not> dyn_reverse d \<longrightarrow> \<not> dyn_reverseSet d \<longrightarrow>
          (\<forall>p. dyn_Match nx d p \<longleftrightarrow> (\<exists>a. std_addr p = Some a \<and> rules_accept load' (dyn_rules d) a)))"
proof (cases "rebuild_all nx load' [] (reg_matchers reg)")
  case (Inl e)
  then show ?thesis using rebuild_all_error [OF Inl] by (simp add: RegistryReload_def)
next
  case (Inr r)
  obtain c ms where r: "r = (c, ms)" by (cases r)
  let ?ds = "reg_matchers reg" and ?ds' = "map2 dyn_Reload (reg_matchers reg) ms"
  have rules: "\<forall>d \<in> set ?ds. rules_ok (dyn_rules d)"
    using inv by (auto simp: registry_inv_def dyn_inv_def list_all_iff)
  from rebuild_all_sound [OF nx cache_ok_empty rules Inr [unfolded r]]
  have c: "cache_ok nx load' c" and len: "length ms = length ?ds"
    and ms: "\<And>i. i < length ?ds \<Longrightarrow> ipm_inv nx (ms ! i)"
      "\<And>i p. i < length ?ds \<Longrightarrow> ipm_Match nx (ms ! i) p \<longleftrightarrow>
        (\<exists>a. std_addr p = Some a \<and> rules_accept load' (dyn_rules (?ds ! i)) a)" by auto
  have "\<forall>d \<in> set ?ds'. dyn_inv nx d"
    using len ms(1) rules by (auto simp: set_zip dyn_Reload_inv)
  moreover have "map dyn_rules ?ds' = map dyn_rules ?ds" "map dyn_reverse ?ds' = map dyn_reverse ?ds"
    "map dyn_reverseSet ?ds' = map dyn_reverseSet ?ds"
    using len by (auto simp: list_eq_iff_nth_eq dyn_Reload_def)
  moreover have "\<forall>d \<in> set ?ds'. \<not> dyn_reverse d \<longrightarrow> \<not> dyn_reverseSet d \<longrightarrow>
      (\<forall>p. dyn_Match nx d p \<longleftrightarrow> (\<exists>a. std_addr p = Some a \<and> rules_accept load' (dyn_rules d) a))"
    using len ms(2) by (auto simp: set_zip dyn_Reload_def dyn_Match_def)
  ultimately show ?thesis using Inr r c
    by (simp add: RegistryReload_def registry_inv_def list_all_iff)
qed

definition ex_registry :: "netprefix list IPRegistry" where
  "ex_registry = \<lparr>reg_cache = [], reg_matchers = [NewDynamicIPMatcher ex_rules (Heuristic ex_pos)]\<rparr>"

lemma ex_registry_inv: "registry_inv list_netipx ex_load ex_registry"
  by (simp add: registry_inv_def ex_registry_def NewDynamicIPMatcher_def dyn_Reload_inv ex_inv ex_rules_ok)

theorem registry_reload_all_or_nothing_witness:
  "snd (RegistryReload list_netipx (\<lambda>f c. Inl ''gone'') ex_registry) = ex_registry"
  using registry_reload_all_or_nothing [OF list_netipx_ok ex_registry_inv, of "\<lambda>f c. Inl ''gone''"]
  by (simp add: RegistryReload_def ex_registry_def NewDynamicIPMatcher_def dyn_Reload_def
      buildOptimizedIPMatcher_def ex_rules_def posCustom_def negCustom_def posGeoip_def
      negGeoip_def map_filter_def custom_sub_def geoip_sub_def GetOrCreateFromGeoIPRules_def
      load_rules_def)

end
