(* ===== verification/IPFilters.thy ===== *)
theory IPFilters
  imports IPProps
begin

text \<open>
  What \<open>FilterIPs\<close> of the matcher over several heuristic matchers returns. The views of the two
  families are maps from a key, or from an address, to what is left of the addresses; a matcher that
  accepts an entry takes its addresses and leaves nil. A matcher looks only into the view its own
  longest prefix asks for, so the first result is exact, as addresses, while the second one is exact
  only when all matchers ask for the same view of each family.
\<close>

section \<open>Emptying a view\<close>

text \<open>Both loops over a view, with the test and the addresses of an entry as arguments.\<close>

fun drain :: "('k \<Rightarrow> 'v \<Rightarrow> bool) \<Rightarrow> ('v \<Rightarrow> ip list) \<Rightarrow> ('k \<times> 'v option) list \<Rightarrow> ('k, 'v option) go_map \<Rightarrow>
    ip list \<Rightarrow> ('k, 'v option) go_map \<times> ip list" where
  "drain hit out [] m mt = (m, mt)"
| "drain hit out ((k, b) # es) m mt =
     (case b of
        None \<Rightarrow> drain hit out es m mt
      | Some x \<Rightarrow>
          if hit k x then drain hit out es (al_put k None m) (mt @ out x) else drain hit out es m mt)"

lemma drain_buckets_eq: "drain_buckets nx m es bk mt = drain (\<lambda>_ b. matchAddr nx m (rep b)) ips es bk mt"
  by (induction nx m es bk mt rule: drain_buckets.induct) (auto split: option.split)

lemma drain_precise_eq: "drain_precise nx m es pr mt = drain (\<lambda>a _. matchAddr nx m a) (\<lambda>p. [p]) es pr mt"
  by (induction nx m es pr mt rule: drain_precise.induct) (auto split: option.split)

definition drained :: "('k \<Rightarrow> 'v \<Rightarrow> bool) \<Rightarrow> ('k \<Rightarrow> 'v option option) \<Rightarrow> 'k \<Rightarrow> 'v option option" where
  "drained hit g k = (case g k of Some (Some v) \<Rightarrow> if hit k v then Some None else Some (Some v) | x \<Rightarrow> x)"

definition hits :: "('k \<Rightarrow> 'v \<Rightarrow> bool) \<Rightarrow> ('k \<times> 'v option) list \<Rightarrow> ('k \<times> 'v) list" where
  "hits hit es = concat (map (\<lambda>(k, b). case b of None \<Rightarrow> [] | Some v \<Rightarrow> if hit k v then [(k, v)] else []) es)"

lemma in_hits: "(k, v) \<in> set (hits hit es) \<longleftrightarrow> (k, Some v) \<in> set es \<and> hit k v"
  by (induction es) (auto simp: hits_def split: option.splits if_splits)

lemma drain_hits:
  "drain hit out es m mt = (fold (\<lambda>(k, v). al_put k None) (hits hit es) m, mt @ concat (map (\<lambda>(k, v). out v) (hits hit es)))"
  by (induction hit out es m mt rule: drain.induct) (simp_all add: hits_def split: option.split)

lemma fold_put_None:
  "al_get (fold (\<lambda>(k, v). al_put k None) hs m) k = (if k \<in> fst ` set hs then Some None else al_get m k)"
  "al_ok (fold (\<lambda>(k, v). al_put k None) hs m) \<longleftrightarrow> al_ok m"
  by (induction hs arbitrary: m) (auto simp: al_simps)

lemma drain_spec:
  assumes "al_ok m" "range_order ord" "drain hit out (ord m) m mt = (m', mt')"
  shows "al_ok m'" "al_get m' = drained hit (al_get m)"
    "set mt' = set mt \<union> {p. \<exists>k v. al_get m k = Some (Some v) \<and> hit k v \<and> p \<in> set (out v)}"
proof -
  have "set (ord m) = set m" using assms(2) by simp
  then have e: "(k, v) \<in> set (hits hit (ord m)) \<longleftrightarrow> al_get m k = Some (Some v) \<and> hit k v" for k v
    using assms(1) by (simp add: in_hits map_of_eq_Some_iff)
  have key: "k \<in> fst ` set (hits hit (ord m)) \<longleftrightarrow> (\<exists>v. al_get m k = Some (Some v) \<and> hit k v)" for k
    by (simp add: image_iff Bex_def e)
  have m: "m' = fold (\<lambda>(k, v). al_put k None) (hits hit (ord m)) m" "mt' = mt @ concat (map (\<lambda>(k, v). out v) (hits hit (ord m)))"
    using assms(3) by (simp_all add: drain_hits)
  show "al_ok m'" using assms(1) by (simp add: m fold_put_None)
  have "al_get m' k = drained hit (al_get m) k" for k
  proof (cases "\<exists>v. al_get m k = Some (Some v)")
    case True
    then show ?thesis by (auto simp: m fold_put_None key drained_def)
  next
    case False
    then have "al_get m' k = al_get m k" by (simp add: m fold_put_None key)
    with False show ?thesis by (simp add: drained_def split: option.splits)
  qed
  then show "al_get m' = drained hit (al_get m)" by (rule ext)
  have "p \<in> set mt' \<longleftrightarrow> p \<in> set mt \<or> (\<exists>k v. (k, v) \<in> set (hits hit (ord m)) \<and> p \<in> set (out v))" for p
    unfolding m by auto
  then show "set mt' = set mt \<union> {p. \<exists>k v. al_get m k = Some (Some v) \<and> hit k v \<and> p \<in> set (out v)}"
    unfolding e by blast
qed

section \<open>The entries of a view\<close>

definition group :: "ip list \<Rightarrow> key \<Rightarrow> ip list" where
  "group ps k = filter (\<lambda>p. prefixKeyFromIP p = Some k) ps"

definition at_addr :: "byte \<Rightarrow> ip list \<Rightarrow> addr \<Rightarrow> ip list" where
  "at_addr n ps a = filter (\<lambda>p. std_addr p = Some a \<and> in_family n p) ps"

definition bk_base :: "byte \<Rightarrow> ip list \<Rightarrow> key \<Rightarrow> ipBucket option option" where
  "bk_base n ps k = (if k ! 0 \<noteq> n \<or> group ps k = [] then None
     else Some (Some \<lparr>rep = the (std_addr (hd (group ps k))), ips = group ps k\<rparr>))"

definition pr_base :: "byte \<Rightarrow> ip list \<Rightarrow> addr \<Rightarrow> ip option option" where
  "pr_base n ps a = (if at_addr n ps a = [] then None else Some (Some (last (at_addr n ps a))))"

definition bk_is :: "byte \<Rightarrow> ip list \<Rightarrow> (key, ipBucket option) go_map \<Rightarrow> bool" where
  "bk_is n ps bk \<longleftrightarrow> al_ok bk \<and> al_get bk = bk_base n ps"

definition pr_is :: "byte \<Rightarrow> ip list \<Rightarrow> (addr, ip option) go_map \<Rightarrow> bool" where
  "pr_is n ps pr \<longleftrightarrow> al_ok pr \<and> al_get pr = pr_base n ps"

lemma base_other:
  assumes "prefixKeyFromIP p = None \<or> (\<exists>k. prefixKeyFromIP p = Some k \<and> k ! 0 \<noteq> n)"
  shows "bk_is n (qs @ [p]) bk \<longleftrightarrow> bk_is n qs bk" "pr_is n (qs @ [p]) pr \<longleftrightarrow> pr_is n qs pr"
proof -
  have "bk_base n (qs @ [p]) = bk_base n qs" using assms by (auto simp: fun_eq_iff bk_base_def group_def)
  then show "bk_is n (qs @ [p]) bk \<longleftrightarrow> bk_is n qs bk" by (simp add: bk_is_def)
  have "at_addr n (qs @ [p]) = at_addr n qs" using assms by (auto simp: fun_eq_iff at_addr_def in_family_def)
  then show "pr_is n (qs @ [p]) pr \<longleftrightarrow> pr_is n qs pr" by (simp add: pr_is_def pr_base_def fun_eq_iff)
qed

lemma bk_snoc:
  assumes p: "prefixKeyFromIP p = Some k" "std_addr p = Some a" and b: "bk_is (k ! 0) qs bk"
  shows "al_get bk k = None \<Longrightarrow> bk_is (k ! 0) (qs @ [p]) (al_put k (Some \<lparr>rep = a, ips = [p]\<rparr>) bk)"
    "al_get bk k = Some x \<Longrightarrow>
      bk_is (k ! 0) (qs @ [p]) (al_put k (map_option (\<lambda>x. x\<lparr>ips := ips x @ [p]\<rparr>) x) bk)"
  using p b by (auto simp: bk_is_def al_simps bk_base_def group_def fun_eq_iff split: if_splits)

lemma pr_snoc:
  assumes p: "prefixKeyFromIP p = Some k" "std_addr p = Some a" and b: "pr_is (k ! 0) qs pr"
  shows "pr_is (k ! 0) (qs @ [p]) (al_put a (Some p) pr)"
  using p b by (auto simp: pr_is_def al_simps pr_base_def at_addr_def in_family_def fun_eq_iff)

lemma bucket_step_ok:
  assumes nx: "netipx_ok nx" and p: "prefixKeyFromIP p = Some k" "std_addr p = Some a"
    and "view_rel h (bk_is (k ! 0) qs) b0 b" "view_rel pr (pr_is (k ! 0) qs) l0 l"
  shows "\<exists>b' l'. bucket_step nx h pr k p (b, l) = (b', l') \<and>
    view_rel h (bk_is (k ! 0) (qs @ [p])) b0 b' \<and> view_rel pr (pr_is (k ! 0) (qs @ [p])) l0 l'"
proof -
  have a0: "a \<noteq> AddrZero" using p std_addr_not_zero by metis
  define b' where "b' = (if h then (case al_get (the b) k of
      None \<Rightarrow> map_option (al_put k (Some \<lparr>rep = a, ips = [p]\<rparr>)) b
    | Some x \<Rightarrow> map_option (al_put k (map_option (\<lambda>x. x\<lparr>ips := ips x @ [p]\<rparr>) x)) b) else b)"
  have "view_rel h (bk_is (k ! 0) (qs @ [p])) b0 b'"
    using assms(4) bk_snoc [OF p] by (auto simp: view_rel_def b'_def split: if_splits option.split)
  moreover have "view_rel pr (pr_is (k ! 0) (qs @ [p])) l0 (if pr then map_option (al_put a (Some p)) l else l)"
    using assms(5) pr_snoc [OF p] by (auto simp: view_rel_def)
  moreover have "bucket_step nx h pr k p (b, l) = (b', if pr then map_option (al_put a (Some p)) l else l)"
    using p a0 by (auto simp: bucket_step_def b'_def netipx_FromStdIP [OF nx] AddrIsValid_def split: option.split)
  ultimately show ?thesis by blast
qed

definition bviews_rel :: "bool \<Rightarrow> bool \<Rightarrow> bool \<Rightarrow> bool \<Rightarrow> ip list \<Rightarrow> ipBucketViews \<Rightarrow> ipBucketViews \<Rightarrow> bool" where
  "bviews_rel h4 h6 p4 p6 qs v0 v \<longleftrightarrow>
     view_rel h4 (bk_is 4 qs) (fbuckets4 v0) (fbuckets4 v) \<and>
     view_rel h6 (bk_is 6 qs) (fbuckets6 v0) (fbuckets6 v) \<and>
     view_rel p4 (pr_is 4 qs) (fprecise4 v0) (fprecise4 v) \<and>
     view_rel p6 (pr_is 6 qs) (fprecise6 v0) (fprecise6 v)"

lemma bviews_other:
  assumes "prefixKeyFromIP p = None \<or> (\<exists>k. prefixKeyFromIP p = Some k \<and> k ! 0 \<noteq> n)"
  shows "view_rel h (bk_is n (qs @ [p])) b0 b \<longleftrightarrow> view_rel h (bk_is n qs) b0 b"
    "view_rel h (pr_is n (qs @ [p])) l0 l \<longleftrightarrow> view_rel h (pr_is n qs) l0 l"
  using base_other [OF assms] by (simp_all add: view_rel_def)

lemma bucket_views_loop_ok:
  assumes nx: "netipx_ok nx" and "bviews_rel h4 h6 p4 p6 qs v0 v"
  shows "bviews_rel h4 h6 p4 p6 (qs @ ps) v0 (bucket_views_loop nx h4 h6 p4 p6 ps v)"
  using assms(2)
proof (induction ps arbitrary: qs v)
  case (Cons p ps)
  note rel = Cons.prems [unfolded bviews_rel_def]
  obtain w where "bucket_views_loop nx h4 h6 p4 p6 (p # ps) v = bucket_views_loop nx h4 h6 p4 p6 ps w"
    "bviews_rel h4 h6 p4 p6 (qs @ [p]) v0 w"
  proof (cases "prefixKeyFromIP p")
    case None
    then show ?thesis using rel by (intro that [of v]) (simp_all add: bviews_rel_def bviews_other)
  next
    case (Some k)
    then obtain a where a: "std_addr p = Some a" using key_Some_std by blast
    note p = Some a
    consider "k ! 0 = 4" | "k ! 0 = 6" using key_family [OF p] by auto
    then show ?thesis
    proof cases
      case 1
      with bucket_step_ok [OF nx p, of h4 qs _ _ p4] rel obtain b l where
        "bucket_step nx h4 p4 k p (fbuckets4 v, fprecise4 v) = (b, l)"
        "view_rel h4 (bk_is 4 (qs @ [p])) (fbuckets4 v0) b"
        "view_rel p4 (pr_is 4 (qs @ [p])) (fprecise4 v0) l" by metis
      with 1 Some rel show ?thesis
        by (intro that [of "v\<lparr>fbuckets4 := b, fprecise4 := l\<rparr>"]) (simp_all add: bviews_rel_def bviews_other)
    next
      case 2
      with bucket_step_ok [OF nx p, of h6 qs _ _ p6] rel obtain b l where
        "bucket_step nx h6 p6 k p (fbuckets6 v, fprecise6 v) = (b, l)"
        "view_rel h6 (bk_is 6 (qs @ [p])) (fbuckets6 v0) b"
        "view_rel p6 (pr_is 6 (qs @ [p])) (fprecise6 v0) l" by metis
      with 2 Some rel show ?thesis
        by (intro that [of "v\<lparr>fbuckets6 := b, fprecise6 := l\<rparr>"]) (simp_all add: bviews_rel_def bviews_other)
    qed
  qed
  with Cons.IH [of "qs @ [p]" w] show ?case by simp
qed simp

section \<open>The views between two matchers\<close>

definition uses :: "byte \<Rightarrow> 's HeuristicIPMatcher \<Rightarrow> bool" where
  "uses n m \<longleftrightarrow> (if n = 4 then heur4 m else heur6 m)"

text \<open>What is left after the matchers of \<open>D\<close>; a view exists when a matcher of \<open>E\<close> has asked for it.\<close>

definition bk_now :: "'s netipx \<Rightarrow> byte \<Rightarrow> ip list \<Rightarrow> 's HeuristicIPMatcher set \<Rightarrow> key \<Rightarrow> ipBucket option option" where
  "bk_now nx n ps D = drained (\<lambda>_ b. \<exists>m \<in> D. uses n m \<and> matchAddr nx m (rep b)) (bk_base n ps)"

definition pr_now :: "'s netipx \<Rightarrow> byte \<Rightarrow> ip list \<Rightarrow> 's HeuristicIPMatcher set \<Rightarrow> addr \<Rightarrow> ip option option" where
  "pr_now nx n ps D = drained (\<lambda>a _. \<exists>m \<in> D. \<not> uses n m \<and> matchAddr nx m a) (pr_base n ps)"

definition view_at :: "bool \<Rightarrow> ('k \<Rightarrow> 'v option) \<Rightarrow> ('k, 'v) go_map option \<Rightarrow> bool" where
  "view_at used f v \<longleftrightarrow> (if used then \<exists>m. v = Some m \<and> al_ok m \<and> al_get m = f else v = None)"

definition views_at :: "'s netipx \<Rightarrow> ip list \<Rightarrow> 's HeuristicIPMatcher set \<Rightarrow> 's HeuristicIPMatcher set \<Rightarrow> ipBucketViews \<Rightarrow> bool" where
  "views_at nx ps D E v \<longleftrightarrow>
     view_at (\<exists>m \<in> E. uses 4 m) (bk_now nx 4 ps D) (fbuckets4 v) \<and>
     view_at (\<exists>m \<in> E. uses 6 m) (bk_now nx 6 ps D) (fbuckets6 v) \<and>
     view_at (\<exists>m \<in> E. \<not> uses 4 m) (pr_now nx 4 ps D) (fprecise4 v) \<and>
     view_at (\<exists>m \<in> E. \<not> uses 6 m) (pr_now nx 6 ps D) (fprecise6 v)"

lemma drained_False: "drained (\<lambda>k v. False) g = g"
  by (rule ext) (simp add: drained_def split: option.split)

lemma drained_drained: "drained h (drained h' g) = drained (\<lambda>k v. h' k v \<or> h k v) g"
  by (rule ext) (simp add: drained_def split: option.split)

lemma now_unused:
  "\<not> (\<exists>m \<in> D. uses n m) \<Longrightarrow> bk_now nx n ps D = bk_base n ps"
  "\<not> (\<exists>m \<in> D. \<not> uses n m) \<Longrightarrow> pr_now nx n ps D = pr_base n ps"
  using drained_False by (simp_all add: bk_now_def pr_now_def cong: rev_conj_cong)

lemma now_insert:
  "bk_now nx n ps (insert m D) = (if uses n m then drained (\<lambda>_ b. matchAddr nx m (rep b)) (bk_now nx n ps D) else bk_now nx n ps D)"
  "pr_now nx n ps (insert m D) = (if uses n m then pr_now nx n ps D else drained (\<lambda>a _. matchAddr nx m a) (pr_now nx n ps D))"
  by (auto simp: bk_now_def pr_now_def drained_drained intro!: arg_cong [where f = "\<lambda>h. drained h _"])

lemma view_at_ensure:
  assumes "view_at u f v" "need \<longleftrightarrow> u' \<and> v = None" "view_rel need good v v'"
    "\<And>x. good x \<Longrightarrow> \<not> u \<Longrightarrow> al_ok x \<and> al_get x = f"
  shows "view_at (u' \<or> u) f v'"
  using assms by (auto simp: view_at_def view_rel_def split: if_splits)

lemma bucketEnsure_ok:
  assumes nx: "netipx_ok nx" and v: "views_at nx ps D D v"
  shows "views_at nx ps D (insert m D) (bucketEnsureForMatcher nx m ps v)"
proof -
  define h4 where "h4 \<longleftrightarrow> heur4 m \<and> fbuckets4 v = None"
  define h6 where "h6 \<longleftrightarrow> heur6 m \<and> fbuckets6 v = None"
  define p4 where "p4 \<longleftrightarrow> \<not> heur4 m \<and> fprecise4 v = None"
  define p6 where "p6 \<longleftrightarrow> \<not> heur6 m \<and> fprecise6 v = None"
  note d = h4_def h6_def p4_def p6_def
  let ?w = "v\<lparr>fbuckets4 := if h4 then Some [] else fbuckets4 v,
    fbuckets6 := if h6 then Some [] else fbuckets6 v,
    fprecise4 := if p4 then Some [] else fprecise4 v,
    fprecise6 := if p6 then Some [] else fprecise6 v\<rparr>"
  let ?v = "bucketEnsureForMatcher nx m ps v"
  have e: "?v = (if \<not> h4 \<and> \<not> h6 \<and> \<not> p4 \<and> \<not> p6 then v else bucket_views_loop nx h4 h6 p4 p6 ps ?w)"
    by (simp only: bucketEnsureForMatcher_def Let_def h4_def h6_def p4_def p6_def)
  have w: "bviews_rel h4 h6 p4 p6 [] v ?w"
    by (simp add: bviews_rel_def view_rel_def bk_is_def pr_is_def bk_base_def pr_base_def group_def at_addr_def fun_eq_iff)
  have rel: "bviews_rel h4 h6 p4 p6 ps v ?v"
  proof (cases "\<not> h4 \<and> \<not> h6 \<and> \<not> p4 \<and> \<not> p6")
    case True
    then have "?v = v" unfolding e by (rule if_P)
    then show ?thesis using True by (simp add: bviews_rel_def view_rel_def)
  next
    case False
    then have "?v = bucket_views_loop nx h4 h6 p4 p6 ps ?w" unfolding e by (rule if_not_P)
    then show ?thesis using bucket_views_loop_ok [OF nx w, of ps] by simp
  qed
  have bk: "al_ok x \<and> al_get x = bk_now nx n ps D" if "bk_is n ps x" "\<not> (\<exists>m \<in> D. uses n m)" for n x
    using that(1) now_unused(1) [OF that(2)] by (simp add: bk_is_def)
  have pr: "al_ok x \<and> al_get x = pr_now nx n ps D" if "pr_is n ps x" "\<not> (\<exists>m \<in> D. \<not> uses n m)" for n x
    using that(1) now_unused(2) [OF that(2)] by (simp add: pr_is_def)
  have need: "h4 \<longleftrightarrow> uses 4 m \<and> fbuckets4 v = None" "h6 \<longleftrightarrow> uses 6 m \<and> fbuckets6 v = None"
    "p4 \<longleftrightarrow> \<not> uses 4 m \<and> fprecise4 v = None" "p6 \<longleftrightarrow> \<not> uses 6 m \<and> fprecise6 v = None"
    by (simp_all add: d uses_def)
  note r = rel [unfolded bviews_rel_def] and vv = v [unfolded views_at_def]
  show ?thesis
    unfolding views_at_def bex_simps(5)
    using vv r by (intro conjI; elim conjE) (erule (1) view_at_ensure [OF _ need(1)] view_at_ensure [OF _ need(2)]
        view_at_ensure [OF _ need(3)] view_at_ensure [OF _ need(4)]; rule bk pr; assumption)+
qed

section \<open>The addresses of a view\<close>

text \<open>A precise view keeps the last of the addresses that are the same for netipx.\<close>

definition newest :: "byte \<Rightarrow> ip list \<Rightarrow> ip \<Rightarrow> bool" where
  "newest n ps p \<longleftrightarrow> p \<in> set ps \<and> in_family n p \<and> p = last (at_addr n ps (the (std_addr p)))"

lemma family_std: "in_family n p \<Longrightarrow> \<exists>a. std_addr p = Some a"
  using key_Some_std by (auto simp: in_family_def)

lemma Match_rep:
  assumes "heur_inv nx m" "uses n m" "n = 4 \<or> n = 6" "k ! 0 = n" "p \<in> set (group ps k)"
  shows "matchAddr nx m (the (std_addr (hd (group ps k)))) \<longleftrightarrow> Match nx m p"
proof -
  define q where "q = hd (group ps k)"
  have "q \<in> set (group ps k)" using assms(5) unfolding q_def by (metis hd_in_set empty_iff empty_set)
  then have q: "prefixKeyFromIP q = Some k" by (simp add: group_def)
  then obtain a where a: "std_addr q = Some a" using key_Some_std by blast
  have "key_heur m k" using assms(2-4) by (auto simp: key_heur_def uses_def)
  from Match_same_key [OF assms(1) this _ q, of p] assms(5) have "Match nx m p \<longleftrightarrow> Match nx m q" by (simp add: group_def)
  then show ?thesis using a by (simp add: Match_std [OF assms(1)] flip: q_def)
qed

lemma bk_now_Some:
  assumes "n = 4 \<or> n = 6" "\<forall>m \<in> D. heur_inv nx m"
  shows "bk_now nx n ps D k = Some (Some b) \<longleftrightarrow> bk_base n ps k = Some (Some b) \<and>
    (\<forall>p \<in> set (ips b). \<forall>m \<in> D. uses n m \<longrightarrow> \<not> Match nx m p)"
proof (cases "bk_base n ps k = Some (Some b)")
  case True
  then have k: "k ! 0 = n" "group ps k \<noteq> []" and b: "rep b = the (std_addr (hd (group ps k)))" "ips b = group ps k"
    by (auto simp: bk_base_def split: if_splits)
  have "matchAddr nx m (rep b) \<longleftrightarrow> Match nx m p" if "m \<in> D" "uses n m" "p \<in> set (ips b)" for m p
    using Match_rep [of nx m n k p ps] that assms k b by simp
  moreover have "hd (group ps k) \<in> set (ips b)" using k b by simp
  ultimately have "(\<exists>m \<in> D. uses n m \<and> matchAddr nx m (rep b)) \<longleftrightarrow>
      \<not> (\<forall>p \<in> set (ips b). \<forall>m \<in> D. uses n m \<longrightarrow> \<not> Match nx m p)" by blast
  with True show ?thesis by (simp add: bk_now_def drained_def)
next
  case False
  then show ?thesis by (auto simp: bk_now_def drained_def split: option.splits)
qed

lemma in_bucket: "bk_base n ps k = Some (Some b) \<Longrightarrow> p \<in> set (ips b) \<Longrightarrow>
    p \<in> set ps \<and> prefixKeyFromIP p = Some k \<and> k ! 0 = n"
  by (auto simp: bk_base_def group_def split: if_splits)

lemma has_bucket: "p \<in> set ps \<Longrightarrow> in_family n p \<Longrightarrow> \<exists>k b. bk_base n ps k = Some (Some b) \<and> p \<in> set (ips b)"
  by (auto simp: bk_base_def group_def in_family_def filter_empty_conv)

text \<open>The addresses left in a bucket view, and those that the next matcher takes.\<close>

lemma bk_left:
  assumes n: "n = 4 \<or> n = 6" and D: "\<forall>m \<in> D. heur_inv nx m"
  shows "(\<exists>k b. bk_now nx n ps D k = Some (Some b) \<and> p \<in> set (ips b)) \<longleftrightarrow>
    p \<in> set ps \<and> in_family n p \<and> (\<forall>m \<in> D. uses n m \<longrightarrow> \<not> Match nx m p)"
proof safe
  fix k b assume b: "bk_now nx n ps D k = Some (Some b)" "p \<in> set (ips b)"
  then have c: "bk_base n ps k = Some (Some b)" "\<forall>p \<in> set (ips b). \<forall>m \<in> D. uses n m \<longrightarrow> \<not> Match nx m p"
    by (simp_all add: bk_now_Some [OF n D])
  show "p \<in> set ps" "in_family n p" using in_bucket [OF c(1) b(2)] by (auto simp: in_family_def)
  show "False" if "m \<in> D" "uses n m" "Match nx m p" for m using that c(2) b(2) by blast
next
  assume p: "p \<in> set ps" "in_family n p" "\<forall>m \<in> D. uses n m \<longrightarrow> \<not> Match nx m p"
  then obtain k b where b: "bk_base n ps k = Some (Some b)" "p \<in> set (ips b)" using has_bucket by blast
  have "\<not> Match nx m q" if "q \<in> set (ips b)" "m \<in> D" "uses n m" for q m
  proof -
    have k: "prefixKeyFromIP q = Some k" "prefixKeyFromIP p = Some k" "k ! 0 = n" using in_bucket [OF b(1)] that(1) b(2) by auto
    have "key_heur m k" using n k(3) that(3) by (auto simp: key_heur_def uses_def)
    from Match_same_key [OF _ this k(1,2)] D that p(3) show ?thesis by blast
  qed
  then have "bk_now nx n ps D k = Some (Some b)" using b(1) by (simp add: bk_now_Some [OF n D])
  then show "\<exists>k b. bk_now nx n ps D k = Some (Some b) \<and> p \<in> set (ips b)" using b(2) by blast
qed

lemma bk_taken:
  assumes n: "n = 4 \<or> n = 6" and D: "\<forall>m \<in> D. heur_inv nx m" and m: "heur_inv nx m" "uses n m"
  shows "(\<exists>k b. bk_now nx n ps D k = Some (Some b) \<and> matchAddr nx m (rep b) \<and> p \<in> set (ips b)) \<longleftrightarrow>
    p \<in> set ps \<and> in_family n p \<and> Match nx m p \<and> (\<forall>m \<in> D. uses n m \<longrightarrow> \<not> Match nx m p)"
proof -
  have "matchAddr nx m (rep b) \<longleftrightarrow> Match nx m p" if "bk_now nx n ps D k = Some (Some b)" "p \<in> set (ips b)" for k b
  proof -
    have "bk_base n ps k = Some (Some b)" using that(1) by (simp add: bk_now_Some [OF n D])
    then have "rep b = the (std_addr (hd (group ps k)))" "ips b = group ps k" "k ! 0 = n" by (auto simp: bk_base_def split: if_splits)
    then show ?thesis using Match_rep [OF m n, of k p ps] that(2) by simp
  qed
  then show ?thesis using bk_left [OF n D, of ps p] by metis
qed

lemma pr_now_Some:
  assumes D: "\<forall>m \<in> D. heur_inv nx m"
  shows "pr_now nx n ps D a = Some (Some p) \<longleftrightarrow>
    newest n ps p \<and> std_addr p = Some a \<and> (\<forall>m \<in> D. \<not> uses n m \<longrightarrow> \<not> Match nx m p)"
proof -
  have l: "last (at_addr n ps a) \<in> set ps \<and> in_family n (last (at_addr n ps a)) \<and> std_addr (last (at_addr n ps a)) = Some a"
    if "at_addr n ps a \<noteq> []"
    using last_in_set [OF that] by (simp add: at_addr_def)
  have "pr_base n ps a = Some (Some p) \<longleftrightarrow> newest n ps p \<and> std_addr p = Some a"
  proof
    assume "pr_base n ps a = Some (Some p)"
    then have "at_addr n ps a \<noteq> []" "p = last (at_addr n ps a)" by (auto simp: pr_base_def split: if_splits)
    then show "newest n ps p \<and> std_addr p = Some a" using l by (simp add: newest_def)
  next
    assume p: "newest n ps p \<and> std_addr p = Some a"
    then have "p \<in> set (at_addr n ps a)" by (simp add: newest_def at_addr_def)
    then have "at_addr n ps a \<noteq> []" by auto
    moreover have "last (at_addr n ps a) = p" using p by (metis newest_def option.sel)
    ultimately show "pr_base n ps a = Some (Some p)" by (simp add: pr_base_def)
  qed
  moreover have "pr_now nx n ps D a = Some (Some p) \<longleftrightarrow>
      pr_base n ps a = Some (Some p) \<and> \<not> (\<exists>m \<in> D. \<not> uses n m \<and> matchAddr nx m a)"
    by (auto simp: pr_now_def drained_def split: option.splits if_splits)
  moreover have "matchAddr nx m a \<longleftrightarrow> Match nx m p" if "m \<in> D" "std_addr p = Some a" for m
    using that D by (simp add: Match_std)
  ultimately show ?thesis by blast
qed

section \<open>The loop over the matchers\<close>

definition taken :: "'s netipx \<Rightarrow> byte \<Rightarrow> ip list \<Rightarrow> 's HeuristicIPMatcher set \<Rightarrow> ip set" where
  "taken nx n ps D = {p \<in> set ps. in_family n p \<and> (\<exists>m \<in> D. Match nx m p \<and> (uses n m \<or> newest n ps p))}"

definition left :: "'s netipx \<Rightarrow> byte \<Rightarrow> ip list \<Rightarrow> 's HeuristicIPMatcher set \<Rightarrow> ip set" where
  "left nx n ps D = {p \<in> set ps. in_family n p \<and>
     ((\<exists>m \<in> D. uses n m) \<and> (\<forall>m \<in> D. uses n m \<longrightarrow> \<not> Match nx m p) \<or>
      newest n ps p \<and> (\<exists>m \<in> D. \<not> uses n m) \<and> (\<forall>m \<in> D. \<not> uses n m \<longrightarrow> \<not> Match nx m p))}"

lemma drain_family_ok:
  assumes n: "n = 4 \<or> n = 6" and D: "\<forall>m \<in> D. heur_inv nx m" and m: "heur_inv nx m"
    and ord: "range_order (ordB o1)" "range_order (ordP o1)"
    and bk: "view_at (\<exists>m \<in> insert m D. uses n m) (bk_now nx n ps D) bk"
    and pr: "view_at (\<exists>m \<in> insert m D. \<not> uses n m) (pr_now nx n ps D) pr"
    and r: "drain_family nx o1 m (uses n m) bk pr mt = (bk', pr', mt')" and mt: "taken nx n ps D \<subseteq> set mt"
  shows "view_at (\<exists>m \<in> insert m D. uses n m) (bk_now nx n ps (insert m D)) bk' \<and>
    view_at (\<exists>m \<in> insert m D. \<not> uses n m) (pr_now nx n ps (insert m D)) pr' \<and>
    set mt' = set mt \<union> taken nx n ps (insert m D)"
proof (cases "uses n m")
  case True
  with bk obtain b where b: "bk = Some b" "al_ok b" "al_get b = bk_now nx n ps D" by (auto simp: view_at_def)
  obtain b' where d: "drain (\<lambda>_ b. matchAddr nx m (rep b)) ips (ordB o1 b) b mt = (b', mt')" "bk' = Some b'" "pr' = pr"
    using r True b(1) by (auto simp: drain_family_def drain_buckets_eq split: prod.splits)
  note s = drain_spec [OF b(2) ord(1) d(1), unfolded b(3)]
  have "view_at (\<exists>m \<in> insert m D. uses n m) (bk_now nx n ps (insert m D)) bk'"
    using True s(1,2) d(2) by (simp add: view_at_def now_insert)
  moreover have "view_at (\<exists>m \<in> insert m D. \<not> uses n m) (pr_now nx n ps (insert m D)) pr'"
    using pr d(3) True by (simp add: now_insert)
  moreover have "set mt' = set mt \<union> taken nx n ps (insert m D)"
    unfolding s(3) bk_taken [OF n D m True] using True mt by (auto simp: taken_def)
  ultimately show ?thesis by blast
next
  case False
  with pr obtain b where b: "pr = Some b" "al_ok b" "al_get b = pr_now nx n ps D" by (auto simp: view_at_def)
  obtain b' where d: "drain (\<lambda>a _. matchAddr nx m a) (\<lambda>p. [p]) (ordP o1 b) b mt = (b', mt')" "pr' = Some b'" "bk' = bk"
    using r False b(1) by (auto simp: drain_family_def drain_precise_eq split: prod.splits)
  note s = drain_spec [OF b(2) ord(2) d(1), unfolded b(3)]
  have "view_at (\<exists>m \<in> insert m D. \<not> uses n m) (pr_now nx n ps (insert m D)) pr'"
    using False s(1,2) d(2) by (simp add: view_at_def now_insert)
  moreover have "view_at (\<exists>m \<in> insert m D. uses n m) (bk_now nx n ps (insert m D)) bk'"
    using bk d(3) False by (simp add: now_insert)
  moreover have "set mt' = set mt \<union> {p. newest n ps p \<and> Match nx m p \<and> (\<forall>m \<in> D. \<not> uses n m \<longrightarrow> \<not> Match nx m p)}"
    unfolding s(3) pr_now_Some [OF D] using m by (auto simp: Match_std)
  then have "set mt' = set mt \<union> taken nx n ps (insert m D)"
    using False mt by (auto simp: taken_def newest_def)
  ultimately show ?thesis by blast
qed

lemma multi_filter_loop_ok:
  assumes nx: "netipx_ok nx" and ord: "range_order (ordB o1)" "range_order (ordP o1)"
    and "\<forall>m \<in> set ms. heur_inv nx m" "\<forall>m \<in> D. heur_inv nx m"
    and "views_at nx ps D D v" "set mt = taken nx 4 ps D \<union> taken nx 6 ps D"
    and "multi_filter_loop nx o1 ms ps v mt = (v', mt')"
  shows "views_at nx ps (D \<union> set ms) (D \<union> set ms) v' \<and>
    set mt' = taken nx 4 ps (D \<union> set ms) \<union> taken nx 6 ps (D \<union> set ms)"
  using assms(4-)
proof (induction ms arbitrary: D v mt)
  case (Cons m ms)
  define w where "w = bucketEnsureForMatcher nx m ps v"
  obtain b4 l4 mt4 where d4: "drain_family nx o1 m (uses 4 m) (fbuckets4 w) (fprecise4 w) mt = (b4, l4, mt4)" by (metis prod_cases3)
  obtain b6 l6 mt6 where d6: "drain_family nx o1 m (uses 6 m) (fbuckets6 w) (fprecise6 w) mt4 = (b6, l6, mt6)" by (metis prod_cases3)
  let ?v = "\<lparr>fbuckets4 = b4, fbuckets6 = b6, fprecise4 = l4, fprecise6 = l6\<rparr>"
  have m: "heur_inv nx m" "\<forall>m \<in> set ms. heur_inv nx m" "\<forall>m \<in> insert m D. heur_inv nx m" using Cons.prems(1,2) by simp_all
  have w: "views_at nx ps D (insert m D) w" unfolding w_def by (rule bucketEnsure_ok [OF nx Cons.prems(3)])
  note f = drain_family_ok [OF _ Cons.prems(2) m(1) ord]
  have r4: "view_at (\<exists>m \<in> insert m D. uses 4 m) (bk_now nx 4 ps (insert m D)) b4 \<and>
      view_at (\<exists>m \<in> insert m D. \<not> uses 4 m) (pr_now nx 4 ps (insert m D)) l4 \<and>
      set mt4 = set mt \<union> taken nx 4 ps (insert m D)"
    using w Cons.prems(4) by (intro f [OF _ _ _ d4]) (auto simp: views_at_def)
  have r6: "view_at (\<exists>m \<in> insert m D. uses 6 m) (bk_now nx 6 ps (insert m D)) b6 \<and>
      view_at (\<exists>m \<in> insert m D. \<not> uses 6 m) (pr_now nx 6 ps (insert m D)) l6 \<and>
      set mt6 = set mt4 \<union> taken nx 6 ps (insert m D)"
    using w Cons.prems(4) r4 by (intro f [OF _ _ _ d6]) (auto simp: views_at_def)
  have v: "views_at nx ps (insert m D) (insert m D) ?v" using r4 r6 by (simp add: views_at_def)
  have sub: "taken nx n ps D \<subseteq> taken nx n ps (insert m D)" for n by (auto simp: taken_def)
  have mt: "set mt6 = taken nx 4 ps (insert m D) \<union> taken nx 6 ps (insert m D)"
    using r4 r6 Cons.prems(4) sub by blast
  have "multi_filter_loop nx o1 ms ps ?v mt6 = (v', mt')"
    using Cons.prems(5) d4 d6 by (simp add: Let_def uses_def flip: w_def)
  from Cons.IH [OF m(2,3) v mt this] show ?case by simp
qed simp

lemma set_left_buckets:
  assumes "n = 4 \<or> n = 6" "\<forall>m \<in> D. heur_inv nx m" "range_order (ordB o1)" "view_at u (bk_now nx n ps D) bk"
  shows "set (left_buckets o1 bk) = {p \<in> set ps. u \<and> in_family n p \<and> (\<forall>m \<in> D. uses n m \<longrightarrow> \<not> Match nx m p)}"
proof (cases bk)
  case (Some b)
  with assms(4) have b: "al_ok b" "al_get b = bk_now nx n ps D" "u" by (auto simp: view_at_def split: if_splits)
  have "p \<in> set (left_buckets o1 bk) \<longleftrightarrow> (\<exists>k x. (k, Some x) \<in> set b \<and> p \<in> set (ips x))" for p
    using assms(3) by (force simp: left_buckets_def Some split: option.splits)
  moreover have "(k, Some x) \<in> set b \<longleftrightarrow> bk_now nx n ps D k = Some (Some x)" for k x
    using b(1) by (simp add: map_of_eq_Some_iff flip: b(2))
  ultimately show ?thesis using bk_left [OF assms(1,2), of ps] b(3) by auto
qed (use assms(4) in \<open>auto simp: view_at_def left_buckets_def split: if_splits\<close>)

lemma set_left_precise:
  assumes "\<forall>m \<in> D. heur_inv nx m" "range_order (ordP o1)" "view_at u (pr_now nx n ps D) pr"
  shows "set (left_precise o1 pr) = {p. u \<and> newest n ps p \<and> (\<forall>m \<in> D. \<not> uses n m \<longrightarrow> \<not> Match nx m p)}"
proof (cases pr)
  case (Some b)
  with assms(3) have b: "al_ok b" "al_get b = pr_now nx n ps D" "u" by (auto simp: view_at_def split: if_splits)
  have "p \<in> set (left_precise o1 pr) \<longleftrightarrow> (\<exists>a. (a, Some p) \<in> set b)" for p
    using assms(2) by (force simp: left_precise_def Some split: option.splits)
  moreover have "(a, Some p) \<in> set b \<longleftrightarrow> pr_now nx n ps D a = Some (Some p)" for a p
    using b(1) by (simp add: map_of_eq_Some_iff flip: b(2))
  ultimately show ?thesis
    using b(3) family_std by (fastforce simp: pr_now_Some [OF assms(1)] newest_def)
qed (use assms(3) in \<open>auto simp: view_at_def left_precise_def split: if_splits\<close>)

lemma multi_filter_sets:
  assumes inv: "multi_inv nx ms" and ord: "range_order (ordB o1)" "range_order (ordP o1)" and ps: "1 < length ps"
  shows "set (fst (multi_FilterIPs nx o1 ms ps)) = taken nx 4 ps (set ms) \<union> taken nx 6 ps (set ms)"
    "set (snd (multi_FilterIPs nx o1 ms ps)) = left nx 4 ps (set ms) \<union> left nx 6 ps (set ms)"
proof -
  obtain v mt where l: "multi_filter_loop nx o1 ms ps empty_bucket_views [] = (v, mt)" by fastforce
  have i: "\<forall>m \<in> set ms. heur_inv nx m" using inv by (simp add: list_all_iff)
  have "views_at nx ps {} {} empty_bucket_views" by (simp add: views_at_def view_at_def empty_bucket_views_def)
  then have v: "views_at nx ps (set ms) (set ms) v" and mt: "set mt = taken nx 4 ps (set ms) \<union> taken nx 6 ps (set ms)"
    using multi_filter_loop_ok [OF _ ord i _ _ _ l, of "{}"] inv by (simp_all add: taken_def)
  have f: "multi_FilterIPs nx o1 ms ps = (mt, left_buckets o1 (fbuckets4 v) @ left_precise o1 (fprecise4 v) @
      left_buckets o1 (fbuckets6 v) @ left_precise o1 (fprecise6 v))"
    using l ps by (simp add: multi_FilterIPs_def)
  show "set (fst (multi_FilterIPs nx o1 ms ps)) = taken nx 4 ps (set ms) \<union> taken nx 6 ps (set ms)" by (simp add: f mt)
  note w = v [unfolded views_at_def]
  have "set (left_buckets o1 (fbuckets4 v)) \<union> set (left_precise o1 (fprecise4 v)) = left nx 4 ps (set ms)"
    "set (left_buckets o1 (fbuckets6 v)) \<union> set (left_precise o1 (fprecise6 v)) = left nx 6 ps (set ms)"
    using set_left_buckets [OF _ i ord(1), of 4 _ ps "fbuckets4 v"] set_left_precise [OF i ord(2), of _ 4 ps "fprecise4 v"]
      set_left_buckets [OF _ i ord(1), of 6 _ ps "fbuckets6 v"] set_left_precise [OF i ord(2), of _ 6 ps "fprecise6 v"] w
    by (auto simp: left_def newest_def)
  then show "set (snd (multi_FilterIPs nx o1 ms ps)) = left nx 4 ps (set ms) \<union> left nx 6 ps (set ms)"
    by (auto simp: f)
qed

section \<open>The contract of FilterIPs\<close>

text \<open>A part of a set of addresses that misses none of them: of several forms of one address it may keep
  only some.\<close>

definition same_addrs :: "ip set \<Rightarrow> ip set \<Rightarrow> bool" where
  "same_addrs A B \<longleftrightarrow> A \<subseteq> B \<and> std_addr ` A = std_addr ` B"

lemma same_addrs_refl [simp]: "same_addrs A A"
  by (simp add: same_addrs_def)

lemma same_addrs_trans: "same_addrs A B \<Longrightarrow> same_addrs B C \<Longrightarrow> same_addrs A C"
  by (auto simp: same_addrs_def)

lemma same_addrs_empty: "same_addrs A B \<Longrightarrow> A = {} \<longleftrightarrow> B = {}"
  by (auto simp: same_addrs_def)

lemma same_addrs_iff: "same_addrs A B \<longleftrightarrow> A \<subseteq> B \<and> (\<forall>p \<in> B. \<exists>q \<in> A. std_addr q = std_addr p)"
  by (auto simp: same_addrs_def image_iff set_eq_iff) metis+

lemma same_addrs_Collect:
  assumes "same_addrs A B" "\<And>p q. std_addr p = std_addr q \<Longrightarrow> P p \<longleftrightarrow> P q"
  shows "same_addrs {p \<in> A. P p} {p \<in> B. P p}"
  using assms(1) assms(2) unfolding same_addrs_iff by blast

locale ip_filter =
  fixes inv :: "'m \<Rightarrow> bool" and M :: "'m \<Rightarrow> ip \<Rightarrow> bool" and splits :: "'m \<Rightarrow> bool"
    and Filter :: "'m \<Rightarrow> ip list \<Rightarrow> ip list \<times> ip list"
  assumes match_same: "inv m \<Longrightarrow> std_addr p = std_addr q \<Longrightarrow> M m p \<longleftrightarrow> M m q"
    and matched: "inv m \<Longrightarrow> same_addrs (set (fst (Filter m ps))) {p \<in> set ps. M m p}"
    and unmatched: "inv m \<Longrightarrow> splits m \<Longrightarrow>
      same_addrs (set (snd (Filter m ps))) {p \<in> set ps. std_addr p \<noteq> None \<and> \<not> M m p}"

text \<open>The matchers of the code: all sets of a matcher ask for the same view of each family, or there is only one.\<close>

fun one_view :: "'s IPMatcher \<Rightarrow> bool" where
  "one_view (Heuristic m) \<longleftrightarrow> True"
| "one_view (HeuristicMulti ms) \<longleftrightarrow> ms \<noteq> [] \<and> list_all (\<lambda>m. heur4 m = heur4 (hd ms) \<and> heur6 m = heur6 (hd ms)) ms"

definition orders_ok :: "view_order \<Rightarrow> bool" where
  "orders_ok o1 \<longleftrightarrow> range_order (ordH o1) \<and> range_order (ordB o1) \<and> range_order (ordP o1)"

lemma ipm_Match_same:
  assumes "ipm_inv nx m" "std_addr p = std_addr q"
  shows "ipm_Match nx m p \<longleftrightarrow> ipm_Match nx m q"
  using assms by (cases m) (auto simp: multi_Match_iff Match_std list_all_iff)

lemma newest_exists:
  assumes "p \<in> set ps" "in_family n p"
  shows "\<exists>q. newest n ps q \<and> std_addr q = std_addr p"
proof -
  obtain a where a: "std_addr p = Some a" using family_std [OF assms(2)] by blast
  then have "at_addr n ps a \<noteq> []" using assms by (auto simp: at_addr_def filter_empty_conv)
  then have "last (at_addr n ps a) \<in> set (at_addr n ps a)" by simp
  then show ?thesis using a by (intro exI [of _ "last (at_addr n ps a)"]) (simp add: newest_def at_addr_def)
qed

lemma family_46: "std_addr p \<noteq> None \<longleftrightarrow> in_family 4 p \<or> in_family 6 p"
  using key_None_iff [of p] key_family [of p] family_std [of _ p] by (fastforce simp: in_family_def)

lemma multi_Match_valid: "multi_inv nx ms \<Longrightarrow> multi_Match nx ms p \<Longrightarrow> std_addr p \<noteq> None"
  by (rule hmulti.match_valid)

lemma multi_filter_one:
  "netipx_ok nx \<Longrightarrow> multi_FilterIPs nx o1 ms [x] =
    (filter (multi_Match nx ms) [x], filter (\<lambda>p. std_addr p \<noteq> None \<and> \<not> multi_Match nx ms p) [x])"
  by (simp add: multi_FilterIPs_def multi_Match_def netipx_FromStdIP split: option.split)

lemma multi_matched:
  assumes inv: "multi_inv nx ms" and ord: "range_order (ordB o1)" "range_order (ordP o1)"
  shows "same_addrs (set (fst (multi_FilterIPs nx o1 ms ps))) {p \<in> set ps. multi_Match nx ms p}"
proof (cases ps rule: list_cases3)
  case many
  have h: "heur_inv nx m" if "m \<in> set ms" for m using inv that by (simp add: list_all_iff)
  have "\<exists>q \<in> taken nx 4 ps (set ms) \<union> taken nx 6 ps (set ms). std_addr q = std_addr p"
    if p: "p \<in> set ps" "multi_Match nx ms p" for p
  proof -
    obtain m where m: "m \<in> set ms" "Match nx m p" using p(2) by (auto simp: multi_Match_iff)
    obtain n where n: "n = 4 \<or> n = 6" "in_family n p" using multi_Match_valid [OF inv p(2)] unfolding family_46 by blast
    obtain q where q: "newest n ps q" "std_addr q = std_addr p" using newest_exists [OF p(1) n(2)] by blast
    have "Match nx m q" using m q(2) h by (simp add: Match_std)
    then have "q \<in> taken nx n ps (set ms)" using q(1) m(1) by (auto simp: taken_def newest_def)
    then show ?thesis using n(1) q(2) by blast
  qed
  then show ?thesis
    unfolding multi_filter_sets(1) [OF inv ord many] same_addrs_iff by (auto simp: taken_def multi_Match_iff)
next
  case (one x)
  show ?thesis unfolding one multi_filter_one [OF conjunct1 [OF inv]] fst_conv set_filter by (rule same_addrs_refl)
qed (simp add: multi_FilterIPs_def)

lemma multi_unmatched:
  assumes inv: "multi_inv nx ms" and ord: "range_order (ordB o1)" "range_order (ordP o1)"
    and one: "one_view (HeuristicMulti ms)"
  shows "same_addrs (set (snd (multi_FilterIPs nx o1 ms ps))) {p \<in> set ps. std_addr p \<noteq> None \<and> \<not> multi_Match nx ms p}"
proof (cases ps rule: list_cases3)
  case many
  have h: "heur_inv nx m" if "m \<in> set ms" for m using inv that by (simp add: list_all_iff)
  define u where "u n = uses n (hd ms)" for n
  have "heur4 m = heur4 (hd ms) \<and> heur6 m = heur6 (hd ms)" if "m \<in> set ms" for m
    using one that unfolding one_view.simps list_all_iff by blast
  then have u: "uses n m \<longleftrightarrow> u n" if "m \<in> set ms" for n m
    using that by (simp only: u_def uses_def)
  have "hd ms \<in> set ms" using one by simp
  then have ne: "\<exists>m. m \<in> set ms" ..
  have l: "left nx n ps (set ms) = {p \<in> set ps. in_family n p \<and> \<not> multi_Match nx ms p \<and> (u n \<or> newest n ps p)}" for n
  proof -
    have "(\<exists>m \<in> set ms. uses n m) \<longleftrightarrow> u n" "(\<exists>m \<in> set ms. \<not> uses n m) \<longleftrightarrow> \<not> u n" using u ne by blast+
    moreover have "(\<forall>m \<in> set ms. uses n m \<longrightarrow> \<not> Match nx m p) \<longleftrightarrow> (u n \<longrightarrow> \<not> multi_Match nx ms p)"
      "(\<forall>m \<in> set ms. \<not> uses n m \<longrightarrow> \<not> Match nx m p) \<longleftrightarrow> (\<not> u n \<longrightarrow> \<not> multi_Match nx ms p)" for p
      unfolding multi_Match_iff using u by blast+
    ultimately show ?thesis by (auto simp: left_def)
  qed
  have "\<exists>q \<in> left nx 4 ps (set ms) \<union> left nx 6 ps (set ms). std_addr q = std_addr p"
    if p: "p \<in> set ps" "std_addr p \<noteq> None" "\<not> multi_Match nx ms p" for p
  proof -
    obtain n where n: "n = 4 \<or> n = 6" "in_family n p" using p(2) unfolding family_46 by blast
    obtain q where q: "newest n ps q" "std_addr q = std_addr p" using newest_exists [OF p(1) n(2)] by blast
    have "\<not> multi_Match nx ms q" using p(3) q(2) h by (simp add: multi_Match_iff Match_std)
    then have "q \<in> left nx n ps (set ms)" using q(1) by (auto simp: l newest_def)
    then show ?thesis using n(1) q(2) by blast
  qed
  moreover have "left nx 4 ps (set ms) \<union> left nx 6 ps (set ms) \<subseteq> {p \<in> set ps. std_addr p \<noteq> None \<and> \<not> multi_Match nx ms p}"
    unfolding l family_46 by blast
  ultimately show ?thesis
    unfolding multi_filter_sets(2) [OF inv ord many] same_addrs_iff by blast
next
  case (one x)
  show ?thesis unfolding one multi_filter_one [OF conjunct1 [OF inv]] snd_conv set_filter by (rule same_addrs_refl)
qed (simp add: multi_FilterIPs_def)

interpretation ipmf: ip_filter "\<lambda>m. ipm_inv nx m \<and> orders_ok o1" "ipm_Match nx" one_view "ipm_FilterIPs nx o1"
  for nx :: "'s netipx" and o1 :: view_order
proof
  fix m :: "'s IPMatcher" and p q :: ip and ps
  assume inv: "ipm_inv nx m \<and> orders_ok o1"
  then have o1: "range_order (ordH o1)" "range_order (ordB o1)" "range_order (ordP o1)" by (simp_all add: orders_ok_def)
  show "std_addr p = std_addr q \<Longrightarrow> ipm_Match nx m p \<longleftrightarrow> ipm_Match nx m q" using inv ipm_Match_same by blast
  show "same_addrs (set (fst (ipm_FilterIPs nx o1 m ps))) {p \<in> set ps. ipm_Match nx m p}"
    using inv o1 multi_matched [of nx _ o1] heur.filter_matched_set [of nx _ "ordH o1"] by (cases m) simp_all
  show "same_addrs (set (snd (ipm_FilterIPs nx o1 m ps))) {p \<in> set ps. std_addr p \<noteq> None \<and> \<not> ipm_Match nx m p}" if "one_view m"
    using that inv o1 multi_unmatched [of nx _ o1] heur.filter_unmatched_set [of nx _ "ordH o1"] by (cases m) simp_all
qed

section \<open>Both results of the matcher over several sets\<close>

text \<open>C33. \<open>FilterIPs\<close> of the matcher over several sets returns as matched exactly the addresses that one of the
  sets accepts. When all sets ask for the same view of each family (buckets when the longest prefix is at most 24
  bits for IPv4 and 64 bits for IPv6, single addresses otherwise), the unmatched ones are exactly the other valid
  addresses. Of several forms of one address (4 or 16 bytes) at least one is returned.\<close>

theorem multi_filter_exact:
  assumes "netipx_ok nx" "list_all (heur_inv nx) ms" "orders_ok o1"
  shows "same_addrs (set (fst (multi_FilterIPs nx o1 ms ps))) {p \<in> set ps. \<exists>m \<in> set ms. Match nx m p} \<and>
    (one_view (HeuristicMulti ms) \<longrightarrow>
      same_addrs (set (snd (multi_FilterIPs nx o1 ms ps))) {p \<in> set ps. std_addr p \<noteq> None \<and> \<not> (\<exists>m \<in> set ms. Match nx m p)})"
  using assms multi_matched [of nx ms o1 ps] multi_unmatched [of nx ms o1 ps]
  unfolding orders_ok_def multi_Match_iff by blast

lemma ex_create_eight:
  "createFrom list_netipx [\<lparr>cidr_ip = [8, 0, 0, 0], cidr_prefix = 8\<rparr>] = Inr (ipset ex_eight)"
  by (simp add: createFrom_def ex_eight_def newHeuristicIPMatcher_def list_netipx_def
      family_prefixes_def map_filter_def cidr_netprefix_def AddrFromSlice_def be_word_4
      PrefixFrom_def PrefixIsValid_def Let_def max_code_def PrefixBits_def)

lemma ex_inv_eight: "heur_inv list_netipx ex_eight"
  using createFrom_Match(1) [OF list_netipx_ok ex_create_eight] by (simp add: ex_eight_def newHeuristicIPMatcher_def)

theorem multi_filter_exact_witness:
  "same_addrs (set (fst (multi_FilterIPs list_netipx \<lparr>ordH = rev, ordB = rev, ordP = rev\<rparr> [ex_pos, ex_eight]
     [[10, 1, 2, 3], [8, 8, 8, 8], [1, 2]]))) {[10, 1, 2, 3], [8, 8, 8, 8]} \<and>
   same_addrs (set (snd (multi_FilterIPs list_netipx \<lparr>ordH = rev, ordB = rev, ordP = rev\<rparr> [ex_pos, ex_eight]
     [[10, 1, 2, 3], [8, 8, 8, 8], [1, 2]]))) {}"
proof -
  let ?o = "\<lparr>ordH = rev, ordB = rev, ordP = rev\<rparr> :: view_order"
  have "list_all (heur_inv list_netipx) [ex_pos, ex_eight]" "orders_ok ?o" by (simp_all add: ex_inv ex_inv_eight orders_ok_def)
  note t = multi_filter_exact [OF list_netipx_ok this, of "[[10, 1, 2, 3], [8, 8, 8, 8], [1, 2]]"]
  have "one_view (HeuristicMulti [ex_pos, ex_eight])" by (simp add: ex_pos_def newHeuristicIPMatcher_def)
  note t = conjunct1 [OF t] mp [OF conjunct2 [OF t] this]
  have "{p \<in> set [[10, 1, 2, 3], [8, 8, 8, 8], [1, 2]]. \<exists>m \<in> set [ex_pos, ex_eight]. Match list_netipx m p} =
      {[10, 1, 2, 3], [8, 8, 8, 8]}"
    "{p \<in> set [[10, 1, 2, 3], [8, 8, 8, 8], [1, 2]]. std_addr p \<noteq> None \<and> \<not> (\<exists>m \<in> set [ex_pos, ex_eight]. Match list_netipx m p)} = {}"
    by (auto simp: Match_std [OF ex_inv(1)] Match_std [OF ex_inv_eight])
  then show ?thesis using t by (simp only:)
qed

end
