(* ===== verification/RegexSyntax.thy ===== *)
theory RegexSyntax
  imports GoStrings
begin

text \<open>
  The part of the Go package \<open>regexp\<close> the string matchers rest on: the syntax trees of
  \<open>regexp/syntax\<close> and when such a tree matches a text, on UTF-8 bytes as Go reads them. On top of it,
  \<open>requiredLiterals\<close> of \<open>common/geodata/strmatcher/matchers.go\<close>, the prefilter of regular
  expression matchers, and the proof that it never rejects a text the expression matches.
\<close>

type_synonym rune = nat

abbreviation RuneError :: rune where "RuneError \<equiv> 0xFFFD"

section \<open>UTF-8\<close>

definition utf8_cont :: "nat \<Rightarrow> nat \<Rightarrow> char" where
  "utf8_cont r k = char_of (128 + (r div 64 ^ k) mod 64)"

definition EncodeRune :: "rune \<Rightarrow> string" where
  "EncodeRune r0 =
     (let r = (if 0x10FFFF < r0 \<or> (0xD800 \<le> r0 \<and> r0 \<le> 0xDFFF) then RuneError else r0)
      in if r < 0x80 then [char_of r]
         else if r < 0x800 then [char_of (192 + r div 64), utf8_cont r 0]
         else if r < 0x10000 then [char_of (224 + r div 4096), utf8_cont r 1, utf8_cont r 0]
         else [char_of (240 + r div 262144), utf8_cont r 2, utf8_cont r 1, utf8_cont r 0])"

text \<open>The conversion \<open>string(runes)\<close>.\<close>

definition string_of_runes :: "rune list \<Rightarrow> string" where
  "string_of_runes rs = concat (map EncodeRune rs)"

definition is_cont :: "char \<Rightarrow> bool" where
  "is_cont c \<longleftrightarrow> 128 \<le> (of_char c :: nat) \<and> (of_char c :: nat) < 192"

definition cont_value :: "char \<Rightarrow> nat" where
  "cont_value c = of_char c mod 64"

text \<open>\<open>utf8.DecodeRuneInString\<close>: a byte that starts no valid encoding is \<open>RuneError\<close> of width one.\<close>

definition DecodeRune :: "string \<Rightarrow> rune \<times> nat" where
  "DecodeRune s =
     (case s of
        [] \<Rightarrow> (RuneError, 0)
      | c # cs \<Rightarrow>
          let b = (of_char c :: nat); bad = (RuneError, 1) in
          if b < 0x80 then (b, 1)
          else if 0xC2 \<le> b \<and> b < 0xE0 then
            (case cs of c1 # _ \<Rightarrow> if is_cont c1 then ((b - 192) * 64 + cont_value c1, 2) else bad
             | _ \<Rightarrow> bad)
          else if 0xE0 \<le> b \<and> b < 0xF0 then
            (case cs of c1 # c2 # _ \<Rightarrow>
               let r = (b - 224) * 4096 + cont_value c1 * 64 + cont_value c2 in
               if is_cont c1 \<and> is_cont c2 \<and> 0x800 \<le> r \<and> \<not> (0xD800 \<le> r \<and> r \<le> 0xDFFF)
               then (r, 3) else bad
             | _ \<Rightarrow> bad)
          else if 0xF0 \<le> b \<and> b < 0xF5 then
            (case cs of c1 # c2 # c3 # _ \<Rightarrow>
               let r = (b - 240) * 262144 + cont_value c1 * 4096 + cont_value c2 * 64 + cont_value c3 in
               if is_cont c1 \<and> is_cont c2 \<and> is_cont c3 \<and> 0x10000 \<le> r \<and> r \<le> 0x10FFFF
               then (r, 4) else bad
             | _ \<Rightarrow> bad)
          else bad)"

lemma char_of_nat [simp]: "char_of (of_char c :: nat) = c"
  by simp

lemma of_char_less: "(of_char c :: nat) < 256"
  by simp

lemma utf8_cont_value: "is_cont c \<Longrightarrow> n mod 64 = cont_value c \<Longrightarrow> char_of (128 + n mod 64) = c"
proof -
  assume c: "is_cont c" and n: "n mod 64 = cont_value c"
  obtain y where y: "(of_char c :: nat) = y + 2 * 64" "y < 64"
    using c that [of "of_char c - 128"] by (auto simp: is_cont_def)
  have "(y + 2 * 64) mod 64 = y" using y(2) by (simp only: mod_mult_self1 mod_less)
  then have "128 + (of_char c :: nat) mod 64 = of_char c" by (simp add: y(1))
  then have "128 + n mod 64 = of_char c" by (simp add: n cont_value_def)
  then show ?thesis by (simp only: char_of_nat)
qed

text \<open>A rune other than \<open>RuneError\<close> is read exactly where its encoding stands.\<close>

lemma DecodeRune_encode:
  assumes "DecodeRune s = (r, n)" "r \<noteq> RuneError"
  shows "n \<le> length s \<and> take n s = EncodeRune r"
proof -
  obtain c cs where s: "s = c # cs" using assms by (cases s) (auto simp: DecodeRune_def)
  let ?b = "of_char c :: nat"
  have cv: "cont_value d < 64" for d by (simp add: cont_value_def)
  have mod64: "v < 64 \<Longrightarrow> (u * 64 + v) mod 64 = v" for u v :: nat by simp
  consider "?b < 0x80" | "0xC2 \<le> ?b" "?b < 0xE0" | "0xE0 \<le> ?b" "?b < 0xF0" | "0xF0 \<le> ?b" "?b < 0xF5"
    using assms s by (fastforce simp: DecodeRune_def Let_def split: if_splits)
  then show ?thesis
  proof cases
    case 1
    then show ?thesis using assms s by (auto simp: DecodeRune_def EncodeRune_def Let_def)
  next
    case 2
    then obtain c1 cs' where cs: "cs = c1 # cs'" "is_cont c1" and r: "r = (?b - 192) * 64 + cont_value c1" "n = 2"
      using assms s by (auto simp: DecodeRune_def Let_def split: list.splits if_splits)
    have "r div 64 = ?b - 192" "r mod 64 = cont_value c1" using cv [of c1] by (simp_all add: r)
    moreover have "0x80 \<le> r" "r < 0x800" using 2 cv [of c1] by (simp_all add: r)
    ultimately show ?thesis using 2 cs r(2) s utf8_cont_value [OF cs(2), of r]
      by (simp add: EncodeRune_def Let_def utf8_cont_def)
  next
    case 3
    then obtain c1 c2 cs' where cs: "cs = c1 # c2 # cs'" "is_cont c1" "is_cont c2"
      and r: "r = (?b - 224) * 4096 + cont_value c1 * 64 + cont_value c2" "n = 3"
      and rr: "0x800 \<le> r" "\<not> (0xD800 \<le> r \<and> r \<le> 0xDFFF)"
      using assms s by (auto simp: DecodeRune_def Let_def split: list.splits if_splits)
    have d: "r div 64 = (?b - 224) * 64 + cont_value c1" using cv [of c2] by (simp add: r)
    have "r div 4096 = r div 64 div 64" by (simp add: div_mult2_eq)
    then have "r div 4096 = ?b - 224" using cv [of c1] by (simp add: d)
    moreover have "r mod 64 = cont_value c2"
    proof -
      have "r = ((?b - 224) * 64 + cont_value c1) * 64 + cont_value c2" by (simp add: r)
      then show ?thesis using cv [of c2] by (simp only: mod64)
    qed
    moreover have "r div 64 mod 64 = cont_value c1" using cv [of c1] by (simp add: d)
    moreover have "r < 0x10000" using 3 cv [of c1] cv [of c2] by (simp add: r)
    ultimately show ?thesis using 3 cs r(2) s rr
        utf8_cont_value [OF cs(2), of "r div 64"] utf8_cont_value [OF cs(3), of r]
      by (auto simp add: EncodeRune_def Let_def utf8_cont_def)
  next
    case 4
    then obtain c1 c2 c3 cs' where cs: "cs = c1 # c2 # c3 # cs'" "is_cont c1" "is_cont c2" "is_cont c3"
      and r: "r = (?b - 240) * 262144 + cont_value c1 * 4096 + cont_value c2 * 64 + cont_value c3" "n = 4"
      and rr: "0x10000 \<le> r" "r \<le> 0x10FFFF"
      using assms s by (auto simp: DecodeRune_def Let_def split: list.splits if_splits)
    have d1: "r div 64 = (?b - 240) * 4096 + cont_value c1 * 64 + cont_value c2"
      using cv [of c3] by (simp add: r)
    have "r div 4096 = r div 64 div 64" by (simp add: div_mult2_eq)
    then have d2: "r div 4096 = (?b - 240) * 64 + cont_value c1" using cv [of c2] by (simp add: d1)
    have "r div 262144 = r div 4096 div 64" by (simp add: div_mult2_eq)
    then have d3: "r div 262144 = ?b - 240" using cv [of c1] by (simp add: d2)
    have "r mod 64 = cont_value c3"
    proof -
      have "r = ((?b - 240) * 4096 + cont_value c1 * 64 + cont_value c2) * 64 + cont_value c3" by (simp add: r)
      then show ?thesis using cv [of c3] by (simp only: mod64)
    qed
    moreover have "r div 64 mod 64 = cont_value c2"
    proof -
      have "r div 64 = ((?b - 240) * 64 + cont_value c1) * 64 + cont_value c2" by (simp add: d1)
      then show ?thesis using cv [of c2] by (simp only: mod64)
    qed
    moreover have "r div 4096 mod 64 = cont_value c1" using cv [of c1] by (simp add: d2)
    ultimately show ?thesis using 4 cs r(2) s rr d3 utf8_cont_value [OF cs(2), of "r div 4096"]
        utf8_cont_value [OF cs(3), of "r div 64"] utf8_cont_value [OF cs(4), of r]
      by (simp add: EncodeRune_def Let_def utf8_cont_def)
  qed
qed

section \<open>Syntax trees and matching\<close>

text \<open>The nodes of \<open>syntax.Regexp\<close> with the fields the operation has: the literal's \<open>FoldCase\<close> flag
  and runes, the ranges of a class, \<open>Min\<close> and \<open>Max\<close> of a repetition (\<open>None\<close> for -1).\<close>

datatype Regexp =
    OpNoMatch | OpEmptyMatch
  | OpLiteral bool "rune list" | OpCharClass "(rune \<times> rune) list"
  | OpAnyCharNotNL | OpAnyChar
  | OpBeginLine | OpEndLine | OpBeginText | OpEndText | OpWordBoundary | OpNoWordBoundary
  | OpCapture Regexp | OpStar Regexp | OpPlus Regexp | OpQuest Regexp
  | OpRepeat nat "nat option" Regexp
  | OpConcat "Regexp list" | OpAlternate "Regexp list"

definition fold_rune :: "rune \<Rightarrow> rune" where
  "fold_rune r = (if 65 \<le> r \<and> r \<le> 90 then r + 32 else r)"

definition rune_eq :: "bool \<Rightarrow> rune \<Rightarrow> rune \<Rightarrow> bool" where
  "rune_eq fc q r \<longleftrightarrow> q = r \<or> fc \<and> fold_rune q = fold_rune r"

fun lit_ends :: "bool \<Rightarrow> rune list \<Rightarrow> string \<Rightarrow> nat \<Rightarrow> nat set" where
  "lit_ends fc [] s i = {i}"
| "lit_ends fc (r # rs) s i =
     (if i < length s \<and> rune_eq fc (fst (DecodeRune (drop i s))) r
      then lit_ends fc rs s (i + snd (DecodeRune (drop i s))) else {})"

definition rune_ends :: "(rune \<Rightarrow> bool) \<Rightarrow> string \<Rightarrow> nat \<Rightarrow> nat set" where
  "rune_ends P s i =
     (if i < length s \<and> P (fst (DecodeRune (drop i s))) then {i + snd (DecodeRune (drop i s))} else {})"

definition is_word :: "char \<Rightarrow> bool" where
  "is_word c \<longleftrightarrow> is_lower c \<or> is_upper c \<or> is_digit c \<or> c = CHR ''_''"

definition word_boundary :: "string \<Rightarrow> nat \<Rightarrow> bool" where
  "word_boundary s i \<longleftrightarrow> (0 < i \<and> is_word (s ! (i - 1))) \<noteq> (i < length s \<and> is_word (s ! i))"

text \<open>Positions reachable in at most \<open>n\<close>, or in exactly \<open>n\<close>, rounds of a sub-expression.\<close>

fun closure :: "(nat \<Rightarrow> nat set) \<Rightarrow> nat \<Rightarrow> nat set \<Rightarrow> nat set" where
  "closure f 0 X = X"
| "closure f (Suc n) X = closure f n (X \<union> \<Union> (f ` X))"

fun rounds :: "(nat \<Rightarrow> nat set) \<Rightarrow> nat \<Rightarrow> nat set \<Rightarrow> nat set" where
  "rounds f 0 X = X"
| "rounds f (Suc n) X = rounds f n (\<Union> (f ` X))"

fun ends :: "Regexp \<Rightarrow> string \<Rightarrow> nat \<Rightarrow> nat set"
and ends_concat :: "Regexp list \<Rightarrow> string \<Rightarrow> nat \<Rightarrow> nat set"
and ends_alternate :: "Regexp list \<Rightarrow> string \<Rightarrow> nat \<Rightarrow> nat set" where
  "ends OpNoMatch s i = {}"
| "ends OpEmptyMatch s i = {i}"
| "ends (OpLiteral fc rs) s i = lit_ends fc rs s i"
| "ends (OpCharClass rg) s i = rune_ends (\<lambda>r. list_ex (\<lambda>(lo, hi). lo \<le> r \<and> r \<le> hi) rg) s i"
| "ends OpAnyCharNotNL s i = rune_ends (\<lambda>r. r \<noteq> 10) s i"
| "ends OpAnyChar s i = rune_ends (\<lambda>r. True) s i"
| "ends OpBeginLine s i = (if i = 0 \<or> s ! (i - 1) = CHR 0x0A then {i} else {})"
| "ends OpEndLine s i = (if i = length s \<or> s ! i = CHR 0x0A then {i} else {})"
| "ends OpBeginText s i = (if i = 0 then {i} else {})"
| "ends OpEndText s i = (if i = length s then {i} else {})"
| "ends OpWordBoundary s i = (if word_boundary s i then {i} else {})"
| "ends OpNoWordBoundary s i = (if word_boundary s i then {} else {i})"
| "ends (OpCapture r) s i = ends r s i"
| "ends (OpStar r) s i = closure (ends r s) (Suc (length s)) {i}"
| "ends (OpPlus r) s i = closure (ends r s) (Suc (length s)) (ends r s i)"
| "ends (OpQuest r) s i = insert i (ends r s i)"
| "ends (OpRepeat mn mx r) s i =
     (case mx of
        None \<Rightarrow> closure (ends r s) (Suc (length s)) (rounds (ends r s) mn {i})
      | Some m \<Rightarrow> closure (ends r s) (m - mn) (rounds (ends r s) mn {i}))"
| "ends (OpConcat rs) s i = ends_concat rs s i"
| "ends (OpAlternate rs) s i = ends_alternate rs s i"
| "ends_concat [] s i = {i}"
| "ends_concat (r # rs) s i = \<Union> (ends_concat rs s ` ends r s i)"
| "ends_alternate [] s i = {}"
| "ends_alternate (r # rs) s i = ends r s i \<union> ends_alternate rs s i"

text \<open>The search starts at every rune of the text, and at its end.\<close>

function rune_starts :: "nat \<Rightarrow> string \<Rightarrow> nat list" where
  "rune_starts i s =
     (if s = [] then [i]
      else i # rune_starts (i + max 1 (snd (DecodeRune s))) (drop (max 1 (snd (DecodeRune s))) s))"
  by pat_completeness auto
termination by (relation "measure (\<lambda>(i, s). length s)") auto

declare rune_starts.simps [simp del]

definition MatchString :: "Regexp \<Rightarrow> string \<Rightarrow> bool" where
  "MatchString re s \<longleftrightarrow> list_ex (\<lambda>i. ends re s i \<noteq> {}) (rune_starts 0 s)"

section \<open>requiredLiterals\<close>

fun requiredLiterals :: "Regexp \<Rightarrow> string list \<Rightarrow> string list"
and requiredLiterals_concat :: "Regexp list \<Rightarrow> string list \<Rightarrow> string list" where
  "requiredLiterals (OpLiteral fc rs) dst =
     (if \<not> fc \<and> RuneError \<notin> set rs then dst @ [string_of_runes rs] else dst)"
| "requiredLiterals (OpCapture r) dst = requiredLiterals r dst"
| "requiredLiterals (OpPlus r) dst = requiredLiterals r dst"
| "requiredLiterals (OpRepeat mn mx r) dst = (if 0 < mn then requiredLiterals r dst else dst)"
| "requiredLiterals (OpConcat rs) dst = requiredLiterals_concat rs dst"
| "requiredLiterals re dst = dst"
| "requiredLiterals_concat [] dst = dst"
| "requiredLiterals_concat (r # rs) dst = requiredLiterals_concat rs (requiredLiterals r dst)"

lemma lit_ends_literal:
  assumes "k \<in> lit_ends False rs s i" "RuneError \<notin> set rs"
  shows "prefix (string_of_runes rs) (drop i s)"
  using assms
proof (induction rs arbitrary: i)
  case (Cons r rs)
  obtain w where d: "DecodeRune (drop i s) = (r, w)"
    using Cons.prems by (cases "DecodeRune (drop i s)") (auto simp: rune_eq_def split: if_splits)
  have e: "take w (drop i s) = EncodeRune r"
    using DecodeRune_encode [OF d] Cons.prems by simp
  have "k \<in> lit_ends False rs s (i + w)" using Cons.prems d by (auto split: if_splits)
  with Cons have "prefix (string_of_runes rs) (drop w (drop i s))" by (simp add: add.commute)
  moreover have "drop i s = EncodeRune r @ drop w (drop i s)"
    using e by (metis append_take_drop_id)
  ultimately have "prefix (EncodeRune r @ string_of_runes rs) (drop i s)"
    by (metis same_prefix_prefix)
  then show ?case by (simp add: string_of_runes_def)
qed (simp add: string_of_runes_def)

lemma closure_nonempty: "k \<in> closure f n X \<Longrightarrow> X \<noteq> {}"
  by (induction f n X rule: closure.induct) auto

lemma rounds_first: "k \<in> rounds f n X \<Longrightarrow> 0 < n \<Longrightarrow> \<exists>x j. j \<in> f x"
proof (induction f n X rule: rounds.induct)
  case (2 f n X)
  then show ?case by (cases n) auto
qed simp

text \<open>Every match of an expression lies in a text that contains the required literals.\<close>

lemma requiredLiterals_sound:
  shows "k \<in> ends re s i \<Longrightarrow> l \<in> set (requiredLiterals re dst) \<Longrightarrow> l \<in> set dst \<or> sublist l s"
    and "k \<in> ends_concat rs s i \<Longrightarrow> l \<in> set (requiredLiterals_concat rs dst) \<Longrightarrow> l \<in> set dst \<or> sublist l s"
proof (induction re dst and rs dst arbitrary: i k and i k
    rule: requiredLiterals_requiredLiterals_concat.induct)
  case (1 fc rs dst)
  then show ?case
    using lit_ends_literal [of k rs s i]
    by (auto split: if_splits)
      (metis prefix_imp_sublist sublist_order.order_trans suffix_drop suffix_imp_sublist)
next
  case (3 r dst)
  then obtain j where "j \<in> ends r s i" using closure_nonempty by fastforce
  with 3 show ?case by simp
next
  case (4 mn mx r dst)
  show ?case
  proof (cases "0 < mn")
    case True
    from 4(2) have "rounds (ends r s) mn {i} \<noteq> {}"
      by (auto split: option.splits dest: closure_nonempty)
    with True obtain x j where "j \<in> ends r s x" using rounds_first by blast
    with 4 True show ?thesis by simp
  qed (use 4 in simp)
next
  case (8 r rs dst)
  then obtain j where j: "j \<in> ends r s i" "k \<in> ends_concat rs s j" by auto
  with 8 show ?case by fastforce
qed auto

end
