(* ===== verification/Matchers.thy ===== *)
theory Matchers
  imports RegexSyntax "HOL-Library.Monad_Syntax"
begin

text \<open>
  \<open>common/geodata/strmatcher/strmatcher.go\<close> and \<open>matchers.go\<close>: the four basic string matchers,
  their constructors, the normalisation of domain patterns and the composition of match results.
  Parsing a regular expression (\<open>syntax.Parse\<close>) and the third-party package idna are parameters.
\<close>

section \<open>Matchers\<close>

type_synonym mtype = byte

abbreviation (input) "FullT \<equiv> (0 :: mtype)"
abbreviation (input) "DomainT \<equiv> (1 :: mtype)"
abbreviation (input) "SubstrT \<equiv> (2 :: mtype)"
abbreviation (input) "RegexT \<equiv> (3 :: mtype)"

text \<open>A regular expression matcher keeps the source text, the tree and the literals of the
  prefilter.\<close>

datatype Matcher =
    FullMatcher string | DomainMatcher string | SubstrMatcher string
  | RegexMatcher string Regexp "string list"

fun mType :: "Matcher \<Rightarrow> mtype" where
  "mType (FullMatcher p) = FullT"
| "mType (DomainMatcher p) = DomainT"
| "mType (SubstrMatcher p) = SubstrT"
| "mType (RegexMatcher p re ls) = RegexT"

fun mPattern :: "Matcher \<Rightarrow> string" where
  "mPattern (FullMatcher p) = p"
| "mPattern (DomainMatcher p) = p"
| "mPattern (SubstrMatcher p) = p"
| "mPattern (RegexMatcher p re ls) = p"

fun mString :: "Matcher \<Rightarrow> string" where
  "mString (FullMatcher p) = ''full:'' @ p"
| "mString (DomainMatcher p) = ''domain:'' @ p"
| "mString (SubstrMatcher p) = ''keyword:'' @ p"
| "mString (RegexMatcher p re ls) = ''regexp:'' @ p"

definition domain_match :: "string \<Rightarrow> string \<Rightarrow> bool" where
  "domain_match p s =
     (if \<not> HasSuffix s p then False
      else length s = length p \<or> s ! (length s - length p - 1) = CHR ''.'')"

fun literals_ok :: "string list \<Rightarrow> string \<Rightarrow> bool" where
  "literals_ok [] s = True"
| "literals_ok (l # ls) s = (if \<not> Contains s l then False else literals_ok ls s)"

fun mMatch :: "Matcher \<Rightarrow> string \<Rightarrow> bool" where
  "mMatch (FullMatcher p) s = (p = s)"
| "mMatch (DomainMatcher p) s = domain_match p s"
| "mMatch (SubstrMatcher p) s = Contains s p"
| "mMatch (RegexMatcher p re ls) s = (if \<not> literals_ok ls s then False else MatchString re s)"

datatype strm_error = BadRegex | UnknownMatcherType | NotLDH | IdnaFailed | CannotAdd

type_synonym regex_parser = "string \<Rightarrow> Regexp option"

definition newRegexMatcher :: "regex_parser \<Rightarrow> string \<Rightarrow> strm_error + Matcher" where
  "newRegexMatcher parse p =
     (case parse p of
        None \<Rightarrow> Inl BadRegex
      | Some re \<Rightarrow>
          Inr (RegexMatcher p re (sort_key (\<lambda>l. - int (length l)) (requiredLiterals re []))))"

definition TypeNew :: "regex_parser \<Rightarrow> mtype \<Rightarrow> string \<Rightarrow> strm_error + Matcher" where
  "TypeNew parse t p =
     (if t = FullT then Inr (FullMatcher p)
      else if t = SubstrT then Inr (SubstrMatcher p)
      else if t = DomainT then Inr (DomainMatcher p)
      else if t = RegexT then newRegexMatcher parse p
      else Inl UnknownMatcherType)"

section \<open>ToDomain\<close>

datatype ldh_scan = ScanNonASCII | ScanBad | ScanASCII bool

text \<open>The inner loop: it stops at the first byte outside of ASCII, fails at the first byte that
  is no letter, digit, hyphen or period, and notes upper-case letters.\<close>

fun ldh_loop :: "bool \<Rightarrow> string \<Rightarrow> ldh_scan" where
  "ldh_loop hasUpper [] = ScanASCII hasUpper"
| "ldh_loop hasUpper (c # cs) =
     (if 0x80 \<le> (of_char c :: nat) then ScanNonASCII
      else if is_upper c then ldh_loop True cs
      else if is_lower c \<or> is_digit c \<or> c = CHR ''-'' \<or> c = CHR ''.'' then ldh_loop hasUpper cs
      else ScanBad)"

text \<open>The outer loop runs again on what idna returns; \<open>None\<close> of the outer option is a loop that
  does not end.\<close>

partial_function (option) ToDomain :: "(string \<Rightarrow> string option) \<Rightarrow> string \<Rightarrow> (strm_error + string) option"
where
  "ToDomain idna p =
     (case ldh_loop False p of
        ScanBad \<Rightarrow> Some (Inl NotLDH)
      | ScanNonASCII \<Rightarrow>
          (case idna p of None \<Rightarrow> Some (Inl IdnaFailed) | Some q \<Rightarrow> ToDomain idna q)
      | ScanASCII up \<Rightarrow> Some (Inr (if up then ToLower p else p)))"

definition NewDomainPattern :: "regex_parser \<Rightarrow> (string \<Rightarrow> string option) \<Rightarrow> mtype \<Rightarrow> string \<Rightarrow>
    (strm_error + Matcher) option" where
  "NewDomainPattern parse idna t p =
     (if t = FullT then map_option (map_sum id FullMatcher) (ToDomain idna p)
      else if t = SubstrT then map_option (map_sum id SubstrMatcher) (ToDomain idna p)
      else if t = DomainT then map_option (map_sum id DomainMatcher) (ToDomain idna p)
      else if t = RegexT then Some (newRegexMatcher parse p)
      else Some (Inl UnknownMatcherType))"

section \<open>Composition of results\<close>

definition CompositeMatches :: "u32 list list \<Rightarrow> u32 list" where
  "CompositeMatches ms = (case ms of [] \<Rightarrow> [] | [m] \<Rightarrow> m | _ \<Rightarrow> concat ms)"

definition CompositeMatchesReverse :: "u32 list list \<Rightarrow> u32 list" where
  "CompositeMatchesReverse ms = (case ms of [] \<Rightarrow> [] | [m] \<Rightarrow> m | _ \<Rightarrow> concat (rev ms))"

lemma CompositeMatches_concat [strm]: "CompositeMatches ms = concat ms"
  by (cases ms rule: list_cases3) (simp_all add: CompositeMatches_def)

lemma CompositeMatchesReverse_concat [strm]: "CompositeMatchesReverse ms = concat (rev ms)"
  by (cases ms rule: list_cases3) (simp_all add: CompositeMatchesReverse_def)

section \<open>Lemmas\<close>

lemma domain_match_iff: "domain_match p s \<longleftrightarrow> (\<exists>u. s = u @ p \<and> (u = [] \<or> last u = CHR ''.''))"
proof
  assume d: "domain_match p s"
  then obtain u where u: "s = u @ p" by (auto simp: domain_match_def HasSuffix_def suffix_def split: if_splits)
  with d have "u = [] \<or> last u = CHR ''.''"
    by (cases u rule: rev_cases) (auto simp: domain_match_def nth_append split: if_splits)
  with u show "\<exists>u. s = u @ p \<and> (u = [] \<or> last u = CHR ''.'')" by blast
next
  assume "\<exists>u. s = u @ p \<and> (u = [] \<or> last u = CHR ''.'')"
  then obtain u where "s = u @ p" "u = [] \<or> last u = CHR ''.''" by blast
  then show "domain_match p s"
    by (cases u rule: rev_cases) (auto simp: domain_match_def HasSuffix_def suffix_def nth_append)
qed

lemma literals_ok_iff: "literals_ok ls s \<longleftrightarrow> (\<forall>l \<in> set ls. Contains s l)"
  by (induction ls) auto

text \<open>The matchers that the constructors produce: the literals of a regular expression are required.\<close>

fun matcher_wf :: "Matcher \<Rightarrow> bool" where
  "matcher_wf (RegexMatcher p re ls) = (set ls \<subseteq> set (requiredLiterals re []))"
| "matcher_wf m = True"

lemma newRegexMatcher_wf: "newRegexMatcher parse p = Inr m \<Longrightarrow> matcher_wf m"
  by (auto simp: newRegexMatcher_def split: option.splits)

lemma regex_Match:
  assumes "set ls \<subseteq> set (requiredLiterals re [])"
  shows "mMatch (RegexMatcher p re ls) s \<longleftrightarrow> MatchString re s"
proof (cases "MatchString re s")
  case True
  then obtain i k where k: "k \<in> ends re s i" by (auto simp: MatchString_def list_ex_iff)
  with requiredLiterals_sound(1) [OF k, of _ "[]"] assms have "\<forall>l \<in> set ls. sublist l s" by auto
  with True show ?thesis by (auto simp: literals_ok_iff Contains_def)
qed simp

definition lower_ldh :: "char \<Rightarrow> bool" where
  "lower_ldh c \<longleftrightarrow> is_lower c \<or> is_digit c \<or> c = CHR ''-'' \<or> c = CHR ''.''"

lemma ldh_loop_ASCII:
  "ldh_loop u p = ScanASCII u' \<Longrightarrow> (\<forall>c \<in> set p. is_upper c \<or> lower_ldh c) \<and>
    (u' \<longleftrightarrow> u \<or> (\<exists>c \<in> set p. is_upper c))"
  by (induction u p rule: ldh_loop.induct) (auto simp: lower_ldh_def split: if_splits)

lemma lower_char_upper: "is_upper c \<Longrightarrow> is_lower (lower_char c)"
proof -
  assume u: "is_upper c"
  then have b: "65 \<le> (of_char c :: nat)" "(of_char c :: nat) \<le> 90"
    by (simp_all add: is_upper_def less_eq_char_def)
  then have "(of_char (char_of (of_char c + 32 :: nat)) :: nat) = of_char c + 32" by simp
  with b u show ?thesis by (simp add: lower_char_def is_lower_def less_eq_char_def)
qed

lemma lower_char_not_upper: "\<not> is_upper c \<Longrightarrow> lower_char c = c"
  by (simp add: lower_char_def)

lemma lower_ldh_not_upper: "lower_ldh c \<Longrightarrow> \<not> is_upper c"
  by (auto simp: lower_ldh_def is_upper_def is_lower_def is_digit_def less_eq_char_def)

lemma ldh_loop_lower:
  assumes "ldh_loop False p = ScanASCII u"
  shows "\<forall>c \<in> set (if u then ToLower p else p). lower_ldh c"
    and "(if u then ToLower p else p) = ToLower p"
proof -
  have a: "\<forall>c \<in> set p. is_upper c \<or> lower_ldh c" "u \<longleftrightarrow> (\<exists>c \<in> set p. is_upper c)"
    using ldh_loop_ASCII [OF assms] by auto
  show "\<forall>c \<in> set (if u then ToLower p else p). lower_ldh c"
  proof -
    have "lower_ldh (lower_char c)" if "c \<in> set p" for c
      using a(1) that lower_char_upper [of c] lower_char_not_upper [of c]
      by (cases "is_upper c") (auto simp: lower_ldh_def)
    with a show ?thesis by (auto simp: ToLower_def)
  qed
  show "(if u then ToLower p else p) = ToLower p"
    using a by (auto simp: ToLower_def lower_char_not_upper intro!: map_idI [symmetric])
qed

lemma ToDomain_lower:
  assumes "ToDomain idna p = Some r" "r = Inr d"
  shows "\<forall>c \<in> set d. lower_ldh c"
  using assms(2)
proof (induction arbitrary: d rule: ToDomain.raw_induct [OF _ assms(1)])
  case (1 ToD idna p r)
  then show ?case
    using ldh_loop_lower(1) [of p]
    by (cases "ldh_loop False p") (auto split: option.splits)
qed

end
