(* ===== verification/MatcherSets.thy ===== *)
theory MatcherSets
  imports Matchers
begin

text \<open>
  The matcher sets of \<open>common/geodata/strmatcher\<close> (\<open>matcherset_*.go\<close>, \<open>anymatcher_linear.go\<close>): they
  answer only whether some pattern matches. The contract of the interface \<open>MatcherSet\<close> is the
  locale \<open>matcher_set\<close>; each set is an interpretation of it. Patterns of the domain sets are
  tries over the labels of a domain, read from the right.
\<close>

section \<open>The contract\<close>

locale matcher_set =
  fixes m :: "'p \<Rightarrow> string \<Rightarrow> bool"
    and ok :: "'p \<Rightarrow> bool"
    and empty :: 's
    and add :: "'p \<Rightarrow> 's \<Rightarrow> 's"
    and any :: "'s \<Rightarrow> string \<Rightarrow> bool"
  assumes any_empty: "\<not> any empty s"
    and any_add: "ok p \<Longrightarrow> any (add p st) s \<longleftrightarrow> any st s \<or> m p s"
begin

lemma any_fold: "list_all ok ps \<Longrightarrow> any (fold add ps st) s \<longleftrightarrow> any st s \<or> (\<exists>p \<in> set ps. m p s)"
  by (induction ps arbitrary: st) (auto simp: any_add)

lemma any_build: "list_all ok ps \<Longrightarrow> any (fold add ps empty) s \<longleftrightarrow> (\<exists>p \<in> set ps. m p s)"
  by (simp add: any_fold any_empty)

lemma any_order_irrelevant:
  "list_all ok ps \<Longrightarrow> set ps = set qs \<Longrightarrow> any (fold add ps empty) s \<longleftrightarrow> any (fold add qs empty) s"
  by (simp add: any_build list_all_iff)

end

section \<open>Labels of a domain\<close>

text \<open>One round of the loop over a domain from its end: the last label and what stands before its
  dot, nothing when there is no dot.\<close>

definition last_label :: "string \<Rightarrow> string \<times> string" where
  "last_label s =
     (let part = rev (takeWhile (\<lambda>c. c \<noteq> CHR ''.'') (rev s))
      in (take (length s - length part - 1) s, part))"

function domain_labels :: "string \<Rightarrow> string list" where
  "domain_labels s =
     (if s = [] then [] else snd (last_label s) # domain_labels (fst (last_label s)))"
  by pat_completeness auto
termination
  by (relation "measure length") (auto simp: last_label_def Let_def)

declare domain_labels.simps [simp del]

lemma domain_labels_Nil [simp]: "domain_labels [] = []" "domain_labels s = [] \<longleftrightarrow> s = []"
  by (simp_all add: domain_labels.simps)

lemma last_label_dot: "CHR ''.'' \<notin> set q \<Longrightarrow> last_label (r @ CHR ''.'' # q) = (r, q)"
proof -
  assume q: "CHR ''.'' \<notin> set q"
  have "takeWhile (\<lambda>c. c \<noteq> CHR ''.'') (rev q @ CHR ''.'' # rev r) = rev q"
    using q by (subst takeWhile_append2) auto
  then show ?thesis by (simp add: last_label_def Let_def)
qed

lemma last_label_no_dot: "CHR ''.'' \<notin> set q \<Longrightarrow> last_label q = ([], q)"
proof -
  assume "CHR ''.'' \<notin> set q"
  then have "takeWhile (\<lambda>c. c \<noteq> CHR ''.'') (rev q) = rev q" by (auto simp: takeWhile_eq_all_conv)
  then show ?thesis by (simp only: last_label_def Let_def rev_rev_ident) simp
qed

lemma split_last_dot:
  obtains (dot) r q where "s = r @ CHR ''.'' # q" "CHR ''.'' \<notin> set q" | (none) "CHR ''.'' \<notin> set s"
  by (metis split_list_last)

lemma domain_labels_dot: "CHR ''.'' \<notin> set q \<Longrightarrow> domain_labels (r @ CHR ''.'' # q) = q # domain_labels r"
  by (subst domain_labels.simps) (simp add: last_label_dot)

lemma domain_labels_no_dot: "CHR ''.'' \<notin> set q \<Longrightarrow> q \<noteq> [] \<Longrightarrow> domain_labels q = [q]"
  by (subst domain_labels.simps) (simp add: last_label_no_dot)

text \<open>A pattern for which the trie and the single matcher agree: it has a first label.\<close>

definition domain_ok :: "string \<Rightarrow> bool" where
  "domain_ok p \<longleftrightarrow> p \<noteq> [] \<and> hd p \<noteq> CHR ''.''"

lemma dot_split_unique:
  "CHR ''.'' \<notin> set q \<Longrightarrow> CHR ''.'' \<notin> set q' \<Longrightarrow>
   r @ CHR ''.'' # q = r' @ CHR ''.'' # q' \<longleftrightarrow> r = r' \<and> q = q'"
proof -
  assume "CHR ''.'' \<notin> set q" "CHR ''.'' \<notin> set q'"
  note ll = last_label_dot [OF this(1), of r] last_label_dot [OF this(2), of r']
  show ?thesis
  proof
    assume "r @ CHR ''.'' # q = r' @ CHR ''.'' # q'"
    then have "last_label (r @ CHR ''.'' # q) = last_label (r' @ CHR ''.'' # q')" by (rule arg_cong)
    then show "r = r' \<and> q = q'" unfolding ll by (rule prod.inject [THEN iffD1])
  qed simp
qed

lemma no_dot_append: "CHR ''.'' \<notin> set q \<Longrightarrow> r @ CHR ''.'' # q = u @ p \<Longrightarrow> CHR ''.'' \<notin> set p \<Longrightarrow>
   (u = [] \<or> last u = CHR ''.'') \<longleftrightarrow> p = q"
proof -
  assume q: "CHR ''.'' \<notin> set q" and e: "r @ CHR ''.'' # q = u @ p" and p: "CHR ''.'' \<notin> set p"
  have "u \<noteq> []" using e p by (metis append_Nil in_set_conv_decomp)
  then obtain u' c where u: "u = u' @ [c]" by (meson rev_exhaust)
  show ?thesis
  proof
    assume "u = [] \<or> last u = CHR ''.''"
    with u \<open>u \<noteq> []\<close> e have "r @ CHR ''.'' # q = u' @ CHR ''.'' # p" by simp
    with q p show "p = q" by (simp add: dot_split_unique)
  next
    assume "p = q"
    with e u have "r @ [CHR ''.''] = u' @ [c]" by simp
    with u show "u = [] \<or> last u = CHR ''.''" by simp
  qed
qed

lemma domain_match_labels:
  assumes "domain_ok p"
  shows "domain_match p s \<longleftrightarrow> prefix (domain_labels p) (domain_labels s)"
  using assms
proof (induction "length p" arbitrary: p s rule: less_induct)
  case less
  show ?case
  proof (cases p rule: split_last_dot)
    case none
    with less.prems have lp: "domain_labels p = [p]" by (simp add: domain_ok_def domain_labels_no_dot)
    show ?thesis
    proof (cases s rule: split_last_dot)
      case (dot r q)
      then have "domain_match p s \<longleftrightarrow> p = q"
        using no_dot_append [OF dot(2)] none unfolding domain_match_iff dot(1)
        by (metis append.assoc append_Cons append_Nil snoc_eq_iff_butlast)
      then show ?thesis using dot lp by (simp add: domain_labels_dot)
    next
      case none2: none
      have "domain_match p s \<longleftrightarrow> s = p"
        unfolding domain_match_iff using none2 last_in_set by fastforce
      moreover have "s = [] \<or> domain_labels s = [s]" using none2 domain_labels_no_dot by blast
      ultimately show ?thesis using lp less.prems by (auto simp: domain_ok_def)
    qed
  next
    case (dot rp qp)
    have okr: "domain_ok rp" using less.prems dot by (cases rp) (auto simp: domain_ok_def)
    have lp: "domain_labels p = qp # domain_labels rp" using dot by (simp add: domain_labels_dot)
    show ?thesis
    proof (cases s rule: split_last_dot)
      case ds: (dot r q)
      have "domain_match p s \<longleftrightarrow> q = qp \<and> domain_match rp r"
        unfolding domain_match_iff dot(1) ds(1)
        using dot_split_unique [OF ds(2) dot(2)] by (metis append_assoc)
      then show ?thesis
        using less.hyps [of rp r] okr lp ds dot by (auto simp: domain_labels_dot)
    next
      case none
      then have "\<not> domain_match p s" by (auto simp: domain_match_iff dot)
      moreover have "length (domain_labels s) \<le> 1"
        using none domain_labels_no_dot [of s] by (cases "s = []") auto
      moreover have "domain_labels rp \<noteq> []" using okr by (simp add: domain_ok_def)
      ultimately show ?thesis using lp
        by (cases "domain_labels s"; cases "domain_labels rp") (auto simp: prefix_def)
    qed
  qed
qed

section \<open>FullMatcherSet\<close>

type_synonym FullMatcherSet = "(string, unit) go_map"

definition NewFullMatcherSet :: FullMatcherSet where
  "NewFullMatcherSet = []"

definition FullSet_Add :: "string \<Rightarrow> FullMatcherSet \<Rightarrow> FullMatcherSet" where
  "FullSet_Add p s = al_put p () s"

definition FullSet_MatchAny :: "FullMatcherSet \<Rightarrow> string \<Rightarrow> bool" where
  "FullSet_MatchAny s input = (al_get s input \<noteq> None)"

interpretation full_set: matcher_set "\<lambda>p. mMatch (FullMatcher p)" "\<lambda>p. True" NewFullMatcherSet
  FullSet_Add FullSet_MatchAny
  by unfold_locales (auto simp: NewFullMatcherSet_def FullSet_Add_def FullSet_MatchAny_def al_simps)

section \<open>DomainMatcherSet\<close>

text \<open>A node and its children; a nil map of children is the empty list, as a map is only created
  to insert into it.\<close>

datatype trieNode2 = Node2 (matched2: bool) (children2: "(string, trieNode2) go_map")

definition NewDomainMatcherSet :: trieNode2 where
  "NewDomainMatcherSet = Node2 False []"

fun trie2_add :: "string list \<Rightarrow> trieNode2 \<Rightarrow> trieNode2" where
  "trie2_add [] (Node2 b ch) = Node2 True ch"
| "trie2_add (l # ls) (Node2 b ch) =
     Node2 b (al_put l (trie2_add ls (case al_get ch l of None \<Rightarrow> Node2 False [] | Some n \<Rightarrow> n)) ch)"

definition DomainSet_Add :: "string \<Rightarrow> trieNode2 \<Rightarrow> trieNode2" where
  "DomainSet_Add p root = trie2_add (domain_labels p) root"

fun trie2_any :: "trieNode2 \<Rightarrow> string list \<Rightarrow> bool" where
  "trie2_any n [] = False"
| "trie2_any n (l # ls) =
     (case al_get (children2 n) l of
        None \<Rightarrow> False
      | Some n' \<Rightarrow>
          if matched2 n' then True else if children2 n' = [] then False else trie2_any n' ls)"

definition DomainSet_MatchAny :: "trieNode2 \<Rightarrow> string \<Rightarrow> bool" where
  "DomainSet_MatchAny root input = trie2_any root (domain_labels input)"

lemma trie2_any_leaf: "children2 n = [] \<Longrightarrow> \<not> trie2_any n ls"
  by (cases ls) auto

lemma trie2_add_nonempty: "ls \<noteq> [] \<Longrightarrow> children2 (trie2_add ls n) \<noteq> []"
  by (cases n; cases ls) (auto dest: arg_cong [where f = "\<lambda>m. fst ` set m"] simp: al_simps)

lemma matched2_add: "matched2 (trie2_add ls n) \<longleftrightarrow> matched2 n \<or> ls = []"
  by (cases n; cases ls) auto

lemma trie2_any_add:
  "ls \<noteq> [] \<Longrightarrow> trie2_any (trie2_add ls n) xs \<longleftrightarrow> trie2_any n xs \<or> prefix ls xs"
proof (induction ls arbitrary: n xs)
  case (Cons l ls)
  obtain b ch where n: "n = Node2 b ch" by (cases n)
  show ?case
  proof (cases xs)
    case (Cons x xs')
    let ?n = "case al_get ch l of None \<Rightarrow> Node2 False [] | Some n \<Rightarrow> n"
    have leaf: "trie2_any (trie2_add ls ?n) xs' \<longleftrightarrow> children2 (trie2_add ls ?n) \<noteq> [] \<and> trie2_any (trie2_add ls ?n) xs'"
      "trie2_any ?n xs' \<longleftrightarrow> children2 ?n \<noteq> [] \<and> trie2_any ?n xs'"
      using trie2_any_leaf by blast+
    have sub: "matched2 (trie2_add ls ?n) \<or> trie2_any (trie2_add ls ?n) xs' \<longleftrightarrow>
        (matched2 ?n \<or> trie2_any ?n xs') \<or> prefix ls xs'"
    proof (cases "ls = []")
      case False
      then show ?thesis using Cons.IH [OF False] by (simp add: matched2_add)
    qed (simp add: matched2_add)
    have old: "trie2_any n (l # xs') \<longleftrightarrow> matched2 ?n \<or> trie2_any ?n xs'"
      using trie2_any_leaf by (auto simp: n split: option.splits)
    show ?thesis
      using sub old leaf by (auto simp: n Cons al_simps)
  qed simp
qed simp

interpretation domain_set: matcher_set "\<lambda>p. mMatch (DomainMatcher p)" domain_ok NewDomainMatcherSet
  DomainSet_Add DomainSet_MatchAny
proof
  show "\<not> DomainSet_MatchAny NewDomainMatcherSet s" for s
    by (simp add: DomainSet_MatchAny_def NewDomainMatcherSet_def trie2_any_leaf)
  show "DomainSet_MatchAny (DomainSet_Add p st) s \<longleftrightarrow> DomainSet_MatchAny st s \<or> mMatch (DomainMatcher p) s"
    if "domain_ok p" for p st s
    using that trie2_any_add [of "domain_labels p" st "domain_labels s"]
    by (auto simp: DomainSet_MatchAny_def DomainSet_Add_def domain_match_labels domain_ok_def)
qed

section \<open>SubstrMatcherSet and SimpleMatcherSet\<close>

type_synonym SubstrMatcherSet = "string list"

definition SubstrSet_Add :: "string \<Rightarrow> SubstrMatcherSet \<Rightarrow> SubstrMatcherSet" where
  "SubstrSet_Add p s = s @ [p]"

fun SubstrSet_MatchAny :: "SubstrMatcherSet \<Rightarrow> string \<Rightarrow> bool" where
  "SubstrSet_MatchAny [] input = False"
| "SubstrSet_MatchAny (p # ps) input = (if Contains input p then True else SubstrSet_MatchAny ps input)"

type_synonym SimpleMatcherSet = "Matcher list"

definition SimpleSet_Add :: "Matcher \<Rightarrow> SimpleMatcherSet \<Rightarrow> SimpleMatcherSet" where
  "SimpleSet_Add m s = s @ [m]"

fun SimpleSet_MatchAny :: "SimpleMatcherSet \<Rightarrow> string \<Rightarrow> bool" where
  "SimpleSet_MatchAny [] input = False"
| "SimpleSet_MatchAny (m # ms) input = (if mMatch m input then True else SimpleSet_MatchAny ms input)"

lemma SubstrSet_MatchAny_iff [strm]: "SubstrSet_MatchAny ps s \<longleftrightarrow> (\<exists>p \<in> set ps. Contains s p)"
  by (induction ps) auto

lemma SimpleSet_MatchAny_iff [strm]: "SimpleSet_MatchAny ms s \<longleftrightarrow> (\<exists>m \<in> set ms. mMatch m s)"
  by (induction ms) auto

interpretation substr_set: matcher_set "\<lambda>p. mMatch (SubstrMatcher p)" "\<lambda>p. True" "[]" SubstrSet_Add
  SubstrSet_MatchAny
  by unfold_locales (auto simp: SubstrSet_Add_def strm)

interpretation simple_set: matcher_set mMatch "\<lambda>m. True" "[]" SimpleSet_Add SimpleSet_MatchAny
  by unfold_locales (auto simp: SimpleSet_Add_def strm)

section \<open>LinearAnyMatcher\<close>

record LinearAnyMatcher =
  la_full :: "FullMatcherSet option"
  la_domain :: "trieNode2 option"
  la_substr :: "SubstrMatcherSet option"
  la_regex :: "SimpleMatcherSet option"

definition NewLinearAnyMatcher :: LinearAnyMatcher where
  "NewLinearAnyMatcher = \<lparr>la_full = None, la_domain = None, la_substr = None, la_regex = None\<rparr>"

definition or_new :: "'a \<Rightarrow> 'a option \<Rightarrow> 'a" where
  "or_new x o1 = (case o1 of None \<Rightarrow> x | Some y \<Rightarrow> y)"

fun LinearAny_Add :: "Matcher \<Rightarrow> LinearAnyMatcher \<Rightarrow> LinearAnyMatcher" where
  "LinearAny_Add (FullMatcher p) s =
     s\<lparr>la_full := Some (FullSet_Add p (or_new NewFullMatcherSet (la_full s)))\<rparr>"
| "LinearAny_Add (DomainMatcher p) s =
     s\<lparr>la_domain := Some (DomainSet_Add p (or_new NewDomainMatcherSet (la_domain s)))\<rparr>"
| "LinearAny_Add (SubstrMatcher p) s =
     s\<lparr>la_substr := Some (SubstrSet_Add p (or_new [] (la_substr s)))\<rparr>"
| "LinearAny_Add m s = s\<lparr>la_regex := Some (SimpleSet_Add m (or_new [] (la_regex s)))\<rparr>"

definition opt_any :: "('s \<Rightarrow> string \<Rightarrow> bool) \<Rightarrow> 's option \<Rightarrow> string \<Rightarrow> bool" where
  "opt_any f o1 input = (case o1 of None \<Rightarrow> False | Some s \<Rightarrow> f s input)"

definition LinearAny_MatchAny :: "LinearAnyMatcher \<Rightarrow> string \<Rightarrow> bool" where
  "LinearAny_MatchAny s input =
     (if opt_any FullSet_MatchAny (la_full s) input then True
      else if opt_any DomainSet_MatchAny (la_domain s) input then True
      else if opt_any SubstrSet_MatchAny (la_substr s) input then True
      else opt_any SimpleSet_MatchAny (la_regex s) input)"

text \<open>The patterns for which the composed matchers agree with the basic ones.\<close>

fun pattern_ok :: "Matcher \<Rightarrow> bool" where
  "pattern_ok (DomainMatcher p) = domain_ok p"
| "pattern_ok m = True"

context matcher_set
begin

lemma opt_any_add: "ok p \<Longrightarrow> opt_any any (Some (add p (or_new empty o1))) s \<longleftrightarrow> opt_any any o1 s \<or> m p s"
  by (cases o1) (simp_all add: opt_any_def or_new_def any_add any_empty)

end

interpretation linear_any: matcher_set mMatch pattern_ok NewLinearAnyMatcher LinearAny_Add LinearAny_MatchAny
proof
  show "\<not> LinearAny_MatchAny NewLinearAnyMatcher s" for s
    by (simp add: LinearAny_MatchAny_def NewLinearAnyMatcher_def opt_any_def)
  show "LinearAny_MatchAny (LinearAny_Add m st) s \<longleftrightarrow> LinearAny_MatchAny st s \<or> mMatch m s"
    if "pattern_ok m" for m st s
    using that full_set.opt_any_add [of _ "la_full st" s] domain_set.opt_any_add [of _ "la_domain st" s]
      substr_set.opt_any_add [of _ "la_substr st" s] simple_set.opt_any_add [of _ "la_regex st" s]
    by (cases m) (auto simp: LinearAny_MatchAny_def simp del: mMatch.simps)
qed

end
