(* ===== verification/MatcherGroups.thy ===== *)
theory MatcherGroups
  imports MatcherSets "HOL-Library.Product_Lexorder"
begin

text \<open>
  The matcher groups of \<open>common/geodata/strmatcher\<close> (\<open>matchergroup_full.go\<close>, \<open>_domain.go\<close>,
  \<open>_substr.go\<close>, \<open>_simple.go\<close>) and the linear matchers over them (\<open>indexmatcher_linear.go\<close>,
  \<open>valuematcher_linear.go\<close>). A group returns the values of all patterns that match, in a
  prescribed order. Its contract is the locale \<open>matcher_group\<close>. \<open>Match\<close> returns an option because
  the loop of the substring group need not end.
\<close>

section \<open>The contract\<close>

type_synonym 'p entries = "('p \<times> u32) list"

definition build_group :: "('p \<Rightarrow> u32 \<Rightarrow> 'g \<Rightarrow> 'g) \<Rightarrow> 'g \<Rightarrow> 'p entries \<Rightarrow> 'g" where
  "build_group add g es = fold (\<lambda>(p, v). add p v) es g"

locale matcher_group =
  fixes m :: "'p \<Rightarrow> string \<Rightarrow> bool"
    and admissible :: "'p entries \<Rightarrow> bool"
    and fits :: "string \<Rightarrow> bool"
    and empty :: 'g
    and add :: "'p \<Rightarrow> u32 \<Rightarrow> 'g \<Rightarrow> 'g"
    and vals :: "'g \<Rightarrow> string \<Rightarrow> u32 list option"
    and any :: "'g \<Rightarrow> string \<Rightarrow> bool"
  assumes match_values: "admissible es \<Longrightarrow> fits s \<Longrightarrow>
      \<exists>vs. vals (build_group add empty es) s = Some vs \<and> set vs = {v. \<exists>p. (p, v) \<in> set es \<and> m p s}"
    and any_entry: "admissible es \<Longrightarrow> any (build_group add empty es) s \<longleftrightarrow> (\<exists>(p, v) \<in> set es. m p s)"
begin

lemma match_total: "admissible es \<Longrightarrow> fits s \<Longrightarrow> \<exists>vs. vals (build_group add empty es) s = Some vs"
  using match_values by blast

lemma any_iff_match:
  "admissible es \<Longrightarrow> fits s \<Longrightarrow>
   any (build_group add empty es) s \<longleftrightarrow> vals (build_group add empty es) s \<noteq> Some []"
proof -
  assume a: "admissible es" and f: "fits s"
  then obtain vs where vs: "vals (build_group add empty es) s = Some vs"
    "set vs = {v. \<exists>p. (p, v) \<in> set es \<and> m p s}" using match_values by blast
  have "(\<exists>(p, v) \<in> set es. m p s) \<longleftrightarrow> set vs \<noteq> {}" unfolding vs(2) by blast
  with vs(1) any_entry [OF a, of s] show ?thesis by simp
qed

end

lemma build_group_snoc: "build_group add g (es @ [(p, v)]) = add p v (build_group add g es)"
  by (simp add: build_group_def)

lemma build_group_Nil [simp]: "build_group add g [] = g"
  by (simp add: build_group_def)

section \<open>FullMatcherGroup\<close>

type_synonym FullMatcherGroup = "(string, u32 list) go_map"

definition NewFullMatcherGroup :: FullMatcherGroup where
  "NewFullMatcherGroup = []"

definition FullGroup_Add :: "string \<Rightarrow> u32 \<Rightarrow> FullMatcherGroup \<Rightarrow> FullMatcherGroup" where
  "FullGroup_Add p v g = al_put p ((case al_get g p of None \<Rightarrow> [] | Some vs \<Rightarrow> vs) @ [v]) g"

definition FullGroup_Match :: "FullMatcherGroup \<Rightarrow> string \<Rightarrow> u32 list" where
  "FullGroup_Match g input = (case al_get g input of None \<Rightarrow> [] | Some vs \<Rightarrow> vs)"

definition FullGroup_MatchAny :: "FullMatcherGroup \<Rightarrow> string \<Rightarrow> bool" where
  "FullGroup_MatchAny g input = (al_get g input \<noteq> None)"

lemma FullGroup_build:
  "al_get (build_group FullGroup_Add NewFullMatcherGroup es) s =
    (if \<exists>v. (s, v) \<in> set es then Some (map snd (filter (\<lambda>e. fst e = s) es)) else None)"
proof (induction es rule: rev_induct)
  case (snoc e es)
  obtain p v where e: "e = (p, v)" by (cases e)
  have ne: "filter (\<lambda>e. fst e = s) es = [] \<longleftrightarrow> \<not> (\<exists>v. (s, v) \<in> set es)"
    by (auto simp: filter_empty_conv)
  show ?case
    using snoc ne by (auto simp: e build_group_snoc FullGroup_Add_def al_simps)
qed (simp add: NewFullMatcherGroup_def)

interpretation full_group: matcher_group "\<lambda>p. mMatch (FullMatcher p)" "\<lambda>es. True" "\<lambda>s. True"
  NewFullMatcherGroup FullGroup_Add "\<lambda>g s. Some (FullGroup_Match g s)" FullGroup_MatchAny
  by unfold_locales
    (auto simp: FullGroup_Match_def FullGroup_MatchAny_def FullGroup_build image_iff split: if_splits)

section \<open>DomainMatcherGroup\<close>

datatype trieNode = TNode (tvalues: "u32 list") (children: "(string, trieNode) go_map")

definition NewDomainMatcherGroup :: trieNode where
  "NewDomainMatcherGroup = TNode [] []"

fun trie_add :: "string list \<Rightarrow> u32 \<Rightarrow> trieNode \<Rightarrow> trieNode" where
  "trie_add [] v (TNode vs ch) = TNode (vs @ [v]) ch"
| "trie_add (l # ls) v (TNode vs ch) =
     TNode vs (al_put l (trie_add ls v (case al_get ch l of None \<Rightarrow> TNode [] [] | Some n \<Rightarrow> n)) ch)"

definition DomainGroup_Add :: "string \<Rightarrow> u32 \<Rightarrow> trieNode \<Rightarrow> trieNode" where
  "DomainGroup_Add p v root = trie_add (domain_labels p) v root"

fun trie_matches :: "trieNode \<Rightarrow> string list \<Rightarrow> u32 list list" where
  "trie_matches n [] = []"
| "trie_matches n (l # ls) =
     (case al_get (children n) l of
        None \<Rightarrow> []
      | Some n' \<Rightarrow>
          (if tvalues n' \<noteq> [] then [tvalues n'] else []) @
          (if children n' = [] then [] else trie_matches n' ls))"

definition DomainGroup_Match :: "trieNode \<Rightarrow> string \<Rightarrow> u32 list" where
  "DomainGroup_Match root input = CompositeMatchesReverse (trie_matches root (domain_labels input))"

fun trie_any :: "trieNode \<Rightarrow> string list \<Rightarrow> bool" where
  "trie_any n [] = False"
| "trie_any n (l # ls) =
     (case al_get (children n) l of
        None \<Rightarrow> False
      | Some n' \<Rightarrow>
          if tvalues n' \<noteq> [] then True else if children n' = [] then False else trie_any n' ls)"

definition DomainGroup_MatchAny :: "trieNode \<Rightarrow> string \<Rightarrow> bool" where
  "DomainGroup_MatchAny root input = trie_any root (domain_labels input)"

text \<open>The values stored at a path of labels, and the matches along a path by them.\<close>

fun trie_vals :: "trieNode \<Rightarrow> string list \<Rightarrow> u32 list" where
  "trie_vals n [] = tvalues n"
| "trie_vals n (l # ls) = (case al_get (children n) l of None \<Rightarrow> [] | Some n' \<Rightarrow> trie_vals n' ls)"

lemma trie_vals_new [simp]: "trie_vals (TNode [] []) ls = []"
  by (cases ls) auto

lemma trie_vals_add:
  "trie_vals (trie_add ls v n) ks = (if ks = ls then trie_vals n ks @ [v] else trie_vals n ks)"
proof (induction ls v n arbitrary: ks rule: trie_add.induct)
  case (1 v vs ch)
  then show ?case by (cases ks) auto
next
  case (2 l ls v vs ch)
  then show ?case
  proof (cases ks)
    case (Cons k ks')
    then show ?thesis using 2 [of ks'] by (auto simp: al_simps split: option.splits)
  qed simp
qed

lemma trie_matches_leaf: "children n = [] \<Longrightarrow> trie_matches n ls = []"
  by (cases ls) auto

lemma trie_matches_vals:
  "trie_matches n ls = filter (\<lambda>vs. vs \<noteq> []) (map (\<lambda>d. trie_vals n (take d ls)) [1..<Suc (length ls)])"
proof (induction ls arbitrary: n)
  case (Cons l ls)
  show ?case
  proof (cases "al_get (children n) l")
    case None
    then show ?thesis by (auto simp: filter_empty_conv take_Cons' split: nat.splits)
  next
    case (Some n')
    have "[1..<Suc (length (l # ls))] = 1 # map Suc [1..<Suc (length ls)]"
      by (simp add: upt_conv_Cons map_Suc_upt del: upt_Suc)
    with Some Cons [of n'] trie_matches_leaf [of n' ls] show ?thesis
      by (auto simp: comp_def simp del: upt_Suc)
  qed
qed simp

lemma trie_any_matches: "trie_any n ls \<longleftrightarrow> trie_matches n ls \<noteq> []"
  by (induction n ls rule: trie_any.induct) (auto split: option.splits)

lemma DomainGroup_vals:
  "trie_vals (build_group DomainGroup_Add NewDomainMatcherGroup es) ks =
   map snd (filter (\<lambda>e. domain_labels (fst e) = ks) es)"
proof (induction es rule: rev_induct)
  case (snoc e es)
  then show ?case
    by (cases e) (auto simp: build_group_snoc DomainGroup_Add_def trie_vals_add)
qed (simp add: NewDomainMatcherGroup_def)

lemma concat_filter_Nil: "concat (filter (\<lambda>x. x \<noteq> []) xs) = concat xs"
  by (induction xs) auto

text \<open>The priority specification: longer domains first, and the values of one domain in the order
  in which they were added.\<close>

lemma DomainGroup_Match_priority:
  "DomainGroup_Match (build_group DomainGroup_Add NewDomainMatcherGroup es) s =
   concat (map (\<lambda>d. map snd (filter (\<lambda>e. domain_labels (fst e) = take d (domain_labels s)) es))
     (rev [1..<Suc (length (domain_labels s))]))"
  by (simp add: DomainGroup_Match_def strm trie_matches_vals DomainGroup_vals rev_map rev_filter
      concat_filter_Nil del: upt_Suc)

definition domains_ok :: "string entries \<Rightarrow> bool" where
  "domains_ok es \<longleftrightarrow> (\<forall>e \<in> set es. domain_ok (fst e))"

lemma DomainGroup_Match_set:
  assumes "domains_ok es"
  shows "set (DomainGroup_Match (build_group DomainGroup_Add NewDomainMatcherGroup es) s) =
    {v. \<exists>p. (p, v) \<in> set es \<and> domain_match p s}"
proof -
  have "domain_match p s \<longleftrightarrow> (\<exists>d. 1 \<le> d \<and> d \<le> length (domain_labels s) \<and> domain_labels p = take d (domain_labels s))"
    if "(p, v) \<in> set es" for p v
  proof -
    have ok: "domain_ok p" using assms that by (force simp: domains_ok_def)
    then have "1 \<le> length (domain_labels p)" by (cases "domain_labels p") (auto simp: domain_ok_def)
    then show ?thesis unfolding domain_match_labels [OF ok]
      by (metis append_eq_conv_conj length_take min.absorb2 prefix_def prefix_length_le take_is_prefix)
  qed
  then show ?thesis
    unfolding DomainGroup_Match_priority by (force simp del: upt_Suc)
qed

interpretation domain_group: matcher_group "\<lambda>p. mMatch (DomainMatcher p)" domains_ok "\<lambda>s. True"
  NewDomainMatcherGroup DomainGroup_Add "\<lambda>g s. Some (DomainGroup_Match g s)" DomainGroup_MatchAny
proof
  fix es s assume es: "domains_ok es"
  let ?g = "build_group DomainGroup_Add NewDomainMatcherGroup es"
  show "\<exists>vs. Some (DomainGroup_Match ?g s) = Some vs \<and>
      set vs = {v. \<exists>p. (p, v) \<in> set es \<and> mMatch (DomainMatcher p) s}"
    using DomainGroup_Match_set [OF es, of s] by simp
  have "DomainGroup_MatchAny ?g s \<longleftrightarrow> DomainGroup_Match ?g s \<noteq> []"
    unfolding DomainGroup_MatchAny_def DomainGroup_Match_def trie_any_matches strm trie_matches_vals
    by (auto simp: filter_empty_conv simp del: upt_Suc)
  then show "DomainGroup_MatchAny ?g s \<longleftrightarrow> (\<exists>(p, v) \<in> set es. mMatch (DomainMatcher p) s)"
    using DomainGroup_Match_set [OF es, of s] by (auto simp flip: set_empty)
qed

section \<open>SimpleMatcherGroup\<close>

type_synonym SimpleMatcherGroup = "(Matcher \<times> u32) list"

definition SimpleGroup_Add :: "Matcher \<Rightarrow> u32 \<Rightarrow> SimpleMatcherGroup \<Rightarrow> SimpleMatcherGroup" where
  "SimpleGroup_Add m v g = g @ [(m, v)]"

fun SimpleGroup_Match :: "SimpleMatcherGroup \<Rightarrow> string \<Rightarrow> u32 list" where
  "SimpleGroup_Match [] input = []"
| "SimpleGroup_Match ((m, v) # es) input =
     (if mMatch m input then v # SimpleGroup_Match es input else SimpleGroup_Match es input)"

fun SimpleGroup_MatchAny :: "SimpleMatcherGroup \<Rightarrow> string \<Rightarrow> bool" where
  "SimpleGroup_MatchAny [] input = False"
| "SimpleGroup_MatchAny ((m, v) # es) input =
     (if mMatch m input then True else SimpleGroup_MatchAny es input)"

lemma SimpleGroup_build: "build_group SimpleGroup_Add g es = g @ es"
proof (induction es rule: rev_induct)
  case (snoc e es)
  then show ?case by (cases e) (simp add: build_group_snoc SimpleGroup_Add_def)
qed simp

lemma SimpleGroup_Match_eq [strm]:
  "SimpleGroup_Match es s = map snd (filter (\<lambda>e. mMatch (fst e) s) es)"
  by (induction es s rule: SimpleGroup_Match.induct) auto

lemma SimpleGroup_MatchAny_iff [strm]: "SimpleGroup_MatchAny es s \<longleftrightarrow> (\<exists>(m, v) \<in> set es. mMatch m s)"
  by (induction es s rule: SimpleGroup_MatchAny.induct) auto

interpretation simple_group: matcher_group mMatch "\<lambda>es. True" "\<lambda>s. True" "[]" SimpleGroup_Add
  "\<lambda>g s. Some (SimpleGroup_Match g s)" SimpleGroup_MatchAny
  by unfold_locales (force simp: SimpleGroup_build strm)+

section \<open>SubstrMatcherGroup\<close>

record SubstrMatcherGroup =
  sg_patterns :: "string list"
  sg_values :: "u32 list"

definition empty_substr_group :: SubstrMatcherGroup where
  "empty_substr_group = \<lparr>sg_patterns = [], sg_values = []\<rparr>"

definition SubstrGroup_Add :: "string \<Rightarrow> u32 \<Rightarrow> SubstrMatcherGroup \<Rightarrow> SubstrMatcherGroup" where
  "SubstrGroup_Add p v g = g\<lparr>sg_patterns := sg_patterns g @ [p], sg_values := sg_values g @ [v]\<rparr>"

text \<open>The inner loop of \<open>Match\<close>: the positions of a pattern, from the right, each in what stands
  before the previous one. It does not end for the empty pattern.\<close>

partial_function (option) substr_hits :: "string \<Rightarrow> string \<Rightarrow> nat list option" where
  "substr_hits input p =
     (case LastIndex input p of
        None \<Rightarrow> Some []
      | Some j \<Rightarrow> do { js \<leftarrow> substr_hits (take j input) p; Some (j # js) })"

text \<open>The position in the higher 16 bits, the index of the pattern in the lower 16 bits.\<close>

definition pack :: "nat \<Rightarrow> nat \<Rightarrow> u32" where
  "pack i j = push_bit 16 (of_nat j) OR (of_nat i AND 0xffff)"

fun substr_scan :: "string \<Rightarrow> nat \<Rightarrow> string list \<Rightarrow> u32 list option" where
  "substr_scan input i [] = Some []"
| "substr_scan input i (p # ps) =
     (case substr_hits input p of
        None \<Rightarrow> None
      | Some js \<Rightarrow> map_option (\<lambda>r. map (pack i) js @ r) (substr_scan input (Suc i) ps))"

definition sort_results :: "u32 list \<Rightarrow> u32 list" where
  "sort_results r =
     (case r of [] \<Rightarrow> [] | [x] \<Rightarrow> [x] | [x, y] \<Rightarrow> if y < x then [y, x] else [x, y] | _ \<Rightarrow> sort r)"

definition SubstrGroup_Match :: "SubstrMatcherGroup \<Rightarrow> string \<Rightarrow> u32 list option" where
  "SubstrGroup_Match g input =
     map_option (\<lambda>r. map (\<lambda>e. sg_values g ! unat (e AND 0xffff)) (sort_results r))
       (substr_scan input 0 (sg_patterns g))"

fun substr_any :: "string list \<Rightarrow> string \<Rightarrow> bool" where
  "substr_any [] input = False"
| "substr_any (p # ps) input = (if Contains input p then True else substr_any ps input)"

definition SubstrGroup_MatchAny :: "SubstrMatcherGroup \<Rightarrow> string \<Rightarrow> bool" where
  "SubstrGroup_MatchAny g input = substr_any (sg_patterns g) input"

lemma sort_results_sort: "sort_results r = sort r"
  by (auto simp: sort_results_def split: list.split)

lemma LastIndex_less: "LastIndex s p = Some j \<Longrightarrow> p \<noteq> [] \<Longrightarrow> j < length s"
  by (cases "j = length s") (auto simp: LastIndex_Some)

text \<open>The loop ends for a pattern that is not empty, and finds something exactly when the input
  contains the pattern; for the empty pattern it does not end.\<close>

lemma substr_hits_total:
  assumes "p \<noteq> []"
  shows "\<exists>js. substr_hits s p = Some js \<and> (js \<noteq> [] \<longleftrightarrow> sublist p s) \<and> (\<forall>j \<in> set js. j < length s)"
proof (induction "length s" arbitrary: s rule: less_induct)
  case less
  show ?case
  proof (cases "LastIndex s p")
    case None
    then have "\<not> sublist p s" by (simp add: LastIndex_None sublist_iff_drop)
    with None show ?thesis by (subst substr_hits.simps) auto
  next
    case (Some j)
    with assms have j: "j < length s" by (rule_tac LastIndex_less)
    with less [of "take j s"] obtain js where js: "substr_hits (take j s) p = Some js"
      "\<forall>i \<in> set js. i < length (take j s)" by auto
    have "sublist p s" using Some by (auto simp: LastIndex_Some sublist_iff_drop)
    with Some js j show ?thesis by (subst substr_hits.simps) auto
  qed
qed

lemma substr_hits_empty: "substr_hits s [] = None"
proof -
  have False if "substr_hits s p = Some r" "p = []" for s p r
    using that(2)
  proof (induction rule: substr_hits.raw_induct [OF _ that(1)])
    case (1 f s p r)
    from 1(2,3) obtain x where "f s [] = Some x" by (auto simp: LastIndex_empty split: bind_splits)
    then show ?case using 1(1) [of s "[]" x] by simp
  qed
  then show ?thesis by (cases "substr_hits s []") auto
qed

lemma unat_pack:
  assumes "i < 65536" "j < 65536"
  shows "unat (pack i j) = j * 65536 + i" and "unat (pack i j AND 0xffff) = i"
proof -
  have t: "take_bit 16 (of_nat i :: u32) = of_nat i"
    using assms(1) by (simp add: take_bit_of_nat take_bit_nat_eq_self)
  have i: "of_nat i AND (0xffff :: u32) = of_nat i"
    using t take_bit_eq_mask [of 16 "of_nat i :: u32"] by (simp add: mask_eq_exp_minus_1)
  have "pack i j = push_bit 16 (of_nat j) + of_nat i"
  proof -
    have "push_bit 16 (of_nat j :: u32) AND of_nat i = 0"
    proof (rule bit_word_eqI)
      fix n assume "n < LENGTH(32)"
      have "\<not> bit (of_nat i :: u32) n" if "16 \<le> n"
        using bit_take_bit_iff [of 16 "of_nat i :: u32" n] that unfolding t by simp
      then show "bit (push_bit 16 (of_nat j :: u32) AND of_nat i) n = bit 0 n"
        by (auto simp: bit_simps)
    qed
    then show ?thesis by (simp add: pack_def i disjunctive_add_eq_or)
  qed
  also have "\<dots> = of_nat (j * 65536 + i)" by (simp add: push_bit_eq_mult)
  finally have p: "pack i j = of_nat (j * 65536 + i)" .
  have b: "j * 65536 + i < 2 ^ 32" using assms by simp
  show u: "unat (pack i j) = j * 65536 + i" unfolding p unat_of_nat using b by simp
  have "unat (pack i j AND 0xffff) = unat (pack i j) mod 65536"
  proof -
    have "pack i j AND 0xffff = take_bit 16 (pack i j)"
      using take_bit_eq_mask [of 16 "pack i j"] by (simp add: mask_eq_exp_minus_1)
    then have "unat (pack i j AND 0xffff) = take_bit 16 (unat (pack i j))"
      by (simp only: unsigned_take_bit_eq)
    then show ?thesis by (simp add: take_bit_eq_mod)
  qed
  then show "unat (pack i j AND 0xffff) = i" using u assms by simp
qed

text \<open>What the group is to return: the values of the occurrences \<open>(position, pattern index)\<close> in
  lexicographic order.\<close>

fun substr_pairs :: "string \<Rightarrow> nat \<Rightarrow> string list \<Rightarrow> (nat \<times> nat) list" where
  "substr_pairs input i [] = []"
| "substr_pairs input i (p # ps) =
     map (\<lambda>j. (j, i)) (the (substr_hits input p)) @ substr_pairs input (Suc i) ps"

lemma substr_scan_pairs:
  "\<forall>p \<in> set ps. p \<noteq> [] \<Longrightarrow>
   substr_scan s i ps = Some (map (\<lambda>(j, i). pack i j) (substr_pairs s i ps)) \<and>
   (\<forall>(j, k) \<in> set (substr_pairs s i ps). j < length s \<and> i \<le> k \<and> k < i + length ps)"
proof (induction s i ps rule: substr_scan.induct)
  case (2 s i p ps)
  obtain js where js: "substr_hits s p = Some js" "\<forall>j \<in> set js. j < length s"
    using substr_hits_total [of p s] 2(2) by auto
  from 2 js show ?case by (fastforce simp: comp_def)
qed simp

lemma substr_pairs_set:
  assumes "\<forall>p \<in> set ps. p \<noteq> []"
  shows "(\<exists>j. (j, k) \<in> set (substr_pairs s i ps)) \<longleftrightarrow> (i \<le> k \<and> k < i + length ps \<and> sublist (ps ! (k - i)) s)"
  using assms
proof (induction s i ps rule: substr_pairs.induct)
  case (2 s i p ps)
  obtain js where js: "substr_hits s p = Some js" "js \<noteq> [] \<longleftrightarrow> sublist p s"
    using substr_hits_total [of p s] 2(2) by auto
  have "k - i = Suc (k - Suc i)" if "i < k" using that by simp
  with 2 js show ?case
    by (cases "k = i"; cases js) (auto simp: Suc_le_eq nth_Cons')
qed simp

lemma sort_map_mono:
  assumes "\<And>x y. x \<in> set xs \<Longrightarrow> y \<in> set xs \<Longrightarrow> x \<le> y \<Longrightarrow> f x \<le> f y"
  shows "sort (map f xs) = map f (sort xs)"
proof (rule properties_for_sort)
  show "mset (map f (sort xs)) = mset (map f xs)" by simp
  show "sorted (map f (sort xs))"
    unfolding sorted_map
    by (rule sorted_wrt_mono_rel [OF _ sorted_sort]) (simp add: assms)
qed

definition substr_admissible :: "string entries \<Rightarrow> bool" where
  "substr_admissible es \<longleftrightarrow> length es \<le> 65536 \<and> (\<forall>e \<in> set es. fst e \<noteq> [])"

definition short_input :: "string \<Rightarrow> bool" where
  "short_input s \<longleftrightarrow> length s \<le> 65536"

lemma SubstrGroup_build:
  "sg_patterns (build_group SubstrGroup_Add g es) = sg_patterns g @ map fst es"
  "sg_values (build_group SubstrGroup_Add g es) = sg_values g @ map snd es"
  by (induction es arbitrary: g) (auto simp: build_group_def SubstrGroup_Add_def)

lemma SubstrGroup_Match_sorted:
  assumes "substr_admissible es" "short_input s"
  shows "SubstrGroup_Match (build_group SubstrGroup_Add empty_substr_group es) s =
    Some (map (\<lambda>(j, i). snd (es ! i)) (sort (substr_pairs s 0 (map fst es))))"
proof -
  let ?ps = "substr_pairs s 0 (map fst es)"
  have ne: "\<forall>p \<in> set (map fst es). p \<noteq> []" using assms by (auto simp: substr_admissible_def)
  note sc = substr_scan_pairs [OF ne, of s 0]
  have b: "j < 65536" "i < 65536" "i < length es" if "(j, i) \<in> set ?ps" for j i
  proof -
    have "j < length s \<and> i < length es" using sc that by fastforce
    then show "j < 65536" "i < 65536" "i < length es"
      using assms by (auto simp: substr_admissible_def short_input_def)
  qed
  have "(\<lambda>(j, i). pack i j) x \<le> (\<lambda>(j, i). pack i j) y"
    if "x \<in> set ?ps" "y \<in> set ?ps" "x \<le> y" for x y
  proof -
    obtain j i j' i' where x: "x = (j, i)" and y: "y = (j', i')" by fastforce
    have "j * 65536 + i \<le> j' * 65536 + i'"
      using b that by (fastforce simp: x y less_eq_prod_def)
    then show ?thesis using b that by (simp add: x y word_le_nat_alt unat_pack)
  qed
  then have "sort (map (\<lambda>(j, i). pack i j) ?ps) = map (\<lambda>(j, i). pack i j) (sort ?ps)"
    by (rule sort_map_mono)
  with sc have "SubstrGroup_Match (build_group SubstrGroup_Add empty_substr_group es) s =
      Some (map (\<lambda>x. map snd es ! unat ((\<lambda>(j, i). pack i j) x AND 0xffff)) (sort ?ps))"
    by (simp add: SubstrGroup_Match_def SubstrGroup_build empty_substr_group_def sort_results_sort comp_def)
  also have "\<dots> = Some (map (\<lambda>(j, i). snd (es ! i)) (sort ?ps))"
    using b by (auto simp: unat_pack intro!: map_cong)
  finally show ?thesis .
qed

lemma substr_any_iff [strm]: "substr_any ps s \<longleftrightarrow> (\<exists>p \<in> set ps. Contains s p)"
  by (induction ps) auto

interpretation substr_group: matcher_group "\<lambda>p. mMatch (SubstrMatcher p)" substr_admissible short_input
  empty_substr_group SubstrGroup_Add SubstrGroup_Match SubstrGroup_MatchAny
proof
  fix es s
  assume es: "substr_admissible es"
  show "SubstrGroup_MatchAny (build_group SubstrGroup_Add empty_substr_group es) s \<longleftrightarrow>
      (\<exists>(p, v) \<in> set es. mMatch (SubstrMatcher p) s)"
    by (force simp: SubstrGroup_MatchAny_def SubstrGroup_build strm empty_substr_group_def)
  assume s: "short_input s"
  have ne: "\<forall>p \<in> set (map fst es). p \<noteq> []" using es by (auto simp: substr_admissible_def)
  have "set (map (\<lambda>(j, i). snd (es ! i)) (sort (substr_pairs s 0 (map fst es)))) =
      {v. \<exists>i < length es. sublist (fst (es ! i)) s \<and> v = snd (es ! i)}"
  proof -
    have "(\<exists>j. (j, i) \<in> set (substr_pairs s 0 (map fst es))) \<longleftrightarrow> i < length es \<and> sublist (fst (es ! i)) s" for i
      using substr_pairs_set [OF ne, of i s 0] by auto
    then show ?thesis by (simp add: set_eq_iff image_iff split_def Bex_def) blast
  qed
  also have "\<dots> = {v. \<exists>p. (p, v) \<in> set es \<and> mMatch (SubstrMatcher p) s}"
  proof -
    have "(p, v) \<in> set es \<longleftrightarrow> (\<exists>i < length es. p = fst (es ! i) \<and> v = snd (es ! i))" for p v
      by (auto simp: in_set_conv_nth prod_eq_iff)
    then show ?thesis by (auto simp: Contains_def)
  qed
  finally show "\<exists>vs. SubstrGroup_Match (build_group SubstrGroup_Add empty_substr_group es) s = Some vs \<and>
      set vs = {v. \<exists>p. (p, v) \<in> set es \<and> mMatch (SubstrMatcher p) s}"
    using SubstrGroup_Match_sorted [OF es s] by blast
qed

end
