(* ===== verification/LinearMatchers.thy ===== *)
theory LinearMatchers
  imports MatcherGroups
begin

text \<open>
  \<open>valuematcher_linear.go\<close> and \<open>indexmatcher_linear.go\<close> of \<open>common/geodata/strmatcher\<close>: one group per
  type of matcher, created when the first matcher of the type is added. The matcher over all
  types keeps the contract \<open>matcher_group\<close> of its groups.
\<close>

section \<open>LinearValueMatcher\<close>

record LinearValueMatcher =
  lv_full :: "FullMatcherGroup option"
  lv_domain :: "trieNode option"
  lv_substr :: "SubstrMatcherGroup option"
  lv_regex :: "SimpleMatcherGroup option"

definition NewLinearValueMatcher :: LinearValueMatcher where
  "NewLinearValueMatcher = \<lparr>lv_full = None, lv_domain = None, lv_substr = None, lv_regex = None\<rparr>"

fun LinearValue_Add :: "Matcher \<Rightarrow> u32 \<Rightarrow> 'a LinearValueMatcher_scheme \<Rightarrow> 'a LinearValueMatcher_scheme" where
  "LinearValue_Add (FullMatcher p) v g =
     g\<lparr>lv_full := Some (FullGroup_Add p v (or_new NewFullMatcherGroup (lv_full g)))\<rparr>"
| "LinearValue_Add (DomainMatcher p) v g =
     g\<lparr>lv_domain := Some (DomainGroup_Add p v (or_new NewDomainMatcherGroup (lv_domain g)))\<rparr>"
| "LinearValue_Add (SubstrMatcher p) v g =
     g\<lparr>lv_substr := Some (SubstrGroup_Add p v (or_new empty_substr_group (lv_substr g)))\<rparr>"
| "LinearValue_Add m v g = g\<lparr>lv_regex := Some (SimpleGroup_Add m v (or_new [] (lv_regex g)))\<rparr>"

definition opt_values :: "('g \<Rightarrow> string \<Rightarrow> u32 list option) \<Rightarrow> 'g option \<Rightarrow> string \<Rightarrow> u32 list option" where
  "opt_values f o1 input = (case o1 of None \<Rightarrow> Some [] | Some g \<Rightarrow> f g input)"

definition LinearValue_Match :: "'a LinearValueMatcher_scheme \<Rightarrow> string \<Rightarrow> u32 list option" where
  "LinearValue_Match g input = do {
     f \<leftarrow> opt_values (\<lambda>g s. Some (FullGroup_Match g s)) (lv_full g) input;
     d \<leftarrow> opt_values (\<lambda>g s. Some (DomainGroup_Match g s)) (lv_domain g) input;
     s \<leftarrow> opt_values SubstrGroup_Match (lv_substr g) input;
     r \<leftarrow> opt_values (\<lambda>g s. Some (SimpleGroup_Match g s)) (lv_regex g) input;
     Some (CompositeMatches (filter (\<lambda>m. m \<noteq> []) [f, d, s, r]))
   }"

definition LinearValue_MatchAny :: "'a LinearValueMatcher_scheme \<Rightarrow> string \<Rightarrow> bool" where
  "LinearValue_MatchAny g input =
     (if opt_any FullGroup_MatchAny (lv_full g) input then True
      else if opt_any DomainGroup_MatchAny (lv_domain g) input then True
      else if opt_any SubstrGroup_MatchAny (lv_substr g) input then True
      else opt_any SimpleGroup_MatchAny (lv_regex g) input)"

section \<open>LinearIndexMatcher\<close>

record LinearIndexMatcher = LinearValueMatcher +
  li_count :: u32

definition NewLinearIndexMatcher :: LinearIndexMatcher where
  "NewLinearIndexMatcher =
     \<lparr>lv_full = None, lv_domain = None, lv_substr = None, lv_regex = None, li_count = 0\<rparr>"

definition LinearIndex_Add :: "Matcher \<Rightarrow> LinearIndexMatcher \<Rightarrow> u32 \<times> LinearIndexMatcher" where
  "LinearIndex_Add m g =
     (let g' = g\<lparr>li_count := li_count g + 1\<rparr>; index = li_count g'
      in (index, LinearValue_Add m index g'))"

definition LinearIndex_Match :: "LinearIndexMatcher \<Rightarrow> string \<Rightarrow> u32 list option" where
  "LinearIndex_Match g input = LinearValue_Match g input"

definition LinearIndex_MatchAny :: "LinearIndexMatcher \<Rightarrow> string \<Rightarrow> bool" where
  "LinearIndex_MatchAny g input = LinearValue_MatchAny g input"

section \<open>The entries of each type\<close>

definition fulls :: "Matcher entries \<Rightarrow> string entries" where
  "fulls es = List.map_filter (\<lambda>(m, v). case m of FullMatcher p \<Rightarrow> Some (p, v) | _ \<Rightarrow> None) es"

definition doms :: "Matcher entries \<Rightarrow> string entries" where
  "doms es = List.map_filter (\<lambda>(m, v). case m of DomainMatcher p \<Rightarrow> Some (p, v) | _ \<Rightarrow> None) es"

definition substrs :: "Matcher entries \<Rightarrow> string entries" where
  "substrs es = List.map_filter (\<lambda>(m, v). case m of SubstrMatcher p \<Rightarrow> Some (p, v) | _ \<Rightarrow> None) es"

definition regexes :: "Matcher entries \<Rightarrow> Matcher entries" where
  "regexes es = filter (\<lambda>(m, v). case m of RegexMatcher p re ls \<Rightarrow> True | _ \<Rightarrow> False) es"

definition linear_admissible :: "Matcher entries \<Rightarrow> bool" where
  "linear_admissible es \<longleftrightarrow> domains_ok (doms es) \<and> substr_admissible (substrs es)"

definition group_of :: "('p \<Rightarrow> u32 \<Rightarrow> 'g \<Rightarrow> 'g) \<Rightarrow> 'g \<Rightarrow> 'p entries \<Rightarrow> 'g option" where
  "group_of add g es = (if es = [] then None else Some (build_group add g es))"

lemma group_of_snoc: "group_of add g (es @ [(p, v)]) = Some (add p v (or_new g (group_of add g es)))"
  by (auto simp: group_of_def build_group_snoc or_new_def)

lemmas kinds = fulls_def doms_def substrs_def regexes_def

lemma kinds_snoc:
  "fulls (es @ [e]) = fulls es @ fulls [e]" "doms (es @ [e]) = doms es @ doms [e]"
  "substrs (es @ [e]) = substrs es @ substrs [e]" "regexes (es @ [e]) = regexes es @ regexes [e]"
  by (simp_all add: kinds map_filter_def)

lemma kinds_one:
  "fulls [(m, v)] = (case m of FullMatcher p \<Rightarrow> [(p, v)] | _ \<Rightarrow> [])"
  "doms [(m, v)] = (case m of DomainMatcher p \<Rightarrow> [(p, v)] | _ \<Rightarrow> [])"
  "substrs [(m, v)] = (case m of SubstrMatcher p \<Rightarrow> [(p, v)] | _ \<Rightarrow> [])"
  "regexes [(m, v)] = (case m of RegexMatcher p re ls \<Rightarrow> [(m, v)] | _ \<Rightarrow> [])"
  by (cases m; simp add: kinds map_filter_def)+

lemma LinearValue_build:
  fixes g :: "'a LinearValueMatcher_scheme"
  assumes "lv_full g = None" "lv_domain g = None" "lv_substr g = None" "lv_regex g = None"
  shows "lv_full (build_group LinearValue_Add g es) = group_of FullGroup_Add NewFullMatcherGroup (fulls es) \<and>
    lv_domain (build_group LinearValue_Add g es) = group_of DomainGroup_Add NewDomainMatcherGroup (doms es) \<and>
    lv_substr (build_group LinearValue_Add g es) = group_of SubstrGroup_Add empty_substr_group (substrs es) \<and>
    lv_regex (build_group LinearValue_Add g es) = group_of SimpleGroup_Add [] (regexes es)"
proof (induction es rule: rev_induct)
  case Nil
  then show ?case using assms by (simp add: kinds group_of_def map_filter_def)
next
  case (snoc e es)
  obtain m v where e: "e = (m, v)" by (cases e)
  show ?case
    using snoc by (cases m) (simp_all add: e kinds_snoc kinds_one build_group_snoc group_of_snoc)
qed

context matcher_group
begin

lemma opt_values_group:
  assumes "admissible es" "fits s"
  shows "\<exists>vs. opt_values vals (group_of add empty es) s = Some vs \<and> set vs = {v. \<exists>p. (p, v) \<in> set es \<and> m p s}"
  using match_values [OF assms] by (auto simp: opt_values_def group_of_def)

lemma opt_any_group:
  assumes "admissible es"
  shows "opt_any any (group_of add empty es) s \<longleftrightarrow> (\<exists>(p, v) \<in> set es. m p s)"
  using any_entry [OF assms] by (auto simp: opt_any_def group_of_def)

end

lemma kinds_set:
  "(p, v) \<in> set (fulls es) \<longleftrightarrow> (FullMatcher p, v) \<in> set es"
  "(p, v) \<in> set (doms es) \<longleftrightarrow> (DomainMatcher p, v) \<in> set es"
  "(p, v) \<in> set (substrs es) \<longleftrightarrow> (SubstrMatcher p, v) \<in> set es"
  "(m, v) \<in> set (regexes es) \<longleftrightarrow> (m, v) \<in> set es \<and> (\<exists>p re ls. m = RegexMatcher p re ls)"
  by (force simp: kinds map_filter_def split: Matcher.splits)+

lemma kinds_match:
  "(\<exists>m. (m, v) \<in> set es \<and> mMatch m s) \<longleftrightarrow>
    (\<exists>p. (p, v) \<in> set (fulls es) \<and> mMatch (FullMatcher p) s) \<or>
    (\<exists>p. (p, v) \<in> set (doms es) \<and> mMatch (DomainMatcher p) s) \<or>
    (\<exists>p. (p, v) \<in> set (substrs es) \<and> mMatch (SubstrMatcher p) s) \<or>
    (\<exists>m. (m, v) \<in> set (regexes es) \<and> mMatch m s)"
  unfolding kinds_set by (metis Matcher.exhaust)

lemma kinds_any:
  "(\<exists>(m, v) \<in> set es. mMatch m s) \<longleftrightarrow>
    (\<exists>(p, v) \<in> set (fulls es). mMatch (FullMatcher p) s) \<or>
    (\<exists>(p, v) \<in> set (doms es). mMatch (DomainMatcher p) s) \<or>
    (\<exists>(p, v) \<in> set (substrs es). mMatch (SubstrMatcher p) s) \<or>
    (\<exists>(m, v) \<in> set (regexes es). mMatch m s)"
  using kinds_match [of _ es s] by (simp only: Bex_def split_paired_Ex prod.case) metis

lemma LinearValue_Match_spec:
  fixes g :: "'a LinearValueMatcher_scheme"
  assumes g: "lv_full g = None" "lv_domain g = None" "lv_substr g = None" "lv_regex g = None"
    and es: "linear_admissible es"
  shows "short_input s \<Longrightarrow> \<exists>vs. LinearValue_Match (build_group LinearValue_Add g es) s = Some vs \<and>
      set vs = {v. \<exists>m. (m, v) \<in> set es \<and> mMatch m s}"
    and "LinearValue_MatchAny (build_group LinearValue_Add g es) s \<longleftrightarrow> (\<exists>(m, v) \<in> set es. mMatch m s)"
proof -
  note b = LinearValue_build [OF g, of es]
  have d: "domains_ok (doms es)" and u: "substr_admissible (substrs es)"
    using es by (auto simp: linear_admissible_def)
  show "LinearValue_MatchAny (build_group LinearValue_Add g es) s \<longleftrightarrow> (\<exists>(m, v) \<in> set es. mMatch m s)"
    unfolding LinearValue_MatchAny_def if_bool_eq_disj
    by (subst kinds_any, simp only: b full_group.opt_any_group [OF TrueI] domain_group.opt_any_group [OF d]
        substr_group.opt_any_group [OF u] simple_group.opt_any_group [OF TrueI]) blast
  assume s: "short_input s"
  show "\<exists>vs. LinearValue_Match (build_group LinearValue_Add g es) s = Some vs \<and>
      set vs = {v. \<exists>m. (m, v) \<in> set es \<and> mMatch m s}"
  proof -
    obtain f where f: "opt_values (\<lambda>g s. Some (FullGroup_Match g s)) (group_of FullGroup_Add NewFullMatcherGroup (fulls es)) s = Some f"
      "set f = {v. \<exists>p. (p, v) \<in> set (fulls es) \<and> mMatch (FullMatcher p) s}"
      using full_group.opt_values_group [OF TrueI TrueI] by blast
    obtain d' where d': "opt_values (\<lambda>g s. Some (DomainGroup_Match g s)) (group_of DomainGroup_Add NewDomainMatcherGroup (doms es)) s = Some d'"
      "set d' = {v. \<exists>p. (p, v) \<in> set (doms es) \<and> mMatch (DomainMatcher p) s}"
      using domain_group.opt_values_group [OF d TrueI] by blast
    obtain u' where u': "opt_values SubstrGroup_Match (group_of SubstrGroup_Add empty_substr_group (substrs es)) s = Some u'"
      "set u' = {v. \<exists>p. (p, v) \<in> set (substrs es) \<and> mMatch (SubstrMatcher p) s}"
      using substr_group.opt_values_group [OF u s] by blast
    obtain r where r: "opt_values (\<lambda>g s. Some (SimpleGroup_Match g s)) (group_of SimpleGroup_Add [] (regexes es)) s = Some r"
      "set r = {v. \<exists>m. (m, v) \<in> set (regexes es) \<and> mMatch m s}"
      using simple_group.opt_values_group [OF TrueI TrueI] by blast
    have "LinearValue_Match (build_group LinearValue_Add g es) s = Some (f @ d' @ u' @ r)"
      by (simp add: LinearValue_Match_def b f(1) d'(1) u'(1) r(1) CompositeMatches_concat)
    moreover have "set (f @ d' @ u' @ r) = {v. \<exists>m. (m, v) \<in> set es \<and> mMatch m s}"
      unfolding set_append f(2) d'(2) u'(2) r(2) using kinds_match [of _ es s] by blast
    ultimately show ?thesis by blast
  qed
qed

interpretation linear_value: matcher_group mMatch linear_admissible short_input NewLinearValueMatcher
  LinearValue_Add LinearValue_Match LinearValue_MatchAny
  using LinearValue_Match_spec [of NewLinearValueMatcher]
  by unfold_locales (simp_all add: NewLinearValueMatcher_def)

section \<open>Indices\<close>

text \<open>Adding matchers one after the other; the indices \<open>Add\<close> returns are counted from one.\<close>

definition index_build :: "Matcher list \<Rightarrow> LinearIndexMatcher" where
  "index_build ms = fold (\<lambda>m g. snd (LinearIndex_Add m g)) ms NewLinearIndexMatcher"

definition indexed :: "Matcher list \<Rightarrow> Matcher entries" where
  "indexed ms = map (\<lambda>i. (ms ! i, of_nat (Suc i))) [0..<length ms]"

lemma li_count_Add [simp]: "li_count (LinearValue_Add m v g) = li_count g"
  by (cases m) auto

lemma LinearValue_Add_count:
  "LinearValue_Add m v (g\<lparr>li_count := c\<rparr>) = (LinearValue_Add m v g)\<lparr>li_count := c\<rparr>"
  by (cases m) auto

lemma indexed_snoc: "indexed (ms @ [m]) = indexed ms @ [(m, of_nat (Suc (length ms)))]"
  by (simp add: indexed_def nth_append)

lemma index_build_eq:
  "index_build ms = (build_group LinearValue_Add NewLinearIndexMatcher (indexed ms))\<lparr>li_count := of_nat (length ms)\<rparr>"
proof (induction ms rule: rev_induct)
  case Nil
  then show ?case by (simp add: index_build_def indexed_def NewLinearIndexMatcher_def)
next
  case (snoc m ms)
  have "index_build (ms @ [m]) = snd (LinearIndex_Add m (index_build ms))"
    by (simp add: index_build_def)
  with snoc show ?case
    by (simp add: LinearIndex_Add_def Let_def indexed_snoc build_group_snoc LinearValue_Add_count add.commute)
qed

lemma index_Match_count [simp]:
  "LinearIndex_Match (g\<lparr>li_count := c\<rparr>) s = LinearValue_Match g s"
  "LinearIndex_MatchAny (g\<lparr>li_count := c\<rparr>) s = LinearValue_MatchAny g s"
  by (simp_all add: LinearIndex_Match_def LinearIndex_MatchAny_def LinearValue_Match_def LinearValue_MatchAny_def)

lemma indexed_set: "(m, v) \<in> set (indexed ms) \<longleftrightarrow> (\<exists>i < length ms. m = ms ! i \<and> v = of_nat (Suc i))"
  by (auto simp: indexed_def)

lemma index_Match_spec:
  assumes "linear_admissible (indexed ms)"
  shows "short_input s \<Longrightarrow> \<exists>vs. LinearIndex_Match (index_build ms) s = Some vs \<and>
      set vs = {of_nat (Suc i) | i. i < length ms \<and> mMatch (ms ! i) s}"
    and "LinearIndex_MatchAny (index_build ms) s \<longleftrightarrow> (\<exists>m \<in> set ms. mMatch m s)"
proof -
  have n: "lv_full NewLinearIndexMatcher = None" "lv_domain NewLinearIndexMatcher = None"
    "lv_substr NewLinearIndexMatcher = None" "lv_regex NewLinearIndexMatcher = None"
    by (simp_all add: NewLinearIndexMatcher_def)
  note spec = LinearValue_Match_spec [OF n assms, of s]
  have eq: "{v. \<exists>m. (m, v) \<in> set (indexed ms) \<and> mMatch m s} = {of_nat (Suc i) | i. i < length ms \<and> mMatch (ms ! i) s}"
    by (auto simp: indexed_set)
  show "short_input s \<Longrightarrow> \<exists>vs. LinearIndex_Match (index_build ms) s = Some vs \<and>
      set vs = {of_nat (Suc i) | i. i < length ms \<and> mMatch (ms ! i) s}"
    using spec(1) unfolding index_build_eq index_Match_count eq .
  show "LinearIndex_MatchAny (index_build ms) s \<longleftrightarrow> (\<exists>m \<in> set ms. mMatch m s)"
    unfolding index_build_eq index_Match_count spec(2)
    by (simp add: Bex_def indexed_set) (metis in_set_conv_nth)
qed

end
