(* ===== verification/MphGroup.thy ===== *)
theory MphGroup
  imports LinearMatchers
begin

text \<open>
  \<open>matchergroup_mph.go\<close> of \<open>common/geodata/strmatcher\<close>: full and domain patterns in a minimal perfect
  hash table found by hash, displace and compress. \<open>MemHash\<close> is the hash function of the Go runtime
  and a parameter \<open>mh\<close>. The search for a seed runs until the bucket is placed, so \<open>Build\<close> is a
  partial function. \<open>ord\<close> is the order in which equal-sized buckets come out of the sort.
\<close>

section \<open>Adding patterns\<close>

definition PrimeRK :: u32 where
  "PrimeRK = 16777619"

definition hash_step :: "char \<Rightarrow> u32 \<Rightarrow> u32" where
  "hash_step c hash = hash * PrimeRK + of_nat (of_char c)"

definition RollingHash :: "u32 \<Rightarrow> string \<Rightarrow> u32" where
  "RollingHash hash input = foldr hash_step input hash"

record mphRuleInfo =
  rollingHash :: u32
  fullMatchers :: "u32 list"
  domainMatchers :: "u32 list"

record MphMatcherGroup =
  mrules :: "string list"
  mvalues :: "u32 list list"
  level0 :: "u32 list"
  level0Mask :: u32
  level1 :: "u32 list"
  level1Mask :: u32
  ruleInfos :: "(string, mphRuleInfo) go_map"

definition NewMphMatcherGroup :: MphMatcherGroup where
  "NewMphMatcherGroup =
     \<lparr>mrules = [[]], mvalues = [[]], level0 = [], level0Mask = 0, level1 = [], level1Mask = 0,
      ruleInfos = []\<rparr>"

definition addPattern :: "u32 \<Rightarrow> string \<Rightarrow> string \<Rightarrow> mtype \<Rightarrow> u32 \<Rightarrow> MphMatcherGroup \<Rightarrow> u32 \<times> MphMatcherGroup"
where
  "addPattern suffixHash suffixPattern pattern t v g =
     (let fullPattern = pattern @ suffixPattern;
          found = al_get (ruleInfos g) fullPattern;
          info = (case found of Some i \<Rightarrow> i
                  | None \<Rightarrow> \<lparr>rollingHash = RollingHash suffixHash pattern, fullMatchers = [],
                             domainMatchers = []\<rparr>);
          g' = (if found = None then g\<lparr>mrules := mrules g @ [fullPattern], mvalues := mvalues g @ [[]]\<rparr>
                else g);
          info' = (if t = FullT then info\<lparr>fullMatchers := fullMatchers info @ [v]\<rparr>
                   else info\<lparr>domainMatchers := domainMatchers info @ [v]\<rparr>)
      in (rollingHash info', g'\<lparr>ruleInfos := al_put fullPattern info' (ruleInfos g)\<rparr>))"

definition Mph_AddFull :: "string \<Rightarrow> u32 \<Rightarrow> MphMatcherGroup \<Rightarrow> MphMatcherGroup" where
  "Mph_AddFull p v g = snd (addPattern 0 [] (ToLower p) FullT v g)"

definition Mph_AddDomain :: "string \<Rightarrow> u32 \<Rightarrow> MphMatcherGroup \<Rightarrow> MphMatcherGroup" where
  "Mph_AddDomain p v g =
     (let pattern = ToLower p in
        case addPattern 0 [] pattern DomainT v g of
          (hash, g') \<Rightarrow> snd (addPattern hash pattern ''.'' DomainT v g'))"

section \<open>Building the table\<close>

fun bit_length :: "nat \<Rightarrow> nat" where
  "bit_length n = (if n = 0 then 0 else Suc (bit_length (n div 2)))"

declare bit_length.simps [simp del]

definition LeadingZeros :: "nat \<Rightarrow> nat" where
  "LeadingZeros v = 64 - bit_length v"

definition nextPow2 :: "nat \<Rightarrow> nat" where
  "nextPow2 v = (if v \<le> 1 then 1 else unat (drop_bit (LeadingZeros v) (- 1 :: u64) + 1))"

definition mem_slot :: "(u32 \<Rightarrow> string \<Rightarrow> u32) \<Rightarrow> u32 \<Rightarrow> u32 \<Rightarrow> string \<Rightarrow> nat" where
  "mem_slot mh msk seed s = unat (mh seed s AND msk)"

definition revert_slots :: "nat list \<Rightarrow> bool list \<times> u32 list \<Rightarrow> bool list \<times> u32 list" where
  "revert_slots hs st = fold (\<lambda>h (occ, l1). (occ[h := False], l1[h := 0])) hs st"

text \<open>One attempt to place a bucket with a seed: \<open>Inl\<close> when a slot is taken, with what was placed
  taken back.\<close>

fun try_bucket :: "(u32 \<Rightarrow> string \<Rightarrow> u32) \<Rightarrow> u32 \<Rightarrow> string list \<Rightarrow> u32 \<Rightarrow> u32 list \<Rightarrow> bool list \<Rightarrow> u32 list \<Rightarrow>
    nat list \<Rightarrow> (bool list \<times> u32 list) + (bool list \<times> u32 list)" where
  "try_bucket mh msk rules seed [] occ l1 hb = Inr (occ, l1)"
| "try_bucket mh msk rules seed (r # rs) occ l1 hb =
     (let h = mem_slot mh msk seed (rules ! unat r)
      in if occ ! h then Inl (revert_slots hb (occ, l1))
         else try_bucket mh msk rules seed rs (occ[h := True]) (l1[h := r]) (hb @ [h]))"

partial_function (option) place_bucket :: "(u32 \<Rightarrow> string \<Rightarrow> u32) \<Rightarrow> u32 \<Rightarrow> string list \<Rightarrow> u32 list \<Rightarrow>
    u32 \<Rightarrow> bool list \<Rightarrow> u32 list \<Rightarrow> (u32 \<times> bool list \<times> u32 list) option" where
  "place_bucket mh msk rules bucket seed occ l1 =
     (case try_bucket mh msk rules seed bucket occ l1 [] of
        Inr (occ', l1') \<Rightarrow> Some (seed, occ', l1')
      | Inl (occ', l1') \<Rightarrow> place_bucket mh msk rules bucket (seed + 1) occ' l1')"

fun place_all :: "(u32 \<Rightarrow> string \<Rightarrow> u32) \<Rightarrow> u32 \<Rightarrow> string list \<Rightarrow> u32 list list \<Rightarrow> nat list \<Rightarrow>
    u32 list \<Rightarrow> bool list \<Rightarrow> u32 list \<Rightarrow> (u32 list \<times> u32 list) option" where
  "place_all mh msk rules buckets [] l0 occ l1 = Some (l0, l1)"
| "place_all mh msk rules buckets (b # bs) l0 occ l1 =
     (case place_bucket mh msk rules (buckets ! b) 0 occ l1 of
        None \<Rightarrow> None
      | Some (seed, occ', l1') \<Rightarrow> place_all mh msk rules buckets bs (l0[b := seed]) occ' l1')"

definition info_values :: "mphRuleInfo \<Rightarrow> u32 list" where
  "info_values i = fullMatchers i @ domainMatchers i"

definition rule_info :: "MphMatcherGroup \<Rightarrow> nat \<Rightarrow> mphRuleInfo" where
  "rule_info g r = the (al_get (ruleInfos g) (mrules g ! r))"

definition fill_buckets :: "MphMatcherGroup \<Rightarrow> u32 \<Rightarrow> u32 list list \<Rightarrow> nat list \<Rightarrow> u32 list list" where
  "fill_buckets g mask0 bks rs =
     fold (\<lambda>r bks. let b = unat (rollingHash (rule_info g r) AND mask0)
                    in bks[b := bks ! b @ [of_nat r]]) rs bks"

definition Build :: "(u32 \<Rightarrow> string \<Rightarrow> u32) \<Rightarrow> (nat list \<Rightarrow> nat list) \<Rightarrow> MphMatcherGroup \<Rightarrow> MphMatcherGroup option"
where
  "Build mh ord g =
     (let ruleCount = length (ruleInfos g);
          n0 = nextPow2 (ruleCount div 4); n1 = nextPow2 ruleCount;
          mask0 = of_nat (n0 - 1); mask1 = of_nat (n1 - 1);
          rs = [1..<length (mrules g)];
          buckets = fill_buckets g mask0 (replicate n0 []) rs;
          vals = [[]] @ map (\<lambda>r. info_values (rule_info g r)) rs;
          idxs = sort_key (\<lambda>b. - int (length (buckets ! b))) (ord [0..<n0])
      in case place_all mh mask1 (mrules g) buckets idxs (replicate n0 0) (replicate n1 False) (replicate n1 0) of
           None \<Rightarrow> None
         | Some (l0, l1) \<Rightarrow>
             Some (g\<lparr>mvalues := vals, level0 := l0, level0Mask := mask0, level1 := l1,
                     level1Mask := mask1, ruleInfos := []\<rparr>))"

section \<open>Looking up\<close>

definition Lookup :: "(u32 \<Rightarrow> string \<Rightarrow> u32) \<Rightarrow> MphMatcherGroup \<Rightarrow> u32 \<Rightarrow> string \<Rightarrow> u32" where
  "Lookup mh g rh input =
     (let i0 = unat (rh AND level0Mask g);
          seed = level0 g ! i0;
          i1 = mem_slot mh (level1Mask g) seed input;
          n = level1 g ! i1
      in if mrules g ! unat n = input then n else 0)"

text \<open>The loop of \<open>Match\<close> from the last byte to the first: the hash of what was read, and the values
  found at the dots so far.\<close>

fun mph_scan :: "(u32 \<Rightarrow> string \<Rightarrow> u32) \<Rightarrow> MphMatcherGroup \<Rightarrow> string \<Rightarrow> u32 \<times> u32 list list" where
  "mph_scan mh g [] = (0, [])"
| "mph_scan mh g (c # cs) =
     (case mph_scan mh g cs of (hash, ms) \<Rightarrow>
        let hash' = hash_step c hash; n = Lookup mh g hash' (c # cs)
        in (hash', if c = CHR ''.'' \<and> n \<noteq> 0 then ms @ [mvalues g ! unat n] else ms))"

definition Mph_Match :: "(u32 \<Rightarrow> string \<Rightarrow> u32) \<Rightarrow> MphMatcherGroup \<Rightarrow> string \<Rightarrow> u32 list" where
  "Mph_Match mh g input =
     (case mph_scan mh g input of (hash, ms) \<Rightarrow>
        let n = Lookup mh g hash input
        in CompositeMatchesReverse (if n \<noteq> 0 then ms @ [mvalues g ! unat n] else ms))"

fun mph_any_scan :: "(u32 \<Rightarrow> string \<Rightarrow> u32) \<Rightarrow> MphMatcherGroup \<Rightarrow> string \<Rightarrow> u32 \<times> bool" where
  "mph_any_scan mh g [] = (0, False)"
| "mph_any_scan mh g (c # cs) =
     (case mph_any_scan mh g cs of (hash, found) \<Rightarrow>
        let hash' = hash_step c hash
        in if found then (hash', True)
           else (hash', c = CHR ''.'' \<and> Lookup mh g hash' (c # cs) \<noteq> 0))"

definition Mph_MatchAny :: "(u32 \<Rightarrow> string \<Rightarrow> u32) \<Rightarrow> MphMatcherGroup \<Rightarrow> string \<Rightarrow> bool" where
  "Mph_MatchAny mh g input =
     (case mph_any_scan mh g input of (hash, found) \<Rightarrow>
        if found then True else Lookup mh g hash input \<noteq> 0)"

end
