(* ===== verification/MphProofs.thy ===== *)
theory MphProofs
  imports MphGroup
begin

text \<open>
  The minimal perfect hash group answers like the basic matchers on lower-case patterns:
  whenever \<open>Build\<close> returns, looking up a string under its rolling hash finds the rule if it is one,
  for every hash function of the runtime. \<open>Build\<close> returns if and only if the seed search of each bucket
  finds a seed; \<open>place_bucket_least\<close> says which.
\<close>

section \<open>Hashes and sizes\<close>

lemma RollingHash_append: "RollingHash h (s @ t) = RollingHash (RollingHash h t) s"
  by (simp add: RollingHash_def)

lemma RollingHash_Cons: "RollingHash h (c # s) = hash_step c (RollingHash h s)"
  by (simp add: RollingHash_def)

lemma RollingHash_Nil [simp]: "RollingHash h [] = h"
  by (simp add: RollingHash_def)

lemma bit_length_bound: "v < 2 ^ bit_length v"
proof (induction v rule: bit_length.induct)
  case (1 n)
  then show ?case by (subst bit_length.simps) auto
qed

lemma bit_length_le: "v < 2 ^ k \<Longrightarrow> bit_length v \<le> k"
proof (induction v arbitrary: k rule: bit_length.induct)
  case (1 n)
  show ?case
  proof (cases "n = 0")
    case False
    with 1 obtain k' where k: "k = Suc k'" by (cases k) auto
    with 1 False have "bit_length (n div 2) \<le> k'" by (intro 1(1)) auto
    with False k show ?thesis by (subst bit_length.simps) simp
  qed (simp add: bit_length.simps)
qed

lemma nextPow2_exp:
  assumes "v < 2 ^ 31"
  shows "nextPow2 v = 1 \<or> nextPow2 v = 2 ^ bit_length v"
proof (cases "v \<le> 1")
  case False
  have bl: "bit_length v \<le> 31" using assms by (rule bit_length_le)
  have "drop_bit (64 - bit_length v) (- 1 :: u64) = mask (bit_length v)"
    using bl by (intro bit_word_eqI) (auto simp: bit_simps)
  then have "nextPow2 v = unat (mask (bit_length v) + 1 :: u64)"
    using False by (simp add: nextPow2_def LeadingZeros_def)
  also have "(mask (bit_length v) + 1 :: u64) = 2 ^ bit_length v"
    by (simp add: mask_eq_exp_minus_1)
  also have "unat (2 ^ bit_length v :: u64) = 2 ^ bit_length v"
  proof -
    have "(2 :: nat) ^ bit_length v < 2 ^ 64" using bl by (intro power_strict_increasing) auto
    moreover have "(2 ^ bit_length v :: u64) = of_nat (2 ^ bit_length v)" by simp
    ultimately show ?thesis unfolding \<open>(2 ^ bit_length v :: u64) = of_nat (2 ^ bit_length v)\<close> unat_of_nat by simp
  qed
  finally show ?thesis by simp
qed (simp add: nextPow2_def)

lemma nextPow2_pow: "v < 2 ^ 31 \<Longrightarrow> \<exists>k \<le> 31. nextPow2 v = 2 ^ k"
  using nextPow2_exp [of v] bit_length_le [of v 31] by (metis power_0 zero_le)

lemma masked_less:
  assumes "v < 2 ^ 31"
  shows "unat (x AND of_nat (nextPow2 v - 1) :: u32) < nextPow2 v"
proof -
  obtain k where k: "k \<le> 31" "nextPow2 v = 2 ^ k" using nextPow2_pow [OF assms] by blast
  have "of_nat (2 ^ k - 1) = (mask k :: u32)"
    by (simp add: mask_eq_exp_minus_1 of_nat_diff)
  then have "unat (x AND of_nat (nextPow2 v - 1) :: u32) = take_bit k (unat x)"
    using k by (simp only: flip: take_bit_eq_mask) (simp only: unsigned_take_bit_eq)
  then show ?thesis using k by (simp add: take_bit_eq_mod)
qed

section \<open>Placing buckets\<close>

text \<open>What is placed stays: slots that are occupied keep their rule.\<close>

definition keeps :: "bool list \<times> u32 list \<Rightarrow> bool list \<times> u32 list \<Rightarrow> bool" where
  "keeps st st' \<longleftrightarrow> length (fst st') = length (fst st) \<and> length (snd st') = length (snd st) \<and>
     (\<forall>h < length (fst st). fst st ! h \<longrightarrow> fst st' ! h \<and> snd st' ! h = snd st ! h)"

lemma keeps_refl [simp]: "keeps st st"
  by (simp add: keeps_def)

lemma keeps_trans: "keeps a b \<Longrightarrow> keeps b c \<Longrightarrow> keeps a c"
  by (auto simp: keeps_def)

lemma keeps_free: "\<not> occ ! h \<Longrightarrow> keeps (occ, l1) (occ[h := b], l1[h := r])"
  by (auto simp: keeps_def) (metis nth_list_update_neq)+

lemma keeps_revert:
  assumes "keeps (occ0, l0) st" "\<forall>h \<in> set hs. \<not> occ0 ! h"
  shows "keeps (occ0, l0) (revert_slots hs st)"
  using assms
proof (induction hs arbitrary: st)
  case (Cons h hs)
  obtain occ l1 where st: "st = (occ, l1)" by (cases st)
  have "keeps (occ0, l0) (occ[h := False], l1[h := 0])"
    using Cons.prems by (auto simp: keeps_def st) (metis nth_list_update_neq)+
  with Cons show ?case by (simp add: revert_slots_def st)
qed (simp add: revert_slots_def)

lemma try_bucket_Inr:
  assumes "try_bucket mh msk rules seed bucket occ l1 hb = Inr (occ', l1')"
    and "length l1 = length occ" "\<And>s. mem_slot mh msk seed s < length occ"
  shows "keeps (occ, l1) (occ', l1') \<and>
    (\<forall>r \<in> set bucket. occ' ! mem_slot mh msk seed (rules ! unat r) \<and>
       l1' ! mem_slot mh msk seed (rules ! unat r) = r)"
  using assms
proof (induction mh msk rules seed bucket occ l1 hb rule: try_bucket.induct)
  case (2 mh msk rules seed r rs occ l1 hb)
  let ?h = "mem_slot mh msk seed (rules ! unat r)"
  have free: "\<not> occ ! ?h" and rec: "try_bucket mh msk rules seed rs (occ[?h := True]) (l1[?h := r]) (hb @ [?h]) = Inr (occ', l1')"
    using 2(2) by (auto simp: Let_def split: if_splits)
  from 2(1) [OF refl free rec] 2(3,4)
  have k: "keeps (occ[?h := True], l1[?h := r]) (occ', l1')"
    and p: "\<forall>r \<in> set rs. occ' ! mem_slot mh msk seed (rules ! unat r) \<and>
       l1' ! mem_slot mh msk seed (rules ! unat r) = r" by auto
  have "occ' ! ?h \<and> l1' ! ?h = r" using k 2(3,4) by (auto simp: keeps_def)
  with p keeps_trans [OF keeps_free [OF free] k] show ?case by simp
qed simp

lemma try_bucket_Inl:
  assumes "try_bucket mh msk rules seed bucket occ l1 hb = Inl st"
    and "keeps (occ0, l0) (occ, l1)" "\<forall>h \<in> set hb. \<not> occ0 ! h"
    and "\<And>s. mem_slot mh msk seed s < length occ0"
  shows "keeps (occ0, l0) st"
  using assms
proof (induction mh msk rules seed bucket occ l1 hb rule: try_bucket.induct)
  case (2 mh msk rules seed r rs occ l1 hb)
  let ?h = "mem_slot mh msk seed (rules ! unat r)"
  show ?case
  proof (cases "occ ! ?h")
    case True
    with 2 show ?thesis by (auto simp: Let_def intro: keeps_revert)
  next
    case False
    with 2(3,5) have "\<not> occ0 ! ?h" by (auto simp: keeps_def)
    moreover from 2(3) keeps_free [OF False] have "keeps (occ0, l0) (occ[?h := True], l1[?h := r])"
      by (rule keeps_trans)
    ultimately show ?thesis using 2(1) [OF refl False] 2(2,4,5) False by (auto simp: Let_def)
  qed
qed simp

lemma place_bucket_spec:
  assumes "place_bucket mh msk rules bucket seed occ l1 = Some res" "res = (seed', occ', l1')"
    and "length l1 = length occ" "\<And>sd s. mem_slot mh msk sd s < length occ"
  shows "keeps (occ, l1) (occ', l1') \<and>
    (\<forall>r \<in> set bucket. occ' ! mem_slot mh msk seed' (rules ! unat r) \<and>
       l1' ! mem_slot mh msk seed' (rules ! unat r) = r)"
  using assms(2-)
proof (induction arbitrary: seed' occ' l1' rule: place_bucket.raw_induct [OF _ assms(1)])
  case (1 f mh msk rules bucket seed occ l1 res)
  show ?case
  proof (cases "try_bucket mh msk rules seed bucket occ l1 []")
    case (Inl st)
    obtain o1 l2 where st: "st = (o1, l2)" by (cases st)
    have k: "keeps (occ, l1) (o1, l2)"
      using try_bucket_Inl [OF Inl, of occ l1] 1(5) by (simp add: st)
    with 1(1) [of mh msk rules bucket "seed + 1" o1 l2 res seed' occ' l1'] 1(2-) Inl st
    have "keeps (o1, l2) (occ', l1') \<and>
        (\<forall>r \<in> set bucket. occ' ! mem_slot mh msk seed' (rules ! unat r) \<and>
         l1' ! mem_slot mh msk seed' (rules ! unat r) = r)"
      by (simp add: keeps_def)
    with k show ?thesis using keeps_trans by blast
  next
    case (Inr st)
    with 1(2,3) have "st = (occ', l1')" "seed' = seed" by (auto split: prod.splits)
    with try_bucket_Inr [of mh msk rules seed bucket occ l1 "[]" occ' l1'] Inr 1(4,5) show ?thesis
      by simp
  qed
qed

text \<open>The table holds rule numbers only.\<close>

lemma revert_slots_set: "set (snd (revert_slots hs st)) \<subseteq> insert 0 (set (snd st))"
proof (induction hs arbitrary: st)
  case (Cons h hs)
  obtain occ l1 where st: "st = (occ, l1)" by (cases st)
  have "set (l1[h := 0]) \<subseteq> insert 0 (set l1)" by (rule set_update_subset_insert)
  with Cons [of "(occ[h := False], l1[h := 0])"] show ?case by (auto simp: revert_slots_def st)
qed (auto simp: revert_slots_def)

lemma try_bucket_set:
  "case try_bucket mh msk rules seed bucket occ l1 hb of
     Inl st \<Rightarrow> set (snd st) \<subseteq> insert 0 (set l1 \<union> set bucket)
   | Inr st \<Rightarrow> set (snd st) \<subseteq> insert 0 (set l1 \<union> set bucket)"
proof (induction mh msk rules seed bucket occ l1 hb rule: try_bucket.induct)
  case (2 mh msk rules seed r rs occ l1 hb)
  let ?h = "mem_slot mh msk seed (rules ! unat r)"
  show ?case
  proof (cases "occ ! ?h")
    case True
    then show ?thesis using revert_slots_set [of hb "(occ, l1)"] by (auto simp: Let_def)
  next
    case False
    have "set (l1[?h := r]) \<subseteq> insert r (set l1)" by (rule set_update_subset_insert)
    with 2 [OF refl False] False show ?thesis by (auto simp: Let_def split: sum.splits)
  qed
qed auto

lemma place_bucket_set:
  assumes "place_bucket mh msk rules bucket seed occ l1 = Some res"
  shows "set (snd (snd res)) \<subseteq> insert 0 (set l1 \<union> set bucket)"
proof (induction rule: place_bucket.raw_induct [OF _ assms])
  case (1 f mh msk rules bucket seed occ l1 res)
  note t = try_bucket_set [where mh = mh and msk = msk and rules = rules and seed = seed
      and bucket = bucket and occ = occ and ?l1.0 = l1 and hb = "[]"]
  show ?case
  proof (cases "try_bucket mh msk rules seed bucket occ l1 []")
    case (Inl st)
    obtain o1 l2 where st: "st = (o1, l2)" by (cases st)
    with 1(2) Inl have "f mh msk rules bucket (seed + 1) o1 l2 = Some res" by simp
    from 1(1) [OF this] t Inl st show ?thesis by auto
  next
    case (Inr st)
    with 1(2) t show ?thesis by (auto split: prod.splits)
  qed
qed

lemma place_all_spec:
  assumes "place_all mh msk rules buckets bs l0 occ l1 = Some (l0', l1')"
    and "length l1 = length occ" "\<And>sd s. mem_slot mh msk sd s < length occ"
    and "distinct bs" "\<forall>b \<in> set bs. b < length l0"
  shows "length l0' = length l0 \<and> length l1' = length l1 \<and>
    set l1' \<subseteq> insert 0 (set l1 \<union> (\<Union>b \<in> set bs. set (buckets ! b))) \<and>
    (\<forall>h < length occ. occ ! h \<longrightarrow> l1' ! h = l1 ! h) \<and>
    (\<forall>b. b \<notin> set bs \<longrightarrow> l0' ! b = l0 ! b) \<and>
    (\<forall>b \<in> set bs. \<forall>r \<in> set (buckets ! b). l1' ! mem_slot mh msk (l0' ! b) (rules ! unat r) = r)"
  using assms
proof (induction bs arbitrary: l0 occ l1)
  case (Cons b bs)
  obtain seed o1 l2 where p: "place_bucket mh msk rules (buckets ! b) 0 occ l1 = Some (seed, o1, l2)"
    and rec: "place_all mh msk rules buckets bs (l0[b := seed]) o1 l2 = Some (l0', l1')"
    using Cons.prems(1) by (auto split: option.splits)
  from place_bucket_spec [OF p refl Cons.prems(2,3)] have k: "keeps (occ, l1) (o1, l2)"
    and hit: "\<forall>r \<in> set (buckets ! b). o1 ! mem_slot mh msk seed (rules ! unat r) \<and>
       l2 ! mem_slot mh msk seed (rules ! unat r) = r" by auto
  have len: "length l2 = length o1" "length o1 = length occ" "length l2 = length l1"
    using k Cons.prems(2) by (auto simp: keeps_def)
  have set2: "set l2 \<subseteq> insert 0 (set l1 \<union> set (buckets ! b))"
    using place_bucket_set [OF p] by simp
  note IH = Cons.IH [OF rec len(1)]
  have ih: "length l0' = length l0" "length l1' = length l1"
    "set l1' \<subseteq> insert 0 (set l2 \<union> (\<Union>b \<in> set bs. set (buckets ! b)))"
    "\<forall>h < length occ. o1 ! h \<longrightarrow> l1' ! h = l2 ! h"
    "\<forall>b'. b' \<notin> set bs \<longrightarrow> l0' ! b' = l0[b := seed] ! b'"
    "\<forall>b \<in> set bs. \<forall>r \<in> set (buckets ! b). l1' ! mem_slot mh msk (l0' ! b) (rules ! unat r) = r"
    using IH Cons.prems(3-) len by auto
  have b: "l0' ! b = seed" using ih(5) Cons.prems(4,5) by simp
  have "\<forall>h < length occ. occ ! h \<longrightarrow> l1' ! h = l1 ! h"
    using ih(4) k by (auto simp: keeps_def)
  moreover have "\<forall>b'. b' \<notin> set (b # bs) \<longrightarrow> l0' ! b' = l0 ! b'" using ih(5) by simp
  moreover have "\<forall>r \<in> set (buckets ! b). l1' ! mem_slot mh msk (l0' ! b) (rules ! unat r) = r"
    using hit ih(4) Cons.prems(3) b by auto
  moreover have "set l1' \<subseteq> insert 0 (set l1 \<union> (\<Union>b \<in> set (b # bs). set (buckets ! b)))"
    using ih(3) set2 by auto
  ultimately show ?case using ih(1,2,6) by simp
qed auto

section \<open>The seed search ends\<close>

definition fits_seed :: "(u32 \<Rightarrow> string \<Rightarrow> u32) \<Rightarrow> u32 \<Rightarrow> string list \<Rightarrow> u32 list \<Rightarrow> bool list \<Rightarrow> u32 \<Rightarrow> bool" where
  "fits_seed mh msk rules bucket occ seed \<longleftrightarrow>
     (let hs = map (\<lambda>r. mem_slot mh msk seed (rules ! unat r)) bucket
      in distinct hs \<and> (\<forall>h \<in> set hs. \<not> occ ! h))"

abbreviation mark :: "nat list \<Rightarrow> bool list \<Rightarrow> bool list" where
  "mark hs occ \<equiv> fold (\<lambda>h o1. o1[h := True]) hs occ"

lemma mark_nth: "h < length occ \<Longrightarrow> mark hs occ ! h \<longleftrightarrow> h \<in> set hs \<or> occ ! h"
  by (induction hs arbitrary: occ) (auto simp: nth_list_update_any)

lemma length_mark [simp]: "length (mark hs occ) = length occ"
  by (induction hs arbitrary: occ) auto

lemma unmark:
  assumes "\<forall>h \<in> set hs. h < length occ \<and> \<not> occ ! h"
  shows "fst (revert_slots hs (mark hs occ, l1)) = occ"
proof (rule nth_equalityI)
  have f: "fst (revert_slots hs (o1, l1)) = fold (\<lambda>h o1. o1[h := False]) hs o1" for o1 l1
    by (induction hs arbitrary: o1 l1) (auto simp: revert_slots_def)
  have n: "h < length o1 \<Longrightarrow> fold (\<lambda>h o1. o1[h := False]) hs o1 ! h \<longleftrightarrow> h \<notin> set hs \<and> o1 ! h" for h and o1 :: "bool list"
    by (induction hs arbitrary: o1) (auto simp: nth_list_update_any)
  have l: "length (fold (\<lambda>h o1. o1[h := False]) hs o1) = length o1" for o1 :: "bool list"
    by (induction hs arbitrary: o1) auto
  show len: "length (fst (revert_slots hs (mark hs occ, l1))) = length occ" by (simp add: f l)
  show "fst (revert_slots hs (mark hs occ, l1)) ! i = occ ! i"
    if "i < length (fst (revert_slots hs (mark hs occ, l1)))" for i
    using that assms unfolding len by (auto simp: f n mark_nth)
qed

lemma fits_seed_Cons:
  assumes "\<And>s. mem_slot mh msk seed s < length occ"
  shows "fits_seed mh msk rules (r # bucket) occ seed \<longleftrightarrow>
    \<not> occ ! mem_slot mh msk seed (rules ! unat r) \<and>
    fits_seed mh msk rules bucket (occ[mem_slot mh msk seed (rules ! unat r) := True]) seed"
  by (auto simp: fits_seed_def Let_def nth_list_update_any assms)

lemma try_bucket_fits:
  assumes "\<forall>h \<in> set hb. h < length occ \<and> \<not> occ ! h" "\<And>s. mem_slot mh msk seed s < length occ"
  shows "case try_bucket mh msk rules seed bucket (mark hb occ) l1 hb of
      Inr st \<Rightarrow> fits_seed mh msk rules bucket (mark hb occ) seed
    | Inl st \<Rightarrow> fst st = occ \<and> \<not> fits_seed mh msk rules bucket (mark hb occ) seed"
  using assms
proof (induction bucket arbitrary: l1 hb)
  case (Cons r bucket)
  let ?h = "mem_slot mh msk seed (rules ! unat r)"
  show ?case
  proof (cases "mark hb occ ! ?h")
    case True
    then show ?thesis using unmark [OF Cons.prems(1)] by (simp add: Let_def fits_seed_def)
  next
    case False
    have m: "mark (hb @ [?h]) occ = (mark hb occ)[?h := True]" by simp
    have "\<not> occ ! ?h" using False Cons.prems(2) by (simp add: mark_nth)
    then have "\<forall>h \<in> set (hb @ [?h]). h < length occ \<and> \<not> occ ! h" using Cons.prems by auto
    from Cons.IH [OF this Cons.prems(2), of "l1[?h := r]", unfolded m] False
      fits_seed_Cons [of mh msk seed "mark hb occ" rules r bucket] Cons.prems(2)
    show ?thesis
      by (auto simp: Let_def split: sum.splits)
  qed
qed (auto simp: fits_seed_def)

lemma place_bucket_least:
  assumes "fits_seed mh msk rules bucket occ (seed + of_nat n)"
    and "\<And>sd s. mem_slot mh msk sd s < length occ"
  shows "\<exists>k \<le> n. \<exists>st. place_bucket mh msk rules bucket seed occ l1 = Some (seed + of_nat k, st) \<and>
    (\<forall>j < k. \<not> fits_seed mh msk rules bucket occ (seed + of_nat j))"
  using assms(1)
proof (induction n arbitrary: seed l1)
  case 0
  with try_bucket_fits [of "[]" occ mh msk seed rules bucket l1] assms(2)
  show ?case by (subst place_bucket.simps) (auto split: sum.splits)
next
  case (Suc n)
  note t = try_bucket_fits [of "[]" occ mh msk seed rules bucket l1]
  show ?case
  proof (cases "try_bucket mh msk rules seed bucket occ l1 []")
    case (Inr st)
    then show ?thesis
      by (intro exI [of _ 0]) (auto simp: place_bucket.simps [of mh msk rules bucket seed] split: prod.splits)
  next
    case (Inl st)
    obtain l2 where st: "st = (occ, l2)" and no: "\<not> fits_seed mh msk rules bucket occ seed"
      using t Inl assms(2) by (cases st) auto
    have "fits_seed mh msk rules bucket occ (seed + 1 + of_nat n)" using Suc.prems by (simp add: add.assoc)
    from Suc.IH [OF this, of l2] obtain k st' where k: "k \<le> n"
      "place_bucket mh msk rules bucket (seed + 1) occ l2 = Some (seed + 1 + of_nat k, st')"
      "\<forall>j < k. \<not> fits_seed mh msk rules bucket occ (seed + 1 + of_nat j)" by blast
    have "\<not> fits_seed mh msk rules bucket occ (seed + of_nat j)" if "j < Suc k" for j
      using that k(3) no by (cases j) (auto simp: add.assoc)
    with k Inl st show ?thesis
      by (intro exI [of _ "Suc k"]) (auto simp: place_bucket.simps [of mh msk rules bucket seed] add.assoc)
  qed
qed

section \<open>The group before and after Build\<close>

definition mph_inv :: "MphMatcherGroup \<Rightarrow> bool" where
  "mph_inv g \<longleftrightarrow> mrules g = [] # map fst (ruleInfos g) \<and> al_ok (ruleInfos g) \<and>
     (\<forall>(k, i) \<in> set (ruleInfos g). rollingHash i = RollingHash 0 k)"

lemma map_fst_put: "map fst (al_put k v m) = map fst m @ (if al_get m k = None then [k] else [])"
  by (induction k v m rule: al_put.induct) auto

lemma set_put: "set (al_put k v m) \<subseteq> insert (k, v) (set m)"
  by (induction k v m rule: al_put.induct) auto

lemma addPattern_inv:
  assumes "mph_inv g" "h = RollingHash 0 suf"
  shows "mph_inv (snd (addPattern h suf p t v g)) \<and> fst (addPattern h suf p t v g) = RollingHash 0 (p @ suf)"
proof -
  let ?k = "p @ suf"
  define info where "info = (case al_get (ruleInfos g) ?k of Some i \<Rightarrow> i
      | None \<Rightarrow> \<lparr>rollingHash = RollingHash h p, fullMatchers = [], domainMatchers = []\<rparr>)"
  define info' where "info' = (if t = FullT then info\<lparr>fullMatchers := fullMatchers info @ [v]\<rparr>
      else info\<lparr>domainMatchers := domainMatchers info @ [v]\<rparr>)"
  have hash: "rollingHash info' = RollingHash 0 ?k"
    using assms by (auto simp: info'_def info_def RollingHash_append mph_inv_def split: option.splits
        dest!: map_of_SomeD)
  have eq: "addPattern h suf p t v g = (rollingHash info',
      (if al_get (ruleInfos g) ?k = None then g\<lparr>mrules := mrules g @ [?k], mvalues := mvalues g @ [[]]\<rparr>
       else g)\<lparr>ruleInfos := al_put ?k info' (ruleInfos g)\<rparr>)"
    unfolding addPattern_def Let_def info'_def info_def by simp
  have "\<forall>(k, i) \<in> set (al_put ?k info' (ruleInfos g)). rollingHash i = RollingHash 0 k"
    using assms(1) hash set_put [of ?k info' "ruleInfos g"] by (fastforce simp: mph_inv_def)
  with assms(1) hash show ?thesis
    by (auto simp: eq mph_inv_def map_fst_put al_ok_put)
qed

lemma Mph_Add_inv:
  "mph_inv NewMphMatcherGroup"
  "mph_inv g \<Longrightarrow> mph_inv (Mph_AddFull p v g)"
  "mph_inv g \<Longrightarrow> mph_inv (Mph_AddDomain p v g)"
proof -
  show "mph_inv NewMphMatcherGroup" by (simp add: mph_inv_def NewMphMatcherGroup_def)
  assume g: "mph_inv g"
  show "mph_inv (Mph_AddFull p v g)"
    using addPattern_inv [OF g, of 0 "[]"] by (simp add: Mph_AddFull_def)
  obtain h g' where a: "addPattern 0 [] (ToLower p) DomainT v g = (h, g')" by fastforce
  with addPattern_inv [OF g, of 0 "[]" "ToLower p" DomainT v] have "mph_inv g'" "h = RollingHash 0 (ToLower p)"
    by simp_all
  from addPattern_inv [OF this] show "mph_inv (Mph_AddDomain p v g)" by (simp add: Mph_AddDomain_def a)
qed

lemma fill_buckets_spec:
  assumes "\<And>r. unat (rollingHash (rule_info g r) AND m0) < length bks"
  shows "length (fill_buckets g m0 bks rs) = length bks \<and>
    (\<forall>b < length bks. set (fill_buckets g m0 bks rs ! b) = set (bks ! b) \<union>
      {of_nat r | r. r \<in> set rs \<and> unat (rollingHash (rule_info g r) AND m0) = b})"
  using assms
proof (induction rs arbitrary: bks)
  case (Cons r rs)
  let ?b = "unat (rollingHash (rule_info g r) AND m0)"
  from Cons.IH [of "bks[?b := bks ! ?b @ [of_nat r]]"] Cons.prems
  show ?case by (auto simp: fill_buckets_def Let_def nth_list_update)
qed (simp add: fill_buckets_def)

text \<open>What a lookup promises, once the table is built.\<close>

definition lookup_ok :: "(u32 \<Rightarrow> string \<Rightarrow> u32) \<Rightarrow> (string, mphRuleInfo) go_map \<Rightarrow> MphMatcherGroup \<Rightarrow> bool" where
  "lookup_ok mh infos g \<longleftrightarrow> (\<forall>s.
     case al_get infos s of
       None \<Rightarrow> Lookup mh g (RollingHash 0 s) s = 0
     | Some i \<Rightarrow> Lookup mh g (RollingHash 0 s) s \<noteq> 0 \<and>
         mvalues g ! unat (Lookup mh g (RollingHash 0 s) s) = info_values i)"

lemma Build_lookup_ok:
  assumes inv: "mph_inv g" and small: "length (ruleInfos g) < 2 ^ 31 - 1" and ord: "range_order ord"
    and b: "Build mh ord g = Some g'"
  shows "lookup_ok mh (ruleInfos g) g'"
proof -
  define n where "n = length (ruleInfos g)"
  define n0 where "n0 = nextPow2 (n div 4)"
  define n1 where "n1 = nextPow2 n"
  define m0 where "m0 = (of_nat (n0 - 1) :: u32)"
  define m1 where "m1 = (of_nat (n1 - 1) :: u32)"
  define rs where "rs = [1..<length (mrules g)]"
  define bks where "bks = fill_buckets g m0 (replicate n0 []) rs"
  define idxs where "idxs = sort_key (\<lambda>b. - int (length (bks ! b))) (ord [0..<n0])"
  obtain l0 l1 where pl: "place_all mh m1 (mrules g) bks idxs (replicate n0 0) (replicate n1 False) (replicate n1 0) = Some (l0, l1)"
    and g': "g' = g\<lparr>mvalues := [[]] @ map (\<lambda>r. info_values (rule_info g r)) rs, level0 := l0, level0Mask := m0,
      level1 := l1, level1Mask := m1, ruleInfos := []\<rparr>"
    using b by (auto simp: Build_def Let_def n_def n0_def n1_def m0_def m1_def rs_def bks_def idxs_def
        split: option.splits)
  have len: "length (mrules g) = Suc n" using inv by (simp add: mph_inv_def n_def)
  have slot0: "unat (x AND m0) < n0" for x unfolding m0_def n0_def using small by (intro masked_less) (simp add: n_def)
  have slot1: "mem_slot mh m1 sd s < n1" for sd s
    unfolding mem_slot_def m1_def n1_def using small by (intro masked_less) (simp add: n_def)
  have fb: "length bks = n0" "\<And>b. b < n0 \<Longrightarrow> set (bks ! b) = {of_nat r | r. r \<in> set rs \<and> unat (rollingHash (rule_info g r) AND m0) = b}"
    using fill_buckets_spec [of g m0 "replicate n0 []" rs] slot0 by (auto simp: bks_def)
  have ix: "distinct idxs" "set idxs = {0..<n0}"
    using ord by (auto simp: idxs_def distinct_sort range_order_mset mset_eq_imp_distinct_iff [OF range_order_mset [OF ord]])
  have spec: "length l0 = n0" "length l1 = n1"
    "set l1 \<subseteq> insert 0 ({0} \<union> (\<Union>b \<in> {0..<n0}. set (bks ! b)))"
    "\<forall>b < n0. \<forall>r \<in> set (bks ! b). l1 ! mem_slot mh m1 (l0 ! b) (mrules g ! unat r) = r"
    using place_all_spec [OF pl] slot1 ix by (auto simp: set_replicate_conv_if split: if_splits)
  have uo: "unat (of_nat r :: u32) = r" if "r < Suc n" for r
    using that small by (simp add: n_def unat_of_nat)
  have bound: "unat x < Suc n" if "x \<in> set l1" for x
    using spec(3) that fb(2) uo len by (force simp: rs_def)
  have look: "Lookup mh g' h s = (let m = l1 ! mem_slot mh m1 (l0 ! unat (h AND m0)) s
      in if mrules g ! unat m = s then m else 0)" for h s
    by (simp add: Lookup_def g' Let_def)
  show ?thesis unfolding lookup_ok_def
  proof (intro allI)
    fix s
    let ?L = "Lookup mh g' (RollingHash 0 s) s"
    show "case al_get (ruleInfos g) s of None \<Rightarrow> ?L = 0
      | Some i \<Rightarrow> ?L \<noteq> 0 \<and> mvalues g' ! unat ?L = info_values i"
    proof (cases "al_get (ruleInfos g) s")
      case None
      have "?L = 0"
      proof (rule ccontr)
        assume nz: "?L \<noteq> 0"
        let ?m = "l1 ! mem_slot mh m1 (l0 ! unat (RollingHash 0 s AND m0)) s"
        have m: "?m \<noteq> 0" "mrules g ! unat ?m = s" using nz by (auto simp: look Let_def split: if_splits)
        have "?m \<in> set l1" using slot1 spec(2) by simp
        then have "unat ?m < Suc n" by (rule bound)
        moreover have "unat ?m \<noteq> 0" using m(1) by (simp add: unat_eq_0)
        ultimately obtain j where j: "unat ?m = Suc j" "j < n" by (cases "unat ?m") auto
        then have "s = map fst (ruleInfos g) ! j" "j < length (map fst (ruleInfos g))"
          using m(2) inv by (simp_all add: mph_inv_def n_def)
        then have "s \<in> set (map fst (ruleInfos g))" by (simp only: nth_mem)
        with None show False by (simp add: map_of_eq_None_iff)
      qed
      with None show ?thesis by simp
    next
      case (Some i)
      then obtain j where j: "j < n" "ruleInfos g ! j = (s, i)"
        by (auto simp: n_def in_set_conv_nth dest!: map_of_SomeD)
      let ?r = "Suc j"
      have rule: "mrules g ! ?r = s" using j inv by (simp add: mph_inv_def n_def)
      have info: "rule_info g ?r = i" using rule Some by (simp add: rule_info_def)
      have rh: "rollingHash i = RollingHash 0 s"
        using inv j by (force simp: mph_inv_def n_def in_set_conv_nth)
      have rin: "?r \<in> set rs" using j len by (auto simp: rs_def)
      let ?b = "unat (RollingHash 0 s AND m0)"
      have "of_nat ?r \<in> set (bks ! ?b)"
      proof -
        have "unat (rollingHash (rule_info g ?r) AND m0) = ?b" by (simp add: info rh)
        with rin show ?thesis unfolding fb(2) [OF slot0] by blast
      qed
      then have hit: "l1 ! mem_slot mh m1 (l0 ! ?b) s = of_nat ?r"
        using spec(4) slot0 [of "RollingHash 0 s"] uo [of ?r] j rule by force
      have L: "?L = of_nat ?r" using hit uo [of ?r] j rule by (simp add: look Let_def)
      have "mvalues g' ! ?r = info_values i"
        using j len info by (simp add: g' rs_def nth_append del: upt_Suc)
      moreover have u: "unat ?L = ?r" unfolding L by (rule uo) (simp add: j)
      moreover have "?L \<noteq> 0" using u by (metis nat.distinct(1) unat_0)
      ultimately show ?thesis using Some by (simp only: option.case) simp
    qed
  qed
qed

section \<open>Matching\<close>

lemma mph_scan_hash: "fst (mph_scan mh g s) = RollingHash 0 s" "fst (mph_any_scan mh g s) = RollingHash 0 s"
  by (induction s) (auto simp: RollingHash_Cons Let_def split: prod.splits)

definition lookup_vals :: "(string, mphRuleInfo) go_map \<Rightarrow> string \<Rightarrow> u32 list" where
  "lookup_vals infos s = (case al_get infos s of None \<Rightarrow> [] | Some i \<Rightarrow> info_values i)"

text \<open>The suffixes of a string that start with a dot, from the shortest.\<close>

fun dot_suffixes :: "string \<Rightarrow> string list" where
  "dot_suffixes [] = []"
| "dot_suffixes (c # cs) = dot_suffixes cs @ (if c = CHR ''.'' then [c # cs] else [])"

lemma set_dot_suffixes: "set (dot_suffixes s) = {t. suffix t s \<and> t \<noteq> [] \<and> hd t = CHR ''.''}"
proof (induction s)
  case (Cons c cs)
  have "{t. suffix t (c # cs) \<and> t \<noteq> [] \<and> hd t = CHR ''.''} =
      {t. suffix t cs \<and> t \<noteq> [] \<and> hd t = CHR ''.''} \<union> (if c = CHR ''.'' then {c # cs} else {})"
    unfolding suffix_Cons by (cases "c = CHR ''.''") fastforce+
  with Cons show ?case by (simp split: if_splits)
qed simp

lemma mph_scan_vals:
  "lookup_ok mh infos g \<Longrightarrow> concat (rev (snd (mph_scan mh g s))) =
    concat (map (lookup_vals infos) (rev (dot_suffixes s)))"
proof (induction s)
  case (Cons c cs)
  obtain h ms where m: "mph_scan mh g cs = (h, ms)" by fastforce
  have h: "hash_step c h = RollingHash 0 (c # cs)"
    using mph_scan_hash(1) [of mh g cs] by (simp add: m RollingHash_Cons)
  have "case al_get infos (c # cs) of None \<Rightarrow> Lookup mh g (hash_step c h) (c # cs) = 0
     | Some i \<Rightarrow> Lookup mh g (hash_step c h) (c # cs) \<noteq> 0 \<and>
         mvalues g ! unat (Lookup mh g (hash_step c h) (c # cs)) = info_values i"
    using Cons.prems unfolding lookup_ok_def h by blast
  with Cons m show ?case by (auto simp: Let_def lookup_vals_def split: option.splits)
qed simp

lemma Mph_Match_vals:
  assumes "lookup_ok mh infos g"
  shows "Mph_Match mh g s = lookup_vals infos s @ concat (map (lookup_vals infos) (rev (dot_suffixes s)))"
proof -
  obtain h ms where m: "mph_scan mh g s = (h, ms)" by fastforce
  then have h: "h = RollingHash 0 s" using mph_scan_hash(1) [of mh g s] by simp
  have "case al_get infos s of None \<Rightarrow> Lookup mh g h s = 0
     | Some i \<Rightarrow> Lookup mh g h s \<noteq> 0 \<and> mvalues g ! unat (Lookup mh g h s) = info_values i"
    using assms unfolding lookup_ok_def h by blast
  with mph_scan_vals [OF assms, of s] m show ?thesis
    by (auto simp: Mph_Match_def Let_def CompositeMatchesReverse_concat lookup_vals_def split: option.splits)
qed

lemma lookup_ok_ne: "lookup_ok mh infos g \<Longrightarrow> Lookup mh g (RollingHash 0 s) s \<noteq> 0 \<longleftrightarrow> al_get infos s \<noteq> None"
proof -
  assume "lookup_ok mh infos g"
  then have "case al_get infos s of None \<Rightarrow> Lookup mh g (RollingHash 0 s) s = 0
     | Some i \<Rightarrow> Lookup mh g (RollingHash 0 s) s \<noteq> 0 \<and>
         mvalues g ! unat (Lookup mh g (RollingHash 0 s) s) = info_values i"
    unfolding lookup_ok_def by blast
  then show ?thesis by (auto split: option.splits)
qed

lemma mph_any_scan_iff:
  "lookup_ok mh infos g \<Longrightarrow> snd (mph_any_scan mh g s) \<longleftrightarrow> (\<exists>t \<in> set (dot_suffixes s). al_get infos t \<noteq> None)"
proof (induction s)
  case (Cons c cs)
  obtain h f where m: "mph_any_scan mh g cs = (h, f)" by fastforce
  have h: "hash_step c h = RollingHash 0 (c # cs)"
    using mph_scan_hash(2) [of mh g cs] by (simp add: m RollingHash_Cons)
  show ?case
    using Cons lookup_ok_ne [OF Cons.prems, of "c # cs"] m by (auto simp: Let_def h)
qed simp

lemma Mph_MatchAny_keys:
  assumes "lookup_ok mh infos g"
  shows "Mph_MatchAny mh g s \<longleftrightarrow> al_get infos s \<noteq> None \<or> (\<exists>t \<in> set (dot_suffixes s). al_get infos t \<noteq> None)"
proof -
  obtain h f where m: "mph_any_scan mh g s = (h, f)" by fastforce
  then have "h = RollingHash 0 s" using mph_scan_hash(2) [of mh g s] by simp
  with m mph_any_scan_iff [OF assms, of s] lookup_ok_ne [OF assms, of s] show ?thesis
    by (auto simp: Mph_MatchAny_def)
qed

section \<open>The values of the patterns\<close>

text \<open>The values under a key, in terms of the patterns that were added.\<close>

fun key_vals :: "Matcher entries \<Rightarrow> string \<Rightarrow> u32 list \<times> u32 list" where
  "key_vals [] k = ([], [])"
| "key_vals ((m, v) # es) k =
     (case key_vals es k of (fs, ds) \<Rightarrow>
        (case m of
           FullMatcher p \<Rightarrow> (if ToLower p = k then v # fs else fs, ds)
         | DomainMatcher p \<Rightarrow> (fs, if ToLower p = k \<or> CHR ''.'' # ToLower p = k then v # ds else ds)
         | _ \<Rightarrow> (fs, ds)))"

fun Mph_Add :: "Matcher \<Rightarrow> u32 \<Rightarrow> MphMatcherGroup \<Rightarrow> MphMatcherGroup" where
  "Mph_Add (FullMatcher p) v g = Mph_AddFull p v g"
| "Mph_Add (DomainMatcher p) v g = Mph_AddDomain p v g"
| "Mph_Add m v g = g"

lemma key_vals_snoc:
  "key_vals (es @ [(m, v)]) k =
    (fst (key_vals es k) @ fst (key_vals [(m, v)] k), snd (key_vals es k) @ snd (key_vals [(m, v)] k))"
  by (induction es k rule: key_vals.induct) (auto split: prod.splits Matcher.splits)

definition info_pair :: "mphRuleInfo option \<Rightarrow> u32 list \<times> u32 list" where
  "info_pair o1 = (case o1 of None \<Rightarrow> ([], []) | Some i \<Rightarrow> (fullMatchers i, domainMatchers i))"

lemma addPattern_info:
  "info_pair (al_get (ruleInfos (snd (addPattern h suf p t v g))) k) =
    (if k = p @ suf then
       (if t = FullT then (fst (info_pair (al_get (ruleInfos g) k)) @ [v], snd (info_pair (al_get (ruleInfos g) k)))
        else (fst (info_pair (al_get (ruleInfos g) k)), snd (info_pair (al_get (ruleInfos g) k)) @ [v]))
     else info_pair (al_get (ruleInfos g) k))"
  "al_get (ruleInfos (snd (addPattern h suf p t v g))) k \<noteq> None \<longleftrightarrow>
    k = p @ suf \<or> al_get (ruleInfos g) k \<noteq> None"
  by (auto simp: addPattern_def Let_def al_simps info_pair_def split: option.splits)

lemma Mph_Add_info:
  "info_pair (al_get (ruleInfos (Mph_Add m v g)) k) =
    (fst (info_pair (al_get (ruleInfos g) k)) @ fst (key_vals [(m, v)] k),
     snd (info_pair (al_get (ruleInfos g) k)) @ snd (key_vals [(m, v)] k))"
  "al_get (ruleInfos (Mph_Add m v g)) k \<noteq> None \<longleftrightarrow> key_vals [(m, v)] k \<noteq> ([], []) \<or> al_get (ruleInfos g) k \<noteq> None"
proof -
  have d: "ruleInfos (Mph_AddDomain p v g) =
      ruleInfos (snd (addPattern (fst (addPattern 0 [] (ToLower p) DomainT v g)) (ToLower p) ''.'' DomainT v
        (snd (addPattern 0 [] (ToLower p) DomainT v g))))" for p
    by (simp add: Mph_AddDomain_def Let_def split_beta)
  show "info_pair (al_get (ruleInfos (Mph_Add m v g)) k) =
    (fst (info_pair (al_get (ruleInfos g) k)) @ fst (key_vals [(m, v)] k),
     snd (info_pair (al_get (ruleInfos g) k)) @ snd (key_vals [(m, v)] k))"
    by (cases m) (auto simp: Mph_AddFull_def d addPattern_info)
  show "al_get (ruleInfos (Mph_Add m v g)) k \<noteq> None \<longleftrightarrow> key_vals [(m, v)] k \<noteq> ([], []) \<or> al_get (ruleInfos g) k \<noteq> None"
    unfolding prod_eq_iff
    by (cases m; simp only: Mph_Add.simps Mph_AddFull_def d addPattern_info(2); auto)
qed

definition mph_added :: "Matcher entries \<Rightarrow> MphMatcherGroup" where
  "mph_added es = build_group Mph_Add NewMphMatcherGroup es"

lemma Mph_Add_inv': "mph_inv g \<Longrightarrow> mph_inv (Mph_Add m v g)"
  by (cases m) (simp_all add: Mph_Add_inv)

lemma mph_added_inv: "mph_inv (mph_added es)"
proof (induction es rule: rev_induct)
  case (snoc e es)
  then show ?case by (cases e) (simp add: mph_added_def build_group_snoc Mph_Add_inv')
qed (simp add: mph_added_def Mph_Add_inv)

lemma mph_added_info:
  "info_pair (al_get (ruleInfos (mph_added es)) k) = key_vals es k \<and>
   (al_get (ruleInfos (mph_added es)) k \<noteq> None \<longleftrightarrow> key_vals es k \<noteq> ([], []))"
proof (induction es rule: rev_induct)
  case (snoc e es)
  obtain m v where e: "e = (m, v)" by (cases e)
  have a: "mph_added (es @ [e]) = Mph_Add m v (mph_added es)" by (simp add: mph_added_def build_group_snoc e)
  show ?case
    using snoc Mph_Add_info [of m v "mph_added es" k] unfolding a
    by (auto simp: e key_vals_snoc prod_eq_iff simp del: key_vals.simps)
qed (simp add: mph_added_def NewMphMatcherGroup_def info_pair_def)

lemma addPattern_length:
  "length (ruleInfos (snd (addPattern h suf p t v g))) \<le> Suc (length (ruleInfos g))"
  by (simp add: addPattern_def Let_def length_al_put)

lemma Mph_Add_length: "length (ruleInfos (Mph_Add m v g)) \<le> length (ruleInfos g) + 2"
proof (cases m)
  case (FullMatcher p)
  then show ?thesis using addPattern_length [of 0 "[]" "ToLower p" FullT v g] by (simp add: Mph_AddFull_def)
next
  case (DomainMatcher p)
  let ?a = "addPattern 0 [] (ToLower p) DomainT v g"
  have "length (ruleInfos (snd (addPattern (fst ?a) (ToLower p) ''.'' DomainT v (snd ?a)))) \<le>
      Suc (Suc (length (ruleInfos g)))"
    using addPattern_length [of "fst ?a" "ToLower p" "''.''" DomainT v "snd ?a"]
      addPattern_length [of 0 "[]" "ToLower p" DomainT v g] by linarith
  with DomainMatcher show ?thesis by (simp add: Mph_AddDomain_def Let_def split_beta)
qed simp_all

lemma mph_added_length: "length (ruleInfos (mph_added es)) \<le> 2 * length es"
proof (induction es rule: rev_induct)
  case (snoc e es)
  obtain m v where e: "e = (m, v)" by (cases e)
  have "mph_added (es @ [e]) = Mph_Add m v (mph_added es)" by (simp add: mph_added_def build_group_snoc e)
  with snoc Mph_Add_length [of m v "mph_added es"] show ?case by simp
qed (simp add: mph_added_def NewMphMatcherGroup_def)

text \<open>A matcher on the lower-case pattern, as the group stores it.\<close>

fun lower_matcher :: "Matcher \<Rightarrow> Matcher" where
  "lower_matcher (FullMatcher p) = FullMatcher (ToLower p)"
| "lower_matcher (DomainMatcher p) = DomainMatcher (ToLower p)"
| "lower_matcher (SubstrMatcher p) = SubstrMatcher (ToLower p)"
| "lower_matcher m = m"

fun mph_pattern_ok :: "Matcher \<Rightarrow> bool" where
  "mph_pattern_ok (FullMatcher p) = (p = [] \<or> hd p \<noteq> CHR ''.'')"
| "mph_pattern_ok (DomainMatcher p) = (p = [] \<or> hd p \<noteq> CHR ''.'')"
| "mph_pattern_ok m = False"

definition mph_entries_ok :: "Matcher entries \<Rightarrow> bool" where
  "mph_entries_ok es \<longleftrightarrow> length es < 2 ^ 29 \<and> (\<forall>e \<in> set es. mph_pattern_ok (fst e))"

lemma lower_char_dot_iff: "lower_char c = CHR ''.'' \<longleftrightarrow> c = CHR ''.''"
proof (cases "is_upper c")
  case True
  then have "is_lower (lower_char c)" by (rule lower_char_upper)
  with True show ?thesis by (auto simp: is_lower_def is_upper_def less_eq_char_def)
qed (simp add: lower_char_def)

lemma key_vals_set:
  "v \<in> set (fst (key_vals es k)) \<longleftrightarrow> (\<exists>p. (FullMatcher p, v) \<in> set es \<and> ToLower p = k)"
  "v \<in> set (snd (key_vals es k)) \<longleftrightarrow>
    (\<exists>p. (DomainMatcher p, v) \<in> set es \<and> (ToLower p = k \<or> CHR ''.'' # ToLower p = k))"
  by (induction es k rule: key_vals.induct) (auto split: prod.splits Matcher.splits)

lemma domain_match_dot_suffix:
  "domain_match q s \<longleftrightarrow> s = q \<or> CHR ''.'' # q \<in> set (dot_suffixes s)"
  unfolding domain_match_iff set_dot_suffixes
  by (auto simp: suffix_def) (metis append_butlast_last_id append_Cons append_Nil append_assoc)+

definition mph_hits :: "Matcher entries \<Rightarrow> string \<Rightarrow> u32 set" where
  "mph_hits es k = set (fst (key_vals es k)) \<union> set (snd (key_vals es k))"

text \<open>What an entry of the group accepts: a table holds keys only, so a pattern that begins with a dot is also
  found as the end of a domain.\<close>

definition dotted :: "string \<Rightarrow> bool" where
  "dotted p \<longleftrightarrow> (\<exists>q. p = CHR ''.'' # q)"

fun mph_accepts :: "Matcher \<Rightarrow> string \<Rightarrow> bool" where
  "mph_accepts (FullMatcher p) s \<longleftrightarrow> s = ToLower p \<or> dotted p \<and> HasSuffix s (ToLower p)"
| "mph_accepts (DomainMatcher p) s \<longleftrightarrow> domain_match (ToLower p) s \<or> dotted p \<and> HasSuffix s (ToLower p)"
| "mph_accepts m s \<longleftrightarrow> False"

lemma lower_in_dot_suffixes: "ToLower p \<in> set (dot_suffixes s) \<longleftrightarrow> dotted p \<and> HasSuffix s (ToLower p)"
  by (cases p) (auto simp: set_dot_suffixes HasSuffix_def dotted_def ToLower_def lower_char_dot_iff)

lemma mph_hits_iff:
  "v \<in> mph_hits es s \<union> (\<Union>t \<in> set (dot_suffixes s). mph_hits es t) \<longleftrightarrow> (\<exists>m. (m, v) \<in> set es \<and> mph_accepts m s)"
    (is "?L \<longleftrightarrow> ?R")
proof -
  have self: "CHR ''.'' # q = s \<Longrightarrow> CHR ''.'' # q \<in> set (dot_suffixes s)" for q
    by (auto simp: set_dot_suffixes)
  have "?R \<longleftrightarrow> (\<exists>p. (FullMatcher p, v) \<in> set es \<and> mph_accepts (FullMatcher p) s) \<or>
      (\<exists>p. (DomainMatcher p, v) \<in> set es \<and> mph_accepts (DomainMatcher p) s)"
    by (metis (no_types) Matcher.exhaust mph_accepts.simps)
  also have "\<dots> \<longleftrightarrow> (\<exists>p. (FullMatcher p, v) \<in> set es \<and> (ToLower p = s \<or> ToLower p \<in> set (dot_suffixes s))) \<or>
      (\<exists>p. (DomainMatcher p, v) \<in> set es \<and>
         (ToLower p = s \<or> CHR ''.'' # ToLower p \<in> set (dot_suffixes s) \<or> ToLower p \<in> set (dot_suffixes s)))"
    unfolding mph_accepts.simps domain_match_dot_suffix lower_in_dot_suffixes by blast
  also have "\<dots> \<longleftrightarrow> ?L"
    unfolding mph_hits_def Un_iff UN_iff key_vals_set using self by blast
  finally show ?thesis by blast
qed

lemma mph_pattern_accepts: "mph_pattern_ok m \<Longrightarrow> mph_accepts m s \<longleftrightarrow> mMatch (lower_matcher m) s"
  by (cases m) (auto simp: dotted_def)

lemma mph_group_spec:
  assumes es: "length es < 2 ^ 29" and ord: "range_order ord" and b: "Build mh ord (mph_added es) = Some g"
  shows "Mph_Match mh g s = concat (map (\<lambda>k. fst (key_vals es k) @ snd (key_vals es k)) (s # rev (dot_suffixes s)))"
    and "set (Mph_Match mh g s) = {v. \<exists>m. (m, v) \<in> set es \<and> mph_accepts m s}"
    and "Mph_MatchAny mh g s \<longleftrightarrow> (\<exists>(m, v) \<in> set es. mph_accepts m s)"
proof -
  have "length (ruleInfos (mph_added es)) < 2 ^ 31 - 1"
    using es mph_added_length [of es] by simp
  then have ok: "lookup_ok mh (ruleInfos (mph_added es)) g"
    using Build_lookup_ok [OF mph_added_inv _ ord b] by simp
  have lv: "lookup_vals (ruleInfos (mph_added es)) k = fst (key_vals es k) @ snd (key_vals es k)" for k
    using mph_added_info [of es k]
    by (cases "al_get (ruleInfos (mph_added es)) k")
      (auto simp: lookup_vals_def info_pair_def info_values_def prod_eq_iff)
  show m: "Mph_Match mh g s = concat (map (\<lambda>k. fst (key_vals es k) @ snd (key_vals es k)) (s # rev (dot_suffixes s)))"
    by (simp add: Mph_Match_vals [OF ok] lv [abs_def])
  have "set (Mph_Match mh g s) = mph_hits es s \<union> (\<Union>t \<in> set (dot_suffixes s). mph_hits es t)"
    unfolding m by (auto simp: mph_hits_def)
  then show st: "set (Mph_Match mh g s) = {v. \<exists>m. (m, v) \<in> set es \<and> mph_accepts m s}"
    using mph_hits_iff [of _ es s] by blast
  have hit: "al_get (ruleInfos (mph_added es)) k \<noteq> None \<longleftrightarrow> mph_hits es k \<noteq> {}" for k
    using mph_added_info [of es k] by (auto simp: mph_hits_def prod_eq_iff)
  have "Mph_MatchAny mh g s \<longleftrightarrow> mph_hits es s \<union> (\<Union>t \<in> set (dot_suffixes s). mph_hits es t) \<noteq> {}"
    unfolding Mph_MatchAny_keys [OF ok] hit by blast
  also have "\<dots> \<longleftrightarrow> (\<exists>(m, v) \<in> set es. mph_accepts m s)"
    using mph_hits_iff [of _ es s] by blast
  finally show "Mph_MatchAny mh g s \<longleftrightarrow> (\<exists>(m, v) \<in> set es. mph_accepts m s)" .
qed

lemma mph_group_plain:
  assumes es: "mph_entries_ok es" and "range_order ord" "Build mh ord (mph_added es) = Some g"
  shows "set (Mph_Match mh g s) = {v. \<exists>m. (m, v) \<in> set es \<and> mMatch (lower_matcher m) s}"
    and "Mph_MatchAny mh g s \<longleftrightarrow> (\<exists>(m, v) \<in> set es. mMatch (lower_matcher m) s)"
proof -
  have "mph_accepts m s \<longleftrightarrow> mMatch (lower_matcher m) s" if "(m, v) \<in> set es" for m v
    using es that mph_pattern_accepts by (fastforce simp: mph_entries_ok_def)
  then show "set (Mph_Match mh g s) = {v. \<exists>m. (m, v) \<in> set es \<and> mMatch (lower_matcher m) s}"
    "Mph_MatchAny mh g s \<longleftrightarrow> (\<exists>(m, v) \<in> set es. mMatch (lower_matcher m) s)"
    using mph_group_spec(2,3) [OF _ assms(2,3), of s] es by (auto simp: mph_entries_ok_def)
qed

end
