(* ===== verification/StrProps.thy ===== *)
theory StrProps
  imports MphProofs
begin

text \<open>The properties of the string matchers of \<open>common/geodata/strmatcher\<close>, with an instance of each.\<close>

section \<open>Basic matchers\<close>

text \<open>C17. The literals a regular expression matcher looks for before it runs the expression never
  change its answer: the matcher accepts exactly the texts the expression matches.\<close>

theorem regex_prefilter_exact:
  assumes "newRegexMatcher parse p = Inr m" "parse p = Some re"
  shows "mMatch m s \<longleftrightarrow> MatchString re s"
  using assms by (auto simp: newRegexMatcher_def simp del: mMatch.simps intro!: regex_Match)

definition ex_re :: Regexp where
  "ex_re = OpConcat [OpLiteral False [97, 100], OpStar OpAnyChar, OpPlus (OpLiteral False [98])]"

theorem regex_prefilter_exact_witness:
  "mMatch (RegexMatcher ''ad.*b+'' ex_re [''ad'', ''b'']) ''xadxb'' \<longleftrightarrow> MatchString ex_re ''xadxb''"
  by (rule regex_prefilter_exact [where parse = "\<lambda>_. Some ex_re" and p = "''ad.*b+''"])
    (simp_all add: newRegexMatcher_def ex_re_def string_of_runes_def EncodeRune_def char_of_eq_iff)

text \<open>If idna returns ASCII only, normalising a pattern ends, and a pattern that is accepted
  consists of lower-case letters, digits, hyphens and periods; a pattern of such characters in
  either case is its own lower-case form.\<close>

theorem ToDomain_ends_lower:
  assumes "\<And>q r. idna q = Some r \<Longrightarrow> ldh_loop False r \<noteq> ScanNonASCII"
  shows "\<exists>r. ToDomain idna p = Some r \<and> (\<forall>d. r = Inr d \<longrightarrow> (\<forall>c \<in> set d. lower_ldh c)) \<and>
    ((\<forall>c \<in> set p. is_upper c \<or> lower_ldh c) \<longrightarrow> r = Inr (ToLower p))"
proof -
  have ascii: "\<exists>r. ToDomain idna q = Some r" if "ldh_loop False q \<noteq> ScanNonASCII" for q
    using that by (subst ToDomain.simps) (auto split: ldh_scan.splits)
  have "\<exists>r. ToDomain idna p = Some r"
    using ascii assms by (subst ToDomain.simps) (auto split: ldh_scan.splits option.splits)
  then obtain r where r: "ToDomain idna p = Some r" by blast
  have scan: "ldh_loop u p = ScanASCII (u \<or> (\<exists>c \<in> set p. is_upper c))" if "\<forall>c \<in> set p. is_upper c \<or> lower_ldh c" for u
    using that
  proof (induction p arbitrary: u)
    case (Cons c cs)
    then have "(of_char c :: nat) < 128"
      by (auto simp: lower_ldh_def is_upper_def is_lower_def is_digit_def less_eq_char_def)
    with Cons show ?case using lower_ldh_not_upper [of c] by (auto simp: lower_ldh_def)
  qed simp
  have "r = Inr (ToLower p)" if "\<forall>c \<in> set p. is_upper c \<or> lower_ldh c"
  proof -
    from ToDomain.simps [of idna p] r
    have "Some r = (case ldh_loop False p of ScanBad \<Rightarrow> Some (Inl NotLDH)
      | ScanNonASCII \<Rightarrow> (case idna p of None \<Rightarrow> Some (Inl IdnaFailed) | Some q \<Rightarrow> ToDomain idna q)
      | ScanASCII up \<Rightarrow> Some (Inr (if up then ToLower p else p)))" by simp
    with scan [OF that, of False] ldh_loop_lower(2) [of p] show ?thesis by simp
  qed
  with r ToDomain_lower [OF r] show ?thesis by auto
qed

theorem ToDomain_ends_lower_witness:
  "\<exists>r. ToDomain (\<lambda>_. None) ''Example.COM'' = Some r \<and> r = Inr ''example.com''"
proof -
  have "ToLower ''Example.COM'' = ''example.com''"
    by (simp add: ToLower_def lower_char_def is_upper_def less_eq_char_def char_of_eq_iff)
  moreover have "\<forall>c \<in> set ''Example.COM''. is_upper c \<or> lower_ldh c"
    by (simp add: is_upper_def lower_ldh_def is_lower_def is_digit_def less_eq_char_def)
  ultimately show ?thesis using ToDomain_ends_lower [of "\<lambda>_. None" "''Example.COM''"] by auto
qed

section \<open>Sets and groups\<close>

text \<open>The matcher that only answers whether a pattern matches (hash set, label trie, substrings
  and expressions) answers yes exactly when one of the matchers that were added does, in
  whatever order they were added.\<close>

theorem linear_any_exact:
  assumes "list_all pattern_ok ms"
  shows "LinearAny_MatchAny (fold LinearAny_Add ms NewLinearAnyMatcher) s \<longleftrightarrow> (\<exists>m \<in> set ms. mMatch m s)"
  using assms by (rule linear_any.any_build)

theorem linear_any_exact_witness:
  "LinearAny_MatchAny (fold LinearAny_Add [DomainMatcher ''b.c'', SubstrMatcher ''xy''] NewLinearAnyMatcher) ''a.b.c'' \<and>
   \<not> LinearAny_MatchAny (fold LinearAny_Add [DomainMatcher ''b.c'', SubstrMatcher ''xy''] NewLinearAnyMatcher) ''ab.c''"
  by (subst (1 2) linear_any_exact)
    (auto simp: domain_ok_def domain_match_def HasSuffix_def Contains_def suffix_def sublist_code)

text \<open>The values of domain patterns come out by the priority specification: those of longer
  domains first, those of one domain in the order in which they were added.\<close>

theorem domain_group_priority:
  "DomainGroup_Match (build_group DomainGroup_Add NewDomainMatcherGroup es) s =
   concat (map (\<lambda>d. map snd (filter (\<lambda>e. domain_labels (fst e) = take d (domain_labels s)) es))
     (rev [1..<Suc (length (domain_labels s))]))"
  by (rule DomainGroup_Match_priority)

text \<open>With at most 65536 patterns, none of them empty, and an input of at most 65536 bytes, the
  substring group returns, and its values are those of the occurrences ordered by position and
  then by the order of addition.\<close>

theorem substr_group_priority:
  assumes "substr_admissible es" "short_input s"
  shows "SubstrGroup_Match (build_group SubstrGroup_Add empty_substr_group es) s =
    Some (map (\<lambda>(j, i). snd (es ! i)) (sort (substr_pairs s 0 (map fst es))))"
  using assms by (rule SubstrGroup_Match_sorted)

theorem substr_group_priority_witness:
  "SubstrGroup_Match (build_group SubstrGroup_Add empty_substr_group [(''b'', 7), (''ab'', 9)]) ''cab'' =
    Some (map (\<lambda>(j, i). snd ([(''b'', 7), (''ab'', 9)] ! i)) (sort (substr_pairs ''cab'' 0 [''b'', ''ab''])))"
  using substr_group_priority [of "[(''b'', 7), (''ab'', 9)]" "''cab''"]
  by (simp add: substr_admissible_def short_input_def)

text \<open>A substring group with an empty pattern does not return from \<open>Match\<close>, on any input.\<close>

theorem substr_group_diverges:
  assumes "[] \<in> set (sg_patterns g)"
  shows "SubstrGroup_Match g s = None"
proof -
  have "substr_scan s i ps = None" if "[] \<in> set ps" for i ps
    using that by (induction s i ps rule: substr_scan.induct) (auto simp: substr_hits_empty split: option.splits)
  with assms show ?thesis by (simp add: SubstrGroup_Match_def)
qed

theorem substr_group_diverges_witness:
  "SubstrGroup_Match \<lparr>sg_patterns = [[]], sg_values = [1]\<rparr> ''example.com'' = None"
  by (rule substr_group_diverges) simp

text \<open>The matcher that returns indices: for every input of at most 65536 bytes it returns, and
  what it returns are the indices, counted from one in the order of addition, of exactly the
  matchers that match; \<open>MatchAny\<close> agrees.\<close>

theorem linear_index_exact:
  assumes "linear_admissible (indexed ms)" "short_input s"
  shows "(\<exists>vs. LinearIndex_Match (index_build ms) s = Some vs \<and>
      set vs = {of_nat (Suc i) | i. i < length ms \<and> mMatch (ms ! i) s}) \<and>
    (LinearIndex_MatchAny (index_build ms) s \<longleftrightarrow> (\<exists>m \<in> set ms. mMatch m s))"
  using index_Match_spec(1) [OF assms] index_Match_spec(2) [OF assms(1)] by (rule conjI)

theorem linear_index_exact_witness:
  "LinearIndex_MatchAny (index_build [FullMatcher ''a'', DomainMatcher ''b.c'']) ''x.b.c''"
proof -
  have "linear_admissible (indexed [FullMatcher ''a'', DomainMatcher ''b.c''])"
    by (simp add: linear_admissible_def indexed_def kinds map_filter_def domains_ok_def domain_ok_def
        substr_admissible_def)
  moreover have "domain_match ''b.c'' ''x.b.c''"
    by (simp add: domain_match_def HasSuffix_def suffix_def)
  ultimately show ?thesis
    using linear_index_exact [of "[FullMatcher ''a'', DomainMatcher ''b.c'']" "''x.b.c''"]
    by (simp add: short_input_def)
qed

section \<open>The minimal perfect hash\<close>

text \<open>C14. Whatever the hash function of the runtime and the order of equal buckets: when the table
  of fewer than \<open>2 ^ 29\<close> patterns is built, the group returns exactly the values of the full and domain
  patterns that match, with the patterns in lower case, and \<open>MatchAny\<close> agrees. A pattern that begins
  with a dot, full or domain, also matches every domain that ends with it: \<open>full:.com\<close> accepts \<open>a.com\<close>.\<close>

theorem mph_group_exact:
  assumes "length es < 2 ^ 29" "range_order ord" "Build mh ord (mph_added es) = Some g"
  shows "set (Mph_Match mh g s) = {v. \<exists>m. (m, v) \<in> set es \<and> mph_accepts m s} \<and>
    (Mph_MatchAny mh g s \<longleftrightarrow> (\<exists>(m, v) \<in> set es. mph_accepts m s))"
  using mph_group_spec(2,3) [OF assms] by blast

text \<open>The search for a seed ends as soon as some seed places the bucket without collision, with
  the least such seed; what was tried before leaves no trace in the table.\<close>

theorem mph_seed_search_ends:
  assumes "fits_seed mh msk rules bucket occ (of_nat n)" "\<And>sd s. mem_slot mh msk sd s < length occ"
  shows "\<exists>k \<le> n. \<exists>st. place_bucket mh msk rules bucket 0 occ l1 = Some (of_nat k, st) \<and>
    (\<forall>j < k. \<not> fits_seed mh msk rules bucket occ (of_nat j))"
  using place_bucket_least [of mh msk rules bucket occ 0 n l1] assms by simp

definition ex_hash :: "u32 \<Rightarrow> string \<Rightarrow> u32" where
  "ex_hash seed s = (if seed = 0 then 0 else 1)"

theorem mph_seed_search_ends_witness:
  "\<exists>k \<le> 1. \<exists>st. place_bucket ex_hash 1 [[], ''a'', ''b''] [1] 0 [True, False] [5, 0] = Some (of_nat k, st) \<and>
    (\<forall>j < k. \<not> fits_seed ex_hash 1 [[], ''a'', ''b''] [1] [True, False] (of_nat j))"
proof (rule mph_seed_search_ends)
  show "fits_seed ex_hash 1 [[], ''a'', ''b''] [1] [True, False] (of_nat 1)"
    by (simp add: fits_seed_def mem_slot_def ex_hash_def)
  show "mem_slot ex_hash 1 sd s < length [True, False]" for sd s
    by (simp add: mem_slot_def ex_hash_def)
qed

lemma ex_mph_build:
  "\<exists>g. Build (\<lambda>seed s. 0) (\<lambda>xs. xs) (mph_added [(FullMatcher p, 7)]) = Some g"
  by (simp add: mph_added_def build_group_def Mph_AddFull_def addPattern_def NewMphMatcherGroup_def
      Build_def Let_def nextPow2_def fill_buckets_def rule_info_def RollingHash_def mem_slot_def
      place_bucket.simps)

theorem mph_group_exact_witness:
  "\<exists>g. Build (\<lambda>seed s. 0) (\<lambda>xs. xs) (mph_added [(FullMatcher ''.com'', 7)]) = Some g \<and>
    set (Mph_Match (\<lambda>seed s. 0) g ''a.com'') = {7} \<and> set (Mph_Match (\<lambda>seed s. 0) g ''a.org'') = {}"
proof -
  obtain g where g: "Build (\<lambda>seed s. 0) (\<lambda>xs. xs) (mph_added [(FullMatcher ''.com'', 7)]) = Some g"
    using ex_mph_build by blast
  have low: "ToLower ''.com'' = ''.com''" by (simp add: ToLower_def lower_char_def is_upper_def less_eq_char_def)
  have "{v. \<exists>m. (m, v) \<in> set [(FullMatcher ''.com'', 7 :: u32)] \<and> mph_accepts m ''a.com''} = {7}"
    "{v. \<exists>m. (m, v) \<in> set [(FullMatcher ''.com'', 7 :: u32)] \<and> mph_accepts m ''a.org''} = {}"
    by (auto simp: low dotted_def HasSuffix_def suffix_def Cons_eq_append_conv)
  moreover have "length [(FullMatcher ''.com'', 7 :: u32)] < 2 ^ 29" by simp
  note conjunct1 [OF mph_group_exact [OF this range_order_id(1) g]]
  ultimately show ?thesis using g by (intro exI [of _ g]) (simp only: simp_thms)
qed

end
