(* ===== verification/GeoLoader.thy ===== *)
theory GeoLoader
  imports IPFactoryDefs
begin

text \<open>
  \<open>common/geodata/geodat_loader.go\<close>: finding the entry of a code in a GeoIP or GeoSite file without
  decoding the other entries, and the attribute filter of GeoSite lists. A file is its list of
  bytes, and reading from the buffered reader is taking bytes from the front. Opening an asset and
  decoding a protobuf message are parameters.
\<close>

section \<open>Errors and data\<close>

datatype geo_error =
    EOF | UnexpectedEOF | VarintOverflow | InvalidBodyLength nat | EmptyCode
  | OpenFailed string | CheckFailed geo_error | LoadCodeFailed geo_error | UnmarshalFailed

text \<open>A protobuf enumeration is an \<open>int32\<close>, and values without a name can occur.\<close>

type_synonym Domain_Type = int

abbreviation (input) "Domain_Substr \<equiv> (0 :: Domain_Type)"
abbreviation (input) "Domain_Regex \<equiv> (1 :: Domain_Type)"
abbreviation (input) "Domain_Domain \<equiv> (2 :: Domain_Type)"
abbreviation (input) "Domain_Full \<equiv> (3 :: Domain_Type)"

record GeoDomain =
  dom_type :: Domain_Type
  dom_value :: string
  dom_attribute :: "string list"

section \<open>Reading a file\<close>

text \<open>The loop of \<open>decodeVarint\<close> with the shift and the value so far.\<close>

function varint_loop :: "nat \<Rightarrow> u64 \<Rightarrow> byte list \<Rightarrow> (geo_error + u64) \<times> byte list" where
  "varint_loop shift x bs =
     (if shift < 64 then
        (case bs of
           [] \<Rightarrow> (Inl EOF, [])
         | b # r \<Rightarrow>
             if shift = 63 \<and> 1 < b then (Inl VarintOverflow, r)
             else let x' = x OR push_bit shift (ucast b AND 0x7F)
                  in if b AND 0x80 = 0 then (Inr x', r) else varint_loop (shift + 7) x' r)
      else (Inl VarintOverflow, bs))"
  by pat_completeness auto
termination by (relation "measure (\<lambda>(shift, _, _). 64 - shift)") auto

declare varint_loop.simps [simp del]

definition decodeVarint :: "byte list \<Rightarrow> (geo_error + u64) \<times> byte list" where
  "decodeVarint bs = varint_loop 0 0 bs"

lemma varint_loop_length: "varint_loop shift x bs = (r, rest) \<Longrightarrow> length rest \<le> length bs"
proof (induction shift x bs arbitrary: r rest rule: varint_loop.induct)
  case (1 shift x bs)
  show ?case
  proof (cases bs)
    case Nil
    with 1(2) show ?thesis by (subst (asm) varint_loop.simps) (auto split: if_splits)
  next
    case (Cons b bs')
    show ?thesis
      using 1(2) Cons 1(1) [OF _ Cons]
      by (subst (asm) varint_loop.simps) (fastforce simp: Let_def split: if_splits)
  qed
qed

definition MaxInt :: nat where
  "MaxInt = 2 ^ 63 - 1"

text \<open>The loop of \<open>find\<close>. An entry is a tag byte, the length of its body, and the body, which starts
  with a key byte and the length of the code. \<open>Inr []\<close> without \<open>readBody\<close> is the result \<open>nil\<close>.\<close>

function (sequential) find_loop :: "byte list \<Rightarrow> bool \<Rightarrow> byte list \<Rightarrow> geo_error + byte list" where
  "find_loop code readBody [] = Inl EOF"
| "find_loop code readBody (tag # r1) =
     (case decodeVarint r1 of
        (Inl e, _) \<Rightarrow> Inl e
      | (Inr x, r2) \<Rightarrow>
          if x = 0 \<or> MaxInt < unat x then Inl (InvalidBodyLength (unat x))
          else
            let bodyL = unat x; need = 2 + length code; prefixL = min bodyL need
            in if length r2 < prefixL then Inl (if r2 = [] then EOF else UnexpectedEOF)
               else
                 let prefix = take prefixL r2; r3 = drop prefixL r2; remain = bodyL - prefixL;
                     found = (need \<le> bodyL \<and> unat (prefix ! 1) = length code \<and> drop 2 prefix = code)
                 in if found \<and> \<not> readBody then Inr []
                    else if length r3 < remain then Inl EOF
                    else if found then Inr (prefix @ take remain r3)
                    else find_loop code readBody (drop remain r3))"
  by pat_completeness auto
termination
proof (relation "measure (\<lambda>(_, _, bs). length bs)", goal_cases)
  case 2
  then show ?case by (auto simp: decodeVarint_def dest!: varint_loop_length [OF sym])
qed simp

declare find_loop.simps [simp del]

definition find_code :: "byte list \<Rightarrow> byte list \<Rightarrow> bool \<Rightarrow> geo_error + byte list" where
  "find_code file code readBody = (if code = [] then Inl EmptyCode else find_loop code readBody file)"

section \<open>Loading lists\<close>

definition bytes_of :: "string \<Rightarrow> byte list" where
  "bytes_of s = map (\<lambda>c. of_nat (of_char c)) s"

type_synonym assets = "string \<Rightarrow> byte list option"

definition checkFile :: "assets \<Rightarrow> string \<Rightarrow> string \<Rightarrow> geo_error option" where
  "checkFile open_asset file code =
     (case open_asset file of
        None \<Rightarrow> Some (OpenFailed file)
      | Some r \<Rightarrow> (case find_code r (bytes_of code) False of Inl e \<Rightarrow> Some (CheckFailed e) | Inr _ \<Rightarrow> None))"

definition loadFile :: "assets \<Rightarrow> string \<Rightarrow> string \<Rightarrow> geo_error + byte list" where
  "loadFile open_asset file code =
     (case open_asset file of
        None \<Rightarrow> Inl (OpenFailed file)
      | Some r \<Rightarrow> (case find_code r (bytes_of code) True of Inl e \<Rightarrow> Inl (LoadCodeFailed e) | Inr bs \<Rightarrow> Inr bs))"

definition loadIP :: "assets \<Rightarrow> (byte list \<Rightarrow> CIDR list option) \<Rightarrow> string \<Rightarrow> string \<Rightarrow> geo_error + CIDR list" where
  "loadIP open_asset unmarshal file code =
     (case loadFile open_asset file code of
        Inl e \<Rightarrow> Inl e
      | Inr bs \<Rightarrow> (case unmarshal bs of None \<Rightarrow> Inl UnmarshalFailed | Some cs \<Rightarrow> Inr cs))"

definition loadSite :: "assets \<Rightarrow> (byte list \<Rightarrow> GeoDomain list option) \<Rightarrow> string \<Rightarrow> string \<Rightarrow>
    geo_error + GeoDomain list" where
  "loadSite open_asset unmarshal file code =
     (case loadFile open_asset file code of
        Inl e \<Rightarrow> Inl e
      | Inr bs \<Rightarrow> (case unmarshal bs of None \<Rightarrow> Inl UnmarshalFailed | Some ds \<Rightarrow> Inr ds))"

section \<open>Attributes\<close>

text \<open>\<open>strings.Split\<close> with a separator of one byte.\<close>

fun Split :: "char \<Rightarrow> string \<Rightarrow> string list" where
  "Split sep [] = [[]]"
| "Split sep (c # cs) =
     (if c = sep then [] # Split sep cs
      else case Split sep cs of [] \<Rightarrow> [[c]] | w # ws \<Rightarrow> (c # w) # ws)"

fun HasAttr_Match :: "string \<Rightarrow> string list \<Rightarrow> bool" where
  "HasAttr_Match m [] = False"
| "HasAttr_Match m (k # ks) = (if k = m then True else HasAttr_Match m ks)"

type_synonym AllAttrsMatcher = "string list"

fun AllAttrs_Match :: "AllAttrsMatcher \<Rightarrow> GeoDomain \<Rightarrow> bool" where
  "AllAttrs_Match [] d = True"
| "AllAttrs_Match (m # ms) d =
     (if \<not> HasAttr_Match m (dom_attribute d) then False else AllAttrs_Match ms d)"

definition NewAllAttrsMatcher :: "string \<Rightarrow> AllAttrsMatcher option" where
  "NewAllAttrsMatcher attrs = (if attrs = [] then None else Some (Split CHR ''@'' attrs))"

definition loadSiteWithAttrs :: "assets \<Rightarrow> (byte list \<Rightarrow> GeoDomain list option) \<Rightarrow> string \<Rightarrow> string \<Rightarrow>
    string \<Rightarrow> geo_error + GeoDomain list" where
  "loadSiteWithAttrs open_asset unmarshal file code attrs =
     (case loadSite open_asset unmarshal file code of
        Inl e \<Rightarrow> Inl e
      | Inr domains \<Rightarrow>
          (case NewAllAttrsMatcher attrs of
             None \<Rightarrow> Inr domains
           | Some m \<Rightarrow> Inr (filter (AllAttrs_Match m) domains)))"

section \<open>The files\<close>

text \<open>What a file is meant to be: the base-128 encoding of numbers, least significant group first, and
  a sequence of entries. The code is the first field of a body, and its length fits in one group.\<close>

fun varint :: "nat \<Rightarrow> byte list" where
  "varint n = (if n < 128 then [of_nat n] else of_nat (n mod 128 + 128) # varint (n div 128))"

declare varint.simps [simp del]

record geo_entry =
  ge_tag :: byte
  ge_key :: byte
  ge_code :: "byte list"
  ge_rest :: "byte list"

definition entry_body :: "geo_entry \<Rightarrow> byte list" where
  "entry_body g = ge_key g # of_nat (length (ge_code g)) # ge_code g @ ge_rest g"

definition entry_bytes :: "geo_entry \<Rightarrow> byte list" where
  "entry_bytes g = ge_tag g # varint (length (entry_body g)) @ entry_body g"

definition entry_ok :: "geo_entry \<Rightarrow> bool" where
  "entry_ok g \<longleftrightarrow> length (ge_code g) < 128 \<and> length (entry_body g) \<le> MaxInt"

definition file_bytes :: "geo_entry list \<Rightarrow> byte list" where
  "file_bytes gs = concat (map entry_bytes gs)"

end
