(* ===== verification/RuleParser.thy ===== *)
theory RuleParser
  imports GeoLoader Net
begin

text \<open>
  \<open>common/geodata/rule_parser.go\<close>: from the text of IP and domain rules to rules. Checking that a file
  has a code goes through \<open>checkFile\<close> and reads the asset.
\<close>

section \<open>Data and errors\<close>

record GeoSiteRule =
  gs_file :: string
  gs_code :: string
  gs_attrs :: string

datatype DomainRule = DomainRule_Geosite GeoSiteRule | DomainRule_Custom GeoDomain

datatype rule_error =
    SyntaxError | EmptyFile | EmptyRuleCode | EmptyAttr | CheckFileError geo_error
  | UnsupportedFamily | InvalidPrefixLength num_error | PrefixTooLong nat nat | DotInDotless
  | IllegalIPRule string rule_error | IllegalDomainRule string rule_error

definition DefaultGeoIPDat :: string where "DefaultGeoIPDat = ''geoip.dat''"

definition DefaultGeoSiteDat :: string where "DefaultGeoSiteDat = ''geosite.dat''"

section \<open>IP rules\<close>

fun cutReversePrefix :: "string \<Rightarrow> string \<times> bool" where
  "cutReversePrefix [] = ([], False)"
| "cutReversePrefix (c # s) =
     (if c = CHR ''!'' then (case cutReversePrefix s of (t, r) \<Rightarrow> (t, \<not> r)) else (c # s, False))"

definition parseGeoIPRule :: "assets \<Rightarrow> string \<Rightarrow> bool \<Rightarrow> rule_error + GeoIPRule" where
  "parseGeoIPRule open_asset rule rev0 =
     (case Cut CHR '':'' rule of (file, code0, ok) \<Rightarrow>
        if \<not> ok then Inl SyntaxError
        else if file = [] then Inl EmptyFile
        else case cutReversePrefix code0 of (code1, codeReverse) \<Rightarrow>
          let reverse = (rev0 \<noteq> codeReverse)
          in if code1 = [] then Inl EmptyRuleCode
             else let code = ToUpper code1
                  in case checkFile open_asset file code of
                       Some e \<Rightarrow> Inl (CheckFileError e)
                     | None \<Rightarrow> Inr \<lparr>gip_file = file, gip_code = code, gip_reverse = reverse\<rparr>)"

definition parseCIDR :: "string \<Rightarrow> rule_error + CIDR" where
  "parseCIDR s =
     (case Cut CHR ''/'' s of (ipStr, prefixStr, _) \<Rightarrow>
        let ipAddr = ParseAddress ipStr
        in case (case Family ipAddr of AddressFamilyIPv4 \<Rightarrow> Some 32 | AddressFamilyIPv6 \<Rightarrow> Some 128 | _ \<Rightarrow> None) of
             None \<Rightarrow> Inl UnsupportedFamily
           | Some maxPrefix \<Rightarrow>
               (case (if prefixStr \<noteq> [] then ParseUint32 prefixStr else Inr maxPrefix) of
                  Inl e \<Rightarrow> Inl (InvalidPrefixLength e)
                | Inr prefixBits \<Rightarrow>
                    if maxPrefix < prefixBits then Inl (PrefixTooLong prefixBits maxPrefix)
                    else Inr \<lparr>cidr_ip = the (AddrIP ipAddr), cidr_prefix = of_nat prefixBits\<rparr>))"

definition parseCustomIPRule :: "string \<Rightarrow> bool \<Rightarrow> rule_error + IPRule" where
  "parseCustomIPRule rule reverse =
     (case parseCIDR rule of Inl e \<Rightarrow> Inl e | Inr c \<Rightarrow> Inr (IPRule_Custom c reverse))"

text \<open>The loop over the external prefixes: the length of the first one that the text has, or 0.\<close>

fun ext_prefix :: "string list \<Rightarrow> string \<Rightarrow> nat" where
  "ext_prefix [] r = 0"
| "ext_prefix (ext # exts) r = (if HasPrefix r ext then length ext else ext_prefix exts r)"

definition parse_ip_rule :: "assets \<Rightarrow> string \<Rightarrow> rule_error + IPRule" where
  "parse_ip_rule open_asset text =
     (case cutReversePrefix text of (r0, reverse) \<Rightarrow>
        let r = (if HasPrefix r0 ''geoip:''
                 then ''ext:'' @ DefaultGeoIPDat @ '':'' @ drop (length ''geoip:'') r0 else r0);
            prefix = ext_prefix [''ext:'', ''ext-ip:''] r;
            res = (if 0 < prefix
                   then (case parseGeoIPRule open_asset (drop prefix r) reverse of
                           Inl e \<Rightarrow> Inl e | Inr g \<Rightarrow> Inr (IPRule_Geoip g))
                   else parseCustomIPRule r reverse)
        in case res of Inl e \<Rightarrow> Inl (IllegalIPRule text e) | Inr rule \<Rightarrow> Inr rule)"

definition ParseIPRules :: "assets \<Rightarrow> string list \<Rightarrow> rule_error + IPRule list" where
  "ParseIPRules open_asset rules = map_err (parse_ip_rule open_asset) rules"

section \<open>Domain rules\<close>

definition parseGeoSiteRule :: "assets \<Rightarrow> string \<Rightarrow> rule_error + GeoSiteRule" where
  "parseGeoSiteRule open_asset rule =
     (case Cut CHR '':'' rule of (file, codeWithAttrs, ok) \<Rightarrow>
        if \<not> ok then Inl SyntaxError
        else if file = [] then Inl EmptyFile
        else if HasSuffix codeWithAttrs ''@'' \<or> Contains codeWithAttrs ''@@'' then Inl EmptyAttr
        else case Cut CHR ''@'' codeWithAttrs of (code0, attrs, _) \<Rightarrow>
          if code0 = [] then Inl EmptyRuleCode
          else let code = ToUpper code0
               in case checkFile open_asset file code of
                    Some e \<Rightarrow> Inl (CheckFileError e)
                  | None \<Rightarrow> Inr \<lparr>gs_file = file, gs_code = code, gs_attrs = ToLower attrs\<rparr>)"

definition custom_domain :: "Domain_Type \<Rightarrow> string \<Rightarrow> GeoDomain" where
  "custom_domain t v = \<lparr>dom_type = t, dom_value = v, dom_attribute = []\<rparr>"

definition parseCustomDomainRule :: "string \<Rightarrow> Domain_Type \<Rightarrow> rule_error + GeoDomain" where
  "parseCustomDomainRule rule defaultType =
     (if HasPrefix rule ''regexp:'' then Inr (custom_domain Domain_Regex (drop 7 rule))
      else if HasPrefix rule ''domain:'' then Inr (custom_domain Domain_Domain (drop 7 rule))
      else if HasPrefix rule ''full:'' then Inr (custom_domain Domain_Full (drop 5 rule))
      else if HasPrefix rule ''keyword:'' then Inr (custom_domain Domain_Substr (drop 8 rule))
      else if HasPrefix rule ''dotless:'' then
        (let substr = drop 8 rule
         in if substr = [] then Inr (custom_domain Domain_Regex ''^[^.]*$'')
            else if \<not> Contains substr ''.''
            then Inr (custom_domain Domain_Regex (''^[^.]*'' @ substr @ ''[^.]*$''))
            else Inl DotInDotless)
      else Inr (custom_domain defaultType rule))"

definition parse_domain_rule :: "assets \<Rightarrow> string \<Rightarrow> Domain_Type \<Rightarrow> (rule_error + DomainRule) \<times> string" where
  "parse_domain_rule open_asset text defaultType =
     (let r = (if HasPrefix text ''geosite:''
               then ''ext:'' @ DefaultGeoSiteDat @ '':'' @ drop (length ''geosite:'') text else text);
          prefix = ext_prefix [''ext:'', ''ext-domain:'', ''ext-site:''] r
      in ((if 0 < prefix
           then (case parseGeoSiteRule open_asset (drop prefix r) of
                   Inl e \<Rightarrow> Inl e | Inr g \<Rightarrow> Inr (DomainRule_Geosite g))
           else (case parseCustomDomainRule r defaultType of
                   Inl e \<Rightarrow> Inl e | Inr d \<Rightarrow> Inr (DomainRule_Custom d))), r))"

text \<open>The two entry points differ in the text of the error: one names the rewritten rule, the other
  the rule as it was given.\<close>

definition ParseDomainRule :: "assets \<Rightarrow> string \<Rightarrow> Domain_Type \<Rightarrow> rule_error + DomainRule" where
  "ParseDomainRule open_asset text defaultType =
     (case parse_domain_rule open_asset text defaultType of
        (Inl e, r) \<Rightarrow> Inl (IllegalDomainRule r e)
      | (Inr rule, _) \<Rightarrow> Inr rule)"

definition ParseDomainRules :: "assets \<Rightarrow> string list \<Rightarrow> Domain_Type \<Rightarrow> rule_error + DomainRule list" where
  "ParseDomainRules open_asset rules defaultType =
     map_err (\<lambda>text. case parse_domain_rule open_asset text defaultType of
        (Inl e, _) \<Rightarrow> Inl (IllegalDomainRule text e)
      | (Inr rule, _) \<Rightarrow> Inr rule) rules"

end
