(* ===== verification/GeoProps.thy ===== *)
theory GeoProps
  imports RuleParser IPFactory
begin

text \<open>
  Properties of the loader of GeoIP and GeoSite files and of the rule parser: numbers and entries are
  read back as they were written, and the rules that the parser accepts are rules the factories
  handle.
\<close>

section \<open>Reading what was written\<close>

lemma low_group:
  fixes b :: byte
  shows "ucast b AND 0x7F = (of_nat (unat b mod 128) :: u64)"
proof -
  have "ucast b AND 0x7F = (take_bit 7 (ucast b) :: u64)"
    by (simp add: take_bit_eq_mask mask_eq_exp_minus_1)
  moreover have unat: "unat (take_bit 7 (ucast b) :: u64) = unat b mod 128"
    by (subst unsigned_take_bit_eq) (simp add: unsigned_ucast_eq take_bit_eq_mod mod_mod_cancel)
  moreover have "of_nat (unat (take_bit 7 (ucast b) :: u64)) = (take_bit 7 (ucast b) :: u64)" by simp
  ultimately show ?thesis by simp
qed

lemma top_bit:
  fixes b :: byte
  shows "b AND 0x80 = 0 \<longleftrightarrow> unat b < 128"
proof -
  have "b AND 0x80 = 0 \<longleftrightarrow> \<not> bit b 7"
    using and_exp_eq_0_iff_not_bit [of b 7] by simp
  also have "\<dots> \<longleftrightarrow> \<not> bit (unat b) 7" by (simp add: bit_unsigned_iff)
  also have "\<dots> \<longleftrightarrow> even (unat b div 128)" by (simp add: bit_iff_odd)
  also have "\<dots> \<longleftrightarrow> unat b < 128"
  proof -
    have "unat b < 256" using unsigned_less [of b] by simp
    then have "unat b div 128 < 2" by simp
    then show ?thesis by (cases "unat b div 128") (auto simp: div_eq_0_iff)
  qed
  finally show ?thesis .
qed

lemma push_group:
  "push_bit 7 (of_nat (n div 128)) OR of_nat (n mod 128) = (of_nat n :: u64)"
proof -
  have "(of_nat n :: u64) = of_nat (128 * (n div 128) + n mod 128)" by simp
  also have "\<dots> = push_bit 7 (of_nat (n div 128)) + of_nat (n mod 128)"
    unfolding of_nat_add of_nat_mult push_bit_eq_mult by simp
  also have "\<dots> = push_bit 7 (of_nat (n div 128)) OR of_nat (n mod 128)"
  proof (rule disjunctive_add)
    fix k
    have "bit (n mod 128) k \<Longrightarrow> k < 7" using bit_take_bit_iff [of 7 n k] by (simp add: take_bit_eq_mod)
    then show "\<not> bit (push_bit 7 (of_nat (n div 128)) :: u64) k \<or> \<not> bit (of_nat (n mod 128) :: u64) k"
      by (auto simp: bit_push_bit_iff bit_of_nat_iff)
  qed
  finally show ?thesis ..
qed

lemma varint_loop_varint:
  "n < 2 ^ (64 - shift) \<Longrightarrow> shift \<le> 63 \<Longrightarrow>
   varint_loop shift x (varint n @ rest) = (Inr (x OR push_bit shift (of_nat n)), rest)"
proof (induction n arbitrary: shift x rule: varint.induct)
  case (1 n)
  show ?case
  proof (cases "n < 128")
    case True
    have n: "unat (of_nat n :: byte) = n" using True by (simp add: unsigned_of_nat take_bit_eq_mod)
    have "\<not> (shift = 63 \<and> 1 < (of_nat n :: byte))"
      using 1(2) n by (auto simp: word_less_nat_alt)
    then show ?thesis
      using True 1(3) n
      by (subst varint.simps, subst varint_loop.simps) (auto simp: Let_def low_group top_bit)
  next
    case False
    let ?b = "of_nat (n mod 128 + 128) :: byte"
    have s: "shift + 7 \<le> 63"
    proof (rule ccontr)
      assume "\<not> shift + 7 \<le> 63"
      then have "(2::nat) ^ (64 - shift) \<le> 2 ^ 7" by (intro power_increasing) auto
      with 1(2) False show False by simp
    qed
    have "unat ?b = (n mod 128 + 128) mod 2 ^ 8" by (simp only: unsigned_of_nat take_bit_eq_mod) simp
    moreover have "n mod 128 + 128 < 2 ^ 8" using mod_less_divisor [of 128 n] by simp
    ultimately have b: "unat ?b = n mod 128 + 128" by simp
    have "n < 2 ^ (64 - (shift + 7)) * 128"
    proof -
      have "64 - shift = 64 - (shift + 7) + 7" using s by simp
      then have "(2::nat) ^ (64 - shift) = 2 ^ (64 - (shift + 7)) * 2 ^ 7" by (metis power_add)
      with 1(2) show ?thesis by simp
    qed
    then have lt: "n div 128 < 2 ^ (64 - (shift + 7))" by (simp add: div_less_iff_less_mult)
    have eq: "(x OR push_bit shift (of_nat (n mod 128))) OR push_bit (shift + 7) (of_nat (n div 128)) =
        x OR push_bit shift (of_nat n)"
    proof -
      have "push_bit shift (push_bit 7 (of_nat (n div 128)) OR of_nat (n mod 128)) = (push_bit shift (of_nat n) :: u64)"
        by (simp only: push_group)
      then show ?thesis by (simp only: push_bit_or push_bit_push_bit or.assoc or.commute)
    qed
    show ?thesis
      using False s 1(1) [OF False lt s, of "x OR push_bit shift (of_nat (n mod 128))"] b eq
      by (subst varint.simps, subst varint_loop.simps) (simp add: Let_def low_group top_bit)
  qed
qed

lemma decodeVarint_varint: "n < 2 ^ 64 \<Longrightarrow> decodeVarint (varint n @ rest) = (Inr (of_nat n), rest)"
  using varint_loop_varint [of n 0 0 rest] by (simp add: decodeVarint_def)

lemma find_loop_entry:
  assumes ok: "entry_ok g" and code: "code \<noteq> []"
  shows "find_loop code rb (entry_bytes g @ rest) =
    (if ge_code g = code then Inr (if rb then entry_body g else []) else find_loop code rb rest)"
proof -
  let ?B = "entry_body g" let ?n = "length ?B"
  have n: "?n < 2 ^ 64" "?n \<noteq> 0" "?n \<le> MaxInt" and c: "length (ge_code g) < 128"
    using ok by (auto simp: entry_ok_def MaxInt_def entry_body_def)
  then have un: "unat (of_nat ?n :: u64) = ?n" by (simp add: unsigned_of_nat take_bit_eq_mod)
  with n(2) have nz: "(of_nat ?n :: u64) \<noteq> 0" by auto
  have lenc: "unat (of_nat (length (ge_code g)) :: byte) = length (ge_code g)"
    using c by (simp add: unsigned_of_nat take_bit_eq_mod)
  have found: "(2 + length code \<le> ?n \<and> unat (take (min ?n (2 + length code)) (?B @ rest) ! 1) = length code \<and>
      drop 2 (take (min ?n (2 + length code)) (?B @ rest)) = code) \<longleftrightarrow> ge_code g = code" (is "?F \<longleftrightarrow> _")
  proof
    assume F: ?F
    then have m: "min ?n (2 + length code) = 2 + length code" by simp
    with F have "length (ge_code g) = length code" by (simp add: entry_body_def lenc)
    with F m show "ge_code g = code" by (simp add: entry_body_def)
  qed (auto simp: entry_body_def lenc min_def)
  have "find_loop code rb (entry_bytes g @ rest) =
      (if ?F \<and> \<not> rb then Inr [] else if ?F then Inr ?B else find_loop code rb rest)"
    using n un nz
    by (simp add: entry_bytes_def find_loop.simps decodeVarint_varint Let_def take_append min_def) linarith
  with found show ?thesis by simp
qed

lemma find_loop_file:
  assumes "list_all entry_ok gs" "code \<noteq> []"
  shows "find_loop code rb (file_bytes gs) =
    (case find (\<lambda>g. ge_code g = code) gs of None \<Rightarrow> Inl EOF | Some g \<Rightarrow> Inr (if rb then entry_body g else []))"
  using assms
proof (induction gs)
  case Nil
  then show ?case by (simp add: file_bytes_def find_loop.simps)
next
  case (Cons g gs)
  then show ?case using find_loop_entry [of g code rb "file_bytes gs"] by (simp add: file_bytes_def)
qed

text \<open>C36. In a file that is a sequence of entries whose codes are shorter than 128 bytes, looking for a
  code returns the body of the first entry with this code, byte for byte, and fails with the end
  of the file when there is none; without reading the body the same codes are accepted.\<close>

theorem find_reads_first_entry:
  assumes "list_all entry_ok gs" "code \<noteq> []"
  shows "find_code (file_bytes gs) code True =
      (case find (\<lambda>g. ge_code g = code) gs of None \<Rightarrow> Inl EOF | Some g \<Rightarrow> Inr (entry_body g)) \<and>
    (find_code (file_bytes gs) code False = Inr [] \<longleftrightarrow> (\<exists>g \<in> set gs. ge_code g = code))"
proof (cases "find (\<lambda>g. ge_code g = code) gs")
  case None
  then have "\<not> (\<exists>g \<in> set gs. ge_code g = code)" by (auto simp: find_None_iff)
  with None show ?thesis using assms(2) find_loop_file [OF assms] by (simp add: find_code_def)
next
  case (Some g)
  then have "g \<in> set gs" "ge_code g = code" by (auto simp: find_Some_iff)
  with Some show ?thesis using assms(2) find_loop_file [OF assms] by (auto simp: find_code_def)
qed

theorem find_reads_first_entry_witness:
  "find_code (file_bytes [\<lparr>ge_tag = 10, ge_key = 10, ge_code = [67, 78], ge_rest = [1]\<rparr>,
      \<lparr>ge_tag = 10, ge_key = 10, ge_code = [85, 83], ge_rest = replicate 200 7\<rparr>]) [85, 83] True =
    Inr (entry_body \<lparr>ge_tag = 10, ge_key = 10, ge_code = [85, 83], ge_rest = replicate 200 7\<rparr>)"
  by (subst find_reads_first_entry [THEN conjunct1])
    (simp_all add: entry_ok_def entry_body_def MaxInt_def)

section \<open>Rules\<close>

lemma upper_char_comma: "upper_char c = CHR '','' \<longleftrightarrow> c = CHR '',''"
proof (cases "is_lower c")
  case True
  then have "97 \<le> (of_char c :: nat)" "(of_char c :: nat) \<le> 122"
    by (simp_all add: is_lower_def less_eq_char_def)
  then show ?thesis using True by (auto simp: upper_char_def char_of_eq_iff is_lower_def less_eq_char_def take_bit_eq_mod)
qed (simp add: upper_char_def)

lemma ToUpper_comma: "CHR '','' \<in> set (ToUpper s) \<longleftrightarrow> CHR '','' \<in> set s"
  using upper_char_comma by (simp add: ToUpper_def image_iff) metis

lemma cutReversePrefix_replicate:
  "s = [] \<or> hd s \<noteq> CHR ''!'' \<Longrightarrow> cutReversePrefix (replicate n CHR ''!'' @ s) = (s, odd n)"
  by (induction n) (cases s; auto)+

lemma cutReversePrefix_text:
  "cutReversePrefix s = (t, r) \<Longrightarrow> \<exists>n. s = replicate n CHR ''!'' @ t \<and> r = odd n \<and> (t = [] \<or> hd t \<noteq> CHR ''!'')"
proof (induction s arbitrary: t r)
  case (Cons c s)
  show ?case
  proof (cases "c = CHR ''!''")
    case True
    with Cons.prems obtain r' where "cutReversePrefix s = (t, r')" "r = (\<not> r')" by (auto split: prod.splits)
    with Cons.IH obtain n where "s = replicate n CHR ''!'' @ t" "r' = odd n" "t = [] \<or> hd t \<noteq> CHR ''!''" by blast
    with True \<open>r = (\<not> r')\<close> show ?thesis by (intro exI [of _ "Suc n"]) auto
  next
    case False
    with Cons.prems show ?thesis by (intro exI [of _ 0]) auto
  qed
qed auto

lemma ParseAddress_length:
  "ParseAddress s = ipv4Address p \<Longrightarrow> length p = 4" "ParseAddress s = ipv6Address p \<Longrightarrow> length p = 16"
  by (auto simp: ParseAddress_def IPAddress_def Let_def split: option.splits if_splits)

lemma parseCIDR_valid: "parseCIDR s = Inr c \<Longrightarrow> cidr_netprefix c \<noteq> None"
  by (cases "ParseAddress (fst (Cut CHR ''/'' s))")
    (auto simp: parseCIDR_def Let_def cidr_netprefix_def AddrFromSlice_def PrefixFrom_def PrefixIsValid_def
      unsigned_of_nat take_bit_eq_mod dest: ParseAddress_length split: prod.splits sum.splits if_splits)

lemma parseGeoIPRule_fields:
  assumes "parseGeoIPRule A rule b = Inr g"
  shows "CHR '':'' \<notin> set (gip_file g) \<and> gip_file g \<noteq> [] \<and> gip_code g \<noteq> [] \<and>
    checkFile A (gip_file g) (gip_code g) = None \<and> (CHR '','' \<notin> set rule \<longrightarrow> CHR '','' \<notin> set (gip_code g))"
proof -
  obtain f code0 ok where cut: "Cut CHR '':'' rule = (f, code0, ok)" by (metis prod_cases3)
  obtain code1 r where rev: "cutReversePrefix code0 = (code1, r)" by fastforce
  have ok: "ok" using assms cut by (auto simp: parseGeoIPRule_def split: if_splits)
  have split: "rule = f @ CHR '':'' # code0" "CHR '':'' \<notin> set f"
    using cut ok Cut_found by auto
  obtain n where code1: "code0 = replicate n CHR ''!'' @ code1" using cutReversePrefix_text [OF rev] by blast
  have g: "g = \<lparr>gip_file = f, gip_code = ToUpper code1, gip_reverse = (b \<noteq> r)\<rparr>" "f \<noteq> []" "code1 \<noteq> []"
    "checkFile A f (ToUpper code1) = None"
    using assms cut rev ok by (auto simp: parseGeoIPRule_def Let_def split: if_splits option.splits)
  then show ?thesis
    using split code1 ToUpper_comma [of code1] by (auto simp: ToUpper_def)
qed

definition usable_rule :: "assets \<Rightarrow> IPRule \<Rightarrow> bool" where
  "usable_rule A r = (case r of
     IPRule_Custom c b \<Rightarrow> cidr_netprefix c \<noteq> None
   | IPRule_Geoip g \<Rightarrow> CHR '':'' \<notin> set (gip_file g) \<and> gip_file g \<noteq> [] \<and> gip_code g \<noteq> [] \<and>
       checkFile A (gip_file g) (gip_code g) = None)"

lemma parse_ip_rule_usable:
  assumes "parse_ip_rule A t = Inr r"
  shows "usable_rule A r \<and> (\<forall>g. CHR '','' \<notin> set t \<longrightarrow> r = IPRule_Geoip g \<longrightarrow> CHR '','' \<notin> set (gip_code g))"
proof -
  obtain r0 b where cut: "cutReversePrefix t = (r0, b)" by fastforce
  define r1 where "r1 = (if HasPrefix r0 ''geoip:'' then ''ext:'' @ DefaultGeoIPDat @ '':'' @ drop (length ''geoip:'') r0 else r0)"
  have sub: "set r0 \<subseteq> set t" using cutReversePrefix_text [OF cut] by auto
  have r1: "CHR '','' \<notin> set t \<Longrightarrow> CHR '','' \<notin> set (drop k r1)" for k
    using sub by (auto simp: r1_def DefaultGeoIPDat_def dest!: in_set_dropD)
  define k where "k = ext_prefix [''ext:'', ''ext-ip:''] r1"
  have eq: "parse_ip_rule A t =
      (case (if 0 < k then (case parseGeoIPRule A (drop k r1) b of Inl e \<Rightarrow> Inl e | Inr g \<Rightarrow> Inr (IPRule_Geoip g))
             else parseCustomIPRule r1 b) of Inl e \<Rightarrow> Inl (IllegalIPRule t e) | Inr rule \<Rightarrow> Inr rule)"
    by (simp only: parse_ip_rule_def cut prod.case Let_def r1_def k_def)
  show ?thesis
  proof (cases "0 < k")
    case True
    then obtain g where g: "parseGeoIPRule A (drop k r1) b = Inr g" "r = IPRule_Geoip g"
      using assms unfolding eq by (auto split: sum.splits)
    then show ?thesis using parseGeoIPRule_fields [OF g(1)] r1 by (auto simp: usable_rule_def)
  next
    case False
    then obtain c where "parseCIDR r1 = Inr c" "r = IPRule_Custom c b"
      using assms unfolding eq by (auto simp: parseCustomIPRule_def split: sum.splits)
    then show ?thesis using parseCIDR_valid by (auto simp: usable_rule_def)
  qed
qed

text \<open>C37. Every rule of an accepted list of IP rules can be used by the matcher factory: a CIDR is a
  valid prefix, so that no custom rule is dropped when the set is built; a GeoIP rule names a file
  and a code that the file has; and without commas in the texts the rules satisfy the assumption
  under which the cache keys of the factory identify lists.\<close>

theorem parsed_ip_rules_usable:
  assumes "ParseIPRules A texts = Inr rs"
  shows "length rs = length texts \<and> list_all (usable_rule A) rs \<and>
    ((\<forall>t \<in> set texts. CHR '','' \<notin> set t) \<longrightarrow> rules_ok rs)"
proof -
  have all: "list_all2 (\<lambda>t r. parse_ip_rule A t = Inr r) texts rs"
    using assms by (simp add: ParseIPRules_def map_err_Inr)
  then have use: "list_all (usable_rule A) rs"
    using parse_ip_rule_usable by (force simp: list_all_iff list_all2_conv_all_nth in_set_conv_nth)
  moreover have "gip_ok g" if "\<forall>t \<in> set texts. CHR '','' \<notin> set t" "IPRule_Geoip g \<in> set rs" for g
  proof -
    from that(2) obtain i where i: "i < length rs" "rs ! i = IPRule_Geoip g" by (auto simp: in_set_conv_nth)
    define t where "t = texts ! i"
    have "t \<in> set texts" "parse_ip_rule A t = Inr (IPRule_Geoip g)"
      using all i by (simp_all add: t_def list_all2_conv_all_nth)
    with that(1) use that(2) show ?thesis
      using parse_ip_rule_usable [of A t "IPRule_Geoip g"] by (auto simp: gip_ok_def usable_rule_def)
  qed
  ultimately show ?thesis
    using map_err_length [OF assms [unfolded ParseIPRules_def]]
    by (auto simp: rules_ok_def list_all_iff posGeoip_def negGeoip_def map_filter_def
        split: IPRule.splits if_splits)
qed

definition ex_assets :: assets where
  "ex_assets f = (if f = ''geoip.dat''
     then Some (file_bytes [\<lparr>ge_tag = 10, ge_key = 10, ge_code = [67, 78], ge_rest = [1]\<rparr>]) else None)"

lemma ex_check: "checkFile ex_assets ''geoip.dat'' ''CN'' = None"
proof -
  have "find_code (file_bytes [\<lparr>ge_tag = 10, ge_key = 10, ge_code = [67, 78], ge_rest = [1]\<rparr>]) [67, 78] False = Inr []"
    using find_loop_file [of "[\<lparr>ge_tag = 10, ge_key = 10, ge_code = [67, 78], ge_rest = [1]\<rparr>]" "[67, 78]" False]
    by (simp add: find_code_def entry_ok_def entry_body_def MaxInt_def)
  then show ?thesis by (simp add: checkFile_def ex_assets_def bytes_of_def)
qed

lemma ex_parse:
  "ParseIPRules ex_assets [''!geoip:!cn'', ''10.0.0.0/8''] =
    Inr [IPRule_Geoip \<lparr>gip_file = ''geoip.dat'', gip_code = ''CN'', gip_reverse = False\<rparr>,
         IPRule_Custom \<lparr>cidr_ip = [10, 0, 0, 0], cidr_prefix = 8\<rparr> False]"
proof -
  have up: "ToUpper ''cn'' = ''CN''"
    by (simp add: ToUpper_def upper_char_def is_lower_def less_eq_char_def char_of_eq_iff)
  have "ParseIP ''10.0.0.0'' = Some (replicate 10 0 @ [255, 255, 10, 0, 0, 0])"
    by (simp add: ParseIP_def parseIPv4_def is_digit_def less_eq_char_def digit_value_def To16_def)
  then have addr: "ParseAddress ''10.0.0.0'' = ipv4Address [10, 0, 0, 0]"
    by (simp add: ParseAddress_def strip_brackets_def isAlphaNum_def is_digit_def less_eq_char_def IPAddress_def Let_def nth_append)
  have cidr: "parseCIDR ''10.0.0.0/8'' = Inr \<lparr>cidr_ip = [10, 0, 0, 0], cidr_prefix = 8\<rparr>"
    by (simp add: parseCIDR_def addr Let_def ParseUint32_def dec_value_def is_digit_def less_eq_char_def digit_value_def)
  show ?thesis
    by (simp add: ParseIPRules_def parse_ip_rule_def HasPrefix_def DefaultGeoIPDat_def parseGeoIPRule_def
        up ex_check parseCustomIPRule_def cidr)
qed

theorem parsed_ip_rules_usable_witness:
  "rules_ok [IPRule_Geoip \<lparr>gip_file = ''geoip.dat'', gip_code = ''CN'', gip_reverse = False\<rparr>,
     IPRule_Custom \<lparr>cidr_ip = [10, 0, 0, 0], cidr_prefix = 8\<rparr> False]"
  using parsed_ip_rules_usable [OF ex_parse] by simp

end
