(* ===== verification/AcAutomaton.thy ===== *)
theory AcAutomaton
  imports MphProofs
begin

text \<open>
  \<open>matchergroup_ac_automation.go\<close> of \<open>common/geodata/strmatcher\<close>: an Aho-Corasick automaton for full,
  domain and substring patterns, read from the last byte to the first. The automaton is the table
  \<open>nodes\<close> of the code, with the indices of nodes and of match entries as natural numbers (2 to the
  32 nodes of more than 200 bytes each do not fit in memory). \<open>Build\<close> is a loop over a queue and
  a partial function here; the theory \<open>AcProofs\<close> shows that it returns.
\<close>

section \<open>The table\<close>

abbreviation (input) "acValidCharCount \<equiv> (39 :: nat)"

definition acCharset :: "char \<Rightarrow> nat" where
  "acCharset c =
     (if is_upper c then of_char c - 64
      else if is_lower c then of_char c - 96
      else if c = CHR ''-'' then 27
      else if c = CHR ''.'' then 28
      else if is_digit c then of_char c - 48 + 29
      else 0)"

record acNode =
  nnext :: "nat list"
  nedge :: "bool list"
  nfail :: nat
  nmatch :: nat

type_synonym acValue = "u32 list list"

record ACAutomatonMatcherGroup =
  acnodes :: "acNode list"
  acvalues :: "acValue list"

definition empty_node :: acNode where
  "empty_node = \<lparr>nnext = replicate 39 0, nedge = replicate 39 False, nfail = 0, nmatch = 0\<rparr>"

definition ac_addNode :: "ACAutomatonMatcherGroup \<Rightarrow> nat \<times> ACAutomatonMatcherGroup" where
  "ac_addNode ac =
     (let ac' = ac\<lparr>acnodes := acnodes ac @ [empty_node]\<rparr> in (length (acnodes ac') - 1, ac'))"

definition addMatchEntry :: "ACAutomatonMatcherGroup \<Rightarrow> nat \<times> ACAutomatonMatcherGroup" where
  "addMatchEntry ac =
     (let ac' = ac\<lparr>acvalues := acvalues ac @ [replicate 3 []]\<rparr> in (length (acvalues ac') - 1, ac'))"

definition NewACAutomatonMatcherGroup :: ACAutomatonMatcherGroup where
  "NewACAutomatonMatcherGroup =
     snd (addMatchEntry (snd (ac_addNode \<lparr>acnodes = [], acvalues = []\<rparr>)))"

text \<open>Replacing one node, and the two entries of a node for one edge.\<close>

definition set_node :: "nat \<Rightarrow> (acNode \<Rightarrow> acNode) \<Rightarrow> ACAutomatonMatcherGroup \<Rightarrow> ACAutomatonMatcherGroup" where
  "set_node n f ac = ac\<lparr>acnodes := (acnodes ac)[n := f (acnodes ac ! n)]\<rparr>"

definition set_edge :: "nat \<Rightarrow> nat \<Rightarrow> bool \<Rightarrow> acNode \<Rightarrow> acNode" where
  "set_edge e to trie nd = nd\<lparr>nnext := (nnext nd)[e := to], nedge := (nedge nd)[e := trie]\<rparr>"

section \<open>Adding patterns\<close>

text \<open>The loop of \<open>addPattern\<close>, on the bytes of the pattern from the last to the first.\<close>

fun ac_walk :: "string \<Rightarrow> nat \<Rightarrow> ACAutomatonMatcherGroup \<Rightarrow> nat \<times> ACAutomatonMatcherGroup" where
  "ac_walk [] n ac = (n, ac)"
| "ac_walk (c # cs) n ac =
     (let edgeIdx = acCharset c; nextIdx = nnext (acnodes ac ! n) ! edgeIdx
      in if nextIdx = 0
         then (case ac_addNode ac of (new, ac') \<Rightarrow> ac_walk cs new (set_node n (set_edge edgeIdx new True) ac'))
         else ac_walk cs nextIdx ac)"

definition ac_addPattern :: "nat \<Rightarrow> string \<Rightarrow> mtype \<Rightarrow> u32 \<Rightarrow> ACAutomatonMatcherGroup \<Rightarrow>
    nat \<times> ACAutomatonMatcherGroup" where
  "ac_addPattern start pattern t v ac =
     (case ac_walk (rev pattern) start ac of (n, ac1) \<Rightarrow>
        let ac2 = (if nmatch (acnodes ac1 ! n) = 0
                   then (case addMatchEntry ac1 of (m, ac') \<Rightarrow> set_node n (\<lambda>nd. nd\<lparr>nmatch := m\<rparr>) ac')
                   else ac1);
            m = nmatch (acnodes ac2 ! n);
            vals = acvalues ac2 ! m
        in (n, ac2\<lparr>acvalues := (acvalues ac2)[m := vals[unat t := vals ! unat t @ [v]]]\<rparr>))"

definition AC_AddFull :: "string \<Rightarrow> u32 \<Rightarrow> ACAutomatonMatcherGroup \<Rightarrow> ACAutomatonMatcherGroup" where
  "AC_AddFull p v ac = snd (ac_addPattern 0 p FullT v ac)"

definition AC_AddDomain :: "string \<Rightarrow> u32 \<Rightarrow> ACAutomatonMatcherGroup \<Rightarrow> ACAutomatonMatcherGroup" where
  "AC_AddDomain p v ac =
     (case ac_addPattern 0 p DomainT v ac of (n, ac') \<Rightarrow> snd (ac_addPattern n ''.'' DomainT v ac'))"

definition AC_AddSubstr :: "string \<Rightarrow> u32 \<Rightarrow> ACAutomatonMatcherGroup \<Rightarrow> ACAutomatonMatcherGroup" where
  "AC_AddSubstr p v ac = snd (ac_addPattern 0 p SubstrT v ac)"

section \<open>Building the fail edges\<close>

definition substr_match :: "ACAutomatonMatcherGroup \<Rightarrow> nat \<Rightarrow> bool" where
  "substr_match ac n =
     (let m = nmatch (acnodes ac ! n) in m \<noteq> 0 \<and> acvalues ac ! m ! unat SubstrT \<noteq> [])"

text \<open>The state of the loop: the automaton, the table \<open>fail\<close> and the queue. One step of the inner
  loop handles one edge of the current node.\<close>

type_synonym ac_build = "ACAutomatonMatcherGroup \<times> nat list \<times> nat list"

definition build_edge :: "nat \<Rightarrow> nat \<Rightarrow> nat \<Rightarrow> ac_build \<Rightarrow> ac_build" where
  "build_edge cur failNode edgeIdx st =
     (case st of (ac, fail, queue) \<Rightarrow>
        let nodeIdx = nnext (acnodes ac ! cur) ! edgeIdx;
            failIdx = nnext (acnodes ac ! failNode) ! edgeIdx
        in if nodeIdx \<noteq> 0
           then let f = (if substr_match ac failIdx then failIdx else nfail (acnodes ac ! failIdx))
                in (set_node nodeIdx (\<lambda>nd. nd\<lparr>nfail := f\<rparr>) ac, fail[nodeIdx := failIdx], queue @ [nodeIdx])
           else (set_node cur (set_edge edgeIdx failIdx False) ac, fail, queue))"

definition build_node :: "ac_build \<Rightarrow> ac_build" where
  "build_node st =
     (case st of (ac, fail, queue) \<Rightarrow>
        let cur = hd queue
        in fold (build_edge cur (fail ! cur)) [0..<acValidCharCount] (ac, fail, tl queue))"

partial_function (option) build_loop :: "ac_build \<Rightarrow> ACAutomatonMatcherGroup option" where
  "build_loop st =
     (case st of (ac, fail, queue) \<Rightarrow>
        if queue = [] then Some ac else build_loop (build_node (ac, fail, queue)))"

definition AC_Build :: "ACAutomatonMatcherGroup \<Rightarrow> ACAutomatonMatcherGroup option" where
  "AC_Build ac =
     build_loop (ac, replicate (length (acnodes ac)) 0, filter (\<lambda>n. n \<noteq> 0) (nnext (acnodes ac ! 0)))"

section \<open>Matching\<close>

text \<open>The loop along the fail path. The assignment of the loop header reads the old \<open>failIdx\<close>, so the
  node lags one step behind the index and every node of the path but the last is visited twice.
  The path of a table that is no forest would be endless.\<close>

partial_function (option) fail_path :: "ACAutomatonMatcherGroup \<Rightarrow> nat \<Rightarrow> nat \<Rightarrow> u32 list list option" where
  "fail_path ac failIdx failNode =
     (if failIdx = 0 then Some []
      else do {
        ms \<leftarrow> fail_path ac (nfail (acnodes ac ! failNode)) failIdx;
        Some ((acvalues ac ! nmatch (acnodes ac ! failNode) ! unat SubstrT) # ms)
      })"

text \<open>The loop of \<open>Match\<close>, on the bytes from the last to the first: the node reached, \<open>fullMatch\<close>, the
  substring matches and the suffix matches so far.\<close>

fun ac_scan :: "ACAutomatonMatcherGroup \<Rightarrow> string \<Rightarrow> nat \<Rightarrow> bool \<Rightarrow> u32 list list \<Rightarrow> u32 list list \<Rightarrow>
    (nat \<times> bool \<times> u32 list list \<times> u32 list list) option" where
  "ac_scan ac [] n fullMatch subs sufs = Some (n, fullMatch, subs, sufs)"
| "ac_scan ac (c # cs) n fullMatch subs sufs =
     (let edge = acCharset c;
          full' = (fullMatch \<and> nedge (acnodes ac ! n) ! edge);
          n' = nnext (acnodes ac ! n) ! edge;
          nd = acnodes ac ! n'
      in case (if nfail nd \<noteq> 0 then fail_path ac (nfail nd) (nfail nd) else Some []) of
           None \<Rightarrow> None
         | Some path \<Rightarrow>
             (if nmatch nd \<noteq> 0
              then let vals = acvalues ac ! nmatch nd;
                       subs' = subs @ path @ (if vals ! unat SubstrT \<noteq> [] then [vals ! unat SubstrT] else []);
                       sufs' = sufs @ (if full' \<and> c = CHR ''.'' \<and> vals ! unat DomainT \<noteq> []
                                       then [vals ! unat DomainT] else [])
                   in ac_scan ac cs n' full' subs' sufs'
              else ac_scan ac cs n' full' (subs @ path) sufs))"

definition AC_Match :: "ACAutomatonMatcherGroup \<Rightarrow> string \<Rightarrow> u32 list option" where
  "AC_Match ac input =
     (case ac_scan ac (rev input) 0 True [] [] of
        None \<Rightarrow> None
      | Some (n, fullMatch, subs, sufs) \<Rightarrow>
          let m = nmatch (acnodes ac ! n);
              vals = acvalues ac ! m;
              sufs' = (if fullMatch \<and> m \<noteq> 0
                       then sufs @ (if vals ! unat DomainT \<noteq> [] then [vals ! unat DomainT] else [])
                              @ (if vals ! unat FullT \<noteq> [] then [vals ! unat FullT] else [])
                       else sufs)
          in Some (if subs = [] then CompositeMatchesReverse sufs' else CompositeMatchesReverse (subs @ sufs')))"

fun ac_any :: "ACAutomatonMatcherGroup \<Rightarrow> string \<Rightarrow> nat \<Rightarrow> bool \<Rightarrow> bool" where
  "ac_any ac [] n fullMatch = (fullMatch \<and> nmatch (acnodes ac ! n) \<noteq> 0)"
| "ac_any ac (c # cs) n fullMatch =
     (let edge = acCharset c;
          full' = (fullMatch \<and> nedge (acnodes ac ! n) ! edge);
          n' = nnext (acnodes ac ! n) ! edge;
          nd = acnodes ac ! n';
          vals = acvalues ac ! nmatch nd
      in if nfail nd \<noteq> 0 then True
         else if nmatch nd \<noteq> 0 \<and> vals ! unat SubstrT \<noteq> [] then True
         else if nmatch nd \<noteq> 0 \<and> full' \<and> c = CHR ''.'' \<and> vals ! unat DomainT \<noteq> [] then True
         else ac_any ac cs n' full')"

definition AC_MatchAny :: "ACAutomatonMatcherGroup \<Rightarrow> string \<Rightarrow> bool" where
  "AC_MatchAny ac input = ac_any ac (rev input) 0 True"

section \<open>The matchers over the hash table and the automaton\<close>

record MphValueMatcher =
  mv_mph :: "MphMatcherGroup option"
  mv_ac :: "ACAutomatonMatcherGroup option"
  mv_regex :: "SimpleMatcherGroup option"

definition NewMphValueMatcher :: MphValueMatcher where
  "NewMphValueMatcher = \<lparr>mv_mph = None, mv_ac = None, mv_regex = None\<rparr>"

fun MphValue_Add :: "Matcher \<Rightarrow> u32 \<Rightarrow> 'a MphValueMatcher_scheme \<Rightarrow> 'a MphValueMatcher_scheme" where
  "MphValue_Add (FullMatcher p) v g =
     g\<lparr>mv_mph := Some (Mph_AddFull p v (or_new NewMphMatcherGroup (mv_mph g)))\<rparr>"
| "MphValue_Add (DomainMatcher p) v g =
     g\<lparr>mv_mph := Some (Mph_AddDomain p v (or_new NewMphMatcherGroup (mv_mph g)))\<rparr>"
| "MphValue_Add (SubstrMatcher p) v g =
     g\<lparr>mv_ac := Some (AC_AddSubstr p v (or_new NewACAutomatonMatcherGroup (mv_ac g)))\<rparr>"
| "MphValue_Add (RegexMatcher p re ls) v g =
     g\<lparr>mv_regex := Some (SimpleGroup_Add (RegexMatcher p re ls) v (or_new [] (mv_regex g)))\<rparr>"

definition opt_build :: "('g \<Rightarrow> 'g option) \<Rightarrow> 'g option \<Rightarrow> 'g option option" where
  "opt_build f o1 = (case o1 of None \<Rightarrow> Some None | Some g \<Rightarrow> map_option Some (f g))"

definition MphValue_Build :: "(u32 \<Rightarrow> string \<Rightarrow> u32) \<Rightarrow> (nat list \<Rightarrow> nat list) \<Rightarrow>
    'a MphValueMatcher_scheme \<Rightarrow> 'a MphValueMatcher_scheme option" where
  "MphValue_Build mh ord g = do {
     m \<leftarrow> opt_build (Build mh ord) (mv_mph g);
     a \<leftarrow> opt_build AC_Build (mv_ac g);
     Some (g\<lparr>mv_mph := m, mv_ac := a\<rparr>)
   }"

definition MphValue_Match :: "(u32 \<Rightarrow> string \<Rightarrow> u32) \<Rightarrow> 'a MphValueMatcher_scheme \<Rightarrow> string \<Rightarrow>
    u32 list option" where
  "MphValue_Match mh g input = do {
     m \<leftarrow> opt_values (\<lambda>g s. Some (Mph_Match mh g s)) (mv_mph g) input;
     a \<leftarrow> opt_values AC_Match (mv_ac g) input;
     r \<leftarrow> opt_values (\<lambda>g s. Some (SimpleGroup_Match g s)) (mv_regex g) input;
     Some (CompositeMatches (filter (\<lambda>m. m \<noteq> []) [m, a, r]))
   }"

definition MphValue_MatchAny :: "(u32 \<Rightarrow> string \<Rightarrow> u32) \<Rightarrow> 'a MphValueMatcher_scheme \<Rightarrow> string \<Rightarrow> bool" where
  "MphValue_MatchAny mh g input =
     (if opt_any (Mph_MatchAny mh) (mv_mph g) input then True
      else if opt_any AC_MatchAny (mv_ac g) input then True
      else opt_any SimpleGroup_MatchAny (mv_regex g) input)"

record MphIndexMatcher = MphValueMatcher +
  mi_count :: u32

definition NewMphIndexMatcher :: MphIndexMatcher where
  "NewMphIndexMatcher = \<lparr>mv_mph = None, mv_ac = None, mv_regex = None, mi_count = 0\<rparr>"

definition MphIndex_Add :: "Matcher \<Rightarrow> MphIndexMatcher \<Rightarrow> u32 \<times> MphIndexMatcher" where
  "MphIndex_Add m g =
     (let g' = g\<lparr>mi_count := mi_count g + 1\<rparr>; index = mi_count g' in (index, MphValue_Add m index g'))"

definition MphIndex_Build :: "(u32 \<Rightarrow> string \<Rightarrow> u32) \<Rightarrow> (nat list \<Rightarrow> nat list) \<Rightarrow> MphIndexMatcher \<Rightarrow>
    MphIndexMatcher option" where
  "MphIndex_Build mh ord g = MphValue_Build mh ord g"

definition MphIndex_Match :: "(u32 \<Rightarrow> string \<Rightarrow> u32) \<Rightarrow> MphIndexMatcher \<Rightarrow> string \<Rightarrow> u32 list option" where
  "MphIndex_Match mh g input = MphValue_Match mh g input"

definition MphIndex_MatchAny :: "(u32 \<Rightarrow> string \<Rightarrow> u32) \<Rightarrow> MphIndexMatcher \<Rightarrow> string \<Rightarrow> bool" where
  "MphIndex_MatchAny mh g input = MphValue_MatchAny mh g input"

definition MphIndex_Size :: "MphIndexMatcher \<Rightarrow> u32" where
  "MphIndex_Size g = mi_count g"

end
