(* ===== verification/AcTrie.thy ===== *)
theory AcTrie
  imports AcAutomaton
begin

text \<open>
  The table of the Aho-Corasick automaton while patterns are added: the nodes are the prefixes of the
  patterns (read backwards). A word is a list of edges; \<open>ps\<close> lists the word of every node. The
  invariant \<open>ac_ok\<close> relates the table to the entries added so far, and adding a matcher keeps it.
\<close>

section \<open>Words\<close>

definition ekey :: "string \<Rightarrow> nat list" where
  "ekey p = map acCharset (rev p)"

lemma acCharset_less: "acCharset c < 39"
  by (auto simp: acCharset_def is_upper_def is_lower_def is_digit_def less_eq_char_def)

lemma ekey_less: "e \<in> set (ekey p) \<Longrightarrow> e < 39"
  by (auto simp: ekey_def acCharset_less)

definition pos :: "nat list list \<Rightarrow> nat list \<Rightarrow> nat" where
  "pos ps w = (case find (\<lambda>i. ps ! i = w) [0..<length ps] of None \<Rightarrow> 0 | Some i \<Rightarrow> i)"

lemma pos_nth:
  assumes "distinct ps" "n < length ps"
  shows "pos ps (ps ! n) = n"
proof (cases "find (\<lambda>i. ps ! i = ps ! n) [0..<length ps]")
  case None
  then show ?thesis using assms by (auto simp: find_None_iff)
next
  case (Some i)
  then have "i < length ps" "ps ! i = ps ! n" by (auto simp: find_Some_iff)
  with assms Some show ?thesis by (simp add: pos_def nth_eq_iff_index_eq)
qed

lemma nth_pos:
  assumes "w \<in> set ps"
  shows "pos ps w < length ps" "ps ! pos ps w = w"
proof -
  from assms obtain n where n: "n < length ps" "ps ! n = w" by (auto simp: in_set_conv_nth)
  then obtain i where i: "find (\<lambda>i. ps ! i = w) [0..<length ps] = Some i"
    by (cases "find (\<lambda>i. ps ! i = w) [0..<length ps]") (auto simp: find_None_iff)
  then have "i < length ps" "ps ! i = w" by (auto simp: find_Some_iff)
  with i show "pos ps w < length ps" "ps ! pos ps w = w" by (simp_all add: pos_def)
qed

lemma pos_notin: "w \<notin> set ps \<Longrightarrow> pos ps w = 0"
  by (auto simp: pos_def find_Some_iff split: option.splits)

lemma pos_inj: "w \<in> set ps \<Longrightarrow> w' \<in> set ps \<Longrightarrow> pos ps w = pos ps w' \<longleftrightarrow> w = w'"
  by (metis nth_pos(2))

text \<open>The words of a trie, and what the table says before \<open>Build\<close>.\<close>

definition words_ok :: "nat list list \<Rightarrow> bool" where
  "words_ok ps \<longleftrightarrow> ps \<noteq> [] \<and> ps ! 0 = [] \<and> distinct ps \<and>
     (\<forall>w e. w @ [e] \<in> set ps \<longrightarrow> w \<in> set ps \<and> e < 39)"

lemma words_Nil: "words_ok ps \<Longrightarrow> [] \<in> set ps"
  by (metis length_greater_0_conv nth_mem words_ok_def)

lemma pos_Nil [simp]: "words_ok ps \<Longrightarrow> pos ps [] = 0"
  by (metis length_greater_0_conv pos_nth words_ok_def)

lemma pos_eq_0: "words_ok ps \<Longrightarrow> w \<in> set ps \<Longrightarrow> pos ps w = 0 \<longleftrightarrow> w = []"
  by (metis nth_pos(2) pos_Nil words_ok_def)

lemma pos_eq_0': "words_ok ps \<Longrightarrow> pos ps w = 0 \<longleftrightarrow> w = [] \<or> w \<notin> set ps"
  by (cases "w \<in> set ps") (auto simp: pos_eq_0 pos_notin)

definition table_ok :: "nat list list \<Rightarrow> ACAutomatonMatcherGroup \<Rightarrow> bool" where
  "table_ok ps ac \<longleftrightarrow> length (acnodes ac) = length ps \<and>
     (\<forall>n < length ps. length (nnext (acnodes ac ! n)) = 39 \<and> length (nedge (acnodes ac ! n)) = 39 \<and>
        (\<forall>e < 39. nedge (acnodes ac ! n) ! e \<longleftrightarrow> ps ! n @ [e] \<in> set ps))"

definition trie_ok :: "nat list list \<Rightarrow> ACAutomatonMatcherGroup \<Rightarrow> bool" where
  "trie_ok ps ac \<longleftrightarrow> words_ok ps \<and> table_ok ps ac \<and>
     (\<forall>n < length ps. nfail (acnodes ac ! n) = 0 \<and> (\<forall>e < 39. nnext (acnodes ac ! n) ! e = pos ps (ps ! n @ [e])))"

text \<open>The values: \<open>rs\<close> is the list of words with their type and value in the order of addition.\<close>

type_synonym raw_entries = "(nat list \<times> nat \<times> u32) list"

definition keyvals :: "raw_entries \<Rightarrow> nat list \<Rightarrow> nat \<Rightarrow> u32 list" where
  "keyvals rs w t = map (\<lambda>(_, _, v). v) (filter (\<lambda>(w', t', _). w' = w \<and> t' = t) rs)"

lemma set_keyvals: "v \<in> set (keyvals rs w t) \<longleftrightarrow> (w, t, v) \<in> set rs"
  by (force simp: keyvals_def)

lemma keyvals_snoc:
  "keyvals (rs @ [(w', t', v)]) w t = keyvals rs w t @ (if w' = w \<and> t' = t then [v] else [])"
  by (simp add: keyvals_def)

definition has_entry :: "raw_entries \<Rightarrow> nat list \<Rightarrow> bool" where
  "has_entry rs w \<longleftrightarrow> (\<exists>t v. (w, t, v) \<in> set rs)"

definition values_ok :: "nat list list \<Rightarrow> raw_entries \<Rightarrow> ACAutomatonMatcherGroup \<Rightarrow> bool" where
  "values_ok ps rs ac \<longleftrightarrow> acvalues ac \<noteq> [] \<and>
     (\<forall>(w, t, v) \<in> set rs. w \<in> set ps \<and> t < 3) \<and>
     (\<forall>n < length ps. nmatch (acnodes ac ! n) < length (acvalues ac) \<and>
        (nmatch (acnodes ac ! n) \<noteq> 0 \<longleftrightarrow> has_entry rs (ps ! n)) \<and>
        (nmatch (acnodes ac ! n) \<noteq> 0 \<longrightarrow>
           acvalues ac ! nmatch (acnodes ac ! n) = map (keyvals rs (ps ! n)) [0..<3])) \<and>
     (\<forall>n < length ps. \<forall>m < length ps. nmatch (acnodes ac ! n) \<noteq> 0 \<longrightarrow>
        nmatch (acnodes ac ! n) = nmatch (acnodes ac ! m) \<longrightarrow> n = m)"

section \<open>Adding patterns\<close>

lemma words_ok_snoc:
  assumes "words_ok ps" "w \<in> set ps" "w @ [e] \<notin> set ps" "e < 39"
  shows "words_ok (ps @ [w @ [e]])"
  using assms by (auto simp: words_ok_def nth_append)

lemma pos_append:
  assumes "distinct (ps @ qs)" "w \<in> set ps"
  shows "pos (ps @ qs) w = pos ps w"
  using assms pos_nth [of "ps @ qs" "pos ps w"] nth_pos [OF assms(2)] by (simp add: nth_append)

lemma pos_snoc:
  assumes "distinct (ps @ [x])"
  shows "pos (ps @ [x]) w = (if w = x then length ps else pos ps w)"
proof (cases "w \<in> set ps")
  case False
  then show ?thesis
    using assms pos_nth [of "ps @ [x]" "length ps"] pos_notin [of w "ps @ [x]"] pos_notin [of w ps] by auto
qed (use assms pos_append in auto)

lemma trie_ok_add:
  assumes t: "trie_ok ps ac" and n: "n < length ps" and e: "e < 39" and new: "ps ! n @ [e] \<notin> set ps"
  shows "trie_ok (ps @ [ps ! n @ [e]])
    (set_node n (set_edge e (length ps) True) (snd (ac_addNode ac)))" (is "trie_ok ?ps ?ac")
proof -
  have w: "words_ok ps" and len: "length (acnodes ac) = length ps" using t by (auto simp: trie_ok_def table_ok_def)
  have w': "words_ok ?ps" using words_ok_snoc [OF w nth_mem [OF n] new e] .
  have leaf: "ps ! n @ [e] @ [e'] \<notin> set ?ps" for e'
  proof
    assume "ps ! n @ [e] @ [e'] \<in> set ?ps"
    then have "(ps ! n @ [e]) @ [e'] \<in> set ps" by auto
    with w new show False unfolding words_ok_def by blast
  qed
  have node: "acnodes ?ac ! m = (if m = n then set_edge e (length ps) True (acnodes ac ! n)
      else if m = length ps then empty_node else acnodes ac ! m)" if "m < length ?ps" for m
    using that len n by (auto simp: set_node_def ac_addNode_def Let_def nth_list_update nth_append)
  have dist: "distinct ?ps" using w' by (simp add: words_ok_def)
  have ext: "?ps ! m @ [e'] = ps ! n @ [e] \<longleftrightarrow> m = n \<and> e' = e" if "m < length ps" for m e'
    using that n w by (auto simp: nth_append words_ok_def nth_eq_iff_index_eq)
  have tab: "length (nnext (acnodes ac ! m)) = 39" "length (nedge (acnodes ac ! m)) = 39"
    "\<forall>e' < 39. nedge (acnodes ac ! m) ! e' \<longleftrightarrow> ps ! m @ [e'] \<in> set ps" "nfail (acnodes ac ! m) = 0"
    "\<forall>e' < 39. nnext (acnodes ac ! m) ! e' = pos ps (ps ! m @ [e'])" if "m < length ps" for m
    using t that by (auto simp: trie_ok_def table_ok_def)
  have "length (nnext (acnodes ?ac ! m)) = 39 \<and> length (nedge (acnodes ?ac ! m)) = 39 \<and>
      (\<forall>e' < 39. nedge (acnodes ?ac ! m) ! e' \<longleftrightarrow> ?ps ! m @ [e'] \<in> set ?ps) \<and> nfail (acnodes ?ac ! m) = 0 \<and>
      (\<forall>e' < 39. nnext (acnodes ?ac ! m) ! e' = pos ?ps (?ps ! m @ [e']))" if m: "m < length ?ps" for m
  proof (cases "m < length ps")
    case True
    then have "?ps ! m = ps ! m" by (simp add: nth_append)
    then show ?thesis
      using tab [OF True] node [OF m] ext [OF True] e True
      by (auto simp: set_edge_def nth_list_update pos_snoc [OF dist] split: if_splits)
  next
    case False
    then have "m = length ps" using m by simp
    then show ?thesis using node [OF m] leaf n w' by (auto simp: empty_node_def pos_notin nth_append)
  qed
  moreover have "length (acnodes ?ac) = length ?ps" using len by (simp add: set_node_def ac_addNode_def Let_def)
  ultimately show ?thesis using w' by (auto simp: trie_ok_def table_ok_def)
qed

lemma values_ok_add:
  assumes v: "values_ok ps rs ac" and len: "length (acnodes ac) = length ps" and n: "n < length ps"
    and new: "ps ! n @ [e] \<notin> set ps"
  shows "values_ok (ps @ [ps ! n @ [e]]) rs (set_node n (set_edge e k b) (snd (ac_addNode ac)))" (is "values_ok ?ps rs ?ac")
proof -
  have node: "nmatch (acnodes ?ac ! m) = (if m < length ps then nmatch (acnodes ac ! m) else 0)" if "m < length ?ps" for m
    using that len n
    by (auto simp: set_node_def set_edge_def ac_addNode_def Let_def nth_list_update nth_append empty_node_def)
  have vals: "acvalues ?ac = acvalues ac" by (simp add: set_node_def ac_addNode_def Let_def)
  have "\<not> has_entry rs (ps ! n @ [e])" using v new by (auto simp: values_ok_def has_entry_def)
  then show ?thesis
    using v node unfolding values_ok_def vals by (auto simp: nth_append less_Suc_eq)
qed

lemma ac_walk_ok:
  assumes "trie_ok ps ac" "values_ok ps rs ac" "n < length ps" "ac_walk cs n ac = (n', ac')"
  shows "\<exists>ps'. trie_ok ps' ac' \<and> values_ok ps' rs ac' \<and> n' < length ps' \<and>
    ps' ! n' = ps ! n @ map acCharset cs \<and> acvalues ac' = acvalues ac"
  using assms
proof (induction cs arbitrary: ps n ac)
  case Nil
  then show ?case by auto
next
  case (Cons c cs)
  let ?e = "acCharset c"
  have e: "?e < 39" by (rule acCharset_less)
  have w: "words_ok ps" and len: "length (acnodes ac) = length ps" using Cons.prems(1) by (auto simp: trie_ok_def table_ok_def)
  have nx: "nnext (acnodes ac ! n) ! ?e = pos ps (ps ! n @ [?e])" using Cons.prems e by (auto simp: trie_ok_def)
  show ?case
  proof (cases "ps ! n @ [?e] \<in> set ps")
    case True
    with nx pos_eq_0 [OF w True] Cons.prems(4)
    have "ac_walk cs (pos ps (ps ! n @ [?e])) ac = (n', ac')" by (simp add: Let_def)
    from Cons.IH [OF Cons.prems(1,2) nth_pos(1) [OF True] this] nth_pos(2) [OF True] show ?thesis by simp
  next
    case False
    let ?ac = "set_node n (set_edge ?e (length ps) True) (snd (ac_addNode ac))"
    have "ac_walk cs (length ps) ?ac = (n', ac')"
      using Cons.prems(4) nx pos_notin [OF False] len by (simp add: Let_def ac_addNode_def)
    from Cons.IH [OF trie_ok_add [OF Cons.prems(1,3) e False] values_ok_add [OF Cons.prems(2) len Cons.prems(3) False] _ this]
    show ?thesis by (simp add: set_node_def ac_addNode_def Let_def)
  qed
qed

lemma values_ok_entry:
  assumes v: "values_ok ps rs ac" and w: "words_ok ps" and len: "length (acnodes ac) = length ps" and n: "n < length ps"
    and t: "t < 3" and m: "nmatch (acnodes ac ! n) \<noteq> 0"
  shows "values_ok ps (rs @ [(ps ! n, t, x)])
    (ac\<lparr>acvalues := (acvalues ac)[nmatch (acnodes ac ! n) :=
       (acvalues ac ! nmatch (acnodes ac ! n))[t := acvalues ac ! nmatch (acnodes ac ! n) ! t @ [x]]]\<rparr>)"
proof -
  let ?m = "nmatch (acnodes ac ! n)"
  have ne: "ps ! k \<noteq> ps ! n" if "k < length ps" "k \<noteq> n" for k
    using that n w by (simp add: words_ok_def nth_eq_iff_index_eq)
  have vm: "acvalues ac ! ?m = map (keyvals rs (ps ! n)) [0..<3]" and lt: "?m < length (acvalues ac)"
    using v n m by (auto simp: values_ok_def)
  have upd: "(map (keyvals rs (ps ! n)) [0..<3])[t := keyvals rs (ps ! n) t @ [x]] =
      map (keyvals (rs @ [(ps ! n, t, x)]) (ps ! n)) [0..<3]"
    using t by (intro nth_equalityI) (auto simp: nth_list_update keyvals_snoc)
  have other: "map (keyvals (rs @ [(ps ! n, t, x)]) (ps ! k)) [0..<3] = map (keyvals rs (ps ! k)) [0..<3]"
    if "k < length ps" "k \<noteq> n" for k using ne [OF that] by (auto simp: keyvals_snoc)
  have inj: "nmatch (acnodes ac ! k) \<noteq> ?m" if "k < length ps" "k \<noteq> n" for k
    using v that n m by (auto simp: values_ok_def)
  have he: "has_entry (rs @ [(ps ! n, t, x)]) (ps ! k) \<longleftrightarrow> has_entry rs (ps ! k) \<or> k = n" if "k < length ps" for k
    using ne that by (auto simp: has_entry_def)
  have hen: "has_entry rs (ps ! n)" using v n m by (auto simp: values_ok_def)
  have val: "(acvalues ac)[?m := (acvalues ac ! ?m)[t := acvalues ac ! ?m ! t @ [x]]] ! nmatch (acnodes ac ! k) =
      map (keyvals (rs @ [(ps ! n, t, x)]) (ps ! k)) [0..<3]" if k: "k < length ps" "nmatch (acnodes ac ! k) \<noteq> 0" for k
  proof (cases "k = n")
    case True
    then show ?thesis using vm upd lt t by (simp add: nth_list_update)
  next
    case False
    have "acvalues ac ! nmatch (acnodes ac ! k) = map (keyvals rs (ps ! k)) [0..<3]"
      using v k by (auto simp: values_ok_def)
    with False inj [OF k(1) False] other [OF k(1) False] show ?thesis by simp
  qed
  show ?thesis
    using v n t he hen val unfolding values_ok_def by (auto simp: nth_mem)
qed

lemma fresh_inj:
  fixes f :: "nat \<Rightarrow> nat"
  assumes "\<And>k. k < N \<Longrightarrow> g k = (if k = n then L else f k)" "\<And>k. k < N \<Longrightarrow> f k \<noteq> L"
    "\<forall>k < N. \<forall>l < N. f k \<noteq> 0 \<longrightarrow> f k = f l \<longrightarrow> k = l"
  shows "\<forall>k < N. \<forall>l < N. g k \<noteq> 0 \<longrightarrow> g k = g l \<longrightarrow> k = l"
  using assms by metis

lemma values_ok_new:
  assumes v: "values_ok ps rs ac" and w: "words_ok ps" and len: "length (acnodes ac) = length ps" and n: "n < length ps"
    and t: "t < 3" and m: "nmatch (acnodes ac ! n) = 0"
  shows "values_ok ps (rs @ [(ps ! n, t, x)])
    (set_node n (\<lambda>nd. nd\<lparr>nmatch := length (acvalues ac)\<rparr>)
      (ac\<lparr>acvalues := acvalues ac @ [(replicate 3 [])[t := [x]]]\<rparr>))" (is "values_ok ps ?rs ?ac")
proof -
  have ne: "ps ! k \<noteq> ps ! n" if "k < length ps" "k \<noteq> n" for k
    using that n w by (simp add: words_ok_def nth_eq_iff_index_eq)
  have nm: "nmatch (acnodes ?ac ! k) = (if k = n then length (acvalues ac) else nmatch (acnodes ac ! k))" if "k < length ps" for k
    using that len n by (auto simp: set_node_def nth_list_update)
  have no: "\<not> has_entry rs (ps ! n)" using v n m by (auto simp: values_ok_def)
  have none: "keyvals rs (ps ! n) t' = []" for t'
  proof -
    have "v \<notin> set (keyvals rs (ps ! n) t')" for v using no by (auto simp: set_keyvals has_entry_def)
    then show ?thesis by (metis list.set_intros(1) neq_Nil_conv)
  qed
  have upd: "(replicate 3 [])[t := [x]] = map (keyvals ?rs (ps ! n)) [0..<3]"
    using t by (intro nth_equalityI) (auto simp: nth_list_update keyvals_snoc none)
  have other: "map (keyvals ?rs (ps ! k)) [0..<3] = map (keyvals rs (ps ! k)) [0..<3]"
    if "k < length ps" "k \<noteq> n" for k using ne [OF that] by (auto simp: keyvals_snoc)
  have he: "has_entry ?rs (ps ! k) \<longleftrightarrow> has_entry rs (ps ! k) \<or> k = n" if "k < length ps" for k
    using ne that by (auto simp: has_entry_def)
  have vals: "acvalues ?ac = acvalues ac @ [map (keyvals ?rs (ps ! n)) [0..<3]]"
    unfolding upd [symmetric] by (simp add: set_node_def)
  have len0: "acvalues ac \<noteq> []" "\<And>k. k < length ps \<Longrightarrow> nmatch (acnodes ac ! k) < length (acvalues ac)"
    using v by (auto simp: values_ok_def)
  have nonz: "k < length ps \<Longrightarrow> nmatch (acnodes ac ! k) \<noteq> length (acvalues ac)" for k
    using len0(2) [of k] by simp
  have a: "nmatch (acnodes ?ac ! k) < length (acvalues ?ac) \<and>
      (nmatch (acnodes ?ac ! k) \<noteq> 0 \<longleftrightarrow> has_entry ?rs (ps ! k)) \<and>
      (nmatch (acnodes ?ac ! k) \<noteq> 0 \<longrightarrow> acvalues ?ac ! nmatch (acnodes ?ac ! k) = map (keyvals ?rs (ps ! k)) [0..<3])"
    if k: "k < length ps" for k
  proof (cases "k = n")
    case True
    then show ?thesis using nm [OF k] he [OF k] len0(1) vals by simp
  next
    case False
    then show ?thesis
      using nm [OF k] he [OF k] vals other [OF k False] len0(2) [OF k] v k
      by (auto simp: values_ok_def nth_append)
  qed
  have b: "\<forall>k < length ps. \<forall>l < length ps. nmatch (acnodes ?ac ! k) \<noteq> 0 \<longrightarrow>
      nmatch (acnodes ?ac ! k) = nmatch (acnodes ?ac ! l) \<longrightarrow> k = l"
  proof (rule fresh_inj [where f = "\<lambda>k. nmatch (acnodes ac ! k)" and n = n and L = "length (acvalues ac)"])
    show "\<forall>k < length ps. \<forall>l < length ps. nmatch (acnodes ac ! k) \<noteq> 0 \<longrightarrow>
        nmatch (acnodes ac ! k) = nmatch (acnodes ac ! l) \<longrightarrow> k = l"
      using v unfolding values_ok_def by blast
  qed (erule nm nonz)+
  have c: "\<forall>(w, t, v) \<in> set ?rs. w \<in> set ps \<and> t < 3"
    using v n t by (auto simp: values_ok_def nth_mem)
  have "acvalues ?ac \<noteq> []" using vals by simp
  with a b c show ?thesis unfolding values_ok_def by blast
qed

text \<open>The automaton after adding raw entries.\<close>

definition ac_ok :: "nat list list \<Rightarrow> raw_entries \<Rightarrow> ACAutomatonMatcherGroup \<Rightarrow> bool" where
  "ac_ok ps rs ac \<longleftrightarrow> trie_ok ps ac \<and> values_ok ps rs ac"

lemma trie_ok_cong:
  assumes "trie_ok ps ac" "length (acnodes ac') = length (acnodes ac)"
    "\<And>n. n < length ps \<Longrightarrow> nnext (acnodes ac' ! n) = nnext (acnodes ac ! n) \<and>
      nedge (acnodes ac' ! n) = nedge (acnodes ac ! n) \<and> nfail (acnodes ac' ! n) = nfail (acnodes ac ! n)"
  shows "trie_ok ps ac'"
  using assms by (auto simp: trie_ok_def table_ok_def)

lemma ac_addPattern_ok:
  assumes ok: "ac_ok ps rs ac" and n: "n < length ps" and t: "unat t < 3" and p: "ac_addPattern n p t x ac = (n', ac')"
  shows "\<exists>ps'. ac_ok ps' (rs @ [(ps ! n @ ekey p, unat t, x)]) ac' \<and> n' < length ps' \<and> ps' ! n' = ps ! n @ ekey p"
proof -
  obtain n1 ac1 where walk: "ac_walk (rev p) n ac = (n1, ac1)" by fastforce
  from ok have "trie_ok ps ac" "values_ok ps rs ac" by (auto simp: ac_ok_def)
  from ac_walk_ok [OF this n walk] obtain ps' where
    tr: "trie_ok ps' ac1" and va: "values_ok ps' rs ac1" and n1: "n1 < length ps'" and
    path: "ps' ! n1 = ps ! n @ ekey p" by (auto simp: ekey_def)
  have w: "words_ok ps'" and len: "length (acnodes ac1) = length ps'" using tr by (auto simp: trie_ok_def table_ok_def)
  show ?thesis
  proof (cases "nmatch (acnodes ac1 ! n1) = 0")
    case True
    have eq: "n' = n1" "ac' = set_node n1 (\<lambda>nd. nd\<lparr>nmatch := length (acvalues ac1)\<rparr>)
        (ac1\<lparr>acvalues := acvalues ac1 @ [(replicate 3 [])[unat t := [x]]]\<rparr>)"
      using p walk True len n1 t
      by (auto simp: ac_addPattern_def Let_def addMatchEntry_def set_node_def list_update_append nth_append)
    have "trie_ok ps' ac'"
      by (rule trie_ok_cong [OF tr]) (use len n1 in \<open>auto simp: eq set_node_def nth_list_update\<close>)
    then show ?thesis
      using values_ok_new [OF va w len n1 t True] n1 path eq by (auto simp: ac_ok_def)
  next
    case False
    have eq: "n' = n1" "ac' = ac1\<lparr>acvalues := (acvalues ac1)[nmatch (acnodes ac1 ! n1) :=
       (acvalues ac1 ! nmatch (acnodes ac1 ! n1))[unat t := acvalues ac1 ! nmatch (acnodes ac1 ! n1) ! unat t @ [x]]]\<rparr>"
      using p walk False by (auto simp: ac_addPattern_def Let_def)
    have "trie_ok ps' ac'" by (rule trie_ok_cong [OF tr]) (auto simp: eq)
    then show ?thesis
      using values_ok_entry [OF va w len n1 t False] n1 path eq by (auto simp: ac_ok_def)
  qed
qed

lemma ac_new_ok: "ac_ok [[]] [] NewACAutomatonMatcherGroup"
  by (simp add: ac_ok_def NewACAutomatonMatcherGroup_def addMatchEntry_def ac_addNode_def Let_def trie_ok_def
      table_ok_def words_ok_def values_ok_def empty_node_def has_entry_def pos_notin)

fun AC_Add :: "Matcher \<Rightarrow> u32 \<Rightarrow> ACAutomatonMatcherGroup \<Rightarrow> ACAutomatonMatcherGroup" where
  "AC_Add (FullMatcher p) v ac = AC_AddFull p v ac"
| "AC_Add (DomainMatcher p) v ac = AC_AddDomain p v ac"
| "AC_Add (SubstrMatcher p) v ac = AC_AddSubstr p v ac"
| "AC_Add m v ac = ac"

fun raw_of :: "Matcher \<times> u32 \<Rightarrow> raw_entries" where
  "raw_of (FullMatcher p, v) = [(ekey p, 0, v)]"
| "raw_of (DomainMatcher p, v) = [(ekey p, 1, v), (ekey p @ [28], 1, v)]"
| "raw_of (SubstrMatcher p, v) = [(ekey p, 2, v)]"
| "raw_of e = []"

definition raws :: "Matcher entries \<Rightarrow> raw_entries" where
  "raws es = concat (map raw_of es)"

lemma ekey_dot: "ekey ''.'' = [28]"
  by (simp add: ekey_def acCharset_def is_upper_def is_lower_def less_eq_char_def)

lemma AC_Add_ok:
  assumes ok: "ac_ok ps rs ac"
  shows "\<exists>ps'. ac_ok ps' (rs @ raw_of (m, v)) (AC_Add m v ac)"
proof -
  have w: "ps \<noteq> []" "ps ! 0 = []" using ok by (auto simp: ac_ok_def trie_ok_def words_ok_def)
  then have n: "0 < length ps" by simp
  show ?thesis
  proof (cases m)
    case (DomainMatcher p)
    obtain n1 ac1 where a1: "ac_addPattern 0 p DomainT v ac = (n1, ac1)" by fastforce
    from ac_addPattern_ok [OF ok n _ a1] w obtain ps1 where
      ok1: "ac_ok ps1 (rs @ [(ekey p, 1, v)]) ac1" and n1: "n1 < length ps1" "ps1 ! n1 = ekey p" by auto
    obtain n2 ac2 where a2: "ac_addPattern n1 ''.'' DomainT v ac1 = (n2, ac2)" by fastforce
    from ac_addPattern_ok [OF ok1 n1(1) _ a2] n1(2) show ?thesis
      using DomainMatcher a1 a2 by (auto simp: AC_AddDomain_def ekey_dot)
  next
    case (FullMatcher p)
    then show ?thesis using ac_addPattern_ok [OF ok n, of FullT p v] w
      by (cases "ac_addPattern 0 p FullT v ac") (auto simp: AC_AddFull_def)
  next
    case (SubstrMatcher p)
    then show ?thesis using ac_addPattern_ok [OF ok n, of SubstrT p v] w
      by (cases "ac_addPattern 0 p SubstrT v ac") (auto simp: AC_AddSubstr_def)
  qed (use ok in auto)
qed

lemma AC_added_ok: "\<exists>ps. ac_ok ps (raws es) (build_group AC_Add NewACAutomatonMatcherGroup es)"
proof (induction es rule: rev_induct)
  case Nil
  then show ?case using ac_new_ok by (auto simp: raws_def)
next
  case (snoc e es)
  obtain m v where e: "e = (m, v)" by (cases e)
  from snoc obtain ps where "ac_ok ps (raws es) (build_group AC_Add NewACAutomatonMatcherGroup es)" by blast
  from AC_Add_ok [OF this, of m v] show ?case by (simp add: e build_group_snoc raws_def)
qed

end
