(* ===== verification/AcBuild.thy ===== *)
theory AcBuild
  imports AcTrie
begin

text \<open>
  \<open>Build\<close> ends and turns the table into the automaton whose state is the longest suffix of the text
  that is a node: \<open>lsuf\<close> is the longest suffix of a word in a set of words, and \<open>queue_inv\<close> the invariant of the
  loop over the queue.
\<close>

section \<open>Longest suffixes\<close>

fun lsuf :: "nat list set \<Rightarrow> nat list \<Rightarrow> nat list" where
  "lsuf P [] = []"
| "lsuf P (x # w) = (if x # w \<in> P then x # w else lsuf P w)"

lemma lsuf_in: "[] \<in> P \<Longrightarrow> lsuf P w \<in> P"
  by (induction w) auto

lemma lsuf_self: "w \<in> P \<Longrightarrow> lsuf P w = w"
  by (cases w) auto

lemma lsuf_length: "length (lsuf P w) \<le> length w"
  by (induction w) auto

lemma lsuf_snoc:
  assumes "\<And>w e. w @ [e] \<in> P \<Longrightarrow> w \<in> P"
  shows "lsuf P (w @ [e]) = lsuf P (lsuf P w @ [e])"
proof (induction w)
  case (Cons x w)
  show ?case
  proof (cases "x # w \<in> P")
    case False
    then have "x # w @ [e] \<notin> P" using assms [of "x # w" e] by auto
    with False Cons show ?thesis by simp
  qed simp
qed simp

lemma suffix_lsuf: "s \<in> P \<Longrightarrow> suffix s w \<Longrightarrow> suffix s (lsuf P w)"
  by (induction w) (auto simp: suffix_Cons)

lemma lsuf_suffix: "suffix (lsuf P w) w"
  by (induction w) (auto simp: suffix_Cons)

lemma lsuf_sub: "S \<subseteq> P \<Longrightarrow> lsuf S w = lsuf S (lsuf P w)"
  by (induction w) auto

lemma lsuf_Nil_iff: "lsuf S w = [] \<longleftrightarrow> (\<forall>s \<in> S. s \<noteq> [] \<longrightarrow> \<not> suffix s w)"
  by (induction w) (auto simp: suffix_Cons)

lemma lsuf_in_or_Nil: "lsuf S w \<in> S \<or> lsuf S w = []"
  by (induction w) auto

lemma lsuf_tl: "f \<notin> S \<Longrightarrow> lsuf S f = lsuf S (tl f)"
  by (cases f) auto

section \<open>Building the automaton\<close>

text \<open>\<open>S\<close> are the words of substring patterns. The state of the queue loop: \<open>D\<close> are the nodes whose edges
  are final; a node is in the queue or done exactly when its parent is done.\<close>

definition subwords :: "raw_entries \<Rightarrow> nat list set" where
  "subwords rs = {w. \<exists>v. (w, 2, v) \<in> set rs}"

definition fail_set :: "nat list list \<Rightarrow> nat list set \<Rightarrow> ACAutomatonMatcherGroup \<Rightarrow> nat list \<Rightarrow> nat \<Rightarrow> bool" where
  "fail_set ps S ac fail n \<longleftrightarrow>
     fail ! n = pos ps (lsuf (set ps) (tl (ps ! n))) \<and> nfail (acnodes ac ! n) = pos ps (lsuf S (tl (ps ! n)))"

definition final_node :: "nat list list \<Rightarrow> ACAutomatonMatcherGroup \<Rightarrow> nat \<Rightarrow> bool" where
  "final_node ps ac n \<longleftrightarrow> (\<forall>e < 39. nnext (acnodes ac ! n) ! e = pos ps (lsuf (set ps) (ps ! n @ [e])))"

definition trie_node :: "nat list list \<Rightarrow> ACAutomatonMatcherGroup \<Rightarrow> nat \<Rightarrow> bool" where
  "trie_node ps ac n \<longleftrightarrow> (\<forall>e < 39. nnext (acnodes ac ! n) ! e = pos ps (ps ! n @ [e]))"

abbreviation depth :: "nat list list \<Rightarrow> nat \<Rightarrow> nat" where
  "depth ps n \<equiv> length (ps ! n)"

definition queue_inv :: "nat list list \<Rightarrow> nat list set \<Rightarrow> nat set \<Rightarrow> ac_build \<Rightarrow> bool" where
  "queue_inv ps S D st \<longleftrightarrow> (case st of (ac, fail, queue) \<Rightarrow>
     table_ok ps ac \<and> length fail = length ps \<and>
     0 \<in> D \<and> D \<subseteq> {..<length ps} \<and> set queue \<subseteq> {0<..<length ps} \<and> set queue \<inter> D = {} \<and> distinct queue \<and>
     (\<forall>n < length ps. nmatch (acnodes ac ! n) \<noteq> 0 \<and> acvalues ac ! nmatch (acnodes ac ! n) ! 2 \<noteq> [] \<longleftrightarrow> ps ! n \<in> S) \<and>
     (\<forall>n \<in> D. final_node ps ac n) \<and> (\<forall>n < length ps. n \<notin> D \<longrightarrow> trie_node ps ac n) \<and>
     nfail (acnodes ac ! 0) = 0 \<and> (\<forall>n \<in> D \<union> set queue - {0}. fail_set ps S ac fail n) \<and>
     (\<forall>n < length ps. n \<noteq> 0 \<longrightarrow> (pos ps (butlast (ps ! n)) \<in> D \<longleftrightarrow> n \<in> D \<union> set queue)) \<and>
     sorted (map (depth ps) queue) \<and> (\<forall>n \<in> set queue. depth ps n \<le> Suc (depth ps (hd queue))))"

lemma words_closed: "words_ok ps \<Longrightarrow> w @ [e] \<in> set ps \<Longrightarrow> w \<in> set ps"
  by (auto simp: words_ok_def)

lemma butlast_in: "words_ok ps \<Longrightarrow> n < length ps \<Longrightarrow> n \<noteq> 0 \<Longrightarrow> ps ! n \<noteq> [] \<and> butlast (ps ! n) \<in> set ps"
proof -
  assume w: "words_ok ps" and n: "n < length ps" "n \<noteq> 0"
  have "ps ! n \<noteq> []" using w n by (metis length_greater_0_conv nth_eq_iff_index_eq words_ok_def)
  then show ?thesis using words_closed [OF w] nth_mem [OF n(1)] by (metis append_butlast_last_id)
qed

text \<open>Nodes above the depth of the first queued node are done, those at its depth are done or queued.\<close>

lemma queue_depth:
  assumes w: "words_ok ps" and inv: "queue_inv ps S D (ac, fail, q # qs)"
    and n: "n < length ps" "depth ps n < depth ps q"
  shows "n \<in> D"
  using n
proof (induction "depth ps n" arbitrary: n)
  case 0
  then have "n = 0" using butlast_in [OF w 0(2)] by auto
  then show ?case using inv by (simp add: queue_inv_def)
next
  case (Suc d)
  have n0: "n \<noteq> 0"
  proof
    assume "n = 0"
    with Suc(2) w show False by (simp add: words_ok_def)
  qed
  let ?p = "pos ps (butlast (ps ! n))"
  have p: "?p < length ps" "ps ! ?p = butlast (ps ! n)" using nth_pos butlast_in [OF w Suc.prems(1) n0] by blast+
  then have "?p \<in> D" using Suc by auto
  then have "n \<in> D \<union> set (q # qs)" using inv Suc.prems(1) n0 by (auto simp: queue_inv_def)
  moreover have "n \<notin> set (q # qs)" using inv Suc.prems(2) by (auto simp: queue_inv_def)
  ultimately show ?case by blast
qed

lemma queue_depth_le:
  assumes w: "words_ok ps" and inv: "queue_inv ps S D (ac, fail, q # qs)"
    and n: "n < length ps" "depth ps n \<le> depth ps q"
  shows "n \<in> D \<union> set (q # qs)"
proof (cases "n = 0")
  case True
  then show ?thesis using inv by (simp add: queue_inv_def)
next
  case False
  let ?p = "pos ps (butlast (ps ! n))"
  have p: "?p < length ps" "ps ! ?p = butlast (ps ! n)" "ps ! n \<noteq> []" using nth_pos butlast_in [OF w n(1) False] by blast+
  have "0 < depth ps n" using p(3) by simp
  then have "depth ps ?p < depth ps q" using p(2,3) n(2) by (cases "ps ! n" rule: rev_cases) auto
  then have "?p \<in> D" using queue_depth [OF w inv p(1)] by blast
  then show ?thesis using inv n False by (auto simp: queue_inv_def)
qed

lemma queue_end:
  assumes w: "words_ok ps" and inv: "queue_inv ps S D (ac, fail, [])" and n: "n < length ps"
  shows "n \<in> D"
  using n
proof (induction "depth ps n" arbitrary: n)
  case 0
  then have "n = 0" using butlast_in [OF w 0(2)] by auto
  then show ?case using inv by (simp add: queue_inv_def)
next
  case (Suc d)
  have n0: "n \<noteq> 0"
  proof
    assume "n = 0"
    with Suc(2) w show False by (simp add: words_ok_def)
  qed
  let ?p = "pos ps (butlast (ps ! n))"
  have "?p < length ps" "ps ! ?p = butlast (ps ! n)" using nth_pos butlast_in [OF w Suc.prems(1) n0] by blast+
  then have "?p \<in> D" using Suc by auto
  then show ?case using inv Suc.prems(1) n0 by (simp add: queue_inv_def)
qed

text \<open>The inner loop, after \<open>k\<close> edges of node \<open>q\<close>.\<close>

definition kids :: "nat list list \<Rightarrow> nat \<Rightarrow> nat \<Rightarrow> nat list" where
  "kids ps q k = map (\<lambda>e. pos ps (ps ! q @ [e])) (filter (\<lambda>e. ps ! q @ [e] \<in> set ps) [0..<k])"

definition inner_inv :: "nat list list \<Rightarrow> nat list set \<Rightarrow> nat \<Rightarrow> nat \<Rightarrow> ac_build \<Rightarrow> ac_build \<Rightarrow> bool" where
  "inner_inv ps S q k st0 st \<longleftrightarrow> (case (st0, st) of ((ac0, fail0, qs), (ac, fail, queue)) \<Rightarrow>
     table_ok ps ac \<and> length fail = length ps \<and> acvalues ac = acvalues ac0 \<and> queue = qs @ kids ps q k \<and>
     (\<forall>n < length ps. nmatch (acnodes ac ! n) = nmatch (acnodes ac0 ! n) \<and>
        (n \<noteq> q \<longrightarrow> nnext (acnodes ac ! n) = nnext (acnodes ac0 ! n)) \<and>
        (n \<notin> set (kids ps q k) \<longrightarrow> fail ! n = fail0 ! n \<and> nfail (acnodes ac ! n) = nfail (acnodes ac0 ! n)) \<and>
        (n \<in> set (kids ps q k) \<longrightarrow> fail_set ps S ac fail n)) \<and>
     (\<forall>e < 39. nnext (acnodes ac ! q) ! e =
        pos ps (if e < k then lsuf (set ps) (ps ! q @ [e]) else ps ! q @ [e])))"

lemma kids_Suc:
  "kids ps q (Suc k) = kids ps q k @ (if ps ! q @ [k] \<in> set ps then [pos ps (ps ! q @ [k])] else [])"
  by (simp add: kids_def)

lemma kids_word:
  assumes "n \<in> set (kids ps q k)"
  obtains e where "e < k" "ps ! n = ps ! q @ [e]" "n < length ps" "ps ! q @ [e] \<in> set ps" "n = pos ps (ps ! q @ [e])"
  using assms nth_pos by (auto simp: kids_def)

lemma set_nfail_node:
  "n < length (acnodes ac) \<Longrightarrow>
   acnodes (set_node c (\<lambda>nd. nd\<lparr>nfail := f\<rparr>) ac) ! n = (if n = c then (acnodes ac ! n)\<lparr>nfail := f\<rparr> else acnodes ac ! n)"
  by (auto simp: set_node_def nth_list_update_any)

lemma build_edge_inner:
  assumes w: "words_ok ps" and SP: "S \<subseteq> set ps" and S0: "[] \<notin> S" and inv: "queue_inv ps S D (ac0, fail0, q # qs)"
    and k: "k < 39" and inn: "inner_inv ps S q k (ac0, fail0, qs) (ac, fail, queue)"
  shows "inner_inv ps S q (Suc k) (ac0, fail0, qs) (build_edge q (fail0 ! q) k (ac, fail, queue))"
proof -
  have q: "q < length ps" "q \<noteq> 0" "q \<notin> D" using inv by (auto simp: queue_inv_def)
  have wq: "ps ! q \<noteq> []" using butlast_in [OF w q(1,2)] by blast
  have len: "length (acnodes ac) = length ps" and lenf: "length fail = length ps"
    using inn by (auto simp: inner_inv_def table_ok_def)
  define f where "f = lsuf (set ps) (tl (ps ! q @ [k]))"
  define g where "g = lsuf (set ps) (tl (ps ! q))"
  have fn: "fail0 ! q = pos ps g" using inv q by (auto simp: queue_inv_def fail_set_def g_def)
  have gP: "g \<in> set ps" "f \<in> set ps" using lsuf_in [OF words_Nil [OF w]] by (auto simp: g_def f_def)
  have gd: "length g < depth ps q" "length f \<le> depth ps q"
    using lsuf_length [of "set ps" "tl (ps ! q)"] lsuf_length [of "set ps" "tl (ps ! q @ [k])"] wq
    by (auto simp: g_def f_def) (cases "ps ! q"; auto)+
  have gD: "pos ps g \<in> D" using queue_depth [OF w inv nth_pos(1) [OF gP(1)]] nth_pos(2) [OF gP(1)] gd by simp
  then have gq: "pos ps g \<noteq> q" using q by auto
  have "lsuf (set ps) (g @ [k]) = f"
    using lsuf_snoc [of "set ps" "tl (ps ! q)" k] words_closed [OF w] wq by (auto simp: g_def f_def)
  moreover have "nnext (acnodes ac0 ! pos ps g) ! k = pos ps (lsuf (set ps) (g @ [k]))"
    using inv gD k nth_pos(2) [OF gP(1)] by (auto simp: queue_inv_def final_node_def)
  moreover have "nnext (acnodes ac ! pos ps g) = nnext (acnodes ac0 ! pos ps g)"
    using inn gq nth_pos(1) [OF gP(1)] by (auto simp: inner_inv_def)
  ultimately have fi: "nnext (acnodes ac ! pos ps g) ! k = pos ps f" by simp
  have nq: "nnext (acnodes ac ! q) ! k = pos ps (ps ! q @ [k])" using inn k by (auto simp: inner_inv_def)
  show ?thesis
  proof (cases "ps ! q @ [k] \<in> set ps")
    case False
    then have res: "build_edge q (fail0 ! q) k (ac, fail, queue) = (set_node q (set_edge k (pos ps f) False) ac, fail, queue)"
      using nq fi pos_notin [OF False] by (simp add: build_edge_def fn Let_def)
    have ls: "lsuf (set ps) (ps ! q @ [k]) = f" using False wq by (cases "ps ! q") (auto simp: f_def)
    let ?ac = "set_node q (set_edge k (pos ps f) False) ac"
    have node: "acnodes ?ac ! n = (if n = q then set_edge k (pos ps f) False (acnodes ac ! q) else acnodes ac ! n)" for n
      using q len by (cases "n = q") (simp_all add: set_node_def)
    have lenq: "length (nnext (acnodes ac ! q)) = 39" "length (nedge (acnodes ac ! q)) = 39"
      and edges: "\<And>e. e < 39 \<Longrightarrow> nedge (acnodes ac ! q) ! e \<longleftrightarrow> ps ! q @ [e] \<in> set ps"
      using inn q by (auto simp: inner_inv_def table_ok_def)
    have tab: "table_ok ps ?ac"
      using inn lenq edges False unfolding table_ok_def node
      by (auto simp: inner_inv_def table_ok_def set_edge_def nth_list_update_any set_node_def)
    have fo: "fail_set ps S ?ac fail n \<longleftrightarrow> fail_set ps S ac fail n" for n
      by (simp add: fail_set_def node set_edge_def)
    have nfo: "nfail (acnodes ?ac ! n) = nfail (acnodes ac ! n)" "nmatch (acnodes ?ac ! n) = nmatch (acnodes ac ! n)" for n
      by (simp_all add: node set_edge_def)
    have nx: "nnext (acnodes ?ac ! q) ! e = pos ps (if e < Suc k then lsuf (set ps) (ps ! q @ [e]) else ps ! q @ [e])"
      if "e < 39" for e
      using that inn ls lenq by (auto simp: node set_edge_def nth_list_update_any inner_inv_def less_Suc_eq)
    show ?thesis
      using inn False tab nx unfolding res inner_inv_def prod.case fo nfo
      by (simp add: kids_Suc node set_node_def)
  next
    case True
    let ?c = "pos ps (ps ! q @ [k])"
    have c: "?c < length ps" "ps ! ?c = ps ! q @ [k]" "?c \<noteq> 0" using nth_pos [OF True] pos_eq_0 [OF w True] by auto
    have nk: "n \<notin> set (kids ps q k)" if "n < length ps" "depth ps n \<le> depth ps q" for n
      using that by (auto elim!: kids_word)
    have ck: "?c \<notin> set (kids ps q k)"
      using True by (auto simp: kids_def pos_inj)
    have pf: "pos ps f < length ps" "ps ! pos ps f = f" using nth_pos [OF gP(2)] by auto
    have sm: "substr_match ac (pos ps f) \<longleftrightarrow> f \<in> S"
      using inn inv pf by (auto simp: inner_inv_def queue_inv_def substr_match_def Let_def)
    have nf0: "nfail (acnodes ac ! pos ps f) = nfail (acnodes ac0 ! pos ps f)"
      using inn pf nk [OF pf(1)] gd(2) by (auto simp: inner_inv_def)
    have "nfail (acnodes ac0 ! pos ps f) = pos ps (lsuf S (tl f))"
    proof (cases "f = []")
      case True
      then show ?thesis using inv w by (simp add: queue_inv_def)
    next
      case False
      then have "pos ps f \<in> D \<union> set (q # qs) - {0}"
        using queue_depth_le [OF w inv pf(1)] pf gd(2) pos_eq_0 [OF w gP(2)] by auto
      then show ?thesis using inv pf by (auto simp: queue_inv_def fail_set_def)
    qed
    with nf0 sm have nf: "(if substr_match ac (pos ps f) then pos ps f else nfail (acnodes ac ! pos ps f)) = pos ps (lsuf S f)"
      using lsuf_self [of f S] lsuf_tl [of f S] by auto
    have tlc: "tl (ps ! ?c) = tl (ps ! q @ [k])" using c by simp
    have lS: "lsuf S (tl (ps ! ?c)) = lsuf S f" unfolding tlc f_def by (rule lsuf_sub [OF SP])
    have res: "build_edge q (fail0 ! q) k (ac, fail, queue) =
        (set_node ?c (\<lambda>nd. nd\<lparr>nfail := pos ps (lsuf S f)\<rparr>) ac, fail[?c := pos ps f], queue @ [?c])"
      unfolding build_edge_def prod.case Let_def fn nq fi nf using c(3) by simp
    have lq: "lsuf (set ps) (ps ! q @ [k]) = ps ! q @ [k]" by (rule lsuf_self [OF True])
    let ?ac = "set_node ?c (\<lambda>nd. nd\<lparr>nfail := pos ps (lsuf S f)\<rparr>) ac"
    have tab: "table_ok ps ?ac"
      using inn by (auto simp: inner_inv_def table_ok_def set_nfail_node) (simp_all add: set_node_def)
    have fc: "fail_set ps S ?ac (fail[?c := pos ps f]) ?c"
      using c len lenf lS tlc by (simp add: fail_set_def set_nfail_node f_def)
    have fo: "fail_set ps S ?ac (fail[?c := pos ps f]) n \<longleftrightarrow> fail_set ps S ac fail n" if "n < length ps" "n \<noteq> ?c" for n
      using that len by (simp add: fail_set_def set_nfail_node nth_list_update_any)
    show ?thesis
      unfolding res inner_inv_def prod.case
    proof (intro conjI allI impI)
      fix n assume n: "n < length ps"
      show "nmatch (acnodes ?ac ! n) = nmatch (acnodes ac0 ! n)" using inn n len by (simp add: inner_inv_def set_nfail_node)
      show "n \<noteq> q \<Longrightarrow> nnext (acnodes ?ac ! n) = nnext (acnodes ac0 ! n)"
        using inn n len by (simp add: inner_inv_def set_nfail_node)
      show "fail[?c := pos ps f] ! n = fail0 ! n" if "n \<notin> set (kids ps q (Suc k))"
        using that True inn n by (auto simp: inner_inv_def kids_Suc nth_list_update_any)
      show "nfail (acnodes ?ac ! n) = nfail (acnodes ac0 ! n)" if "n \<notin> set (kids ps q (Suc k))"
        using that True inn n len by (auto simp: inner_inv_def kids_Suc set_nfail_node)
      show "fail_set ps S ?ac (fail[?c := pos ps f]) n" if "n \<in> set (kids ps q (Suc k))"
        using that True inn n fc fo by (cases "n = ?c") (auto simp: inner_inv_def kids_Suc)
    next
      fix e :: nat assume e: "e < 39"
      show "nnext (acnodes ?ac ! q) ! e = pos ps (if e < Suc k then lsuf (set ps) (ps ! q @ [e]) else ps ! q @ [e])"
        using inn e q len lq by (auto simp: inner_inv_def set_nfail_node less_Suc_eq)
    qed (use inn tab True in \<open>auto simp: inner_inv_def kids_Suc set_node_def\<close>)
  qed
qed

lemma inner_loop:
  assumes w: "words_ok ps" and SP: "S \<subseteq> set ps" and S0: "[] \<notin> S" and inv: "queue_inv ps S D (ac0, fail0, q # qs)"
    and k: "k \<le> 39"
  shows "inner_inv ps S q k (ac0, fail0, qs) (fold (build_edge q (fail0 ! q)) [0..<k] (ac0, fail0, qs))"
  using k
proof (induction k)
  case 0
  have "q < length ps" "q \<notin> D" using inv by (auto simp: queue_inv_def)
  then show ?case using inv by (auto simp: inner_inv_def kids_def queue_inv_def trie_node_def)
next
  case (Suc k)
  then show ?case
    using build_edge_inner [OF w SP S0 inv, of k]
    by (cases "fold (build_edge q (fail0 ! q)) [0..<k] (ac0, fail0, qs)") auto
qed

lemma kids_iff:
  assumes w: "words_ok ps" and q: "q < length ps" and n: "n < length ps"
  shows "n \<in> set (kids ps q 39) \<longleftrightarrow> n \<noteq> 0 \<and> pos ps (butlast (ps ! n)) = q"
proof
  assume "n \<in> set (kids ps q 39)"
  then obtain e where e: "ps ! n = ps ! q @ [e]" by (elim kids_word)
  have "n \<noteq> 0"
  proof
    assume "n = 0"
    with e w show False by (simp add: words_ok_def)
  qed
  with e w q show "n \<noteq> 0 \<and> pos ps (butlast (ps ! n)) = q" by (simp add: pos_nth words_ok_def)
next
  assume a: "n \<noteq> 0 \<and> pos ps (butlast (ps ! n)) = q"
  then have b: "ps ! n \<noteq> []" "butlast (ps ! n) \<in> set ps" using butlast_in [OF w n] by auto
  then have "ps ! q = butlast (ps ! n)" using a nth_pos(2) by blast
  then have eq: "ps ! n = ps ! q @ [last (ps ! n)]" using b by simp
  moreover have "last (ps ! n) < 39" using w eq nth_mem [OF n] unfolding words_ok_def by metis
  moreover have "n = pos ps (ps ! q @ [last (ps ! n)])" using eq w n by (metis pos_nth words_ok_def)
  ultimately show "n \<in> set (kids ps q 39)" using nth_mem [OF n] by (force simp: kids_def)
qed

lemma kids_distinct:
  assumes "words_ok ps"
  shows "distinct (kids ps q k)"
  by (auto simp: kids_def distinct_map inj_on_def pos_inj)

lemma kids_depth: "n \<in> set (kids ps q k) \<Longrightarrow> depth ps n = Suc (depth ps q)"
  by (auto elim!: kids_word)

lemma build_node_inv:
  assumes w: "words_ok ps" and SP: "S \<subseteq> set ps" and S0: "[] \<notin> S" and inv: "queue_inv ps S D (ac0, fail0, q # qs)"
  shows "queue_inv ps S (insert q D) (build_node (ac0, fail0, q # qs))"
proof -
  obtain ac fail queue where st: "build_node (ac0, fail0, q # qs) = (ac, fail, queue)" by (metis prod_cases3)
  have inn: "inner_inv ps S q 39 (ac0, fail0, qs) (ac, fail, queue)"
    using inner_loop [OF w SP S0 inv, of 39] st by (simp add: build_node_def Let_def)
  have q: "q < length ps" "q \<noteq> 0" "q \<notin> D" "q \<notin> set qs" "distinct qs" "set qs \<inter> D = {}"
    using inv by (auto simp: queue_inv_def)
  have queue: "queue = qs @ kids ps q 39" using inn by (simp add: inner_inv_def)
  have par: "pos ps (butlast (ps ! n)) \<in> D \<longleftrightarrow> n \<in> D \<union> set (q # qs)" if "n < length ps" "n \<noteq> 0" for n
    using inv that unfolding queue_inv_def prod.case by blast
  have old: "n \<notin> set (kids ps q 39)" if "n \<in> D \<union> set (q # qs)" for n
  proof
    assume k: "n \<in> set (kids ps q 39)"
    then have "n < length ps" by (elim kids_word)
    with k kids_iff [OF w q(1), of n] par [of n] that q(3) show False by auto
  qed
  have kid_lt: "n \<in> set (kids ps q 39) \<Longrightarrow> 0 < n \<and> n < length ps" for n
    using kids_iff [OF w q(1), of n] by (auto elim: kids_word)
  have sq: "sorted (map (depth ps) qs)" "\<forall>n \<in> set qs. depth ps q \<le> depth ps n \<and> depth ps n \<le> Suc (depth ps q)"
    using inv by (auto simp: queue_inv_def)
  have sk: "map (depth ps) (kids ps q 39) = replicate (length (kids ps q 39)) (Suc (depth ps q))"
    using replicate_length_same [of "map (depth ps) (kids ps q 39)" "Suc (depth ps q)"] kids_depth [of _ ps q 39] by auto
  have sorted: "sorted (map (depth ps) queue)"
    unfolding queue map_append sk using sq by (simp add: sorted_append)
  have depths: "\<forall>n \<in> set queue. depth ps q \<le> depth ps n \<and> depth ps n \<le> Suc (depth ps q)"
    using sq(2) kids_depth [of _ ps q 39] unfolding queue by auto
  have bound: "\<forall>n \<in> set queue. depth ps n \<le> Suc (depth ps (hd queue))"
  proof
    fix n assume n: "n \<in> set queue"
    then have "hd queue \<in> set queue" by (cases queue) auto
    then have "depth ps q \<le> depth ps (hd queue)" using depths by blast
    moreover have "depth ps n \<le> Suc (depth ps q)" using depths n by blast
    ultimately show "depth ps n \<le> Suc (depth ps (hd queue))" by simp
  qed
  have nodes: "nmatch (acnodes ac ! n) = nmatch (acnodes ac0 ! n)"
    "n \<noteq> q \<Longrightarrow> nnext (acnodes ac ! n) = nnext (acnodes ac0 ! n)"
    "n \<notin> set (kids ps q 39) \<Longrightarrow> fail ! n = fail0 ! n \<and> nfail (acnodes ac ! n) = nfail (acnodes ac0 ! n)"
    "n \<in> set (kids ps q 39) \<Longrightarrow> fail_set ps S ac fail n" if "n < length ps" for n
    using inn that by (auto simp: inner_inv_def)
  have lt: "n < length ps" if "n \<in> D \<union> set (q # qs)" for n using inv that by (auto simp: queue_inv_def)
  have final: "final_node ps ac n" if "n \<in> insert q D" for n
  proof (cases "n = q")
    case True
    then show ?thesis using inn by (auto simp: inner_inv_def final_node_def)
  next
    case False
    then show ?thesis using that inv nodes(2) [OF lt, of n] by (auto simp: queue_inv_def final_node_def)
  qed
  have trie: "trie_node ps ac n" if "n < length ps" "n \<notin> insert q D" for n
    using that inv nodes(2) [OF that(1)] by (auto simp: queue_inv_def trie_node_def)
  have fs: "fail_set ps S ac fail n" if "n \<in> insert q D \<union> set queue - {0}" for n
  proof (cases "n \<in> set (kids ps q 39)")
    case True
    then show ?thesis using nodes(4) kid_lt by blast
  next
    case False
    with that have n: "n \<in> D \<union> set (q # qs) - {0}" by (auto simp: queue)
    then have "fail_set ps S ac0 fail0 n" using inv unfolding queue_inv_def prod.case by blast
    with nodes(3) [OF lt False] n show ?thesis by (auto simp: fail_set_def)
  qed
  have par': "pos ps (butlast (ps ! n)) \<in> insert q D \<longleftrightarrow> n \<in> insert q D \<union> set queue" if n: "n < length ps" "n \<noteq> 0" for n
    using par [OF n] kids_iff [OF w q(1) n(1)] n(2) by (auto simp: queue)
  have zero: "nfail (acnodes ac ! 0) = 0"
    using inv nodes(3) [of 0] old [of 0] w by (auto simp: queue_inv_def words_ok_def)
  have sub: "nmatch (acnodes ac ! n) \<noteq> 0 \<and> acvalues ac ! nmatch (acnodes ac ! n) ! 2 \<noteq> [] \<longleftrightarrow> ps ! n \<in> S"
    if "n < length ps" for n
  proof -
    have "acvalues ac = acvalues ac0" using inn by (simp add: inner_inv_def)
    then show ?thesis using inv that nodes(1) [OF that] unfolding queue_inv_def prod.case by metis
  qed
  have "set queue \<inter> insert q D = {}" "distinct queue" "set queue \<subseteq> {0<..<length ps}"
    using q old kids_distinct [OF w, of q 39] kid_lt inv by (auto simp: queue queue_inv_def)
  moreover have "table_ok ps ac" "length fail = length ps" using inn by (auto simp: inner_inv_def)
  moreover have "0 \<in> insert q D" "insert q D \<subseteq> {..<length ps}" using inv q(1) by (auto simp: queue_inv_def)
  moreover have "\<forall>n \<in> insert q D. final_node ps ac n" using final by blast
  moreover have "\<forall>n \<in> insert q D \<union> set queue - {0}. fail_set ps S ac fail n" using fs by blast
  ultimately show ?thesis
    unfolding st queue_inv_def prod.case
    using trie par' sub by (intro conjI allI impI) (assumption | rule zero sorted bound | blast)+
qed

definition automaton_ok :: "nat list list \<Rightarrow> nat list set \<Rightarrow> ACAutomatonMatcherGroup \<Rightarrow> bool" where
  "automaton_ok ps S ac \<longleftrightarrow> table_ok ps ac \<and>
     (\<forall>n < length ps. final_node ps ac n \<and> nfail (acnodes ac ! n) = pos ps (lsuf S (tl (ps ! n))))"

text \<open>Adding values to the invariant: \<open>Build\<close> changes neither match entries nor values.\<close>

definition same_match :: "nat list list \<Rightarrow> ACAutomatonMatcherGroup \<Rightarrow> ACAutomatonMatcherGroup \<Rightarrow> bool" where
  "same_match ps ac ac' \<longleftrightarrow> acvalues ac' = acvalues ac \<and>
     (\<forall>n < length ps. nmatch (acnodes ac' ! n) = nmatch (acnodes ac ! n))"

lemma build_node_same:
  assumes w: "words_ok ps" and SP: "S \<subseteq> set ps" and S0: "[] \<notin> S" and inv: "queue_inv ps S D (ac0, fail0, q # qs)"
    and st: "build_node (ac0, fail0, q # qs) = (ac, fail, queue)"
  shows "same_match ps ac0 ac"
  using inner_loop [OF w SP S0 inv, of 39] st
  by (simp add: build_node_def Let_def inner_inv_def same_match_def)

lemma build_loop_ok:
  assumes w: "words_ok ps" and SP: "S \<subseteq> set ps" and S0: "[] \<notin> S" and inv: "queue_inv ps S D (ac, fail, queue)"
  shows "\<exists>ac'. build_loop (ac, fail, queue) = Some ac' \<and> automaton_ok ps S ac' \<and> same_match ps ac ac'"
  using inv
proof (induction "length ps - card D" arbitrary: D ac fail queue rule: less_induct)
  case less
  show ?case
  proof (cases queue)
    case Nil
    have all: "n \<in> D" if "n < length ps" for n using queue_end [OF w _ that] less.prems Nil by blast
    have "nfail (acnodes ac ! n) = pos ps (lsuf S (tl (ps ! n)))" if n: "n < length ps" for n
    proof (cases "n = 0")
      case True
      then show ?thesis using less.prems w Nil by (auto simp: queue_inv_def words_ok_def)
    next
      case False
      then have "fail_set ps S ac fail n" using all [OF n] less.prems unfolding queue_inv_def prod.case by blast
      then show ?thesis by (simp add: fail_set_def)
    qed
    moreover have "table_ok ps ac" "\<forall>n \<in> D. final_node ps ac n" using less.prems by (auto simp: queue_inv_def)
    ultimately have "automaton_ok ps S ac" using all by (simp add: automaton_ok_def)
    then show ?thesis using Nil by (subst build_loop.simps) (simp add: same_match_def)
  next
    case (Cons q qs)
    obtain ac1 fail1 queue1 where st: "build_node (ac, fail, q # qs) = (ac1, fail1, queue1)" by (metis prod_cases3)
    have inv: "queue_inv ps S D (ac, fail, q # qs)" using less.prems Cons by simp
    have inv1: "queue_inv ps S (insert q D) (ac1, fail1, queue1)"
      using build_node_inv [OF w SP S0 inv] st by simp
    have D: "insert q D \<subseteq> {..<length ps}" "q \<notin> D" using inv1 inv by (auto simp: queue_inv_def)
    then have "card (insert q D) \<le> length ps" "card (insert q D) = Suc (card D)"
      using card_mono [OF finite_lessThan D(1)] finite_subset [OF D(1)] by auto
    then have "length ps - card (insert q D) < length ps - card D" by simp
    from less.hyps [OF this inv1] obtain ac' where
      r: "build_loop (ac1, fail1, queue1) = Some ac'" "automaton_ok ps S ac'" "same_match ps ac1 ac'" by blast
    moreover have "build_loop (ac, fail, queue) = build_loop (ac1, fail1, queue1)"
      using Cons st by (subst build_loop.simps) simp
    moreover have "same_match ps ac ac'"
      using build_node_same [OF w SP S0 inv st] r(3) by (simp add: same_match_def)
    ultimately show ?thesis by auto
  qed
qed

lemma AC_Build_ok:
  assumes ok: "ac_ok ps rs ac" and S0: "[] \<notin> subwords rs"
  shows "\<exists>ac'. AC_Build ac = Some ac' \<and> automaton_ok ps (subwords rs) ac' \<and> values_ok ps rs ac'"
proof -
  let ?S = "subwords rs"
  define Q where "Q = filter (\<lambda>n. n \<noteq> 0) (nnext (acnodes ac ! 0))"
  have t: "trie_ok ps ac" and v: "values_ok ps rs ac" using ok by (auto simp: ac_ok_def)
  then have w: "words_ok ps" and tab: "table_ok ps ac" and len: "length (acnodes ac) = length ps"
    by (auto simp: trie_ok_def table_ok_def)
  have p0: "0 < length ps" "ps ! 0 = []" using w by (auto simp: words_ok_def)
  have SP: "?S \<subseteq> set ps" using v by (auto simp: subwords_def values_ok_def)
  have "nnext (acnodes ac ! 0) = map (\<lambda>e. pos ps [e]) [0..<39]"
    using t tab p0 by (intro nth_equalityI) (auto simp: trie_ok_def table_ok_def)
  moreover have "pos ps [e] \<noteq> 0 \<longleftrightarrow> [e] \<in> set ps" for e using pos_eq_0' [OF w, of "[e]"] by auto
  ultimately have q: "Q = kids ps 0 39" by (simp add: Q_def kids_def filter_map o_def p0)
  have kid: "n \<in> set Q \<longleftrightarrow> n < length ps \<and> n \<noteq> 0 \<and> pos ps (butlast (ps ! n)) = 0" for n
    using kids_iff [OF w p0(1), of n] unfolding q by (auto elim: kids_word)
  have kd: "ps ! n = [last (ps ! n)]" if "n \<in> set Q" for n
    using that kids_depth [of n ps 0 39] unfolding q by (cases "ps ! n") (auto simp: p0)
  have inv: "queue_inv ps ?S {0} (ac, replicate (length ps) 0, Q)"
  proof -
    have sub: "nmatch (acnodes ac ! n) \<noteq> 0 \<and> acvalues ac ! nmatch (acnodes ac ! n) ! 2 \<noteq> [] \<longleftrightarrow> ps ! n \<in> ?S"
      if n: "n < length ps" for n
    proof -
      have he: "nmatch (acnodes ac ! n) \<noteq> 0 \<longleftrightarrow> has_entry rs (ps ! n)"
        and va: "nmatch (acnodes ac ! n) \<noteq> 0 \<Longrightarrow> acvalues ac ! nmatch (acnodes ac ! n) ! 2 = keyvals rs (ps ! n) 2"
        using v n by (auto simp: values_ok_def numeral_2_eq_2)
      have "keyvals rs (ps ! n) 2 \<noteq> [] \<longleftrightarrow> ps ! n \<in> ?S"
        using set_keyvals [of _ rs "ps ! n" 2] by (auto simp: subwords_def) (metis list.set_intros(1) neq_Nil_conv)
      moreover have "ps ! n \<in> ?S \<Longrightarrow> has_entry rs (ps ! n)" by (auto simp: subwords_def has_entry_def)
      ultimately show ?thesis using he va by metis
    qed
    have fin: "final_node ps ac 0"
      using t p0 w unfolding final_node_def trie_ok_def
      by (auto simp: pos_notin)
    have tri: "trie_node ps ac n" "nfail (acnodes ac ! n) = 0" if "n < length ps" for n
      using t that by (auto simp: trie_ok_def trie_node_def)
    have fs: "fail_set ps ?S ac (replicate (length ps) 0) n" if "n \<in> {0} \<union> set Q - {0}" for n
    proof -
      have n: "n \<in> set Q" "n < length ps" using that kid by auto
      then have "tl (ps ! n) = []" using kd by (metis list.sel(3))
      then show ?thesis using tri(2) n w by (simp add: fail_set_def)
    qed
    have "sorted (map (depth ps) Q)" "\<forall>n \<in> set Q. depth ps n \<le> Suc (depth ps (hd Q))"
    proof -
      have "depth ps n = 1" if "n \<in> set Q" for n using kd [OF that] by (metis One_nat_def length_Cons list.size(3))
      then have "map (depth ps) Q = replicate (length Q) 1"
        using replicate_length_same [of "map (depth ps) Q" 1] by simp
      then show "sorted (map (depth ps) Q)" by (metis sorted_replicate)
      show "\<forall>n \<in> set Q. depth ps n \<le> Suc (depth ps (hd Q))"
        using \<open>\<And>n. n \<in> set Q \<Longrightarrow> depth ps n = 1\<close> by simp
    qed
    moreover have "distinct Q" unfolding q by (rule kids_distinct [OF w])
    moreover have "set Q \<subseteq> {0<..<length ps}" "set Q \<inter> {0} = {}"
      by (auto dest!: kid [THEN iffD1])
    moreover have "\<forall>n < length ps. n \<noteq> 0 \<longrightarrow> (pos ps (butlast (ps ! n)) \<in> {0} \<longleftrightarrow> n \<in> {0} \<union> set Q)"
      unfolding Un_iff kid by blast
    ultimately show ?thesis
      using tab sub fin tri fs p0 unfolding queue_inv_def prod.case by simp
  qed
  from build_loop_ok [OF w SP S0 inv] obtain ac' where
    r: "build_loop (ac, replicate (length ps) 0, Q) = Some ac'" "automaton_ok ps ?S ac'" "same_match ps ac ac'" by blast
  then have "values_ok ps rs ac'" using v by (auto simp: values_ok_def same_match_def)
  with r len show ?thesis by (simp add: AC_Build_def Q_def)
qed

end
