(* ===== verification/AcProofs.thy ===== *)
theory AcProofs
  imports AcBuild
begin

text \<open>
  Matching with the built automaton: \<open>Match\<close> returns the values of the patterns that match, \<open>MatchAny\<close>
  whether there is one, and on domain names these are the matches of the matchers themselves.
\<close>

section \<open>Matching\<close>

lemma acCharset_dot: "acCharset c = 28 \<longleftrightarrow> c = CHR ''.''"
  by (auto simp: acCharset_def is_upper_def is_lower_def is_digit_def less_eq_char_def)

definition built_ok :: "nat list list \<Rightarrow> raw_entries \<Rightarrow> ACAutomatonMatcherGroup \<Rightarrow> bool" where
  "built_ok ps rs ac \<longleftrightarrow> words_ok ps \<and> automaton_ok ps (subwords rs) ac \<and> values_ok ps rs ac \<and> [] \<notin> subwords rs"

lemma built_words: "built_ok ps rs ac \<Longrightarrow> words_ok ps"
  by (simp add: built_ok_def)

lemma built_sub: "built_ok ps rs ac \<Longrightarrow> subwords rs \<subseteq> set ps"
  by (auto simp: built_ok_def subwords_def values_ok_def)

lemma built_lsuf: "built_ok ps rs ac \<Longrightarrow> lsuf (set ps) u \<in> set ps"
  by (rule lsuf_in [OF words_Nil [OF built_words]])

lemma built_next:
  assumes B: "built_ok ps rs ac" and e: "e < 39"
  shows "nnext (acnodes ac ! pos ps (lsuf (set ps) u)) ! e = pos ps (lsuf (set ps) (u @ [e]))"
  using B e nth_pos [OF built_lsuf [OF B], of u] lsuf_snoc [of "set ps" u e] words_closed [OF built_words [OF B]]
  by (auto simp: built_ok_def automaton_ok_def final_node_def)

lemma built_full:
  assumes B: "built_ok ps rs ac" and e: "e < 39"
  shows "u \<in> set ps \<and> nedge (acnodes ac ! pos ps (lsuf (set ps) u)) ! e \<longleftrightarrow> u @ [e] \<in> set ps"
  using B e nth_pos [OF built_lsuf [OF B], of u] lsuf_self [of u "set ps"] words_closed [OF built_words [OF B], of u e]
  by (auto simp: built_ok_def automaton_ok_def table_ok_def)

lemma built_match:
  assumes B: "built_ok ps rs ac" and w: "w \<in> set ps"
  shows "nmatch (acnodes ac ! pos ps w) \<noteq> 0 \<longleftrightarrow> has_entry rs w"
    and "nmatch (acnodes ac ! pos ps w) \<noteq> 0 \<Longrightarrow> acvalues ac ! nmatch (acnodes ac ! pos ps w) = map (keyvals rs w) [0..<3]"
  using B nth_pos [OF w] by (auto simp: built_ok_def values_ok_def)

lemma built_fail:
  assumes B: "built_ok ps rs ac" and w: "w \<in> set ps"
  shows "nfail (acnodes ac ! pos ps w) = pos ps (lsuf (subwords rs) (tl w))"
  using B nth_pos [OF w] by (auto simp: built_ok_def automaton_ok_def)

lemma built_lsufS: "built_ok ps rs ac \<Longrightarrow> lsuf (subwords rs) w \<in> set ps"
  using lsuf_in_or_Nil [of "subwords rs" w] built_sub words_Nil [OF built_words] by fastforce

text \<open>The values of the substring patterns that end at a word.\<close>

definition sub_vals :: "raw_entries \<Rightarrow> nat list \<Rightarrow> u32 set" where
  "sub_vals rs w = {v. \<exists>s. (s, 2, v) \<in> set rs \<and> suffix s w}"

lemma sub_vals_Nil: "[] \<notin> subwords rs \<Longrightarrow> sub_vals rs [] = {}"
  by (auto simp: sub_vals_def subwords_def)

lemma sub_vals_Cons: "sub_vals rs (x # w) = set (keyvals rs (x # w) 2) \<union> sub_vals rs w"
  by (auto simp: sub_vals_def suffix_Cons set_keyvals)

lemma sub_vals_lsuf:
  assumes "subwords rs \<subseteq> Q"
  shows "sub_vals rs (lsuf Q w) = sub_vals rs w"
proof -
  have "suffix t (lsuf Q w) \<longleftrightarrow> suffix t w" if "(t, 2, v) \<in> set rs" for t v
  proof -
    have "t \<in> Q" using that assms by (auto simp: subwords_def)
    then show ?thesis using suffix_lsuf [of t Q w] lsuf_suffix [of Q w] suffix_order.trans by blast
  qed
  then show ?thesis unfolding sub_vals_def by blast
qed

lemma keyvals_ne: "keyvals rs w t \<noteq> [] \<longleftrightarrow> (\<exists>v. (w, t, v) \<in> set rs)"
  using set_keyvals [of _ rs w t] by (metis list.set_intros(1) neq_Nil_conv length_greater_0_conv length_pos_if_in_set)

lemma unat_substr: "unat (2 :: mtype) = 2"
  by simp

lemma unat_domain: "unat (1 :: mtype) = 1"
  by simp

lemma fail_path_vals:
  assumes B: "built_ok ps rs ac" and "w \<in> subwords rs"
  shows "\<exists>ms. fail_path ac (pos ps w) (pos ps w) = Some ms \<and> set (concat ms) = sub_vals rs w"
  using assms(2)
proof (induction "length w" arbitrary: w rule: less_induct)
  case less
  let ?S = "subwords rs"
  have words: "words_ok ps" and ne: "[] \<notin> ?S" using B by (auto simp: built_ok_def)
  have wP: "w \<in> set ps" using less.prems built_sub [OF B] by auto
  obtain x w0 where w: "w = x # w0" using less.prems ne by (cases w) auto
  have nz: "pos ps w \<noteq> 0" using pos_eq_0 [OF words wP] w by simp
  have "has_entry rs w" using less.prems by (auto simp: subwords_def has_entry_def)
  then have val: "acvalues ac ! nmatch (acnodes ac ! pos ps w) ! unat (2 :: mtype) = keyvals rs w 2"
    using built_match [OF B wP] unfolding unat_substr by (simp add: numeral_2_eq_2)
  let ?j = "lsuf ?S w0"
  have j: "nfail (acnodes ac ! pos ps w) = pos ps ?j" using built_fail [OF B wP] w by simp
  show ?case
  proof (cases "?j = []")
    case True
    have "sub_vals rs w0 = {}" using sub_vals_lsuf [of rs ?S w0] True sub_vals_Nil [OF ne] by simp
    moreover have "fail_path ac (pos ps w) (pos ps w) = Some [keyvals rs w 2]"
      using nz j True words val by (subst fail_path.simps) (simp add: fail_path.simps [of _ 0])
    ultimately show ?thesis using sub_vals_Cons [of rs x w0] w by simp
  next
    case False
    then have jS: "?j \<in> ?S" using lsuf_in_or_Nil by blast
    then have jz: "pos ps ?j \<noteq> 0" using pos_eq_0 [OF words built_lsufS [OF B]] False by simp
    have "length ?j < length w" using lsuf_length [of ?S w0] w by simp
    from less.hyps [OF this jS] obtain ms where
      ms: "fail_path ac (pos ps ?j) (pos ps ?j) = Some ms" "set (concat ms) = sub_vals rs ?j" by blast
    have "fail_path ac (pos ps ?j) (pos ps w) = Some (keyvals rs w 2 # ms)"
      using jz j ms(1) val by (subst fail_path.simps) simp
    then have "fail_path ac (pos ps w) (pos ps w) = Some (keyvals rs w 2 # keyvals rs w 2 # ms)"
      using nz j val by (subst fail_path.simps) simp
    then show ?thesis using ms(2) sub_vals_lsuf [of rs ?S w0] sub_vals_Cons [of rs x w0] w by auto
  qed
qed

lemma built_path:
  assumes B: "built_ok ps rs ac" and f: "f \<in> set ps"
  shows "\<exists>path. (if nfail (acnodes ac ! pos ps f) \<noteq> 0
      then fail_path ac (nfail (acnodes ac ! pos ps f)) (nfail (acnodes ac ! pos ps f)) else Some []) = Some path \<and>
    set (concat path) = sub_vals rs (tl f)"
proof -
  have words: "words_ok ps" and ne: "[] \<notin> subwords rs" using B by (auto simp: built_ok_def)
  let ?j = "lsuf (subwords rs) (tl f)"
  have sv: "sub_vals rs ?j = sub_vals rs (tl f)" by (rule sub_vals_lsuf) simp
  show ?thesis
  proof (cases "?j = []")
    case True
    then show ?thesis using built_fail [OF B f] sv sub_vals_Nil [OF ne] words by simp
  next
    case False
    then have "?j \<in> subwords rs" using lsuf_in_or_Nil by blast
    from fail_path_vals [OF B this] False show ?thesis
      using built_fail [OF B f] sv pos_eq_0 [OF words built_lsufS [OF B]] by simp
  qed
qed

lemma built_vals:
  assumes B: "built_ok ps rs ac" and w: "w \<in> set ps" and t: "t < 3"
  shows "(if nmatch (acnodes ac ! pos ps w) \<noteq> 0 \<and> acvalues ac ! nmatch (acnodes ac ! pos ps w) ! t \<noteq> []
      then [acvalues ac ! nmatch (acnodes ac ! pos ps w) ! t] else []) =
    (if keyvals rs w t \<noteq> [] then [keyvals rs w t] else [])"
proof (cases "nmatch (acnodes ac ! pos ps w) = 0")
  case True
  then have "keyvals rs w t = []" using built_match(1) [OF B w] keyvals_ne [of rs w t] by (auto simp: has_entry_def)
  with True show ?thesis by simp
next
  case False
  then have "acvalues ac ! nmatch (acnodes ac ! pos ps w) ! t = keyvals rs w t"
    using built_match(2) [OF B w] t by simp
  with False show ?thesis by simp
qed

text \<open>The loop of \<open>Match\<close> in terms of the words: one step.\<close>

lemma ac_scan_step:
  fixes u :: "nat list" and c :: char
  assumes B: "built_ok ps rs ac"
  defines "f \<equiv> lsuf (set ps) (u @ [acCharset c])"
  shows "\<exists>path. set (concat path) = sub_vals rs (tl f) \<and>
    ac_scan ac (c # cs) (pos ps (lsuf (set ps) u)) (u \<in> set ps) subs sufs =
    ac_scan ac cs (pos ps f) (u @ [acCharset c] \<in> set ps)
      (subs @ path @ (if keyvals rs f 2 \<noteq> [] then [keyvals rs f 2] else []))
      (sufs @ (if u @ [acCharset c] \<in> set ps \<and> c = CHR ''.'' \<and> keyvals rs f 1 \<noteq> [] then [keyvals rs f 1] else []))"
proof -
  have fP: "f \<in> set ps" unfolding f_def by (rule built_lsuf [OF B])
  have nx: "nnext (acnodes ac ! pos ps (lsuf (set ps) u)) ! acCharset c = pos ps f"
    unfolding f_def by (rule built_next [OF B acCharset_less])
  have full: "u \<in> set ps \<and> nedge (acnodes ac ! pos ps (lsuf (set ps) u)) ! acCharset c \<longleftrightarrow> u @ [acCharset c] \<in> set ps"
    by (rule built_full [OF B acCharset_less])
  obtain path where path: "(if nfail (acnodes ac ! pos ps f) \<noteq> 0
      then fail_path ac (nfail (acnodes ac ! pos ps f)) (nfail (acnodes ac ! pos ps f)) else Some []) = Some path"
    "set (concat path) = sub_vals rs (tl f)" using built_path [OF B fP] by blast
  have v: "unat (2 :: mtype) = 2" "unat (1 :: mtype) = 1" by simp_all
  note vals = built_vals [OF B fP, of 2] built_vals [OF B fP, of 1]
  show ?thesis
  proof (intro exI conjI)
    show "set (concat path) = sub_vals rs (tl f)" by (rule path(2))
    show "ac_scan ac (c # cs) (pos ps (lsuf (set ps) u)) (u \<in> set ps) subs sufs =
      ac_scan ac cs (pos ps f) (u @ [acCharset c] \<in> set ps)
      (subs @ path @ (if keyvals rs f 2 \<noteq> [] then [keyvals rs f 2] else []))
      (sufs @ (if u @ [acCharset c] \<in> set ps \<and> c = CHR ''.'' \<and> keyvals rs f 1 \<noteq> [] then [keyvals rs f 1] else []))"
    proof (cases "nmatch (acnodes ac ! pos ps f) = 0")
      case True
      then have "keyvals rs f 2 = []" "keyvals rs f 1 = []" using vals by (auto split: if_splits)
      with True show ?thesis by (simp only: ac_scan.simps Let_def nx full path(1) option.case) simp
    next
      case False
      then have "acvalues ac ! nmatch (acnodes ac ! pos ps f) ! 2 = keyvals rs f 2"
        "acvalues ac ! nmatch (acnodes ac ! pos ps f) ! 1 = keyvals rs f 1"
        using built_match(2) [OF B fP] by (simp_all add: numeral_2_eq_2)
      with False show ?thesis by (simp only: ac_scan.simps Let_def nx full path(1) option.case v) simp
    qed
  qed
qed

lemma built_sub_vals:
  assumes B: "built_ok ps rs ac"
  shows "sub_vals rs (tl (lsuf (set ps) u)) \<union> set (keyvals rs (lsuf (set ps) u) 2) = sub_vals rs u"
proof -
  have ne: "[] \<notin> subwords rs" using B by (simp add: built_ok_def)
  then have "keyvals rs [] 2 = []" using keyvals_ne [of rs "[]" 2] by (auto simp: subwords_def)
  moreover have "sub_vals rs (lsuf (set ps) u) = sub_vals rs u" by (rule sub_vals_lsuf [OF built_sub [OF B]])
  ultimately show ?thesis
    using sub_vals_Nil [OF ne] sub_vals_Cons [of rs] by (cases "lsuf (set ps) u") auto
qed

lemma ac_scan_ok:
  assumes B: "built_ok ps rs ac"
  shows "\<exists>subs' sufs'. ac_scan ac cs (pos ps (lsuf (set ps) u)) (u \<in> set ps) subs sufs =
      Some (pos ps (lsuf (set ps) (u @ map acCharset cs)), u @ map acCharset cs \<in> set ps, subs', sufs') \<and>
    set (concat subs') = set (concat subs) \<union> (\<Union>x \<in> {x. prefix x (map acCharset cs) \<and> x \<noteq> []}. sub_vals rs (u @ x)) \<and>
    set (concat sufs') = set (concat sufs) \<union>
      (\<Union>x \<in> {x. prefix x (map acCharset cs) \<and> x \<noteq> [] \<and> last x = 28}. set (keyvals rs (u @ x) 1))"
proof (induction cs arbitrary: u subs sufs)
  case Nil
  then show ?case by auto
next
  case (Cons c cs)
  let ?e = "acCharset c" let ?u = "u @ [?e]"
  let ?f = "lsuf (set ps) ?u"
  obtain path where path: "set (concat path) = sub_vals rs (tl ?f)"
    "ac_scan ac (c # cs) (pos ps (lsuf (set ps) u)) (u \<in> set ps) subs sufs =
    ac_scan ac cs (pos ps ?f) (?u \<in> set ps)
      (subs @ path @ (if keyvals rs ?f 2 \<noteq> [] then [keyvals rs ?f 2] else []))
      (sufs @ (if ?u \<in> set ps \<and> c = CHR ''.'' \<and> keyvals rs ?f 1 \<noteq> [] then [keyvals rs ?f 1] else []))"
    using ac_scan_step [OF B] by blast
  have sub: "set (concat (subs @ path @ (if keyvals rs ?f 2 \<noteq> [] then [keyvals rs ?f 2] else []))) =
      set (concat subs) \<union> sub_vals rs ?u"
    using path(1) built_sub_vals [OF B, of ?u] by auto
  have suf: "set (concat (sufs @ (if ?u \<in> set ps \<and> c = CHR ''.'' \<and> keyvals rs ?f 1 \<noteq> [] then [keyvals rs ?f 1] else []))) =
      set (concat sufs) \<union> (if ?e = 28 then set (keyvals rs ?u 1) else {})"
  proof (cases "?u \<in> set ps")
    case True
    then show ?thesis using lsuf_self [OF True] acCharset_dot [of c] by auto
  next
    case False
    then have "keyvals rs ?u 1 = []"
      using keyvals_ne [of rs ?u 1] B by (auto simp: built_ok_def values_ok_def)
    with False show ?thesis by (cases "?e = 28") simp_all
  qed
  have pre: "{x. prefix x (map acCharset (c # cs)) \<and> x \<noteq> []} =
      insert [?e] ((#) ?e ` {x. prefix x (map acCharset cs) \<and> x \<noteq> []})"
    by (auto simp: prefix_Cons)
  have pre28: "{x. prefix x (map acCharset (c # cs)) \<and> x \<noteq> [] \<and> last x = 28} =
      (if ?e = 28 then {[?e]} else {}) \<union> ((#) ?e ` {x. prefix x (map acCharset cs) \<and> x \<noteq> [] \<and> last x = 28})"
    by (auto simp: prefix_Cons split: if_splits)
  let ?subs = "subs @ path @ (if keyvals rs ?f 2 \<noteq> [] then [keyvals rs ?f 2] else [])"
  let ?sufs = "sufs @ (if ?u \<in> set ps \<and> c = CHR ''.'' \<and> keyvals rs ?f 1 \<noteq> [] then [keyvals rs ?f 1] else [])"
  obtain subs' sufs' where r: "ac_scan ac cs (pos ps ?f) (?u \<in> set ps) ?subs ?sufs =
      Some (pos ps (lsuf (set ps) (?u @ map acCharset cs)), ?u @ map acCharset cs \<in> set ps, subs', sufs')"
    "set (concat subs') = set (concat ?subs) \<union> (\<Union>x \<in> {x. prefix x (map acCharset cs) \<and> x \<noteq> []}. sub_vals rs (?u @ x))"
    "set (concat sufs') = set (concat ?sufs) \<union>
      (\<Union>x \<in> {x. prefix x (map acCharset cs) \<and> x \<noteq> [] \<and> last x = 28}. set (keyvals rs (?u @ x) 1))"
    using Cons.IH [of ?u ?subs ?sufs] by blast
  show ?case
  proof (intro exI conjI)
    show "ac_scan ac (c # cs) (pos ps (lsuf (set ps) u)) (u \<in> set ps) subs sufs =
      Some (pos ps (lsuf (set ps) (u @ map acCharset (c # cs))), u @ map acCharset (c # cs) \<in> set ps, subs', sufs')"
      using path(2) r(1) by simp
    show "set (concat subs') = set (concat subs) \<union>
        (\<Union>x \<in> {x. prefix x (map acCharset (c # cs)) \<and> x \<noteq> []}. sub_vals rs (u @ x))"
      unfolding r(2) sub pre by auto
    show "set (concat sufs') = set (concat sufs) \<union>
        (\<Union>x \<in> {x. prefix x (map acCharset (c # cs)) \<and> x \<noteq> [] \<and> last x = 28}. set (keyvals rs (u @ x) 1))"
      unfolding r(3) suf pre28 by auto
  qed
qed

definition raw_hits :: "raw_entries \<Rightarrow> nat list \<Rightarrow> u32 set" where
  "raw_hits rs K = {v. \<exists>w. (w, 2, v) \<in> set rs \<and> sublist w K} \<union>
     {v. \<exists>w. (w, 1, v) \<in> set rs \<and> (w = K \<or> prefix w K \<and> w \<noteq> [] \<and> last w = 28)} \<union> {v. (K, 0, v) \<in> set rs}"

lemma sub_vals_sublists:
  assumes "[] \<notin> subwords rs"
  shows "(\<Union>x \<in> {x. prefix x K \<and> x \<noteq> []}. sub_vals rs x) = {v. \<exists>w. (w, 2, v) \<in> set rs \<and> sublist w K}"
  using assms by (fastforce simp: sub_vals_def sublist_altdef subwords_def)

lemma AC_Match_raw:
  assumes B: "built_ok ps rs ac"
  shows "\<exists>vs. AC_Match ac s = Some vs \<and> set vs = raw_hits rs (ekey s)"
proof -
  let ?K = "ekey s"
  have words: "words_ok ps" and ne: "[] \<notin> subwords rs" using B by (auto simp: built_ok_def)
  obtain subs sufs where r: "ac_scan ac (rev s) 0 True [] [] = Some (pos ps (lsuf (set ps) ?K), ?K \<in> set ps, subs, sufs)"
    "set (concat subs) = {v. \<exists>w. (w, 2, v) \<in> set rs \<and> sublist w ?K}"
    "set (concat sufs) = (\<Union>x \<in> {x. prefix x ?K \<and> x \<noteq> [] \<and> last x = 28}. set (keyvals rs x 1))"
    using ac_scan_ok [OF B, of "rev s" "[]" "[]" "[]"] words_Nil [OF words] words sub_vals_sublists [OF ne, of ?K]
    by (auto simp: ekey_def)
  let ?n = "pos ps (lsuf (set ps) ?K)"
  define tail where "tail = (if ?K \<in> set ps \<and> nmatch (acnodes ac ! ?n) \<noteq> 0
     then (if acvalues ac ! nmatch (acnodes ac ! ?n) ! 1 \<noteq> [] then [acvalues ac ! nmatch (acnodes ac ! ?n) ! 1] else [])
       @ (if acvalues ac ! nmatch (acnodes ac ! ?n) ! 0 \<noteq> [] then [acvalues ac ! nmatch (acnodes ac ! ?n) ! 0] else [])
     else [])"
  have tail: "set (concat tail) = set (keyvals rs ?K 1) \<union> set (keyvals rs ?K 0)"
  proof (cases "?K \<in> set ps")
    case True
    have l: "lsuf (set ps) ?K = ?K" by (rule lsuf_self [OF True])
    show ?thesis
    proof (cases "nmatch (acnodes ac ! ?n) = 0")
      case True
      then have "keyvals rs ?K 1 = []" "keyvals rs ?K 0 = []"
        using built_match(1) [OF B \<open>?K \<in> set ps\<close>] keyvals_ne [of rs ?K] l by (auto simp: has_entry_def)
      with True show ?thesis by (simp add: tail_def)
    next
      case False
      then show ?thesis using built_match(2) [OF B True] True l by (auto simp: tail_def)
    qed
  next
    case False
    then have "keyvals rs ?K t = []" for t
      using keyvals_ne [of rs ?K t] B by (auto simp: built_ok_def values_ok_def)
    with False show ?thesis by (simp add: tail_def)
  qed
  have "AC_Match ac s = Some (concat (rev (subs @ sufs @ tail)))"
    unfolding AC_Match_def r(1) by (auto simp: tail_def Let_def CompositeMatchesReverse_concat)
  moreover have "set (concat (rev (subs @ sufs @ tail))) = raw_hits rs ?K"
  proof -
    have "set (concat (rev (subs @ sufs @ tail))) = set (concat subs) \<union> set (concat sufs) \<union> set (concat tail)" by auto
    also have "\<dots> = raw_hits rs ?K"
      unfolding r(2,3) tail raw_hits_def by (auto simp: set_keyvals)
    finally show ?thesis .
  qed
  ultimately show ?thesis by blast
qed

lemma ex_prefix_Cons:
  "(\<exists>x. prefix x (a # K) \<and> x \<noteq> [] \<and> Q x) \<longleftrightarrow> Q [a] \<or> (\<exists>x. prefix x K \<and> x \<noteq> [] \<and> Q (a # x))"
proof -
  have "{x. prefix x (a # K) \<and> x \<noteq> []} = insert [a] ((#) a ` {x. prefix x K \<and> x \<noteq> []})"
    by (auto simp: prefix_Cons)
  then have "(\<exists>x \<in> {x. prefix x (a # K) \<and> x \<noteq> []}. Q x) \<longleftrightarrow> Q [a] \<or> (\<exists>x \<in> {x. prefix x K \<and> x \<noteq> []}. Q (a # x))"
    by simp
  then show ?thesis by auto
qed

lemma ac_any_ok:
  assumes B: "built_ok ps rs ac"
  shows "ac_any ac cs (pos ps (lsuf (set ps) u)) (u \<in> set ps) \<longleftrightarrow>
    (\<exists>x. prefix x (map acCharset cs) \<and> x \<noteq> [] \<and> sub_vals rs (u @ x) \<noteq> {}) \<or>
    (\<exists>x. prefix x (map acCharset cs) \<and> x \<noteq> [] \<and> last x = 28 \<and> keyvals rs (u @ x) 1 \<noteq> []) \<or>
    has_entry rs (u @ map acCharset cs)"
proof (induction cs arbitrary: u)
  case Nil
  have "u \<in> set ps" if "has_entry rs u" using that B by (auto simp: has_entry_def built_ok_def values_ok_def)
  then show ?case using built_match(1) [OF B, of u] lsuf_self [of u "set ps"] by auto
next
  case (Cons c cs)
  let ?e = "acCharset c" let ?u = "u @ [?e]"
  let ?f = "lsuf (set ps) ?u" let ?nd = "acnodes ac ! pos ps ?f"
  have words: "words_ok ps" and ne: "[] \<notin> subwords rs" using B by (auto simp: built_ok_def)
  have fP: "?f \<in> set ps" by (rule built_lsuf [OF B])
  have nx: "nnext (acnodes ac ! pos ps (lsuf (set ps) u)) ! ?e = pos ps ?f" by (rule built_next [OF B acCharset_less])
  have full: "u \<in> set ps \<and> nedge (acnodes ac ! pos ps (lsuf (set ps) u)) ! ?e \<longleftrightarrow> ?u \<in> set ps"
    by (rule built_full [OF B acCharset_less])
  have fail: "nfail ?nd \<noteq> 0 \<longleftrightarrow> sub_vals rs (tl ?f) \<noteq> {}"
  proof -
    have "sub_vals rs (tl ?f) = {} \<longleftrightarrow> lsuf (subwords rs) (tl ?f) = []"
      using ne unfolding lsuf_Nil_iff by (auto simp: sub_vals_def subwords_def)
    then show ?thesis using built_fail [OF B fP] pos_eq_0 [OF words built_lsufS [OF B]] by simp
  qed
  have own: "nmatch ?nd \<noteq> 0 \<and> acvalues ac ! nmatch ?nd ! t \<noteq> [] \<longleftrightarrow> keyvals rs ?f t \<noteq> []" if "t < 3" for t
    using built_vals [OF B fP that] by (auto split: if_splits)
  have sub: "sub_vals rs (tl ?f) \<noteq> {} \<or> keyvals rs ?f 2 \<noteq> [] \<longleftrightarrow> sub_vals rs ?u \<noteq> {}"
    using built_sub_vals [OF B, of ?u] by auto
  have dom: "nmatch ?nd \<noteq> 0 \<and> ?u \<in> set ps \<and> c = CHR ''.'' \<and> acvalues ac ! nmatch ?nd ! 1 \<noteq> [] \<longleftrightarrow>
      ?e = 28 \<and> keyvals rs ?u 1 \<noteq> []"
  proof (cases "?u \<in> set ps")
    case True
    then show ?thesis using own [of 1] lsuf_self [OF True] acCharset_dot [of c] by auto
  next
    case False
    then have "keyvals rs ?u 1 = []" using keyvals_ne [of rs ?u 1] B by (auto simp: built_ok_def values_ok_def)
    with False show ?thesis by (cases "?e = 28") simp_all
  qed
  have "ac_any ac (c # cs) (pos ps (lsuf (set ps) u)) (u \<in> set ps) \<longleftrightarrow>
      sub_vals rs ?u \<noteq> {} \<or> ?e = 28 \<and> keyvals rs ?u 1 \<noteq> [] \<or> ac_any ac cs (pos ps ?f) (?u \<in> set ps)"
  proof -
    have "ac_any ac (c # cs) (pos ps (lsuf (set ps) u)) (u \<in> set ps) \<longleftrightarrow>
      nfail ?nd \<noteq> 0 \<or> nmatch ?nd \<noteq> 0 \<and> acvalues ac ! nmatch ?nd ! 2 \<noteq> [] \<or>
      (nmatch ?nd \<noteq> 0 \<and> ?u \<in> set ps \<and> c = CHR ''.'' \<and> acvalues ac ! nmatch ?nd ! 1 \<noteq> []) \<or>
      ac_any ac cs (pos ps ?f) (?u \<in> set ps)"
      by (simp only: ac_any.simps Let_def nx full unat_substr unat_domain if_bool_eq_disj) blast
    then show ?thesis using fail own [of 2] sub dom by auto
  qed
  moreover have "(\<exists>x. prefix x (map acCharset (c # cs)) \<and> x \<noteq> [] \<and> Q x) \<longleftrightarrow>
      Q [?e] \<or> (\<exists>x. prefix x (map acCharset cs) \<and> x \<noteq> [] \<and> Q (?e # x))" for Q
    using ex_prefix_Cons [of ?e "map acCharset cs" Q] by simp
  ultimately show ?case unfolding Cons.IH by auto
qed

lemma AC_MatchAny_raw:
  assumes B: "built_ok ps rs ac"
  shows "AC_MatchAny ac s \<longleftrightarrow> raw_hits rs (ekey s) \<noteq> {}"
proof -
  let ?K = "ekey s"
  have words: "words_ok ps" and ne: "[] \<notin> subwords rs" using B by (auto simp: built_ok_def)
  have "AC_MatchAny ac s \<longleftrightarrow> ac_any ac (rev s) (pos ps (lsuf (set ps) [])) ([] \<in> set ps)"
    using words words_Nil [OF words] by (simp add: AC_MatchAny_def)
  also have "\<dots> \<longleftrightarrow> (\<exists>x. prefix x ?K \<and> x \<noteq> [] \<and> sub_vals rs x \<noteq> {}) \<or>
    (\<exists>x. prefix x ?K \<and> x \<noteq> [] \<and> last x = 28 \<and> keyvals rs x 1 \<noteq> []) \<or> has_entry rs ?K"
    using ac_any_ok [OF B, of "rev s" "[]"] by (simp add: ekey_def)
  also have "\<dots> \<longleftrightarrow> raw_hits rs ?K \<noteq> {}"
  proof -
    have three: "t = 0 \<or> t = 1 \<or> t = 2" if "(w, t, v) \<in> set rs" for w t v
      using B that by (force simp: built_ok_def values_ok_def)
    have "has_entry rs ?K \<longleftrightarrow> (\<exists>v. (?K, 0, v) \<in> set rs) \<or> (\<exists>v. (?K, 1, v) \<in> set rs) \<or> (\<exists>v. (?K, 2, v) \<in> set rs)"
      using three by (auto simp: has_entry_def) metis
    moreover have "(\<exists>x. prefix x ?K \<and> x \<noteq> [] \<and> sub_vals rs x \<noteq> {}) \<longleftrightarrow> (\<exists>v w. (w, 2, v) \<in> set rs \<and> sublist w ?K)"
    proof -
      have "(\<exists>x. prefix x ?K \<and> x \<noteq> [] \<and> sub_vals rs x \<noteq> {}) \<longleftrightarrow>
          (\<Union>x \<in> {x. prefix x ?K \<and> x \<noteq> []}. sub_vals rs x) \<noteq> {}" by auto
      then show ?thesis unfolding sub_vals_sublists [OF ne] by blast
    qed
    moreover have "raw_hits rs ?K \<noteq> {} \<longleftrightarrow> (\<exists>v w. (w, 2, v) \<in> set rs \<and> sublist w ?K) \<or>
        (\<exists>v w. (w, 1, v) \<in> set rs \<and> (w = ?K \<or> prefix w ?K \<and> w \<noteq> [] \<and> last w = 28)) \<or> (\<exists>v. (?K, 0, v) \<in> set rs)"
      unfolding raw_hits_def by blast
    ultimately show ?thesis using keyvals_ne [of rs _ 1] sublist_order.order_refl [of ?K] by auto
  qed
  finally show ?thesis .
qed

section \<open>The automaton as a group of matchers\<close>

text \<open>What a matcher means to the automaton: bytes are equal when the table of characters maps them to
  the same edge.\<close>

fun ac_match :: "Matcher \<Rightarrow> string \<Rightarrow> bool" where
  "ac_match (FullMatcher p) s = (ekey p = ekey s)"
| "ac_match (DomainMatcher p) s = (ekey p = ekey s \<or> prefix (ekey p @ [28]) (ekey s))"
| "ac_match (SubstrMatcher p) s = sublist (ekey p) (ekey s)"
| "ac_match (RegexMatcher p re ls) s = False"

fun ac_pattern_ok :: "Matcher \<Rightarrow> bool" where
  "ac_pattern_ok (FullMatcher p) = True"
| "ac_pattern_ok (DomainMatcher p) = (p = [] \<or> hd p \<noteq> CHR ''.'')"
| "ac_pattern_ok (SubstrMatcher p) = (p \<noteq> [])"
| "ac_pattern_ok (RegexMatcher p re ls) = False"

definition ac_admissible :: "Matcher entries \<Rightarrow> bool" where
  "ac_admissible es \<longleftrightarrow> list_all (\<lambda>e. ac_pattern_ok (fst e)) es"

definition ac_built_Match :: "ACAutomatonMatcherGroup \<Rightarrow> string \<Rightarrow> u32 list option" where
  "ac_built_Match ac s = Option.bind (AC_Build ac) (\<lambda>ac'. AC_Match ac' s)"

definition ac_built_any :: "ACAutomatonMatcherGroup \<Rightarrow> string \<Rightarrow> bool" where
  "ac_built_any ac s = (case AC_Build ac of None \<Rightarrow> False | Some ac' \<Rightarrow> AC_MatchAny ac' s)"

lemma set_raws: "x \<in> set (raws es) \<longleftrightarrow> (\<exists>e \<in> set es. x \<in> set (raw_of e))"
  by (simp add: raws_def)

lemma last_ekey: "p \<noteq> [] \<Longrightarrow> last (ekey p) = 28 \<longleftrightarrow> hd p = CHR ''.''"
  by (cases p) (auto simp: ekey_def acCharset_dot)

lemma raw_of_match:
  assumes "ac_pattern_ok m"
  shows "v \<in> raw_hits (raw_of (m, v)) (ekey s) \<longleftrightarrow> ac_match m s"
proof (cases m)
  case (DomainMatcher p)
  have "\<not> (ekey p \<noteq> [] \<and> last (ekey p) = 28)"
    using assms DomainMatcher last_ekey [of p] by (auto simp: ekey_def)
  then show ?thesis using DomainMatcher by (auto simp: raw_hits_def)
qed (use assms in \<open>auto simp: raw_hits_def\<close>)

lemma raw_hits_raws: "raw_hits (raws es) K = {v. \<exists>e \<in> set es. v \<in> raw_hits (raw_of e) K}"
  unfolding raw_hits_def set_raws by blast

lemma raw_of_value: "v \<in> raw_hits (raw_of (m, v')) K \<Longrightarrow> v = v'"
  by (cases m) (auto simp: raw_hits_def)

lemma raws_hits:
  assumes "ac_admissible es"
  shows "raw_hits (raws es) (ekey s) = {v. \<exists>m. (m, v) \<in> set es \<and> ac_match m s}"
proof -
  have "v \<in> raw_hits (raws es) (ekey s) \<longleftrightarrow> (\<exists>m. (m, v) \<in> set es \<and> ac_match m s)" for v
  proof
    assume "v \<in> raw_hits (raws es) (ekey s)"
    then obtain m v' where e: "(m, v') \<in> set es" "v \<in> raw_hits (raw_of (m, v')) (ekey s)"
      unfolding raw_hits_raws by auto
    with raw_of_value have "v' = v" by blast
    moreover have "ac_pattern_ok m" using assms e(1) by (auto simp: ac_admissible_def list_all_iff)
    ultimately show "\<exists>m. (m, v) \<in> set es \<and> ac_match m s" using e raw_of_match by blast
  next
    assume "\<exists>m. (m, v) \<in> set es \<and> ac_match m s"
    then obtain m where m: "(m, v) \<in> set es" "ac_match m s" by blast
    moreover have "ac_pattern_ok m" using assms m(1) by (auto simp: ac_admissible_def list_all_iff)
    ultimately show "v \<in> raw_hits (raws es) (ekey s)" using raw_of_match [of m v s] unfolding raw_hits_raws by blast
  qed
  then show ?thesis by blast
qed

lemma AC_Build_group:
  assumes "ac_admissible es"
  obtains ac ps where "AC_Build (build_group AC_Add NewACAutomatonMatcherGroup es) = Some ac" "built_ok ps (raws es) ac"
proof -
  have "[] \<notin> subwords (raws es)"
  proof
    assume "[] \<in> subwords (raws es)"
    then obtain v e where e: "e \<in> set es" "([], 2, v) \<in> set (raw_of e)" by (auto simp: subwords_def set_raws)
    have "ac_pattern_ok (fst e)" using assms e(1) by (auto simp: ac_admissible_def list_all_iff)
    with e(2) show False by (cases e rule: raw_of.cases) (auto simp: ekey_def)
  qed
  with AC_added_ok [of es] AC_Build_ok that show thesis
    unfolding built_ok_def ac_ok_def trie_ok_def by blast
qed

interpretation ac_group: matcher_group ac_match ac_admissible "\<lambda>s. True" NewACAutomatonMatcherGroup AC_Add
  ac_built_Match ac_built_any
proof unfold_locales
  fix es s assume a: "ac_admissible es"
  then obtain ac ps where b: "AC_Build (build_group AC_Add NewACAutomatonMatcherGroup es) = Some ac"
    "built_ok ps (raws es) ac" by (rule AC_Build_group)
  show "\<exists>vs. ac_built_Match (build_group AC_Add NewACAutomatonMatcherGroup es) s = Some vs \<and>
      set vs = {v. \<exists>p. (p, v) \<in> set es \<and> ac_match p s}"
    using AC_Match_raw [OF b(2), of s] b(1) raws_hits [OF a, of s] by (simp add: ac_built_Match_def)
next
  fix es s assume a: "ac_admissible es"
  then obtain ac ps where b: "AC_Build (build_group AC_Add NewACAutomatonMatcherGroup es) = Some ac"
    "built_ok ps (raws es) ac" by (rule AC_Build_group)
  show "ac_built_any (build_group AC_Add NewACAutomatonMatcherGroup es) s \<longleftrightarrow> (\<exists>(p, v) \<in> set es. ac_match p s)"
    using AC_MatchAny_raw [OF b(2), of s] b(1) raws_hits [OF a, of s] by (auto simp: ac_built_any_def)
qed

section \<open>Exact matching on domain names\<close>

text \<open>On patterns of lower-case letters, digits, hyphens and periods and texts without upper-case
  letters the automaton matches what the matchers match.\<close>

lemma acCharset_inj:
  assumes "lower_ldh c" "\<not> is_upper d"
  shows "acCharset c = acCharset d \<longleftrightarrow> c = d"
proof
  assume eq: "acCharset c = acCharset d"
  show "c = d"
  proof (rule ccontr)
    assume "c \<noteq> d"
    then have "(of_char c :: nat) \<noteq> of_char d" by simp
    with eq assms show False
      by (auto simp: acCharset_def lower_ldh_def is_upper_def is_lower_def is_digit_def less_eq_char_def
          eq_diff_iff split: if_splits)
  qed
qed simp

lemma map_inj_eq:
  "(\<And>x y. x \<in> set xs \<Longrightarrow> y \<in> set ys \<Longrightarrow> f x = f y \<longleftrightarrow> x = y) \<Longrightarrow> map f xs = map f ys \<longleftrightarrow> xs = ys"
  using list.inj_map_strong [of xs ys f f] by blast

lemma sublist_map_inj:
  assumes inj: "\<And>x y. x \<in> set xs \<Longrightarrow> y \<in> set ys \<Longrightarrow> f x = f y \<longleftrightarrow> x = y"
  shows "sublist (map f xs) (map f ys) \<longleftrightarrow> sublist xs ys"
proof
  assume "sublist (map f xs) (map f ys)"
  then obtain a b c where ys: "ys = a @ b @ c" "map f b = map f xs"
    by (auto simp: sublist_def map_eq_append_conv append_eq_map_conv)
  have "map f xs = map f b \<longleftrightarrow> xs = b" using inj ys(1) by (intro map_inj_eq) auto
  with ys show "sublist xs ys" by (auto simp: sublist_def)
next
  assume "sublist xs ys"
  then show "sublist (map f xs) (map f ys)" by (metis map_append sublist_def)
qed

lemma suffix_map_inj:
  assumes inj: "\<And>x y. x \<in> set xs \<Longrightarrow> y \<in> set ys \<Longrightarrow> f x = f y \<longleftrightarrow> x = y"
  shows "suffix (map f xs) (map f ys) \<longleftrightarrow> suffix xs ys"
proof
  assume "suffix (map f xs) (map f ys)"
  then obtain a b where ys: "ys = a @ b" "map f b = map f xs"
    by (auto simp: suffix_def map_eq_append_conv append_eq_map_conv)
  have "map f xs = map f b \<longleftrightarrow> xs = b" using inj ys(1) by (intro map_inj_eq) auto
  with ys show "suffix xs ys" by (auto simp: suffix_def)
qed (auto simp: suffix_def)

fun ldh_pattern :: "Matcher \<Rightarrow> bool" where
  "ldh_pattern (FullMatcher p) = list_all lower_ldh p"
| "ldh_pattern (DomainMatcher p) = list_all lower_ldh p"
| "ldh_pattern (SubstrMatcher p) = list_all lower_ldh p"
| "ldh_pattern (RegexMatcher p re ls) = True"

definition no_upper :: "string \<Rightarrow> bool" where
  "no_upper s \<longleftrightarrow> list_all (\<lambda>c. \<not> is_upper c) s"

lemma ekey_rev: "ekey p = rev (map acCharset p)"
  by (simp add: ekey_def rev_map)

lemma lower_ldh_dot: "lower_ldh CHR ''.''"
  by (simp add: lower_ldh_def)

lemma ac_match_exact:
  assumes "ldh_pattern m" "no_upper s" "\<forall>p re ls. m \<noteq> RegexMatcher p re ls"
  shows "ac_match m s \<longleftrightarrow> mMatch m s"
proof -
  have inj: "acCharset c = acCharset d \<longleftrightarrow> c = d" if "list_all lower_ldh p" "c \<in> set p" "d \<in> set s" for c d p
    using that assms(2) acCharset_inj by (auto simp: no_upper_def list_all_iff)
  have eq: "ekey p = ekey s \<longleftrightarrow> p = s" if "list_all lower_ldh p" for p
    unfolding ekey_rev rev_is_rev_conv by (rule map_inj_eq) (rule inj [OF that])
  show ?thesis
  proof (cases m)
    case (DomainMatcher p)
    then have p: "list_all lower_ldh p" "list_all lower_ldh (CHR ''.'' # p)" using assms(1) lower_ldh_dot by auto
    have e: "ekey p @ [28] = rev (map acCharset (CHR ''.'' # p))" using acCharset_dot by (simp add: ekey_rev)
    have "suffix (map acCharset (CHR ''.'' # p)) (map acCharset s) \<longleftrightarrow> suffix (CHR ''.'' # p) s"
      by (rule suffix_map_inj) (rule inj [OF p(2)])
    then have "prefix (ekey p @ [28]) (ekey s) \<longleftrightarrow> suffix (CHR ''.'' # p) s"
      unfolding e ekey_rev [of s] by (simp only: suffix_to_prefix rev_rev_ident)
    then show ?thesis using DomainMatcher eq [OF p(1)] by (auto simp: domain_match_dot_suffix set_dot_suffixes)
  next
    case (SubstrMatcher p)
    then have p: "list_all lower_ldh p" using assms(1) by simp
    have "sublist (map acCharset p) (map acCharset s) \<longleftrightarrow> sublist p s"
      by (rule sublist_map_inj) (rule inj [OF p])
    then show ?thesis using SubstrMatcher by (simp add: ekey_rev Contains_def)
  qed (use assms eq in auto)
qed

end
