(* ===== verification/DomainFactory.thy ===== *)
theory DomainFactory
  imports AcAutomaton RuleParser
begin

text \<open>
  \<open>common/geodata/domain_matcher.go\<close> and \<open>domain_registry.go\<close>: the two factories of domain matchers with
  their caches, the compact matcher, and the registry that rebuilds every matcher when the GeoSite
  data changes. Weak references are modelled as in \<open>IPFactoryDefs\<close>: a cache is an association list
  from which entries may vanish, and the registry holds the matchers still referenced. The outer
  option of a build is \<open>None\<close> when a loop of the string matchers does not end.
\<close>

section \<open>Parsing a domain\<close>

datatype domain_error =
    NilDomain | UnknownDomainType int | PatternError strm_error | SiteLoadFailed geo_error | EmptyDomainRuleList

type_synonym site_loader = "string \<Rightarrow> string \<Rightarrow> string \<Rightarrow> geo_error + GeoDomain list"

text \<open>What the factories take from outside: the parser of regular expressions, idna, the hash function
  of the runtime, the order of equal-sized buckets, and the loader.\<close>

record domain_env =
  de_parse :: regex_parser
  de_idna :: "string \<Rightarrow> string option"
  de_mh :: "u32 \<Rightarrow> string \<Rightarrow> u32"
  de_ord :: "nat list \<Rightarrow> nat list"
  de_load :: site_loader

definition pattern_result :: "(strm_error + Matcher) option \<Rightarrow> (domain_error + Matcher) option" where
  "pattern_result r = map_option (map_sum PatternError id) r"

definition parseDomain :: "domain_env \<Rightarrow> GeoDomain option \<Rightarrow> (domain_error + Matcher) option" where
  "parseDomain env d0 =
     (case d0 of
        None \<Rightarrow> Some (Inl NilDomain)
      | Some d \<Rightarrow>
          let t = dom_type d; v = dom_value d
          in if t = Domain_Substr then pattern_result (NewDomainPattern (de_parse env) (de_idna env) SubstrT v)
             else if t = Domain_Regex then pattern_result (Some (TypeNew (de_parse env) RegexT v))
             else if t = Domain_Domain then pattern_result (NewDomainPattern (de_parse env) (de_idna env) DomainT v)
             else if t = Domain_Full then pattern_result (NewDomainPattern (de_parse env) (de_idna env) FullT v)
             else Some (Inl (UnknownDomainType t)))"

section \<open>The factory over the hash table\<close>

definition type_name :: "Domain_Type \<Rightarrow> string" where
  "type_name t =
     (if t = Domain_Substr then ''Substr'' else if t = Domain_Regex then ''Regex''
      else if t = Domain_Domain then ''Domain'' else if t = Domain_Full then ''Full''
      else if t < 0 then ''-'' @ nat_digits (nat (- t)) else nat_digits (nat t))"

fun rule_key :: "DomainRule \<Rightarrow> string" where
  "rule_key (DomainRule_Custom d) = type_name (dom_type d) @ '':'' @ dom_value d @ '',''"
| "rule_key (DomainRule_Geosite g) = gs_file g @ '':'' @ gs_code g @ ''@'' @ gs_attrs g @ '',''"

definition is_geosite :: "DomainRule \<Rightarrow> bool" where
  "is_geosite r = (case r of DomainRule_Geosite g \<Rightarrow> True | DomainRule_Custom d \<Rightarrow> False)"

definition buildDomainRulesKey :: "DomainRule list \<Rightarrow> string" where
  "buildDomainRulesKey rules =
     (if \<not> list_ex is_geosite rules then [] else concat (map rule_key rules))"

text \<open>Adding the domains of a GeoSite list: an entry that does not parse is logged and skipped.\<close>

fun add_domains :: "domain_env \<Rightarrow> (Matcher \<Rightarrow> 'g \<Rightarrow> 'g) \<Rightarrow> GeoDomain list \<Rightarrow> 'g \<Rightarrow> 'g option" where
  "add_domains env add [] g = Some g"
| "add_domains env add (d # ds) g =
     (case parseDomain env (Some d) of
        None \<Rightarrow> None
      | Some (Inl e) \<Rightarrow> add_domains env add ds g
      | Some (Inr m) \<Rightarrow> add_domains env add ds (add m g))"

fun mph_add_rules :: "domain_env \<Rightarrow> nat \<Rightarrow> DomainRule list \<Rightarrow> MphValueMatcher \<Rightarrow>
    (domain_error + MphValueMatcher) option" where
  "mph_add_rules env i [] g = Some (Inr g)"
| "mph_add_rules env i (DomainRule_Custom d # rs) g =
     (case parseDomain env (Some d) of
        None \<Rightarrow> None
      | Some (Inl e) \<Rightarrow> Some (Inl e)
      | Some (Inr m) \<Rightarrow> mph_add_rules env (Suc i) rs (MphValue_Add m (of_nat i) g))"
| "mph_add_rules env i (DomainRule_Geosite s # rs) g =
     (case de_load env (gs_file s) (gs_code s) (gs_attrs s) of
        Inl e \<Rightarrow> Some (Inl (SiteLoadFailed e))
      | Inr ds \<Rightarrow>
          (case add_domains env (\<lambda>m. MphValue_Add m (of_nat i)) ds g of
             None \<Rightarrow> None
           | Some g' \<Rightarrow> mph_add_rules env (Suc i) rs g'))"

type_synonym mph_cache = "(string, MphValueMatcher) go_map"

definition Mph_BuildMatcher :: "domain_env \<Rightarrow> mph_cache \<Rightarrow> DomainRule list \<Rightarrow>
    ((domain_error + MphValueMatcher) \<times> mph_cache) option" where
  "Mph_BuildMatcher env shared rules =
     (if rules = [] then Some (Inl EmptyDomainRuleList, shared)
      else let key = buildDomainRulesKey rules
           in case (if key \<noteq> [] then al_get shared key else None) of
                Some g \<Rightarrow> Some (Inr g, shared)
              | None \<Rightarrow>
                  (case mph_add_rules env 0 rules NewMphValueMatcher of
                     None \<Rightarrow> None
                   | Some (Inl e) \<Rightarrow> Some (Inl e, shared)
                   | Some (Inr g) \<Rightarrow>
                       (case MphValue_Build (de_mh env) (de_ord env) g of
                          None \<Rightarrow> None
                        | Some g' \<Rightarrow> Some (Inr g', if key \<noteq> [] then al_put key g' shared else shared))))"

section \<open>The compact factory\<close>

record CompactDomainMatcher =
  cd_custom :: "LinearValueMatcher option"
  cd_matchers :: "LinearAnyMatcher list"
  cd_values :: "u32 list"

type_synonym any_cache = "(string, LinearAnyMatcher) go_map"

definition getOrCreateFrom :: "domain_env \<Rightarrow> any_cache \<Rightarrow> GeoSiteRule \<Rightarrow>
    ((domain_error + LinearAnyMatcher) \<times> any_cache) option" where
  "getOrCreateFrom env shared rule =
     (let key = gs_file rule @ '':'' @ gs_code rule @ ''@'' @ gs_attrs rule
      in case al_get shared key of
           Some s \<Rightarrow> Some (Inr s, shared)
         | None \<Rightarrow>
             (case de_load env (gs_file rule) (gs_code rule) (gs_attrs rule) of
                Inl e \<Rightarrow> Some (Inl (SiteLoadFailed e), shared)
              | Inr ds \<Rightarrow>
                  (case add_domains env LinearAny_Add ds NewLinearAnyMatcher of
                     None \<Rightarrow> None
                   | Some s \<Rightarrow> Some (Inr s, al_put key s shared))))"

fun compact_rules :: "domain_env \<Rightarrow> nat \<Rightarrow> DomainRule list \<Rightarrow> CompactDomainMatcher \<Rightarrow> any_cache \<Rightarrow>
    ((domain_error + CompactDomainMatcher) \<times> any_cache) option" where
  "compact_rules env i [] c shared = Some (Inr c, shared)"
| "compact_rules env i (DomainRule_Custom d # rs) c shared =
     (case parseDomain env (Some d) of
        None \<Rightarrow> None
      | Some (Inl e) \<Rightarrow> Some (Inl e, shared)
      | Some (Inr m) \<Rightarrow>
          compact_rules env (Suc i) rs
            (c\<lparr>cd_custom := Some (LinearValue_Add m (of_nat i) (or_new NewLinearValueMatcher (cd_custom c)))\<rparr>) shared)"
| "compact_rules env i (DomainRule_Geosite g # rs) c shared =
     (case getOrCreateFrom env shared g of
        None \<Rightarrow> None
      | Some (Inl e, shared') \<Rightarrow> Some (Inl e, shared')
      | Some (Inr s, shared') \<Rightarrow>
          compact_rules env (Suc i) rs
            (c\<lparr>cd_matchers := cd_matchers c @ [s], cd_values := cd_values c @ [of_nat i]\<rparr>) shared')"

definition Compact_BuildMatcher :: "domain_env \<Rightarrow> any_cache \<Rightarrow> DomainRule list \<Rightarrow>
    ((domain_error + CompactDomainMatcher) \<times> any_cache) option" where
  "Compact_BuildMatcher env shared rules =
     (if rules = [] then Some (Inl EmptyDomainRuleList, shared)
      else compact_rules env 0 rules \<lparr>cd_custom = None, cd_matchers = [], cd_values = []\<rparr> shared)"

definition Compact_Match :: "CompactDomainMatcher \<Rightarrow> string \<Rightarrow> u32 list option" where
  "Compact_Match c input = do {
     r \<leftarrow> opt_values LinearValue_Match (cd_custom c) input;
     Some (r @ map snd (filter (\<lambda>(m, v). LinearAny_MatchAny m input) (zip (cd_matchers c) (cd_values c))))
   }"

definition Compact_MatchAny :: "CompactDomainMatcher \<Rightarrow> string \<Rightarrow> bool" where
  "Compact_MatchAny c input =
     (if opt_any LinearValue_MatchAny (cd_custom c) input then True
      else list_ex (\<lambda>m. LinearAny_MatchAny m input) (cd_matchers c))"

section \<open>Matchers of either factory\<close>

datatype GeoDomainMatcher = MphMatcher MphValueMatcher | CompactMatcher CompactDomainMatcher

fun dm_Match :: "domain_env \<Rightarrow> GeoDomainMatcher \<Rightarrow> string \<Rightarrow> u32 list option" where
  "dm_Match env (MphMatcher g) input = MphValue_Match (de_mh env) g input"
| "dm_Match env (CompactMatcher c) input = Compact_Match c input"

fun dm_MatchAny :: "domain_env \<Rightarrow> GeoDomainMatcher \<Rightarrow> string \<Rightarrow> bool" where
  "dm_MatchAny env (MphMatcher g) input = MphValue_MatchAny (de_mh env) g input"
| "dm_MatchAny env (CompactMatcher c) input = Compact_MatchAny c input"

datatype DomainMatcherFactory = MphFactory mph_cache | CompactFactory any_cache

definition newDomainMatcherFactory :: "string \<Rightarrow> DomainMatcherFactory" where
  "newDomainMatcherFactory goos =
     (if goos = ''ios'' \<or> goos = ''android'' then CompactFactory [] else MphFactory [])"

fun BuildMatcher :: "domain_env \<Rightarrow> DomainMatcherFactory \<Rightarrow> DomainRule list \<Rightarrow>
    ((domain_error + GeoDomainMatcher) \<times> DomainMatcherFactory) option" where
  "BuildMatcher env (MphFactory c) rules =
     map_option (\<lambda>(r, c'). (map_sum id MphMatcher r, MphFactory c')) (Mph_BuildMatcher env c rules)"
| "BuildMatcher env (CompactFactory c) rules =
     map_option (\<lambda>(r, c'). (map_sum id CompactMatcher r, CompactFactory c')) (Compact_BuildMatcher env c rules)"

section \<open>The registry\<close>

record DynamicDomainMatcher =
  dd_rules :: "DomainRule list"
  dd_matcher :: GeoDomainMatcher

definition dd_Reload :: "DynamicDomainMatcher \<Rightarrow> GeoDomainMatcher \<Rightarrow> DynamicDomainMatcher" where
  "dd_Reload d m = d\<lparr>dd_matcher := m\<rparr>"

definition NewDynamicDomainMatcher :: "DomainRule list \<Rightarrow> GeoDomainMatcher \<Rightarrow> DynamicDomainMatcher" where
  "NewDynamicDomainMatcher rules m = dd_Reload \<lparr>dd_rules = rules, dd_matcher = m\<rparr> m"

definition dd_Match :: "domain_env \<Rightarrow> DynamicDomainMatcher \<Rightarrow> string \<Rightarrow> u32 list option" where
  "dd_Match env d input = dm_Match env (dd_matcher d) input"

definition dd_MatchAny :: "domain_env \<Rightarrow> DynamicDomainMatcher \<Rightarrow> string \<Rightarrow> bool" where
  "dd_MatchAny env d input = dm_MatchAny env (dd_matcher d) input"

record DomainRegistry =
  dr_factory :: DomainMatcherFactory
  dr_matchers :: "DynamicDomainMatcher list"

definition newDomainRegistry :: "string \<Rightarrow> DomainRegistry" where
  "newDomainRegistry goos = \<lparr>dr_factory = newDomainMatcherFactory goos, dr_matchers = []\<rparr>"

definition BuildDomainMatcher :: "domain_env \<Rightarrow> DomainRegistry \<Rightarrow> DomainRule list \<Rightarrow>
    ((domain_error + DynamicDomainMatcher) \<times> DomainRegistry) option" where
  "BuildDomainMatcher env reg rules =
     (case BuildMatcher env (dr_factory reg) rules of
        None \<Rightarrow> None
      | Some (Inl e, f) \<Rightarrow> Some (Inl e, reg\<lparr>dr_factory := f\<rparr>)
      | Some (Inr m, f) \<Rightarrow>
          (let d = NewDynamicDomainMatcher rules m
           in Some (Inr d, reg\<lparr>dr_factory := f, dr_matchers := dr_matchers reg @ [d]\<rparr>)))"

fun rebuild_domains :: "domain_env \<Rightarrow> DomainMatcherFactory \<Rightarrow> DynamicDomainMatcher list \<Rightarrow>
    (domain_error + (DomainMatcherFactory \<times> GeoDomainMatcher list)) option" where
  "rebuild_domains env f [] = Some (Inr (f, []))"
| "rebuild_domains env f (d # ds) =
     (case BuildMatcher env f (dd_rules d) of
        None \<Rightarrow> None
      | Some (Inl e, _) \<Rightarrow> Some (Inl e)
      | Some (Inr m, f') \<Rightarrow>
          (case rebuild_domains env f' ds of
             None \<Rightarrow> None
           | Some (Inl e) \<Rightarrow> Some (Inl e)
           | Some (Inr (f'', ms)) \<Rightarrow> Some (Inr (f'', m # ms))))"

definition DomainRegistryReload :: "domain_env \<Rightarrow> string \<Rightarrow> DomainRegistry \<Rightarrow>
    (domain_error option \<times> DomainRegistry) option" where
  "DomainRegistryReload env goos reg =
     (case rebuild_domains env (newDomainMatcherFactory goos) (dr_matchers reg) of
        None \<Rightarrow> None
      | Some (Inl e) \<Rightarrow> Some (Some e, reg)
      | Some (Inr (f, ms)) \<Rightarrow>
          Some (None, reg\<lparr>dr_factory := f, dr_matchers := map2 dd_Reload (dr_matchers reg) ms\<rparr>))"

end
