(* ===== verification/DomainProofs.thy ===== *)
theory DomainProofs
  imports AcProofs DomainFactory IPFactory
begin

text \<open>
  What the domain matchers accept: the matcher over the hash table, the automaton and the regular
  expressions returns the values of all patterns that match, and the matcher that a factory builds
  from rules accepts exactly the domains that the rules mean, from a cached matcher too.
\<close>

section \<open>The matcher over three groups\<close>

definition mphs :: "Matcher entries \<Rightarrow> Matcher entries" where
  "mphs es = filter (\<lambda>(m, v). case m of FullMatcher p \<Rightarrow> True | DomainMatcher p \<Rightarrow> True | _ \<Rightarrow> False) es"

definition acs :: "Matcher entries \<Rightarrow> Matcher entries" where
  "acs es = filter (\<lambda>(m, v). case m of SubstrMatcher p \<Rightarrow> True | _ \<Rightarrow> False) es"

lemma parts_snoc:
  "mphs (es @ [e]) = mphs es @ mphs [e]" "acs (es @ [e]) = acs es @ acs [e]"
  by (simp_all add: mphs_def acs_def)

lemma parts_one:
  "mphs [(m, v)] = (case m of FullMatcher p \<Rightarrow> [(m, v)] | DomainMatcher p \<Rightarrow> [(m, v)] | _ \<Rightarrow> [])"
  "acs [(m, v)] = (case m of SubstrMatcher p \<Rightarrow> [(m, v)] | _ \<Rightarrow> [])"
  by (cases m; simp add: mphs_def acs_def)+

lemma parts_set:
  "(\<exists>m. (m, v) \<in> set es \<and> R m) \<longleftrightarrow>
    (\<exists>m. (m, v) \<in> set (mphs es) \<and> R m) \<or> (\<exists>m. (m, v) \<in> set (acs es) \<and> R m) \<or> (\<exists>m. (m, v) \<in> set (regexes es) \<and> R m)"
proof -
  have "(m, v) \<in> set es \<longleftrightarrow> (m, v) \<in> set (mphs es) \<or> (m, v) \<in> set (acs es) \<or> (m, v) \<in> set (regexes es)" for m
    by (cases m) (auto simp: mphs_def acs_def regexes_def)
  then show ?thesis by blast
qed

lemma MphValue_build:
  fixes g :: "'a MphValueMatcher_scheme"
  assumes "mv_mph g = None" "mv_ac g = None" "mv_regex g = None"
  shows "mv_mph (build_group MphValue_Add g es) = group_of Mph_Add NewMphMatcherGroup (mphs es) \<and>
    mv_ac (build_group MphValue_Add g es) = group_of AC_Add NewACAutomatonMatcherGroup (acs es) \<and>
    mv_regex (build_group MphValue_Add g es) = group_of SimpleGroup_Add [] (regexes es)"
proof (induction es rule: rev_induct)
  case Nil
  then show ?case using assms by (simp add: mphs_def acs_def regexes_def group_of_def)
next
  case (snoc e es)
  obtain m v where e: "e = (m, v)" by (cases e)
  show ?case
    using snoc
    by (cases m) (simp_all add: e kinds_snoc kinds_one parts_snoc parts_one build_group_snoc group_of_snoc)
qed

text \<open>Patterns that normalisation produces: lower-case domain characters, no leading period, and no
  empty substring.\<close>

fun value_pattern_ok :: "Matcher \<Rightarrow> bool" where
  "value_pattern_ok (FullMatcher p) = (list_all lower_ldh p \<and> (p = [] \<or> hd p \<noteq> CHR ''.''))"
| "value_pattern_ok (DomainMatcher p) = (list_all lower_ldh p \<and> (p = [] \<or> hd p \<noteq> CHR ''.''))"
| "value_pattern_ok (SubstrMatcher p) = (list_all lower_ldh p \<and> p \<noteq> [])"
| "value_pattern_ok (RegexMatcher p re ls) = True"

definition value_admissible :: "Matcher entries \<Rightarrow> bool" where
  "value_admissible es \<longleftrightarrow> length es < 2 ^ 29 \<and> (\<forall>e \<in> set es. value_pattern_ok (fst e))"

lemma lower_ldh_ToLower: "list_all lower_ldh p \<Longrightarrow> ToLower p = p"
  by (induction p) (auto simp: ToLower_def lower_char_def dest: lower_ldh_not_upper)

lemma value_lower: "value_pattern_ok m \<Longrightarrow> lower_matcher m = m"
  by (cases m) (auto simp: lower_ldh_ToLower)

lemma value_parts_ok:
  assumes "value_admissible es"
  shows "mph_entries_ok (mphs es)" "ac_admissible (acs es)"
    and "\<And>m v. (m, v) \<in> set (mphs es) \<Longrightarrow> lower_matcher m = m"
    and "\<And>m v s. (m, v) \<in> set (acs es) \<Longrightarrow> no_upper s \<Longrightarrow> ac_match m s \<longleftrightarrow> mMatch m s"
proof -
  have ok: "value_pattern_ok m" if "(m, v) \<in> set es" for m v using assms that by (force simp: value_admissible_def)
  have "length (mphs es) \<le> length es" unfolding mphs_def by (rule length_filter_le)
  then have "length (mphs es) < 2 ^ 29" using assms by (simp add: value_admissible_def)
  then show "mph_entries_ok (mphs es)"
    by (auto simp: mph_entries_ok_def mphs_def dest!: ok split: Matcher.splits)
  show "ac_admissible (acs es)"
    by (auto simp: ac_admissible_def acs_def list_all_iff dest!: ok split: Matcher.splits)
  show "lower_matcher m = m" if "(m, v) \<in> set (mphs es)" for m v
    using that ok value_lower by (auto simp: mphs_def)
  show "ac_match m s \<longleftrightarrow> mMatch m s" if "(m, v) \<in> set (acs es)" "no_upper s" for m v s
    using that ok [of m v] by (intro ac_match_exact) (auto simp: acs_def split: Matcher.splits)
qed

lemma opt_build_group:
  assumes "opt_build f (group_of add g es) = Some o1"
  shows "es = [] \<and> o1 = None \<or> (\<exists>g'. es \<noteq> [] \<and> f (build_group add g es) = Some g' \<and> o1 = Some g')"
  using assms by (cases "es = []") (auto simp: opt_build_def group_of_def)

lemma bex_entry: "(\<exists>(m, v) \<in> X. R m) \<longleftrightarrow> (\<exists>v m. (m, v) \<in> X \<and> R m)"
  by blast

lemma mph_part:
  assumes es: "value_admissible es" and ord: "range_order ord"
    and om: "opt_build (Build mh ord) (group_of Mph_Add NewMphMatcherGroup (mphs es)) = Some om"
  shows "\<exists>m. opt_values (\<lambda>g s. Some (Mph_Match mh g s)) om s = Some m \<and>
      set m = {v. \<exists>p. (p, v) \<in> set (mphs es) \<and> mMatch p s} \<and>
      (opt_any (Mph_MatchAny mh) om s \<longleftrightarrow> (\<exists>v p. (p, v) \<in> set (mphs es) \<and> mMatch p s))"
proof (cases "mphs es = []")
  case True
  with opt_build_group [OF om] show ?thesis by (auto simp: opt_values_def opt_any_def)
next
  case False
  with opt_build_group [OF om] obtain g' where g': "Build mh ord (mph_added (mphs es)) = Some g'" "om = Some g'"
    by (auto simp: mph_added_def)
  have low: "(\<exists>m. (m, v) \<in> set (mphs es) \<and> mMatch (lower_matcher m) s) \<longleftrightarrow> (\<exists>m. (m, v) \<in> set (mphs es) \<and> mMatch m s)" for v
    using value_parts_ok(3) [OF es] by metis
  show ?thesis
    using mph_group_plain [OF value_parts_ok(1) [OF es] ord g'(1), of s] g'(2)
    unfolding bex_entry low by (simp add: opt_values_def opt_any_def)
qed

lemma ac_part:
  assumes es: "value_admissible es" and s: "no_upper s"
    and oa: "opt_build AC_Build (group_of AC_Add NewACAutomatonMatcherGroup (acs es)) = Some oa"
  shows "\<exists>a. opt_values AC_Match oa s = Some a \<and> set a = {v. \<exists>p. (p, v) \<in> set (acs es) \<and> mMatch p s} \<and>
      (opt_any AC_MatchAny oa s \<longleftrightarrow> (\<exists>v p. (p, v) \<in> set (acs es) \<and> mMatch p s))"
proof (cases "acs es = []")
  case True
  with opt_build_group [OF oa] show ?thesis by (auto simp: opt_values_def opt_any_def)
next
  case False
  let ?g = "build_group AC_Add NewACAutomatonMatcherGroup (acs es)"
  from False opt_build_group [OF oa] obtain g' where g': "AC_Build ?g = Some g'" "oa = Some g'" by auto
  have low: "(\<exists>m. (m, v) \<in> set (acs es) \<and> ac_match m s) \<longleftrightarrow> (\<exists>m. (m, v) \<in> set (acs es) \<and> mMatch m s)" for v
    using value_parts_ok(4) [OF es _ s] by blast
  have "\<exists>vs. ac_built_Match ?g s = Some vs \<and> set vs = {v. \<exists>p. (p, v) \<in> set (acs es) \<and> ac_match p s}"
    using value_parts_ok(2) [OF es] by (rule ac_group.match_values) simp
  moreover have "ac_built_any ?g s \<longleftrightarrow> (\<exists>(p, v) \<in> set (acs es). ac_match p s)"
    using value_parts_ok(2) [OF es] by (rule ac_group.any_entry)
  ultimately show ?thesis
    using g' unfolding bex_entry low by (simp add: ac_built_Match_def ac_built_any_def opt_values_def opt_any_def)
qed

lemma MphValue_Match_spec:
  fixes g0 :: "'a MphValueMatcher_scheme"
  assumes g0: "mv_mph g0 = None" "mv_ac g0 = None" "mv_regex g0 = None"
    and es: "value_admissible es" and ord: "range_order ord" and s: "no_upper s"
    and b: "MphValue_Build mh ord (build_group MphValue_Add g0 es) = Some g"
  shows "\<exists>vs. MphValue_Match mh g s = Some vs \<and> set vs = {v. \<exists>m. (m, v) \<in> set es \<and> mMatch m s}"
    and "MphValue_MatchAny mh g s \<longleftrightarrow> (\<exists>(m, v) \<in> set es. mMatch m s)"
proof -
  note parts = MphValue_build [OF g0, of es]
  from b obtain om oa where om: "opt_build (Build mh ord) (group_of Mph_Add NewMphMatcherGroup (mphs es)) = Some om"
    and oa: "opt_build AC_Build (group_of AC_Add NewACAutomatonMatcherGroup (acs es)) = Some oa"
    and g: "mv_mph g = om" "mv_ac g = oa" "mv_regex g = group_of SimpleGroup_Add [] (regexes es)"
    by (auto simp: MphValue_Build_def parts bind_eq_Some_conv)
  obtain m where m: "opt_values (\<lambda>g s. Some (Mph_Match mh g s)) om s = Some m"
    "set m = {v. \<exists>p. (p, v) \<in> set (mphs es) \<and> mMatch p s}"
    "opt_any (Mph_MatchAny mh) om s \<longleftrightarrow> (\<exists>v p. (p, v) \<in> set (mphs es) \<and> mMatch p s)"
    using mph_part [OF es ord om] by blast
  obtain a where a: "opt_values AC_Match oa s = Some a"
    "set a = {v. \<exists>p. (p, v) \<in> set (acs es) \<and> mMatch p s}"
    "opt_any AC_MatchAny oa s \<longleftrightarrow> (\<exists>v p. (p, v) \<in> set (acs es) \<and> mMatch p s)"
    using ac_part [OF es s oa] by blast
  obtain r where r: "opt_values (\<lambda>g s. Some (SimpleGroup_Match g s)) (group_of SimpleGroup_Add [] (regexes es)) s = Some r"
    "set r = {v. \<exists>m. (m, v) \<in> set (regexes es) \<and> mMatch m s}"
    using simple_group.opt_values_group [OF TrueI TrueI] by blast
  show "\<exists>vs. MphValue_Match mh g s = Some vs \<and> set vs = {v. \<exists>m. (m, v) \<in> set es \<and> mMatch m s}"
  proof (intro exI conjI)
    show "MphValue_Match mh g s = Some (m @ a @ r)"
      by (simp add: MphValue_Match_def g m(1) a(1) r(1) CompositeMatches_concat)
    show "set (m @ a @ r) = {v. \<exists>m. (m, v) \<in> set es \<and> mMatch m s}"
      unfolding set_append m(2) a(2) r(2) using parts_set [of _ es "\<lambda>m. mMatch m s"] by blast
  qed
  show "MphValue_MatchAny mh g s \<longleftrightarrow> (\<exists>(m, v) \<in> set es. mMatch m s)"
    unfolding MphValue_MatchAny_def if_bool_eq_disj g m(3) a(3) simple_group.opt_any_group [OF TrueI]
    using parts_set [of _ es "\<lambda>m. mMatch m s"] by blast
qed

section \<open>What rules mean\<close>

definition parsed_domains :: "domain_env \<Rightarrow> GeoDomain list \<Rightarrow> Matcher list" where
  "parsed_domains env ds =
     List.map_filter (\<lambda>d. case parseDomain env (Some d) of Some (Inr m) \<Rightarrow> Some m | _ \<Rightarrow> None) ds"

definition rule_matchers :: "domain_env \<Rightarrow> DomainRule \<Rightarrow> Matcher list" where
  "rule_matchers env r =
     (case r of
        DomainRule_Custom d \<Rightarrow> parsed_domains env [d]
      | DomainRule_Geosite g \<Rightarrow>
          (case de_load env (gs_file g) (gs_code g) (gs_attrs g) of Inl e \<Rightarrow> [] | Inr ds \<Rightarrow> parsed_domains env ds))"

definition domain_rules_accept :: "domain_env \<Rightarrow> DomainRule list \<Rightarrow> string \<Rightarrow> bool" where
  "domain_rules_accept env rules s \<longleftrightarrow> (\<exists>r \<in> set rules. \<exists>m \<in> set (rule_matchers env r). mMatch m s)"

fun rules_entries :: "domain_env \<Rightarrow> nat \<Rightarrow> DomainRule list \<Rightarrow> Matcher entries" where
  "rules_entries env i [] = []"
| "rules_entries env i (r # rs) = map (\<lambda>m. (m, of_nat i)) (rule_matchers env r) @ rules_entries env (Suc i) rs"

text \<open>Patterns without the shapes that the tables treat differently from the matchers: a leading period,
  an empty domain, an empty substring.\<close>

fun clean_pattern :: "Matcher \<Rightarrow> bool" where
  "clean_pattern (FullMatcher p) = (p = [] \<or> hd p \<noteq> CHR ''.'')"
| "clean_pattern (DomainMatcher p) = domain_ok p"
| "clean_pattern (SubstrMatcher p) = (p \<noteq> [])"
| "clean_pattern (RegexMatcher p re ls) = True"

definition clean_rules :: "domain_env \<Rightarrow> DomainRule list \<Rightarrow> bool" where
  "clean_rules env rules \<longleftrightarrow> length rules \<le> 65536 \<and> length (rules_entries env 0 rules) < 2 ^ 29 \<and>
     (\<forall>r \<in> set rules. \<forall>m \<in> set (rule_matchers env r). clean_pattern m)"

lemma rules_entries_fst:
  "(\<exists>v. (m, v) \<in> set (rules_entries env i rules)) \<longleftrightarrow> (\<exists>r \<in> set rules. m \<in> set (rule_matchers env r))"
  by (induction env i rules rule: rules_entries.induct) auto

lemma rules_entries_accept:
  "(\<exists>(m, v) \<in> set (rules_entries env i rules). mMatch m s) \<longleftrightarrow> domain_rules_accept env rules s"
  using rules_entries_fst [of _ env i rules] unfolding domain_rules_accept_def by blast

lemma pattern_result_Inr:
  assumes "pattern_result (map_option (map_sum id K) x) = Some (Inr m)"
  shows "\<exists>d. x = Some (Inr d) \<and> m = K d"
proof (cases x)
  case (Some r)
  then show ?thesis using assms by (cases r) (auto simp: pattern_result_def)
qed (use assms in \<open>simp add: pattern_result_def\<close>)

lemma ldh_pattern_result:
  assumes "pattern_result (NewDomainPattern parse idna t p) = Some (Inr m)"
  shows "ldh_pattern m"
  using assms ToDomain_lower [of idna p]
  by (auto simp: NewDomainPattern_def list_all_iff dest!: pattern_result_Inr split: if_splits)
    (auto simp: pattern_result_def newRegexMatcher_def split: option.splits)

lemma parseDomain_ldh: "parseDomain env (Some d) = Some (Inr m) \<Longrightarrow> ldh_pattern m"
  by (auto simp: parseDomain_def Let_def dest: ldh_pattern_result split: if_splits)
    (auto simp: pattern_result_def TypeNew_def newRegexMatcher_def split: option.splits)

lemma set_parsed_domains: "m \<in> set (parsed_domains env ds) \<longleftrightarrow> (\<exists>d \<in> set ds. parseDomain env (Some d) = Some (Inr m))"
  unfolding parsed_domains_def
  by (induction ds) (auto simp: map_filter_simps split: option.splits sum.splits)

lemma parsed_domains_ldh: "m \<in> set (parsed_domains env ds) \<Longrightarrow> ldh_pattern m"
  using parseDomain_ldh by (auto simp: set_parsed_domains)

lemma rule_matchers_ldh: "m \<in> set (rule_matchers env r) \<Longrightarrow> ldh_pattern m"
  by (auto simp: rule_matchers_def dest: parsed_domains_ldh split: DomainRule.splits sum.splits)

lemma clean_value_admissible:
  assumes "clean_rules env rules"
  shows "value_admissible (rules_entries env 0 rules)"
proof -
  have "value_pattern_ok m" if "(m, v) \<in> set (rules_entries env 0 rules)" for m v
  proof -
    from that obtain r where "r \<in> set rules" "m \<in> set (rule_matchers env r)" using rules_entries_fst by blast
    then have "clean_pattern m" "ldh_pattern m" using assms rule_matchers_ldh by (auto simp: clean_rules_def)
    then show ?thesis by (cases m) (auto simp: domain_ok_def)
  qed
  then show ?thesis using assms by (auto simp: value_admissible_def clean_rules_def)
qed

section \<open>The factory over the hash table\<close>

lemma add_domains_fold: "add_domains env add ds g = Some g' \<Longrightarrow> g' = fold add (parsed_domains env ds) g"
  by (induction env add ds g rule: add_domains.induct)
    (auto simp: parsed_domains_def map_filter_simps split: option.splits sum.splits)

lemma fold_entries: "fold (\<lambda>m. add m v) ms g = build_group add g (map (\<lambda>m. (m, v)) ms)"
  by (induction ms arbitrary: g) (simp_all add: build_group_def)

lemma build_group_append: "build_group add g (es @ es') = build_group add (build_group add g es) es'"
  by (simp add: build_group_def)

lemma mph_add_rules_entries:
  "mph_add_rules env i rules g = Some (Inr g') \<Longrightarrow> g' = build_group MphValue_Add g (rules_entries env i rules)"
proof (induction env i rules g rule: mph_add_rules.induct)
  case (2 env i d rs g)
  then show ?case
    by (auto simp: rule_matchers_def parsed_domains_def map_filter_simps build_group_append build_group_def
        split: option.splits sum.splits)
next
  case (3 env i s rs g)
  from 3(2) obtain ds g1 where ds: "de_load env (gs_file s) (gs_code s) (gs_attrs s) = Inr ds"
    and g1: "add_domains env (\<lambda>m. MphValue_Add m (of_nat i)) ds g = Some g1"
    and rest: "mph_add_rules env (Suc i) rs g1 = Some (Inr g')"
    by (auto split: option.splits sum.splits)
  from 3(1) [OF ds g1 rest] add_domains_fold [OF g1] ds show ?case
    by (simp add: rule_matchers_def build_group_append fold_entries)
qed simp

definition mph_built :: "domain_env \<Rightarrow> DomainRule list \<Rightarrow> MphValueMatcher \<Rightarrow> bool" where
  "mph_built env rules g \<longleftrightarrow>
     MphValue_Build (de_mh env) (de_ord env) (build_group MphValue_Add NewMphValueMatcher (rules_entries env 0 rules)) = Some g"

lemma mph_built_exact:
  assumes "mph_built env rules g" "clean_rules env rules" "range_order (de_ord env)" "no_upper s"
  shows "MphValue_MatchAny (de_mh env) g s \<longleftrightarrow> domain_rules_accept env rules s"
  using MphValue_Match_spec(2) [OF _ _ _ clean_value_admissible [OF assms(2)] assms(3,4) assms(1) [unfolded mph_built_def]]
  by (simp add: NewMphValueMatcher_def rules_entries_accept)

section \<open>Cache keys\<close>

text \<open>Rules whose key can be read back. A regular expression may contain a comma, and then the key is
  ambiguous.\<close>

fun keyable :: "DomainRule \<Rightarrow> bool" where
  "keyable (DomainRule_Custom d) = (dom_type d \<in> {0, 1, 2, 3} \<and> dom_attribute d = [] \<and>
     CHR '','' \<notin> set (dom_value d) \<and> CHR ''@'' \<notin> set (dom_value d))"
| "keyable (DomainRule_Geosite g) = (CHR '':'' \<notin> set (gs_file g) \<and> CHR ''@'' \<notin> set (gs_code g) \<and>
     CHR '','' \<notin> set (gs_file g @ gs_code g @ gs_attrs g))"

definition rule_text :: "DomainRule \<Rightarrow> string" where
  "rule_text r = butlast (rule_key r)"

lemma rule_key_text: "rule_key r = rule_text r @ '',''"
  by (cases r) (simp_all add: rule_text_def butlast_append)

lemma type_name_simps [simp]:
  "type_name 0 = ''Substr''" "type_name 1 = ''Regex''" "type_name 2 = ''Domain''" "type_name 3 = ''Full''"
  by (simp_all add: type_name_def)

lemma rule_text_comma: "keyable r \<Longrightarrow> CHR '','' \<notin> set (rule_text r)"
  by (cases r) (auto simp: rule_text_def butlast_append)

lemma rule_text_site: "keyable r \<Longrightarrow> CHR ''@'' \<in> set (rule_text r) \<longleftrightarrow> is_geosite r"
  by (cases r) (auto simp: rule_text_def butlast_append is_geosite_def)

lemma rule_text_inj:
  assumes "keyable r" "keyable r'" "rule_text r = rule_text r'"
  shows "r = r'"
proof (cases "is_geosite r")
  case True
  then have "is_geosite r'" using assms rule_text_site by metis
  with True obtain g g' where g: "r = DomainRule_Geosite g" "r' = DomainRule_Geosite g'"
    by (auto simp: is_geosite_def split: DomainRule.splits)
  have "gs_file g @ CHR '':'' # gs_code g @ CHR ''@'' # gs_attrs g =
      gs_file g' @ CHR '':'' # gs_code g' @ CHR ''@'' # gs_attrs g'"
    using assms(3) by (simp add: g rule_text_def butlast_append)
  then have "gs_file g = gs_file g' \<and> gs_code g = gs_code g' \<and> gs_attrs g = gs_attrs g'"
    using assms(1,2) by (auto simp: g span_inj)
  then show ?thesis by (simp add: g)
next
  case False
  then have "\<not> is_geosite r'" using assms rule_text_site by metis
  with False obtain d d' where d: "r = DomainRule_Custom d" "r' = DomainRule_Custom d'"
    by (auto simp: is_geosite_def split: DomainRule.splits)
  have "type_name (dom_type d) @ CHR '':'' # dom_value d = type_name (dom_type d') @ CHR '':'' # dom_value d'"
    using assms(3) by (simp add: d rule_text_def butlast_append)
  moreover have "CHR '':'' \<notin> set (type_name (dom_type d))" "CHR '':'' \<notin> set (type_name (dom_type d'))"
    using assms(1,2) by (auto simp: d)
  ultimately have "type_name (dom_type d) = type_name (dom_type d')" "dom_value d = dom_value d'"
    by (auto simp: span_inj)
  moreover from this(1) have "dom_type d = dom_type d'" using assms(1,2) by (auto simp: d)
  ultimately show ?thesis using assms(1,2) by (simp add: d)
qed

lemma concat_keys_inj:
  assumes "list_all keyable rs" "list_all keyable rs'" "concat (map rule_key rs) = concat (map rule_key rs')"
  shows "rs = rs'"
  using assms
proof (induction rs arbitrary: rs')
  case Nil
  then show ?case by (cases rs') (auto simp: rule_key_text)
next
  case (Cons r rs)
  show ?case
  proof (cases rs')
    case Nil
    with Cons.prems show ?thesis by (auto simp: rule_key_text)
  next
    case (Cons r' rs0)
    then have "rule_text r @ CHR '','' # concat (map rule_key rs) = rule_text r' @ CHR '','' # concat (map rule_key rs0)"
      using Cons.prems(3) by (simp add: rule_key_text [of r] rule_key_text [of r'])
    moreover have "CHR '','' \<notin> set (rule_text r)" "CHR '','' \<notin> set (rule_text r')"
      using Cons.prems(1,2) \<open>rs' = r' # rs0\<close> by (auto simp: rule_text_comma)
    ultimately have "rule_text r = rule_text r'" "concat (map rule_key rs) = concat (map rule_key rs0)"
      by (auto simp: span_inj)
    with Cons.prems(1,2) Cons.IH [of rs0] rule_text_inj [of r r'] \<open>rs' = r' # rs0\<close> show ?thesis by auto
  qed
qed

lemma buildDomainRulesKey_inj:
  assumes "list_all keyable rs" "list_all keyable rs'" "buildDomainRulesKey rs \<noteq> []"
    "buildDomainRulesKey rs = buildDomainRulesKey rs'"
  shows "rs = rs'"
  using assms concat_keys_inj [of rs rs'] by (auto simp: buildDomainRulesKey_def split: if_splits)

definition mph_cache_ok :: "domain_env \<Rightarrow> mph_cache \<Rightarrow> bool" where
  "mph_cache_ok env c \<longleftrightarrow> (\<forall>k g. al_get c k = Some g \<longrightarrow>
     (\<exists>rules. list_all keyable rules \<and> buildDomainRulesKey rules = k \<and> mph_built env rules g))"

lemma Mph_BuildMatcher_built:
  assumes c: "mph_cache_ok env c" and k: "list_all keyable rules" and b: "Mph_BuildMatcher env c rules = Some (Inr g, c')"
  shows "mph_built env rules g \<and> mph_cache_ok env c'"
proof (cases "if buildDomainRulesKey rules \<noteq> [] then al_get c (buildDomainRulesKey rules) else None")
  case (Some g0)
  then have "buildDomainRulesKey rules \<noteq> []" "al_get c (buildDomainRulesKey rules) = Some g0" by (auto split: if_splits)
  moreover from this(2) c obtain rs where "list_all keyable rs" "buildDomainRulesKey rs = buildDomainRulesKey rules" "mph_built env rs g0"
    by (auto simp: mph_cache_ok_def)
  ultimately have "mph_built env rules g0" using buildDomainRulesKey_inj [OF k] by metis
  moreover have "g = g0" "c' = c" using b Some by (auto simp: Mph_BuildMatcher_def Let_def split: if_splits)
  ultimately show ?thesis using c by simp
next
  case None
  then obtain g1 where g1: "mph_add_rules env 0 rules NewMphValueMatcher = Some (Inr g1)"
    "MphValue_Build (de_mh env) (de_ord env) g1 = Some g"
    "c' = (if buildDomainRulesKey rules \<noteq> [] then al_put (buildDomainRulesKey rules) g c else c)"
    using b by (auto simp: Mph_BuildMatcher_def Let_def split: if_splits option.splits sum.splits)
  then have "mph_built env rules g" using mph_add_rules_entries [OF g1(1)] by (simp add: mph_built_def)
  then show ?thesis using c k g1(3) by (auto simp: mph_cache_ok_def al_simps)
qed

section \<open>The compact factory\<close>

definition site_key :: "GeoSiteRule \<Rightarrow> string" where
  "site_key g = gs_file g @ '':'' @ gs_code g @ ''@'' @ gs_attrs g"

definition any_built :: "domain_env \<Rightarrow> GeoSiteRule \<Rightarrow> LinearAnyMatcher \<Rightarrow> bool" where
  "any_built env g a \<longleftrightarrow> a = fold LinearAny_Add (rule_matchers env (DomainRule_Geosite g)) NewLinearAnyMatcher"

definition any_cache_ok :: "domain_env \<Rightarrow> any_cache \<Rightarrow> bool" where
  "any_cache_ok env c \<longleftrightarrow> (\<forall>k a. al_get c k = Some a \<longrightarrow>
     (\<exists>g. keyable (DomainRule_Geosite g) \<and> site_key g = k \<and> any_built env g a))"

lemma site_key_inj:
  "keyable (DomainRule_Geosite g) \<Longrightarrow> keyable (DomainRule_Geosite g') \<Longrightarrow> site_key g = site_key g' \<longleftrightarrow> g = g'"
  by (cases g; cases g') (auto simp: site_key_def span_inj)

lemma getOrCreateFrom_built:
  assumes c: "any_cache_ok env c" and k: "keyable (DomainRule_Geosite g)" and b: "getOrCreateFrom env c g = Some (Inr a, c')"
  shows "any_built env g a \<and> any_cache_ok env c'"
proof (cases "al_get c (site_key g)")
  case (Some a0)
  then obtain g0 where "keyable (DomainRule_Geosite g0)" "site_key g0 = site_key g" "any_built env g0 a0"
    using c by (auto simp: any_cache_ok_def)
  then have "any_built env g a0" using site_key_inj [OF _ k] by blast
  then show ?thesis using b c Some by (auto simp: getOrCreateFrom_def Let_def site_key_def)
next
  case None
  then obtain ds where ds: "de_load env (gs_file g) (gs_code g) (gs_attrs g) = Inr ds"
    "add_domains env LinearAny_Add ds NewLinearAnyMatcher = Some a" "c' = al_put (site_key g) a c"
    using b by (auto simp: getOrCreateFrom_def Let_def site_key_def split: option.splits sum.splits)
  then have "any_built env g a" using add_domains_fold [OF ds(2)] by (simp add: any_built_def rule_matchers_def)
  then show ?thesis using c k ds(3) by (auto simp: any_cache_ok_def al_simps)
qed

lemma any_built_exact:
  assumes "any_built env g a" "\<forall>m \<in> set (rule_matchers env (DomainRule_Geosite g)). clean_pattern m"
  shows "LinearAny_MatchAny a s \<longleftrightarrow> (\<exists>m \<in> set (rule_matchers env (DomainRule_Geosite g)). mMatch m s)"
proof -
  have "list_all pattern_ok (rule_matchers env (DomainRule_Geosite g))"
    unfolding list_all_iff
  proof
    fix m assume "m \<in> set (rule_matchers env (DomainRule_Geosite g))"
    then have "clean_pattern m" using assms(2) by blast
    then show "pattern_ok m" by (cases m) auto
  qed
  then show ?thesis using assms(1) linear_any.any_build by (simp add: any_built_def)
qed

text \<open>The compact matcher after some rules: the custom patterns as entries and the lists as matchers.\<close>

fun customs :: "domain_env \<Rightarrow> nat \<Rightarrow> DomainRule list \<Rightarrow> Matcher entries" where
  "customs env i [] = []"
| "customs env i (DomainRule_Custom d # rs) = map (\<lambda>m. (m, of_nat i)) (parsed_domains env [d]) @ customs env (Suc i) rs"
| "customs env i (DomainRule_Geosite g # rs) = customs env (Suc i) rs"

definition compact_of :: "Matcher entries \<Rightarrow> LinearValueMatcher option" where
  "compact_of es = group_of LinearValue_Add NewLinearValueMatcher es"

lemma compact_rules_built:
  assumes "compact_rules env i rules c shared = Some (Inr c', shared')" "any_cache_ok env shared" "list_all keyable rules"
    "cd_custom c = compact_of es"
  shows "any_cache_ok env shared' \<and> cd_custom c' = compact_of (es @ customs env i rules) \<and>
    (\<exists>as. cd_matchers c' = cd_matchers c @ as \<and>
       list_all2 (any_built env) (List.map_filter (\<lambda>r. case r of DomainRule_Geosite g \<Rightarrow> Some g | _ \<Rightarrow> None) rules) as)"
  using assms
proof (induction env i rules c shared arbitrary: es rule: compact_rules.induct)
  case (1 env i c shared)
  then show ?case by (simp add: map_filter_simps)
next
  case (2 env i d rs c shared)
  then obtain m where m: "parseDomain env (Some d) = Some (Inr m)" by (auto split: option.splits sum.splits)
  let ?c = "c\<lparr>cd_custom := Some (LinearValue_Add m (of_nat i) (or_new NewLinearValueMatcher (cd_custom c)))\<rparr>"
  have "cd_custom ?c = compact_of (es @ [(m, of_nat i)])"
    using 2(5) by (simp add: compact_of_def group_of_snoc)
  moreover have "compact_rules env (Suc i) rs ?c shared = Some (Inr c', shared')" using 2(2) m by simp
  ultimately show ?case
    using 2(1) [OF m refl, of "es @ [(m, of_nat i)]"] 2(3,4) m by (simp add: parsed_domains_def map_filter_simps)
next
  case (3 env i g rs c shared)
  then obtain a s1 where a: "getOrCreateFrom env shared g = Some (Inr a, s1)" by (auto split: option.splits sum.splits)
  have built: "any_built env g a \<and> any_cache_ok env s1" using getOrCreateFrom_built [OF 3(3) _ a] 3(4) by simp
  let ?c = "c\<lparr>cd_matchers := cd_matchers c @ [a], cd_values := cd_values c @ [of_nat i]\<rparr>"
  have "compact_rules env (Suc i) rs ?c s1 = Some (Inr c', shared')" using 3(2) a by simp
  from 3(1) [OF a refl refl this, of es] built 3(4,5) show ?case by (auto simp: map_filter_simps)
qed

lemma customs_length: "length (customs env i rules) \<le> length rules"
  by (induction env i rules rule: customs.induct)
    (auto simp: parsed_domains_def map_filter_simps split: option.splits sum.splits)

lemma customs_matchers:
  "(\<exists>v. (m, v) \<in> set (customs env i rules)) \<longleftrightarrow> (\<exists>d. DomainRule_Custom d \<in> set rules \<and> m \<in> set (rule_matchers env (DomainRule_Custom d)))"
  by (induction env i rules rule: customs.induct) (auto simp: rule_matchers_def)

lemma customs_admissible:
  assumes "clean_rules env rules"
  shows "linear_admissible (customs env 0 rules)"
proof -
  have cl: "clean_pattern m" if "(m, v) \<in> set (customs env 0 rules)" for m v
    using that customs_matchers [of m env 0 rules] assms by (auto simp: clean_rules_def)
  have "length (substrs (customs env 0 rules)) \<le> length (customs env 0 rules)"
    by (simp add: substrs_def map_filter_def)
  also have "\<dots> \<le> length rules" by (rule customs_length)
  also have "\<dots> \<le> 65536" using assms by (simp add: clean_rules_def)
  finally have "length (substrs (customs env 0 rules)) \<le> 65536" .
  then show ?thesis
    using kinds_set(2,3) [of _ _ "customs env 0 rules"]
    by (auto simp: linear_admissible_def domains_ok_def substr_admissible_def dest!: cl)
qed

definition compact_built :: "domain_env \<Rightarrow> DomainRule list \<Rightarrow> CompactDomainMatcher \<Rightarrow> bool" where
  "compact_built env rules c \<longleftrightarrow> cd_custom c = compact_of (customs env 0 rules) \<and>
     list_all2 (any_built env) (List.map_filter (\<lambda>r. case r of DomainRule_Geosite g \<Rightarrow> Some g | _ \<Rightarrow> None) rules) (cd_matchers c)"

lemma set_geosites:
  "set (List.map_filter (\<lambda>r. case r of DomainRule_Geosite g \<Rightarrow> Some g | _ \<Rightarrow> None) rules) = {g. DomainRule_Geosite g \<in> set rules}"
  by (induction rules) (auto simp: map_filter_simps split: DomainRule.splits)

lemma list_all2_ex:
  assumes "list_all2 R xs ys" "\<And>x y. x \<in> set xs \<Longrightarrow> R x y \<Longrightarrow> p y \<longleftrightarrow> q x"
  shows "(\<exists>y \<in> set ys. p y) \<longleftrightarrow> (\<exists>x \<in> set xs. q x)"
  using assms by (induction rule: list_all2_induct) auto

lemma compact_built_exact:
  assumes b: "compact_built env rules c" and cl: "clean_rules env rules"
  shows "Compact_MatchAny c s \<longleftrightarrow> domain_rules_accept env rules s"
proof -
  have cust: "opt_any LinearValue_MatchAny (cd_custom c) s \<longleftrightarrow>
      (\<exists>d. DomainRule_Custom d \<in> set rules \<and> (\<exists>m \<in> set (rule_matchers env (DomainRule_Custom d)). mMatch m s))"
  proof -
    have "opt_any LinearValue_MatchAny (cd_custom c) s \<longleftrightarrow> (\<exists>(m, v) \<in> set (customs env 0 rules). mMatch m s)"
      using b linear_value.opt_any_group [OF customs_admissible [OF cl]] by (simp add: compact_built_def compact_of_def)
    then show ?thesis using customs_matchers [of _ env 0 rules] by blast
  qed
  have "(\<exists>a \<in> set (cd_matchers c). LinearAny_MatchAny a s) \<longleftrightarrow>
      (\<exists>g \<in> {g. DomainRule_Geosite g \<in> set rules}. \<exists>m \<in> set (rule_matchers env (DomainRule_Geosite g)). mMatch m s)"
    unfolding set_geosites [symmetric]
  proof (rule list_all2_ex)
    show "list_all2 (any_built env) (List.map_filter (\<lambda>r. case r of DomainRule_Geosite g \<Rightarrow> Some g | _ \<Rightarrow> None) rules) (cd_matchers c)"
      using b by (simp add: compact_built_def)
    fix g a assume "g \<in> set (List.map_filter (\<lambda>r. case r of DomainRule_Geosite g \<Rightarrow> Some g | _ \<Rightarrow> None) rules)" "any_built env g a"
    then show "LinearAny_MatchAny a s \<longleftrightarrow> (\<exists>m \<in> set (rule_matchers env (DomainRule_Geosite g)). mMatch m s)"
      using cl any_built_exact [of env g a s] unfolding set_geosites by (auto simp: clean_rules_def)
  qed
  with cust show ?thesis
    unfolding Compact_MatchAny_def if_bool_eq_disj domain_rules_accept_def list_ex_iff
    by (metis (no_types, lifting) DomainRule.exhaust mem_Collect_eq)
qed

section \<open>Both factories and the registry\<close>

fun factory_ok :: "domain_env \<Rightarrow> DomainMatcherFactory \<Rightarrow> bool" where
  "factory_ok env (MphFactory c) = mph_cache_ok env c"
| "factory_ok env (CompactFactory c) = any_cache_ok env c"

fun matcher_built :: "domain_env \<Rightarrow> DomainRule list \<Rightarrow> GeoDomainMatcher \<Rightarrow> bool" where
  "matcher_built env rules (MphMatcher g) = mph_built env rules g"
| "matcher_built env rules (CompactMatcher c) = compact_built env rules c"

lemma map_sum_eq_Inr: "map_sum f g x = Inr y \<longleftrightarrow> (\<exists>z. x = Inr z \<and> y = g z)"
  by (cases x) auto

lemma BuildMatcher_built:
  assumes "factory_ok env f" "list_all keyable rules" "BuildMatcher env f rules = Some (Inr m, f')"
  shows "matcher_built env rules m \<and> factory_ok env f'"
proof (cases f)
  case (MphFactory c)
  then obtain g c' where "Mph_BuildMatcher env c rules = Some (Inr g, c')" "m = MphMatcher g" "f' = MphFactory c'"
    using assms(3) by (auto simp: map_sum_eq_Inr)
  then show ?thesis using Mph_BuildMatcher_built assms(1,2) MphFactory by auto
next
  case (CompactFactory c)
  then obtain g c' where b: "Compact_BuildMatcher env c rules = Some (Inr g, c')" "m = CompactMatcher g" "f' = CompactFactory c'"
    using assms(3) by (auto simp: map_sum_eq_Inr)
  then have "compact_rules env 0 rules \<lparr>cd_custom = None, cd_matchers = [], cd_values = []\<rparr> c = Some (Inr g, c')"
    by (auto simp: Compact_BuildMatcher_def split: if_splits)
  from compact_rules_built [OF this _ assms(2), of "[]"] show ?thesis
    using assms(1) CompactFactory b by (auto simp: compact_built_def compact_of_def group_of_def)
qed

lemma matcher_built_exact:
  assumes "matcher_built env rules m" "clean_rules env rules" "range_order (de_ord env)" "no_upper s"
  shows "dm_MatchAny env m s \<longleftrightarrow> domain_rules_accept env rules s"
  using assms mph_built_exact compact_built_exact by (cases m) auto

lemma newDomainMatcherFactory_ok [simp]: "factory_ok env (newDomainMatcherFactory goos)"
  by (simp add: newDomainMatcherFactory_def mph_cache_ok_def any_cache_ok_def)

lemma rebuild_domains_built:
  assumes "rebuild_domains env f ds = Some (Inr (f', ms))" "factory_ok env f" "\<forall>d \<in> set ds. list_all keyable (dd_rules d)"
  shows "factory_ok env f' \<and> list_all2 (\<lambda>d m. matcher_built env (dd_rules d) m) ds ms"
  using assms
proof (induction env f ds arbitrary: ms rule: rebuild_domains.induct)
  case (2 env f d ds)
  then obtain m f1 ms1 where b: "BuildMatcher env f (dd_rules d) = Some (Inr m, f1)"
    "rebuild_domains env f1 ds = Some (Inr (f', ms1))" "ms = m # ms1"
    by (auto split: option.splits sum.splits)
  have "matcher_built env (dd_rules d) m \<and> factory_ok env f1" using BuildMatcher_built [OF 2(3) _ b(1)] 2(4) by simp
  with 2(1) [OF b(1) refl refl b(2)] 2(4) b(3) show ?case by auto
qed simp

end
