(* ===== verification/DomainProps.thy ===== *)
theory DomainProps
  imports DomainProofs
begin

text \<open>The properties of the domain matchers: the automaton, the matcher over all tables, the factories
  with their caches and the registry, with an instance of each.\<close>

section \<open>The automaton\<close>

text \<open>C18. For full, domain and substring patterns (no empty substring, no domain with a leading period)
  building the automaton ends, and the built automaton returns exactly the values of the patterns
  that match the text up to the table of characters; \<open>MatchAny\<close> tells whether there is one.\<close>

theorem ac_automaton_exact:
  assumes "ac_admissible es"
  shows "\<exists>ac vs. AC_Build (build_group AC_Add NewACAutomatonMatcherGroup es) = Some ac \<and>
    AC_Match ac s = Some vs \<and> set vs = {v. \<exists>m. (m, v) \<in> set es \<and> ac_match m s} \<and>
    (AC_MatchAny ac s \<longleftrightarrow> (\<exists>(m, v) \<in> set es. ac_match m s))"
proof -
  obtain vs where vs: "ac_built_Match (build_group AC_Add NewACAutomatonMatcherGroup es) s = Some vs"
    "set vs = {v. \<exists>m. (m, v) \<in> set es \<and> ac_match m s}"
    using ac_group.match_values [OF assms, of s] by blast
  from vs(1) obtain ac where ac: "AC_Build (build_group AC_Add NewACAutomatonMatcherGroup es) = Some ac" "AC_Match ac s = Some vs"
    by (auto simp: ac_built_Match_def bind_eq_Some_conv)
  moreover have "AC_MatchAny ac s \<longleftrightarrow> (\<exists>(m, v) \<in> set es. ac_match m s)"
    using ac_group.any_entry [OF assms, of s] ac(1) by (simp add: ac_built_any_def)
  ultimately show ?thesis using vs(2) by blast
qed

theorem ac_automaton_exact_witness:
  "\<exists>ac. AC_Build (build_group AC_Add NewACAutomatonMatcherGroup [(SubstrMatcher ''bc'', 7), (DomainMatcher ''d'', 8)]) = Some ac \<and>
    AC_MatchAny ac ''abcd'' \<and> \<not> AC_MatchAny ac ''cb''"
proof -
  let ?es = "[(SubstrMatcher ''bc'', 7), (DomainMatcher ''d'', 8)]"
  have ok: "ac_admissible ?es" by (simp add: ac_admissible_def)
  have k: "ekey ''bc'' = [3, 2]" "ekey ''d'' = [4]" "ekey ''abcd'' = [4, 3, 2, 1]" "ekey ''cb'' = [2, 3]"
    by (simp_all add: ekey_def acCharset_def is_upper_def is_lower_def less_eq_char_def)
  from ac_automaton_exact [OF ok, of "''abcd''"] ac_automaton_exact [OF ok, of "''cb''"] show ?thesis
    by (auto simp: k sublist_code prefix_def Cons_eq_append_conv)
qed

text \<open>The matcher over the hash table, the automaton and the regular expressions returns, for a text
  without upper-case letters, exactly the values of the patterns that match it, and \<open>MatchAny\<close>
  tells whether there is one.\<close>

theorem mph_value_exact:
  assumes "value_admissible es" "range_order ord" "no_upper s"
    "MphValue_Build mh ord (build_group MphValue_Add NewMphValueMatcher es) = Some g"
  shows "(\<exists>vs. MphValue_Match mh g s = Some vs \<and> set vs = {v. \<exists>m. (m, v) \<in> set es \<and> mMatch m s}) \<and>
    (MphValue_MatchAny mh g s \<longleftrightarrow> (\<exists>(m, v) \<in> set es. mMatch m s))"
  using MphValue_Match_spec [OF _ _ _ assms] by (simp add: NewMphValueMatcher_def)

theorem mph_value_exact_witness:
  "\<exists>g. MphValue_Build (\<lambda>seed s. seed) rev (build_group MphValue_Add NewMphValueMatcher [(SubstrMatcher ''bc'', 7)]) = Some g \<and>
    MphValue_MatchAny (\<lambda>seed s. seed) g ''abcd''"
proof -
  let ?mh = "\<lambda>(seed::u32) (s::string). seed"
  let ?es = "[(SubstrMatcher ''bc'', 7)] :: Matcher entries"
  have adm: "value_admissible ?es"
    by (simp add: value_admissible_def lower_ldh_def is_lower_def less_eq_char_def)
  have "ac_admissible ?es" by (simp add: ac_admissible_def)
  from ac_group.match_values [OF this] obtain ac where
    ac: "AC_Build (AC_AddSubstr ''bc'' 7 NewACAutomatonMatcherGroup) = Some ac"
    by (auto simp: build_group_def ac_built_Match_def bind_eq_Some_conv)
  then have "\<exists>g. MphValue_Build ?mh rev (build_group MphValue_Add NewMphValueMatcher ?es) = Some g"
    by (simp add: MphValue_Build_def build_group_def NewMphValueMatcher_def opt_build_def or_new_def)
  then obtain g where g: "MphValue_Build ?mh rev (build_group MphValue_Add NewMphValueMatcher ?es) = Some g" by blast
  have "no_upper ''abcd''" by (simp add: no_upper_def is_upper_def less_eq_char_def)
  from mph_value_exact [OF adm range_order_id(2) this g] g show ?thesis
    by (auto simp: Contains_def sublist_code)
qed

section \<open>Factories\<close>

text \<open>C19. The matcher that either factory builds from rules, cached or new, accepts a domain without
  upper-case letters exactly when one of the rules means it, and the factory's cache stays
  faithful. The rules have readable cache keys (\<open>keyable\<close>) and no pattern of a shape the tables treat apart
  (\<open>clean_rules\<close>: full and domain patterns without a leading dot, substrings that are not empty).\<close>

theorem domain_build_exact:
  assumes "factory_ok env f" "list_all keyable rules" "clean_rules env rules" "range_order (de_ord env)"
    "BuildMatcher env f rules = Some (Inr m, f')" "no_upper s"
  shows "factory_ok env f' \<and> (dm_MatchAny env m s \<longleftrightarrow> domain_rules_accept env rules s)"
  using BuildMatcher_built [OF assms(1,2,5)] matcher_built_exact [OF _ assms(3,4,6)] by blast

definition ex_env :: domain_env where
  "ex_env = \<lparr>de_parse = (\<lambda>_. None), de_idna = (\<lambda>_. None), de_mh = (\<lambda>seed s. seed), de_ord = (\<lambda>xs. xs),
     de_load = (\<lambda>f c a. if c = ''T'' then Inr [custom_domain 3 ''x''] else Inl EOF)\<rparr>"

definition ex_domain_rules :: "DomainRule list" where
  "ex_domain_rules = [DomainRule_Custom (custom_domain 2 ''b.c''),
     DomainRule_Geosite \<lparr>gs_file = ''f'', gs_code = ''T'', gs_attrs = ''''\<rparr>]"

lemma ex_ToDomain:
  "list_all lower_ldh p \<Longrightarrow> ToDomain idna p = Some (Inr p)"
proof -
  assume p: "list_all lower_ldh p"
  have "ldh_loop u p = ScanASCII u" for u
    using p
  proof (induction p arbitrary: u)
    case (Cons c cs)
    then have "(of_char c :: nat) < 128" "\<not> is_upper c"
      by (auto simp: lower_ldh_def is_upper_def is_lower_def is_digit_def less_eq_char_def)
    with Cons show ?case by (auto simp: lower_ldh_def)
  qed simp
  then show ?thesis by (subst ToDomain.simps) simp
qed

lemma ex_parse_domain:
  "parseDomain ex_env (Some (custom_domain 2 ''b.c'')) = Some (Inr (DomainMatcher ''b.c''))"
  "parseDomain ex_env (Some (custom_domain 3 ''x'')) = Some (Inr (FullMatcher ''x''))"
  by (simp_all add: parseDomain_def custom_domain_def NewDomainPattern_def pattern_result_def ex_ToDomain
      lower_ldh_def is_lower_def less_eq_char_def)

lemma ex_load: "de_load ex_env ''f'' ''T'' '''' = Inr [custom_domain 3 ''x'']"
  by (simp add: ex_env_def)

lemma ex_rule_matchers:
  "rule_matchers ex_env (DomainRule_Custom (custom_domain 2 ''b.c'')) = [DomainMatcher ''b.c'']"
  "rule_matchers ex_env (DomainRule_Geosite \<lparr>gs_file = ''f'', gs_code = ''T'', gs_attrs = ''''\<rparr>) = [FullMatcher ''x'']"
  by (simp_all add: rule_matchers_def parsed_domains_def map_filter_simps ex_parse_domain ex_load)

lemma ex_clean: "clean_rules ex_env ex_domain_rules" "list_all keyable ex_domain_rules"
   apply (simp add: clean_rules_def ex_domain_rules_def ex_rule_matchers domain_ok_def)
  apply (simp add: ex_domain_rules_def custom_domain_def)
  done

lemma ex_factory: "factory_ok ex_env (CompactFactory [])" "range_order (de_ord ex_env)"
  using newDomainMatcherFactory_ok [of ex_env "''ios''"] range_order_id
  by (simp_all add: newDomainMatcherFactory_def ex_env_def)

lemma ex_no_upper: "no_upper ''a.b.c''" "no_upper ''ax''"
  by (simp_all add: no_upper_def is_upper_def less_eq_char_def)

lemma ex_accept: "domain_rules_accept ex_env ex_domain_rules ''a.b.c''" "\<not> domain_rules_accept ex_env ex_domain_rules ''ax''"
  by (auto simp: domain_rules_accept_def ex_domain_rules_def ex_rule_matchers domain_match_def HasSuffix_def suffix_def Cons_eq_append_conv)

lemma ex_domain_build: "\<exists>m f'. BuildMatcher ex_env (CompactFactory []) ex_domain_rules = Some (Inr m, f')"
  by (simp add: Compact_BuildMatcher_def ex_domain_rules_def ex_parse_domain ex_load getOrCreateFrom_def)

theorem domain_build_exact_witness:
  "\<exists>m f'. BuildMatcher ex_env (CompactFactory []) ex_domain_rules = Some (Inr m, f') \<and> factory_ok ex_env f' \<and>
     dm_MatchAny ex_env m ''a.b.c'' \<and> \<not> dm_MatchAny ex_env m ''ax''"
proof -
  obtain m f' where b: "BuildMatcher ex_env (CompactFactory []) ex_domain_rules = Some (Inr m, f')"
    using ex_domain_build by blast
  note e = domain_build_exact [OF ex_factory(1) ex_clean(2,1) ex_factory(2) b]
  show ?thesis using b e [OF ex_no_upper(1)] e [OF ex_no_upper(2)] ex_accept by blast
qed

text \<open>C20. A reload that fails leaves the registry as it was; one that succeeds keeps the rules of every
  matcher and gives each a matcher that accepts a domain without upper-case letters exactly when one of its
  rules means it under the new data, with a faithful cache. The rules have readable cache keys
  (\<open>keyable\<close>: a known type, no attribute and no comma or at sign in a custom rule; no separator of the keys in the
  file, code and attributes of a geosite rule) and no pattern of a shape the tables treat apart
  (\<open>clean_rules\<close>: at most 65536 rules and fewer than \<open>2 ^ 29\<close> patterns, full and domain patterns without a leading
  dot, substrings that are not empty).\<close>

theorem domain_reload_all_or_nothing:
  assumes "DomainRegistryReload env goos reg = Some (err, reg')" "range_order (de_ord env)"
    "\<forall>d \<in> set (dr_matchers reg). list_all keyable (dd_rules d) \<and> clean_rules env (dd_rules d)"
  shows "(err \<noteq> None \<longrightarrow> reg' = reg) \<and>
    (err = None \<longrightarrow> factory_ok env (dr_factory reg') \<and> map dd_rules (dr_matchers reg') = map dd_rules (dr_matchers reg) \<and>
       (\<forall>d \<in> set (dr_matchers reg'). \<forall>s. no_upper s \<longrightarrow> (dd_MatchAny env d s \<longleftrightarrow> domain_rules_accept env (dd_rules d) s)))"
proof (cases err)
  case None
  then obtain f ms where b: "rebuild_domains env (newDomainMatcherFactory goos) (dr_matchers reg) = Some (Inr (f, ms))"
    and r: "reg' = reg\<lparr>dr_factory := f, dr_matchers := map2 dd_Reload (dr_matchers reg) ms\<rparr>"
    using assms(1) by (auto simp: DomainRegistryReload_def split: option.splits sum.splits)
  from rebuild_domains_built [OF b] assms(3)
  have f: "factory_ok env f" and l: "list_all2 (\<lambda>d m. matcher_built env (dd_rules d) m) (dr_matchers reg) ms" by auto
  have "map dd_rules (map2 dd_Reload (dr_matchers reg) ms) = map dd_rules (dr_matchers reg)"
    using l by (induction rule: list_all2_induct) (simp_all add: dd_Reload_def)
  moreover have "dd_MatchAny env d s \<longleftrightarrow> domain_rules_accept env (dd_rules d) s"
    if d: "d \<in> set (map2 dd_Reload (dr_matchers reg) ms)" and s: "no_upper s" for d s
  proof -
    from d obtain d0 m where "(d0, m) \<in> set (zip (dr_matchers reg) ms)" and e: "d = dd_Reload d0 m" by auto
    then have "matcher_built env (dd_rules d0) m" "d0 \<in> set (dr_matchers reg)"
      using l by (auto simp: list_all2_iff dest: set_zip_leftD)
    then show ?thesis using matcher_built_exact [OF _ _ assms(2) s] assms(3) e by (simp add: dd_MatchAny_def dd_Reload_def)
  qed
  ultimately show ?thesis using None f r by simp
next
  case (Some e)
  then show ?thesis using assms(1) by (auto simp: DomainRegistryReload_def split: option.splits sum.splits)
qed

theorem domain_reload_all_or_nothing_witness:
  "\<exists>m reg'. DomainRegistryReload ex_env ''ios'' \<lparr>dr_factory = MphFactory [], dr_matchers = [\<lparr>dd_rules = ex_domain_rules, dd_matcher = m\<rparr>]\<rparr>
     = Some (None, reg') \<and> (\<forall>d \<in> set (dr_matchers reg'). dd_MatchAny ex_env d ''a.b.c'')"
proof -
  let ?d = "\<lparr>dd_rules = ex_domain_rules, dd_matcher = CompactMatcher \<lparr>cd_custom = None, cd_matchers = [], cd_values = []\<rparr>\<rparr>"
  let ?reg = "\<lparr>dr_factory = MphFactory [], dr_matchers = [?d]\<rparr>"
  obtain m f' where b: "BuildMatcher ex_env (CompactFactory []) ex_domain_rules = Some (Inr m, f')"
    using ex_domain_build by blast
  then obtain reg' where r: "DomainRegistryReload ex_env ''ios'' ?reg = Some (None, reg')"
    by (simp add: DomainRegistryReload_def newDomainMatcherFactory_def del: BuildMatcher.simps)
  have k: "\<forall>d \<in> set (dr_matchers ?reg). list_all keyable (dd_rules d) \<and> clean_rules ex_env (dd_rules d)"
    using ex_clean by simp
  from domain_reload_all_or_nothing [OF r ex_factory(2) k]
  have e: "map dd_rules (dr_matchers reg') = [ex_domain_rules]"
    "\<forall>d \<in> set (dr_matchers reg'). dd_MatchAny ex_env d ''a.b.c'' \<longleftrightarrow> domain_rules_accept ex_env (dd_rules d) ''a.b.c''"
    using ex_no_upper(1) by simp_all
  have "dd_rules d = ex_domain_rules" if "d \<in> set (dr_matchers reg')" for d
    using e(1) that by (metis in_set_conv_nth length_map nth_map list.size(3,4) less_one nth_Cons_0 One_nat_def add_0)
  with e(2) r ex_accept(1) show ?thesis by (intro exI [of _ "dd_matcher ?d"] exI [of _ reg']) simp
qed

definition key_rules1 :: "DomainRule list" where
  "key_rules1 = [DomainRule_Custom (custom_domain 1 ''a,Full:b''), DomainRule_Geosite \<lparr>gs_file = ''f'', gs_code = ''T'', gs_attrs = ''''\<rparr>]"

definition key_rules2 :: "DomainRule list" where
  "key_rules2 = [DomainRule_Custom (custom_domain 1 ''a''), DomainRule_Custom (custom_domain 3 ''b''),
     DomainRule_Geosite \<lparr>gs_file = ''f'', gs_code = ''T'', gs_attrs = ''''\<rparr>]"

text \<open>The cache key of a rule list is not injective: with a comma in a regular expression two lists
  share a key, and the factory then answers the second with the matcher cached for the first.\<close>

theorem domain_key_collision:
  "buildDomainRulesKey key_rules1 = buildDomainRulesKey key_rules2 \<and> key_rules1 \<noteq> key_rules2 \<and>
   Mph_BuildMatcher env (al_put (buildDomainRulesKey key_rules1) g c) key_rules2 =
     Some (Inr g, al_put (buildDomainRulesKey key_rules1) g c)"
proof -
  have k: "buildDomainRulesKey key_rules1 = buildDomainRulesKey key_rules2" "buildDomainRulesKey key_rules2 \<noteq> []"
    by (simp_all add: buildDomainRulesKey_def key_rules1_def key_rules2_def is_geosite_def custom_domain_def)
  have n: "key_rules2 \<noteq> []" "key_rules1 \<noteq> key_rules2" by (simp_all add: key_rules1_def key_rules2_def)
  show ?thesis using n k(2) by (simp add: k(1) Mph_BuildMatcher_def Let_def al_simps)
qed

end
