(* ===== verification/OutboundManager.thy ===== *)
theory OutboundManager
  imports GoStrings "HOL-Library.Monad_Syntax"
begin

text \<open>
  \<open>app/outbound/manager.go\<close> and the handlers of \<open>app/outbound/config.go\<close>: the table of outbounds by
  tag, in the order of registration. Handlers are shared objects, so the table holds references into
  a store. A handler that a caller registers, a dialer, and closing either of them come from outside.
\<close>

section \<open>Descriptors\<close>

datatype Mode = ModeFreedom | ModeBlackhole | ModeProxy | ModeWireGuard

definition Mode_String :: "Mode \<Rightarrow> string" where
  "Mode_String m =
     (case m of ModeFreedom \<Rightarrow> ''freedom'' | ModeBlackhole \<Rightarrow> ''blackhole'' | ModeProxy \<Rightarrow> ''proxy''
      | ModeWireGuard \<Rightarrow> ''wireguard'')"

definition Trim_char :: "char \<Rightarrow> string \<Rightarrow> string" where
  "Trim_char c s = rev (dropWhile (\<lambda>x. x = c) (rev (dropWhile (\<lambda>x. x = c) s)))"

datatype outbound_error =
    UnknownMode string | NilHandler | EmptyHandlerTag | ManagerClosed | OutboundNotFound string | CloseFailed string

definition Mode_UnmarshalJSON :: "string \<Rightarrow> outbound_error + Mode" where
  "Mode_UnmarshalJSON data =
     (if TrimSpace data = ''null'' then Inr ModeFreedom
      else
        let s = Trim_char CHR '' '' (Trim_char (CHR 0x22) data); l = ToLower s
        in if l \<in> {'''', ''freedom'', ''direct''} then Inr ModeFreedom
           else if l \<in> {''blackhole'', ''block''} then Inr ModeBlackhole
           else if l = ''proxy'' then Inr ModeProxy
           else if l \<in> {''wireguard'', ''wg''} then Inr ModeWireGuard
           else Inl (UnknownMode s))"

definition Mode_MarshalJSON :: "Mode \<Rightarrow> string" where
  "Mode_MarshalJSON m = [CHR 0x22] @ Mode_String m @ [CHR 0x22]"

record OutboundDesc =
  od_Tag :: string
  od_Mode :: Mode

section \<open>Handlers\<close>

text \<open>A registered handler of a caller: its tag, which object it is, and its dialer, if it is one.\<close>

record ext_handler =
  ext_tag :: string
  ext_id :: nat
  ext_dialer :: "nat option"

record handler =
  h_ob :: OutboundDesc
  h_external :: "ext_handler option"
  h_dialer :: "nat option"
  h_closed :: bool

text \<open>The outside: the dialer made from a descriptor, and what closing a dialer or a registered handler
  returns. A dialer that cannot be closed returns no error.\<close>

record outbound_env =
  oe_factory :: "OutboundDesc \<Rightarrow> nat option"
  oe_close_dialer :: "nat \<Rightarrow> outbound_error option"
  oe_close_external :: "nat \<Rightarrow> outbound_error option"

record Manager =
  m_handlers :: "(string, nat) go_map"
  m_order :: "string list"
  m_duplicateTags :: "string list"
  m_configErrors :: "string list"
  m_closed :: bool
  m_closedOnce :: bool
  m_closeErr :: "outbound_error option"
  m_store :: "handler list"

definition handler_Close :: "outbound_env \<Rightarrow> handler \<Rightarrow> outbound_error option \<times> handler" where
  "handler_Close env h =
     (case h_external h of
        Some x \<Rightarrow> (oe_close_external env (ext_id x), h)
      | None \<Rightarrow>
          (case h_dialer h of None \<Rightarrow> None | Some d \<Rightarrow> oe_close_dialer env d, h\<lparr>h_closed := True\<rparr>))"

definition close_at :: "outbound_env \<Rightarrow> nat \<Rightarrow> Manager \<Rightarrow> outbound_error option \<times> Manager" where
  "close_at env i m =
     (if i < length (m_store m) then
        (case handler_Close env (m_store m ! i) of (e, h) \<Rightarrow> (e, m\<lparr>m_store := (m_store m)[i := h]\<rparr>))
      else (None, m))"

definition getDialer_at :: "outbound_env \<Rightarrow> nat \<Rightarrow> Manager \<Rightarrow> nat option \<times> Manager" where
  "getDialer_at env i m =
     (if i < length (m_store m) then
        let h = m_store m ! i
        in if h_closed h then (None, m)
           else (case h_dialer h of
                   Some d \<Rightarrow> (Some d, m)
                 | None \<Rightarrow>
                     let d = oe_factory env (h_ob h)
                     in (d, m\<lparr>m_store := (m_store m)[i := h\<lparr>h_dialer := d\<rparr>]\<rparr>))
      else (None, m))"

section \<open>Operations\<close>

definition empty_manager :: Manager where
  "empty_manager = \<lparr>m_handlers = [], m_order = [], m_duplicateTags = [], m_configErrors = [], m_closed = False,
     m_closedOnce = False, m_closeErr = None, m_store = []\<rparr>"

definition Manager_Add :: "outbound_env \<Rightarrow> OutboundDesc option \<Rightarrow> Manager \<Rightarrow> Manager" where
  "Manager_Add env ob0 m =
     (case ob0 of
        None \<Rightarrow> m
      | Some ob \<Rightarrow>
          if od_Tag ob = [] \<or> m_closed m then m
          else
            let tag = od_Tag ob; old = al_get (m_handlers m) tag;
                m1 = (if old = None then m\<lparr>m_order := m_order m @ [tag]\<rparr>
                      else m\<lparr>m_duplicateTags := List.insert tag (m_duplicateTags m)\<rparr>);
                h = \<lparr>h_ob = ob, h_external = None, h_dialer = None, h_closed = False\<rparr>;
                m2 = m1\<lparr>m_handlers := al_put tag (length (m_store m)) (m_handlers m), m_store := m_store m @ [h]\<rparr>
            in case old of None \<Rightarrow> m2 | Some i \<Rightarrow> snd (close_at env i m2))"

fun NewManager_loop :: "outbound_env \<Rightarrow> nat \<Rightarrow> OutboundDesc option list \<Rightarrow> Manager \<Rightarrow> Manager" where
  "NewManager_loop env i [] m = m"
| "NewManager_loop env i (ob0 # obs) m =
     NewManager_loop env (Suc i) obs
       (case ob0 of
          None \<Rightarrow> m\<lparr>m_configErrors := m_configErrors m @ [''outbound['' @ nat_digits i @ ''] is null'']\<rparr>
        | Some ob \<Rightarrow>
            if TrimSpace (od_Tag ob) = [] then
              m\<lparr>m_configErrors := m_configErrors m @ [''outbound['' @ nat_digits i @ ''] has empty tag'']\<rparr>
            else Manager_Add env (Some ob) m)"

definition NewManager :: "outbound_env \<Rightarrow> OutboundDesc option list option \<Rightarrow> Manager" where
  "NewManager env cfg = (case cfg of None \<Rightarrow> empty_manager | Some obs \<Rightarrow> NewManager_loop env 0 obs empty_manager)"

text \<open>The handler a lookup returns: the one of the caller, or the wrapped descriptor.\<close>

datatype found_handler = External ext_handler | Internal nat

definition found_at :: "Manager \<Rightarrow> nat \<Rightarrow> found_handler" where
  "found_at m i = (case h_external (m_store m ! i) of Some x \<Rightarrow> External x | None \<Rightarrow> Internal i)"

definition GetHandler :: "Manager \<Rightarrow> string \<Rightarrow> found_handler option" where
  "GetHandler m tag =
     (if m_closed m then None
      else case al_get (m_handlers m) tag of None \<Rightarrow> None | Some i \<Rightarrow> Some (found_at m i))"

text \<open>\<open>GetDefaultHandler\<close> follows the first tag of the order; a tag that is not in the map would be a nil
  handler, and using it a panic.\<close>

definition GetDefaultHandler :: "Manager \<Rightarrow> found_handler option option" where
  "GetDefaultHandler m =
     (if m_closed m \<or> m_order m = [] then Some None
      else case al_get (m_handlers m) (m_order m ! 0) of None \<Rightarrow> None | Some i \<Rightarrow> Some (Some (found_at m i)))"

definition matchSelector :: "string \<Rightarrow> string \<Rightarrow> bool" where
  "matchSelector tag selector =
     (if selector = [] then False else if tag = selector then True else HasPrefix tag selector)"

fun Select_loop :: "string list \<Rightarrow> string list \<Rightarrow> string list \<Rightarrow> string list" where
  "Select_loop selectors seen [] = []"
| "Select_loop selectors seen (tag # tags) =
     (if tag \<in> set seen then Select_loop selectors seen tags
      else if list_ex (matchSelector tag) selectors then tag # Select_loop selectors (tag # seen) tags
      else Select_loop selectors seen tags)"

definition Select :: "Manager \<Rightarrow> string list \<Rightarrow> string list" where
  "Select m selectors = (if selectors = [] then m_order m else Select_loop selectors [] (m_order m))"

fun close_all :: "outbound_env \<Rightarrow> nat list \<Rightarrow> Manager \<Rightarrow> Manager" where
  "close_all env [] m = m"
| "close_all env (i # is) m =
     (case close_at env i m of
        (e, m') \<Rightarrow> close_all env is (if e \<noteq> None \<and> m_closeErr m' = None then m'\<lparr>m_closeErr := e\<rparr> else m'))"

text \<open>\<open>Close\<close> runs its body once; the handlers are visited in some order of the map.\<close>

definition Manager_Close :: "outbound_env \<Rightarrow> (nat list \<Rightarrow> nat list) \<Rightarrow> Manager \<Rightarrow> outbound_error option \<times> Manager" where
  "Manager_Close env ord m =
     (let m' = (if m_closedOnce m then m
                else close_all env (ord (map snd (m_handlers m))) (m\<lparr>m_closed := True, m_closedOnce := True\<rparr>))
      in (m_closeErr m', m'))"

definition AddHandler :: "outbound_env \<Rightarrow> ext_handler option \<Rightarrow> Manager \<Rightarrow> outbound_error option \<times> Manager" where
  "AddHandler env h0 m =
     (case h0 of
        None \<Rightarrow> (Some NilHandler, m)
      | Some x \<Rightarrow>
          if TrimSpace (ext_tag x) = [] then (Some EmptyHandlerTag, m)
          else if m_closed m then (Some ManagerClosed, m)
          else
            let tag = ext_tag x; old = al_get (m_handlers m) tag;
                m1 = (if old = None then m\<lparr>m_order := m_order m @ [tag]\<rparr> else m);
                h = \<lparr>h_ob = \<lparr>od_Tag = tag, od_Mode = ModeFreedom\<rparr>, h_external = Some x, h_dialer = ext_dialer x, h_closed = False\<rparr>;
                m2 = m1\<lparr>m_handlers := al_put tag (length (m_store m)) (m_handlers m), m_store := m_store m @ [h]\<rparr>
            in case old of None \<Rightarrow> (None, m2) | Some i \<Rightarrow> close_at env i m2)"

fun remove_first :: "string \<Rightarrow> string list \<Rightarrow> string list" where
  "remove_first tag [] = []"
| "remove_first tag (t # ts) = (if t = tag then ts else t # remove_first tag ts)"

definition RemoveHandler :: "outbound_env \<Rightarrow> string \<Rightarrow> Manager \<Rightarrow> outbound_error option \<times> Manager" where
  "RemoveHandler env tag m =
     (if m_closed m then (Some ManagerClosed, m)
      else case al_get (m_handlers m) tag of
             None \<Rightarrow> (Some (OutboundNotFound tag), m)
           | Some i \<Rightarrow>
               close_at env i (m\<lparr>m_handlers := al_del tag (m_handlers m), m_order := remove_first tag (m_order m)\<rparr>))"

definition GetDialer :: "outbound_env \<Rightarrow> string \<Rightarrow> Manager \<Rightarrow> nat option \<times> Manager" where
  "GetDialer env tag m =
     (if m_closed m then (None, m)
      else case al_get (m_handlers m) tag of None \<Rightarrow> (None, m) | Some i \<Rightarrow> getDialer_at env i m)"

definition GetDefaultDialer :: "outbound_env \<Rightarrow> Manager \<Rightarrow> (nat option \<times> Manager) option" where
  "GetDefaultDialer env m =
     (if m_closed m \<or> m_order m = [] then Some (None, m)
      else map_option (\<lambda>i. getDialer_at env i m) (al_get (m_handlers m) (m_order m ! 0)))"

definition GetOutbound :: "Manager \<Rightarrow> string \<Rightarrow> OutboundDesc option" where
  "GetOutbound m tag = map_option (\<lambda>i. h_ob (m_store m ! i)) (al_get (m_handlers m) tag)"

definition Manager_List :: "Manager \<Rightarrow> OutboundDesc list" where
  "Manager_List m = List.map_filter (GetOutbound m) (m_order m)"

section \<open>Steps\<close>

text \<open>The operations that change a manager, as steps; a history of a manager is a path of them from
  \<open>NewManager\<close>.\<close>

inductive manager_step :: "outbound_env \<Rightarrow> Manager \<Rightarrow> Manager \<Rightarrow> bool" for env where
  add: "manager_step env m (Manager_Add env ob m)"
| add_handler: "manager_step env m (snd (AddHandler env h m))"
| remove: "manager_step env m (snd (RemoveHandler env tag m))"
| dial: "manager_step env m (snd (GetDialer env tag m))"
| dial_default: "GetDefaultDialer env m = Some (d, m') \<Longrightarrow> manager_step env m m'"
| close: "range_order ord \<Longrightarrow> manager_step env m (snd (Manager_Close env ord m))"

inductive_cases manager_stepE: "manager_step env m m'"

inductive manager_reachable :: "outbound_env \<Rightarrow> Manager \<Rightarrow> bool" for env where
  init: "manager_reachable env (NewManager env cfg)"
| step: "manager_reachable env m \<Longrightarrow> manager_step env m m' \<Longrightarrow> manager_reachable env m'"

end
