(* ===== verification/OutboundProofs.thy ===== *)
theory OutboundProofs
  imports OutboundManager
begin

text \<open>
  The invariant of the outbound manager: order and table hold the same tags, every tag leads to a
  handler of its own with that tag, and a handler made from a descriptor is closed exactly when it has
  left the table or the manager was closed. Every step keeps it, so it holds in every history.
\<close>

section \<open>Invariant\<close>

definition refs :: "Manager \<Rightarrow> nat set" where
  "refs m = snd ` set (m_handlers m)"

definition table_ok :: "Manager \<Rightarrow> bool" where
  "table_ok m \<longleftrightarrow> distinct (m_order m) \<and> al_ok (m_handlers m) \<and> set (m_order m) = fst ` set (m_handlers m) \<and>
     distinct (map snd (m_handlers m)) \<and> (m_closedOnce m \<longleftrightarrow> m_closed m)"

definition refs_ok :: "Manager \<Rightarrow> bool" where
  "refs_ok m \<longleftrightarrow> (\<forall>(tag, i) \<in> set (m_handlers m). tag \<noteq> [] \<and> i < length (m_store m) \<and> od_Tag (h_ob (m_store m ! i)) = tag)"

text \<open>The handlers that are closed, but for those still to be closed.\<close>

definition closed_but :: "nat set \<Rightarrow> Manager \<Rightarrow> bool" where
  "closed_but X m \<longleftrightarrow> (\<forall>i < length (m_store m). h_external (m_store m ! i) = None \<longrightarrow>
     (h_closed (m_store m ! i) \<longleftrightarrow> (i \<notin> refs m \<or> m_closed m) \<and> i \<notin> X))"

definition manager_inv :: "Manager \<Rightarrow> bool" where
  "manager_inv m \<longleftrightarrow> table_ok m \<and> refs_ok m \<and> closed_but {} m"

lemma ref_unique:
  assumes "table_ok m" "(t, j) \<in> set (m_handlers m)" "(t', j') \<in> set (m_handlers m)"
  shows "t = t' \<longleftrightarrow> j = j'"
  using assms by (auto simp: table_ok_def distinct_map dest: inj_onD [where x = "(t, j)" and y = "(t', j')"])

lemma close_at_store:
  "m_store (snd (close_at env i m)) = (if i < length (m_store m) then (m_store m)[i := snd (handler_Close env (m_store m ! i))] else m_store m)"
  "snd (close_at env i m) = m\<lparr>m_store := m_store (snd (close_at env i m))\<rparr>"
  by (simp_all add: close_at_def split: prod.splits)

lemma handler_Close_fields [simp]:
  "h_ob (snd (handler_Close env h)) = h_ob h" "h_external (snd (handler_Close env h)) = h_external h"
  "h_external h = None \<Longrightarrow> h_closed (snd (handler_Close env h))"
  by (simp_all add: handler_Close_def split: option.splits)

lemma store_update_ok:
  assumes "length s = length (m_store m)" "\<And>i. i < length s \<Longrightarrow> h_ob (s ! i) = h_ob (m_store m ! i)"
  shows "table_ok (m\<lparr>m_store := s\<rparr>) = table_ok m" "refs_ok (m\<lparr>m_store := s\<rparr>) = refs_ok m"
  using assms by (auto simp: table_ok_def refs_ok_def)

lemma close_at_ok:
  assumes "closed_but X m" "i \<notin> refs m \<or> m_closed m"
  shows "closed_but (X - {i}) (snd (close_at env i m))" "table_ok (snd (close_at env i m)) = table_ok m"
    "refs_ok (snd (close_at env i m)) = refs_ok m" "refs (snd (close_at env i m)) = refs m"
    "m_closed (snd (close_at env i m)) = m_closed m"
proof -
  let ?s = "m_store (snd (close_at env i m))"
  note e = close_at_store(2) [of env i m]
  have s: "length ?s = length (m_store m)" "\<And>j. j < length ?s \<Longrightarrow> h_ob (?s ! j) = h_ob (m_store m ! j)"
    by (auto simp: close_at_store(1) nth_list_update)
  show "table_ok (snd (close_at env i m)) = table_ok m" "refs_ok (snd (close_at env i m)) = refs_ok m"
    by (subst e, rule store_update_ok [OF s], assumption)+
  show r: "refs (snd (close_at env i m)) = refs m" "m_closed (snd (close_at env i m)) = m_closed m"
    by (subst e, simp add: refs_def)+
  show "closed_but (X - {i}) (snd (close_at env i m))"
    using assms unfolding closed_but_def r by (auto simp: close_at_store(1) nth_list_update)
qed

lemma getDialer_at_ok: "manager_inv m \<Longrightarrow> manager_inv (snd (getDialer_at env i m))"
proof -
  assume m: "manager_inv m"
  define s where "s = m_store (snd (getDialer_at env i m))"
  have e: "snd (getDialer_at env i m) = m\<lparr>m_store := s\<rparr>"
    by (auto simp: s_def getDialer_at_def Let_def split: option.splits)
  have s: "length s = length (m_store m)"
    "\<And>j. j < length s \<Longrightarrow> h_ob (s ! j) = h_ob (m_store m ! j) \<and> h_external (s ! j) = h_external (m_store m ! j) \<and> h_closed (s ! j) = h_closed (m_store m ! j)"
    by (auto simp: s_def getDialer_at_def Let_def nth_list_update split: option.splits)
  then show ?thesis using m store_update_ok [of s m] unfolding e manager_inv_def
    by (simp add: closed_but_def refs_def)
qed

text \<open>Registering a handler under a tag, with the old one still open.\<close>

definition register :: "string \<Rightarrow> handler \<Rightarrow> Manager \<Rightarrow> Manager" where
  "register tag h m = m\<lparr>m_order := (if al_get (m_handlers m) tag = None then m_order m @ [tag] else m_order m),
     m_handlers := al_put tag (length (m_store m)) (m_handlers m), m_store := m_store m @ [h]\<rparr>"

lemma in_al_put: "al_ok m \<Longrightarrow> (k', v') \<in> set (al_put k v m) \<longleftrightarrow> (if k' = k then v' = v else (k', v') \<in> set m)"
proof -
  assume m: "al_ok m"
  then have "al_ok (al_put k v m)" by (simp add: al_ok_put)
  from map_of_eq_Some_iff [OF this, of k' v'] map_of_eq_Some_iff [OF m, of k' v'] show ?thesis
    by (auto simp: al_get_put split: if_splits)
qed

lemma al_put_vals: "snd ` set (al_put k v m) \<subseteq> insert v (snd ` set m)"
  by (induction k v m rule: al_put.induct) auto

lemma distinct_al_put: "distinct (map snd m) \<Longrightarrow> v \<notin> snd ` set m \<Longrightarrow> distinct (map snd (al_put k v m))"
proof (induction k v m rule: al_put.induct)
  case (2 k v k' v' m)
  then show ?case using al_put_vals [of k v m] by auto
qed simp

lemma register_refs:
  assumes "al_ok (m_handlers m)" "distinct (map snd (m_handlers m))"
  shows "refs (register tag h m) = insert (length (m_store m)) (refs m - {i. al_get (m_handlers m) tag = Some i})"
proof -
  have "j \<in> refs (register tag h m) \<longleftrightarrow> (\<exists>t. (t, j) \<in> set (al_put tag (length (m_store m)) (m_handlers m)))" for j
    by (force simp: refs_def register_def)
  moreover have "(t, j) \<in> set (m_handlers m) \<Longrightarrow> (tag, j) \<in> set (m_handlers m) \<Longrightarrow> t = tag" for t j
    using assms(2) by (auto simp: distinct_map dest!: inj_onD [where x = "(t, j)" and y = "(tag, j)"])
  moreover have "j \<in> refs m \<longleftrightarrow> (\<exists>t. (t, j) \<in> set (m_handlers m))" for j by (force simp: refs_def)
  moreover have "al_get (m_handlers m) tag = Some j \<longleftrightarrow> (tag, j) \<in> set (m_handlers m)" for j
    using assms(1) by simp
  ultimately show ?thesis using in_al_put [OF assms(1)] by (intro set_eqI) (simp, metis)
qed

lemma register_ok:
  assumes m: "manager_inv m" and h: "tag \<noteq> []" "od_Tag (h_ob h) = tag" "\<not> h_closed h" and o: "\<not> m_closed m"
  shows "table_ok (register tag h m)" "refs_ok (register tag h m)"
    "closed_but {i. al_get (m_handlers m) tag = Some i} (register tag h m)"
proof -
  have t: "table_ok m" "refs_ok m" "closed_but {} m" using m by (simp_all add: manager_inv_def)
  then have fresh: "length (m_store m) \<notin> snd ` set (m_handlers m)" by (force simp: refs_ok_def)
  show "table_ok (register tag h m)"
    using t fresh distinct_al_put [of "m_handlers m" "length (m_store m)" tag]
    by (auto simp: table_ok_def register_def al_simps map_of_eq_None_iff set_keys_put)
  show "refs_ok (register tag h m)"
    using t h by (auto simp: refs_ok_def register_def in_al_put table_ok_def nth_append split: if_splits)
  have ok: "al_ok (m_handlers m)" "distinct (map snd (m_handlers m))" using t by (simp_all add: table_ok_def)
  have c: "m_closed (register tag h m) = m_closed m" "m_store (register tag h m) = m_store m @ [h]" by (simp_all add: register_def)
  have "i \<in> refs m" if "al_get (m_handlers m) tag = Some i" for i using that by (force simp: refs_def dest: map_of_SomeD)
  then show "closed_but {i. al_get (m_handlers m) tag = Some i} (register tag h m)"
    using t(3) h(3) o fresh unfolding closed_but_def c register_refs [OF ok]
    by (auto simp: nth_append refs_def)
qed

section \<open>Steps keep the invariant\<close>

text \<open>Replacing the handler of a tag: register the new one, then close the old one.\<close>

lemma replace_ok:
  assumes "manager_inv m" "tag \<noteq> []" "od_Tag (h_ob h) = tag" "\<not> h_closed h" "\<not> m_closed m"
  shows "al_get (m_handlers m) tag = None \<Longrightarrow> manager_inv (register tag h m)"
    and "al_get (m_handlers m) tag = Some i \<Longrightarrow> manager_inv (snd (close_at env i (register tag h m)))"
proof -
  note r = register_ok [OF assms]
  show "al_get (m_handlers m) tag = None \<Longrightarrow> manager_inv (register tag h m)" using r by (simp add: manager_inv_def)
  assume i: "al_get (m_handlers m) tag = Some i"
  have t: "table_ok m" "refs_ok m" using assms(1) by (simp_all add: manager_inv_def)
  then have "i < length (m_store m)" using map_of_SomeD [OF i] by (force simp: refs_ok_def)
  then have "i \<notin> refs (register tag h m)" using t(1) i by (subst register_refs) (simp_all add: table_ok_def)
  with r(3) i have "closed_but {i} (register tag h m)" "i \<notin> refs (register tag h m) \<or> m_closed (register tag h m)" by simp_all
  from close_at_ok [OF this, of env] r(1,2) show "manager_inv (snd (close_at env i (register tag h m)))"
    by (simp add: manager_inv_def)
qed

lemma manager_inv_unused:
  "manager_inv (m\<lparr>m_duplicateTags := d\<rparr>) = manager_inv m" "manager_inv (m\<lparr>m_configErrors := c\<rparr>) = manager_inv m"
  by (simp_all add: manager_inv_def table_ok_def refs_ok_def closed_but_def refs_def)

lemma Manager_Add_ok: "manager_inv m \<Longrightarrow> manager_inv (Manager_Add env ob m)"
proof (cases ob)
  case (Some b)
  assume m: "manager_inv m"
  let ?h = "\<lparr>h_ob = b, h_external = None, h_dialer = None, h_closed = False\<rparr>"
  show ?thesis
  proof (cases "od_Tag b = [] \<or> m_closed m")
    case False
    then have ok: "od_Tag b \<noteq> []" "od_Tag (h_ob ?h) = od_Tag b" "\<not> h_closed ?h" "\<not> m_closed m" by simp_all
    show ?thesis
    proof (cases "al_get (m_handlers m) (od_Tag b)")
      case None
      then have "Manager_Add env ob m = register (od_Tag b) ?h m" using False by (simp add: Manager_Add_def Some register_def Let_def)
      then show ?thesis using replace_ok(1) [OF m ok None] by simp
    next
      case i: (Some i)
      let ?m = "m\<lparr>m_duplicateTags := List.insert (od_Tag b) (m_duplicateTags m)\<rparr>"
      have "Manager_Add env ob m = snd (close_at env i (register (od_Tag b) ?h ?m))"
        using False i by (simp add: Manager_Add_def Some register_def Let_def)
      moreover have "manager_inv ?m" using m by (simp add: manager_inv_unused)
      ultimately show ?thesis using replace_ok(2) [of ?m "od_Tag b" ?h i env] ok i by simp
    qed
  qed (use m Some in \<open>simp add: Manager_Add_def\<close>)
qed (simp add: Manager_Add_def)

lemma AddHandler_ok: "manager_inv m \<Longrightarrow> manager_inv (snd (AddHandler env x m))"
proof (cases x)
  case (Some y)
  assume m: "manager_inv m"
  let ?h = "\<lparr>h_ob = \<lparr>od_Tag = ext_tag y, od_Mode = ModeFreedom\<rparr>, h_external = Some y, h_dialer = ext_dialer y, h_closed = False\<rparr>"
  show ?thesis
  proof (cases "TrimSpace (ext_tag y) = [] \<or> m_closed m")
    case False
    have "ext_tag y \<noteq> []" using False by (auto simp: TrimSpace_def)
    then have ok: "ext_tag y \<noteq> []" "od_Tag (h_ob ?h) = ext_tag y" "\<not> h_closed ?h" "\<not> m_closed m" using False by simp_all
    have "snd (AddHandler env x m) = (case al_get (m_handlers m) (ext_tag y) of None \<Rightarrow> register (ext_tag y) ?h m
        | Some i \<Rightarrow> snd (close_at env i (register (ext_tag y) ?h m)))"
      using False by (simp add: AddHandler_def Some register_def Let_def split: option.splits)
    then show ?thesis using replace_ok [OF m ok] by (simp split: option.splits)
  qed (use m Some in \<open>auto simp: AddHandler_def\<close>)
qed (simp add: AddHandler_def)

lemma set_remove_first: "distinct ts \<Longrightarrow> set (remove_first t ts) = set ts - {t} \<and> distinct (remove_first t ts)"
  by (induction ts) auto

lemma RemoveHandler_ok: "manager_inv m \<Longrightarrow> manager_inv (snd (RemoveHandler env tag m))"
proof (cases "m_closed m \<or> al_get (m_handlers m) tag = None")
  case False
  assume m: "manager_inv m"
  then have t: "table_ok m" "refs_ok m" "closed_but {} m" by (simp_all add: manager_inv_def)
  from False obtain i where i: "al_get (m_handlers m) tag = Some i" and o: "\<not> m_closed m" by auto
  let ?m = "m\<lparr>m_handlers := al_del tag (m_handlers m), m_order := remove_first tag (m_order m)\<rparr>"
  have sub: "set (al_del tag (m_handlers m)) \<subseteq> set (m_handlers m)" by (auto simp: al_del_def)
  have tab: "table_ok ?m"
    using t(1) set_remove_first [of "m_order m" tag] distinct_map_filter [of snd "m_handlers m"] distinct_map_filter [of fst "m_handlers m"]
    by (auto simp: table_ok_def al_simps al_del_def)
  have ref: "refs_ok ?m" using t(2) sub by (auto simp: refs_ok_def)
  have "(t, j) \<in> set (m_handlers m) \<Longrightarrow> (t = tag) = (j = i)" for t j
    using ref_unique [OF t(1) _ map_of_SomeD [OF i]] .
  then have r: "refs ?m = refs m - {i}" by (force simp: refs_def al_del_def)
  have "i \<in> refs m" using map_of_SomeD [OF i] by (force simp: refs_def)
  then have "closed_but {i} ?m" using t(3) o by (auto simp: closed_but_def r)
  from close_at_ok [OF this, of i env] tab ref show ?thesis
    using False i r by (simp add: RemoveHandler_def manager_inv_def)
qed (auto simp: RemoveHandler_def)

lemma close_all_ok:
  assumes "closed_but X m" "m_closed m" "table_ok m" "refs_ok m"
  shows "closed_but (X - set is) (close_all env is m) \<and> table_ok (close_all env is m) \<and> refs_ok (close_all env is m)"
  using assms
proof (induction env "is" m arbitrary: X rule: close_all.induct)
  case (2 env i js m)
  obtain e m' where m': "close_at env i m = (e, m')" by fastforce
  define m2 where "m2 = (if e \<noteq> None \<and> m_closeErr m' = None then m'\<lparr>m_closeErr := e\<rparr> else m')"
  have "closed_but (X - {i}) m' \<and> table_ok m' \<and> refs_ok m' \<and> m_closed m'"
    using close_at_ok [of X m i env] 2(2-5) m' by simp
  then have "closed_but (X - {i}) m2 \<and> table_ok m2 \<and> refs_ok m2 \<and> m_closed m2"
    by (simp add: m2_def closed_but_def table_ok_def refs_ok_def refs_def)
  then have "closed_but (X - {i} - set js) (close_all env js m2) \<and> table_ok (close_all env js m2) \<and> refs_ok (close_all env js m2)"
    using 2(1) [OF m' [symmetric], of "X - {i}"] unfolding m2_def [symmetric] by blast
  moreover have "close_all env (i # js) m = close_all env js m2" unfolding m2_def by (simp add: m')
  moreover have "X - set (i # js) = X - {i} - set js" by auto
  ultimately show ?case by (simp only:)
qed simp

lemma Manager_Close_ok: "manager_inv m \<Longrightarrow> range_order ord \<Longrightarrow> manager_inv (snd (Manager_Close env ord m))"
proof (cases "m_closedOnce m")
  case False
  assume m: "manager_inv m" and o: "range_order ord"
  then have t: "table_ok m" "refs_ok m" "closed_but {} m" "\<not> m_closed m" using False by (auto simp: manager_inv_def table_ok_def)
  let ?m = "m\<lparr>m_closed := True, m_closedOnce := True\<rparr>"
  have r: "refs ?m = refs m" by (simp add: refs_def)
  have "closed_but (refs m) ?m" "table_ok ?m" "refs_ok ?m"
    using t by (auto simp: closed_but_def r table_ok_def refs_ok_def)
  from close_all_ok [OF this(1) _ this(2,3), of "ord (map snd (m_handlers m))" env] False o show ?thesis
    by (simp add: Manager_Close_def manager_inv_def Let_def) (simp add: refs_def)
qed (simp add: Manager_Close_def Let_def)

lemma NewManager_loop_ok: "manager_inv m \<Longrightarrow> manager_inv (NewManager_loop env i obs m)"
  by (induction env i obs m rule: NewManager_loop.induct)
    (auto simp: Manager_Add_ok manager_inv_unused split: option.splits)

lemma empty_manager_ok [simp]: "manager_inv empty_manager"
  by (simp add: manager_inv_def table_ok_def refs_ok_def closed_but_def empty_manager_def)

lemma NewManager_ok: "manager_inv (NewManager env cfg)"
  by (simp add: NewManager_def NewManager_loop_ok split: option.splits)

lemma manager_step_ok: "manager_step env m m' \<Longrightarrow> manager_inv m \<Longrightarrow> manager_inv m'"
proof (induction rule: manager_step.induct)
  case (dial m tag)
  then show ?case by (simp add: GetDialer_def getDialer_at_ok split: option.splits)
next
  case (dial_default m d m')
  then show ?case using getDialer_at_ok by (auto simp: GetDefaultDialer_def split: if_splits) (metis snd_conv)
qed (simp_all add: Manager_Add_ok AddHandler_ok RemoveHandler_ok Manager_Close_ok)

lemma manager_reachable_inv: "manager_reachable env m \<Longrightarrow> manager_inv m"
  by (induction rule: manager_reachable.induct) (auto simp: NewManager_ok manager_step_ok)

section \<open>Selection\<close>

lemma Select_loop_filter:
  "distinct tags \<Longrightarrow> set seen \<inter> set tags = {} \<Longrightarrow> Select_loop selectors seen tags = filter (\<lambda>t. list_ex (matchSelector t) selectors) tags"
  by (induction tags arbitrary: seen) auto

lemma matchSelector_prefix: "matchSelector tag s \<longleftrightarrow> s \<noteq> [] \<and> prefix s tag"
  by (auto simp: matchSelector_def HasPrefix_def)

section \<open>Properties\<close>

text \<open>C38. In every history of a manager, its order lists the tags of its table without repetition, a tag
  leads to a handler of its own that carries it, and a handler made from a descriptor is closed
  exactly when it was replaced or removed, or the manager was closed.\<close>

theorem manager_lifecycle:
  assumes "manager_reachable env m"
  shows "distinct (m_order m) \<and> set (m_order m) = fst ` set (m_handlers m) \<and> distinct (map snd (m_handlers m)) \<and>
    (\<forall>tag i. al_get (m_handlers m) tag = Some i \<longrightarrow> i < length (m_store m) \<and> od_Tag (h_ob (m_store m ! i)) = tag) \<and>
    (\<forall>i < length (m_store m). h_external (m_store m ! i) = None \<longrightarrow>
       (h_closed (m_store m ! i) \<longleftrightarrow> i \<notin> snd ` set (m_handlers m) \<or> m_closed m))"
proof -
  have "table_ok m" "refs_ok m" "closed_but {} m"
    using manager_reachable_inv [OF assms] by (simp_all add: manager_inv_def)
  then show ?thesis
    by (auto simp: table_ok_def refs_ok_def closed_but_def refs_def dest: map_of_SomeD)
qed

definition ex_ob_env :: outbound_env where
  "ex_ob_env = \<lparr>oe_factory = (\<lambda>_. None), oe_close_dialer = (\<lambda>_. None), oe_close_external = (\<lambda>_. None)\<rparr>"

definition ex_manager :: Manager where
  "ex_manager = NewManager ex_ob_env (Some [Some \<lparr>od_Tag = ''wan1'', od_Mode = ModeFreedom\<rparr>, None,
     Some \<lparr>od_Tag = ''block'', od_Mode = ModeBlackhole\<rparr>, Some \<lparr>od_Tag = ''wan2'', od_Mode = ModeFreedom\<rparr>])"

lemma ex_manager_reachable: "manager_reachable ex_ob_env ex_manager"
  unfolding ex_manager_def by (rule manager_reachable.init)

lemma ex_manager_order: "m_order ex_manager = [''wan1'', ''block'', ''wan2'']" "m_closed ex_manager = False"
  by (simp_all add: ex_manager_def NewManager_def Manager_Add_def TrimSpace_def is_space_def empty_manager_def Let_def)

theorem manager_lifecycle_witness:
  "set (m_order ex_manager) = fst ` set (m_handlers ex_manager) \<and> set (m_order ex_manager) = {''wan1'', ''block'', ''wan2''}"
  using manager_lifecycle [OF ex_manager_reachable] by (simp add: ex_manager_order)

text \<open>A selection is the tags with a nonempty selector as prefix, each once and in the order of
  registration, or all tags without selectors; while the manager is open each of them has a handler.\<close>

theorem select_exact:
  assumes "manager_reachable env m"
  shows "Select m selectors = filter (\<lambda>t. selectors = [] \<or> (\<exists>s \<in> set selectors. s \<noteq> [] \<and> prefix s t)) (m_order m) \<and>
    distinct (Select m selectors) \<and> (\<not> m_closed m \<longrightarrow> (\<forall>t \<in> set (Select m selectors). GetHandler m t \<noteq> None))"
proof -
  have t: "table_ok m" using manager_reachable_inv [OF assms] by (simp add: manager_inv_def)
  then have d: "distinct (m_order m)" "set (m_order m) = fst ` set (m_handlers m)" by (simp_all add: table_ok_def)
  have e: "Select m selectors = filter (\<lambda>t. selectors = [] \<or> (\<exists>s \<in> set selectors. s \<noteq> [] \<and> prefix s t)) (m_order m)"
    using Select_loop_filter [OF d(1), of "[]" selectors] by (simp add: Select_def list_ex_iff matchSelector_prefix)
  have "GetHandler m t \<noteq> None" if "t \<in> set (m_order m)" "\<not> m_closed m" for t
    using that d(2) al_get_None_iff [of "m_handlers m" t] by (auto simp: GetHandler_def)
  then show ?thesis using d(1) by (auto simp: e)
qed

theorem select_exact_witness: "Select ex_manager [''wan''] = [''wan1'', ''wan2'']"
  using select_exact [OF ex_manager_reachable, of "[''wan'']"] by (simp add: ex_manager_order)

lemma found_at_close [simp]: "found_at (snd (close_at env i m)) j = found_at m j"
proof (cases "i < length (m_store m)")
  case True
  then have "h_external ((m_store m)[i := snd (handler_Close env (m_store m ! i))] ! j) = h_external (m_store m ! j)"
    by (cases "i = j") simp_all
  with True show ?thesis by (simp add: found_at_def close_at_store(1))
qed (simp add: found_at_def close_at_store(1))

lemma close_at_table [simp]:
  "m_handlers (snd (close_at env i m)) = m_handlers m" "m_closed (snd (close_at env i m)) = m_closed m"
  by (subst close_at_store(2), simp)+

lemma GetHandler_close [simp]: "GetHandler (snd (close_at env i m)) t = GetHandler m t"
  by (simp add: GetHandler_def split: option.splits)

lemma GetHandler_register:
  assumes "manager_inv m" "\<not> m_closed m"
  shows "GetHandler (register tag h m) t = (if t = tag then Some (found_at (register tag h m) (length (m_store m))) else GetHandler m t)"
proof -
  have "found_at (register tag h m) j = found_at m j" if "al_get (m_handlers m) t = Some j" for j
    using assms(1) map_of_SomeD [OF that] by (force simp: manager_inv_def refs_ok_def found_at_def register_def nth_append)
  moreover have "m_closed (register tag h m) = m_closed m"
    "al_get (m_handlers (register tag h m)) t = (if t = tag then Some (length (m_store m)) else al_get (m_handlers m) t)"
    by (simp_all add: register_def al_get_put)
  ultimately show ?thesis using assms(2) by (auto simp: GetHandler_def split: option.splits)
qed

text \<open>Registering a handler makes its tag lead to it and no other tag to anything else, and removing
  a tag makes it lead nowhere; when they fail they change nothing.\<close>

theorem add_remove_lookup:
  assumes "manager_reachable env m"
  shows "(\<not> m_closed m \<and> TrimSpace (ext_tag x) \<noteq> [] \<longrightarrow> (\<forall>t. GetHandler (snd (AddHandler env (Some x) m)) t =
       (if t = ext_tag x then Some (External x) else GetHandler m t))) \<and>
    (\<not> m_closed m \<longrightarrow> (\<forall>t. GetHandler (snd (RemoveHandler env tag m)) t = (if t = tag then None else GetHandler m t))) \<and>
    (m_closed m \<or> TrimSpace (ext_tag x) = [] \<longrightarrow> fst (AddHandler env (Some x) m) \<noteq> None \<and> snd (AddHandler env (Some x) m) = m) \<and>
    (GetHandler m tag = None \<longrightarrow> fst (RemoveHandler env tag m) \<noteq> None \<and> snd (RemoveHandler env tag m) = m)"
proof (intro conjI impI allI)
  have m: "manager_inv m" by (rule manager_reachable_inv [OF assms])
  fix t
  assume a: "\<not> m_closed m \<and> TrimSpace (ext_tag x) \<noteq> []"
  let ?h = "\<lparr>h_ob = \<lparr>od_Tag = ext_tag x, od_Mode = ModeFreedom\<rparr>, h_external = Some x, h_dialer = ext_dialer x, h_closed = False\<rparr>"
  have "GetHandler (snd (AddHandler env (Some x) m)) t = GetHandler (register (ext_tag x) ?h m) t"
    using a by (simp add: AddHandler_def register_def Let_def split: option.splits)
  also have "\<dots> = (if t = ext_tag x then Some (External x) else GetHandler m t)"
    using a by (simp add: GetHandler_register [OF m]) (simp add: found_at_def register_def)
  finally show "GetHandler (snd (AddHandler env (Some x) m)) t = (if t = ext_tag x then Some (External x) else GetHandler m t)" .
next
  fix t
  assume "\<not> m_closed m"
  then show "GetHandler (snd (RemoveHandler env tag m)) t = (if t = tag then None else GetHandler m t)"
    by (auto simp: RemoveHandler_def split: option.splits) (auto simp: GetHandler_def al_get_del found_at_def split: option.splits)
qed (auto simp: AddHandler_def RemoveHandler_def GetHandler_def split: option.splits if_splits)

theorem add_remove_lookup_witness:
  "GetHandler (snd (AddHandler ex_ob_env (Some \<lparr>ext_tag = ''x'', ext_id = 5, ext_dialer = None\<rparr>) ex_manager)) ''x'' =
     Some (External \<lparr>ext_tag = ''x'', ext_id = 5, ext_dialer = None\<rparr>) \<and>
   GetHandler (snd (RemoveHandler ex_ob_env ''wan1'' ex_manager)) ''wan1'' = None"
  using add_remove_lookup [OF ex_manager_reachable, of "\<lparr>ext_tag = ''x'', ext_id = 5, ext_dialer = None\<rparr>" "''wan1''"]
  by (simp add: ex_manager_order TrimSpace_def is_space_def)

text \<open>Parsing the printed name of a mode gives the mode back.\<close>

theorem mode_roundtrip: "Mode_UnmarshalJSON (Mode_MarshalJSON m) = Inr m"
  by (cases m) (simp_all add: Mode_UnmarshalJSON_def Mode_MarshalJSON_def Mode_String_def Trim_char_def TrimSpace_def
      is_space_def ToLower_def lower_char_def is_upper_def less_eq_char_def)

end
