(* ===== verification/RoutingContext.thy ===== *)
theory RoutingContext
  imports Net "HOL-Library.Monad_Syntax"
begin

text \<open>
  The routing contexts: the session metadata of \<open>common/session/session.go\<close>, its getters of
  \<open>features/routing/session/context.go\<close>, and the context with a DNS client of
  \<open>features/routing/dns/context.go\<close>. The router knows a context through the getters of the interface
  \<open>routing.Context\<close>; their values are the record \<open>Context\<close>. A getter of a session that calls a method of
  a nil address panics in Go and is \<open>None\<close> here.
\<close>

section \<open>Session metadata\<close>

record Inbound =
  in_Source :: Destination
  in_Local :: Destination
  in_Tag :: string
  in_Name :: string
  in_User :: "string option"
  in_VlessRoute :: Port

record Outbound =
  ob_OriginalTarget :: Destination
  ob_Target :: Destination
  ob_RouteTarget :: Destination
  ob_Tag :: string
  ob_Name :: string

record Content =
  ct_Protocol :: string
  ct_Attributes :: "(string, string) go_map option"
  ct_SkipDNSResolve :: bool

definition SetAttribute :: "Content \<Rightarrow> string \<Rightarrow> string \<Rightarrow> Content" where
  "SetAttribute c name value =
     c\<lparr>ct_Attributes := Some (al_put name value (case ct_Attributes c of None \<Rightarrow> [] | Some m \<Rightarrow> m))\<rparr>"

definition Attribute :: "Content \<Rightarrow> string \<Rightarrow> string" where
  "Attribute c name =
     (case ct_Attributes c of None \<Rightarrow> [] | Some m \<Rightarrow> (case al_get m name of None \<Rightarrow> [] | Some v \<Rightarrow> v))"

record SessionContext =
  sc_Inbound :: "Inbound option"
  sc_Outbound :: "Outbound option"
  sc_Content :: "Content option"

definition AsRoutingContext :: "Inbound option \<Rightarrow> Outbound list \<Rightarrow> Content option \<Rightarrow> SessionContext" where
  "AsRoutingContext inb outbounds content =
     (if outbounds = [] then \<lparr>sc_Inbound = inb, sc_Outbound = None, sc_Content = content\<rparr>
      else \<lparr>sc_Inbound = inb, sc_Outbound = Some (outbounds ! (length outbounds - 1)), sc_Content = content\<rparr>)"

section \<open>Getters\<close>

definition ses_InboundTag :: "SessionContext \<Rightarrow> string" where
  "ses_InboundTag c = (case sc_Inbound c of None \<Rightarrow> [] | Some i \<Rightarrow> in_Tag i)"

text \<open>The body shared by the three getters of addresses.\<close>

definition dest_IPs :: "Destination \<Rightarrow> ip list option" where
  "dest_IPs d =
     (if \<not> DestIsValid d then Some []
      else do {
        a \<leftarrow> DAddress d;
        if IsIP (Family a) then do { p \<leftarrow> AddrIP a; Some [p] } else Some []
      })"

definition dest_port :: "Destination \<Rightarrow> Port" where
  "dest_port d = (if \<not> DestIsValid d then 0 else DPort d)"

definition ses_SourceIPs :: "SessionContext \<Rightarrow> ip list option" where
  "ses_SourceIPs c = (case sc_Inbound c of None \<Rightarrow> Some [] | Some i \<Rightarrow> dest_IPs (in_Source i))"

definition ses_SourcePort :: "SessionContext \<Rightarrow> Port" where
  "ses_SourcePort c = (case sc_Inbound c of None \<Rightarrow> 0 | Some i \<Rightarrow> dest_port (in_Source i))"

definition ses_TargetIPs :: "SessionContext \<Rightarrow> ip list option" where
  "ses_TargetIPs c = (case sc_Outbound c of None \<Rightarrow> Some [] | Some b \<Rightarrow> dest_IPs (ob_Target b))"

definition ses_TargetPort :: "SessionContext \<Rightarrow> Port" where
  "ses_TargetPort c = (case sc_Outbound c of None \<Rightarrow> 0 | Some b \<Rightarrow> dest_port (ob_Target b))"

definition ses_LocalIPs :: "SessionContext \<Rightarrow> ip list option" where
  "ses_LocalIPs c = (case sc_Inbound c of None \<Rightarrow> Some [] | Some i \<Rightarrow> dest_IPs (in_Local i))"

definition ses_LocalPort :: "SessionContext \<Rightarrow> Port" where
  "ses_LocalPort c = (case sc_Inbound c of None \<Rightarrow> 0 | Some i \<Rightarrow> dest_port (in_Local i))"

definition ses_TargetDomain :: "SessionContext \<Rightarrow> string option" where
  "ses_TargetDomain c =
     (case sc_Outbound c of
        None \<Rightarrow> Some []
      | Some b \<Rightarrow>
          if \<not> DestIsValid (ob_Target b) then Some []
          else do {
            r \<leftarrow> (if DestIsValid (ob_RouteTarget b)
                  then do { a \<leftarrow> DAddress (ob_RouteTarget b); Some (IsDomain (Family a)) } else Some False);
            if r then do { a \<leftarrow> DAddress (ob_RouteTarget b); AddrDomain a }
            else do {
              a \<leftarrow> DAddress (ob_Target b);
              if \<not> IsDomain (Family a) then Some [] else AddrDomain a
            }
          })"

definition ses_Network :: "SessionContext \<Rightarrow> Network" where
  "ses_Network c = (case sc_Outbound c of None \<Rightarrow> Network_Unknown | Some b \<Rightarrow> DNetwork (ob_Target b))"

definition ses_Protocol :: "SessionContext \<Rightarrow> string" where
  "ses_Protocol c = (case sc_Content c of None \<Rightarrow> [] | Some k \<Rightarrow> ct_Protocol k)"

definition ses_User :: "SessionContext \<Rightarrow> string" where
  "ses_User c =
     (case sc_Inbound c of None \<Rightarrow> [] | Some i \<Rightarrow> (case in_User i of None \<Rightarrow> [] | Some u \<Rightarrow> u))"

definition ses_VlessRoute :: "SessionContext \<Rightarrow> Port" where
  "ses_VlessRoute c = (case sc_Inbound c of None \<Rightarrow> 0 | Some i \<Rightarrow> in_VlessRoute i)"

definition ses_Attributes :: "SessionContext \<Rightarrow> (string, string) go_map option" where
  "ses_Attributes c = (case sc_Content c of None \<Rightarrow> None | Some k \<Rightarrow> ct_Attributes k)"

definition ses_SkipDNSResolve :: "SessionContext \<Rightarrow> bool" where
  "ses_SkipDNSResolve c = (case sc_Content c of None \<Rightarrow> False | Some k \<Rightarrow> ct_SkipDNSResolve k)"

section \<open>The interface routing.Context\<close>

record Context =
  GetInboundTag :: string
  GetSourceIPs :: "ip list"
  GetSourcePort :: Port
  base_TargetIPs :: "ip list"
  GetTargetPort :: Port
  GetLocalIPs :: "ip list"
  GetLocalPort :: Port
  GetTargetDomain :: string
  GetNetwork :: Network
  GetProtocol :: string
  GetUser :: string
  GetVlessRoute :: Port
  GetAttributes :: "(string, string) go_map option"
  GetSkipDNSResolve :: bool

text \<open>The getters of a session together, \<open>None\<close> when one of them panics.\<close>

definition session_Context :: "SessionContext \<Rightarrow> Context option" where
  "session_Context c = do {
     source \<leftarrow> ses_SourceIPs c; target \<leftarrow> ses_TargetIPs c; locals \<leftarrow> ses_LocalIPs c; dom \<leftarrow> ses_TargetDomain c;
     Some \<lparr>GetInboundTag = ses_InboundTag c, GetSourceIPs = source, GetSourcePort = ses_SourcePort c,
       base_TargetIPs = target, GetTargetPort = ses_TargetPort c, GetLocalIPs = locals,
       GetLocalPort = ses_LocalPort c, GetTargetDomain = dom, GetNetwork = ses_Network c,
       GetProtocol = ses_Protocol c, GetUser = ses_User c, GetVlessRoute = ses_VlessRoute c,
       GetAttributes = ses_Attributes c, GetSkipDNSResolve = ses_SkipDNSResolve c\<rparr>
   }"

section \<open>ResolvableContext\<close>

text \<open>A context as the router passes it: the one of the caller, or a context that embeds another and
  resolves its domain. The embedded getters are those of \<open>base_ctx\<close>. The DNS client answers its
  \<open>n\<close>-th call, and the number of calls so far is part of the state.\<close>

datatype Ctx = BaseContext Context | ResolvableContext Ctx (cacheIPs: "ip list") (hasError: bool)

fun base_ctx :: "Ctx \<Rightarrow> Context" where
  "base_ctx (BaseContext c) = c"
| "base_ctx (ResolvableContext c ips err) = base_ctx c"

type_synonym dns_client = "nat \<Rightarrow> string \<Rightarrow> ip list option"

fun GetTargetIPs :: "dns_client \<Rightarrow> Ctx \<Rightarrow> nat \<Rightarrow> ip list \<times> Ctx \<times> nat" where
  "GetTargetIPs lookup (BaseContext c) n = (base_TargetIPs c, BaseContext c, n)"
| "GetTargetIPs lookup (ResolvableContext c ips err) n =
     (if ips \<noteq> [] then (ips, ResolvableContext c ips err, n)
      else if err then ([], ResolvableContext c ips err, n)
      else
        let dom = GetTargetDomain (base_ctx c);
            answer = (if dom \<noteq> [] then lookup n dom else None);
            n' = (if dom \<noteq> [] then Suc n else n)
        in case answer of
             Some r \<Rightarrow> (r, ResolvableContext c r err, n')
           | None \<Rightarrow>
               (case GetTargetIPs lookup c n' of
                  (r, c', n'') \<Rightarrow>
                    if r \<noteq> [] then (r, ResolvableContext c' r err, n'')
                    else ([], ResolvableContext c' ips True, n'')))"

definition ContextWithDNSClient :: "Ctx \<Rightarrow> Ctx" where
  "ContextWithDNSClient c = ResolvableContext c [] False"

section \<open>Lemmas\<close>

text \<open>The three ways a call that is not answered from the cache goes.\<close>

lemma GetTargetIPs_cases:
  assumes "GetTargetIPs lookup (ResolvableContext c ips err) n = (r, d, n')"
  obtains (known) "ips \<noteq> [] \<or> err" "r = ips" "d = ResolvableContext c ips err" "n' = n"
  | (answered) "ips = []" "\<not> err" "GetTargetDomain (base_ctx c) \<noteq> []" "lookup n (GetTargetDomain (base_ctx c)) = Some r"
      "d = ResolvableContext c r err" "n' = Suc n"
  | (inner) c' m where "ips = []" "\<not> err"
      "GetTargetDomain (base_ctx c) = [] \<and> m = n \<or> lookup n (GetTargetDomain (base_ctx c)) = None \<and> m = Suc n"
      "GetTargetIPs lookup c m = (r, c', n')" "d = ResolvableContext c' r (r = [])"
proof (cases "ips = [] \<and> \<not> err")
  case False
  then have "r = ips \<and> d = ResolvableContext c ips err \<and> n' = n" using assms by (cases ips) auto
  with False show ?thesis by (intro known) auto
next
  case True
  define dom where "dom = GetTargetDomain (base_ctx c)"
  define m where "m = (if dom \<noteq> [] then Suc n else n)"
  show ?thesis
  proof (cases "if dom \<noteq> [] then lookup n dom else None")
    case None
    obtain r' c' k where g: "GetTargetIPs lookup c m = (r', c', k)" by (cases "GetTargetIPs lookup c m")
    have e: "r = r'" "n' = k" "d = ResolvableContext c' r (r = [])"
      using assms True None g by (cases "r' = []"; simp add: Let_def dom_def [symmetric] m_def [symmetric])+
    have "dom = [] \<and> m = n \<or> lookup n dom = None \<and> m = Suc n"
      using None by (simp add: m_def split: if_splits)
    with True g e show ?thesis by (intro inner [of m c']) (simp_all add: dom_def)
  next
    case (Some a)
    then have a: "dom \<noteq> []" "lookup n dom = Some a" by (simp_all split: if_splits)
    then have "r = a \<and> d = ResolvableContext c a err \<and> n' = Suc n"
      using assms True by (simp add: Let_def dom_def [symmetric]) metis
    with a True show ?thesis by (intro answered) (simp_all add: dom_def)
  qed
qed

lemma base_ctx_GetTargetIPs: "GetTargetIPs lookup c n = (r, c', n') \<Longrightarrow> base_ctx c' = base_ctx c"
proof (induction c arbitrary: n r c' n')
  case (ResolvableContext c ips err)
  from ResolvableContext(2) show ?case
    by (cases rule: GetTargetIPs_cases) (use ResolvableContext(1) in auto)
qed auto

lemma base_ctx_ContextWithDNSClient [simp]: "base_ctx (ContextWithDNSClient c) = base_ctx c"
  by (simp add: ContextWithDNSClient_def)

text \<open>The addresses a fresh resolving context gives when its single lookup is the \<open>n\<close>-th: the answer of
  the client for the domain, or the caller's addresses when there is no domain or no answer.\<close>

definition resolved :: "dns_client \<Rightarrow> Context \<Rightarrow> nat \<Rightarrow> ip list" where
  "resolved lookup c n =
     (case (if GetTargetDomain c \<noteq> [] then lookup n (GetTargetDomain c) else None) of
        Some r \<Rightarrow> r | None \<Rightarrow> base_TargetIPs c)"

lemma GetTargetIPs_first:
  "fst (GetTargetIPs lookup (ContextWithDNSClient (BaseContext c)) n) = resolved lookup c n"
  by (auto simp: ContextWithDNSClient_def resolved_def Let_def split: option.splits)

text \<open>Once the addresses are known, or known to be missing, further calls give the same and ask nobody.\<close>

lemma GetTargetIPs_stable:
  assumes "GetTargetIPs lookup (ResolvableContext c ips err) n = (r, c', n')" "r \<noteq> [] \<or> hasError c'"
  shows "GetTargetIPs lookup c' m = (r, c', m)"
  using assms(1)
proof (cases rule: GetTargetIPs_cases)
  case known
  then show ?thesis by (cases "ips = []") auto
qed (use assms(2) in auto)

end
