(* ===== verification/ProcessCache.thy ===== *)
theory ProcessCache
  imports GoStrings
begin

text \<open>
  \<open>app/router/process_cache.go\<close>: the cache in front of the search for the process that owns a
  connection, least recently used first out. An element of the Go list is a number, so that the map
  and the list share elements as in the code. Time is in nanoseconds. The clock and the search itself
  answer their \<open>n\<close>-th call; \<open>singleflight\<close> only joins concurrent searches, and runs the function once
  for a single caller.
\<close>

section \<open>The cache\<close>

record processCacheKey =
  pk_network :: string
  pk_sourceIP :: string
  pk_sourcePort :: u16
  pk_destIP :: string
  pk_destPort :: u16

datatype proc_error = ErrNotLocal | FindFailed string

record process_result =
  pr_pid :: int
  pr_name :: string
  pr_path :: string
  pr_err :: "proc_error option"

record processCacheValue = process_result +
  pv_key :: processCacheKey
  pv_expires :: int

record processLookupCache =
  pc_entries :: "(processCacheKey, nat) go_map"
  pc_lru :: "(nat \<times> processCacheValue) list"
  pc_next :: nat

definition processCacheCapacity :: nat where "processCacheCapacity = 4096"

definition processCacheTTL :: int where "processCacheTTL = 500 * 1000000"

definition processErrorCacheTTL :: int where "processErrorCacheTTL = 100 * 1000000"

definition newProcessLookupCache :: processLookupCache where
  "newProcessLookupCache = \<lparr>pc_entries = [], pc_lru = [], pc_next = 0\<rparr>"

definition MoveToFront :: "nat \<Rightarrow> (nat \<times> processCacheValue) list \<Rightarrow> (nat \<times> processCacheValue) list" where
  "MoveToFront e lru = (case al_get lru e of None \<Rightarrow> lru | Some v \<Rightarrow> (e, v) # al_del e lru)"

definition pc_remove :: "nat option \<Rightarrow> processLookupCache \<Rightarrow> processLookupCache" where
  "pc_remove element c =
     (case element of
        None \<Rightarrow> c
      | Some e \<Rightarrow>
          (case al_get (pc_lru c) e of
             None \<Rightarrow> c
           | Some v \<Rightarrow> c\<lparr>pc_entries := al_del (pv_key v) (pc_entries c), pc_lru := al_del e (pc_lru c)\<rparr>))"

definition lru_Back :: "processLookupCache \<Rightarrow> nat option" where
  "lru_Back c = (if pc_lru c = [] then None else Some (fst (last (pc_lru c))))"

partial_function (option) evict :: "processLookupCache \<Rightarrow> processLookupCache option" where
  "evict c =
     (if processCacheCapacity < length (pc_entries c) then evict (pc_remove (lru_Back c) c) else Some c)"

definition pc_insert :: "processCacheValue \<Rightarrow> processLookupCache \<Rightarrow> processLookupCache" where
  "pc_insert v c =
     (case al_get (pc_entries c) (pv_key v) of
        Some old \<Rightarrow> c\<lparr>pc_lru := MoveToFront old (al_put old v (pc_lru c))\<rparr>
      | None \<Rightarrow>
          c\<lparr>pc_lru := (pc_next c, v) # pc_lru c, pc_entries := al_put (pv_key v) (pc_next c) (pc_entries c),
            pc_next := Suc (pc_next c)\<rparr>)"

type_synonym proc_finder = "nat \<Rightarrow> processCacheKey \<Rightarrow> process_result"

definition fresh_value :: "processCacheKey \<Rightarrow> process_result \<Rightarrow> int \<Rightarrow> processCacheValue" where
  "fresh_value key r now =
     \<lparr>pr_pid = pr_pid r, pr_name = pr_name r, pr_path = pr_path r, pr_err = pr_err r, pv_key = key,
      pv_expires = now + (if pr_err r \<noteq> None then processErrorCacheTTL else processCacheTTL)\<rparr>"

definition result_of :: "processCacheValue \<Rightarrow> process_result" where
  "result_of v = \<lparr>pr_pid = pr_pid v, pr_name = pr_name v, pr_path = pr_path v, pr_err = pr_err v\<rparr>"

text \<open>The call at step \<open>n\<close>: the clock is read, and on a miss the search runs and the clock is read
  again. The last number is the step reached.\<close>

definition cachedFindProcess :: "(nat \<Rightarrow> int) \<Rightarrow> proc_finder \<Rightarrow> processCacheKey \<Rightarrow> processLookupCache \<Rightarrow> nat \<Rightarrow>
    (process_result \<times> processLookupCache \<times> nat) option" where
  "cachedFindProcess clock findp key c n =
     (let now = clock n;
          element = (case al_get (pc_entries c) key of None \<Rightarrow> None | Some e \<Rightarrow> map_option (Pair e) (al_get (pc_lru c) e));
          miss = (\<lambda>c'.
            let v = fresh_value key (findp (n + 1) key) (clock (n + 2))
            in map_option (\<lambda>c''. (result_of v, c'', n + 3)) (evict (pc_insert v c')))
      in case element of
           Some (e, v) \<Rightarrow>
             if now < pv_expires v then Some (result_of v, c\<lparr>pc_lru := MoveToFront e (pc_lru c)\<rparr>, n + 1)
             else miss (pc_remove (Some e) c)
         | None \<Rightarrow> miss c)"

section \<open>Invariant\<close>

text \<open>Map and list hold the same elements, an element is in the map under the key of its value, and
  every value is an answer of the search for its key, with its expiry.\<close>

definition lru_pairs :: "(nat \<times> processCacheValue) list \<Rightarrow> (processCacheKey \<times> nat) list" where
  "lru_pairs lru = map (\<lambda>(e, v). (pv_key v, e)) lru"

definition cache_shape :: "processLookupCache \<Rightarrow> bool" where
  "cache_shape c \<longleftrightarrow> al_ok (pc_lru c) \<and> al_ok (lru_pairs (pc_lru c)) \<and>
     mset (pc_entries c) = mset (lru_pairs (pc_lru c)) \<and> (\<forall>e \<in> fst ` set (pc_lru c). e < pc_next c)"

definition answers :: "(nat \<Rightarrow> int) \<Rightarrow> proc_finder \<Rightarrow> processLookupCache \<Rightarrow> bool" where
  "answers clock findp c \<longleftrightarrow> (\<forall>(e, v) \<in> set (pc_lru c). \<exists>m. v = fresh_value (pv_key v) (findp m (pv_key v)) (clock (m + 1)))"

definition pcache_ok :: "(nat \<Rightarrow> int) \<Rightarrow> proc_finder \<Rightarrow> processLookupCache \<Rightarrow> bool" where
  "pcache_ok clock findp c \<longleftrightarrow> cache_shape c \<and> answers clock findp c \<and> length (pc_lru c) \<le> processCacheCapacity"

lemma entries_length: "cache_shape c \<Longrightarrow> length (pc_entries c) = length (pc_lru c)"
  by (metis cache_shape_def length_map lru_pairs_def mset_eq_length)

lemma shape_mset:
  assumes "mset lru = mset (pc_lru c)"
  shows "cache_shape (c\<lparr>pc_lru := lru\<rparr>) \<longleftrightarrow> cache_shape c"
proof -
  have "mset (lru_pairs lru) = mset (lru_pairs (pc_lru c))" "mset (map fst lru) = mset (map fst (pc_lru c))"
    using assms by (simp_all add: lru_pairs_def)
  moreover from this(1) have "mset (map fst (lru_pairs lru)) = mset (map fst (lru_pairs (pc_lru c)))" by simp
  ultimately have "al_ok lru = al_ok (pc_lru c)" "al_ok (lru_pairs lru) = al_ok (lru_pairs (pc_lru c))"
    by (metis mset_eq_imp_distinct_iff)+
  moreover have "set lru = set (pc_lru c)" using assms by (metis set_mset_mset)
  ultimately show ?thesis using \<open>mset (lru_pairs lru) = _\<close> by (simp add: cache_shape_def)
qed

lemma MoveToFront_mset [simp]: "al_ok lru \<Longrightarrow> mset (MoveToFront e lru) = mset lru"
proof (cases "al_get lru e")
  case (Some v)
  assume ok: "al_ok lru"
  have "al_ok lru \<Longrightarrow> al_get lru e = Some v \<Longrightarrow> mset ((e, v) # al_del e lru) = mset lru"
  proof (induction lru)
    case (Cons x lru)
    show ?case
    proof (cases "fst x = e")
      case True
      then have "al_del e lru = lru" using Cons(2) by (auto simp: al_del_def filter_id_conv image_iff)
      with True Cons show ?thesis by (cases x) (simp add: al_del_def)
    next
      case False
      with Cons show ?thesis by (cases x) (simp add: al_del_def)
    qed
  qed simp
  with ok Some show ?thesis by (simp add: MoveToFront_def)
qed (simp add: MoveToFront_def)

lemma key_element:
  assumes "cache_shape c" "al_get (pc_entries c) key = Some e"
  shows "\<exists>v. al_get (pc_lru c) e = Some v \<and> pv_key v = key"
proof -
  from assms have "(key, e) \<in> set (lru_pairs (pc_lru c))" by (metis cache_shape_def map_of_SomeD set_mset_mset)
  then show ?thesis using assms(1) by (auto simp: lru_pairs_def cache_shape_def)
qed

lemma key_unique:
  assumes "cache_shape c" "(e, v) \<in> set (pc_lru c)" "(e', v') \<in> set (pc_lru c)"
  shows "pv_key v = pv_key v' \<longleftrightarrow> e = e'"
proof -
  have "(pv_key v, e) \<in> set (lru_pairs (pc_lru c))" "(pv_key v', e') \<in> set (lru_pairs (pc_lru c))"
    using assms(2,3) by (force simp: lru_pairs_def)+
  then show ?thesis using assms by (metis cache_shape_def eq_key_imp_eq_value)
qed

lemma pc_remove_shape:
  assumes "cache_shape c"
  shows "cache_shape (pc_remove el c)"
proof (cases "el = None \<or> (\<exists>e. el = Some e \<and> al_get (pc_lru c) e = None)")
  case True
  then show ?thesis using assms by (auto simp: pc_remove_def)
next
  case False
  then obtain e v where e: "el = Some e" "al_get (pc_lru c) e = Some v" by auto
  then have v: "(e, v) \<in> set (pc_lru c)" by (simp add: map_of_SomeD)
  have f: "filter (\<lambda>x. fst x \<noteq> pv_key v) (lru_pairs (pc_lru c)) = lru_pairs (al_del e (pc_lru c))"
    unfolding lru_pairs_def al_del_def filter_map o_def
    by (rule arg_cong [where f = "map _"], rule filter_cong [OF refl]) (auto simp: key_unique [OF assms _ v])
  have m: "mset (al_del (pv_key v) (pc_entries c)) = mset (lru_pairs (al_del e (pc_lru c)))"
    unfolding f [symmetric] using assms by (simp add: cache_shape_def al_del_def)
  have "al_ok (lru_pairs (al_del e (pc_lru c)))"
    unfolding f [symmetric] using assms distinct_map_filter by (auto simp: cache_shape_def)
  with m e assms show ?thesis
    by (auto simp: cache_shape_def pc_remove_def al_simps)
qed

lemma pc_remove_sub: "set (pc_lru (pc_remove el c)) \<subseteq> set (pc_lru c)"
  by (auto simp: pc_remove_def al_del_def split: option.splits)

lemma pc_remove_length: "length (pc_lru (pc_remove el c)) \<le> length (pc_lru c)"
  by (auto simp: pc_remove_def al_del_def split: option.splits)

lemma al_put_pairs:
  "al_get lru e = Some v0 \<Longrightarrow> pv_key v0 = pv_key v \<Longrightarrow> lru_pairs (al_put e v lru) = lru_pairs lru \<and> map fst (al_put e v lru) = map fst lru"
  by (induction e v lru rule: al_put.induct) (auto simp: lru_pairs_def split: if_splits)

lemma set_al_put: "set (al_put k v m) \<subseteq> insert (k, v) (set m)"
  by (induction k v m rule: al_put.induct) auto

lemma al_put_fresh: "al_get m k = None \<Longrightarrow> al_put k v m = m @ [(k, v)]"
  by (induction k v m rule: al_put.induct) (auto split: if_splits)

lemma pc_insert_shape:
  assumes c: "cache_shape c"
  shows "cache_shape (pc_insert v c) \<and> set (pc_lru (pc_insert v c)) \<subseteq> set (pc_lru c) \<union> range (\<lambda>e. (e, v)) \<and>
    length (pc_lru (pc_insert v c)) \<le> Suc (length (pc_lru c))"
proof (cases "al_get (pc_entries c) (pv_key v)")
  case None
  then have "pv_key v \<notin> fst ` set (lru_pairs (pc_lru c))"
    using c by (metis al_get_None_iff cache_shape_def set_mset_mset)
  moreover have "al_put (pv_key v) (pc_next c) (pc_entries c) = pc_entries c @ [(pv_key v, pc_next c)]"
    using None by (rule al_put_fresh)
  ultimately show ?thesis using c None
    by (auto simp: pc_insert_def cache_shape_def lru_pairs_def less_Suc_eq dest: spec)
next
  case (Some e)
  then obtain v0 where v0: "al_get (pc_lru c) e = Some v0" "pv_key v0 = pv_key v" using key_element [OF c] by blast
  define c' where "c' = c\<lparr>pc_lru := al_put e v (pc_lru c)\<rparr>"
  note p = al_put_pairs [OF v0]
  have "fst ` set (al_put e v (pc_lru c)) = fst ` set (pc_lru c)" using p by (metis list.set_map)
  then have c': "cache_shape c'" using c p by (simp add: cache_shape_def c'_def)
  then have m: "mset (MoveToFront e (pc_lru c')) = mset (pc_lru c')" by (simp add: cache_shape_def)
  have i: "pc_insert v c = c'\<lparr>pc_lru := MoveToFront e (pc_lru c')\<rparr>" by (simp add: pc_insert_def Some c'_def)
  have l: "pc_lru c' = al_put e v (pc_lru c)" by (simp add: c'_def)
  have "set (MoveToFront e (pc_lru c')) = set (pc_lru c')" "length (MoveToFront e (pc_lru c')) = length (pc_lru c')"
    using m by (metis set_mset_mset, metis mset_eq_length)
  moreover have "length (pc_lru c') = length (pc_lru c)" using p unfolding l by (metis length_map)
  ultimately show ?thesis using shape_mset [OF m] c' set_al_put [of e v "pc_lru c"] unfolding i l by auto
qed

lemma remove_back:
  assumes "cache_shape c" "pc_lru c \<noteq> []"
  shows "pc_lru (pc_remove (lru_Back c) c) = butlast (pc_lru c)"
proof -
  obtain l e v where l: "pc_lru c = l @ [(e, v)]" using assms(2) by (metis append_butlast_last_id surj_pair)
  then have "al_ok (l @ [(e, v)])" using assms(1) by (simp add: cache_shape_def)
  then have "al_del e l = l" "al_get (l @ [(e, v)]) e = Some v"
    by (auto simp: al_del_def filter_id_conv image_iff map_add_def split: option.splits dest: map_of_SomeD)
  then show ?thesis using l by (simp add: lru_Back_def pc_remove_def al_del_def)
qed

lemma evict_keeps_recent:
  assumes "cache_shape c"
  shows "\<exists>c'. evict c = Some c' \<and> cache_shape c' \<and> pc_lru c' = take processCacheCapacity (pc_lru c)"
  using assms
proof (induction "length (pc_lru c)" arbitrary: c rule: less_induct)
  case less
  show ?case
  proof (cases "processCacheCapacity < length (pc_entries c)")
    case True
    let ?c = "pc_remove (lru_Back c) c"
    have l: "processCacheCapacity < length (pc_lru c)" using True entries_length [OF less(2)] by simp
    then have b: "pc_lru ?c = butlast (pc_lru c)" using remove_back [OF less(2)] by force
    have "length (pc_lru ?c) < length (pc_lru c)" using l by (simp add: b)
    from less(1) [OF this pc_remove_shape [OF less(2)]] True l b show ?thesis
      by (auto simp: evict.simps [of c] take_butlast)
  next
    case False
    then show ?thesis using less(2) entries_length [OF less(2)] by (simp add: evict.simps [of c])
  qed
qed

section \<open>The lookup\<close>

lemma result_of_fresh [simp]: "result_of (fresh_value key r t) = r"
  by (simp add: result_of_def fresh_value_def)

lemma pv_key_fresh [simp]: "pv_key (fresh_value key r t) = key"
  by (simp add: fresh_value_def)

lemma miss_ok:
  assumes "cache_shape c" "answers clock findp c"
  shows "\<exists>c'. evict (pc_insert (fresh_value key (findp m key) (clock (m + 1))) c) = Some c' \<and> pcache_ok clock findp c'"
proof -
  let ?v = "fresh_value key (findp m key) (clock (m + 1))"
  note i = pc_insert_shape [OF assms(1), of ?v]
  have "answers clock findp (pc_insert ?v c)"
    unfolding answers_def
  proof (clarify)
    fix e v
    assume "(e, v) \<in> set (pc_lru (pc_insert ?v c))"
    then have "(e, v) \<in> set (pc_lru c) \<or> v = ?v" using i by blast
    then show "\<exists>m. v = fresh_value (pv_key v) (findp m (pv_key v)) (clock (m + 1))"
      using assms(2) by (auto simp: answers_def)
  qed
  then show ?thesis
    using evict_keeps_recent [of "pc_insert ?v c"] i unfolding pcache_ok_def answers_def
    by (metis (no_types, lifting) in_set_takeD length_take min.cobounded2)
qed

definition ttl_of :: "process_result \<Rightarrow> int" where
  "ttl_of r = (if pr_err r \<noteq> None then processErrorCacheTTL else processCacheTTL)"

lemma cachedFindProcess_ok:
  assumes "pcache_ok clock findp c"
  shows "\<exists>r c' n'. cachedFindProcess clock findp key c n = Some (r, c', n') \<and> pcache_ok clock findp c' \<and>
    (n' = n + 3 \<and> r = findp (n + 1) key \<or>
     n' = n + 1 \<and> (\<exists>m. r = findp m key \<and> clock n < clock (m + 1) + ttl_of r))"
proof -
  have shape: "cache_shape c" and ans: "answers clock findp c" using assms by (simp_all add: pcache_ok_def)
  have miss: "\<exists>c'. evict (pc_insert (fresh_value key (findp (n + 1) key) (clock (n + 2))) c0) = Some c' \<and> pcache_ok clock findp c'"
    if "cache_shape c0" "answers clock findp c0" for c0
    using miss_ok [OF that, of key "n + 1"] by (simp add: numeral_2_eq_2)
  show ?thesis
  proof (cases "al_get (pc_entries c) key")
    case None
    then show ?thesis using miss [OF shape ans] by (auto simp: cachedFindProcess_def)
  next
    case (Some e)
    then obtain v where v: "al_get (pc_lru c) e = Some v" "pv_key v = key" using key_element [OF shape] by blast
    show ?thesis
    proof (cases "clock n < pv_expires v")
      case True
      have m: "mset (MoveToFront e (pc_lru c)) = mset (pc_lru c)" using shape by (simp add: cache_shape_def)
      then have "set (MoveToFront e (pc_lru c)) = set (pc_lru c)" by (metis set_mset_mset)
      then have ok: "pcache_ok clock findp (c\<lparr>pc_lru := MoveToFront e (pc_lru c)\<rparr>)"
        using shape_mset [OF m] assms mset_eq_length [OF m] by (simp add: pcache_ok_def answers_def)
      obtain k where "v = fresh_value key (findp k key) (clock (k + 1))"
        using ans v map_of_SomeD [OF v(1)] by (auto simp: answers_def)
      then have "result_of v = findp k key \<and> clock n < clock (k + 1) + ttl_of (result_of v)"
        using True by (simp add: ttl_of_def) (auto simp: fresh_value_def split: if_splits)
      then show ?thesis using True ok by (auto simp: cachedFindProcess_def Some v(1))
    next
      case False
      have "answers clock findp (pc_remove (Some e) c)" using ans pc_remove_sub by (fastforce simp: answers_def)
      from miss [OF pc_remove_shape [OF shape] this] show ?thesis
        using False by (auto simp: cachedFindProcess_def Some v(1))
    qed
  qed
qed

text \<open>C39. A lookup ends and keeps the cache consistent and within its capacity. Its answer is one the
  search gave for the same connection: the one of this call, or an earlier one that has not expired.\<close>

theorem process_lookup_sound:
  assumes "pcache_ok clock findp c"
  shows "\<exists>r c' n'. cachedFindProcess clock findp key c n = Some (r, c', n') \<and> pcache_ok clock findp c' \<and>
    (n' = n + 3 \<and> r = findp (n + 1) key \<or>
     n' = n + 1 \<and> (\<exists>m. r = findp m key \<and> clock n < clock (m + 1) + ttl_of r))"
  using assms by (rule cachedFindProcess_ok)

lemma new_pcache_ok: "pcache_ok clock findp newProcessLookupCache"
  by (simp add: pcache_ok_def cache_shape_def answers_def newProcessLookupCache_def lru_pairs_def)

theorem process_lookup_sound_witness:
  "\<exists>c'. cachedFindProcess int (\<lambda>n k. \<lparr>pr_pid = int n, pr_name = ''a'', pr_path = ''/a'', pr_err = None\<rparr>)
      \<lparr>pk_network = ''tcp'', pk_sourceIP = ''::1'', pk_sourcePort = 1, pk_destIP = '''', pk_destPort = 0\<rparr>
      newProcessLookupCache 4 = Some (\<lparr>pr_pid = 5, pr_name = ''a'', pr_path = ''/a'', pr_err = None\<rparr>, c', 7)"
proof -
  let ?f = "\<lambda>n k. \<lparr>pr_pid = int n, pr_name = ''a'', pr_path = ''/a'', pr_err = None\<rparr>"
  let ?k = "\<lparr>pk_network = ''tcp'', pk_sourceIP = ''::1'', pk_sourcePort = 1, pk_destIP = '''', pk_destPort = 0\<rparr>"
  have "al_get (pc_entries newProcessLookupCache) ?k = None" by (simp add: newProcessLookupCache_def)
  with process_lookup_sound [OF new_pcache_ok, of int ?f ?k 4] show ?thesis
    by (auto simp: cachedFindProcess_def)
qed

end
