(* ===== verification/NetText.thy ===== *)
theory NetText
  imports Net
begin

text \<open>
  The text forms of \<open>common/net\<close>: \<open>String\<close> of an IP (as \<open>net.IP\<close> prints it), of an address and of a
  destination, and \<open>ParseDestination\<close> with \<open>net.SplitHostPort\<close>, from \<open>address.go\<close> and \<open>destination.go\<close>.
\<close>

section \<open>IP addresses\<close>

definition hex_char :: "nat \<Rightarrow> char" where
  "hex_char n = (if n < 10 then char_of (n + 48) else char_of (n + 87))"

fun hex_text :: "nat \<Rightarrow> string" where
  "hex_text n = (if n < 16 then [hex_char n] else hex_text (n div 16) @ [hex_char (n mod 16)])"

declare hex_text.simps [simp del]

definition v4_text :: "ip \<Rightarrow> string" where
  "v4_text p =
     nat_digits (unat (p ! 0)) @ ''.'' @ nat_digits (unat (p ! 1)) @ ''.'' @
     nat_digits (unat (p ! 2)) @ ''.'' @ nat_digits (unat (p ! 3))"

definition v6_group :: "ip \<Rightarrow> nat \<Rightarrow> nat" where
  "v6_group p i = 256 * unat (p ! (2 * i)) + unat (p ! (2 * i + 1))"

text \<open>The first longest run of at least two zero groups: its start and end, 255 and 255 without one.\<close>

definition zero_run :: "ip \<Rightarrow> nat \<Rightarrow> nat" where
  "zero_run p i = i + length (takeWhile (\<lambda>j. v6_group p j = 0) [i..<8])"

definition zero_range :: "ip \<Rightarrow> nat \<times> nat" where
  "zero_range p = foldl (\<lambda>(s, e) i. let j = zero_run p i in if 2 \<le> j - i \<and> e - s < j - i then (i, j) else (s, e))
     (255, 255) [0..<8]"

function v6_text_from :: "ip \<Rightarrow> nat \<times> nat \<Rightarrow> nat \<Rightarrow> string" where
  "v6_text_from p r i =
     (if 8 \<le> i then []
      else if i = fst r then
        (if 8 \<le> snd r \<or> snd r \<le> i then ''::'' else ''::'' @ hex_text (v6_group p (snd r)) @ v6_text_from p r (Suc (snd r)))
      else (if 0 < i then '':'' else []) @ hex_text (v6_group p i) @ v6_text_from p r (Suc i))"
  by pat_completeness auto
termination by (relation "measure (\<lambda>(p, r, i). 8 - i)") auto

declare v6_text_from.simps [simp del]

definition IPString :: "ip \<Rightarrow> string" where
  "IPString p =
     (if p = [] then ''<nil>''
      else if length p \<noteq> 4 \<and> length p \<noteq> 16 then
        ''?'' @ concat (map (\<lambda>b. [hex_char (unat b div 16), hex_char (unat b mod 16)]) p)
      else (case To4 p of Some q \<Rightarrow> v4_text q | None \<Rightarrow> v6_text_from p (zero_range p) 0))"

section \<open>Addresses and destinations\<close>

fun AddrString :: "Address \<Rightarrow> string" where
  "AddrString (ipv4Address p) = IPString p"
| "AddrString (ipv6Address p) = ''['' @ IPString p @ '']''"
| "AddrString (domainAddress d) = d"

text \<open>Printing a destination with a nil address panics.\<close>

definition NetAddr :: "Destination \<Rightarrow> string option" where
  "NetAddr d =
     (if DNetwork d = Network_TCP \<or> DNetwork d = Network_UDP then
        map_option (\<lambda>a. AddrString a @ '':'' @ PortString (DPort d)) (DAddress d)
      else if DNetwork d = Network_UNIX then map_option AddrString (DAddress d)
      else Some [])"

definition DestString :: "Destination \<Rightarrow> string option" where
  "DestString d =
     (let pre = (if DNetwork d = Network_TCP then ''tcp:'' else if DNetwork d = Network_UDP then ''udp:''
                 else if DNetwork d = Network_UNIX then ''unix:'' else ''unknown:'')
      in map_option (\<lambda>s. pre @ s) (NetAddr d))"

datatype split_error = MissingPort | TooManyColons | MissingBracket | UnexpectedBracket

definition SplitHostPort :: "string \<Rightarrow> split_error + (string \<times> string)" where
  "SplitHostPort s =
     (case LastIndex s '':'' of
        None \<Rightarrow> Inl MissingPort
      | Some i \<Rightarrow>
          let check = (\<lambda>host j k.
                if CHR ''['' \<in> set (drop j s) \<or> CHR '']'' \<in> set (drop k s) then Inl UnexpectedBracket
                else Inr (host, drop (i + 1) s))
          in if s ! 0 = CHR ''['' then
               (if CHR '']'' \<notin> set s then Inl MissingBracket
                else
                  let e = length (takeWhile (\<lambda>c. c \<noteq> CHR '']'') s)
                  in if e + 1 = length s then Inl MissingPort
                     else if e + 1 \<noteq> i then Inl (if s ! (e + 1) = CHR '':'' then TooManyColons else MissingPort)
                     else check (drop 1 (take e s)) 1 (e + 1))
             else if CHR '':'' \<in> set (take i s) then Inl TooManyColons
             else check (take i s) 0 0)"

datatype dest_error = SplitFailed split_error | PortFailed port_error

definition AnyIP :: Address where
  "AnyIP = ipv4Address [0, 0, 0, 0]"

definition ParseDestination :: "string \<Rightarrow> dest_error + Destination" where
  "ParseDestination dest =
     (let parse = (\<lambda>nw s.
        case SplitHostPort s of
          Inl e \<Rightarrow> Inl (SplitFailed e)
        | Inr (hstr, pstr) \<Rightarrow>
            let a = (if hstr \<noteq> [] then ParseAddress hstr else AnyIP)
            in if pstr \<noteq> [] then
                 (case PortFromString pstr of
                    Inl e \<Rightarrow> Inl (PortFailed e)
                  | Inr p \<Rightarrow> Inr \<lparr>DAddress = Some a, DPort = p, DNetwork = nw\<rparr>)
               else Inr \<lparr>DAddress = Some a, DPort = 0, DNetwork = nw\<rparr>)
      in if HasPrefix dest ''tcp:'' then parse Network_TCP (drop 4 dest)
         else if HasPrefix dest ''udp:'' then parse Network_UDP (drop 4 dest)
         else if HasPrefix dest ''unix:'' then Inr (UnixDestination (Some (domainAddress (drop 5 dest))))
         else parse Network_Unknown dest)"

end
