(* ===== verification/Conditions.thy ===== *)
theory Conditions
  imports RoutingContext ProcessCache NetText DomainFactory OutboundManager
begin

text \<open>
  \<open>app/router/condition.go\<close> and \<open>BuildCondition\<close> of \<open>app/router/config.go\<close>: the conditions of a routing
  rule, how they are built from its configuration, and when they apply to a context. Matchers of
  domains and addresses live in the registries of \<open>common/geodata\<close>, and a condition refers to them by
  position, so that it follows a reload of the data. Evaluating a condition may resolve the domain of
  the context and may search for a process, so it returns the context and the world it leaves.
\<close>

section \<open>Environment and state\<close>

text \<open>What the router takes from outside. A function of a number answers the call with that number:
  the DNS client, the search for a process, the clock, the dice and the observatory.\<close>

datatype observation = ObsFailed | ObsUnknown | ObsNilResult | ObservationResult "OutboundStatus list"
and OutboundStatus = OutboundStatus (os_tag: string) (os_alive: bool) (os_delay: int) (os_ping: "HealthPing option")
and HealthPing = HealthPing (hp_all: int) (hp_fail: int) (hp_deviation: int) (hp_average: int)

text \<open>Floating-point numbers are their bits. Arithmetic on them is taken as it is: the conversions
  from \<open>float32\<close>, \<open>strconv.ParseFloat\<close>, the cost \<open>time.Duration(float64(value) * math.Pow(weight, 0.5))\<close>,
  the test \<open>float64(fail) / float64(all) > float64(tolerance)\<close>, and \<open>FindString\<close> of an expression.\<close>

type_synonym f32 = u32
type_synonym f64 = u64

record float_ops =
  fo_widen :: "f32 \<Rightarrow> f64"
  fo_parse :: "string \<Rightarrow> f64 option"
  fo_cost :: "f64 \<Rightarrow> int \<Rightarrow> int"
  fo_exceeds :: "int \<Rightarrow> int \<Rightarrow> f32 \<Rightarrow> bool"
  fo_find :: "Regexp \<Rightarrow> string \<Rightarrow> string"

record 's router_env =
  re_dom :: domain_env
  re_nx :: "'s netipx"
  re_ipload :: "geo_error ip_loader"
  re_lookup :: dns_client
  re_order :: "(string \<times> string) list \<Rightarrow> (string \<times> string) list"
  re_clock :: "nat \<Rightarrow> int"
  re_find :: proc_finder
  re_pid :: int
  re_roll :: "nat \<Rightarrow> nat \<Rightarrow> nat"
  re_observer :: bool
  re_obs :: "nat \<Rightarrow> observation"
  re_selects :: bool
  re_floats :: float_ops

record 's world =
  w_step :: nat
  w_ips :: "'s IPRegistry"
  w_domains :: DomainRegistry
  w_process :: processLookupCache
  w_outbounds :: Manager

datatype router_error =
    EmptyUserRegexp | InvalidUserRegexp | InvalidAttributeRegexp string
  | IPRuleError "geo_error ip_error" | DomainRuleError domain_error | NoEffectiveFields
  | NilConfig | NoOutboundManager | NilBalancingRule | EmptyBalancerTag | DuplicateBalancer string
  | RequiresObservatory string | NilRoutingRule | DuplicateRuleTag string | BalancerNotFound string
  | UnrecognizedBalancer | LeastLoadSettings | NotASelector | EmptyPick | EmptyTagName | CannotFindTag
  | ErrNoClue

section \<open>Conditions\<close>

datatype MatcherAsType = MatcherAsType_Local | MatcherAsType_Source | MatcherAsType_Target | MatcherAsType_VlessRoute

record ProcessNameMatcher =
  pm_ProcessNames :: "string list"
  pm_AbsPaths :: "string list"
  pm_Folders :: "string list"
  pm_MatchSelf :: bool

datatype Condition =
    DomainCond nat
  | IPCond nat MatcherAsType
  | PortCond MemoryPortList MatcherAsType
  | NetworkCond "bool list"
  | UserCond "string list" "Regexp list"
  | InboundTagCond "string list"
  | ProtocolCond "string list"
  | AttributeCond "(string, Regexp) go_map"
  | ProcessCond ProcessNameMatcher

type_synonym ConditionChan = "Condition list"

fun NewNetworkMatcher_loop :: "Network list \<Rightarrow> bool list \<Rightarrow> bool list" where
  "NewNetworkMatcher_loop [] bs = bs"
| "NewNetworkMatcher_loop (n # ns) bs =
     NewNetworkMatcher_loop ns (if 0 \<le> n \<and> n < int (length bs) then bs[nat n := True] else bs)"

definition NewNetworkMatcher :: "Network list \<Rightarrow> bool list" where
  "NewNetworkMatcher ns = NewNetworkMatcher_loop ns (replicate 8 False)"

definition Network_Apply :: "bool list \<Rightarrow> Network \<Rightarrow> bool" where
  "Network_Apply bs n \<longleftrightarrow> 0 \<le> n \<and> n < int (length bs) \<and> bs ! nat n"

fun NewUserMatcherChecked :: "regex_parser \<Rightarrow> string list \<Rightarrow> router_error + (string list \<times> Regexp list)" where
  "NewUserMatcherChecked parse [] = Inr ([], [])"
| "NewUserMatcherChecked parse (user # users) =
     (if user = [] then NewUserMatcherChecked parse users
      else case CutPrefix user ''regexp:'' of
             (pat, True) \<Rightarrow>
               if pat = [] then Inl EmptyUserRegexp
               else (case parse pat of
                       None \<Rightarrow> Inl InvalidUserRegexp
                     | Some re \<Rightarrow>
                         map_sum id (\<lambda>(us, ps). (us, re # ps)) (NewUserMatcherChecked parse users))
           | (_, False) \<Rightarrow> map_sum id (\<lambda>(us, ps). (user # us, ps)) (NewUserMatcherChecked parse users))"

definition valid_user :: "regex_parser \<Rightarrow> string \<Rightarrow> bool" where
  "valid_user parse user =
     (case CutPrefix user ''regexp:'' of (pat, True) \<Rightarrow> pat \<noteq> [] \<and> parse pat \<noteq> None | (_, False) \<Rightarrow> True)"

definition NewUserMatcher :: "regex_parser \<Rightarrow> string list \<Rightarrow> (string list \<times> Regexp list) option" where
  "NewUserMatcher parse users =
     (case NewUserMatcherChecked parse (filter (valid_user parse) users) of Inl e \<Rightarrow> None | Inr m \<Rightarrow> Some m)"

definition User_Apply :: "string list \<Rightarrow> Regexp list \<Rightarrow> string \<Rightarrow> bool" where
  "User_Apply users pats user \<longleftrightarrow>
     user \<noteq> [] \<and> (list_ex (\<lambda>u. u = user) users \<or> list_ex (\<lambda>re. MatchString re user) pats)"

definition NewInboundTagMatcher :: "string list \<Rightarrow> string list" where
  "NewInboundTagMatcher tags = filter (\<lambda>t. t \<noteq> []) tags"

definition InboundTag_Apply :: "string list \<Rightarrow> string \<Rightarrow> bool" where
  "InboundTag_Apply tags tag \<longleftrightarrow> tag \<noteq> [] \<and> list_ex (\<lambda>t. t = tag) tags"

definition NewProtocolMatcher :: "string list \<Rightarrow> string list" where
  "NewProtocolMatcher ps = filter (\<lambda>p. p \<noteq> []) ps"

definition Protocol_Apply :: "string list \<Rightarrow> string \<Rightarrow> bool" where
  "Protocol_Apply ps protocol \<longleftrightarrow> protocol \<noteq> [] \<and> list_ex (\<lambda>p. HasPrefix protocol p) ps"

text \<open>The inner loop stops at the first attribute whose name is equal up to case, in the order in
  which the map is visited.\<close>

definition attribute_found :: "(string \<times> string) list \<Rightarrow> string \<Rightarrow> Regexp \<Rightarrow> bool" where
  "attribute_found attrs key re =
     (case List.find (\<lambda>(k, v). EqualFold k key) attrs of None \<Rightarrow> False | Some (k, v) \<Rightarrow> MatchString re v)"

fun Attribute_Match :: "(string \<times> string) list \<Rightarrow> (string, Regexp) go_map \<Rightarrow> bool" where
  "Attribute_Match attrs [] = True"
| "Attribute_Match attrs ((key, re) # ks) =
     (if \<not> attribute_found attrs key re then False else Attribute_Match attrs ks)"

fun NewProcessNameMatcher_loop :: "string list \<Rightarrow> ProcessNameMatcher \<Rightarrow> ProcessNameMatcher" where
  "NewProcessNameMatcher_loop [] m = m"
| "NewProcessNameMatcher_loop (name # names) m =
     NewProcessNameMatcher_loop names
       (if name = ''self/'' then m\<lparr>pm_MatchSelf := True\<rparr>
        else if HasSuffix name ''/'' then m\<lparr>pm_Folders := pm_Folders m @ [name]\<rparr>
        else if Contains name ''/'' then m\<lparr>pm_AbsPaths := pm_AbsPaths m @ [name]\<rparr>
        else m\<lparr>pm_ProcessNames := pm_ProcessNames m @ [TrimSuffix name ''.exe'']\<rparr>)"

text \<open>\<open>filepath.ToSlash\<close> is the identity where the separator is a slash.\<close>

definition NewProcessNameMatcher :: "string list \<Rightarrow> ProcessNameMatcher" where
  "NewProcessNameMatcher names =
     NewProcessNameMatcher_loop names \<lparr>pm_ProcessNames = [], pm_AbsPaths = [], pm_Folders = [], pm_MatchSelf = False\<rparr>"

definition Process_decide :: "int \<Rightarrow> ProcessNameMatcher \<Rightarrow> process_result \<Rightarrow> bool" where
  "Process_decide self m r =
     (if pr_err r \<noteq> None then False
      else if pm_MatchSelf m \<and> pr_pid r = self then True
      else if pr_name r \<in> set (pm_ProcessNames m) then True
      else if pr_path r \<in> set (pm_AbsPaths m) then True
      else list_ex (\<lambda>f. HasPrefix (pr_path r) f) (pm_Folders m))"

text \<open>The original destination of a resolving context comes first, then the addresses of the context
  itself. The code asks twice, for the length and for the first element; the second call gives the
  same addresses (\<open>GetTargetIPs_stable\<close>).\<close>

definition process_target :: "dns_client \<Rightarrow> Ctx \<Rightarrow> nat \<Rightarrow> ip option \<times> Ctx \<times> nat" where
  "process_target lookup c n =
     (let own = (\<lambda>c n. case GetTargetIPs lookup c n of (r, c', n') \<Rightarrow> (if r = [] then None else Some (hd r), c', n'))
      in case c of
           BaseContext b \<Rightarrow> own c n
         | ResolvableContext c0 cached err \<Rightarrow>
             (case GetTargetIPs lookup c0 n of
                (r, c0', n') \<Rightarrow>
                  if r \<noteq> [] then (Some (hd r), ResolvableContext c0' cached err, n')
                  else own (ResolvableContext c0' cached err) n'))"

definition Process_Apply :: "'s router_env \<Rightarrow> ProcessNameMatcher \<Rightarrow> Ctx \<Rightarrow> 's world \<Rightarrow>
    (bool \<times> Ctx \<times> 's world) option" where
  "Process_Apply env m c w =
     (let b = base_ctx c
      in if GetSourceIPs b = [] then Some (False, c, w)
         else if GetNetwork b \<noteq> Network_TCP \<and> GetNetwork b \<noteq> Network_UDP then Some (False, c, w)
         else
           (case process_target (re_lookup env) c (w_step w) of
              (dst, c', n) \<Rightarrow>
                let key = \<lparr>pk_network = (if GetNetwork b = Network_TCP then ''tcp'' else ''udp''),
                           pk_sourceIP = IPString (hd (GetSourceIPs b)), pk_sourcePort = GetSourcePort b,
                           pk_destIP = (case dst of None \<Rightarrow> [] | Some p \<Rightarrow> IPString p),
                           pk_destPort = (case dst of None \<Rightarrow> 0 | Some p \<Rightarrow> GetTargetPort b)\<rparr>
                in map_option
                     (\<lambda>(r, pc, n'). (Process_decide (re_pid env) m r, c', w\<lparr>w_process := pc, w_step := n'\<rparr>))
                     (cachedFindProcess (re_clock env) (re_find env) key (w_process w) n)))"

text \<open>\<open>Apply\<close> of each condition. \<open>None\<close> is a panic, an index beyond the registry, or a search that does
  not end.\<close>

fun Condition_Apply :: "'s router_env \<Rightarrow> Condition \<Rightarrow> Ctx \<Rightarrow> 's world \<Rightarrow> (bool \<times> Ctx \<times> 's world) option" where
  "Condition_Apply env (DomainCond i) c w =
     (if length (dr_matchers (w_domains w)) \<le> i then None
      else let dom = GetTargetDomain (base_ctx c)
           in Some (if dom = [] then False
                    else dd_MatchAny (re_dom env) (dr_matchers (w_domains w) ! i) (ToLower dom), c, w))"
| "Condition_Apply env (IPCond i t) c w =
     (if length (reg_matchers (w_ips w)) \<le> i then None
      else
        let any = dyn_AnyMatch (re_nx env) (reg_matchers (w_ips w) ! i)
        in case t of
             MatcherAsType_Local \<Rightarrow> Some (any (GetLocalIPs (base_ctx c)), c, w)
           | MatcherAsType_Source \<Rightarrow> Some (any (GetSourceIPs (base_ctx c)), c, w)
           | MatcherAsType_Target \<Rightarrow>
               (case GetTargetIPs (re_lookup env) c (w_step w) of
                  (r, c', n) \<Rightarrow> Some (any r, c', w\<lparr>w_step := n\<rparr>))
           | MatcherAsType_VlessRoute \<Rightarrow> None)"
| "Condition_Apply env (PortCond ports t) c w =
     Some (MemoryPortListContains ports
       (case t of
          MatcherAsType_Local \<Rightarrow> GetLocalPort (base_ctx c)
        | MatcherAsType_Source \<Rightarrow> GetSourcePort (base_ctx c)
        | MatcherAsType_Target \<Rightarrow> GetTargetPort (base_ctx c)
        | MatcherAsType_VlessRoute \<Rightarrow> GetVlessRoute (base_ctx c)), c, w)"
| "Condition_Apply env (NetworkCond bs) c w = Some (Network_Apply bs (GetNetwork (base_ctx c)), c, w)"
| "Condition_Apply env (UserCond us ps) c w = Some (User_Apply us ps (GetUser (base_ctx c)), c, w)"
| "Condition_Apply env (InboundTagCond ts) c w = Some (InboundTag_Apply ts (GetInboundTag (base_ctx c)), c, w)"
| "Condition_Apply env (ProtocolCond ps) c w = Some (Protocol_Apply ps (GetProtocol (base_ctx c)), c, w)"
| "Condition_Apply env (AttributeCond ks) c w =
     (case GetAttributes (base_ctx c) of
        None \<Rightarrow> Some (False, c, w)
      | Some attrs \<Rightarrow> Some (Attribute_Match (re_order env attrs) ks, c, w))"
| "Condition_Apply env (ProcessCond m) c w = Process_Apply env m c w"

fun Chan_Apply :: "'s router_env \<Rightarrow> ConditionChan \<Rightarrow> Ctx \<Rightarrow> 's world \<Rightarrow> (bool \<times> Ctx \<times> 's world) option" where
  "Chan_Apply env [] c w = Some (True, c, w)"
| "Chan_Apply env (cond # conds) c w =
     (case Condition_Apply env cond c w of
        None \<Rightarrow> None
      | Some (False, c', w') \<Rightarrow> Some (False, c', w')
      | Some (True, c', w') \<Rightarrow> Chan_Apply env conds c' w')"

section \<open>Building the conditions of a rule\<close>

text \<open>The generated message \<open>RoutingRule\<close>: its target is a oneof, and a port list may be nil.\<close>

datatype TargetTag = NoTarget | RoutingRule_Tag string | RoutingRule_BalancingTag string

record RoutingRule =
  rr_TargetTag :: TargetTag
  rr_RuleTag :: string
  rr_InboundTag :: "string list"
  rr_Networks :: "Network list"
  rr_Protocol :: "string list"
  rr_PortList :: "PortRange list option"
  rr_SourcePortList :: "PortRange list option"
  rr_LocalPortList :: "PortRange list option"
  rr_VlessRouteList :: "PortRange list option"
  rr_UserEmail :: "string list"
  rr_Attributes :: "(string, string) go_map"
  rr_Ip :: "IPRule list"
  rr_SourceIp :: "IPRule list"
  rr_LocalIp :: "IPRule list"
  rr_Domain :: "DomainRule list"
  rr_Process :: "string list"

definition GetTag :: "RoutingRule \<Rightarrow> string" where
  "GetTag rr = (case rr_TargetTag rr of RoutingRule_Tag t \<Rightarrow> t | _ \<Rightarrow> [])"

definition GetBalancingTag :: "RoutingRule \<Rightarrow> string" where
  "GetBalancingTag rr = (case rr_TargetTag rr of RoutingRule_BalancingTag t \<Rightarrow> t | _ \<Rightarrow> [])"

definition NewPortMatcher :: "PortRange list \<Rightarrow> MatcherAsType \<Rightarrow> Condition" where
  "NewPortMatcher l t = PortCond (PortListFromProto l) t"

definition port_conds :: "PortRange list option \<Rightarrow> MatcherAsType \<Rightarrow> ConditionChan" where
  "port_conds l t = (case l of None \<Rightarrow> [] | Some r \<Rightarrow> [NewPortMatcher r t])"

definition NewIPMatcher :: "'s router_env \<Rightarrow> IPRule list \<Rightarrow> MatcherAsType \<Rightarrow> 's world \<Rightarrow>
    (router_error + Condition) \<times> 's world" where
  "NewIPMatcher env rules t w =
     (case BuildIPMatcher (re_nx env) (re_ipload env) (w_ips w) rules of
        (Inl e, reg) \<Rightarrow> (Inl (IPRuleError e), w\<lparr>w_ips := reg\<rparr>)
      | (Inr d, reg) \<Rightarrow> (Inr (IPCond (length (reg_matchers (w_ips w))) t), w\<lparr>w_ips := reg\<rparr>))"

definition NewDomainMatcher :: "'s router_env \<Rightarrow> DomainRule list \<Rightarrow> 's world \<Rightarrow>
    ((router_error + Condition) \<times> 's world) option" where
  "NewDomainMatcher env rules w =
     (case BuildDomainMatcher (re_dom env) (w_domains w) rules of
        None \<Rightarrow> None
      | Some (Inl e, reg) \<Rightarrow> Some (Inl (DomainRuleError e), w\<lparr>w_domains := reg\<rparr>)
      | Some (Inr d, reg) \<Rightarrow>
          Some (Inr (DomainCond (length (dr_matchers (w_domains w)))), w\<lparr>w_domains := reg\<rparr>))"

fun compile_attributes :: "regex_parser \<Rightarrow> (string \<times> string) list \<Rightarrow> (string, Regexp) go_map \<Rightarrow>
    router_error + (string, Regexp) go_map" where
  "compile_attributes parse [] keys = Inr keys"
| "compile_attributes parse ((key, pat) # attrs) keys =
     (case parse pat of
        None \<Rightarrow> Inl (InvalidAttributeRegexp key)
      | Some re \<Rightarrow> compile_attributes parse attrs (al_put (ToLower key) re keys))"

definition user_conds :: "'s router_env \<Rightarrow> string list \<Rightarrow> router_error + ConditionChan" where
  "user_conds env users =
     (if users = [] then Inr []
      else map_sum id (\<lambda>(us, ps). [UserCond us ps]) (NewUserMatcherChecked (de_parse (re_dom env)) users))"

definition attribute_conds :: "'s router_env \<Rightarrow> (string, string) go_map \<Rightarrow> router_error + ConditionChan" where
  "attribute_conds env attrs =
     (if attrs = [] then Inr []
      else map_sum id (\<lambda>ks. [AttributeCond ks]) (compile_attributes (de_parse (re_dom env)) (re_order env attrs) []))"

definition ip_conds :: "'s router_env \<Rightarrow> IPRule list \<Rightarrow> MatcherAsType \<Rightarrow> 's world \<Rightarrow>
    (router_error + ConditionChan) \<times> 's world" where
  "ip_conds env rules t w =
     (if rules = [] then (Inr [], w)
      else (case NewIPMatcher env rules t w of (r, w') \<Rightarrow> (map_sum id (\<lambda>c. [c]) r, w')))"

definition domain_conds :: "'s router_env \<Rightarrow> DomainRule list \<Rightarrow> 's world \<Rightarrow>
    ((router_error + ConditionChan) \<times> 's world) option" where
  "domain_conds env rules w =
     (if rules = [] then Some (Inr [], w)
      else map_option (\<lambda>(r, w'). (map_sum id (\<lambda>c. [c]) r, w')) (NewDomainMatcher env rules w))"

definition plain_conds :: "RoutingRule \<Rightarrow> ConditionChan" where
  "plain_conds rr =
     (if rr_InboundTag rr \<noteq> [] then [InboundTagCond (NewInboundTagMatcher (rr_InboundTag rr))] else []) @
     (if rr_Networks rr \<noteq> [] then [NetworkCond (NewNetworkMatcher (rr_Networks rr))] else []) @
     (if rr_Protocol rr \<noteq> [] then [ProtocolCond (NewProtocolMatcher (rr_Protocol rr))] else []) @
     port_conds (rr_PortList rr) MatcherAsType_Target @
     port_conds (rr_SourcePortList rr) MatcherAsType_Source @
     port_conds (rr_LocalPortList rr) MatcherAsType_Local @
     port_conds (rr_VlessRouteList rr) MatcherAsType_VlessRoute"

definition process_conds :: "string list \<Rightarrow> ConditionChan" where
  "process_conds names = (if names \<noteq> [] then [ProcessCond (NewProcessNameMatcher names)] else [])"

definition BuildCondition :: "'s router_env \<Rightarrow> RoutingRule \<Rightarrow> 's world \<Rightarrow>
    ((router_error + ConditionChan) \<times> 's world) option" where
  "BuildCondition env rr w =
     (case user_conds env (rr_UserEmail rr) of
        Inl e \<Rightarrow> Some (Inl e, w)
      | Inr users \<Rightarrow>
     (case attribute_conds env (rr_Attributes rr) of
        Inl e \<Rightarrow> Some (Inl e, w)
      | Inr attrs \<Rightarrow>
     (case ip_conds env (rr_Ip rr) MatcherAsType_Target w of
        (Inl e, w1) \<Rightarrow> Some (Inl e, w1)
      | (Inr target, w1) \<Rightarrow>
     (case ip_conds env (rr_SourceIp rr) MatcherAsType_Source w1 of
        (Inl e, w2) \<Rightarrow> Some (Inl e, w2)
      | (Inr source, w2) \<Rightarrow>
     (case ip_conds env (rr_LocalIp rr) MatcherAsType_Local w2 of
        (Inl e, w3) \<Rightarrow> Some (Inl e, w3)
      | (Inr locals, w3) \<Rightarrow>
     (case domain_conds env (rr_Domain rr) w3 of
        None \<Rightarrow> None
      | Some (Inl e, w4) \<Rightarrow> Some (Inl e, w4)
      | Some (Inr domains, w4) \<Rightarrow>
          let conds = plain_conds rr @ users @ attrs @ target @ source @ locals @ domains @ process_conds (rr_Process rr)
          in Some (if conds = [] then Inl NoEffectiveFields else Inr conds, w4)))))))"

end
