(* ===== verification/Balancing.thy ===== *)
theory Balancing
  imports Conditions "HOL-Library.Product_Lexorder"
begin

text \<open>
  \<open>app/router/balancing.go\<close>, the strategies \<open>strategy_random.go\<close>, \<open>strategy_leastping.go\<close> and
  \<open>strategy_leastload.go\<close>, the weights of \<open>weight.go\<close>, and \<open>BalancingRule.Build\<close> of \<open>config.go\<close>.
  The result \<open>None\<close> is a panic: an index out of range, or a nil observation that is read.
\<close>

section \<open>Living candidates\<close>

definition is_alive :: "OutboundStatus list \<Rightarrow> string \<Rightarrow> bool" where
  "is_alive statuses candidate =
     (case List.find (\<lambda>s. os_tag s = candidate) statuses of None \<Rightarrow> True | Some s \<Rightarrow> os_alive s)"

text \<open>The loop of \<open>filterAliveCandidates\<close>: \<open>None\<close> while every candidate so far is alive.\<close>

fun alive_loop :: "OutboundStatus list \<Rightarrow> string list \<Rightarrow> nat \<Rightarrow> string list \<Rightarrow> string list option \<Rightarrow> string list option" where
  "alive_loop statuses candidates index [] alive = alive"
| "alive_loop statuses candidates index (c # cs) alive =
     alive_loop statuses candidates (Suc index) cs
       (if \<not> is_alive statuses c \<and> alive = None then Some (take index candidates)
        else if is_alive statuses c \<and> alive \<noteq> None then map_option (\<lambda>a. a @ [c]) alive
        else alive)"

definition filterAliveCandidates :: "string list \<Rightarrow> OutboundStatus list \<Rightarrow> string list" where
  "filterAliveCandidates candidates statuses =
     (case alive_loop statuses candidates 0 candidates None of None \<Rightarrow> candidates | Some a \<Rightarrow> a)"

definition fnv_byte :: "u64 \<Rightarrow> char \<Rightarrow> u64" where
  "fnv_byte h c = (h XOR of_nat (of_char c)) * 1099511628211"

definition status_hash :: "OutboundStatus \<Rightarrow> u64" where
  "status_hash s =
     (let h = foldl fnv_byte 14695981039346656037 (os_tag s)
      in if os_alive s then h XOR 0x9e3779b97f4a7c15 else h)"

definition statusFingerprint :: "OutboundStatus list \<Rightarrow> u64" where
  "statusFingerprint statuses = foldl (\<lambda>fp s. fp + status_hash s) 0 statuses"

record aliveCache =
  al_fingerprint :: u64
  al_candidates :: "string list"
  al_alive :: "string list"

definition empty_alive :: aliveCache where
  "empty_alive = \<lparr>al_fingerprint = 0, al_candidates = [], al_alive = []\<rparr>"

fun stringSlicesEqual :: "string list \<Rightarrow> string list \<Rightarrow> bool" where
  "stringSlicesEqual [] [] = True"
| "stringSlicesEqual (a # as) (b # bs) = (if a \<noteq> b then False else stringSlicesEqual as bs)"
| "stringSlicesEqual as bs = False"

definition alive_filter :: "aliveCache \<Rightarrow> string list \<Rightarrow> OutboundStatus list \<Rightarrow> string list \<times> aliveCache" where
  "alive_filter c candidates statuses =
     (let fp = statusFingerprint statuses
      in if fp = al_fingerprint c \<and> stringSlicesEqual (al_candidates c) candidates then (al_alive c, c)
         else let alive = filterAliveCandidates candidates statuses
              in (alive, \<lparr>al_fingerprint = fp, al_candidates = candidates, al_alive = alive\<rparr>))"

text \<open>What both strategies do first: without an observatory, or without a readable observation, all
  candidates stay.\<close>

definition living :: "'s router_env \<Rightarrow> bool \<Rightarrow> aliveCache \<Rightarrow> string list \<Rightarrow> 's world \<Rightarrow>
    (string list \<times> aliveCache \<times> 's world) option" where
  "living env observed cache tags w =
     (if \<not> observed then Some (tags, cache, w)
      else let w' = w\<lparr>w_step := Suc (w_step w)\<rparr>
           in case re_obs env (w_step w) of
                ObservationResult st \<Rightarrow> (case alive_filter cache tags st of (a, c) \<Rightarrow> Some (a, c, w'))
              | ObsNilResult \<Rightarrow> None
              | _ \<Rightarrow> Some (tags, cache, w'))"

section \<open>Dice\<close>

definition dice_Roll :: "'s router_env \<Rightarrow> nat \<Rightarrow> 's world \<Rightarrow> nat \<times> 's world" where
  "dice_Roll env n w = (if n = 1 then (0, w) else (re_roll env (w_step w) n, w\<lparr>w_step := Suc (w_step w)\<rparr>))"

definition pick_at :: "'a list \<Rightarrow> nat \<Rightarrow> 'a option" where
  "pick_at xs i = (if i < length xs then Some (xs ! i) else None)"

text \<open>A remainder by zero and a slice beyond the end panic.\<close>

definition go_mod :: "nat \<Rightarrow> nat \<Rightarrow> nat option" where
  "go_mod i n = (if n = 0 then None else Some (i mod n))"

definition slice_to :: "'a list \<Rightarrow> nat \<Rightarrow> 'a list option" where
  "slice_to xs n = (if n \<le> length xs then Some (take n xs) else None)"

section \<open>Round robin and random\<close>

record RoundRobinStrategy =
  rb_FallbackTag :: string
  rb_observed :: bool
  rb_alive :: aliveCache
  rb_index :: nat

definition RoundRobin_Pick :: "'s router_env \<Rightarrow> RoundRobinStrategy \<Rightarrow> string list \<Rightarrow> 's world \<Rightarrow>
    (string \<times> RoundRobinStrategy \<times> 's world) option" where
  "RoundRobin_Pick env s tags0 w = do {
     (tags, cache, w') \<leftarrow> living env (rb_observed s) (rb_alive s) tags0 w;
     let s' = s\<lparr>rb_alive := cache\<rparr>;
     let n = length tags;
     if n = 0 then Some ([], s', w')
     else do {
       i \<leftarrow> go_mod (rb_index s') n;
       tag \<leftarrow> pick_at tags i;
       next \<leftarrow> go_mod (rb_index s' + 1) n;
       Some (tag, s'\<lparr>rb_index := next\<rparr>, w')
     }
   }"

record RandomStrategy =
  rn_FallbackTag :: string
  rn_observed :: bool
  rn_alive :: aliveCache

definition Random_Pick :: "'s router_env \<Rightarrow> RandomStrategy \<Rightarrow> string list \<Rightarrow> 's world \<Rightarrow>
    (string \<times> RandomStrategy \<times> 's world) option" where
  "Random_Pick env s candidates0 w = do {
     (candidates, cache, w') \<leftarrow> living env (rn_observed s) (rn_alive s) candidates0 w;
     let s' = s\<lparr>rn_alive := cache\<rparr>;
     if candidates = [] then Some ([], s', w')
     else (case dice_Roll env (length candidates) w' of
             (i, w'') \<Rightarrow> map_option (\<lambda>t. (t, s', w'')) (pick_at candidates i))
   }"

section \<open>Least ping\<close>

fun outboundList_contains :: "string list \<Rightarrow> string \<Rightarrow> bool" where
  "outboundList_contains [] name = False"
| "outboundList_contains (v # vs) name = (if v = name then True else outboundList_contains vs name)"

fun least_ping_loop :: "string list \<Rightarrow> OutboundStatus list \<Rightarrow> int \<Rightarrow> string \<Rightarrow> string" where
  "least_ping_loop tags [] least sel = sel"
| "least_ping_loop tags (v # vs) least sel =
     (if outboundList_contains tags (os_tag v) \<and> os_alive v \<and> os_delay v < least
      then least_ping_loop tags vs (os_delay v) (os_tag v)
      else least_ping_loop tags vs least sel)"

definition LeastPing_Pick :: "'s router_env \<Rightarrow> bool \<Rightarrow> string list \<Rightarrow> 's world \<Rightarrow> (string \<times> 's world) option" where
  "LeastPing_Pick env observed tags w =
     (if \<not> observed then Some ([], w)
      else let w' = w\<lparr>w_step := Suc (w_step w)\<rparr>
           in case re_obs env (w_step w) of
                ObservationResult st \<Rightarrow> Some (least_ping_loop tags st 99999999 [], w')
              | ObsNilResult \<Rightarrow> None
              | _ \<Rightarrow> Some ([], w'))"

section \<open>Weights\<close>

record StrategyWeight =
  sw_Regexp :: bool
  sw_Match :: string
  sw_Value :: f32

record WeightManager =
  wm_settings :: "StrategyWeight option list"
  wm_cache :: "(string, f64) go_map"
  wm_defaultWeight :: f64
  wm_regexps :: "Regexp option list"

definition NewWeightManager :: "regex_parser \<Rightarrow> StrategyWeight option list \<Rightarrow> f64 \<Rightarrow> WeightManager" where
  "NewWeightManager parse s defaultWeight =
     \<lparr>wm_settings = s, wm_cache = [], wm_defaultWeight = defaultWeight,
      wm_regexps = map (\<lambda>x. case x of None \<Rightarrow> None
        | Some st \<Rightarrow> if \<not> sw_Regexp st then None else parse (sw_Match st)) s\<rparr>"

text \<open>\<open>w.Value > 0\<close> on the bits of a \<open>float32\<close>: no sign, not zero, not a NaN.\<close>

definition positive32 :: "f32 \<Rightarrow> bool" where
  "positive32 v \<longleftrightarrow> 0 < v \<and> v \<le> 0x7F800000"

text \<open>\<open>FindString\<close> of \<open>\d+(\.\d+)?\<close>: the first run of digits, with a fraction when one follows.\<close>

definition find_number :: "string \<Rightarrow> string" where
  "find_number s =
     (let r = dropWhile (\<lambda>c. \<not> is_digit c) s; ds = takeWhile is_digit r; t = dropWhile is_digit r
      in ds @ (case t of
                 c # u \<Rightarrow> if c = CHR ''.'' \<and> takeWhile is_digit u \<noteq> [] then c # takeWhile is_digit u else []
               | [] \<Rightarrow> []))"

definition wm_getMatch :: "float_ops \<Rightarrow> string \<Rightarrow> string \<Rightarrow> bool \<Rightarrow> Regexp option \<Rightarrow> string" where
  "wm_getMatch fo tag fnd isRegexp compiled =
     (if \<not> isRegexp then (if \<not> Contains tag fnd then [] else fnd)
      else case compiled of None \<Rightarrow> [] | Some re \<Rightarrow> fo_find fo re tag)"

fun wm_findValue :: "float_ops \<Rightarrow> f64 \<Rightarrow> string \<Rightarrow> (StrategyWeight option \<times> Regexp option) list \<Rightarrow> f64" where
  "wm_findValue fo d tag [] = d"
| "wm_findValue fo d tag ((None, re) # ws) = wm_findValue fo d tag ws"
| "wm_findValue fo d tag ((Some st, re) # ws) =
     (let matched = wm_getMatch fo tag (sw_Match st) (sw_Regexp st) re
      in if matched = [] then wm_findValue fo d tag ws
         else if positive32 (sw_Value st) then fo_widen fo (sw_Value st)
         else let num = find_number matched
              in if num = [] then d else (case fo_parse fo num of None \<Rightarrow> d | Some x \<Rightarrow> x))"

definition wm_Get :: "float_ops \<Rightarrow> WeightManager \<Rightarrow> string \<Rightarrow> f64 \<times> WeightManager" where
  "wm_Get fo m tag =
     (case al_get (wm_cache m) tag of
        Some x \<Rightarrow> (x, m)
      | None \<Rightarrow>
          let x = wm_findValue fo (wm_defaultWeight m) tag (zip (wm_settings m) (wm_regexps m))
          in (x, m\<lparr>wm_cache := al_put tag x (wm_cache m)\<rparr>))"

text \<open>\<open>Apply\<close> with the conversion to a duration that its callers add.\<close>

definition wm_Apply :: "float_ops \<Rightarrow> WeightManager \<Rightarrow> string \<Rightarrow> int \<Rightarrow> int \<times> WeightManager" where
  "wm_Apply fo m tag v = (case wm_Get fo m tag of (x, m') \<Rightarrow> (fo_cost fo x v, m'))"

section \<open>Least load\<close>

record StrategyLeastLoadConfig =
  ll_Costs :: "StrategyWeight option list"
  ll_Baselines :: "int list"
  ll_Expected :: int
  ll_MaxRTT :: int
  ll_Tolerance :: f32

record LeastLoadStrategy =
  ls_settings :: StrategyLeastLoadConfig
  ls_costs :: WeightManager
  ls_observed :: bool

definition NewLeastLoadStrategy :: "regex_parser \<Rightarrow> StrategyLeastLoadConfig \<Rightarrow> LeastLoadStrategy" where
  "NewLeastLoadStrategy parse settings =
     \<lparr>ls_settings = settings, ls_costs = NewWeightManager parse (ll_Costs settings) 0x3FF0000000000000, ls_observed = False\<rparr>"

record node =
  nd_Tag :: string
  nd_CountAll :: int
  nd_CountFail :: int
  nd_RTTAverage :: int
  nd_RTTDeviation :: int
  nd_RTTDeviationCost :: int

text \<open>Signed 64-bit arithmetic: products wrap around, and division truncates towards zero.\<close>

definition wrap64 :: "int \<Rightarrow> int" where
  "wrap64 x = (x + 2 ^ 63) mod 2 ^ 64 - 2 ^ 63"

definition quot :: "int \<Rightarrow> int \<Rightarrow> int" where
  "quot x n = (if x < 0 then - ((- x) div n) else x div n)"

definition millis :: "int \<Rightarrow> int" where
  "millis d = wrap64 (d * 1000000)"

definition shouldSelectNode :: "float_ops \<Rightarrow> StrategyLeastLoadConfig \<Rightarrow> OutboundStatus \<Rightarrow> string list \<Rightarrow> bool" where
  "shouldSelectNode fo settings v candidates =
     (if \<not> os_alive v then False
      else if ll_MaxRTT settings \<noteq> 0 \<and> quot (ll_MaxRTT settings) 1000000 \<le> os_delay v then False
      else if os_tag v \<notin> set candidates then False
      else case os_ping v of
             None \<Rightarrow> True
           | Some p \<Rightarrow> \<not> (0 < hp_all p \<and> positive32 (ll_Tolerance settings) \<and> fo_exceeds fo (hp_fail p) (hp_all p) (ll_Tolerance settings)))"

definition node_of :: "float_ops \<Rightarrow> WeightManager \<Rightarrow> OutboundStatus \<Rightarrow> node \<times> WeightManager" where
  "node_of fo m v =
     (let d = millis (os_delay v)
      in case wm_Apply fo m (os_tag v) (quot d 2) of
           (cost, m1) \<Rightarrow>
             (case os_ping v of
                None \<Rightarrow>
                  (\<lparr>nd_Tag = os_tag v, nd_CountAll = 1, nd_CountFail = 0, nd_RTTAverage = d, nd_RTTDeviation = quot d 2,
                    nd_RTTDeviationCost = cost\<rparr>, m1)
              | Some p \<Rightarrow>
                  (case wm_Apply fo m1 (os_tag v) (hp_deviation p) of
                     (cost', m2) \<Rightarrow>
                       (\<lparr>nd_Tag = os_tag v, nd_CountAll = hp_all p, nd_CountFail = hp_fail p, nd_RTTAverage = hp_average p,
                         nd_RTTDeviation = hp_deviation p, nd_RTTDeviationCost = cost'\<rparr>, m2))))"

fun nodes_loop :: "float_ops \<Rightarrow> StrategyLeastLoadConfig \<Rightarrow> string list \<Rightarrow> OutboundStatus list \<Rightarrow> WeightManager \<Rightarrow>
    node list \<times> WeightManager" where
  "nodes_loop fo st candidates [] m = ([], m)"
| "nodes_loop fo st candidates (v # vs) m =
     (if shouldSelectNode fo st v candidates then
        (case node_of fo m v of (n, m1) \<Rightarrow> (case nodes_loop fo st candidates vs m1 of (ns, m2) \<Rightarrow> (n # ns, m2)))
      else nodes_loop fo st candidates vs m)"

text \<open>The order of \<open>leastloadSort\<close>. Nodes that compare equal have the same tag and the same cost, so the
  order in which \<open>sort.Slice\<close> leaves them does not show.\<close>

definition load_key :: "node \<Rightarrow> int \<times> int \<times> int \<times> int \<times> string" where
  "load_key n = (nd_RTTDeviationCost n, nd_RTTAverage n, nd_CountFail n, - nd_CountAll n, nd_Tag n)"

definition leastloadSort :: "node list \<Rightarrow> node list" where
  "leastloadSort ns = sort_key load_key ns"

definition getNodes :: "'s router_env \<Rightarrow> LeastLoadStrategy \<Rightarrow> string list \<Rightarrow> 's world \<Rightarrow>
    node list \<times> LeastLoadStrategy \<times> 's world" where
  "getNodes env s candidates w =
     (if \<not> ls_observed s then ([], s, w)
      else let w' = w\<lparr>w_step := Suc (w_step w)\<rparr>
           in case re_obs env (w_step w) of
                ObservationResult st \<Rightarrow>
                  (case nodes_loop (re_floats env) (ls_settings s) candidates st (ls_costs s) of
                     (ns, m) \<Rightarrow> (leastloadSort ns, s\<lparr>ls_costs := m\<rparr>, w'))
              | _ \<Rightarrow> ([], s, w'))"

fun below_baseline :: "int \<Rightarrow> node list \<Rightarrow> nat" where
  "below_baseline b [] = 0"
| "below_baseline b (n # ns) = (if b \<le> nd_RTTDeviationCost n then 0 else Suc (below_baseline b ns))"

fun baselines_loop :: "nat \<Rightarrow> node list \<Rightarrow> nat \<Rightarrow> int list \<Rightarrow> nat" where
  "baselines_loop expected nodes cnt [] = cnt"
| "baselines_loop expected nodes cnt (b # bs) =
     (let cnt' = cnt + below_baseline b (drop cnt nodes)
      in if expected \<le> cnt' then cnt' else baselines_loop expected nodes cnt' bs)"

definition selectLeastLoad :: "StrategyLeastLoadConfig \<Rightarrow> node list \<Rightarrow> node list option" where
  "selectLeastLoad st nodes =
     (if nodes = [] then Some []
      else if int (length nodes) < ll_Expected st then Some nodes
      else
        let expected = (if ll_Expected st \<le> 0 then 1 else nat (ll_Expected st))
        in if ll_Baselines st = [] then slice_to nodes expected
           else
             let cnt = baselines_loop expected nodes 0 (ll_Baselines st)
             in slice_to nodes (if 0 < ll_Expected st \<and> cnt < expected then expected else cnt))"

definition pickOutbounds :: "'s router_env \<Rightarrow> LeastLoadStrategy \<Rightarrow> string list \<Rightarrow> 's world \<Rightarrow>
    (node list \<times> LeastLoadStrategy \<times> 's world) option" where
  "pickOutbounds env s candidates w =
     (case getNodes env s candidates w of
        (ns, s', w') \<Rightarrow> map_option (\<lambda>sel. (sel, s', w')) (selectLeastLoad (ls_settings s') ns))"

definition LeastLoad_Pick :: "'s router_env \<Rightarrow> LeastLoadStrategy \<Rightarrow> string list \<Rightarrow> 's world \<Rightarrow>
    (string \<times> LeastLoadStrategy \<times> 's world) option" where
  "LeastLoad_Pick env s candidates w = do {
     (selects, s', w') \<leftarrow> pickOutbounds env s candidates w;
     if selects = [] then Some ([], s', w')
     else (case dice_Roll env (length selects) w' of
             (i, w'') \<Rightarrow> map_option (\<lambda>n. (nd_Tag n, s', w'')) (pick_at selects i))
   }"

section \<open>Balancers\<close>

datatype BalancingStrategy =
    RoundRobin RoundRobinStrategy | RandomPick RandomStrategy | LeastPing bool | LeastLoad LeastLoadStrategy

fun strategy_Pick :: "'s router_env \<Rightarrow> BalancingStrategy \<Rightarrow> string list \<Rightarrow> 's world \<Rightarrow>
    (string \<times> BalancingStrategy \<times> 's world) option" where
  "strategy_Pick env (RoundRobin s) tags w = map_option (\<lambda>(t, s', w'). (t, RoundRobin s', w')) (RoundRobin_Pick env s tags w)"
| "strategy_Pick env (RandomPick s) tags w = map_option (\<lambda>(t, s', w'). (t, RandomPick s', w')) (Random_Pick env s tags w)"
| "strategy_Pick env (LeastPing ob) tags w = map_option (\<lambda>(t, w'). (t, LeastPing ob, w')) (LeastPing_Pick env ob tags w)"
| "strategy_Pick env (LeastLoad s) tags w = map_option (\<lambda>(t, s', w'). (t, LeastLoad s', w')) (LeastLoad_Pick env s tags w)"

fun strategy_PrincipleTarget :: "'s router_env \<Rightarrow> BalancingStrategy \<Rightarrow> string list \<Rightarrow> 's world \<Rightarrow>
    (string list \<times> BalancingStrategy \<times> 's world) option" where
  "strategy_PrincipleTarget env (RoundRobin s) tags w = Some (tags, RoundRobin s, w)"
| "strategy_PrincipleTarget env (RandomPick s) tags w = Some (tags, RandomPick s, w)"
| "strategy_PrincipleTarget env (LeastPing ob) tags w = map_option (\<lambda>(t, w'). ([t], LeastPing ob, w')) (LeastPing_Pick env ob tags w)"
| "strategy_PrincipleTarget env (LeastLoad s) tags w =
     map_option (\<lambda>(ns, s', w'). (map nd_Tag ns, LeastLoad s', w')) (pickOutbounds env s tags w)"

text \<open>\<open>core.RequireFeatures\<close> hands out nil when there is no observatory.\<close>

fun strategy_InjectContext :: "'s router_env \<Rightarrow> BalancingStrategy \<Rightarrow> BalancingStrategy" where
  "strategy_InjectContext env (RoundRobin s) =
     RoundRobin (if rb_FallbackTag s \<noteq> [] then s\<lparr>rb_observed := re_observer env\<rparr> else s)"
| "strategy_InjectContext env (RandomPick s) =
     RandomPick (if rn_FallbackTag s \<noteq> [] then s\<lparr>rn_observed := re_observer env\<rparr> else s)"
| "strategy_InjectContext env (LeastPing ob) = LeastPing (re_observer env)"
| "strategy_InjectContext env (LeastLoad s) = LeastLoad (s\<lparr>ls_observed := re_observer env\<rparr>)"

record Balancer =
  bl_selectors :: "string list"
  bl_strategy :: BalancingStrategy
  bl_fallbackTag :: string
  bl_override :: string

definition override_Get :: "Balancer \<Rightarrow> string" where
  "override_Get b = bl_override b"

definition override_Put :: "string \<Rightarrow> Balancer \<Rightarrow> Balancer" where
  "override_Put target b = b\<lparr>bl_override := target\<rparr>"

definition override_Clear :: "Balancer \<Rightarrow> Balancer" where
  "override_Clear b = b\<lparr>bl_override := []\<rparr>"

definition Balancer_InjectContext :: "'s router_env \<Rightarrow> Balancer \<Rightarrow> Balancer" where
  "Balancer_InjectContext env b = b\<lparr>bl_strategy := strategy_InjectContext env (bl_strategy b)\<rparr>"

definition SelectOutbounds :: "'s router_env \<Rightarrow> Balancer \<Rightarrow> 's world \<Rightarrow> router_error + string list" where
  "SelectOutbounds env b w = (if \<not> re_selects env then Inl NotASelector else Inr (Select (w_outbounds w) (bl_selectors b)))"

definition Balancer_PickOutbound :: "'s router_env \<Rightarrow> Balancer \<Rightarrow> 's world \<Rightarrow>
    ((router_error + string) \<times> Balancer \<times> 's world) option" where
  "Balancer_PickOutbound env b w =
     (case SelectOutbounds env b w of
        Inl e \<Rightarrow> Some (if bl_fallbackTag b \<noteq> [] then Inr (bl_fallbackTag b) else Inl e, b, w)
      | Inr candidates \<Rightarrow> do {
          (tag, b', w') \<leftarrow>
            (if override_Get b \<noteq> [] then Some (override_Get b, b, w)
             else map_option (\<lambda>(t, s, w'). (t, b\<lparr>bl_strategy := s\<rparr>, w')) (strategy_Pick env (bl_strategy b) candidates w));
          if tag = [] then Some (if bl_fallbackTag b \<noteq> [] then Inr (bl_fallbackTag b) else Inl EmptyPick, b', w')
          else Some (Inr tag, b', w')
        })"

section \<open>Building a balancer\<close>

text \<open>The settings of a rule as \<open>GetInstance\<close> decodes them.\<close>

datatype strategy_settings = SettingsError | OtherSettings | LeastLoadSettings_of StrategyLeastLoadConfig

record BalancingRule =
  br_Tag :: string
  br_OutboundSelector :: "string list"
  br_Strategy :: string
  br_StrategySettings :: "strategy_settings option"
  br_FallbackTag :: string

definition BalancingRule_Build :: "'s router_env \<Rightarrow> BalancingRule \<Rightarrow> router_error + Balancer" where
  "BalancingRule_Build env br =
     (let mk = (\<lambda>s. Inr \<lparr>bl_selectors = br_OutboundSelector br, bl_strategy = s, bl_fallbackTag = br_FallbackTag br, bl_override = []\<rparr>);
          name = ToLower (br_Strategy br)
      in if name = ''leastping'' then mk (LeastPing False)
         else if name = ''roundrobin'' then
           mk (RoundRobin \<lparr>rb_FallbackTag = br_FallbackTag br, rb_observed = False, rb_alive = empty_alive, rb_index = 0\<rparr>)
         else if name = ''leastload'' then
           (case br_StrategySettings br of
              Some (LeastLoadSettings_of c) \<Rightarrow> mk (LeastLoad (NewLeastLoadStrategy (de_parse (re_dom env)) c))
            | _ \<Rightarrow> Inl LeastLoadSettings)
         else if name = ''random'' \<or> name = '''' then
           mk (RandomPick \<lparr>rn_FallbackTag = br_FallbackTag br, rn_observed = False, rn_alive = empty_alive\<rparr>)
         else Inl UnrecognizedBalancer)"

end
