(* ===== verification/Router.thy ===== *)
theory Router
  imports Balancing
begin

text \<open>
  \<open>app/router/router.go\<close> and \<open>balancing_override.go\<close>: the router with its rules and balancers, how it is
  initialised and reloaded, and how it picks a route. Balancers are shared between the table and the
  rules, and change when they pick, so both hold references into a store. Webhooks are left out:
  \<open>webhook_stub.go\<close> makes every one of them nil, and nil does nothing. A \<open>PickRoute\<close> works on the rules it
  read under the lock, and the operations here run one after the other.
\<close>

section \<open>Data\<close>

record Rule =
  ru_Tag :: string
  ru_RuleTag :: string
  ru_Balancer :: "nat option"
  ru_Condition :: ConditionChan

type_synonym Config_DomainStrategy = int

abbreviation (input) "Config_AsIs \<equiv> (0 :: Config_DomainStrategy)"
abbreviation (input) "Config_IpIfNonMatch \<equiv> (2 :: Config_DomainStrategy)"
abbreviation (input) "Config_IpOnDemand \<equiv> (3 :: Config_DomainStrategy)"

record RouterConfig =
  cf_DomainStrategy :: Config_DomainStrategy
  cf_Rule :: "RoutingRule option list"
  cf_BalancingRule :: "BalancingRule option list"
  cf_FinalOutboundTag :: string

record Router =
  r_domainStrategy :: Config_DomainStrategy
  r_rules :: "Rule list"
  r_balancers :: "(string, nat) go_map"
  r_finalOutboundTag :: string
  r_store :: "Balancer list"

record Route =
  rt_Context :: "Ctx option"
  rt_outboundTag :: string
  rt_ruleTag :: string
  rt_fallback :: bool

definition new_Router :: Router where
  "new_Router = \<lparr>r_domainStrategy = Config_AsIs, r_rules = [], r_balancers = [], r_finalOutboundTag = [], r_store = []\<rparr>"

section \<open>Init and ReloadRules\<close>

definition needs_observer :: "BalancingRule \<Rightarrow> bool" where
  "needs_observer br \<longleftrightarrow> ToLower (br_Strategy br) = ''leastping'' \<or> ToLower (br_Strategy br) = ''leastload''"

fun check_observers :: "'s router_env \<Rightarrow> BalancingRule option list \<Rightarrow> router_error option" where
  "check_observers env [] = None"
| "check_observers env (None # brs) = Some NilBalancingRule"
| "check_observers env (Some br # brs) =
     (if needs_observer br \<and> \<not> re_observer env then Some (RequiresObservatory (br_Tag br)) else check_observers env brs)"

text \<open>The balancers of a configuration, added to a table and a store.\<close>

type_synonym bal_table = "(string, nat) go_map \<times> Balancer list"

definition add_balancer :: "'s router_env \<Rightarrow> string \<Rightarrow> Balancer \<Rightarrow> bal_table \<Rightarrow> bal_table" where
  "add_balancer env tag b t =
     (case t of (bals, store) \<Rightarrow> (al_put tag (length store) bals, store @ [Balancer_InjectContext env b]))"

fun init_balancers :: "'s router_env \<Rightarrow> BalancingRule option list \<Rightarrow> bal_table \<Rightarrow> router_error option \<times> bal_table" where
  "init_balancers env [] t = (None, t)"
| "init_balancers env (None # brs) t = (Some NilBalancingRule, t)"
| "init_balancers env (Some br # brs) t =
     (if br_Tag br = [] then (Some EmptyBalancerTag, t)
      else if al_get (fst t) (br_Tag br) \<noteq> None then (Some (DuplicateBalancer (br_Tag br)), t)
      else case BalancingRule_Build env br of
             Inl e \<Rightarrow> (Some e, t)
           | Inr b \<Rightarrow> init_balancers env brs (add_balancer env (br_Tag br) b t))"

fun reload_balancers :: "'s router_env \<Rightarrow> BalancingRule option list \<Rightarrow> bal_table \<Rightarrow> router_error + bal_table" where
  "reload_balancers env [] t = Inr t"
| "reload_balancers env (None # brs) t = Inl NilBalancingRule"
| "reload_balancers env (Some br # brs) t =
     (if br_Tag br = [] then Inl NilBalancingRule
      else if al_get (fst t) (br_Tag br) \<noteq> None then Inl (DuplicateBalancer (br_Tag br))
      else if needs_observer br \<and> \<not> re_observer env then Inl (RequiresObservatory (br_Tag br))
      else case BalancingRule_Build env br of
             Inl e \<Rightarrow> Inl e
           | Inr b \<Rightarrow> reload_balancers env brs (add_balancer env (br_Tag br) b t))"

text \<open>The loop over the rules of a configuration, the same in both operations: the error that stopped
  it, and the rules built so far.\<close>

fun build_rules :: "'s router_env \<Rightarrow> (string, nat) go_map \<Rightarrow> RoutingRule option list \<Rightarrow> string list \<Rightarrow> 's world \<Rightarrow>
    (router_error option \<times> Rule list \<times> 's world) option" where
  "build_rules env bals [] tags w = Some (None, [], w)"
| "build_rules env bals (None # rrs) tags w = Some (Some NilRoutingRule, [], w)"
| "build_rules env bals (Some rr # rrs) tags w =
     (if rr_RuleTag rr \<noteq> [] \<and> rr_RuleTag rr \<in> set tags then Some (Some (DuplicateRuleTag (rr_RuleTag rr)), [], w)
      else
        let tags' = (if rr_RuleTag rr \<noteq> [] then rr_RuleTag rr # tags else tags)
        in case BuildCondition env rr w of
             None \<Rightarrow> None
           | Some (Inl e, w1) \<Rightarrow> Some (Some e, [], w1)
           | Some (Inr cond, w1) \<Rightarrow>
               (let btag = GetBalancingTag rr; bal = al_get bals btag
                in if btag \<noteq> [] \<and> bal = None then Some (Some (BalancerNotFound btag), [], w1)
                   else
                     let rule = \<lparr>ru_Tag = GetTag rr, ru_RuleTag = rr_RuleTag rr,
                                 ru_Balancer = (if btag \<noteq> [] then bal else None), ru_Condition = cond\<rparr>
                     in map_option (\<lambda>(e, rules, w2). (e, rule # rules, w2)) (build_rules env bals rrs tags' w1)))"

definition Init :: "'s router_env \<Rightarrow> bool \<Rightarrow> RouterConfig option \<Rightarrow> Router \<Rightarrow> 's world \<Rightarrow>
    (router_error option \<times> Router \<times> 's world) option" where
  "Init env ohm config0 r w =
     (case config0 of
        None \<Rightarrow> Some (Some NilConfig, r, w)
      | Some config \<Rightarrow>
          if \<not> ohm \<and> cf_BalancingRule config \<noteq> [] then Some (Some NoOutboundManager, r, w)
          else case check_observers env (cf_BalancingRule config) of
                 Some e \<Rightarrow> Some (Some e, r, w)
               | None \<Rightarrow>
                   (case init_balancers env (cf_BalancingRule config) ([], r_store r) of
                      (err, bals, store) \<Rightarrow>
                        let r1 = r\<lparr>r_domainStrategy := cf_DomainStrategy config, r_finalOutboundTag := cf_FinalOutboundTag config,
                                   r_balancers := bals, r_store := store\<rparr>
                        in case err of
                             Some e \<Rightarrow> Some (Some e, r1, w)
                           | None \<Rightarrow>
                               map_option (\<lambda>(e, rules, w'). (e, r1\<lparr>r_rules := rules\<rparr>, w'))
                                 (build_rules env bals (cf_Rule config) [] w)))"

definition rule_tags :: "Rule list \<Rightarrow> string list" where
  "rule_tags rules = filter (\<lambda>t. t \<noteq> []) (map ru_RuleTag rules)"

definition ReloadRules :: "'s router_env \<Rightarrow> RouterConfig option \<Rightarrow> bool \<Rightarrow> Router \<Rightarrow> 's world \<Rightarrow>
    (router_error option \<times> Router \<times> 's world) option" where
  "ReloadRules env config0 shouldAppend r w =
     (case config0 of
        None \<Rightarrow> Some (Some NilConfig, r, w)
      | Some config \<Rightarrow>
          let baseRules = (if shouldAppend then r_rules r else []);
              baseBalancers = (if shouldAppend then r_balancers r else [])
          in case reload_balancers env (cf_BalancingRule config) (baseBalancers, r_store r) of
               Inl e \<Rightarrow> Some (Some e, r, w)
             | Inr (bals, store) \<Rightarrow>
                 (case build_rules env bals (cf_Rule config) (rule_tags baseRules) w of
                    None \<Rightarrow> None
                  | Some (Some e, _, w') \<Rightarrow> Some (Some e, r, w')
                  | Some (None, rules, w') \<Rightarrow>
                      (let r1 = r\<lparr>r_rules := baseRules @ rules, r_balancers := bals, r_store := store\<rparr>
                       in Some (None,
                            if shouldAppend then r1
                            else r1\<lparr>r_domainStrategy := cf_DomainStrategy config, r_finalOutboundTag := cf_FinalOutboundTag config\<rparr>,
                            w'))))"

text \<open>\<open>AddRule\<close> gets a message that decodes to an error, to a configuration, or to another type.\<close>

datatype typed_message = UndecodableMessage | ConfigMessage RouterConfig | OtherMessage

datatype add_error = DecodeError | ConfigTypeError | ReloadError router_error

definition AddRule :: "'s router_env \<Rightarrow> typed_message \<Rightarrow> bool \<Rightarrow> Router \<Rightarrow> 's world \<Rightarrow>
    (add_error option \<times> Router \<times> 's world) option" where
  "AddRule env msg shouldAppend r w =
     (case msg of
        UndecodableMessage \<Rightarrow> Some (Some DecodeError, r, w)
      | ConfigMessage c \<Rightarrow>
          map_option (\<lambda>(e, r', w'). (map_option ReloadError e, r', w')) (ReloadRules env (Some c) shouldAppend r w)
      | OtherMessage \<Rightarrow> Some (Some ConfigTypeError, r, w))"

section \<open>Rules\<close>

definition RuleExists :: "Router \<Rightarrow> string \<Rightarrow> bool" where
  "RuleExists r tag = (if tag \<noteq> [] then list_ex (\<lambda>rule. ru_RuleTag rule = tag) (r_rules r) else False)"

definition RemoveRule :: "Router \<Rightarrow> string \<Rightarrow> router_error option \<times> Router" where
  "RemoveRule r tag =
     (if tag \<noteq> [] then (None, r\<lparr>r_rules := filter (\<lambda>rule. ru_RuleTag rule \<noteq> tag) (r_rules r)\<rparr>)
      else (Some EmptyTagName, r))"

definition ListRule :: "Router \<Rightarrow> Route list" where
  "ListRule r =
     map (\<lambda>rule. \<lparr>rt_Context = None, rt_outboundTag = ru_Tag rule, rt_ruleTag = ru_RuleTag rule, rt_fallback = False\<rparr>) (r_rules r)"

section \<open>PickRoute\<close>

definition Rule_Apply :: "'s router_env \<Rightarrow> Rule \<Rightarrow> Ctx \<Rightarrow> 's world \<Rightarrow> (bool \<times> Ctx \<times> 's world) option" where
  "Rule_Apply env rule c w = Chan_Apply env (ru_Condition rule) c w"

fun first_rule :: "'s router_env \<Rightarrow> Rule list \<Rightarrow> Ctx \<Rightarrow> 's world \<Rightarrow> (Rule option \<times> Ctx \<times> 's world) option" where
  "first_rule env [] c w = Some (None, c, w)"
| "first_rule env (rule # rules) c w =
     (case Rule_Apply env rule c w of
        None \<Rightarrow> None
      | Some (True, c', w') \<Rightarrow> Some (Some rule, c', w')
      | Some (False, c', w') \<Rightarrow> first_rule env rules c' w')"

definition pickRouteInternal :: "'s router_env \<Rightarrow> Router \<Rightarrow> Ctx \<Rightarrow> 's world \<Rightarrow>
    ((router_error + Rule) \<times> Ctx \<times> 's world) option" where
  "pickRouteInternal env r c0 w =
     (let strategy = r_domainStrategy r; skip = GetSkipDNSResolve (base_ctx c0);
          c1 = (if strategy = Config_IpOnDemand \<and> \<not> skip then ContextWithDNSClient c0 else c0)
      in case first_rule env (r_rules r) c1 w of
           None \<Rightarrow> None
         | Some (Some rule, c2, w2) \<Rightarrow> Some (Inr rule, c2, w2)
         | Some (None, c2, w2) \<Rightarrow>
             if strategy \<noteq> Config_IpIfNonMatch \<or> GetTargetDomain (base_ctx c2) = [] \<or> skip then Some (Inl ErrNoClue, c2, w2)
             else (case first_rule env (r_rules r) (ContextWithDNSClient c2) w2 of
                     None \<Rightarrow> None
                   | Some (Some rule, c3, w3) \<Rightarrow> Some (Inr rule, c3, w3)
                   | Some (None, c3, w3) \<Rightarrow> Some (Inl ErrNoClue, c3, w3)))"

definition Rule_GetTag :: "'s router_env \<Rightarrow> Rule \<Rightarrow> Router \<Rightarrow> 's world \<Rightarrow>
    ((router_error + string) \<times> Router \<times> 's world) option" where
  "Rule_GetTag env rule r w =
     (case ru_Balancer rule of
        None \<Rightarrow> Some (Inr (ru_Tag rule), r, w)
      | Some i \<Rightarrow>
          if length (r_store r) \<le> i then None
          else map_option (\<lambda>(t, b, w'). (t, r\<lparr>r_store := (r_store r)[i := b]\<rparr>, w')) (Balancer_PickOutbound env (r_store r ! i) w))"

definition PickRoute :: "'s router_env \<Rightarrow> Router \<Rightarrow> Ctx \<Rightarrow> 's world \<Rightarrow>
    ((router_error + Route) \<times> Router \<times> 's world) option" where
  "PickRoute env r c w =
     (case pickRouteInternal env r c w of
        None \<Rightarrow> None
      | Some (Inl e, c', w') \<Rightarrow>
          Some (if e = ErrNoClue \<and> r_finalOutboundTag r \<noteq> []
                then Inr \<lparr>rt_Context = Some c', rt_outboundTag = r_finalOutboundTag r, rt_ruleTag = [], rt_fallback = True\<rparr>
                else Inl e, r, w')
      | Some (Inr rule, c', w') \<Rightarrow>
          map_option
            (\<lambda>(t, r', w''). (map_sum id (\<lambda>tag. \<lparr>rt_Context = Some c', rt_outboundTag = tag, rt_ruleTag = ru_RuleTag rule, rt_fallback = False\<rparr>) t, r', w''))
            (Rule_GetTag env rule r w'))"

section \<open>Balancers by tag\<close>

definition GetPrincipleTarget :: "'s router_env \<Rightarrow> Router \<Rightarrow> string \<Rightarrow> 's world \<Rightarrow>
    ((router_error + string list) \<times> Router \<times> 's world) option" where
  "GetPrincipleTarget env r tag w =
     (case al_get (r_balancers r) tag of
        None \<Rightarrow> Some (Inl CannotFindTag, r, w)
      | Some i \<Rightarrow>
          (case SelectOutbounds env (r_store r ! i) w of
             Inl e \<Rightarrow> Some (Inl e, r, w)
           | Inr candidates \<Rightarrow>
               map_option (\<lambda>(ts, s, w'). (Inr ts, r\<lparr>r_store := (r_store r)[i := (r_store r ! i)\<lparr>bl_strategy := s\<rparr>]\<rparr>, w'))
                 (strategy_PrincipleTarget env (bl_strategy (r_store r ! i)) candidates w)))"

definition SetOverrideTarget :: "Router \<Rightarrow> string \<Rightarrow> string \<Rightarrow> router_error option \<times> Router" where
  "SetOverrideTarget r tag target =
     (case al_get (r_balancers r) tag of
        None \<Rightarrow> (Some CannotFindTag, r)
      | Some i \<Rightarrow> (None, r\<lparr>r_store := (r_store r)[i := override_Put target (r_store r ! i)]\<rparr>))"

definition GetOverrideTarget :: "Router \<Rightarrow> string \<Rightarrow> router_error + string" where
  "GetOverrideTarget r tag =
     (case al_get (r_balancers r) tag of None \<Rightarrow> Inl CannotFindTag | Some i \<Rightarrow> Inr (override_Get (r_store r ! i)))"

definition OverrideBalancer :: "Router \<Rightarrow> string \<Rightarrow> string \<Rightarrow> router_error option \<times> Router" where
  "OverrideBalancer r balancer target =
     (case al_get (r_balancers r) balancer of
        None \<Rightarrow> (Some (BalancerNotFound balancer), r)
      | Some i \<Rightarrow> (None, r\<lparr>r_store := (r_store r)[i := override_Put target (r_store r ! i)]\<rparr>))"

section \<open>Steps\<close>

text \<open>A history of the router: it starts with a successful \<open>Init\<close> in a world, and its operations
  follow one another; between them the outside may change the outbounds, and reload the data.\<close>

type_synonym 's system = "Router \<times> 's world"

definition same_shape :: "'s world \<Rightarrow> 's world \<Rightarrow> bool" where
  "same_shape w w' \<longleftrightarrow> length (reg_matchers (w_ips w)) \<le> length (reg_matchers (w_ips w')) \<and>
     length (dr_matchers (w_domains w)) \<le> length (dr_matchers (w_domains w'))"

inductive router_step :: "'s router_env \<Rightarrow> 's system \<Rightarrow> 's system \<Rightarrow> bool" for env where
  reload: "ReloadRules env cfg app r w = Some (e, r', w') \<Longrightarrow> router_step env (r, w) (r', w')"
| add: "AddRule env msg app r w = Some (e', r', w') \<Longrightarrow> router_step env (r, w) (r', w')"
| remove: "RemoveRule r tag = (e, r') \<Longrightarrow> router_step env (r, w) (r', w)"
| pick: "PickRoute env r c w = Some (route, r', w') \<Longrightarrow> router_step env (r, w) (r', w')"
| principle: "GetPrincipleTarget env r tag w = Some (ts, r', w') \<Longrightarrow> router_step env (r, w) (r', w')"
| override: "SetOverrideTarget r tag target = (e, r') \<Longrightarrow> router_step env (r, w) (r', w)"
| override_balancer: "OverrideBalancer r tag target = (e, r') \<Longrightarrow> router_step env (r, w) (r', w)"
| outside: "same_shape w w' \<Longrightarrow> router_step env (r, w) (r, w')"

inductive router_reachable :: "'s router_env \<Rightarrow> 's system \<Rightarrow> bool" for env where
  init: "Init env ohm cfg new_Router w = Some (None, r, w') \<Longrightarrow> router_reachable env (r, w')"
| step: "router_reachable env s \<Longrightarrow> router_step env s s' \<Longrightarrow> router_reachable env s'"

end
