(* ===== verification/BalancingProps.thy ===== *)
theory BalancingProps
  imports Balancing OutboundProofs DomainProps
begin

text \<open>
  What the balancing strategies promise: the filter of living candidates and its cache, the fairness of
  round robin, the choices of least ping and least load, and that a balancer picks a selected outbound,
  its override or its fallback.
\<close>

section \<open>An example\<close>

definition ex_status :: "OutboundStatus list" where
  "ex_status = [OutboundStatus ''wan1'' True 30 None, OutboundStatus ''block'' False 1 None, OutboundStatus ''wan2'' True 20 None]"

definition ex_renv :: "netprefix list router_env" where
  "ex_renv = \<lparr>re_dom = ex_env, re_nx = list_netipx, re_ipload = (\<lambda>f c. Inl EOF), re_lookup = (\<lambda>n d. Some [[10, 0, 0, 1]]),
     re_order = (\<lambda>xs. xs), re_clock = int,
     re_find = (\<lambda>n k. \<lparr>pr_pid = 0, pr_name = [], pr_path = [], pr_err = Some ErrNotLocal\<rparr>), re_pid = 1,
     re_roll = (\<lambda>n k. 0), re_observer = True, re_obs = (\<lambda>n. ObservationResult ex_status), re_selects = True,
     re_floats = \<lparr>fo_widen = (\<lambda>v. 0), fo_parse = (\<lambda>s. None), fo_cost = (\<lambda>x v. v), fo_exceeds = (\<lambda>f a t. False), fo_find = (\<lambda>re s. [])\<rparr>\<rparr>"

definition ex_world :: "netprefix list world" where
  "ex_world = \<lparr>w_step = 0, w_ips = \<lparr>reg_cache = [], reg_matchers = []\<rparr>, w_domains = \<lparr>dr_factory = CompactFactory [], dr_matchers = []\<rparr>,
     w_process = newProcessLookupCache, w_outbounds = ex_manager\<rparr>"

section \<open>Living candidates\<close>

lemma alive_loop_spec:
  assumes "alive = (if list_all (is_alive st) pre then None else Some (filter (is_alive st) pre))"
  shows "alive_loop st (pre @ rest) (length pre) rest alive =
    (if list_all (is_alive st) (pre @ rest) then None else Some (filter (is_alive st) (pre @ rest)))"
  using assms
proof (induction rest arbitrary: pre alive)
  case (Cons c cs)
  let ?alive = "if \<not> is_alive st c \<and> alive = None then Some (take (length pre) (pre @ c # cs))
    else if is_alive st c \<and> alive \<noteq> None then map_option (\<lambda>a. a @ [c]) alive else alive"
  have "?alive = (if list_all (is_alive st) (pre @ [c]) then None else Some (filter (is_alive st) (pre @ [c])))"
    using Cons(2) by (auto simp: list_all_iff filter_id_conv)
  from Cons(1) [OF this] show ?case by simp
qed simp

lemma filterAlive_filter: "filterAliveCandidates candidates st = filter (is_alive st) candidates"
  using alive_loop_spec [of None st "[]" candidates]
  by (auto simp: filterAliveCandidates_def list_all_iff filter_id_conv split: option.splits)

lemma stringSlicesEqual_iff: "stringSlicesEqual xs ys \<longleftrightarrow> xs = ys"
  by (induction xs ys rule: stringSlicesEqual.induct) auto

text \<open>The cache holds what was filtered for some statuses.\<close>

definition alive_cache_of :: "OutboundStatus list \<Rightarrow> aliveCache \<Rightarrow> bool" where
  "alive_cache_of st c \<longleftrightarrow> al_fingerprint c = statusFingerprint st \<and> al_alive c = filter (is_alive st) (al_candidates c)"

lemma empty_alive_of: "alive_cache_of [] empty_alive"
  by (simp add: alive_cache_of_def empty_alive_def statusFingerprint_def)

lemma fingerprint_sum: "statusFingerprint st = sum_list (map status_hash st)"
proof -
  have "foldl (\<lambda>fp s. fp + status_hash s) a st = a + sum_list (map status_hash st)" for a
    by (induction st arbitrary: a) (simp_all add: add.assoc)
  then show ?thesis by (simp add: statusFingerprint_def)
qed

text \<open>The fingerprint does not depend on the order of the statuses, and the cached filter gives the
  candidates that the statuses do not report dead, in order, as long as the statuses it was filled with
  agree on who is alive when their fingerprint is the same; the cache then holds these statuses.\<close>

theorem alive_filter_exact:
  assumes "alive_cache_of st0 c" "statusFingerprint st0 = statusFingerprint st \<longrightarrow> is_alive st0 = is_alive st"
  shows "fst (alive_filter c candidates st) = filter (is_alive st) candidates \<and>
    (alive_cache_of st0 (snd (alive_filter c candidates st)) \<or> alive_cache_of st (snd (alive_filter c candidates st))) \<and>
    (mset st' = mset st \<longrightarrow> statusFingerprint st' = statusFingerprint st)"
proof (intro conjI impI)
  show "fst (alive_filter c candidates st) = filter (is_alive st) candidates"
    using assms by (auto simp: alive_filter_def alive_cache_of_def Let_def stringSlicesEqual_iff filterAlive_filter)
  show "alive_cache_of st0 (snd (alive_filter c candidates st)) \<or> alive_cache_of st (snd (alive_filter c candidates st))"
    using assms(1) by (auto simp: alive_filter_def alive_cache_of_def Let_def filterAlive_filter)
  assume "mset st' = mset st"
  then have "mset (map status_hash st') = mset (map status_hash st)" by simp
  then show "statusFingerprint st' = statusFingerprint st"
    by (simp only: fingerprint_sum flip: sum_mset_sum_list)
qed

theorem alive_filter_exact_witness:
  "fst (alive_filter empty_alive [''a'', ''b''] [OutboundStatus ''a'' False 0 None]) = [''b'']"
proof -
  let ?st = "[OutboundStatus ''a'' False 0 None]"
  have "statusFingerprint [] = statusFingerprint ?st \<longrightarrow> is_alive [] = is_alive ?st"
    by (simp add: statusFingerprint_def status_hash_def fnv_byte_def)
  from alive_filter_exact [OF empty_alive_of this, of "[''a'', ''b'']"] show ?thesis by (simp add: is_alive_def)
qed

section \<open>Round robin\<close>

fun round_robin_picks :: "'s router_env \<Rightarrow> string list \<Rightarrow> nat \<Rightarrow> RoundRobinStrategy \<Rightarrow> 's world \<Rightarrow> string list option" where
  "round_robin_picks env tags 0 s w = Some []"
| "round_robin_picks env tags (Suc k) s w =
     (case RoundRobin_Pick env s tags w of
        None \<Rightarrow> None
      | Some (t, s', w') \<Rightarrow> map_option (\<lambda>ts. t # ts) (round_robin_picks env tags k s' w'))"

lemma round_robin_seq:
  assumes "\<not> rb_observed s" "tags \<noteq> []"
  shows "round_robin_picks env tags k s w = Some (map (\<lambda>j. tags ! ((rb_index s + j) mod length tags)) [0..<k])"
  using assms
proof (induction k arbitrary: s w)
  case (Suc k)
  define s' where "s' = s\<lparr>rb_alive := rb_alive s, rb_index := (rb_index s + 1) mod length tags\<rparr>"
  have p: "RoundRobin_Pick env s tags w = Some (tags ! (rb_index s mod length tags), s', w)"
    using Suc(2,3) by (simp add: RoundRobin_Pick_def living_def s'_def Let_def go_mod_def pick_at_def)
  have "round_robin_picks env tags k s' w = Some (map (\<lambda>j. tags ! ((rb_index s' + j) mod length tags)) [0..<k])"
    using Suc by (simp add: s'_def)
  moreover have "(rb_index s' + j) mod length tags = (rb_index s + Suc j) mod length tags" for j
    by (simp add: s'_def mod_add_left_eq)
  ultimately show ?case by (simp add: p upt_conv_Cons map_Suc_upt [symmetric] comp_def del: upt_Suc map_Suc_upt)
qed simp

lemma mset_rotate: "mset (rotate i xs) = mset xs"
proof (induction i)
  case (Suc i)
  then show ?case by (cases "rotate i xs") simp_all
qed simp

lemma rotate_mset: "xs \<noteq> [] \<Longrightarrow> mset (map (\<lambda>j. xs ! ((i + j) mod length xs)) [0..<length xs]) = mset xs"
proof -
  assume "xs \<noteq> []"
  then have "map (\<lambda>j. xs ! ((i + j) mod length xs)) [0..<length xs] = rotate i xs"
    by (intro nth_equalityI) (simp_all add: nth_rotate add.commute)
  then show ?thesis by (simp add: mset_rotate)
qed

text \<open>Round robin is fair: whatever it picked before, as many picks as there are candidates give
  each candidate its turn, exactly as often as it is listed.\<close>

theorem round_robin_fair:
  assumes "\<not> rb_observed s" "tags \<noteq> []"
  shows "\<exists>ts. round_robin_picks env tags (length tags) s w = Some ts \<and> mset ts = mset tags"
  using round_robin_seq [OF assms] rotate_mset [OF assms(2)] by blast

definition ex_round_robin :: RoundRobinStrategy where
  "ex_round_robin = \<lparr>rb_FallbackTag = [], rb_observed = False, rb_alive = empty_alive, rb_index = 5\<rparr>"

theorem round_robin_fair_witness:
  "\<exists>ts. round_robin_picks ex_renv [''a'', ''b'', ''c''] 3 ex_round_robin ex_world = Some ts \<and>
     mset ts = {#''a'', ''b'', ''c''#}"
  using round_robin_fair [of ex_round_robin "[''a'', ''b'', ''c'']"] by (simp add: ex_round_robin_def numeral_3_eq_3)

section \<open>Least ping\<close>

definition pingable :: "string list \<Rightarrow> OutboundStatus list \<Rightarrow> OutboundStatus list" where
  "pingable tags st = filter (\<lambda>v. os_tag v \<in> set tags \<and> os_alive v \<and> os_delay v < 99999999) st"

lemma outboundList_contains_iff: "outboundList_contains tags t \<longleftrightarrow> t \<in> set tags"
  by (induction tags) auto

lemma least_ping_spec:
  "least_ping_loop tags st least sel = sel \<and> (\<forall>v \<in> set st. os_tag v \<in> set tags \<and> os_alive v \<longrightarrow> least \<le> os_delay v) \<or>
   (\<exists>v \<in> set st. least_ping_loop tags st least sel = os_tag v \<and> os_tag v \<in> set tags \<and> os_alive v \<and> os_delay v < least \<and>
      (\<forall>u \<in> set st. os_tag u \<in> set tags \<and> os_alive u \<longrightarrow> os_delay v \<le> os_delay u))"
proof (induction st arbitrary: least sel)
  case (Cons v vs)
  show ?case
  proof (cases "os_tag v \<in> set tags \<and> os_alive v \<and> os_delay v < least")
    case True
    then show ?thesis using Cons [of "os_delay v" "os_tag v"] by (auto simp: outboundList_contains_iff)
  next
    case False
    then show ?thesis using Cons [of least sel] by (auto simp: outboundList_contains_iff)
  qed
qed simp

text \<open>Least ping picks a living candidate whose delay no other living candidate beats, and none
  exactly when there is no living candidate with a delay below its bound.\<close>

theorem least_ping_minimal:
  assumes "re_obs env (w_step w) = ObservationResult st" "[] \<notin> set tags"
  shows "\<exists>t w'. LeastPing_Pick env True tags w = Some (t, w') \<and> (t = [] \<longleftrightarrow> pingable tags st = []) \<and>
    (t \<noteq> [] \<longrightarrow> (\<exists>v \<in> set (pingable tags st). t = os_tag v \<and> (\<forall>u \<in> set (pingable tags st). os_delay v \<le> os_delay u)))"
proof -
  let ?t = "least_ping_loop tags st 99999999 []"
  have e: "LeastPing_Pick env True tags w = Some (?t, w\<lparr>w_step := Suc (w_step w)\<rparr>)"
    using assms(1) by (simp add: LeastPing_Pick_def)
  from least_ping_spec [of tags st 99999999 "[]"]
  have "(?t = [] \<longleftrightarrow> pingable tags st = []) \<and> (?t \<noteq> [] \<longrightarrow>
    (\<exists>v \<in> set (pingable tags st). ?t = os_tag v \<and> (\<forall>u \<in> set (pingable tags st). os_delay v \<le> os_delay u)))"
  proof (elim disjE conjE bexE)
    assume "?t = []" and "\<forall>v \<in> set st. os_tag v \<in> set tags \<and> os_alive v \<longrightarrow> 99999999 \<le> os_delay v"
    moreover from this(2) have "pingable tags st = []" unfolding pingable_def filter_empty_conv by force
    ultimately show ?thesis by simp
  next
    fix v
    assume v: "v \<in> set st" "?t = os_tag v" "os_tag v \<in> set tags" "os_alive v" "os_delay v < 99999999"
      "\<forall>u \<in> set st. os_tag u \<in> set tags \<and> os_alive u \<longrightarrow> os_delay v \<le> os_delay u"
    then have "v \<in> set (pingable tags st)" by (simp add: pingable_def)
    moreover have "os_tag v \<noteq> []" using v(3) assms(2) by auto
    moreover have "\<forall>u \<in> set (pingable tags st). os_delay v \<le> os_delay u" using v(6) by (simp add: pingable_def)
    ultimately show ?thesis using v(2) by (metis empty_iff list.set(1))
  qed
  with e show ?thesis by blast
qed

lemma ex_obs: "re_obs ex_renv n = ObservationResult ex_status"
  by (simp add: ex_renv_def)

theorem least_ping_minimal_witness: "\<exists>w'. LeastPing_Pick ex_renv True [''wan1'', ''wan2''] ex_world = Some (''wan2'', w')"
  using least_ping_minimal [OF ex_obs, of "[''wan1'', ''wan2'']"] by (auto simp: pingable_def ex_status_def)

section \<open>Least load\<close>

lemma below_baseline_le: "below_baseline b ns \<le> length ns"
  by (induction ns) auto

lemma below_baseline_cost: "i < below_baseline b ns \<Longrightarrow> nd_RTTDeviationCost (ns ! i) < b"
proof (induction ns arbitrary: i)
  case (Cons n ns)
  then show ?case by (cases i) (auto split: if_splits)
qed simp

lemma baselines_loop_bounds:
  "cnt \<le> length nodes \<Longrightarrow> cnt \<le> baselines_loop e nodes cnt bs \<and> baselines_loop e nodes cnt bs \<le> length nodes"
proof (induction e nodes cnt bs rule: baselines_loop.induct)
  case (2 e nodes cnt b bs)
  have "cnt + below_baseline b (drop cnt nodes) \<le> length nodes"
    using below_baseline_le [of b "drop cnt nodes"] 2(2) by simp
  then show ?case using 2(1) by (fastforce simp: Let_def)
qed simp

text \<open>No slice of the selection is out of range.\<close>

lemma selectLeastLoad_take:
  "\<exists>k. selectLeastLoad st ns = Some (take k ns) \<and> (ns \<noteq> [] \<and> 0 < ll_Expected st \<longrightarrow> min (nat (ll_Expected st)) (length ns) \<le> k) \<and>
     (ll_Baselines st = [] \<longrightarrow> min k (length ns) = min (nat (max 1 (ll_Expected st))) (length ns))"
proof (cases "ns = [] \<or> int (length ns) < ll_Expected st")
  case True
  then show ?thesis by (intro exI [of _ "length ns"]) (auto simp: selectLeastLoad_def)
next
  case False
  define e where "e = (if ll_Expected st \<le> 0 then 1 else nat (ll_Expected st))"
  have e: "e \<le> length ns" "ns \<noteq> []" using False by (cases ns; auto simp: e_def)+
  define cnt where "cnt = baselines_loop e ns 0 (ll_Baselines st)"
  have c: "cnt \<le> length ns" using baselines_loop_bounds [of 0 ns e "ll_Baselines st"] by (simp add: cnt_def)
  define k where "k = (if ll_Baselines st = [] then e else if 0 < ll_Expected st \<and> cnt < e then e else cnt)"
  have "selectLeastLoad st ns = slice_to ns k"
    using False e(2) by (simp add: selectLeastLoad_def Let_def k_def cnt_def e_def)
  moreover have "k \<le> length ns" using e c by (simp add: k_def)
  moreover have "0 < ll_Expected st \<longrightarrow> min (nat (ll_Expected st)) (length ns) \<le> k" by (auto simp: k_def e_def)
  moreover have "ll_Baselines st = [] \<longrightarrow> k = nat (max 1 (ll_Expected st))" by (auto simp: k_def e_def max_def)
  ultimately show ?thesis by (intro exI [of _ k]) (simp add: slice_to_def)
qed

lemma pickOutbounds_total: "\<exists>sel s' w'. pickOutbounds env s candidates w = Some (sel, s', w')"
proof -
  obtain ns s' w' where g: "getNodes env s candidates w = (ns, s', w')" by (metis prod_cases3)
  obtain k where "selectLeastLoad (ls_settings s') ns = Some (take k ns)" using selectLeastLoad_take by blast
  then show ?thesis using g by (simp add: pickOutbounds_def)
qed

lemma sorted_leastload: "sorted (map load_key (leastloadSort ns))" "mset (leastloadSort ns) = mset ns"
  by (simp_all add: leastloadSort_def)

lemma nodes_loop_member:
  "n \<in> set (fst (nodes_loop fo cfg candidates st m)) \<Longrightarrow> \<exists>v \<in> set st. nd_Tag n = os_tag v \<and> shouldSelectNode fo cfg v candidates"
proof (induction fo cfg candidates st m rule: nodes_loop.induct)
  case (2 fo cfg candidates v vs m)
  have "nd_Tag (fst (node_of fo m v)) = os_tag v" by (simp add: node_of_def Let_def split: prod.splits option.splits)
  with 2 show ?case by (auto split: if_splits prod.splits)
qed simp

lemma shouldSelect_fields: "shouldSelectNode fo cfg v candidates \<Longrightarrow> os_alive v \<and> os_tag v \<in> set candidates"
  by (simp add: shouldSelectNode_def split: if_splits)

text \<open>Least load selects living candidates only, and no candidate it leaves out has a lower cost than one
  it selects. It selects at least the expected number while there are as many, and exactly that number
  (one when none is expected) without baselines.\<close>

theorem least_load_selects_best:
  assumes "re_obs env (w_step w) = ObservationResult st" "ls_observed s"
    "ns = fst (nodes_loop (re_floats env) (ls_settings s) candidates st (ls_costs s))"
    "pickOutbounds env s candidates w = Some (sel, s', w')"
  shows "mset sel \<subseteq># mset ns \<and>
    (\<forall>n \<in> set sel. nd_Tag n \<in> set candidates \<and> (\<exists>v \<in> set st. os_tag v = nd_Tag n \<and> os_alive v)) \<and>
    (\<forall>n \<in> set sel. \<forall>m \<in># mset ns - mset sel. nd_RTTDeviationCost n \<le> nd_RTTDeviationCost m) \<and>
    (0 < ll_Expected (ls_settings s) \<longrightarrow> min (nat (ll_Expected (ls_settings s))) (length ns) \<le> length sel) \<and>
    (ll_Baselines (ls_settings s) = [] \<longrightarrow> length sel = min (nat (max 1 (ll_Expected (ls_settings s)))) (length ns))"
proof -
  let ?cfg = "ls_settings s" and ?ns = "leastloadSort ns"
  have sel: "selectLeastLoad ?cfg ?ns = Some sel"
    using assms by (auto simp: pickOutbounds_def getNodes_def Let_def split: prod.splits)
  obtain k where k: "sel = take k ?ns" "?ns \<noteq> [] \<and> 0 < ll_Expected ?cfg \<longrightarrow> min (nat (ll_Expected ?cfg)) (length ?ns) \<le> k"
      "ll_Baselines ?cfg = [] \<longrightarrow> min k (length ?ns) = min (nat (max 1 (ll_Expected ?cfg))) (length ?ns)"
    using selectLeastLoad_take [of ?cfg ?ns] sel by auto
  have len: "length ?ns = length ns" using sorted_leastload(2) by (metis size_mset)
  have split: "mset ns = mset sel + mset (drop k ?ns)"
    unfolding k(1) by (metis append_take_drop_id mset_append sorted_leastload(2))
  then have sub: "mset sel \<subseteq># mset ns" by simp
  have mem: "n \<in> set ns" if "n \<in> set sel" for n using sub that by (meson mset_subset_eqD set_mset_mset in_multiset_in_set)
  have "nd_Tag n \<in> set candidates \<and> (\<exists>v \<in> set st. os_tag v = nd_Tag n \<and> os_alive v)" if "n \<in> set sel" for n
    using nodes_loop_member [of n "re_floats env" ?cfg candidates st "ls_costs s"] mem [OF that] assms(3) shouldSelect_fields by metis
  moreover have "nd_RTTDeviationCost n \<le> nd_RTTDeviationCost m" if "n \<in> set sel" "m \<in># mset ns - mset sel" for n m
  proof -
    have "sorted (map load_key (take k ?ns @ drop k ?ns))" by (simp add: sorted_leastload(1))
    moreover have "m \<in> set (drop k ?ns)" using that(2) split by simp
    ultimately have "load_key n \<le> load_key m" using that(1) k(1) unfolding map_append sorted_append by auto
    then show ?thesis by (auto simp: load_key_def)
  qed
  moreover have "0 < ll_Expected ?cfg \<longrightarrow> min (nat (ll_Expected ?cfg)) (length ns) \<le> length sel"
    using k(2) len by (cases "?ns = []") (auto simp: k(1))
  moreover have "ll_Baselines ?cfg = [] \<longrightarrow> length sel = min (nat (max 1 (ll_Expected ?cfg))) (length ns)"
    using len k(3) by (simp add: k(1) min.commute)
  ultimately show ?thesis using sub by blast
qed

definition ex_least_load :: LeastLoadStrategy where
  "ex_least_load = \<lparr>ls_settings = \<lparr>ll_Costs = [], ll_Baselines = [], ll_Expected = 1, ll_MaxRTT = 0, ll_Tolerance = 0\<rparr>,
     ls_costs = NewWeightManager (\<lambda>_. None) [] 0x3FF0000000000000, ls_observed = True\<rparr>"

theorem least_load_selects_best_witness:
  "\<exists>sel s' w'. pickOutbounds ex_renv ex_least_load [''wan1'', ''wan2''] ex_world = Some (sel, s', w') \<and> length sel = 1"
proof -
  obtain sel s' w' where p: "pickOutbounds ex_renv ex_least_load [''wan1'', ''wan2''] ex_world = Some (sel, s', w')"
    using pickOutbounds_total by blast
  have "length (fst (nodes_loop (re_floats ex_renv) (ls_settings ex_least_load) [''wan1'', ''wan2''] ex_status (ls_costs ex_least_load))) = 2"
    by (simp add: ex_status_def ex_least_load_def shouldSelectNode_def split: prod.splits)
  with least_load_selects_best [OF ex_obs _ refl p] p show ?thesis by (simp add: ex_least_load_def)
qed

section \<open>Balancers\<close>

text \<open>A cached filter never invents a candidate.\<close>

definition cache_sub :: "aliveCache \<Rightarrow> bool" where
  "cache_sub c \<longleftrightarrow> set (al_alive c) \<subseteq> set (al_candidates c)"

fun strategy_ok :: "BalancingStrategy \<Rightarrow> bool" where
  "strategy_ok (RoundRobin s) = cache_sub (rb_alive s)"
| "strategy_ok (RandomPick s) = cache_sub (rn_alive s)"
| "strategy_ok (LeastPing ob) = True"
| "strategy_ok (LeastLoad s) = True"

lemma alive_filter_sub:
  "cache_sub c \<Longrightarrow> alive_filter c tags st = (ts, c') \<Longrightarrow> set ts \<subseteq> set tags \<and> cache_sub c'"
  by (auto simp: alive_filter_def Let_def stringSlicesEqual_iff cache_sub_def filterAlive_filter split: if_splits)

lemma living_sub:
  assumes "living env ob c tags w = Some (ts, c', w')" "cache_sub c"
  shows "set ts \<subseteq> set tags \<and> cache_sub c'"
proof (cases "ob \<and> (\<exists>st. re_obs env (w_step w) = ObservationResult st)")
  case True
  then obtain st where "re_obs env (w_step w) = ObservationResult st" by blast
  with True assms(1) have "alive_filter c tags st = (ts, c')" by (auto simp: living_def Let_def split: prod.splits)
  then show ?thesis using alive_filter_sub [OF assms(2)] by blast
next
  case False
  then show ?thesis using assms by (auto simp: living_def Let_def split: if_splits observation.splits)
qed

lemma pick_at_member: "pick_at xs i = Some x \<Longrightarrow> x \<in> set xs"
  by (auto simp: pick_at_def split: if_splits)

text \<open>The interface \<open>BalancingStrategy\<close>: a pick keeps the strategy well-formed and gives a candidate or
  nothing, so a series of picks does.\<close>

locale balancing_strategy =
  fixes ok :: "'st \<Rightarrow> bool"
    and pick :: "'st \<Rightarrow> string list \<Rightarrow> 's world \<Rightarrow> (string \<times> 'st \<times> 's world) option"
  assumes pick_member: "pick s tags w = Some (t, s', w') \<Longrightarrow> ok s \<Longrightarrow> ok s' \<and> (t \<noteq> [] \<longrightarrow> t \<in> set tags)"
begin

primrec picks :: "string list list \<Rightarrow> 'st \<Rightarrow> 's world \<Rightarrow> (string list \<times> 'st) option" where
  "picks [] s w = Some ([], s)"
| "picks (tags # rest) s w =
     (case pick s tags w of None \<Rightarrow> None | Some (t, s', w') \<Rightarrow> map_option (\<lambda>(ts, s''). (t # ts, s'')) (picks rest s' w'))"

lemma picks_members:
  "picks tagss s w = Some (ts, s') \<Longrightarrow> ok s \<Longrightarrow> ok s' \<and> list_all2 (\<lambda>t tags. t \<noteq> [] \<longrightarrow> t \<in> set tags) ts tagss"
proof (induction tagss arbitrary: s w ts)
  case (Cons tags tagss)
  then obtain t s1 w1 ts1 where p: "pick s tags w = Some (t, s1, w1)" "picks tagss s1 w1 = Some (ts1, s')" "ts = t # ts1"
    by (auto split: option.splits)
  from pick_member [OF p(1) Cons(3)] Cons(1) [OF p(2)] show ?case by (simp add: p(3))
qed simp

end

interpretation round_robin: balancing_strategy "\<lambda>r. cache_sub (rb_alive r)" "RoundRobin_Pick env"
proof (unfold_locales, goal_cases)
  case (1 r tags w t r' w')
  then obtain ts c w1 where l: "living env (rb_observed r) (rb_alive r) tags w = Some (ts, c, w1)"
    by (auto simp: RoundRobin_Pick_def bind_eq_Some_conv)
  from living_sub [OF this] 1(2) have "set ts \<subseteq> set tags" "cache_sub c" by auto
  moreover have "ts \<noteq> [] \<Longrightarrow> t \<in> set ts" "rb_alive r' = c" "ts = [] \<Longrightarrow> t = []"
    using 1(1) l by (auto simp: RoundRobin_Pick_def Let_def bind_eq_Some_conv pick_at_def split: if_splits)
  ultimately show ?case by auto
qed

interpretation random: balancing_strategy "\<lambda>r. cache_sub (rn_alive r)" "Random_Pick env"
proof (unfold_locales, goal_cases)
  case (1 r tags w t r' w')
  then obtain ts c w1 where l: "living env (rn_observed r) (rn_alive r) tags w = Some (ts, c, w1)"
    by (auto simp: Random_Pick_def bind_eq_Some_conv)
  from living_sub [OF this] 1(2) have "set ts \<subseteq> set tags" "cache_sub c" by auto
  moreover have "ts \<noteq> [] \<Longrightarrow> t \<in> set ts" "rn_alive r' = c" "ts = [] \<Longrightarrow> t = []"
    using 1(1) l by (auto simp: Random_Pick_def Let_def dest: pick_at_member split: if_splits prod.splits)
  ultimately show ?case by auto
qed

interpretation least_ping: balancing_strategy "\<lambda>ob. True" "\<lambda>ob tags w. map_option (\<lambda>(t, w'). (t, ob, w')) (LeastPing_Pick env ob tags w)"
proof (unfold_locales, goal_cases)
  case (1 ob tags w t ob' w')
  have "least_ping_loop tags st 99999999 [] = [] \<or> least_ping_loop tags st 99999999 [] \<in> set tags" for st
    using least_ping_spec [of tags st 99999999 "[]"] by auto
  then show ?case using 1(1) by (auto simp: LeastPing_Pick_def Let_def split: if_splits observation.splits)
qed

lemma pickOutbounds_member:
  assumes "pickOutbounds env l tags w = Some (sel, l', w')" "n \<in> set sel"
  shows "nd_Tag n \<in> set tags"
proof -
  obtain ns where ns: "getNodes env l tags w = (ns, l', w')" "selectLeastLoad (ls_settings l') ns = Some sel"
    using assms(1) by (auto simp: pickOutbounds_def split: prod.splits)
  then have "n \<in> set ns" using assms(2) selectLeastLoad_take [of "ls_settings l'" ns] by (auto dest: in_set_takeD)
  then obtain st where "n \<in> set (fst (nodes_loop (re_floats env) (ls_settings l) tags st (ls_costs l)))"
    using ns(1) sorted_leastload(2) [THEN mset_eq_setD]
    by (auto simp: getNodes_def Let_def split: if_splits observation.splits prod.splits) (metis fst_conv)
  then show ?thesis using nodes_loop_member shouldSelect_fields by metis
qed

interpretation least_load: balancing_strategy "\<lambda>l. True" "LeastLoad_Pick env"
proof (unfold_locales, goal_cases)
  case (1 l tags w t l' w')
  obtain sel l1 w1 where p: "pickOutbounds env l tags w = Some (sel, l1, w1)" using pickOutbounds_total by blast
  show ?case using 1(1) p pickOutbounds_member [OF p]
    by (auto simp: LeastLoad_Pick_def dest: pick_at_member split: if_splits prod.splits)
qed

interpretation strategy: balancing_strategy strategy_ok "strategy_Pick env"
proof (unfold_locales, goal_cases)
  case (1 s tags w t s' w')
  show ?case
  proof (cases s)
    case (RoundRobin r)
    then show ?thesis using 1 round_robin.pick_member [of env r] by auto
  next
    case (RandomPick r)
    then show ?thesis using 1 random.pick_member [of env r] by auto
  next
    case (LeastPing ob)
    then show ?thesis using 1 least_ping.pick_member [where env = env and s = ob] by auto
  next
    case (LeastLoad l)
    then show ?thesis using 1 least_load.pick_member [of env l] by auto
  qed
qed

text \<open>A balancer that answers gives its override when one is set, else a selected outbound, or its
  fallback; it fails only without a fallback, and its cache stays within its candidates.\<close>

theorem balancer_picks_member:
  assumes "Balancer_PickOutbound env b w = Some (res, b', w')" "strategy_ok (bl_strategy b)"
  shows "strategy_ok (bl_strategy b') \<and>
    (case res of
       Inr t \<Rightarrow> t \<noteq> [] \<and> (t = bl_override b \<or> t = bl_fallbackTag b \<or> bl_override b = [] \<and> t \<in> set (Select (w_outbounds w) (bl_selectors b)))
     | Inl e \<Rightarrow> bl_fallbackTag b = []) \<and>
    (re_selects env \<and> bl_override b \<noteq> [] \<longrightarrow> res = Inr (bl_override b)) \<and>
    (\<not> re_selects env \<and> bl_fallbackTag b \<noteq> [] \<longrightarrow> res = Inr (bl_fallbackTag b))"
proof (cases "re_selects env \<and> bl_override b = []")
  case False
  then show ?thesis using assms
    by (auto simp: Balancer_PickOutbound_def SelectOutbounds_def override_Get_def split: if_splits)
next
  case True
  then obtain t s where t: "strategy_Pick env (bl_strategy b) (Select (w_outbounds w) (bl_selectors b)) w = Some (t, s, w')"
    and b': "b' = b\<lparr>bl_strategy := s\<rparr>"
    and r: "res = (if t = [] then if bl_fallbackTag b \<noteq> [] then Inr (bl_fallbackTag b) else Inl EmptyPick else Inr t)"
    using assms(1) by (auto simp: Balancer_PickOutbound_def SelectOutbounds_def override_Get_def bind_eq_Some_conv split: if_splits)
  from strategy.pick_member [OF t assms(2)] True show ?thesis by (auto simp: b' r)
qed

definition ex_balancer :: Balancer where
  "ex_balancer = \<lparr>bl_selectors = [''wan''], bl_strategy = RoundRobin ex_round_robin, bl_fallbackTag = [], bl_override = []\<rparr>"

theorem balancer_picks_member_witness:
  "\<exists>t b' w'. Balancer_PickOutbound ex_renv ex_balancer ex_world = Some (Inr t, b', w') \<and> t \<in> {''wan1'', ''wan2''}"
proof -
  have s: "Select (w_outbounds ex_world) (bl_selectors ex_balancer) = [''wan1'', ''wan2'']"
    using Select_loop_filter [of "m_order ex_manager" "[]" "[''wan'']"]
    by (simp add: ex_world_def ex_balancer_def Select_def ex_manager_order matchSelector_prefix)
  moreover have "5 mod Suc (Suc 0) = 1" by (simp flip: numeral_2_eq_2)
  ultimately have "\<exists>t b' w'. Balancer_PickOutbound ex_renv ex_balancer ex_world = Some (Inr t, b', w')"
    by (simp add: Balancer_PickOutbound_def SelectOutbounds_def override_Get_def ex_renv_def ex_balancer_def ex_round_robin_def
        RoundRobin_Pick_def living_def Let_def go_mod_def pick_at_def)
  then obtain t b' w' where b: "Balancer_PickOutbound ex_renv ex_balancer ex_world = Some (Inr t, b', w')" by blast
  from balancer_picks_member [OF b] s b show ?thesis
    by (auto simp: ex_balancer_def ex_round_robin_def cache_sub_def empty_alive_def)
qed

end
