(* ===== verification/RouterProofs.thy ===== *)
theory RouterProofs
  imports Router BalancingProps
begin

text \<open>
  How the router decides: a denotation of conditions that do not search for processes, and the proof
  that evaluating the rules with contexts that resolve lazily and cache agrees with it.
\<close>

section \<open>Meaning of conditions\<close>

fun plain_cond :: "Condition \<Rightarrow> bool" where
  "plain_cond (ProcessCond m) = False"
| "plain_cond c = True"

text \<open>Conditions refer to matchers of the registries, and \<open>VlessRoute\<close> is for ports.\<close>

fun cond_ok :: "'s world \<Rightarrow> Condition \<Rightarrow> bool" where
  "cond_ok w (DomainCond i) = (i < length (dr_matchers (w_domains w)))"
| "cond_ok w (IPCond i t) = (i < length (reg_matchers (w_ips w)) \<and> t \<noteq> MatcherAsType_VlessRoute)"
| "cond_ok w c = True"

fun cond_holds :: "'s router_env \<Rightarrow> 's world \<Rightarrow> Context \<Rightarrow> ip list \<Rightarrow> Condition \<Rightarrow> bool" where
  "cond_holds env w b r (DomainCond i) \<longleftrightarrow> GetTargetDomain b \<noteq> [] \<and>
     dd_MatchAny (re_dom env) (dr_matchers (w_domains w) ! i) (ToLower (GetTargetDomain b))"
| "cond_holds env w b r (IPCond i t) \<longleftrightarrow> dyn_AnyMatch (re_nx env) (reg_matchers (w_ips w) ! i)
     (case t of MatcherAsType_Local \<Rightarrow> GetLocalIPs b | MatcherAsType_Source \<Rightarrow> GetSourceIPs b | _ \<Rightarrow> r)"
| "cond_holds env w b r (PortCond ports t) \<longleftrightarrow> MemoryPortListContains ports
     (case t of MatcherAsType_Local \<Rightarrow> GetLocalPort b | MatcherAsType_Source \<Rightarrow> GetSourcePort b
      | MatcherAsType_Target \<Rightarrow> GetTargetPort b | MatcherAsType_VlessRoute \<Rightarrow> GetVlessRoute b)"
| "cond_holds env w b r (NetworkCond bs) \<longleftrightarrow> Network_Apply bs (GetNetwork b)"
| "cond_holds env w b r (UserCond us ps) \<longleftrightarrow> User_Apply us ps (GetUser b)"
| "cond_holds env w b r (InboundTagCond ts) \<longleftrightarrow> InboundTag_Apply ts (GetInboundTag b)"
| "cond_holds env w b r (ProtocolCond ps) \<longleftrightarrow> Protocol_Apply ps (GetProtocol b)"
| "cond_holds env w b r (AttributeCond ks) \<longleftrightarrow>
     (\<exists>attrs. GetAttributes b = Some attrs \<and> Attribute_Match (re_order env attrs) ks)"
| "cond_holds env w b r (ProcessCond m) \<longleftrightarrow> False"

definition rule_holds :: "'s router_env \<Rightarrow> 's world \<Rightarrow> Context \<Rightarrow> ip list \<Rightarrow> Rule \<Rightarrow> bool" where
  "rule_holds env w b r rule \<longleftrightarrow> list_all (cond_holds env w b r) (ru_Condition rule)"

definition plain_rules :: "'s world \<Rightarrow> Rule list \<Rightarrow> bool" where
  "plain_rules w rules \<longleftrightarrow> (\<forall>rule \<in> set rules. \<forall>c \<in> set (ru_Condition rule). plain_cond c \<and> cond_ok w c)"

section \<open>Contexts while a decision is made\<close>

text \<open>The client answers every lookup of the decision alike.\<close>

definition steady :: "dns_client \<Rightarrow> string \<Rightarrow> bool" where
  "steady lookup d \<longleftrightarrow> (\<forall>n m. lookup n d = lookup m d)"

text \<open>A context of the decision: the caller's, or one that resolves it, in one of its three states.\<close>

definition gives :: "dns_client \<Rightarrow> Context \<Rightarrow> ip list \<Rightarrow> Ctx \<Rightarrow> bool" where
  "gives lookup b r c \<longleftrightarrow>
     c = BaseContext b \<and> r = base_TargetIPs b \<or>
     r \<noteq> [] \<and> c = ResolvableContext (BaseContext b) r False \<or>
     r = resolved lookup b 0 \<and> c = ResolvableContext (BaseContext b) [] False \<or>
     r = [] \<and> c = ResolvableContext (BaseContext b) [] True"

text \<open>How many lookups a context may still make, when an answer is never empty.\<close>

definition pending :: "Ctx \<Rightarrow> nat" where
  "pending c = (case c of ResolvableContext c0 [] False \<Rightarrow> 1 | _ \<Rightarrow> 0)"

lemma resolved_steady: "steady lookup (GetTargetDomain b) \<Longrightarrow> resolved lookup b n = resolved lookup b 0"
  unfolding resolved_def steady_def by metis

lemma GetTargetIPs_gives:
  assumes "steady lookup (GetTargetDomain b)" "gives lookup b r c"
  obtains c' n' where "GetTargetIPs lookup c n = (r, c', n')" "gives lookup b r c'" "n \<le> n'"
    "lookup 0 (GetTargetDomain b) \<noteq> Some [] \<Longrightarrow> n' + pending c' \<le> n + pending c"
    "c = BaseContext b \<Longrightarrow> c' = c \<and> n' = n"
proof (cases "c = ResolvableContext (BaseContext b) [] False")
  case True
  show thesis
  proof (cases "c = BaseContext b \<or> r \<noteq> resolved lookup b 0")
    case True': True
    then show ?thesis using True assms(2) by (auto simp: gives_def)
  next
    case False
    then have r: "r = resolved lookup b n" using resolved_steady [OF assms(1)] by metis
    let ?d = "GetTargetDomain b"
    have l: "lookup n ?d = lookup 0 ?d" using assms(1) by (metis steady_def)
    show ?thesis
    proof (cases "?d \<noteq> [] \<and> (\<exists>a. lookup n ?d = Some a)")
      case True'': True
      then obtain a where a: "lookup n ?d = Some a" by blast
      then have "GetTargetIPs lookup c n = (r, ResolvableContext (BaseContext b) r False, Suc n)"
        using True True'' r by (simp add: Let_def resolved_def)
      moreover have "gives lookup b r (ResolvableContext (BaseContext b) r False)" using r resolved_steady [OF assms(1)] by (auto simp: gives_def)
      moreover have "a \<noteq> [] \<Longrightarrow> pending (ResolvableContext (BaseContext b) r False) = 0" "r = a"
        using True'' r a by (auto simp: pending_def resolved_def neq_Nil_conv)
      ultimately show ?thesis using that True a l by (auto simp: pending_def)
    next
      case False'': False
      define n' where "n' = (if ?d \<noteq> [] then Suc n else n)"
      have "GetTargetIPs lookup c n = (r, ResolvableContext (BaseContext b) r (r = []), n')"
        using True False'' r by (cases "r = []") (auto simp: Let_def resolved_def n'_def split: option.splits)
      moreover have "gives lookup b r (ResolvableContext (BaseContext b) r (r = []))" by (auto simp: gives_def)
      moreover have "pending (ResolvableContext (BaseContext b) r (r = [])) = 0" by (auto simp: pending_def neq_Nil_conv split: list.splits)
      ultimately show ?thesis using that True by (auto simp: pending_def n'_def)
    qed
  qed
next
  case False
  then have "GetTargetIPs lookup c n = (r, c, n)" using assms(2) by (auto simp: gives_def)
  then show ?thesis using that assms(2) by blast
qed

section \<open>Rules\<close>

definition stepped :: "nat \<Rightarrow> 's world \<Rightarrow> 's world" where
  "stepped n w = w\<lparr>w_step := n\<rparr>"

lemma stepped_simps [simp]:
  "w_step (stepped n w) = n" "w_ips (stepped n w) = w_ips w" "w_domains (stepped n w) = w_domains w"
  "w_process (stepped n w) = w_process w" "w_outbounds (stepped n w) = w_outbounds w" "stepped m (stepped n w) = stepped m w"
  "cond_holds env (stepped n w) b r = cond_holds env w b r" "cond_ok (stepped n w) = cond_ok w"
proof -
  show "cond_holds env (stepped n w) b r = cond_holds env w b r"
  proof
    fix c
    show "cond_holds env (stepped n w) b r c = cond_holds env w b r c" by (cases c) (simp_all add: stepped_def)
  qed
  show "cond_ok (stepped n w) = cond_ok w"
  proof
    fix c
    show "cond_ok (stepped n w) c = cond_ok w c" by (cases c) (simp_all add: stepped_def)
  qed
qed (simp_all add: stepped_def)

lemma stepped_self: "stepped (w_step w) w = w" "\<exists>n. w = stepped n w" "\<exists>n. w = w\<lparr>w_step := n\<rparr>"
proof -
  show e: "stepped (w_step w) w = w" by (simp add: stepped_def)
  then show "\<exists>n. w = stepped n w" by metis
  then show "\<exists>n. w = w\<lparr>w_step := n\<rparr>" by (simp add: stepped_def)
qed

text \<open>An evaluation that starts in \<open>c\<close> and \<open>w\<close> and leaves \<open>c'\<close> and \<open>w'\<close>: the context still gives the same
  addresses, and only the number of lookups changed.\<close>

definition evaluates :: "'s router_env \<Rightarrow> Context \<Rightarrow> ip list \<Rightarrow> Ctx \<Rightarrow> 's world \<Rightarrow> Ctx \<Rightarrow> 's world \<Rightarrow> bool" where
  "evaluates env b r c w c' w' \<longleftrightarrow> gives (re_lookup env) b r c' \<and> (\<exists>n. w' = stepped n w) \<and> w_step w \<le> w_step w' \<and>
     (re_lookup env 0 (GetTargetDomain b) \<noteq> Some [] \<longrightarrow> w_step w' + pending c' \<le> w_step w + pending c) \<and>
     (c = BaseContext b \<longrightarrow> c' = c \<and> w' = w)"

lemma evaluates_refl: "gives (re_lookup env) b r c \<Longrightarrow> evaluates env b r c w c w"
  by (simp add: evaluates_def stepped_self)

lemma evaluates_trans: "evaluates env b r c w c1 w1 \<Longrightarrow> evaluates env b r c1 w1 c2 w2 \<Longrightarrow> evaluates env b r c w c2 w2"
  by (auto simp: evaluates_def)

lemma gives_base [simp]: "gives lookup b r c \<Longrightarrow> base_ctx c = b"
  by (auto simp: gives_def)

lemma Condition_Apply_holds:
  assumes "steady (re_lookup env) (GetTargetDomain b)" "gives (re_lookup env) b r c" "plain_cond cond" "cond_ok w cond"
  shows "\<exists>c' w'. Condition_Apply env cond c w = Some (cond_holds env w b r cond, c', w') \<and> evaluates env b r c w c' w'"
proof (cases "\<exists>i. cond = IPCond i MatcherAsType_Target")
  case True
  then obtain i where i: "cond = IPCond i MatcherAsType_Target" by blast
  obtain c' n' where g: "GetTargetIPs (re_lookup env) c (w_step w) = (r, c', n')" "gives (re_lookup env) b r c'" "w_step w \<le> n'"
    "re_lookup env 0 (GetTargetDomain b) \<noteq> Some [] \<Longrightarrow> n' + pending c' \<le> w_step w + pending c"
    "c = BaseContext b \<Longrightarrow> c' = c \<and> n' = w_step w"
    using GetTargetIPs_gives [OF assms(1,2)] by metis
  then have "evaluates env b r c w c' (stepped n' w)" by (auto simp: evaluates_def stepped_self)
  then show ?thesis using g(1) assms(4) by (auto simp: i stepped_def)
next
  case False
  then have "Condition_Apply env cond c w = Some (cond_holds env w b r cond, c, w)"
    using assms by (cases cond) (auto simp: Let_def split: MatcherAsType.splits option.splits)
  then show ?thesis using evaluates_refl [OF assms(2)] by blast
qed

lemma Chan_Apply_holds:
  assumes "steady (re_lookup env) (GetTargetDomain b)" "gives (re_lookup env) b r c" "\<forall>k \<in> set conds. plain_cond k \<and> cond_ok w k"
  shows "\<exists>c' w'. Chan_Apply env conds c w = Some (list_all (cond_holds env w b r) conds, c', w') \<and> evaluates env b r c w c' w'"
  using assms(2,3)
proof (induction conds arbitrary: c w)
  case Nil
  then show ?case using evaluates_refl by auto
next
  case (Cons k ks)
  obtain c1 w1 where a: "Condition_Apply env k c w = Some (cond_holds env w b r k, c1, w1)" "evaluates env b r c w c1 w1"
    using Condition_Apply_holds [OF assms(1) Cons(2)] Cons(3) by fastforce
  show ?case
  proof (cases "cond_holds env w b r k")
    case True
    have g: "gives (re_lookup env) b r c1" and "\<exists>n. w1 = stepped n w" using a(2) by (simp_all add: evaluates_def)
    then have h: "cond_holds env w1 b r = cond_holds env w b r" "cond_ok w1 = cond_ok w"
      by auto
    obtain c2 w2 where "Chan_Apply env ks c1 w1 = Some (list_all (cond_holds env w b r) ks, c2, w2)" "evaluates env b r c1 w1 c2 w2"
      using Cons(1) [OF g, of w1] Cons(3) unfolding h by auto
    then show ?thesis using a True evaluates_trans by auto
  next
    case False
    then show ?thesis using a by auto
  qed
qed

lemma first_rule_find:
  assumes "steady (re_lookup env) (GetTargetDomain b)" "gives (re_lookup env) b r c" "plain_rules w rules"
  shows "\<exists>c' w'. first_rule env rules c w = Some (List.find (rule_holds env w b r) rules, c', w') \<and> evaluates env b r c w c' w'"
  using assms(2,3)
proof (induction rules arbitrary: c w)
  case Nil
  then show ?case using evaluates_refl by auto
next
  case (Cons k ks)
  have "\<forall>x \<in> set (ru_Condition k). plain_cond x \<and> cond_ok w x" using Cons(3) by (simp add: plain_rules_def)
  from Chan_Apply_holds [OF assms(1) Cons(2) this] obtain c1 w1
    where a: "Chan_Apply env (ru_Condition k) c w = Some (rule_holds env w b r k, c1, w1)" "evaluates env b r c w c1 w1"
    unfolding rule_holds_def by blast
  have g: "gives (re_lookup env) b r c1" and "\<exists>n. w1 = stepped n w" using a(2) by (simp_all add: evaluates_def)
  then have h: "rule_holds env w1 b r = rule_holds env w b r" "plain_rules w1 ks = plain_rules w ks"
    by (auto simp: rule_holds_def [abs_def] plain_rules_def)
  obtain c2 w2 where "first_rule env ks c1 w1 = Some (List.find (rule_holds env w b r) ks, c2, w2)" "evaluates env b r c1 w1 c2 w2"
    using Cons(1) [OF g, of w1] Cons(3) unfolding h by (auto simp: plain_rules_def)
  then show ?case using a evaluates_trans [OF a(2)] by (cases "rule_holds env w b r k") (auto simp: Rule_Apply_def)
qed

section \<open>The decision\<close>

definition matching :: "'s router_env \<Rightarrow> 's world \<Rightarrow> Context \<Rightarrow> Router \<Rightarrow> ip list \<Rightarrow> Rule option" where
  "matching env w b r addrs = List.find (rule_holds env w b addrs) (r_rules r)"

text \<open>What the strategies mean.\<close>

definition decision :: "'s router_env \<Rightarrow> 's world \<Rightarrow> Router \<Rightarrow> Context \<Rightarrow> Rule option" where
  "decision env w r b =
     (let own = matching env w b r (base_TargetIPs b); res = matching env w b r (resolved (re_lookup env) b 0)
      in if GetSkipDNSResolve b then own
         else if r_domainStrategy r = Config_IpOnDemand then res
         else if r_domainStrategy r = Config_IpIfNonMatch \<and> GetTargetDomain b \<noteq> [] then (case own of Some k \<Rightarrow> Some k | None \<Rightarrow> res)
         else own)"

lemma gives_new: "gives lookup b (base_TargetIPs b) (BaseContext b)" "gives lookup b (resolved lookup b 0) (ContextWithDNSClient (BaseContext b))"
  by (auto simp: gives_def ContextWithDNSClient_def)

lemma pending_new: "pending (BaseContext b) = 0" "pending (ContextWithDNSClient c) = 1"
  by (simp_all add: pending_def ContextWithDNSClient_def)

lemma pickRouteInternal_decision:
  assumes "plain_rules w (r_rules r)" "steady (re_lookup env) (GetTargetDomain b)"
  shows "\<exists>c' n. pickRouteInternal env r (BaseContext b) w =
    Some (case decision env w r b of Some rule \<Rightarrow> Inr rule | None \<Rightarrow> Inl ErrNoClue, c', w\<lparr>w_step := n\<rparr>) \<and> base_ctx c' = b"
proof -
  have st: "evaluates env b a c w c' w' \<Longrightarrow> w' = w\<lparr>w_step := w_step w'\<rparr> \<and> base_ctx c' = b" for a c c' w'
    by (auto simp: evaluates_def stepped_def)
  obtain c1 w1 where own: "first_rule env (r_rules r) (BaseContext b) w = Some (matching env w b r (base_TargetIPs b), c1, w1)"
    "evaluates env b (base_TargetIPs b) (BaseContext b) w c1 w1"
    using first_rule_find [OF assms(2) gives_new(1) assms(1)] by (auto simp: matching_def)
  then have e: "c1 = BaseContext b" "w1 = w" by (simp_all add: evaluates_def)
  obtain c2 w2 where res: "first_rule env (r_rules r) (ContextWithDNSClient (BaseContext b)) w =
      Some (matching env w b r (resolved (re_lookup env) b 0), c2, w2)"
    "evaluates env b (resolved (re_lookup env) b 0) (ContextWithDNSClient (BaseContext b)) w c2 w2"
    using first_rule_find [OF assms(2) gives_new(2) assms(1)] by (auto simp: matching_def)
  show ?thesis
  proof (cases "r_domainStrategy r = Config_IpOnDemand \<and> \<not> GetSkipDNSResolve b")
    case True
    then show ?thesis using res(1) st [OF res(2)]
      by (cases "matching env w b r (resolved (re_lookup env) b 0)") (auto simp: pickRouteInternal_def decision_def Let_def)
  next
    case False
    note w = stepped_self(3) [of w]
    show ?thesis
    proof (cases "matching env w b r (base_TargetIPs b)")
      case None
      then show ?thesis using False own(1) res(1) st [OF res(2)] w
        by (cases "matching env w b r (resolved (re_lookup env) b 0)")
          (auto simp: pickRouteInternal_def decision_def Let_def e)
    next
      case (Some k)
      then show ?thesis using False own(1) w by (auto simp: pickRouteInternal_def decision_def Let_def e)
    qed
  qed
qed

text \<open>C1. The route decision is the first rule, in order, all of whose conditions hold: on the addresses
  of the connection, on the resolved ones with \<open>IpOnDemand\<close>, and with \<open>IpIfNonMatch\<close> on the resolved ones when no
  rule held before; DNS is skipped when the context asks for it. Nothing but the number of lookups
  changes. The DNS client answers alike during the decision, and no rule searches for processes.\<close>

theorem pick_first_match:
  assumes "plain_rules w (r_rules r)" "steady (re_lookup env) (GetTargetDomain b)"
  shows "\<exists>c' n. pickRouteInternal env r (BaseContext b) w =
    Some (case decision env w r b of Some rule \<Rightarrow> Inr rule | None \<Rightarrow> Inl ErrNoClue, c', w\<lparr>w_step := n\<rparr>) \<and> base_ctx c' = b"
  using assms by (rule pickRouteInternal_decision)

definition ex_table :: Router where
  "ex_table = \<lparr>r_domainStrategy = Config_IpIfNonMatch,
     r_rules = [\<lparr>ru_Tag = ''block'', ru_RuleTag = ''udp'', ru_Balancer = None, ru_Condition = [PortCond [\<lparr>MFrom = 53, MTo = 53\<rparr>] MatcherAsType_Target]\<rparr>,
                \<lparr>ru_Tag = ''wan1'', ru_RuleTag = ''lan'', ru_Balancer = None, ru_Condition = [InboundTagCond [''tproxy'']]\<rparr>],
     r_balancers = [], r_finalOutboundTag = [], r_store = []\<rparr>"

definition ex_request :: Context where
  "ex_request = \<lparr>GetInboundTag = ''tproxy'', GetSourceIPs = [], GetSourcePort = 40000, base_TargetIPs = [], GetTargetPort = 443,
     GetLocalIPs = [], GetLocalPort = 0, GetTargetDomain = ''example.com'', GetNetwork = Network_TCP, GetProtocol = ''tls'', GetUser = [],
     GetVlessRoute = 0, GetAttributes = None, GetSkipDNSResolve = False\<rparr>"

lemma ex_plain: "plain_rules ex_world (r_rules ex_table)" "steady (re_lookup ex_renv) d"
  by (simp_all add: plain_rules_def ex_table_def steady_def ex_renv_def)

theorem pick_first_match_witness:
  "\<exists>rule c' w'. pickRouteInternal ex_renv ex_table (BaseContext ex_request) ex_world = Some (Inr rule, c', w') \<and> ru_RuleTag rule = ''lan''"
proof -
  have "\<exists>rule. decision ex_renv ex_world ex_table ex_request = Some rule \<and> ru_RuleTag rule = ''lan''"
    by (simp add: decision_def matching_def ex_table_def ex_request_def rule_holds_def InboundTag_Apply_def Let_def
        MemoryPortRangeContains_def)
  with pick_first_match [OF ex_plain, of ex_request] show ?thesis by auto
qed

text \<open>A decision resolves the domain at most once when an answer of the client is never empty, and not at
  all when the context skips DNS or the strategy is \<open>AsIs\<close>.\<close>

theorem pick_resolves_once:
  assumes "plain_rules w (r_rules r)" "steady (re_lookup env) (GetTargetDomain b)"
    "re_lookup env 0 (GetTargetDomain b) \<noteq> Some []" "pickRouteInternal env r (BaseContext b) w = Some (res, c', w')"
  shows "w_step w' \<le> w_step w + (if GetSkipDNSResolve b \<or> r_domainStrategy r \<notin> {Config_IpOnDemand, Config_IpIfNonMatch} then 0 else 1)"
proof -
  obtain c1 w1 where own: "first_rule env (r_rules r) (BaseContext b) w = Some (matching env w b r (base_TargetIPs b), c1, w1)"
    "evaluates env b (base_TargetIPs b) (BaseContext b) w c1 w1"
    using first_rule_find [OF assms(2) gives_new(1) assms(1)] by (auto simp: matching_def)
  then have e: "c1 = BaseContext b" "w1 = w" by (simp_all add: evaluates_def)
  obtain c2 w2 where res: "first_rule env (r_rules r) (ContextWithDNSClient (BaseContext b)) w =
      Some (matching env w b r (resolved (re_lookup env) b 0), c2, w2)"
    "evaluates env b (resolved (re_lookup env) b 0) (ContextWithDNSClient (BaseContext b)) w c2 w2"
    using first_rule_find [OF assms(2) gives_new(2) assms(1)] by (auto simp: matching_def)
  then have "w_step w2 \<le> w_step w + 1" using assms(3) by (simp add: evaluates_def pending_new)
  then show ?thesis using assms(4) own(1) res(1)
    by (auto simp: pickRouteInternal_def Let_def e split: if_splits option.splits)
qed

theorem pick_resolves_once_witness:
  "\<exists>res c' w'. pickRouteInternal ex_renv ex_table (BaseContext (ex_request\<lparr>GetSkipDNSResolve := True\<rparr>)) ex_world = Some (res, c', w') \<and> w_step w' = 0"
proof -
  let ?b = "ex_request\<lparr>GetSkipDNSResolve := True\<rparr>"
  obtain res c' w' where p: "pickRouteInternal ex_renv ex_table (BaseContext ?b) ex_world = Some (res, c', w')"
    using pickRouteInternal_decision [OF ex_plain, of ?b] by blast
  have "re_lookup ex_renv 0 (GetTargetDomain ?b) \<noteq> Some []" by (simp add: ex_renv_def)
  from pick_resolves_once [OF ex_plain this p] p show ?thesis by (simp add: ex_world_def)
qed

end
