(* ===== verification/RouterInv.thy ===== *)
theory RouterInv
  imports Router BalancingProps RouterProofs
begin

text \<open>
  The invariant of the router, kept by every step of its histories: rule tags are unique, every rule
  with a balancer uses one of the table, every condition refers to an existing matcher, and the
  caches of the balancers stay within their candidates.
\<close>

section \<open>Invariant\<close>

definition table_inv :: "(string, nat) go_map \<Rightarrow> Balancer list \<Rightarrow> bool" where
  "table_inv bals store \<longleftrightarrow> al_ok bals \<and> distinct (map snd bals) \<and> [] \<notin> fst ` set bals \<and> (\<forall>i \<in> snd ` set bals. i < length store) \<and>
     list_all (\<lambda>b. strategy_ok (bl_strategy b)) store"

definition rule_inv :: "(string, nat) go_map \<Rightarrow> 's world \<Rightarrow> Rule \<Rightarrow> bool" where
  "rule_inv bals w rule \<longleftrightarrow> ru_Condition rule \<noteq> [] \<and> list_all (cond_ok w) (ru_Condition rule) \<and>
     (\<forall>i. ru_Balancer rule = Some i \<longrightarrow> i \<in> snd ` set bals)"

definition router_inv :: "'s system \<Rightarrow> bool" where
  "router_inv s = (case s of (r, w) \<Rightarrow>
     distinct (rule_tags (r_rules r)) \<and> table_inv (r_balancers r) (r_store r) \<and> list_all (rule_inv (r_balancers r) w) (r_rules r))"

lemma same_shape_refl [simp]: "same_shape w w"
  by (simp add: same_shape_def)

lemma same_shape_trans: "same_shape w w1 \<Longrightarrow> same_shape w1 w2 \<Longrightarrow> same_shape w w2"
  by (simp add: same_shape_def)

lemma cond_ok_mono: "same_shape w w' \<Longrightarrow> cond_ok w c \<Longrightarrow> cond_ok w' c"
  by (cases c) (auto simp: same_shape_def)

lemma rule_inv_mono: "same_shape w w' \<Longrightarrow> set bals \<subseteq> set bals' \<Longrightarrow> rule_inv bals w rule \<Longrightarrow> rule_inv bals' w' rule"
  using cond_ok_mono by (fastforce simp: rule_inv_def list_all_iff)

section \<open>Building conditions\<close>

lemma ip_conds_ok:
  assumes "ip_conds env rules t w = (res, w')" "t \<noteq> MatcherAsType_VlessRoute"
  shows "same_shape w w' \<and> (\<forall>cs. res = Inr cs \<longrightarrow> list_all (cond_ok w') cs)"
proof -
  obtain res1 reg where b: "BuildIPMatcher (re_nx env) (re_ipload env) (w_ips w) rules = (res1, reg)" by fastforce
  then have "length (reg_matchers (w_ips w)) \<le> length (reg_matchers reg)"
    "\<And>d. res1 = Inr d \<Longrightarrow> length (reg_matchers (w_ips w)) < length (reg_matchers reg)"
    by (auto simp: BuildIPMatcher_def Let_def split: sum.splits prod.splits)
  then show ?thesis using assms b
    by (auto simp: ip_conds_def NewIPMatcher_def same_shape_def split: if_splits sum.splits)
qed

lemma domain_conds_ok:
  assumes "domain_conds env rules w = Some (res, w')"
  shows "same_shape w w' \<and> (\<forall>cs. res = Inr cs \<longrightarrow> list_all (cond_ok w') cs)"
proof (cases "rules = []")
  case False
  with assms obtain res1 reg where b: "BuildDomainMatcher (re_dom env) (w_domains w) rules = Some (res1, reg)"
    by (auto simp: domain_conds_def NewDomainMatcher_def split: option.splits)
  then have "length (dr_matchers (w_domains w)) \<le> length (dr_matchers reg)"
    "\<And>d. res1 = Inr d \<Longrightarrow> length (dr_matchers (w_domains w)) < length (dr_matchers reg)"
    by (auto simp: BuildDomainMatcher_def Let_def split: option.splits sum.splits prod.splits)
  then show ?thesis using assms b False
    by (auto simp: domain_conds_def NewDomainMatcher_def same_shape_def split: sum.splits)
qed (use assms in \<open>auto simp: domain_conds_def\<close>)

lemma pure_conds_ok:
  "list_all (cond_ok w) (plain_conds rr)" "user_conds env us = Inr cs \<Longrightarrow> list_all (cond_ok w) cs"
  "attribute_conds env as = Inr cs \<Longrightarrow> list_all (cond_ok w) cs" "list_all (cond_ok w) (process_conds ps)"
  by (auto simp: plain_conds_def port_conds_def NewPortMatcher_def process_conds_def split: option.splits)
    (auto simp: user_conds_def attribute_conds_def map_sum_eq_Inr split: if_splits prod.splits)

text \<open>What a successful build is made of.\<close>

lemma BuildCondition_parts:
  assumes "BuildCondition env rr w = Some (Inr conds, w')"
  obtains users attrs target source locals domains w1 w2 w3 where
    "user_conds env (rr_UserEmail rr) = Inr users" "attribute_conds env (rr_Attributes rr) = Inr attrs"
    "ip_conds env (rr_Ip rr) MatcherAsType_Target w = (Inr target, w1)"
    "ip_conds env (rr_SourceIp rr) MatcherAsType_Source w1 = (Inr source, w2)"
    "ip_conds env (rr_LocalIp rr) MatcherAsType_Local w2 = (Inr locals, w3)"
    "domain_conds env (rr_Domain rr) w3 = Some (Inr domains, w')"
    "conds = plain_conds rr @ users @ attrs @ target @ source @ locals @ domains @ process_conds (rr_Process rr)" "conds \<noteq> []"
  using assms unfolding BuildCondition_def
  by (auto simp: Let_def split: sum.splits prod.splits option.splits if_splits)

lemma BuildCondition_shape: "BuildCondition env rr w = Some (res, w') \<Longrightarrow> same_shape w w'"
  unfolding BuildCondition_def
  by (auto simp: Let_def split: sum.splits prod.splits option.splits
      dest!: ip_conds_ok domain_conds_ok intro: same_shape_trans)

lemma BuildCondition_ok:
  assumes "BuildCondition env rr w = Some (Inr conds, w')"
  shows "conds \<noteq> [] \<and> list_all (cond_ok w') conds"
proof -
  from assms obtain users attrs target source locals domains w1 w2 w3 where p:
    "user_conds env (rr_UserEmail rr) = Inr users" "attribute_conds env (rr_Attributes rr) = Inr attrs"
    "ip_conds env (rr_Ip rr) MatcherAsType_Target w = (Inr target, w1)"
    "ip_conds env (rr_SourceIp rr) MatcherAsType_Source w1 = (Inr source, w2)"
    "ip_conds env (rr_LocalIp rr) MatcherAsType_Local w2 = (Inr locals, w3)"
    "domain_conds env (rr_Domain rr) w3 = Some (Inr domains, w')"
    "conds = plain_conds rr @ users @ attrs @ target @ source @ locals @ domains @ process_conds (rr_Process rr)" "conds \<noteq> []"
    by (rule BuildCondition_parts)
  have s: "same_shape w1 w2" "same_shape w2 w3" "same_shape w3 w'"
    using ip_conds_ok [OF p(4)] ip_conds_ok [OF p(5)] domain_conds_ok [OF p(6)] by auto
  have "list_all (cond_ok w1) target" "list_all (cond_ok w2) source" "list_all (cond_ok w3) locals" "list_all (cond_ok w') domains"
    using ip_conds_ok [OF p(3)] ip_conds_ok [OF p(4)] ip_conds_ok [OF p(5)] domain_conds_ok [OF p(6)] by auto
  then have "list_all (cond_ok w') (target @ source @ locals @ domains)"
    using s cond_ok_mono same_shape_trans unfolding list_all_iff set_append by (metis Un_iff)
  then show ?thesis
    using p(7,8) pure_conds_ok(1) [of w' rr] pure_conds_ok(4) [of w' "rr_Process rr"] pure_conds_ok(2) [OF p(1), of w']
      pure_conds_ok(3) [OF p(2), of w'] by auto
qed

section \<open>Building rules\<close>

lemma build_rules_Cons:
  assumes "build_rules env bals (Some rr # rrs) tags w = Some (e, rules, w')"
  shows "rules = [] \<and> same_shape w w' \<or>
    (\<exists>cond w1 rule rest. (rr_RuleTag rr \<noteq> [] \<longrightarrow> rr_RuleTag rr \<notin> set tags) \<and> BuildCondition env rr w = Some (Inr cond, w1) \<and>
      build_rules env bals rrs (if rr_RuleTag rr \<noteq> [] then rr_RuleTag rr # tags else tags) w1 = Some (e, rest, w') \<and>
      rules = rule # rest \<and> ru_RuleTag rule = rr_RuleTag rr \<and> ru_Condition rule = cond \<and>
      (\<forall>i. ru_Balancer rule = Some i \<longrightarrow> al_get bals (GetBalancingTag rr) = Some i))"
proof (cases "(rr_RuleTag rr \<noteq> [] \<and> rr_RuleTag rr \<in> set tags) \<or> (\<exists>e w1. BuildCondition env rr w = Some (Inl e, w1))")
  case True
  then show ?thesis using assms by (auto simp: Let_def dest: BuildCondition_shape split: if_splits)
next
  case False
  with assms obtain cond w1 where c: "BuildCondition env rr w = Some (Inr cond, w1)"
    by (auto simp: Let_def split: option.splits sum.splits)
  show ?thesis
  proof (cases "GetBalancingTag rr \<noteq> [] \<and> al_get bals (GetBalancingTag rr) = None")
    case True
    then show ?thesis using assms False c BuildCondition_shape [OF c] by (simp add: Let_def split: if_splits)
  next
    case nb: False
    then show ?thesis using assms False c by (auto simp: Let_def split: if_splits)
  qed
qed

lemma build_rules_ok:
  assumes "build_rules env bals rrs tags w = Some (e, rules, w')"
  shows "same_shape w w' \<and> list_all (rule_inv bals w') rules \<and> distinct (rule_tags rules) \<and> set (rule_tags rules) \<inter> set tags = {}"
  using assms
proof (induction rrs arbitrary: tags w rules)
  case (Cons x rrs)
  show ?case
  proof (cases x)
    case None
    then show ?thesis using Cons(2) by (auto simp: rule_tags_def)
  next
    case (Some rr)
    from build_rules_Cons [OF Cons(2) [unfolded Some]] show ?thesis
    proof (elim disjE conjE exE)
      assume "rules = []" "same_shape w w'"
      then show ?thesis by (simp add: rule_tags_def)
    next
      fix cond w1 rule rest
      let ?tags = "if rr_RuleTag rr \<noteq> [] then rr_RuleTag rr # tags else tags"
      assume p: "rr_RuleTag rr \<noteq> [] \<longrightarrow> rr_RuleTag rr \<notin> set tags" "BuildCondition env rr w = Some (Inr cond, w1)"
        "build_rules env bals rrs ?tags w1 = Some (e, rest, w')" "rules = rule # rest" "ru_RuleTag rule = rr_RuleTag rr"
        "ru_Condition rule = cond" "\<forall>i. ru_Balancer rule = Some i \<longrightarrow> al_get bals (GetBalancingTag rr) = Some i"
      note i = Cons(1) [OF p(3)]
      have "cond \<noteq> []" "list_all (cond_ok w') cond"
        using BuildCondition_ok [OF p(2)] i cond_ok_mono unfolding list_all_iff by blast+
      then have "rule_inv bals w' rule" using p(6,7) by (force simp: rule_inv_def dest: map_of_SomeD)
      moreover have "same_shape w w'" using i BuildCondition_shape [OF p(2)] same_shape_trans by blast
      ultimately show ?thesis using i p(1,4,5) by (auto simp: rule_tags_def split: if_splits)
    qed
  qed
qed (auto simp: rule_tags_def)

section \<open>Building balancers\<close>

lemma Build_ok: "BalancingRule_Build env br = Inr b \<Longrightarrow> strategy_ok (bl_strategy (Balancer_InjectContext env b))"
  by (auto simp: BalancingRule_Build_def Balancer_InjectContext_def Let_def cache_sub_def empty_alive_def
      split: if_splits option.splits strategy_settings.splits)

lemma add_balancer_ok:
  assumes "table_inv bals store" "tag \<noteq> []" "al_get bals tag = None" "strategy_ok (bl_strategy (Balancer_InjectContext env b))"
  shows "table_inv (fst (add_balancer env tag b (bals, store))) (snd (add_balancer env tag b (bals, store))) \<and>
    set bals \<subseteq> set (fst (add_balancer env tag b (bals, store)))"
proof -
  have e: "add_balancer env tag b (bals, store) = (bals @ [(tag, length store)], store @ [Balancer_InjectContext env b])"
    using assms(3) by (simp add: add_balancer_def al_put_fresh)
  have "length store \<notin> snd ` set bals" using assms(1) by (auto simp: table_inv_def)
  then show ?thesis using assms unfolding e
    by (auto simp: table_inv_def map_of_eq_None_iff)
qed

lemma init_balancers_ok:
  "init_balancers env brs t = (e, t') \<Longrightarrow> table_inv (fst t) (snd t) \<Longrightarrow> table_inv (fst t') (snd t')"
proof (induction env brs t rule: init_balancers.induct)
  case (3 env br brs t)
  then show ?case using add_balancer_ok [of "fst t" "snd t" "br_Tag br" env] Build_ok [of env br]
    by (auto split: if_splits sum.splits)
qed auto

lemma reload_balancers_ok:
  "reload_balancers env brs t = Inr t' \<Longrightarrow> table_inv (fst t) (snd t) \<Longrightarrow> table_inv (fst t') (snd t') \<and> set (fst t) \<subseteq> set (fst t')"
proof (induction env brs t rule: reload_balancers.induct)
  case (3 env br brs t)
  then show ?case using add_balancer_ok [of "fst t" "snd t" "br_Tag br" env] Build_ok [of env br]
    by (fastforce split: if_splits sum.splits)
qed auto

lemma table_inv_update:
  "table_inv bals store \<Longrightarrow> strategy_ok (bl_strategy b) \<Longrightarrow> table_inv bals (store[i := b])"
  using set_update_subset_insert [of store i b] by (auto simp: table_inv_def list_all_iff)

section \<open>Every operation keeps the invariant\<close>

lemma Init_inv:
  assumes "Init env ohm cfg new_Router w = Some (None, r, w')"
  shows "router_inv (r, w')"
proof -
  from assms obtain config where cfg: "cfg = Some config" by (cases cfg) (simp_all add: Init_def)
  obtain er bals store where t: "init_balancers env (cf_BalancingRule config) ([], []) = (er, bals, store)" by (metis prod_cases3)
  obtain rules where c: "er = None" "build_rules env bals (cf_Rule config) [] w = Some (None, rules, w')" "r_rules r = rules"
    "r_balancers r = bals" "r_store r = store"
    using assms t unfolding cfg by (auto simp: Init_def new_Router_def Let_def split: option.splits if_splits)
  have "table_inv bals store" using init_balancers_ok [OF t] by (simp add: table_inv_def)
  then show ?thesis using build_rules_ok [OF c(2)] c(3-5) by (simp add: router_inv_def)
qed

lemma router_inv_world: "same_shape w w' \<Longrightarrow> router_inv (r, w) \<Longrightarrow> router_inv (r, w')"
  using rule_inv_mono [OF _ order_refl, of w w'] by (auto simp: router_inv_def list_all_iff)

text \<open>What a reload that succeeds does.\<close>

lemma ReloadRules_success:
  assumes "ReloadRules env cfg app r w = Some (None, r', w')"
  obtains config bals store rules where "cfg = Some config"
    "reload_balancers env (cf_BalancingRule config) (if app then r_balancers r else [], r_store r) = Inr (bals, store)"
    "build_rules env bals (cf_Rule config) (rule_tags (if app then r_rules r else [])) w = Some (None, rules, w')"
    "r_rules r' = (if app then r_rules r else []) @ rules" "r_balancers r' = bals" "r_store r' = store"
    "r_domainStrategy r' = (if app then r_domainStrategy r else cf_DomainStrategy config)"
    "r_finalOutboundTag r' = (if app then r_finalOutboundTag r else cf_FinalOutboundTag config)"
proof -
  from assms obtain config where cfg: "cfg = Some config" by (cases cfg) (simp_all add: ReloadRules_def)
  obtain bals store where b: "reload_balancers env (cf_BalancingRule config) (if app then r_balancers r else [], r_store r) = Inr (bals, store)"
    using assms unfolding cfg by (auto simp: ReloadRules_def Let_def split: sum.splits)
  moreover obtain rules where rules: "build_rules env bals (cf_Rule config) (rule_tags (if app then r_rules r else [])) w = Some (None, rules, w')"
    using assms b unfolding cfg by (auto simp: ReloadRules_def Let_def split: option.splits)
  ultimately show thesis using that [OF cfg] assms unfolding cfg by (cases app) (auto simp: ReloadRules_def Let_def)
qed

lemma ReloadRules_failure:
  assumes "ReloadRules env cfg app r w = Some (Some e, r', w')"
  shows "r' = r \<and> same_shape w w'"
  using assms by (auto simp: ReloadRules_def Let_def dest: build_rules_ok split: option.splits sum.splits prod.splits)

lemma ReloadRules_inv:
  assumes "ReloadRules env cfg app r w = Some (e, r', w')" "router_inv (r, w)"
  shows "router_inv (r', w')"
proof -
  have old: "table_inv (r_balancers r) (r_store r)" "distinct (rule_tags (r_rules r))" "list_all (rule_inv (r_balancers r) w) (r_rules r)"
    using assms(2) by (simp_all add: router_inv_def)
  show ?thesis
  proof (cases e)
    case (Some x)
    then have "r' = r" "same_shape w w'" using ReloadRules_failure assms(1) by blast+
    then show ?thesis using router_inv_world assms(2) by blast
  next
    case None
    define base where "base = (if app then r_rules r else [])"
    define bals0 where "bals0 = (if app then r_balancers r else [])"
    from assms(1) None have "ReloadRules env cfg app r w = Some (None, r', w')" by simp
    then obtain config bals store rules where c: "cfg = Some config"
      "reload_balancers env (cf_BalancingRule config) (bals0, r_store r) = Inr (bals, store)"
      "build_rules env bals (cf_Rule config) (rule_tags base) w = Some (None, rules, w')"
      "r_rules r' = base @ rules" "r_balancers r' = bals" "r_store r' = store"
      "r_domainStrategy r' = (if app then r_domainStrategy r else cf_DomainStrategy config)"
      "r_finalOutboundTag r' = (if app then r_finalOutboundTag r else cf_FinalOutboundTag config)"
      unfolding base_def bals0_def by (rule ReloadRules_success)
    have "table_inv bals0 (r_store r)" using old(1) by (simp add: bals0_def table_inv_def)
    from reload_balancers_ok [OF c(2)] this have t: "table_inv bals store" "set bals0 \<subseteq> set bals" by auto
    note b = build_rules_ok [OF c(3)]
    have "list_all (rule_inv bals w') base"
      using old(3) rule_inv_mono [of w w' "r_balancers r" bals] b t(2) by (auto simp: base_def bals0_def list_all_iff)
    moreover have "distinct (rule_tags base)" using old(2) by (simp add: base_def rule_tags_def)
    moreover have "rule_tags (base @ rules) = rule_tags base @ rule_tags rules" by (simp add: rule_tags_def)
    ultimately show ?thesis using b t(1) c(4-6) by (auto simp: router_inv_def)
  qed
qed

lemma Condition_Apply_shape: "Condition_Apply env k c w = Some (b, c', w') \<Longrightarrow> same_shape w w'"
  by (cases k) (auto simp: same_shape_def Process_Apply_def Let_def split: if_splits option.splits MatcherAsType.splits prod.splits)

lemma Chan_Apply_shape: "Chan_Apply env ks c w = Some (b, c', w') \<Longrightarrow> same_shape w w'"
proof (induction ks arbitrary: c w)
  case (Cons k ks)
  then show ?case using same_shape_trans by (fastforce dest: Condition_Apply_shape split: option.splits bool.splits prod.splits)
qed simp

lemma first_rule_shape:
  "first_rule env rules c w = Some (k, c', w') \<Longrightarrow> same_shape w w' \<and> (\<forall>rule. k = Some rule \<longrightarrow> rule \<in> set rules)"
proof (induction rules arbitrary: c w)
  case (Cons rule rules)
  then show ?case using same_shape_trans
    by (fastforce simp: Rule_Apply_def dest: Chan_Apply_shape split: option.splits bool.splits prod.splits)
qed auto

lemma pickRouteInternal_shape:
  assumes "pickRouteInternal env r c w = Some (res, c', w')"
  shows "same_shape w w' \<and> (\<forall>rule. res = Inr rule \<longrightarrow> rule \<in> set (r_rules r))"
  using assms same_shape_trans
  by (fastforce simp: pickRouteInternal_def Let_def dest: first_rule_shape split: option.splits prod.splits if_splits)

lemma strategy_Pick_shape: "strategy_Pick env s tags w = Some (t, s', w') \<Longrightarrow> same_shape w w'"
  by (cases s)
    (auto simp: same_shape_def RoundRobin_Pick_def Random_Pick_def LeastPing_Pick_def LeastLoad_Pick_def pickOutbounds_def getNodes_def
      living_def dice_Roll_def Let_def bind_eq_Some_conv split: if_splits observation.splits prod.splits)

lemma Balancer_Pick_shape: "Balancer_PickOutbound env b w = Some (t, b', w') \<Longrightarrow> same_shape w w'"
  by (auto simp: Balancer_PickOutbound_def bind_eq_Some_conv dest: strategy_Pick_shape split: sum.splits if_splits)

lemma Balancer_Pick_ok:
  "Balancer_PickOutbound env b w = Some (t, b', w') \<Longrightarrow> strategy_ok (bl_strategy b) \<Longrightarrow> strategy_ok (bl_strategy b')"
  by (auto simp: Balancer_PickOutbound_def bind_eq_Some_conv dest: strategy.pick_member split: sum.splits if_splits)

lemma router_inv_store:
  assumes "router_inv (r, w)" "strategy_ok (bl_strategy b)"
  shows "router_inv (r\<lparr>r_store := (r_store r)[i := b]\<rparr>, w)"
  using assms table_inv_update by (simp add: router_inv_def)

lemma router_inv_balancer:
  assumes "router_inv (r, w)" "al_get (r_balancers r) tag = Some i"
  shows "i < length (r_store r) \<and> strategy_ok (bl_strategy (r_store r ! i))"
  using assms by (force simp: router_inv_def table_inv_def list_all_length dest: map_of_SomeD)

lemma PickRoute_inv:
  assumes "PickRoute env r c w = Some (res, r', w')" "router_inv (r, w)"
  shows "router_inv (r', w')"
proof -
  obtain k c1 w1 where k: "pickRouteInternal env r c w = Some (k, c1, w1)"
    using assms(1) by (auto simp: PickRoute_def split: option.splits)
  have inv: "router_inv (r, w1)" using router_inv_world assms(2) pickRouteInternal_shape [OF k] by blast
  show ?thesis
  proof (cases k)
    case (Inl e)
    then show ?thesis using assms(1) k inv by (auto simp: PickRoute_def split: if_splits)
  next
    case (Inr rule)
    then obtain t where t: "Rule_GetTag env rule r w1 = Some (t, r', w')" using assms(1) k by (auto simp: PickRoute_def)
    show ?thesis
    proof (cases "ru_Balancer rule")
      case None
      then show ?thesis using t inv by (simp add: Rule_GetTag_def)
    next
      case (Some i)
      with t obtain b where b: "Balancer_PickOutbound env (r_store r ! i) w1 = Some (t, b, w')" "i < length (r_store r)"
        "r' = r\<lparr>r_store := (r_store r)[i := b]\<rparr>"
        by (auto simp: Rule_GetTag_def split: if_splits)
      have "strategy_ok (bl_strategy (r_store r ! i))" using inv b(2) by (simp add: router_inv_def table_inv_def list_all_length)
      from Balancer_Pick_ok [OF b(1) this] router_inv_store [OF inv] have "router_inv (r', w1)" by (simp add: b(3))
      then show ?thesis using router_inv_world Balancer_Pick_shape [OF b(1)] by blast
    qed
  qed
qed

lemma PrincipleTarget_ok:
  "strategy_PrincipleTarget env s tags w = Some (ts, s', w') \<Longrightarrow> strategy_ok s \<Longrightarrow> strategy_ok s' \<and> same_shape w w'"
  by (cases s) (auto simp: same_shape_def LeastPing_Pick_def pickOutbounds_def getNodes_def Let_def
      split: if_splits observation.splits prod.splits)

lemma GetPrincipleTarget_inv:
  assumes "GetPrincipleTarget env r tag w = Some (ts, r', w')" "router_inv (r, w)"
  shows "router_inv (r', w')"
proof (cases "al_get (r_balancers r) tag")
  case None
  then show ?thesis using assms by (simp add: GetPrincipleTarget_def)
next
  case (Some i)
  note ok = router_inv_balancer [OF assms(2) Some]
  show ?thesis
  proof (cases "SelectOutbounds env (r_store r ! i) w")
    case (Inl e)
    then show ?thesis using assms Some by (simp add: GetPrincipleTarget_def)
  next
    case (Inr candidates)
    with assms(1) Some obtain ts' s where
      s: "strategy_PrincipleTarget env (bl_strategy (r_store r ! i)) candidates w = Some (ts', s, w')"
      and r': "r' = r\<lparr>r_store := (r_store r)[i := (r_store r ! i)\<lparr>bl_strategy := s\<rparr>]\<rparr>"
      by (auto simp: GetPrincipleTarget_def)
    then have "router_inv (r', w)" using PrincipleTarget_ok [OF s] ok router_inv_store [OF assms(2)] by simp
    then show ?thesis using router_inv_world PrincipleTarget_ok [OF s] ok by blast
  qed
qed

lemma override_inv:
  assumes "router_inv (r, w)" "al_get (r_balancers r) tag = Some i"
  shows "router_inv (r\<lparr>r_store := (r_store r)[i := override_Put target (r_store r ! i)]\<rparr>, w)"
  using router_inv_store [OF assms(1)] router_inv_balancer [OF assms] by (simp add: override_Put_def)

lemma RemoveRule_inv: "RemoveRule r tag = (e, r') \<Longrightarrow> router_inv (r, w) \<Longrightarrow> router_inv (r', w)"
proof -
  assume "RemoveRule r tag = (e, r')" "router_inv (r, w)"
  moreover have "distinct (rule_tags rules) \<Longrightarrow> distinct (rule_tags (filter P rules))" for rules P
    by (induction rules) (auto simp: rule_tags_def)
  ultimately show ?thesis by (auto simp: RemoveRule_def router_inv_def list_all_iff split: if_splits)
qed

lemma AddRule_inv: "AddRule env msg app r w = Some (e, r', w') \<Longrightarrow> router_inv (r, w) \<Longrightarrow> router_inv (r', w')"
  by (auto simp: AddRule_def dest: ReloadRules_inv split: typed_message.splits)

lemma router_step_inv: "router_step env s s' \<Longrightarrow> router_inv s \<Longrightarrow> router_inv s'"
proof (induction rule: router_step.induct)
  case (override r tag target e r' w)
  then show ?case by (auto simp: SetOverrideTarget_def intro: override_inv split: option.splits)
next
  case (override_balancer r tag target e r' w)
  then show ?case by (auto simp: OverrideBalancer_def intro: override_inv split: option.splits)
next
  case (outside w w' r)
  then show ?case using router_inv_world by blast
qed (blast intro: ReloadRules_inv AddRule_inv RemoveRule_inv PickRoute_inv GetPrincipleTarget_inv)+

lemma router_reachable_inv: "router_reachable env s \<Longrightarrow> router_inv s"
  by (induction rule: router_reachable.induct) (blast intro: Init_inv router_step_inv)+

section \<open>Routing always answers\<close>

text \<open>The dice stay in their range, and an observation that was made can be read.\<close>

definition fair_env :: "'s router_env \<Rightarrow> bool" where
  "fair_env env \<longleftrightarrow> (\<forall>n k. 0 < k \<longrightarrow> re_roll env n k < k) \<and> (\<forall>n. re_obs env n \<noteq> ObsNilResult)"

abbreviation pcache_fine :: "'s router_env \<Rightarrow> 's world \<Rightarrow> bool" where
  "pcache_fine env w \<equiv> pcache_ok (re_clock env) (re_find env) (w_process w)"

lemma Condition_Apply_total:
  assumes "cond_ok w k" "pcache_fine env w"
  shows "\<exists>b c' w'. Condition_Apply env k c w = Some (b, c', w') \<and> pcache_fine env w'"
proof (cases k)
  case (ProcessCond m)
  obtain dst c' n where t: "process_target (re_lookup env) c (w_step w) = (dst, c', n)" by (metis prod_cases3)
  have f: "\<exists>r pc n'. cachedFindProcess (re_clock env) (re_find env) key (w_process w) n = Some (r, pc, n') \<and>
      pcache_ok (re_clock env) (re_find env) pc" for key
    using cachedFindProcess_ok [OF assms(2)] by blast
  show ?thesis
  proof (cases "GetSourceIPs (base_ctx c) = [] \<or> GetNetwork (base_ctx c) \<noteq> Network_TCP \<and> GetNetwork (base_ctx c) \<noteq> Network_UDP")
    case True
    then show ?thesis using assms(2) ProcessCond by (auto simp: Process_Apply_def Let_def)
  next
    case False
    define key where "key = \<lparr>pk_network = (if GetNetwork (base_ctx c) = Network_TCP then ''tcp'' else ''udp''),
      pk_sourceIP = IPString (hd (GetSourceIPs (base_ctx c))), pk_sourcePort = GetSourcePort (base_ctx c),
      pk_destIP = (case dst of None \<Rightarrow> [] | Some p \<Rightarrow> IPString p),
      pk_destPort = (case dst of None \<Rightarrow> 0 | Some p \<Rightarrow> GetTargetPort (base_ctx c))\<rparr>"
    obtain r pc n' where r: "cachedFindProcess (re_clock env) (re_find env) key (w_process w) n = Some (r, pc, n')"
      "pcache_ok (re_clock env) (re_find env) pc" using f by blast
    have "Process_Apply env m c w = Some (Process_decide (re_pid env) m r, c', w\<lparr>w_process := pc, w_step := n'\<rparr>)"
      using False t r(1) unfolding Process_Apply_def Let_def key_def by auto
    then show ?thesis using r(2) ProcessCond by simp
  qed
qed (use assms in \<open>auto split: MatcherAsType.splits prod.splits option.splits simp: Let_def\<close>)

lemma Chan_Apply_total:
  "list_all (cond_ok w) ks \<Longrightarrow> pcache_fine env w \<Longrightarrow> \<exists>b c' w'. Chan_Apply env ks c w = Some (b, c', w') \<and> pcache_fine env w'"
proof (induction ks arbitrary: c w)
  case (Cons k ks)
  then obtain b c1 w1 where k: "Condition_Apply env k c w = Some (b, c1, w1)" "pcache_fine env w1"
    using Condition_Apply_total [of w k env c] by auto
  have "list_all (cond_ok w1) ks" using Cons(2) cond_ok_mono [OF Condition_Apply_shape [OF k(1)]] by (simp add: list_all_iff)
  from Cons(1) [OF this k(2)] k show ?case by (cases b) auto
qed auto

lemma first_rule_total:
  "list_all (rule_inv bals w) rules \<Longrightarrow> pcache_fine env w \<Longrightarrow>
    \<exists>k c' w'. first_rule env rules c w = Some (k, c', w') \<and> pcache_fine env w'"
proof (induction rules arbitrary: c w)
  case (Cons rule rules)
  then obtain b c1 w1 where k: "Rule_Apply env rule c w = Some (b, c1, w1)" "pcache_fine env w1"
    using Chan_Apply_total [of w "ru_Condition rule" env c] by (auto simp: Rule_Apply_def rule_inv_def)
  have "list_all (rule_inv bals w1) rules"
    using Cons(2) rule_inv_mono [OF Chan_Apply_shape [OF k(1) [unfolded Rule_Apply_def]] order_refl] by (simp add: list_all_iff)
  from Cons(1) [OF this k(2)] k show ?case by (cases b) auto
qed auto

lemma pickRouteInternal_total:
  assumes "list_all (rule_inv bals w) (r_rules r)" "pcache_fine env w"
  shows "\<exists>res c' w'. pickRouteInternal env r c w = Some (res, c', w') \<and> (\<forall>e. res = Inl e \<longrightarrow> e = ErrNoClue)"
proof -
  define c1 where "c1 = (if r_domainStrategy r = Config_IpOnDemand \<and> \<not> GetSkipDNSResolve (base_ctx c) then ContextWithDNSClient c else c)"
  obtain k c2 w2 where f: "first_rule env (r_rules r) c1 w = Some (k, c2, w2)" "pcache_fine env w2"
    using first_rule_total [OF assms] by blast
  have "list_all (rule_inv bals w2) (r_rules r)"
    using assms(1) rule_inv_mono [OF _ order_refl] first_rule_shape [OF f(1)] unfolding list_all_iff by blast
  from first_rule_total [OF this f(2), of "ContextWithDNSClient c2"] obtain k' c3 w3
    where g: "first_rule env (r_rules r) (ContextWithDNSClient c2) w2 = Some (k', c3, w3)" by blast
  show ?thesis using f(1) g unfolding pickRouteInternal_def c1_def Let_def by (cases k; cases k') simp_all
qed

lemma living_total: "fair_env env \<Longrightarrow> \<exists>ts c' w'. living env ob c tags w = Some (ts, c', w')"
  by (auto simp: living_def fair_env_def Let_def split: observation.splits prod.splits)

lemma dice_pick: "fair_env env \<Longrightarrow> xs \<noteq> [] \<Longrightarrow> dice_Roll env (length xs) w = (i, w') \<Longrightarrow> pick_at xs i = Some (xs ! i)"
  by (auto simp: dice_Roll_def fair_env_def pick_at_def split: if_splits)

lemma strategy_Pick_total: "fair_env env \<Longrightarrow> \<exists>t s' w'. strategy_Pick env s tags w = Some (t, s', w')"
proof (cases s)
  case (RoundRobin r)
  moreover assume "fair_env env"
  then obtain ts c w1 where "living env (rb_observed r) (rb_alive r) tags w = Some (ts, c, w1)" using living_total by blast
  ultimately show ?thesis by (simp add: RoundRobin_Pick_def Let_def go_mod_def pick_at_def)
next
  case (RandomPick r)
  moreover assume f: "fair_env env"
  then obtain ts c w1 where "living env (rn_observed r) (rn_alive r) tags w = Some (ts, c, w1)" using living_total by blast
  ultimately show ?thesis using dice_pick [OF f, of ts w1] by (cases "dice_Roll env (length ts) w1") (auto simp: Random_Pick_def Let_def)
next
  case (LeastPing ob)
  moreover assume "fair_env env"
  ultimately show ?thesis by (auto simp: LeastPing_Pick_def fair_env_def Let_def split: observation.splits)
next
  case (LeastLoad l)
  moreover assume f: "fair_env env"
  obtain sel l1 w1 where "pickOutbounds env l tags w = Some (sel, l1, w1)" using pickOutbounds_total by blast
  ultimately show ?thesis using dice_pick [OF f, of sel w1] by (cases "dice_Roll env (length sel) w1") (auto simp: LeastLoad_Pick_def)
qed

lemma Balancer_Pick_total: "fair_env env \<Longrightarrow> \<exists>t b' w'. Balancer_PickOutbound env b w = Some (t, b', w')"
proof (cases "SelectOutbounds env b w")
  case (Inr candidates)
  moreover assume "fair_env env"
  then obtain t s w' where "strategy_Pick env (bl_strategy b) candidates w = Some (t, s, w')" using strategy_Pick_total by blast
  ultimately show ?thesis by (simp add: Balancer_PickOutbound_def)
qed (simp add: Balancer_PickOutbound_def)

end
