(* ===== verification/RouterProps.thy ===== *)
theory RouterProps
  imports RouterInv
begin

text \<open>
  What the router promises over whole histories: the invariant of its rules and balancers, that routing
  always answers, what reloading, removing and overriding change, with the witnesses of the decision.
\<close>

section \<open>An example\<close>

definition ex_rule :: "string \<Rightarrow> TargetTag \<Rightarrow> Network list \<Rightarrow> string list \<Rightarrow> RoutingRule" where
  "ex_rule tag target nets inbounds = \<lparr>rr_TargetTag = target, rr_RuleTag = tag, rr_InboundTag = inbounds, rr_Networks = nets,
     rr_Protocol = [], rr_PortList = None, rr_SourcePortList = None, rr_LocalPortList = None, rr_VlessRouteList = None,
     rr_UserEmail = [], rr_Attributes = [], rr_Ip = [], rr_SourceIp = [], rr_LocalIp = [], rr_Domain = [], rr_Process = []\<rparr>"

definition ex_config :: RouterConfig where
  "ex_config = \<lparr>cf_DomainStrategy = Config_IpIfNonMatch,
     cf_Rule = [Some (ex_rule ''udp'' (RoutingRule_Tag ''block'') [Network_UDP] []),
                Some (ex_rule ''lan'' (RoutingRule_BalancingTag ''b'') [] [''tproxy''])],
     cf_BalancingRule = [Some \<lparr>br_Tag = ''b'', br_OutboundSelector = [''wan''], br_Strategy = ''random'', br_StrategySettings = None, br_FallbackTag = ''wan1''\<rparr>],
     cf_FinalOutboundTag = ''block''\<rparr>"

definition ex_router :: Router where
  "ex_router = \<lparr>r_domainStrategy = Config_IpIfNonMatch,
     r_rules = [\<lparr>ru_Tag = ''block'', ru_RuleTag = ''udp'', ru_Balancer = None, ru_Condition = [NetworkCond (NewNetworkMatcher [Network_UDP])]\<rparr>,
                \<lparr>ru_Tag = '''', ru_RuleTag = ''lan'', ru_Balancer = Some 0, ru_Condition = [InboundTagCond [''tproxy'']]\<rparr>],
     r_balancers = [(''b'', 0)], r_finalOutboundTag = ''block'',
     r_store = [\<lparr>bl_selectors = [''wan''], bl_strategy = RandomPick \<lparr>rn_FallbackTag = ''wan1'', rn_observed = True, rn_alive = empty_alive\<rparr>,
       bl_fallbackTag = ''wan1'', bl_override = []\<rparr>]\<rparr>"

lemma ex_ToLower: "ToLower ''random'' = ''random''"
  by code_simp

lemma ex_Init: "Init ex_renv True (Some ex_config) new_Router ex_world = Some (None, ex_router, ex_world)"
  by (simp add: Init_def ex_config_def ex_router_def new_Router_def ex_rule_def needs_observer_def BalancingRule_Build_def Let_def
      add_balancer_def ex_ToLower Balancer_InjectContext_def BuildCondition_def user_conds_def attribute_conds_def ip_conds_def domain_conds_def
      plain_conds_def port_conds_def process_conds_def GetTag_def GetBalancingTag_def NewInboundTagMatcher_def ex_renv_def)

lemma ex_reachable: "router_reachable ex_renv (ex_router, ex_world)"
  by (rule router_reachable.init [OF ex_Init])

section \<open>Invariant\<close>

text \<open>C3. In every history of the router the names of rules are unique, every rule has conditions, all of
  them on existing matchers, and a rule with a balancer has one of the table, which names each balancer
  once and lies within the store.\<close>

theorem router_invariant:
  assumes "router_reachable env (r, w)"
  shows "distinct (rule_tags (r_rules r)) \<and> al_ok (r_balancers r) \<and> distinct (map snd (r_balancers r)) \<and> al_get (r_balancers r) [] = None \<and>
    (\<forall>tag i. al_get (r_balancers r) tag = Some i \<longrightarrow> i < length (r_store r)) \<and>
    (\<forall>rule \<in> set (r_rules r). ru_Condition rule \<noteq> [] \<and> list_all (cond_ok w) (ru_Condition rule) \<and>
       (\<forall>i. ru_Balancer rule = Some i \<longrightarrow> (\<exists>tag. al_get (r_balancers r) tag = Some i)))"
proof -
  from router_reachable_inv [OF assms] have inv: "distinct (rule_tags (r_rules r))" "table_inv (r_balancers r) (r_store r)"
    "list_all (rule_inv (r_balancers r) w) (r_rules r)" by (simp_all add: router_inv_def)
  then have ok: "al_ok (r_balancers r)" by (simp add: table_inv_def)
  have "\<exists>tag. al_get (r_balancers r) tag = Some i" if "rule \<in> set (r_rules r)" "ru_Balancer rule = Some i" for rule i
    using inv(3) that map_of_is_SomeI [OF ok] by (fastforce simp: rule_inv_def list_all_iff)
  moreover have "al_get (r_balancers r) tag = Some i \<Longrightarrow> i < length (r_store r)" for tag i
    using router_inv_balancer [OF router_reachable_inv [OF assms]] by blast
  moreover have "al_get (r_balancers r) [] = None" using inv(2) by (simp add: table_inv_def map_of_eq_None_iff)
  ultimately show ?thesis using inv(1,2) inv(3) [unfolded list_all_iff rule_inv_def] by (simp add: table_inv_def list_all_iff)
qed

theorem router_invariant_witness: "distinct (rule_tags (r_rules ex_router)) \<and> 0 < length (r_store ex_router)"
  using router_invariant [OF ex_reachable] by (auto simp: ex_router_def)

section \<open>Routing answers\<close>

text \<open>What a routing decision must be, given the rule that holds, if any: without one the final outbound, or no
  clue when there is none; for a rule with a tag that tag; for a rule with a balancer its override, a
  selected outbound or its fallback, and an error only when this balancer has no fallback and no override
  that counts.\<close>

definition answer_of_balancer :: "'s router_env \<Rightarrow> 's world \<Rightarrow> Balancer \<Rightarrow> router_error + string \<Rightarrow> bool" where
  "answer_of_balancer env w b t \<longleftrightarrow>
     (case t of
        Inl e \<Rightarrow> bl_fallbackTag b = [] \<and> \<not> (re_selects env \<and> bl_override b \<noteq> [])
      | Inr tag \<Rightarrow> tag \<noteq> [] \<and>
          (tag = bl_override b \<or> tag = bl_fallbackTag b \<or> bl_override b = [] \<and> tag \<in> set (Select (w_outbounds w) (bl_selectors b))) \<and>
          (re_selects env \<and> bl_override b \<noteq> [] \<longrightarrow> tag = bl_override b))"

definition route_for :: "Ctx \<Rightarrow> string \<Rightarrow> Rule \<Rightarrow> Route" where
  "route_for c tag rule = \<lparr>rt_Context = Some c, rt_outboundTag = tag, rt_ruleTag = ru_RuleTag rule, rt_fallback = False\<rparr>"

definition decision_ok :: "'s router_env \<Rightarrow> Router \<Rightarrow> 's world \<Rightarrow> router_error + Rule \<Rightarrow> Ctx \<Rightarrow> router_error + Route \<Rightarrow> bool" where
  "decision_ok env r w k c res \<longleftrightarrow>
     (case k of
        Inl e \<Rightarrow> e = ErrNoClue \<and>
          res = (if r_finalOutboundTag r = [] then Inl ErrNoClue
                 else Inr \<lparr>rt_Context = Some c, rt_outboundTag = r_finalOutboundTag r, rt_ruleTag = [], rt_fallback = True\<rparr>)
      | Inr rule \<Rightarrow> rule \<in> set (r_rules r) \<and>
          (case ru_Balancer rule of
             None \<Rightarrow> res = Inr (route_for c (ru_Tag rule) rule)
           | Some i \<Rightarrow> i < length (r_store r) \<and>
               (\<exists>t. answer_of_balancer env w (r_store r ! i) t \<and> res = map_sum id (\<lambda>tag. route_for c tag rule) t)))"

lemma balancer_answers:
  assumes "fair_env env" "strategy_ok (bl_strategy b)"
  shows "\<exists>t b' w'. Balancer_PickOutbound env b w = Some (t, b', w') \<and> answer_of_balancer env w b t"
proof -
  obtain t b' w' where p: "Balancer_PickOutbound env b w = Some (t, b', w')" using Balancer_Pick_total [OF assms(1)] by blast
  show ?thesis using balancer_picks_member [OF p assms(2)] p by (cases t) (auto simp: answer_of_balancer_def)
qed

lemma PickRoute_decides:
  assumes "router_inv (r, w)" "fair_env env" "pcache_fine env w"
  shows "\<exists>res r' w' k c1 w1. PickRoute env r c w = Some (res, r', w') \<and> pickRouteInternal env r c w = Some (k, c1, w1) \<and>
    decision_ok env r w1 k c1 res"
proof -
  have rules: "list_all (rule_inv (r_balancers r) w) (r_rules r)" and t: "table_inv (r_balancers r) (r_store r)"
    using assms(1) by (simp_all add: router_inv_def)
  obtain k c1 w1 where k: "pickRouteInternal env r c w = Some (k, c1, w1)" "\<forall>e. k = Inl e \<longrightarrow> e = ErrNoClue"
    using pickRouteInternal_total [OF rules assms(3)] by blast
  show ?thesis
  proof (cases k)
    case (Inl e)
    then show ?thesis using k by (auto simp: PickRoute_def decision_ok_def)
  next
    case (Inr rule)
    then have mem: "rule \<in> set (r_rules r)" using pickRouteInternal_shape [OF k(1)] by blast
    show ?thesis
    proof (cases "ru_Balancer rule")
      case None
      then show ?thesis using Inr k(1) mem by (simp add: PickRoute_def Rule_GetTag_def decision_ok_def route_for_def)
    next
      case (Some i)
      then have "i \<in> snd ` set (r_balancers r)" using mem rules by (auto simp: list_all_iff rule_inv_def)
      then have i: "i < length (r_store r)" "strategy_ok (bl_strategy (r_store r ! i))"
        using t unfolding table_inv_def by (blast, auto simp: list_all_length)
      obtain t b w2 where b: "Balancer_PickOutbound env (r_store r ! i) w1 = Some (t, b, w2)" "answer_of_balancer env w1 (r_store r ! i) t"
        using balancer_answers [OF assms(2) i(2)] by blast
      then show ?thesis using Inr k(1) i mem Some by (simp add: PickRoute_def Rule_GetTag_def decision_ok_def route_for_def) blast
    qed
  qed
qed

lemma PickRoute_total:
  assumes "router_inv (r, w)" "fair_env env" "pcache_fine env w"
  shows "\<exists>res r' w'. PickRoute env r c w = Some (res, r', w')"
  using PickRoute_decides [OF assms] by blast

text \<open>C2. In every history, with dice in range, readable observations and a consistent process cache, a request is
  routed: \<open>PickRoute\<close> ends without a panic and gives what the rule that was found asks for. Without a rule
  that is the final outbound, marked as fallback, or the error \<open>ErrNoClue\<close> if none is configured; for a
  rule with a tag it is that tag; for a rule with a balancer it is a nonempty tag, the override where one is
  set, else a selected outbound or the fallback, and an error only when this balancer has no fallback. The
  router stays in a reachable state.\<close>

theorem routing_answers:
  assumes "router_reachable env (r, w)" "fair_env env" "pcache_fine env w"
  shows "\<exists>res r' w' k c1 w1. PickRoute env r c w = Some (res, r', w') \<and> router_reachable env (r', w') \<and>
    pickRouteInternal env r c w = Some (k, c1, w1) \<and> decision_ok env r w1 k c1 res"
  using PickRoute_decides [OF router_reachable_inv [OF assms(1)] assms(2,3)] router_reachable.step [OF assms(1)] router_step.pick by metis

lemma ex_fair: "fair_env ex_renv" "pcache_fine ex_renv ex_world"
  by (simp add: fair_env_def ex_renv_def) (simp add: ex_world_def new_pcache_ok)

definition ex_ctx :: Context where
  "ex_ctx = \<lparr>GetInboundTag = ''tproxy'', GetSourceIPs = [[192, 168, 1, 2]], GetSourcePort = 40000, base_TargetIPs = [], GetTargetPort = 443,
     GetLocalIPs = [], GetLocalPort = 0, GetTargetDomain = ''example.com'', GetNetwork = Network_TCP, GetProtocol = ''tls'', GetUser = [],
     GetVlessRoute = 0, GetAttributes = None, GetSkipDNSResolve = False\<rparr>"

theorem routing_answers_witness:
  "\<exists>route r' w'. PickRoute ex_renv ex_router (BaseContext ex_ctx) ex_world = Some (Inr route, r', w') \<and> rt_outboundTag route \<noteq> []"
proof -
  let ?c = "BaseContext ex_ctx"
  from routing_answers [OF ex_reachable ex_fair] obtain res r' w' k c1 w1 where
    p: "PickRoute ex_renv ex_router ?c ex_world = Some (res, r', w')" "decision_ok ex_renv ex_router w1 k c1 res" by blast
  have "\<exists>route. res = Inr route \<and> rt_outboundTag route \<noteq> []"
  proof (cases k)
    case (Inl e)
    then show ?thesis using p(2) by (simp add: decision_ok_def ex_router_def)
  next
    case (Inr rule)
    then consider "ru_Balancer rule = None" "ru_Tag rule = ''block''" | "ru_Balancer rule = Some 0"
      using p(2) by (auto simp: decision_ok_def ex_router_def)
    then show ?thesis
    proof cases
      case 1
      then show ?thesis using p(2) Inr by (simp add: decision_ok_def route_for_def)
    next
      case 2
      then obtain t where t: "answer_of_balancer ex_renv w1 (r_store ex_router ! 0) t" "res = map_sum id (\<lambda>tag. route_for c1 tag rule) t"
        using p(2) Inr by (auto simp: decision_ok_def)
      then show ?thesis by (cases t) (auto simp: answer_of_balancer_def ex_router_def route_for_def)
    qed
  qed
  then show ?thesis using p(1) by blast
qed

section \<open>Reloading and removing\<close>

lemma reload_balancers_keeps:
  "reload_balancers env brs t = Inr t' \<Longrightarrow> \<exists>ext. snd t' = snd t @ ext"
  by (induction env brs t rule: reload_balancers.induct) (force simp: add_balancer_def split: if_splits sum.splits prod.splits)+

lemma build_rules_tags:
  "build_rules env bals rrs tags w = Some (None, rules, w') \<Longrightarrow>
    map (\<lambda>rule. Some (ru_RuleTag rule)) rules = map (map_option rr_RuleTag) rrs"
proof (induction rrs arbitrary: tags w rules)
  case (Cons x rrs)
  then obtain rr where x: "x = Some rr" by (cases x) auto
  obtain cond w1 where c: "BuildCondition env rr w = Some (Inr cond, w1)"
    using Cons(2) unfolding x by (auto simp: Let_def split: if_splits option.splits sum.splits)
  then show ?case using Cons unfolding x by (auto simp: Let_def split: if_splits)
qed simp

text \<open>C4. A reload is atomic: when it fails, the router is as it was. When it succeeds, the rules of the
  configuration follow the old ones if it appends, in their order and with their names, and replace them
  if not; the strategy and the final outbound change only when it replaces; and every balancer of the old
  table keeps its name and state when it appends.\<close>

theorem reload_rules_atomic:
  assumes "ReloadRules env cfg app r w = Some (e, r', w')" "router_reachable env (r, w)"
  shows "(e \<noteq> None \<longrightarrow> r' = r) \<and>
    (e = None \<longrightarrow> (\<exists>config rules. cfg = Some config \<and> r_rules r' = (if app then r_rules r else []) @ rules \<and>
       map (\<lambda>rule. Some (ru_RuleTag rule)) rules = map (map_option rr_RuleTag) (cf_Rule config) \<and>
       r_domainStrategy r' = (if app then r_domainStrategy r else cf_DomainStrategy config) \<and>
       r_finalOutboundTag r' = (if app then r_finalOutboundTag r else cf_FinalOutboundTag config) \<and>
       (\<forall>tag i. app \<and> al_get (r_balancers r) tag = Some i \<longrightarrow> al_get (r_balancers r') tag = Some i \<and> r_store r' ! i = r_store r ! i)))"
proof (cases e)
  case (Some x)
  then show ?thesis using ReloadRules_failure assms(1) by blast
next
  case None
  note inv = router_reachable_inv [OF assms(2)]
  from assms(1) None have "ReloadRules env cfg app r w = Some (None, r', w')" by simp
  then obtain config bals store rules where c: "cfg = Some config"
    "reload_balancers env (cf_BalancingRule config) (if app then r_balancers r else [], r_store r) = Inr (bals, store)"
    "build_rules env bals (cf_Rule config) (rule_tags (if app then r_rules r else [])) w = Some (None, rules, w')"
    "r_rules r' = (if app then r_rules r else []) @ rules" "r_balancers r' = bals" "r_store r' = store"
    "r_domainStrategy r' = (if app then r_domainStrategy r else cf_DomainStrategy config)"
    "r_finalOutboundTag r' = (if app then r_finalOutboundTag r else cf_FinalOutboundTag config)"
    by (rule ReloadRules_success)
  have "al_get bals tag = Some i \<and> store ! i = r_store r ! i" if a: "app" "al_get (r_balancers r) tag = Some i" for tag i
  proof -
    have t: "table_inv (r_balancers r) (r_store r)" using inv by (simp add: router_inv_def)
    with reload_balancers_ok [OF c(2)] a(1) have n: "table_inv bals store" "set (r_balancers r) \<subseteq> set bals" by auto
    then have "al_get bals tag = Some i" using map_of_SomeD [OF a(2)] by (auto simp: table_inv_def)
    moreover have "store ! i = r_store r ! i"
      using reload_balancers_keeps [OF c(2)] router_inv_balancer [OF inv a(2)] by (auto simp: nth_append)
    ultimately show ?thesis by blast
  qed
  then show ?thesis using None c(1,4-8) build_rules_tags [OF c(3)] by blast
qed

definition ex_added :: RouterConfig where
  "ex_added = \<lparr>cf_DomainStrategy = Config_AsIs, cf_Rule = [Some (ex_rule ''tcp'' (RoutingRule_Tag ''wan2'') [Network_TCP] [])],
     cf_BalancingRule = [], cf_FinalOutboundTag = []\<rparr>"

theorem reload_rules_atomic_witness:
  "\<exists>r' w'. ReloadRules ex_renv (Some ex_added) True ex_router ex_world = Some (None, r', w') \<and>
     map ru_RuleTag (r_rules r') = [''udp'', ''lan'', ''tcp''] \<and> r_finalOutboundTag r' = ''block''"
proof -
  have "\<exists>r' w'. ReloadRules ex_renv (Some ex_added) True ex_router ex_world = Some (None, r', w')"
    by (simp add: ReloadRules_def ex_added_def ex_router_def ex_rule_def Let_def BuildCondition_def user_conds_def attribute_conds_def
        ip_conds_def domain_conds_def plain_conds_def port_conds_def process_conds_def GetTag_def GetBalancingTag_def rule_tags_def)
  then obtain r' w' where r: "ReloadRules ex_renv (Some ex_added) True ex_router ex_world = Some (None, r', w')" by blast
  from reload_rules_atomic [OF r ex_reachable] obtain rules where
    "r_rules r' = r_rules ex_router @ rules" "map (\<lambda>rule. Some (ru_RuleTag rule)) rules = [Some ''tcp'']" "r_finalOutboundTag r' = ''block''"
    by (auto simp: ex_added_def ex_rule_def ex_router_def)
  then show ?thesis using r by (auto simp: ex_router_def map_eq_Cons_conv)
qed

text \<open>In every history, removing a rule by its name takes out that one rule and keeps the others in
  their order, or changes nothing when there is none of that name; an empty name is refused.\<close>

theorem remove_rule_exact:
  assumes "router_reachable env (r, w)" "RemoveRule r tag = (e, r')"
  shows "(e \<noteq> None \<longleftrightarrow> tag = []) \<and> \<not> RuleExists r' tag \<and> (\<forall>t. t \<noteq> tag \<longrightarrow> RuleExists r' t = RuleExists r t) \<and>
    (if RuleExists r tag
     then \<exists>pre rule post. r_rules r = pre @ rule # post \<and> ru_RuleTag rule = tag \<and> r' = r\<lparr>r_rules := pre @ post\<rparr>
     else r' = r)"
proof (cases "RuleExists r tag")
  case False
  then have "tag = [] \<or> (\<forall>rule \<in> set (r_rules r). ru_RuleTag rule \<noteq> tag)"
    by (auto simp: RuleExists_def list_ex_iff)
  then show ?thesis using assms(2) False by (auto simp: RemoveRule_def RuleExists_def filter_id_conv list_ex_iff split: if_splits)
next
  case True
  then have t: "tag \<noteq> []" "\<exists>rule \<in> set (r_rules r). ru_RuleTag rule = tag" by (auto simp: RuleExists_def list_ex_iff split: if_splits)
  then obtain pre rule post where s: "r_rules r = pre @ rule # post" "ru_RuleTag rule = tag" "\<forall>x \<in> set pre. ru_RuleTag x \<noteq> tag"
    using split_list_first_prop [of "r_rules r" "\<lambda>x. ru_RuleTag x = tag"] by blast
  have "distinct (rule_tags (pre @ rule # post))" using router_reachable_inv [OF assms(1)] by (simp add: router_inv_def s(1))
  then have "tag \<notin> ru_RuleTag ` set post" using t(1) s(2) by (simp add: rule_tags_def)
  then have "\<forall>x \<in> set post. ru_RuleTag x \<noteq> tag" by blast
  then have f: "filter (\<lambda>x. ru_RuleTag x \<noteq> tag) (r_rules r) = pre @ post" using s by (simp add: filter_id_conv)
  then have "r' = r\<lparr>r_rules := pre @ post\<rparr>" "e = None" using assms(2) t(1) by (simp_all add: RemoveRule_def)
  moreover have "\<not> RuleExists (r\<lparr>r_rules := pre @ post\<rparr>) tag" unfolding f [symmetric] by (simp add: RuleExists_def list_ex_iff)
  moreover have "RuleExists (r\<lparr>r_rules := pre @ post\<rparr>) t = RuleExists r t" if "t \<noteq> tag" for t
    using s that by (auto simp: RuleExists_def list_ex_iff)
  ultimately show ?thesis using True s(1,2) t(1) by metis
qed

theorem remove_rule_exact_witness:
  "\<exists>r'. RemoveRule ex_router ''udp'' = (None, r') \<and> map ru_RuleTag (r_rules r') = [''lan''] \<and> \<not> RuleExists r' ''udp'' \<and> RuleExists r' ''lan''"
proof -
  have r: "RemoveRule ex_router ''udp'' = (None, ex_router\<lparr>r_rules := tl (r_rules ex_router)\<rparr>)"
    by (simp add: RemoveRule_def ex_router_def)
  have "RuleExists ex_router ''lan''" by (simp add: RuleExists_def ex_router_def)
  then show ?thesis using remove_rule_exact [OF ex_reachable r] unfolding r by (simp add: ex_router_def)
qed

section \<open>Overrides\<close>

lemma al_get_inj:
  assumes "distinct (map snd m)" "al_get m k = Some i" "al_get m k' = Some i"
  shows "k = k'"
  using assms(1) map_of_SomeD [OF assms(2)] map_of_SomeD [OF assms(3)] unfolding distinct_map inj_on_def by force

text \<open>C40. An override of a balancer is read back, concerns that balancer only, and a request whose rule uses
  that balancer then goes to the overriding outbound, without asking the strategy.\<close>

theorem override_routes:
  assumes "router_reachable env (r, w)" "SetOverrideTarget r tag target = (None, r')"
  shows "GetOverrideTarget r' tag = Inr target \<and> (\<forall>t. t \<noteq> tag \<longrightarrow> GetOverrideTarget r' t = GetOverrideTarget r t) \<and>
    r_rules r' = r_rules r \<and> OverrideBalancer r tag target = (None, r') \<and>
    (\<forall>c rule c' w'. pickRouteInternal env r' c w = Some (Inr rule, c', w') \<and> ru_Balancer rule = al_get (r_balancers r) tag \<and>
       target \<noteq> [] \<and> re_selects env \<longrightarrow>
       (\<exists>route. PickRoute env r' c w = Some (Inr route, r', w') \<and> rt_outboundTag route = target \<and> rt_ruleTag route = ru_RuleTag rule))"
proof -
  note inv = router_reachable_inv [OF assms(1)]
  obtain i where i: "al_get (r_balancers r) tag = Some i"
    and r': "r' = r\<lparr>r_store := (r_store r)[i := override_Put target (r_store r ! i)]\<rparr>"
    using assms(2) by (auto simp: SetOverrideTarget_def split: option.splits)
  have len: "i < length (r_store r)" using router_inv_balancer [OF inv i] by blast
  have d: "distinct (map snd (r_balancers r))" using inv by (simp add: router_inv_def table_inv_def)
  have "GetOverrideTarget r' t = GetOverrideTarget r t" if t: "t \<noteq> tag" for t
  proof (cases "al_get (r_balancers r) t")
    case (Some j)
    then have "j \<noteq> i" using al_get_inj [OF d i] t by auto
    then show ?thesis using Some by (simp add: r' GetOverrideTarget_def)
  qed (simp add: r' GetOverrideTarget_def)
  moreover have "\<exists>route. PickRoute env r' c w = Some (Inr route, r', w') \<and> rt_outboundTag route = target \<and> rt_ruleTag route = ru_RuleTag rule"
    if "pickRouteInternal env r' c w = Some (Inr rule, c', w')" "ru_Balancer rule = al_get (r_balancers r) tag" "target \<noteq> []" "re_selects env"
    for c rule c' w'
  proof -
    have "Balancer_PickOutbound env (r_store r' ! i) w' = Some (Inr target, r_store r' ! i, w')"
      using that(3,4) len by (simp add: r' Balancer_PickOutbound_def SelectOutbounds_def override_Get_def override_Put_def)
    then show ?thesis using that(1,2) i len by (simp add: PickRoute_def Rule_GetTag_def r')
  qed
  ultimately show ?thesis using i len
    by (simp add: r' GetOverrideTarget_def OverrideBalancer_def override_Get_def override_Put_def)
qed

theorem override_routes_witness:
  "\<exists>r'. SetOverrideTarget ex_router ''b'' ''wan2'' = (None, r') \<and> GetOverrideTarget r' ''b'' = Inr ''wan2''"
proof -
  obtain r' where r: "SetOverrideTarget ex_router ''b'' ''wan2'' = (None, r')" by (simp add: SetOverrideTarget_def ex_router_def)
  with override_routes [OF ex_reachable r] show ?thesis by blast
qed

end
