(* ===== verification/TlsSniff.thy ===== *)
theory TlsSniff
  imports GeoLoader "HOL-Library.Monad_Syntax"
begin

text \<open>
  \<open>common/protocol/tls/tls.go\<close>: the server name of a TLS ClientHello, from handshake bytes or from a
  stream of records. Every index and every slice of the code is an operation that fails outside the
  length of its operand, so that \<open>None\<close> is a panic or a read beyond the data.
\<close>

section \<open>Bytes\<close>

definition at_byte :: "byte list \<Rightarrow> nat \<Rightarrow> byte option" where
  "at_byte xs i = (if i < length xs then Some (xs ! i) else None)"

definition slice :: "nat \<Rightarrow> nat \<Rightarrow> 'a list \<Rightarrow> 'a list option" where
  "slice i j xs = (if i \<le> j \<and> j \<le> length xs then Some (take (j - i) (drop i xs)) else None)"

definition slice_from :: "nat \<Rightarrow> 'a list \<Rightarrow> 'a list option" where
  "slice_from i xs = (if i \<le> length xs then Some (drop i xs) else None)"

text \<open>Big-endian numbers: \<open>binary.BigEndian.Uint16\<close>, and the shifts that join three bytes.\<close>

definition be_nat :: "byte list \<Rightarrow> nat" where
  "be_nat bs = foldl (\<lambda>n b. n * 256 + unat b) 0 bs"

definition be_at :: "nat \<Rightarrow> nat \<Rightarrow> byte list \<Rightarrow> nat option" where
  "be_at i j xs = map_option be_nat (slice i j xs)"

definition text_of :: "byte list \<Rightarrow> string" where
  "text_of bs = map (\<lambda>b. char_of (unat b)) bs"

section \<open>The server name extension\<close>

definition sni_name :: "byte list \<Rightarrow> string option" where
  "sni_name name =
     (if \<exists>c \<in> set name. c \<le> 32 then Some []
      else do { l \<leftarrow> at_byte name (length name - 1); Some (if l = 46 then [] else text_of name) })"

function sni_loop :: "byte list \<Rightarrow> string option" where
  "sni_loop xs =
     (if xs = [] then Some []
      else if length xs < 3 then Some []
      else do {
        nameType \<leftarrow> at_byte xs 0;
        nameLen \<leftarrow> be_at 1 3 xs;
        ys \<leftarrow> slice_from 3 xs;
        if nameLen = 0 \<or> length ys < nameLen then Some []
        else if nameType = 0 then do { name \<leftarrow> slice 0 nameLen ys; sni_name name }
        else do { zs \<leftarrow> slice_from nameLen ys; sni_loop zs }
      })"
  by pat_completeness auto
termination
  by (relation "measure length") (auto simp: slice_from_def split: if_splits)

definition parseSNIExtension :: "byte list \<Rightarrow> string option" where
  "parseSNIExtension xs =
     (if length xs < 2 then Some []
      else do {
        listLen \<leftarrow> be_at 0 2 xs;
        ys \<leftarrow> slice_from 2 xs;
        if listLen \<noteq> length ys then Some [] else sni_loop ys
      })"

section \<open>ClientHello\<close>

function ext_loop :: "byte list \<Rightarrow> string option" where
  "ext_loop xs =
     (if xs = [] then Some []
      else if length xs < 4 then Some []
      else do {
        typ \<leftarrow> be_at 0 2 xs;
        len \<leftarrow> be_at 2 4 xs;
        ys \<leftarrow> slice_from 4 xs;
        if length ys < len then Some []
        else if typ = 0 then do { e \<leftarrow> slice 0 len ys; parseSNIExtension e }
        else do { zs \<leftarrow> slice_from len ys; ext_loop zs }
      })"
  by pat_completeness auto
termination
  by (relation "measure length") (auto simp: slice_from_def split: if_splits)

declare sni_loop.simps [simp del] ext_loop.simps [simp del]

definition parseClientHello :: "byte list \<Rightarrow> string option" where
  "parseClientHello data0 =
     (if length data0 < 35 then Some []
      else do {
        d1 \<leftarrow> slice_from 34 data0;
        sidLen \<leftarrow> be_at 0 1 d1;
        d2 \<leftarrow> slice_from 1 d1;
        if length d2 < sidLen + 2 then Some []
        else do {
          d3 \<leftarrow> slice_from sidLen d2;
          csLen \<leftarrow> be_at 0 2 d3;
          d4 \<leftarrow> slice_from 2 d3;
          if csLen = 0 \<or> csLen mod 2 \<noteq> 0 \<or> length d4 < csLen + 1 then Some []
          else do {
            d5 \<leftarrow> slice_from csLen d4;
            compressionLen \<leftarrow> be_at 0 1 d5;
            d6 \<leftarrow> slice_from 1 d5;
            if compressionLen = 0 \<or> length d6 < compressionLen then Some []
            else do {
              d7 \<leftarrow> slice_from compressionLen d6;
              if length d7 = 0 then Some []
              else if length d7 < 2 then Some []
              else do {
                extensionsLen \<leftarrow> be_at 0 2 d7;
                d8 \<leftarrow> slice_from 2 d7;
                if extensionsLen \<noteq> length d8 then Some [] else ext_loop d8
              }
            }
          }
        }
      })"

definition maxTLSHandshake :: nat where
  "maxTLSHandshake = 2 ^ 20"

definition SniffClientHelloHandshake :: "byte list \<Rightarrow> (string \<times> bool) option" where
  "SniffClientHelloHandshake xs =
     (if length xs < 4 then Some ([], True)
      else do {
        t \<leftarrow> at_byte xs 0;
        if t \<noteq> 1 then Some ([], False)
        else do {
          len \<leftarrow> be_at 1 4 xs;
          if len < 34 \<or> maxTLSHandshake < len then Some ([], False)
          else if length xs < 4 + len then Some ([], True)
          else do { h \<leftarrow> slice 4 (4 + len) xs; s \<leftarrow> parseClientHello h; Some (s, False) }
        }
      })"

section \<open>Records\<close>

text \<open>The check of the bytes reassembled so far: a result, or \<open>None\<close> to read on.\<close>

definition hello_status :: "byte list \<Rightarrow> (string \<times> bool) option option" where
  "hello_status hs = do {
     bad \<leftarrow> (if 1 \<le> length hs then map_option (\<lambda>b. b \<noteq> 1) (at_byte hs 0) else Some False);
     if bad then Some (Some ([], False))
     else if 4 \<le> length hs then do {
       len \<leftarrow> be_at 1 4 hs;
       if len < 34 \<or> maxTLSHandshake < len then Some (Some ([], False))
       else if 4 + len \<le> length hs then do { h \<leftarrow> slice 4 (4 + len) hs; s \<leftarrow> parseClientHello h; Some (Some (s, False)) }
       else Some None
     }
     else Some None
   }"

function record_loop :: "byte list \<Rightarrow> nat \<Rightarrow> byte list \<Rightarrow> (string \<times> bool) option" where
  "record_loop xs offset handshake =
     (if length xs - offset < 5 then Some ([], True)
      else do {
        t \<leftarrow> at_byte xs offset;
        if t \<noteq> 22 then Some ([], False)
        else do {
          recordLen \<leftarrow> be_at (offset + 3) (offset + 5) xs;
          if recordLen = 0 \<or> 18432 < recordLen then Some ([], False)
          else if length xs - offset - 5 < recordLen then Some ([], True)
          else do {
            payload \<leftarrow> slice (offset + 5) (offset + 5 + recordLen) xs;
            st \<leftarrow> hello_status (handshake @ payload);
            case st of
              Some r \<Rightarrow> Some r
            | None \<Rightarrow>
                if offset + 5 + recordLen = length xs then Some ([], True)
                else record_loop xs (offset + 5 + recordLen) (handshake @ payload)
          }
        }
      })"
  by pat_completeness auto
termination
  by (relation "measure (\<lambda>(xs, offset, _). length xs - offset)") auto

declare record_loop.simps [simp del]

text \<open>The first record alone, when it holds the whole message: the shortcut of the code.\<close>

definition single_record :: "byte list \<Rightarrow> byte list option option" where
  "single_record xs =
     (if 5 \<le> length xs then do {
        recordLen \<leftarrow> be_at 3 5 xs;
        if 0 < recordLen \<and> recordLen \<le> 18432 \<and> 5 + recordLen \<le> length xs then do {
          payload \<leftarrow> slice 5 (5 + recordLen) xs;
          if 4 \<le> length payload then do {
            handshakeLen \<leftarrow> be_at 1 4 payload;
            t \<leftarrow> at_byte payload 0;
            if t = 1 \<and> 34 \<le> handshakeLen \<and> 4 + handshakeLen \<le> length payload
            then do { h \<leftarrow> slice 4 (4 + handshakeLen) payload; Some (Some h) }
            else Some None
          }
          else Some None
        }
        else Some None
      }
      else Some None)"

definition SniffSNIWithStatus :: "byte list \<Rightarrow> (string \<times> bool) option" where
  "SniffSNIWithStatus xs =
     (if length xs = 0 then Some ([], True)
      else do {
        t \<leftarrow> at_byte xs 0;
        if t \<noteq> 22 then Some ([], False)
        else do {
          one \<leftarrow> single_record xs;
          case one of
            Some h \<Rightarrow> do { s \<leftarrow> parseClientHello h; Some (s, False) }
          | None \<Rightarrow> record_loop xs 0 []
        }
      })"

definition SniffSNI :: "byte list \<Rightarrow> string option" where
  "SniffSNI xs = map_option fst (SniffSNIWithStatus xs)"

end
