(* ===== verification/Sniffer.thy ===== *)
theory Sniffer
  imports TlsSniff NetText
begin

text \<open>
  \<open>common/protocol/http/http.go\<close> and \<open>app/dispatcher/sniffer.go\<close>: the host and attributes of an HTTP
  request, and the sniffer that reads a bounded prefix of a connection, recovers the domain and hands out a
  connection that replays what it read. Header text is ASCII: white space and case are those of ASCII
  characters. Metrics are left out, and \<open>quic.SniffSNI\<close> is a parameter.
\<close>

section \<open>HTTP requests\<close>

fun index_of :: "'a list \<Rightarrow> 'a list \<Rightarrow> nat option" where
  "index_of sep [] = (if sep = [] then Some 0 else None)"
| "index_of sep (x # xs) = (if take (length sep) (x # xs) = sep then Some 0 else map_option Suc (index_of sep xs))"

abbreviation crlf :: string where
  "crlf \<equiv> [CHR 0x0D, CHR 0x0A]"

text \<open>\<open>bytes.Split\<close> with the separator CR LF.\<close>

fun split_lines :: "string \<Rightarrow> string list" where
  "split_lines [] = [[]]"
| "split_lines [c] = [[c]]"
| "split_lines (c # d # s) =
     (if c = CHR 0x0D \<and> d = CHR 0x0A then [] # split_lines s
      else case split_lines (d # s) of l # ls \<Rightarrow> (c # l) # ls | [] \<Rightarrow> [[c]])"

text \<open>\<open>strings.Fields\<close>.\<close>

function (sequential) Fields :: "string \<Rightarrow> string list" where
  "Fields [] = []"
| "Fields (c # s) =
     (if is_space c then Fields s
      else takeWhile (\<lambda>x. \<not> is_space x) (c # s) # Fields (dropWhile (\<lambda>x. \<not> is_space x) (c # s)))"
  by pat_completeness auto
termination
proof (relation "measure length", goal_cases)
  case (3 c s)
  then show ?case using length_dropWhile_le [of "\<lambda>x. \<not> is_space x" s] by simp
qed simp_all

definition ContainsAny :: "string \<Rightarrow> string \<Rightarrow> bool" where
  "ContainsAny s chars \<longleftrightarrow> (\<exists>c \<in> set s. c \<in> set chars)"

definition Trim_set :: "string \<Rightarrow> string \<Rightarrow> string" where
  "Trim_set cs s = rev (dropWhile (\<lambda>c. c \<in> set cs) (rev (dropWhile (\<lambda>c. c \<in> set cs) s)))"

text \<open>\<open>strconv.Atoi\<close>: an optional sign and digits, within 64 bits.\<close>

definition Atoi :: "string \<Rightarrow> int option" where
  "Atoi s =
     (let neg = (s \<noteq> [] \<and> hd s = CHR ''-'');
          ds = (if s \<noteq> [] \<and> (hd s = CHR ''-'' \<or> hd s = CHR ''+'') then tl s else s);
          v = (if neg then - int (dec_value ds) else int (dec_value ds))
      in if ds = [] \<or> \<not> list_all is_digit ds then None
         else if v < - (2 ^ 63) \<or> 2 ^ 63 \<le> v then None else Some v)"

definition http_methods :: "string list" where
  "http_methods = [''GET'', ''POST'', ''PUT'', ''DELETE'', ''HEAD'', ''OPTIONS'', ''CONNECT'', ''PATCH'']"

definition knownMethod :: "string \<Rightarrow> bool" where
  "knownMethod m = list_ex (\<lambda>c. EqualFold m c) http_methods"

definition normalizeHost :: "string \<Rightarrow> string" where
  "normalizeHost value0 =
     (case SplitHostPort value0 of
        Inr (host, portText) \<Rightarrow>
          (case Atoi portText of
             None \<Rightarrow> []
           | Some port \<Rightarrow> if port < 1 \<or> 65535 < port then [] else Trim_set ''[]'' host)
      | Inl _ \<Rightarrow>
          let v = (if HasPrefix value0 ''['' \<and> HasSuffix value0 '']'' then Trim_set ''[]'' value0 else value0)
          in if v = [] \<or> ContainsAny v [CHR '' '', CHR 0x09, CHR ''/'', CHR 0x5C] then []
             else if length (filter (\<lambda>c. c = CHR '':'') v) = 1 then []
             else v)"

text \<open>The loop over the header lines: \<open>None\<close> is the return of nothing.\<close>

fun header_loop :: "string list \<Rightarrow> (string, string) go_map \<Rightarrow> string \<Rightarrow> (string \<times> (string, string) go_map) option" where
  "header_loop [] attrs host = Some (host, attrs)"
| "header_loop (line # ls) attrs host =
     (case Cut (CHR '':'') line of
        (_, _, False) \<Rightarrow> header_loop ls attrs host
      | (a, b, True) \<Rightarrow>
          (let key = ToLower (TrimSpace a); val = TrimSpace b
           in if key = [] \<or> ContainsAny key [CHR '' '', CHR 0x09, CHR 0x0D, CHR 0x0A] \<or> ContainsAny val [CHR 0x0D, CHR 0x0A, CHR 0x00]
              then None
              else if key = ''host'' then
                (let h = normalizeHost val in if h = [] then None else header_loop ls (al_put key val attrs) h)
              else header_loop ls (al_put key val attrs) host))"

definition SniffRequest :: "byte list \<Rightarrow> string \<times> (string, string) go_map option" where
  "SniffRequest xs =
     (case index_of (crlf @ crlf) (text_of xs) of
        None \<Rightarrow> ([], None)
      | Some e \<Rightarrow>
          (case split_lines (take e (text_of xs)) of
             [] \<Rightarrow> ([], None)
           | l # ls \<Rightarrow>
               (case Fields l of
                  [meth, path, proto] \<Rightarrow>
                    if \<not> knownMethod meth \<or> \<not> HasPrefix proto ''HTTP/1.'' then ([], None)
                    else (case header_loop ls [('':method'', meth), ('':path'', path)] [] of
                            None \<Rightarrow> ([], None)
                          | Some (host, attrs) \<Rightarrow> (host, Some attrs))
                | _ \<Rightarrow> ([], None))))"

definition SniffHost :: "byte list \<Rightarrow> string" where
  "SniffHost xs = fst (SniffRequest xs)"

section \<open>Connections\<close>

text \<open>A connection is what its reads will deliver: pieces of data, each with the error that comes with
  its last byte, and then the end. A read takes at most what the buffer holds.\<close>

datatype read_error = ReadEOF | ReadTimeout | ReadError

type_synonym conn = "(byte list \<times> read_error option) list"

fun conn_Read :: "nat \<Rightarrow> conn \<Rightarrow> byte list \<times> read_error option \<times> conn" where
  "conn_Read n [] = ([], Some ReadEOF, [])"
| "conn_Read n ((s, e) # c) = (if length s \<le> n then (s, e, c) else (take n s, None, (drop n s, e) # c))"

definition conn_bytes :: "conn \<Rightarrow> byte list" where
  "conn_bytes c = concat (map fst c)"

datatype sniffed_conn = PlainConn conn | PrependConn "byte list" conn

fun sc_Read :: "nat \<Rightarrow> sniffed_conn \<Rightarrow> byte list \<times> read_error option \<times> sniffed_conn" where
  "sc_Read n (PlainConn c) = (case conn_Read n c of (bs, e, c') \<Rightarrow> (bs, e, PlainConn c'))"
| "sc_Read n (PrependConn buf c) =
     (if buf \<noteq> [] then (take n buf, None, PrependConn (drop n buf) c)
      else case conn_Read n c of (bs, e, c') \<Rightarrow> (bs, e, PrependConn buf c'))"

fun sc_bytes :: "sniffed_conn \<Rightarrow> byte list" where
  "sc_bytes (PlainConn c) = conn_bytes c"
| "sc_bytes (PrependConn buf c) = buf @ conn_bytes c"

section \<open>The sniffer\<close>

record Sniffer =
  sn_enabled :: bool
  sn_timeout :: int
  sn_maxBytes :: nat

definition defaultSniffTimeout :: int where
  "defaultSniffTimeout = 500"

definition defaultMaxSniffBytes :: nat where
  "defaultMaxSniffBytes = 32 * 1024"

definition NewSniffer :: "bool \<Rightarrow> Sniffer" where
  "NewSniffer enabled = \<lparr>sn_enabled = enabled, sn_timeout = defaultSniffTimeout, sn_maxBytes = defaultMaxSniffBytes\<rparr>"

datatype sniffer_error = TimeoutRange | MaxBytesRange

definition NewSnifferWithOptions :: "bool \<Rightarrow> int \<Rightarrow> int \<Rightarrow> sniffer_error + Sniffer" where
  "NewSnifferWithOptions enabled timeoutMs0 maxBytes0 =
     (let timeoutMs = (if timeoutMs0 = 0 then defaultSniffTimeout else timeoutMs0);
          maxBytes = (if maxBytes0 = 0 then int defaultMaxSniffBytes else maxBytes0)
      in if timeoutMs < 10 \<or> 10000 < timeoutMs then Inl TimeoutRange
         else if maxBytes < 512 \<or> 1024 * 1024 < maxBytes then Inl MaxBytesRange
         else Inr \<lparr>sn_enabled = enabled, sn_timeout = timeoutMs, sn_maxBytes = nat maxBytes\<rparr>)"

function complete_loop :: "byte list \<Rightarrow> nat \<Rightarrow> nat option" where
  "complete_loop xs complete =
     (if 5 \<le> length xs - complete then do {
        len \<leftarrow> be_at (complete + 3) (complete + 5) xs;
        if length xs < complete + 5 + len then Some complete else complete_loop xs (complete + 5 + len)
      }
      else Some complete)"
  by pat_completeness auto
termination by (relation "measure (\<lambda>(xs, k). length xs - k)") auto

declare complete_loop.simps [simp del]

definition completeTLSRecordBytes :: "byte list \<Rightarrow> nat option" where
  "completeTLSRecordBytes xs = complete_loop xs 0"

fun containsHeaderEnd :: "byte list \<Rightarrow> bool" where
  "containsHeaderEnd (a # b # c # d # xs) =
     (if a = 13 \<and> b = 10 \<and> c = 13 \<and> d = 10 then True else containsHeaderEnd (b # c # d # xs))"
| "containsHeaderEnd xs = False"

definition sniff_methods :: "string list" where
  "sniff_methods = [''GET '', ''POST '', ''PUT '', ''DELETE '', ''HEAD '', ''OPTIONS '', ''CONNECT '', ''PATCH '']"

definition sniffNeedsMore :: "byte list \<Rightarrow> nat \<Rightarrow> bool" where
  "sniffNeedsMore xs maxBytes =
     (case xs of
        [] \<Rightarrow> True
      | x # _ \<Rightarrow>
          if x = 22 then length xs < maxBytes
          else if \<exists>m \<in> set sniff_methods.
                    (let n = min (length xs) (length m) in EqualFold (text_of (take n xs)) (take n m))
          then length xs < maxBytes \<and> \<not> containsHeaderEnd xs
          else False)"

datatype verdict = Found string string | Stop | ReadOn nat

definition inspect :: "nat \<Rightarrow> byte list \<Rightarrow> nat \<Rightarrow> verdict option" where
  "inspect maxBytes xs lastTLSParsed =
     (let more = (\<lambda>k. if sniffNeedsMore xs maxBytes then ReadOn k else Stop)
      in do {
        t \<leftarrow> at_byte xs 0;
        if t = 22 then do {
          tail \<leftarrow> slice_from lastTLSParsed xs;
          k \<leftarrow> completeTLSRecordBytes tail;
          let complete = lastTLSParsed + k;
          if lastTLSParsed < complete then do {
            ys \<leftarrow> slice 0 complete xs;
            (domain, needMore) \<leftarrow> SniffSNIWithStatus ys;
            Some (if domain \<noteq> [] then Found domain ''tls'' else if \<not> needMore then Stop else more complete)
          }
          else Some (more lastTLSParsed)
        }
        else if containsHeaderEnd xs then
          (let domain = SniffHost xs in Some (if domain \<noteq> [] then Found domain ''http'' else Stop))
        else Some (more lastTLSParsed)
      })"

record sniff_result =
  sr_data :: "byte list"
  sr_conn :: conn
  sr_domain :: string
  sr_protocol :: string
  sr_result :: string

text \<open>The buffer is never empty, so a read takes something; \<open>None\<close> would be a panic, or a loop that
  reads nothing for ever.\<close>

function sniff_loop :: "nat \<Rightarrow> nat \<Rightarrow> byte list \<Rightarrow> nat \<Rightarrow> conn \<Rightarrow> sniff_result option" where
  "sniff_loop maxBytes tmp xs lastTLSParsed c =
     (if length xs < maxBytes then
        let remaining = maxBytes - length xs; tmp' = (if remaining < tmp then remaining else tmp)
        in case conn_Read tmp' c of
             (bs, err, c') \<Rightarrow>
               (case (if bs \<noteq> [] then inspect maxBytes (xs @ bs) lastTLSParsed else Some (ReadOn lastTLSParsed)) of
                  None \<Rightarrow> None
                | Some (Found domain protocol) \<Rightarrow>
                    Some \<lparr>sr_data = xs @ bs, sr_conn = c', sr_domain = domain, sr_protocol = protocol, sr_result = ''success''\<rparr>
                | Some Stop \<Rightarrow>
                    Some \<lparr>sr_data = xs @ bs, sr_conn = c', sr_domain = [], sr_protocol = [], sr_result = ''failure''\<rparr>
                | Some (ReadOn k) \<Rightarrow>
                    (case err of
                       Some e \<Rightarrow>
                         Some \<lparr>sr_data = xs @ bs, sr_conn = c', sr_domain = [], sr_protocol = [],
                               sr_result = (if e = ReadTimeout then ''timeout'' else ''failure'')\<rparr>
                     | None \<Rightarrow> if tmp' = 0 then None else sniff_loop maxBytes tmp' (xs @ bs) k c'))
      else Some \<lparr>sr_data = xs, sr_conn = c, sr_domain = [], sr_protocol = [], sr_result = ''failure''\<rparr>)"
  by pat_completeness auto
termination
proof (relation "measure (\<lambda>(_, _, _, _, c). sum_list (map (\<lambda>(s, _). Suc (length s)) c))", goal_cases)
  case 2
  then show ?case by (auto elim!: conn_Read.elims [OF sym] split: if_splits)
qed simp

declare sniff_loop.simps [simp del]

definition SniffMetadata :: "Sniffer \<Rightarrow> conn \<Rightarrow> (sniffed_conn \<times> string \<times> string) option" where
  "SniffMetadata s c =
     (if \<not> sn_enabled s then Some (PlainConn c, [], [])
      else do {
        r \<leftarrow> sniff_loop (sn_maxBytes s) 4096 [] 0 c;
        Some (if sr_domain r \<noteq> [] then (PrependConn (sr_data r) (sr_conn r), sr_domain r, sr_protocol r)
              else if sr_data r = [] then (PlainConn (sr_conn r), [], [])
              else (PrependConn (sr_data r) (sr_conn r), [], []))
      })"

definition Sniff :: "Sniffer \<Rightarrow> conn \<Rightarrow> (sniffed_conn \<times> string) option" where
  "Sniff s c = map_option (\<lambda>(w, domain, _). (w, domain)) (SniffMetadata s c)"

section \<open>Packets\<close>

definition SniffPacketBytes :: "(byte list \<Rightarrow> string \<times> bool) \<Rightarrow> Sniffer option \<Rightarrow> byte list \<Rightarrow> string \<times> string \<times> bool" where
  "SniffPacketBytes quic s xs =
     (case s of
        None \<Rightarrow> ([], [], False)
      | Some sn \<Rightarrow>
          if \<not> sn_enabled sn \<or> xs = [] then ([], [], False)
          else (case quic (take (sn_maxBytes sn) xs) of
                  (domain, needMore) \<Rightarrow> if domain \<noteq> [] then (domain, ''quic'', False) else ([], [], needMore)))"

definition SniffPacketMetadata :: "(byte list \<Rightarrow> string \<times> bool) \<Rightarrow> Sniffer option \<Rightarrow> byte list list \<Rightarrow> string \<times> string \<times> bool" where
  "SniffPacketMetadata quic s packets =
     (if s = None \<or> \<not> sn_enabled (the s) \<or> packets = [] then ([], [], False) else SniffPacketBytes quic s (concat packets))"

end
