(* ===== verification/TlsProofs.thy ===== *)
theory TlsProofs
  imports TlsSniff
begin

text \<open>
  The ClientHello sniffer never reads beyond its data, its shortcut for one record agrees with the
  reassembly, and it recovers the server name of every well-formed ClientHello, however the message is
  split into records, asking for more on every proper prefix.
\<close>

section \<open>Slices and numbers\<close>

lemma slice_Some [simp]: "i \<le> j \<Longrightarrow> j \<le> length xs \<Longrightarrow> slice i j xs = Some (take (j - i) (drop i xs))"
  by (simp add: slice_def)

lemma slice_from_Some [simp]: "i \<le> length xs \<Longrightarrow> slice_from i xs = Some (drop i xs)"
  by (simp add: slice_from_def)

lemma be_at_Some [simp]: "i \<le> j \<Longrightarrow> j \<le> length xs \<Longrightarrow> be_at i j xs = Some (be_nat (take (j - i) (drop i xs)))"
  by (simp add: be_at_def)

lemma at_byte_Some [simp]: "i < length xs \<Longrightarrow> at_byte xs i = Some (xs ! i)"
  by (simp add: at_byte_def)

lemma be_nat_simps [simp]: "be_nat [] = 0" "be_nat [a] = unat a" "be_nat [a, b] = unat a * 256 + unat b"
  "be_nat [a, b, c] = (unat a * 256 + unat b) * 256 + unat c"
  by (simp_all add: be_nat_def)

section \<open>No read beyond the data\<close>

lemma sni_name_total: "name \<noteq> [] \<Longrightarrow> \<exists>s. sni_name name = Some s"
  by (simp add: sni_name_def)

lemma sni_loop_total: "\<exists>s. sni_loop xs = Some s"
proof (induction xs rule: measure_induct_rule [of length])
  case (less xs)
  show ?case
  proof (cases "length xs < 3")
    case True
    then show ?thesis by (subst sni_loop.simps) simp
  next
    case False
    define n where "n = be_nat (take 2 (drop 1 xs))"
    have "\<exists>s. sni_loop (drop n (drop 3 xs)) = Some s" using less [of "drop n (drop 3 xs)"] False by (simp add: n_def)
    moreover have "\<exists>s. sni_name (take n (drop 3 xs)) = Some s" if "n \<noteq> 0" "n \<le> length xs - 3"
      using sni_name_total [of "take n (drop 3 xs)"] that False by fastforce
    ultimately show ?thesis using False by (subst sni_loop.simps) (auto simp: n_def not_less)
  qed
qed

lemma parseSNIExtension_total: "\<exists>s. parseSNIExtension xs = Some s"
  using sni_loop_total by (auto simp: parseSNIExtension_def)

lemma ext_loop_total: "\<exists>s. ext_loop xs = Some s"
proof (induction xs rule: measure_induct_rule [of length])
  case (less xs)
  show ?case
  proof (cases "length xs < 4")
    case True
    then show ?thesis by (subst ext_loop.simps) simp
  next
    case False
    define n where "n = be_nat (take 2 (drop 2 xs))"
    have "\<exists>s. ext_loop (drop n (drop 4 xs)) = Some s" using less [of "drop n (drop 4 xs)"] False by (simp add: n_def)
    then show ?thesis using False parseSNIExtension_total by (subst ext_loop.simps) (auto simp: n_def not_less)
  qed
qed

text \<open>A step at a time: what every operation of the parsers needs to answer.\<close>

lemma if_total: "(c \<Longrightarrow> \<exists>s. a = Some s) \<Longrightarrow> (\<not> c \<Longrightarrow> \<exists>s. b = Some s) \<Longrightarrow> \<exists>s. (if c then a else b) = Some s"
  by simp

lemma slice_from_total: "i \<le> length xs \<Longrightarrow> (\<And>ys. length ys = length xs - i \<Longrightarrow> \<exists>s. f ys = Some s) \<Longrightarrow> \<exists>s. slice_from i xs \<bind> f = Some s"
  by simp

lemma be_at_total: "i \<le> j \<Longrightarrow> j \<le> length xs \<Longrightarrow> (\<And>n. \<exists>s. g n = Some s) \<Longrightarrow> \<exists>s. be_at i j xs \<bind> g = Some s"
  by simp

lemma field_total:
  assumes "k \<le> length xs" "\<And>n ys. length ys = length xs - k \<Longrightarrow> \<exists>s. f n ys = Some s"
  shows "\<exists>s. be_at 0 k xs \<bind> (\<lambda>n. slice_from k xs \<bind> f n) = Some s"
  using assms by simp

lemma parseClientHello_total: "\<exists>s. parseClientHello xs = Some s"
  unfolding parseClientHello_def
  apply (rule if_total, simp)
  apply (rule slice_from_total, simp)
  apply (rule field_total, simp)
  apply (rule if_total, simp)
  apply (rule slice_from_total, simp)
  apply (rule field_total, simp)
  apply (rule if_total, simp)
  apply (rule slice_from_total, simp)
  apply (rule field_total, simp, linarith)
  apply (rule if_total, simp)
  apply (rule slice_from_total, simp)
  apply (rule if_total, simp)
  apply (rule if_total, simp)
  apply (rule field_total, simp)
  apply (rule if_total, simp)
  apply (rule ext_loop_total)
  done

lemma parsed_total: "\<exists>r. parseClientHello h \<bind> (\<lambda>s. Some (f s)) = Some r"
  using parseClientHello_total [of h] by auto

lemma hello_status_total: "\<exists>s. hello_status xs = Some s"
proof (cases "xs = []")
  case False
  then show ?thesis using parsed_total [where f = "\<lambda>s. Some (s, False)"] by (simp add: hello_status_def)
qed (simp add: hello_status_def)

lemma record_loop_total: "offset \<le> length xs \<Longrightarrow> \<exists>r. record_loop xs offset hs = Some r"
proof (induction xs offset hs rule: record_loop.induct)
  case (1 xs offset hs)
  show ?case
  proof (cases "length xs - offset < 5")
    case False
    define n where "n = be_nat (take 2 (drop (offset + 3) xs))"
    define p where "p = take n (drop (offset + 5) xs)"
    have b: "be_at (offset + 3) (offset + 5) xs = Some n" "at_byte xs offset = Some (xs ! offset)" using False by (simp_all add: n_def)
    obtain st where st: "hello_status (hs @ p) = Some st" using hello_status_total by blast
    show ?thesis
    proof (cases "xs ! offset = 22 \<and> n \<noteq> 0 \<and> n \<le> 18432 \<and> n \<le> length xs - offset - 5")
      case True
      then have "offset + 5 + n \<le> length xs" using False by linarith
      then have s: "slice (offset + 5) (offset + 5 + n) xs = Some p" by (simp add: p_def)
      have "st = None \<Longrightarrow> offset + 5 + n \<noteq> length xs \<Longrightarrow> \<exists>r. record_loop xs (offset + 5 + n) (hs @ p) = Some r"
        using 1(1) [OF False b(2) _ b(1) _ _ s st] True False by auto
      then show ?thesis using True False b s st by (subst record_loop.simps) (auto split: option.splits)
    next
      case nt: False
      then show ?thesis using False b by (subst record_loop.simps) auto
    qed
  qed (auto simp: record_loop.simps)
qed

lemma single_record_total: "\<exists>r. single_record xs = Some r"
  by (auto simp: single_record_def)

lemma Sniff_total: "\<exists>r. SniffSNIWithStatus xs = Some r"
proof -
  obtain one where one: "single_record xs = Some one" using single_record_total by blast
  obtain r where r: "record_loop xs 0 [] = Some r" using record_loop_total by blast
  show ?thesis
  proof (cases one)
    case None
    then show ?thesis using one r by (cases "xs = []") (auto simp: SniffSNIWithStatus_def)
  next
    case (Some h)
    then show ?thesis using one parsed_total [of h "\<lambda>s. (s, False)"] by (cases "xs = []") (auto simp: SniffSNIWithStatus_def)
  qed
qed

section \<open>The shortcut for one record\<close>

lemma single_record_loop:
  assumes "single_record xs = Some (Some h)" "xs ! 0 = 22"
  shows "record_loop xs 0 [] = parseClientHello h \<bind> (\<lambda>s. Some (s, False))"
proof -
  define n where "n = be_nat (take 2 (drop 3 xs))"
  define p where "p = take n (drop 5 xs)"
  define hl where "hl = be_nat (take 3 (drop 1 p))"
  have len: "5 \<le> length xs" using assms(1) by (auto simp: single_record_def split: if_splits)
  with assms(1) have n: "0 < n" "n \<le> 18432" "5 + n \<le> length xs" by (auto simp: single_record_def n_def split: if_splits)
  then have lp: "length p = n" by (simp add: p_def)
  have p4: "4 \<le> length p" using assms(1) len n lp by (auto simp: single_record_def n_def [symmetric] p_def [symmetric] split: if_splits)
  then have ne: "p \<noteq> []" by auto
  then have ab: "at_byte p 0 = Some (p ! 0)" "be_at 1 4 p = Some hl" using p4 by (simp_all add: hl_def)
  have h: "p ! 0 = 1" "34 \<le> hl" "4 + hl \<le> length p" "h = take hl (drop 4 p)"
    using assms(1) len n p4 ab by (auto simp: single_record_def n_def [symmetric] p_def [symmetric] simp del: be_at_Some split: if_splits)
      (auto simp: n_def [symmetric] p_def [symmetric] split: if_splits)
  have "hl \<le> maxTLSHandshake" using h(3) lp n(2) by (simp add: maxTLSHandshake_def)
  then have st: "hello_status p = parseClientHello h \<bind> (\<lambda>s. Some (Some (s, False)))"
    using h p4 ab ne by (simp add: hello_status_def del: be_at_Some at_byte_Some)
  have e: "be_at 3 5 xs = Some n" "slice 5 (5 + n) xs = Some p" "xs \<noteq> []" using len n by (auto simp: n_def p_def)
  obtain s where "parseClientHello h = Some s" using parseClientHello_total by blast
  then show ?thesis using len n e st assms(2) by (subst record_loop.simps) simp
qed

lemma Sniff_reference:
  "SniffSNIWithStatus xs = (if xs \<noteq> [] \<and> xs ! 0 \<noteq> 22 then Some ([], False) else record_loop xs 0 [])"
proof (cases "xs = []")
  case True
  then show ?thesis by (simp add: SniffSNIWithStatus_def record_loop.simps)
next
  case False
  obtain one where one: "single_record xs = Some one" using single_record_total by blast
  then show ?thesis using False single_record_loop [of xs]
    by (cases one) (auto simp: SniffSNIWithStatus_def)
qed

section \<open>Encoding\<close>

definition enc16 :: "nat \<Rightarrow> byte list" where
  "enc16 n = [of_nat (n div 256), of_nat n]"

definition enc24 :: "nat \<Rightarrow> byte list" where
  "enc24 n = [of_nat (n div 65536), of_nat (n div 256), of_nat n]"

lemma length_enc [simp]: "length (enc16 n) = 2" "length (enc24 n) = 3"
  by (simp_all add: enc16_def enc24_def)

lemma be_nat_enc16 [simp]: "n < 65536 \<Longrightarrow> be_nat (enc16 n) = n"
  by (simp add: enc16_def unat_of_nat)

lemma be_nat_enc24 [simp]:
  assumes "n < 16777216"
  shows "be_nat (enc24 n) = n"
proof -
  have "n div 65536 = n div 256 div 256" by (simp flip: div_mult2_eq)
  moreover have "n = n div 256 * 256 + n mod 256" "n div 256 = n div 256 div 256 * 256 + n div 256 mod 256" by simp_all
  moreover have "n div 65536 < 256" using assms by simp
  ultimately show ?thesis using assms by (simp add: enc24_def unat_of_nat)
qed

lemma enc_append [simp]: "take 2 (enc16 n @ r) = enc16 n" "drop 2 (enc16 n @ r) = r"
  "take 3 (enc24 n @ r) = enc24 n" "drop 3 (enc24 n @ r) = r"
  by (simp_all add: enc16_def enc24_def numeral_2_eq_2 numeral_3_eq_3)

definition enc_name :: "byte \<times> byte list \<Rightarrow> byte list" where
  "enc_name nm = fst nm # enc16 (length (snd nm)) @ snd nm"

definition enc_ext :: "nat \<times> byte list \<Rightarrow> byte list" where
  "enc_ext e = enc16 (fst e) @ enc16 (length (snd e)) @ snd e"

definition valid_host :: "byte list \<Rightarrow> bool" where
  "valid_host h \<longleftrightarrow> h \<noteq> [] \<and> (\<forall>c \<in> set h. 32 < c) \<and> last h \<noteq> 46"

lemma sni_name_host: "valid_host h \<Longrightarrow> sni_name h = Some (text_of h)"
  by (auto simp: sni_name_def valid_host_def last_conv_nth not_le)

lemma sni_loop_step:
  assumes "length n < 65536" "n \<noteq> []"
  shows "sni_loop (enc_name (t, n) @ r) = (if t = 0 then sni_name n else sni_loop r)"
proof -
  let ?xs = "enc_name (t, n) @ r"
  have l: "length ?xs = 3 + length n + length r" by (simp add: enc_name_def)
  have "take 2 (drop 1 ?xs) = enc16 (length n)" "drop 3 ?xs = n @ r" "?xs ! 0 = t"
    by (simp_all add: enc_name_def enc16_def numeral_2_eq_2 numeral_3_eq_3)
  then show ?thesis using assms l by (subst sni_loop.simps) (auto simp: enc_name_def)
qed

lemma ext_loop_step:
  assumes "length e < 65536" "t < 65536"
  shows "ext_loop (enc_ext (t, e) @ r) = (if t = 0 then parseSNIExtension e else ext_loop r)"
proof -
  define xs where "xs = enc_ext (t, e) @ r"
  have x: "xs = enc16 t @ enc16 (length e) @ e @ r" by (simp add: xs_def enc_ext_def)
  then have l: "length xs = 4 + length e + length r" by simp
  have "drop 2 xs = enc16 (length e) @ e @ r" "drop 4 xs = e @ r" by (simp_all add: x enc16_def)
  then have "be_at 0 2 xs = Some t" "be_at 2 4 xs = Some (length e)" "slice_from 4 xs = Some (e @ r)"
    using assms l by (simp_all add: x)
  then show ?thesis unfolding xs_def [symmetric] using l by (subst ext_loop.simps) (auto simp del: be_at_Some)
qed

text \<open>A message and its name.\<close>

record ClientHello =
  ch_version :: "byte list"
  ch_random :: "byte list"
  ch_session :: "byte list"
  ch_ciphers :: "byte list"
  ch_compression :: "byte list"
  ch_before :: "(nat \<times> byte list) list"
  ch_names_before :: "(byte \<times> byte list) list"
  ch_host :: "byte list"
  ch_names_after :: "(byte \<times> byte list) list"
  ch_after :: "(nat \<times> byte list) list"

definition ch_names :: "ClientHello \<Rightarrow> byte list" where
  "ch_names c = concat (map enc_name (ch_names_before c)) @ enc_name (0, ch_host c) @ concat (map enc_name (ch_names_after c))"

definition ch_exts :: "ClientHello \<Rightarrow> byte list" where
  "ch_exts c = concat (map enc_ext (ch_before c)) @ enc_ext (0, enc16 (length (ch_names c)) @ ch_names c) @ concat (map enc_ext (ch_after c))"

definition enc_hello :: "ClientHello \<Rightarrow> byte list" where
  "enc_hello c = ch_version c @ ch_random c @ of_nat (length (ch_session c)) # ch_session c @
     enc16 (length (ch_ciphers c)) @ ch_ciphers c @ of_nat (length (ch_compression c)) # ch_compression c @
     enc16 (length (ch_exts c)) @ ch_exts c"

definition hello_ok :: "ClientHello \<Rightarrow> bool" where
  "hello_ok c \<longleftrightarrow> length (ch_version c) = 2 \<and> length (ch_random c) = 32 \<and> length (ch_session c) < 256 \<and>
     ch_ciphers c \<noteq> [] \<and> even (length (ch_ciphers c)) \<and> length (ch_ciphers c) < 65536 \<and>
     ch_compression c \<noteq> [] \<and> length (ch_compression c) < 256 \<and> length (ch_exts c) < 65536 \<and>
     (\<forall>e \<in> set (ch_before c). fst e \<noteq> 0 \<and> fst e < 65536) \<and>
     (\<forall>n \<in> set (ch_names_before c). fst n \<noteq> 0 \<and> snd n \<noteq> []) \<and> valid_host (ch_host c)"

lemma sni_loop_names:
  "\<forall>n \<in> set ns. fst n \<noteq> 0 \<and> snd n \<noteq> [] \<and> length (snd n) < 65536 \<Longrightarrow> sni_loop (concat (map enc_name ns) @ r) = sni_loop r"
  by (induction ns) (auto simp: sni_loop_step)

lemma ext_loop_exts:
  "\<forall>e \<in> set es. fst e \<noteq> 0 \<and> fst e < 65536 \<and> length (snd e) < 65536 \<Longrightarrow> ext_loop (concat (map enc_ext es) @ r) = ext_loop r"
  by (induction es) (auto simp: ext_loop_step)

lemma length_concat_le: "x \<in> set xs \<Longrightarrow> length (f x) \<le> length (concat (map f xs))"
  by (induction xs) auto

lemma ext_loop_hello:
  assumes "hello_ok c"
  shows "ext_loop (ch_exts c) = Some (text_of (ch_host c))"
proof -
  have ex: "length (ch_exts c) < 65536" and names: "\<forall>n \<in> set (ch_names_before c). fst n \<noteq> 0 \<and> snd n \<noteq> []"
    and befores: "\<forall>e \<in> set (ch_before c). fst e \<noteq> 0 \<and> fst e < 65536" and host: "valid_host (ch_host c)"
    using assms by (simp_all add: hello_ok_def)
  then have nm: "length (ch_names c) + 6 < 65536" by (simp add: ch_exts_def enc_ext_def)
  have "length (snd n) < 65536" if "n \<in> set (ch_names_before c)" for n
    using length_concat_le [OF that, of enc_name] nm by (simp add: ch_names_def enc_name_def)
  then have "sni_loop (ch_names c) = sni_loop (enc_name (0, ch_host c) @ concat (map enc_name (ch_names_after c)))"
    using names by (simp add: ch_names_def sni_loop_names)
  also have "\<dots> = sni_name (ch_host c)"
    using nm host sni_loop_step [of "ch_host c" 0] by (simp add: ch_names_def valid_host_def) (simp add: enc_name_def)
  also have "\<dots> = Some (text_of (ch_host c))" by (rule sni_name_host [OF host])
  finally have s: "parseSNIExtension (enc16 (length (ch_names c)) @ ch_names c) = Some (text_of (ch_host c))"
    using nm by (simp add: parseSNIExtension_def)
  have "length (snd e) < 65536" if "e \<in> set (ch_before c)" for e
    using length_concat_le [OF that, of enc_ext] ex by (simp add: ch_exts_def enc_ext_def)
  then have "ext_loop (ch_exts c) = ext_loop (enc_ext (0, enc16 (length (ch_names c)) @ ch_names c) @ concat (map enc_ext (ch_after c)))"
    using befores by (simp add: ch_exts_def ext_loop_exts)
  also have "\<dots> = Some (text_of (ch_host c))" using nm s by (simp add: ext_loop_step)
  finally show ?thesis .
qed

lemma parse_enc_hello:
  assumes "hello_ok c"
  shows "parseClientHello (enc_hello c) = Some (text_of (ch_host c)) \<and> 35 \<le> length (enc_hello c)"
proof -
  define d8 where "d8 = ch_exts c"
  define d7 where "d7 = enc16 (length d8) @ d8"
  define d6 where "d6 = ch_compression c @ d7"
  define d5 where "d5 = of_nat (length (ch_compression c)) # d6"
  define d4 where "d4 = ch_ciphers c @ d5"
  define d3 where "d3 = enc16 (length (ch_ciphers c)) @ d4"
  define d2 where "d2 = ch_session c @ d3"
  define d1 where "d1 = of_nat (length (ch_session c)) # d2"
  define d0 where "d0 = ch_version c @ ch_random c @ d1"
  have e: "enc_hello c = d0"
    by (simp add: enc_hello_def d0_def d1_def d2_def d3_def d4_def d5_def d6_def d7_def d8_def)
  have ok: "length (ch_version c) = 2" "length (ch_random c) = 32" "length (ch_session c) < 256" "ch_ciphers c \<noteq> []"
    "even (length (ch_ciphers c))" "length (ch_ciphers c) < 65536" "ch_compression c \<noteq> []" "length (ch_compression c) < 256"
    "length d8 < 65536" using assms by (simp_all add: hello_ok_def d8_def)
  have d0: "length d0 = 34 + length d1" "drop 34 d0 = d1" using ok by (simp_all add: d0_def)
  have d1: "length d1 = 1 + length d2" "be_at 0 1 d1 = Some (length (ch_session c))" "slice_from 1 d1 = Some d2"
    using ok by (simp_all add: d1_def unat_of_nat)
  have d2: "length d2 = length (ch_session c) + length d3" "slice_from (length (ch_session c)) d2 = Some d3" by (simp_all add: d2_def)
  have d3: "length d3 = 2 + length d4" "be_at 0 2 d3 = Some (length (ch_ciphers c))" "slice_from 2 d3 = Some d4"
    using ok by (simp_all add: d3_def)
  have d4: "length d4 = length (ch_ciphers c) + length d5" "slice_from (length (ch_ciphers c)) d4 = Some d5" by (simp_all add: d4_def)
  have d5: "length d5 = 1 + length d6" "be_at 0 1 d5 = Some (length (ch_compression c))" "slice_from 1 d5 = Some d6"
    using ok by (simp_all add: d5_def unat_of_nat)
  have d6: "length d6 = length (ch_compression c) + length d7" "slice_from (length (ch_compression c)) d6 = Some d7" by (simp_all add: d6_def)
  have d7: "length d7 = 2 + length d8" "be_at 0 2 d7 = Some (length d8)" "slice_from 2 d7 = Some d8" using ok by (simp_all add: d7_def)
  have "d7 \<noteq> []" using d7(1) by auto
  moreover have "slice_from 34 d0 = Some d1" using d0 by simp
  moreover have "ext_loop d8 = Some (text_of (ch_host c))" using ext_loop_hello [OF assms] by (simp add: d8_def)
  ultimately show ?thesis unfolding e parseClientHello_def using ok d0(1) d1 d2 d3 d4 d5 d6 d7
    by (simp del: be_at_Some slice_from_Some)
qed

section \<open>Messages in records\<close>

definition is_hello :: "byte list \<Rightarrow> string \<Rightarrow> bool" where
  "is_hello msg host \<longleftrightarrow> (\<exists>h. msg = 1 # enc24 (length h) @ h \<and> 34 \<le> length h \<and> length h \<le> maxTLSHandshake \<and> parseClientHello h = Some host)"

lemma hello_status_whole: "is_hello msg host \<Longrightarrow> hello_status msg = Some (Some (host, False))"
  by (auto simp: is_hello_def hello_status_def maxTLSHandshake_def)

lemma hello_status_part:
  assumes "is_hello (p @ q) host" "q \<noteq> []"
  shows "hello_status p = Some None"
proof -
  obtain h where h: "p @ q = 1 # enc24 (length h) @ h" "34 \<le> length h" "length h \<le> maxTLSHandshake" using assms(1) by (auto simp: is_hello_def)
  have len: "length p + length q = 4 + length h" using arg_cong [OF h(1), of length] by simp
  have p0: "p ! 0 = 1" if "p \<noteq> []" using h(1) that by (cases p) auto
  have "be_at 1 4 p = Some (length h)" if "4 \<le> length p"
  proof -
    have "take 3 (drop 1 p) = take 3 (drop 1 (p @ q))" using that by simp
    then show ?thesis using that h(1,3) by (simp add: maxTLSHandshake_def)
  qed
  moreover have "length p < 4 + length h" using len assms(2) by (cases q) auto
  ultimately show ?thesis using p0 h(2,3) by (cases "p = []") (auto simp: hello_status_def simp del: be_at_Some)
qed

definition rec_bytes :: "byte list \<times> byte list \<Rightarrow> byte list" where
  "rec_bytes r = 22 # fst r @ enc16 (length (snd r)) @ snd r"

definition records :: "(byte list \<times> byte list) list \<Rightarrow> byte list" where
  "records frs = concat (map rec_bytes frs)"

definition payloads :: "(byte list \<times> byte list) list \<Rightarrow> byte list" where
  "payloads frs = concat (map snd frs)"

definition rec_ok :: "byte list \<times> byte list \<Rightarrow> bool" where
  "rec_ok r \<longleftrightarrow> length (fst r) = 2 \<and> snd r \<noteq> [] \<and> length (snd r) \<le> 18432"

lemma records_simps [simp]: "records [] = []" "records (r # frs) = rec_bytes r @ records frs"
  "payloads [] = []" "payloads (r # frs) = snd r @ payloads frs"
  by (simp_all add: records_def payloads_def)

lemma rec_bytes_length: "rec_ok r \<Longrightarrow> length (rec_bytes r) = 5 + length (snd r)"
  by (simp add: rec_bytes_def rec_ok_def)

lemma rec_bytes_head:
  assumes "rec_ok r" "5 \<le> n"
  shows "be_at (length pre + 3) (length pre + 5) (pre @ take n (rec_bytes r @ s)) = Some (length (snd r))"
    "at_byte (pre @ take n (rec_bytes r @ s)) (length pre) = Some 22"
proof -
  obtain a b where v: "fst r = [a, b]" using assms(1) by (auto simp: rec_ok_def length_Suc_conv numeral_2_eq_2)
  obtain m where n: "n = 5 + m" using assms(2) le_Suc_ex by blast
  define l where "l = [22, a, b] @ enc16 (length (snd r))"
  have "rec_bytes r @ s = l @ snd r @ s" "length l = 5" by (simp_all add: rec_bytes_def v l_def)
  then have "take n (rec_bytes r @ s) = l @ take m (snd r @ s)" unfolding n by simp
  then have e: "pre @ take n (rec_bytes r @ s) = (pre @ [22, a, b]) @ enc16 (length (snd r)) @ take m (snd r @ s)"
    by (simp add: l_def)
  have "length (snd r) < 65536" using assms(1) by (simp add: rec_ok_def)
  then show "be_at (length pre + 3) (length pre + 5) (pre @ take n (rec_bytes r @ s)) = Some (length (snd r))"
    unfolding e by (simp add: add.commute)
  show "at_byte (pre @ take n (rec_bytes r @ s)) (length pre) = Some 22" unfolding e by simp
qed

lemma record_loop_step:
  assumes "rec_ok r" "hello_status (acc @ snd r) = Some st"
  shows "record_loop (pre @ rec_bytes r @ s) (length pre) acc =
    (case st of Some x \<Rightarrow> Some x
     | None \<Rightarrow> if s = [] then Some ([], True) else record_loop (pre @ rec_bytes r @ s) (length (pre @ rec_bytes r)) (acc @ snd r))"
proof -
  define xs where "xs = pre @ rec_bytes r @ s"
  have h: "be_at (length pre + 3) (length pre + 5) xs = Some (length (snd r))" "at_byte xs (length pre) = Some 22"
    using rec_bytes_head [OF assms(1), of "length (rec_bytes r @ s)" pre s] assms(1)
    by (simp_all add: xs_def rec_bytes_length del: be_at_Some at_byte_Some)
  have l: "length xs = length pre + 5 + length (snd r) + length s" using assms(1) by (simp add: xs_def rec_bytes_length)
  have n: "snd r \<noteq> []" "length (snd r) \<le> 18432" using assms(1) by (simp_all add: rec_ok_def)
  have "drop (length pre + 5) xs = snd r @ s"
    using assms(1) by (simp add: xs_def rec_bytes_def rec_ok_def enc16_def)
  then have sl: "slice (length pre + 5) (length pre + 5 + length (snd r)) xs = Some (snd r)" using l by simp
  have p: "length (pre @ rec_bytes r) = length pre + 5 + length (snd r)" using rec_bytes_length [OF assms(1)] by simp
  show ?thesis unfolding xs_def [symmetric] p
    using h l n sl assms(2) by (subst record_loop.simps) (simp del: be_at_Some at_byte_Some slice_Some)
qed

lemma record_loop_whole:
  assumes "\<forall>r \<in> set frs. rec_ok r" "frs \<noteq> []" "is_hello (acc @ payloads frs) host"
  shows "record_loop (pre @ records frs @ rest) (length pre) acc = Some (host, False)"
  using assms
proof (induction frs arbitrary: pre acc)
  case (Cons r frs)
  have r: "rec_ok r" using Cons(2) by simp
  show ?case
  proof (cases "frs = []")
    case True
    then have "hello_status (acc @ snd r) = Some (Some (host, False))" using Cons(4) hello_status_whole by simp
    from record_loop_step [OF r this] True show ?thesis by simp
  next
    case False
    then have "payloads frs \<noteq> []" "records frs \<noteq> []" using Cons(2) by (cases frs; simp add: rec_ok_def rec_bytes_def)+
    then have "hello_status (acc @ snd r) = Some None" using hello_status_part [of "acc @ snd r" "payloads frs"] Cons(4) by simp
    from record_loop_step [OF r this, of pre "records frs @ rest"] Cons(1) [of "acc @ snd r" "pre @ rec_bytes r"] Cons(2,4) False \<open>records frs \<noteq> []\<close>
    show ?thesis by simp
  qed
qed simp

lemma record_loop_part:
  assumes "\<forall>r \<in> set frs. rec_ok r" "is_hello (acc @ payloads frs) host" "n < length (records frs)"
  shows "record_loop (pre @ take n (records frs)) (length pre) acc = Some ([], True)"
  using assms
proof (induction frs arbitrary: pre acc n)
  case (Cons r frs)
  have r: "rec_ok r" using Cons(2) by simp
  show ?case
  proof (cases "n < length (rec_bytes r)")
    case True
    then have t: "take n (records (r # frs)) = take n (rec_bytes r)" by simp
    show ?thesis
    proof (cases "n < 5")
      case True
      then show ?thesis unfolding t by (subst record_loop.simps) (simp add: min_def)
    next
      case False
      have "n - 5 < length (snd r)" using True False rec_bytes_length [OF r] by simp
      then show ?thesis unfolding t using False rec_bytes_head [OF r, of n pre "[]"] r True
        by (subst record_loop.simps) (simp add: rec_ok_def del: be_at_Some at_byte_Some)
    qed
  next
    case False
    define m where "m = n - length (rec_bytes r)"
    have m: "take n (records (r # frs)) = rec_bytes r @ take m (records frs)" "m < length (records frs)"
      using False Cons(4) by (simp_all add: m_def)
    then have "payloads frs \<noteq> []" using Cons(2) by (cases frs) (auto simp: rec_ok_def)
    then have "hello_status (acc @ snd r) = Some None" using hello_status_part [of "acc @ snd r" "payloads frs"] Cons(3) by simp
    from record_loop_step [OF r this, of pre "take m (records frs)"] Cons(1) [of "acc @ snd r" m "pre @ rec_bytes r"] Cons(2,3) m
    show ?thesis by simp
  qed
qed simp

lemma Sniff_records:
  assumes "\<forall>r \<in> set frs. rec_ok r" "is_hello (payloads frs) host"
  shows "n < length (records frs) \<Longrightarrow> SniffSNIWithStatus (take n (records frs)) = Some ([], True)"
    "SniffSNIWithStatus (records frs @ rest) = Some (host, False)"
proof -
  have ne: "frs \<noteq> []" using assms(2) by (auto simp: is_hello_def)
  then have hd: "records frs ! 0 = 22" "records frs \<noteq> []" by (cases frs; simp add: rec_bytes_def)+
  show "n < length (records frs) \<Longrightarrow> SniffSNIWithStatus (take n (records frs)) = Some ([], True)"
    using record_loop_part [of frs "[]" host n "[]"] assms hd by (cases "n = 0") (auto simp: Sniff_reference)
  show "SniffSNIWithStatus (records frs @ rest) = Some (host, False)"
    using record_loop_whole [of frs "[]" host "[]" rest] assms ne hd by (simp add: Sniff_reference nth_append)
qed

section \<open>Properties\<close>

definition enc_message :: "ClientHello \<Rightarrow> byte list" where
  "enc_message c = 1 # enc24 (length (enc_hello c)) @ enc_hello c"

lemma enc_message_hello:
  assumes "hello_ok c" "length (enc_hello c) \<le> maxTLSHandshake"
  shows "is_hello (enc_message c) (text_of (ch_host c))"
  using parse_enc_hello [OF assms(1)] assms(2) by (auto simp: is_hello_def enc_message_def intro!: exI [of _ "enc_hello c"])

text \<open>C24. The sniffer never indexes or slices beyond its data, whatever the bytes, and its shortcut for a
  message within one record gives the result of reassembling the records.\<close>

theorem sniff_safe_shortcut:
  "(\<exists>r. SniffSNIWithStatus xs = Some r) \<and> (\<exists>r. SniffClientHelloHandshake xs = Some r) \<and>
   SniffSNIWithStatus xs = (if xs \<noteq> [] \<and> xs ! 0 \<noteq> 22 then Some ([], False) else record_loop xs 0 [])"
proof -
  have "\<exists>r. SniffClientHelloHandshake xs = Some r"
  proof (cases "length xs < 4")
    case False
    then have "xs \<noteq> []" by auto
    then show ?thesis using False parsed_total [where f = "\<lambda>s. (s, False)"] by (auto simp: SniffClientHelloHandshake_def)
  qed (auto simp: SniffClientHelloHandshake_def)
  then show ?thesis using Sniff_total Sniff_reference by blast
qed

text \<open>C23. For every well-formed ClientHello with a server name, split into records in any way and followed by
  anything, the sniffer gives that name, and on every proper prefix of the records it asks for more.\<close>

theorem sniff_recovers_name:
  assumes "hello_ok c" "length (enc_hello c) \<le> maxTLSHandshake" "payloads frs = enc_message c" "\<forall>r \<in> set frs. rec_ok r"
  shows "SniffSNIWithStatus (take n (records frs @ rest)) = Some (if n < length (records frs) then ([], True) else (text_of (ch_host c), False))"
proof -
  have h: "is_hello (payloads frs) (text_of (ch_host c))" using enc_message_hello [OF assms(1,2)] assms(3) by simp
  show ?thesis using Sniff_records [OF assms(4) h] by simp
qed

definition ex_hello :: ClientHello where
  "ex_hello = \<lparr>ch_version = [3, 3], ch_random = replicate 32 7, ch_session = [], ch_ciphers = [0x13, 1], ch_compression = [0],
     ch_before = [(23, [])], ch_names_before = [], ch_host = bytes_of ''a.io'', ch_names_after = [], ch_after = []\<rparr>"

lemma ex_hello_bytes: "bytes_of ''a.io'' = [97, 46, 105, 111]"
  by (simp add: bytes_of_def)

lemma ex_hello_ok: "hello_ok ex_hello" "length (enc_hello ex_hello) = 60"
  by (auto simp: hello_ok_def ex_hello_def ch_exts_def ch_names_def enc_ext_def enc_name_def valid_host_def ex_hello_bytes enc_hello_def)

definition ex_records :: "(byte list \<times> byte list) list" where
  "ex_records = [([3, 1], take 20 (enc_message ex_hello)), ([3, 1], drop 20 (enc_message ex_hello))]"

theorem sniff_recovers_name_witness: "SniffSNIWithStatus (records ex_records) = Some (''a.io'', False)"
proof -
  have len: "length (enc_message ex_hello) = 64" using ex_hello_ok(2) by (simp add: enc_message_def)
  have "payloads ex_records = enc_message ex_hello" by (simp add: ex_records_def)
  moreover have "\<forall>r \<in> set ex_records. rec_ok r" using len by (auto simp: ex_records_def rec_ok_def)
  moreover have "text_of (ch_host ex_hello) = ''a.io''" by (simp add: ex_hello_def ex_hello_bytes text_of_def) code_simp
  ultimately show ?thesis
    using sniff_recovers_name [of ex_hello ex_records "length (records ex_records)" "[]"] ex_hello_ok by (simp add: maxTLSHandshake_def)
qed

end
