(* ===== verification/SnifferProofs.thy ===== *)
theory SnifferProofs
  imports Sniffer TlsProofs
begin

text \<open>
  The sniffer always answers, loses no byte of the connection and stays within its limit; it recovers the
  name of a TLS ClientHello however records and reads cut the stream; and header lines of an HTTP request
  cannot replace the attributes of its request line.
\<close>

section \<open>No byte is lost\<close>

lemma conn_Read_bytes: "conn_Read n c = (bs, e, c') \<Longrightarrow> conn_bytes c = bs @ conn_bytes c' \<and> length bs \<le> n"
  by (erule conn_Read.elims) (auto simp: conn_bytes_def split: if_splits)

lemma sc_Read_bytes: "sc_Read n c = (bs, e, c') \<Longrightarrow> sc_bytes c = bs @ sc_bytes c'"
  by (erule sc_Read.elims) (auto dest!: conn_Read_bytes split: if_splits prod.splits)

lemma complete_loop_bounds:
  "k \<le> length xs \<Longrightarrow> \<exists>m. complete_loop xs k = Some m \<and> k \<le> m \<and> m \<le> length xs"
proof (induction xs k rule: complete_loop.induct)
  case (1 xs k)
  show ?case
  proof (cases "5 \<le> length xs - k")
    case True
    define n where "n = be_nat (take 2 (drop (k + 3) xs))"
    have b: "be_at (k + 3) (k + 5) xs = Some n" using True by (simp add: n_def)
    show ?thesis
    proof (cases "length xs < k + 5 + n")
      case False
      then obtain m where "complete_loop xs (k + 5 + n) = Some m" "k + 5 + n \<le> m" "m \<le> length xs" using 1(1) [OF True b] by auto
      then show ?thesis using True b False by (subst complete_loop.simps) auto
    next
      case lt: True
      then show ?thesis using True b 1(2) by (subst complete_loop.simps) simp
    qed
  next
    case False
    then show ?thesis using 1(2) by (subst complete_loop.simps) auto
  qed
qed

lemma inspect_total:
  assumes "xs \<noteq> []" "k \<le> length xs"
  shows "\<exists>v. inspect maxBytes xs k = Some v \<and> (\<forall>j. v = ReadOn j \<longrightarrow> j \<le> length xs)"
proof -
  obtain m where m: "completeTLSRecordBytes (drop k xs) = Some m" "m \<le> length xs - k"
    using complete_loop_bounds [of 0 "drop k xs"] by (auto simp: completeTLSRecordBytes_def)
  obtain d more where s: "SniffSNIWithStatus (take (k + m) xs) = Some (d, more)" using Sniff_total [of "take (k + m) xs"] by auto
  have "k + m \<le> length xs" using m(2) assms(2) by simp
  then show ?thesis using assms m(1) s by (simp add: inspect_def Let_def)
qed

definition conn_size :: "conn \<Rightarrow> nat" where
  "conn_size c = sum_list (map (\<lambda>(s, _). Suc (length s)) c)"

lemma conn_Read_size: "conn_Read n c = (bs, e, c') \<Longrightarrow> 0 < n \<Longrightarrow> e = None \<Longrightarrow> conn_size c' < conn_size c"
  by (erule conn_Read.elims) (auto simp: conn_size_def split: if_splits)

lemma sniff_loop_keeps:
  assumes "0 < tmp" "k \<le> length xs" "length xs \<le> maxBytes"
  shows "\<exists>r. sniff_loop maxBytes tmp xs k c = Some r \<and> sr_data r @ conn_bytes (sr_conn r) = xs @ conn_bytes c \<and> length (sr_data r) \<le> maxBytes"
  using assms
proof (induction "conn_size c" arbitrary: tmp xs k c rule: less_induct)
  case less
  show ?case
  proof (cases "length xs < maxBytes")
    case False
    then show ?thesis using less(4) by (subst sniff_loop.simps) simp
  next
    case True
    define tmp' where "tmp' = (if maxBytes - length xs < tmp then maxBytes - length xs else tmp)"
    obtain bs e c' where r: "conn_Read tmp' c = (bs, e, c')" by (metis prod_cases3)
    have t: "0 < tmp'" "length (xs @ bs) \<le> maxBytes" using True less(2) conn_Read_bytes [OF r] by (auto simp: tmp'_def split: if_splits)
    have b: "conn_bytes c = bs @ conn_bytes c'" using conn_Read_bytes [OF r] by blast
    define v where "v = (if bs \<noteq> [] then inspect maxBytes (xs @ bs) k else Some (ReadOn k))"
    obtain v' where v: "v = Some v'" "\<forall>j. v' = ReadOn j \<longrightarrow> j \<le> length (xs @ bs)"
      using inspect_total [of "xs @ bs" k maxBytes] less(3) by (cases "bs = []") (auto simp: v_def)
    have ih: "\<exists>r. sniff_loop maxBytes tmp' (xs @ bs) j c' = Some r \<and> sr_data r @ conn_bytes (sr_conn r) = (xs @ bs) @ conn_bytes c' \<and>
        length (sr_data r) \<le> maxBytes" if "v' = ReadOn j" "e = None" for j
      using less(1) [of c' tmp' j "xs @ bs"] conn_Read_size [OF r t(1) that(2)] t v(2) that(1) by simp
    show ?thesis
      using True r b t v(1) ih unfolding v_def tmp'_def
      by (subst sniff_loop.simps) (auto simp: Let_def split: verdict.splits option.splits)
  qed
qed

section \<open>Complete records\<close>

lemma be_at_drop: "k \<le> length xs \<Longrightarrow> be_at i j (drop k xs) = be_at (k + i) (k + j) xs"
  by (auto simp: be_at_def slice_def add.commute)

lemma complete_loop_shift:
  "k \<le> length xs \<Longrightarrow> map_option (\<lambda>m. k + m) (complete_loop (drop k xs) j) = complete_loop xs (k + j)"
proof (induction "drop k xs" j rule: complete_loop.induct)
  case (1 j)
  show ?case
  proof (cases "5 \<le> length (drop k xs) - j")
    case True
    then obtain n where n: "be_at (j + 3) (j + 5) (drop k xs) = Some n" by simp
    then have n': "be_at (k + j + 3) (k + j + 5) xs = Some n" using be_at_drop [OF 1(2)] by (simp add: add.assoc)
    show ?thesis
    proof (cases "length (drop k xs) < j + 5 + n")
      case True': True
      then show ?thesis using True n n' 1(2) by (subst (1 2) complete_loop.simps) (auto simp del: be_at_Some)
    next
      case False
      have "map_option (\<lambda>m. k + m) (complete_loop (drop k xs) (j + 5 + n)) = complete_loop xs (k + (j + 5 + n))"
        using 1(1) [OF True n False 1(2)] .
      then show ?thesis using True False n n' 1(2) by (subst (1 2) complete_loop.simps) (auto simp: add.assoc simp del: be_at_Some)
    qed
  next
    case False
    then show ?thesis using 1(2) by (subst (1 2) complete_loop.simps) auto
  qed
qed

lemma records_append: "records (a @ b) = records a @ records b"
  by (simp add: records_def)

lemma complete_loop_records:
  assumes "\<forall>r \<in> set (f1 @ f2). rec_ok r" "length (records f1) \<le> n" "n \<le> length (records (f1 @ f2) @ rest)"
  shows "\<exists>m. complete_loop (take n (records (f1 @ f2) @ rest)) (length (records f1)) = Some m \<and>
    (if n < length (records (f1 @ f2)) then \<exists>g1 g2. f1 @ f2 = g1 @ g2 \<and> m = length (records g1) \<and> m \<le> n
     else length (records (f1 @ f2)) \<le> m)"
  using assms
proof (induction f2 arbitrary: f1)
  case Nil
  then show ?case using complete_loop_bounds [of "length (records f1)" "take n (records f1 @ rest)"] by auto
next
  case (Cons r f2)
  let ?xs = "take n (records (f1 @ r # f2) @ rest)"
  have r: "rec_ok r" using Cons(2) by simp
  have len: "length ?xs = n" using Cons(4) by simp
  show ?case
  proof (cases "n < length (records f1) + length (rec_bytes r)")
    case True
    then have xs: "?xs = records f1 @ take (n - length (records f1)) (rec_bytes r @ [])" using Cons(3) by (simp add: records_append)
    have "complete_loop ?xs (length (records f1)) = Some (length (records f1))"
    proof (cases "5 \<le> n - length (records f1)")
      case True': True
      have "be_at (length (records f1) + 3) (length (records f1) + 5) ?xs = Some (length (snd r))"
        unfolding xs by (rule rec_bytes_head [OF r True'])
      then show ?thesis using True True' len rec_bytes_length [OF r] by (subst complete_loop.simps) (simp del: be_at_Some)
    next
      case False
      then show ?thesis using len by (subst complete_loop.simps) simp
    qed
    moreover have "n < length (records (f1 @ r # f2))" using True by (simp add: records_append)
    ultimately show ?thesis using Cons(3) by auto
  next
    case False
    have xs: "?xs = records f1 @ take (n - length (records f1)) (rec_bytes r @ records f2 @ rest)" using Cons(3) by (simp add: records_append)
    have five: "5 \<le> n - length (records f1)" using False rec_bytes_length [OF r] by simp
    have "be_at (length (records f1) + 3) (length (records f1) + 5) ?xs = Some (length (snd r))"
      unfolding xs by (rule rec_bytes_head [OF r five])
    then have "complete_loop ?xs (length (records f1)) = complete_loop ?xs (length (records (f1 @ [r])))"
      using five False len rec_bytes_length [OF r] by (subst complete_loop.simps) (simp add: records_append add.assoc del: be_at_Some)
    moreover have "(f1 @ [r]) @ f2 = f1 @ r # f2" "length (records (f1 @ [r])) \<le> n" using False by (simp_all add: records_append)
    ultimately show ?thesis using Cons(1) [of "f1 @ [r]"] Cons(2,4) by metis
  qed
qed

section \<open>Any segmentation\<close>

lemma inspect_part:
  assumes "\<forall>r \<in> set frs. rec_ok r" "is_hello (payloads frs) host" "frs = f1 @ f2" "0 < n"
    "length (records f1) \<le> n" "length (records frs) \<le> maxBytes" "n < length (records frs)"
  shows "\<exists>g1 g2. inspect maxBytes (take n (records frs @ rest)) (length (records f1)) = Some (ReadOn (length (records g1))) \<and>
    frs = g1 @ g2 \<and> length (records g1) \<le> n"
proof -
  define xs where "xs = take n (records frs @ rest)"
  have xs: "xs = take n (records frs)" "length xs = n" using assms(7) by (simp_all add: xs_def)
  have "frs \<noteq> []" using assms(7) by auto
  then have hd: "xs \<noteq> []" "xs ! 0 = 22" using assms(4,7) by (auto simp: xs(1) neq_Nil_conv rec_bytes_def)
  have "n \<le> length (records (f1 @ f2) @ rest)" using assms(3,7) by simp
  from complete_loop_records [OF assms(1) [unfolded assms(3)] assms(5) this] obtain m where m0: "complete_loop xs (length (records f1)) = Some m"
    "\<exists>g1 g2. frs = g1 @ g2 \<and> m = length (records g1) \<and> m \<le> n"
    using assms(7) unfolding xs_def assms(3) [symmetric] if_P [OF assms(7)] by blast
  then obtain g1 g2 where m: "complete_loop xs (length (records f1)) = Some m" "frs = g1 @ g2" "m = length (records g1)" "m \<le> n" by blast
  obtain k where k: "completeTLSRecordBytes (drop (length (records f1)) xs) = Some k" "m = length (records f1) + k"
    using complete_loop_shift [of "length (records f1)" xs 0] m(1) assms(5) xs(2) by (auto simp: completeTLSRecordBytes_def)
  have "take m xs = take m (records frs)" using m(4) by (simp add: xs(1) min_def)
  then have sn: "SniffSNIWithStatus (take m xs) = Some ([], True)" using Sniff_records(1) [OF assms(1,2)] m(4) assms(7) by simp
  have more: "sniffNeedsMore xs maxBytes" using hd xs(2) assms(6,7) by (cases xs) (auto simp: sniffNeedsMore_def)
  have "slice_from (length (records f1)) xs = Some (drop (length (records f1)) xs)" using assms(5) xs(2) by simp
  moreover have "slice 0 m xs = Some (take m xs)" using m(4) xs(2) by simp
  ultimately have "inspect maxBytes xs (length (records f1)) = Some (ReadOn m)"
    using hd k sn more by (auto simp: inspect_def Let_def simp del: slice_Some slice_from_Some)
  then show ?thesis using m(2-4) unfolding xs_def by blast
qed

lemma inspect_whole:
  assumes "\<forall>r \<in> set frs. rec_ok r" "is_hello (payloads frs) host" "host \<noteq> []" "frs = f1 @ f2" "length (records frs) \<le> n"
    "n \<le> length (records frs @ rest)" "length (records f1) < length (records frs)"
  shows "inspect maxBytes (take n (records frs @ rest)) (length (records f1)) = Some (Found host ''tls'')"
proof -
  define xs where "xs = take n (records frs @ rest)"
  have xs: "xs = records frs @ take (n - length (records frs)) rest" "length xs = n" using assms(5,6) by (simp_all add: xs_def)
  have "frs \<noteq> []" using assms(7) by auto
  then have hd: "xs \<noteq> []" "xs ! 0 = 22" by (auto simp: xs(1) neq_Nil_conv rec_bytes_def)
  obtain m where m: "complete_loop xs (length (records f1)) = Some m" "length (records frs) \<le> m"
    using complete_loop_records [of f1 f2 n rest] assms by (auto simp: xs_def)
  have mn: "m \<le> n" using complete_loop_bounds [of "length (records f1)" xs] m(1) assms(5,7) xs(2) by auto
  obtain k where k: "completeTLSRecordBytes (drop (length (records f1)) xs) = Some k" "m = length (records f1) + k"
    using complete_loop_shift [of "length (records f1)" xs 0] m(1) assms(5,7) xs(2) by (auto simp: completeTLSRecordBytes_def)
  have "\<exists>rest'. take m xs = records frs @ rest'" using m(2) by (simp add: xs(1))
  then have sn: "SniffSNIWithStatus (take m xs) = Some (host, False)" using Sniff_records(2) [OF assms(1,2)] by metis
  have "slice_from (length (records f1)) xs = Some (drop (length (records f1)) xs)" using assms(5,7) xs(2) by simp
  moreover have "slice 0 m xs = Some (take m xs)" using mn xs(2) by simp
  ultimately have "inspect maxBytes xs (length (records f1)) = Some (Found host ''tls'')"
    using hd k sn m(2) assms(3,7) by (auto simp: inspect_def Let_def simp del: slice_Some slice_from_Some)
  then show ?thesis unfolding xs_def .
qed

lemma sniff_loop_records:
  assumes "\<forall>r \<in> set frs. rec_ok r" "is_hello (payloads frs) host" "host \<noteq> []" "length (records frs) \<le> maxBytes"
    "xs @ conn_bytes c = records frs @ rest" "length xs < length (records frs)" "frs = f1 @ f2" "length (records f1) \<le> length xs"
    "\<forall>p \<in> set c. snd p = None" "0 < tmp"
  shows "\<exists>r. sniff_loop maxBytes tmp xs (length (records f1)) c = Some r \<and> sr_domain r = host \<and> sr_protocol r = ''tls''"
  using assms(5-)
proof (induction "conn_size c" arbitrary: tmp xs f1 f2 c rule: less_induct)
  case less
  have "conn_bytes c \<noteq> []"
  proof
    assume "conn_bytes c = []"
    then show False using arg_cong [OF less(2), of length] less(3) by simp
  qed
  then have ne: "c \<noteq> []" by (auto simp: conn_bytes_def)
  define tmp' where "tmp' = (if maxBytes - length xs < tmp then maxBytes - length xs else tmp)"
  have lt: "length xs < maxBytes" "0 < tmp'" using less(3,7) assms(4) by (auto simp: tmp'_def)
  obtain bs e c' where r: "conn_Read tmp' c = (bs, e, c')" by (metis prod_cases3)
  have e: "e = None" "\<forall>p \<in> set c'. snd p = None"
    using r ne less(6) by (cases c; force split: if_splits)+
  have b: "(xs @ bs) @ conn_bytes c' = records frs @ rest" using conn_Read_bytes [OF r] less(2) by simp
  then have t: "take (length (xs @ bs)) (records frs @ rest) = xs @ bs" "length (xs @ bs) \<le> length (records frs @ rest)"
    by (metis append_eq_conv_conj) (metis b le_add1 length_append)
  note loop = sniff_loop.simps [of maxBytes tmp xs "length (records f1)" c]
  have unroll: "sniff_loop maxBytes tmp xs (length (records f1)) c =
    (case (if bs \<noteq> [] then inspect maxBytes (xs @ bs) (length (records f1)) else Some (ReadOn (length (records f1)))) of
       None \<Rightarrow> None
     | Some (Found d p) \<Rightarrow> Some \<lparr>sr_data = xs @ bs, sr_conn = c', sr_domain = d, sr_protocol = p, sr_result = ''success''\<rparr>
     | Some Stop \<Rightarrow> Some \<lparr>sr_data = xs @ bs, sr_conn = c', sr_domain = [], sr_protocol = [], sr_result = ''failure''\<rparr>
     | Some (ReadOn k) \<Rightarrow> sniff_loop maxBytes tmp' (xs @ bs) k c')"
    unfolding loop Let_def tmp'_def [symmetric] using lt r e(1) by (simp split: option.splits verdict.splits)
  note ih = less(1) [OF conn_Read_size [OF r lt(2) e(1)] b _ _ _ e(2) lt(2)]
  show ?case
  proof (cases "bs = []")
    case True
    then show ?thesis using ih [of f1 f2] less(3-5) unfolding unroll by simp
  next
    case False
    show ?thesis
    proof (cases "length (xs @ bs) < length (records frs)")
      case True
      have "0 < length (xs @ bs)" using False by simp
      from inspect_part [OF assms(1,2) less(4) this _ assms(4) True, of rest] less(5) t(1) obtain g1 g2
        where g: "inspect maxBytes (xs @ bs) (length (records f1)) = Some (ReadOn (length (records g1)))" "frs = g1 @ g2"
          "length (records g1) \<le> length (xs @ bs)" by auto
      then show ?thesis using ih [OF True g(2,3)] False unfolding unroll by simp
    next
      case ge: False
      from inspect_whole [OF assms(1-3) less(4) _ t(2), of maxBytes] ge t(1) less(3,5)
      show ?thesis using False unfolding unroll by simp
    qed
  qed
qed

section \<open>HTTP attributes\<close>

lemma Cut_no_sep: "Cut c s = (a, b, True) \<Longrightarrow> c \<notin> set a"
  by (induction c s arbitrary: a rule: Cut.induct) (auto split: if_splits prod.splits)

lemma lower_char_colon: "lower_char c = CHR '':'' \<longleftrightarrow> c = CHR '':''"
proof -
  have "\<not> is_upper CHR '':''" by (simp add: is_upper_def less_eq_char_def)
  moreover have "lower_char c \<noteq> CHR '':''" if "is_upper c"
  proof
    assume "lower_char c = CHR '':''"
    then have "(of_char (char_of (of_char c + 32 :: nat) :: char) :: nat) = 58" using that by (simp add: lower_char_def)
    then show False using that by (simp add: is_upper_def less_eq_char_def)
  qed
  ultimately show ?thesis by (auto simp: lower_char_def)
qed

lemma header_key_no_colon:
  assumes "Cut (CHR '':'') line = (a, b, True)"
  shows "CHR '':'' \<notin> set (ToLower (TrimSpace a))"
proof -
  have "set (TrimSpace a) \<subseteq> set a" unfolding TrimSpace_def by (metis set_dropWhileD set_rev subsetI)
  then show ?thesis using Cut_no_sep [OF assms] lower_char_colon by (force simp: ToLower_def)
qed

text \<open>The host that was found is that of the last Host header.\<close>

definition host_inv :: "(string, string) go_map \<Rightarrow> string \<Rightarrow> bool" where
  "host_inv attrs host \<longleftrightarrow> (case al_get attrs ''host'' of None \<Rightarrow> host = [] | Some v \<Rightarrow> host = normalizeHost v \<and> host \<noteq> [])"

lemma header_loop_attrs:
  assumes "header_loop ls attrs host = Some (host', attrs')"
  shows "(\<forall>k. CHR '':'' \<in> set k \<longrightarrow> al_get attrs' k = al_get attrs k) \<and> (host_inv attrs host \<longrightarrow> host_inv attrs' host')"
  using assms
proof (induction ls arbitrary: attrs host)
  case (Cons line ls)
  obtain a b found where c: "Cut (CHR '':'') line = (a, b, found)" by (metis prod_cases3)
  show ?case
  proof (cases found)
    case False
    then show ?thesis using Cons c by simp
  next
    case True
    define key where "key = ToLower (TrimSpace a)"
    define val where "val = TrimSpace b"
    define h where "h = (if key = ''host'' then normalizeHost val else host)"
    have l: "header_loop ls (al_put key val attrs) h = Some (host', attrs')" "key = ''host'' \<longrightarrow> h \<noteq> []"
      using Cons(2) c True by (auto simp: key_def [symmetric] val_def [symmetric] h_def Let_def split: if_splits)
    have nc: "CHR '':'' \<notin> set key" using header_key_no_colon c True by (simp add: key_def)
    then have "\<forall>k. CHR '':'' \<in> set k \<longrightarrow> al_get (al_put key val attrs) k = al_get attrs k" by (auto simp: al_simps)
    moreover have "host_inv attrs host \<longrightarrow> host_inv (al_put key val attrs) h" using l(2) by (auto simp: host_inv_def al_simps h_def)
    ultimately show ?thesis using Cons(1) [OF l(1)] by simp
  qed
qed simp

lemma host_with_port_unchecked: "normalizeHost ''a b:80'' = ''a b'' \<and> normalizeHost ''a b'' = []"
  by code_simp

section \<open>Properties\<close>

text \<open>C22. Sniffing always ends without a panic, on every connection, and loses nothing: reading the connection it
  hands out gives the bytes of the original one, in order. It holds back at most its limit, and a disabled
  sniffer leaves the connection alone.\<close>

theorem sniff_keeps_stream:
  "\<exists>w domain protocol. SniffMetadata s c = Some (w, domain, protocol) \<and> sc_bytes w = conn_bytes c \<and>
     (\<forall>n bs e w'. sc_Read n w = (bs, e, w') \<longrightarrow> sc_bytes w = bs @ sc_bytes w') \<and>
     (\<forall>buf c'. w = PrependConn buf c' \<longrightarrow> length buf \<le> sn_maxBytes s) \<and> (\<not> sn_enabled s \<longrightarrow> w = PlainConn c \<and> domain = [])"
proof (cases "sn_enabled s")
  case False
  then show ?thesis using sc_Read_bytes by (auto simp: SniffMetadata_def)
next
  case True
  obtain r where r: "sniff_loop (sn_maxBytes s) 4096 [] 0 c = Some r" "sr_data r @ conn_bytes (sr_conn r) = conn_bytes c"
    "length (sr_data r) \<le> sn_maxBytes s" using sniff_loop_keeps [of 4096 0 "[]" "sn_maxBytes s" c] by auto
  then show ?thesis using True sc_Read_bytes by (auto simp: SniffMetadata_def)
qed

definition ex_request_bytes :: "byte list" where
  "ex_request_bytes = bytes_of ''GET / HTTP/1.1''"

theorem sniff_keeps_stream_witness:
  "\<exists>w domain protocol. SniffMetadata (NewSniffer True) [(ex_request_bytes, None)] = Some (w, domain, protocol) \<and> sc_bytes w = ex_request_bytes"
  using sniff_keeps_stream [of "NewSniffer True" "[(ex_request_bytes, None)]"] by (auto simp: conn_bytes_def)

text \<open>C21. Segmentation cannot hide the server name: when the records of a well-formed ClientHello fit the limit
  and the connection delivers them, in pieces of any size and with anything after them, the sniffer gives
  the name and the protocol \<open>tls\<close>.\<close>

theorem sniff_any_segmentation:
  assumes "hello_ok h" "length (enc_hello h) \<le> maxTLSHandshake" "payloads frs = enc_message h" "\<forall>r \<in> set frs. rec_ok r"
    "sn_enabled s" "length (records frs) \<le> sn_maxBytes s" "conn_bytes c = records frs @ rest" "\<forall>p \<in> set c. snd p = None"
  shows "\<exists>w. SniffMetadata s c = Some (w, text_of (ch_host h), ''tls'')"
proof -
  have ih: "is_hello (payloads frs) (text_of (ch_host h))" using enc_message_hello [OF assms(1,2)] assms(3) by simp
  have ne: "text_of (ch_host h) \<noteq> []" using assms(1) by (simp add: hello_ok_def valid_host_def text_of_def)
  have "frs \<noteq> []" using ih by (auto simp: is_hello_def)
  then have "0 < length (records frs)" by (cases frs) (auto simp: rec_bytes_def)
  then obtain r where "sniff_loop (sn_maxBytes s) 4096 [] 0 c = Some r" "sr_domain r = text_of (ch_host h)" "sr_protocol r = ''tls''"
    using sniff_loop_records [OF assms(4) ih ne assms(6), of "[]" c rest "[]" frs 4096] assms(7,8) by auto
  then show ?thesis using assms(5) ne by (simp add: SniffMetadata_def)
qed

theorem sniff_any_segmentation_witness:
  "\<exists>w. SniffMetadata (NewSniffer True) (map (\<lambda>b. ([b], None)) (records ex_records)) = Some (w, text_of (ch_host ex_hello), ''tls'')"
proof -
  have len: "length (enc_message ex_hello) = 64" using ex_hello_ok(2) by (simp add: enc_message_def)
  have p: "payloads ex_records = enc_message ex_hello" by (simp add: ex_records_def)
  have ok: "\<forall>r \<in> set ex_records. rec_ok r" using len by (auto simp: ex_records_def rec_ok_def)
  have l: "length (records ex_records) \<le> sn_maxBytes (NewSniffer True)"
    using len by (simp add: ex_records_def rec_bytes_def NewSniffer_def defaultMaxSniffBytes_def)
  have c: "conn_bytes (map (\<lambda>b. ([b], None)) xs) = xs" for xs by (induction xs) (simp_all add: conn_bytes_def)
  show ?thesis
    by (rule sniff_any_segmentation [OF ex_hello_ok(1) _ p ok _ l, where rest = "[]"])
      (auto simp: ex_hello_ok(2) maxTLSHandshake_def NewSniffer_def c)
qed

text \<open>Header lines cannot replace what the request line says: the attributes \<open>:method\<close> and \<open>:path\<close> of a
  sniffed request are those of its first line, and its host is the normalised value of its last Host header.\<close>

theorem http_attributes_of_request:
  assumes "SniffRequest xs = (host, Some attrs)"
  shows "\<exists>e l ls meth path proto. index_of (crlf @ crlf) (text_of xs) = Some e \<and> split_lines (take e (text_of xs)) = l # ls \<and>
    Fields l = [meth, path, proto] \<and> knownMethod meth \<and> HasPrefix proto ''HTTP/1.'' \<and>
    al_get attrs '':method'' = Some meth \<and> al_get attrs '':path'' = Some path \<and> host_inv attrs host"
proof -
  obtain e where e: "index_of (crlf @ crlf) (text_of xs) = Some e" using assms by (auto simp: SniffRequest_def split: option.splits)
  obtain l ls where l: "split_lines (take e (text_of xs)) = l # ls" using assms e by (auto simp: SniffRequest_def split: list.splits)
  obtain meth path proto where f: "Fields l = [meth, path, proto]" "knownMethod meth" "HasPrefix proto ''HTTP/1.''"
    "header_loop ls [('':method'', meth), ('':path'', path)] [] = Some (host, attrs)"
    using assms e l by (auto simp: SniffRequest_def split: list.splits if_splits option.splits)
  have "host_inv [('':method'', meth), ('':path'', path)] []" by (simp add: host_inv_def)
  then show ?thesis using header_loop_attrs [OF f(4)] e l f by auto
qed

definition ex_http :: "byte list" where
  "ex_http = bytes_of (''GET / HTTP/1.1'' @ crlf @ ''Host: a.io'' @ crlf @ crlf)"

lemma ex_http_sniffed: "SniffRequest ex_http = (''a.io'', Some [('':method'', ''GET''), ('':path'', ''/''), (''host'', ''a.io'')])"
  by code_simp

theorem http_attributes_of_request_witness:
  "al_get [('':method'', ''GET''), ('':path'', ''/''), (''host'', ''a.io'')] '':method'' = Some ''GET'' \<and>
   host_inv [('':method'', ''GET''), ('':path'', ''/''), (''host'', ''a.io'')] ''a.io''"
  using http_attributes_of_request [OF ex_http_sniffed] by auto

end
