(* ===== verification/Dispatcher.thy ===== *)
theory Dispatcher
  imports Sniffer Router
begin

text \<open>
  \<open>app/dispatcher/default.go\<close>: a connection or the first packets of a session are sniffed, routed, and bridged to
  the outbound the route names; and \<open>DialRouted\<close> of \<open>cmd/bypasscore/runtime.go\<close>, the routing of the daemon, on the
  router and the outbounds of one snapshot. What happens to connections is a list of events; dialing and copying
  are parameters, and metrics are left out.
\<close>

section \<open>Environment\<close>

datatype dispatch_error =
    RuntimeClosed | RoutingFailed router_error | NoDefaultOutbound | RoutedOutboundNotFound string | NoOutboundForRoute | DialFailed string
  | BridgeFailed string

text \<open>A dialed connection is a number. \<open>dp_dial\<close> says what dialing a destination with a dialer gives, and
  \<open>dp_bridge\<close> what copying between the connections ends with.\<close>

record dispatch_env =
  dp_outbounds :: outbound_env
  dp_dial :: "nat \<Rightarrow> Destination \<Rightarrow> string + nat"
  dp_bridge :: "sniffed_conn \<Rightarrow> nat \<Rightarrow> string option"
  dp_quic :: "byte list \<Rightarrow> string \<times> bool"

datatype dispatch_event = Dialed nat Destination | Bridged sniffed_conn nat | InboundClosed | OutboundClosed nat

section \<open>Contexts\<close>

definition new_content :: Content where
  "new_content = \<lparr>ct_Protocol = [], ct_Attributes = None, ct_SkipDNSResolve = False\<rparr>"

definition no_destination :: Destination where
  "no_destination = \<lparr>DAddress = None, DPort = 0, DNetwork = Network_Unknown\<rparr>"

definition route_target :: "Destination \<Rightarrow> string \<Rightarrow> Destination" where
  "route_target dest sniffed = (if sniffed = [] then no_destination else dest\<lparr>DAddress := Some (ParseAddress sniffed)\<rparr>)"

definition outbound_session :: "Destination \<Rightarrow> string \<Rightarrow> Outbound" where
  "outbound_session dest sniffed =
     \<lparr>ob_OriginalTarget = dest, ob_Target = dest, ob_RouteTarget = route_target dest sniffed, ob_Tag = [], ob_Name = []\<rparr>"

definition buildRoutingContext :: "Inbound option \<Rightarrow> Outbound \<Rightarrow> Content option \<Rightarrow> SessionContext" where
  "buildRoutingContext inb out content = \<lparr>sc_Inbound = inb, sc_Outbound = Some out, sc_Content = content\<rparr>"

text \<open>What sniffing makes of the connection and the content of the session.\<close>

definition sniff_content :: "Sniffer option \<Rightarrow> conn \<Rightarrow> Content \<Rightarrow> (sniffed_conn \<times> string \<times> Content) option" where
  "sniff_content sniffer c content =
     (case sniffer of
        None \<Rightarrow> Some (PlainConn c, [], content)
      | Some s \<Rightarrow> do {
          (conn, sniffed, protocol) \<leftarrow> SniffMetadata s c;
          let content' = content\<lparr>ct_Protocol := protocol\<rparr>;
          Some (conn, sniffed,
            if protocol = ''http'' then
              (case conn of PrependConn buf _ \<Rightarrow> content'\<lparr>ct_Attributes := snd (SniffRequest buf)\<rparr> | PlainConn _ \<Rightarrow> content')
            else content')
        })"

section \<open>Routing and dialing\<close>

text \<open>The dialer for a route: that of its tag, or the default one when no rule holds. A missing dialer is no error
  yet.\<close>

definition pick_dialer :: "outbound_env \<Rightarrow> router_error + Route \<Rightarrow> Manager \<Rightarrow> ((router_error + nat option) \<times> Manager) option" where
  "pick_dialer oe route m =
     (case route of
        Inl e \<Rightarrow>
          if e \<noteq> ErrNoClue then Some (Inl e, m)
          else map_option (\<lambda>(d, m'). (Inr d, m')) (GetDefaultDialer oe m)
      | Inr r \<Rightarrow> Some (case GetDialer oe (rt_outboundTag r) m of (d, m') \<Rightarrow> (Inr d, m')))"

definition route_dialer :: "'s router_env \<Rightarrow> outbound_env \<Rightarrow> Context \<Rightarrow> Router \<Rightarrow> 's world \<Rightarrow>
    ((router_error + Route) \<times> (router_error + nat option) \<times> Router \<times> 's world) option" where
  "route_dialer env oe c r w = do {
     (route, r', w') \<leftarrow> PickRoute env r (BaseContext c) w;
     (d, m') \<leftarrow> pick_dialer oe route (w_outbounds w');
     Some (route, d, r', w'\<lparr>w_outbounds := m'\<rparr>)
   }"

text \<open>What \<open>DialRouted\<close> returns besides the connection. \<open>closed\<close> says that no snapshot could be acquired, and
  \<open>forced\<close> that the snapshot was forced to close while dialing, which ends the new connection.\<close>

record routed_result =
  dr_conn :: "dispatch_error + nat"
  dr_outboundTag :: string
  dr_ruleTag :: string
  dr_usedDefault :: bool
  dr_events :: "dispatch_event list"

definition dial_snapshot :: "'s router_env \<Rightarrow> dispatch_env \<Rightarrow> (nat \<Rightarrow> string) \<Rightarrow> bool \<Rightarrow> Context \<Rightarrow> Destination \<Rightarrow> Router \<Rightarrow> 's world \<Rightarrow>
    (routed_result \<times> Router \<times> 's world) option" where
  "dial_snapshot env de dialerTag forced c dest r w = do {
     (route, d, r', w') \<leftarrow> route_dialer env (dp_outbounds de) c r w;
     let tag = (case route of Inl _ \<Rightarrow> [] | Inr rt \<Rightarrow> rt_outboundTag rt);
     let ruleTag = (case route of Inl _ \<Rightarrow> [] | Inr rt \<Rightarrow> rt_ruleTag rt);
     let usedDefault = (case route of Inl _ \<Rightarrow> True | Inr rt \<Rightarrow> rt_fallback rt);
     Some (case d of
             Inl e \<Rightarrow> \<lparr>dr_conn = Inl (RoutingFailed e), dr_outboundTag = [], dr_ruleTag = [], dr_usedDefault = False, dr_events = []\<rparr>
           | Inr None \<Rightarrow>
               \<lparr>dr_conn = Inl NoOutboundForRoute, dr_outboundTag = tag, dr_ruleTag = ruleTag, dr_usedDefault = usedDefault, dr_events = []\<rparr>
           | Inr (Some k) \<Rightarrow>
               (let tag' = (if tag = [] then dialerTag k else tag);
                    result = (\<lambda>x evs. \<lparr>dr_conn = x, dr_outboundTag = tag', dr_ruleTag = ruleTag, dr_usedDefault = usedDefault,
                                       dr_events = Dialed k dest # evs\<rparr>)
                in case dp_dial de k dest of
                     Inl e \<Rightarrow> result (Inl (DialFailed e)) []
                   | Inr out \<Rightarrow> if forced then result (Inl (DialFailed ''drain timeout'')) [OutboundClosed out] else result (Inr out) []),
           r', w')
   }"

definition DialRouted :: "'s router_env \<Rightarrow> dispatch_env \<Rightarrow> (nat \<Rightarrow> string) \<Rightarrow> bool \<Rightarrow> bool \<Rightarrow> Context \<Rightarrow> Destination \<Rightarrow> Router \<Rightarrow> 's world \<Rightarrow>
    (routed_result \<times> Router \<times> 's world) option" where
  "DialRouted env de dialerTag closed forced c dest r w =
     (if closed
      then Some (\<lparr>dr_conn = Inl RuntimeClosed, dr_outboundTag = [], dr_ruleTag = [], dr_usedDefault = False, dr_events = []\<rparr>, r, w)
      else dial_snapshot env de dialerTag forced c dest r w)"

definition bridge_events :: "dispatch_env \<Rightarrow> sniffed_conn \<Rightarrow> nat \<Rightarrow> dispatch_error option \<times> dispatch_event list" where
  "bridge_events de conn out =
     (map_option BridgeFailed (dp_bridge de conn out), [Bridged conn out, InboundClosed, OutboundClosed out])"

text \<open>\<open>bridge\<close>: dial, copy, close both.\<close>

definition bridge :: "dispatch_env \<Rightarrow> sniffed_conn \<Rightarrow> nat \<Rightarrow> Destination \<Rightarrow> dispatch_error option \<times> dispatch_event list" where
  "bridge de conn d dest =
     (case dp_dial de d dest of
        Inl e \<Rightarrow> (Some (DialFailed e), [Dialed d dest, InboundClosed])
      | Inr out \<Rightarrow> (case bridge_events de conn out of (err, evs) \<Rightarrow> (err, Dialed d dest # evs)))"

text \<open>\<open>Dispatch\<close>, for a router that dials itself and for one that only routes. The getters of the routing context are
  read at once; \<open>None\<close> is a panic.\<close>

definition Dispatch :: "'s router_env \<Rightarrow> dispatch_env \<Rightarrow> ((nat \<Rightarrow> string) \<times> bool \<times> bool) option \<Rightarrow> Sniffer option \<Rightarrow> Inbound option \<Rightarrow>
    Content option \<Rightarrow> Destination \<Rightarrow> conn \<Rightarrow> Router \<Rightarrow> 's world \<Rightarrow>
    (dispatch_error option \<times> dispatch_event list \<times> Router \<times> 's world) option" where
  "Dispatch env de plane sniffer inb content0 dest c r w = do {
     (conn, sniffed, content) \<leftarrow> sniff_content sniffer c (case content0 of None \<Rightarrow> new_content | Some k \<Rightarrow> k);
     rctx \<leftarrow> session_Context (buildRoutingContext inb (outbound_session dest sniffed) (Some content));
     case plane of
       Some (dialerTag, closed, forced) \<Rightarrow> do {
         (res, r', w') \<leftarrow> DialRouted env de dialerTag closed forced rctx dest r w;
         Some (case dr_conn res of
                 Inl e \<Rightarrow> (Some e, dr_events res @ [InboundClosed], r', w')
               | Inr out \<Rightarrow> (case bridge_events de conn out of (err, evs) \<Rightarrow> (err, dr_events res @ evs, r', w')))
       }
     | None \<Rightarrow> do {
         (route, d, r', w') \<leftarrow> route_dialer env (dp_outbounds de) rctx r w;
         Some (case d of
                 Inl e \<Rightarrow> (Some (RoutingFailed e), [InboundClosed], r', w')
               | Inr None \<Rightarrow>
                   (Some (case route of Inl _ \<Rightarrow> NoDefaultOutbound | Inr rt \<Rightarrow> RoutedOutboundNotFound (rt_outboundTag rt)), [InboundClosed], r', w')
               | Inr (Some k) \<Rightarrow> (case bridge de conn k dest of (err, evs) \<Rightarrow> (err, evs, r', w')))
       }
   }"

section \<open>Packets\<close>

definition dialOutboundPackets :: "'s router_env \<Rightarrow> dispatch_env \<Rightarrow> ((nat \<Rightarrow> string) \<times> bool \<times> bool) option \<Rightarrow> Sniffer option \<Rightarrow> Inbound option \<Rightarrow>
    Content option \<Rightarrow> Destination \<Rightarrow> byte list list \<Rightarrow> Router \<Rightarrow> 's world \<Rightarrow>
    ((dispatch_error + nat) \<times> dispatch_event list \<times> Router \<times> 's world) option" where
  "dialOutboundPackets env de plane sniffer inb content0 dest packets r w =
     (case SniffPacketMetadata (dp_quic de) sniffer packets of
        (domain, protocol, _) \<Rightarrow>
          let content = (if domain = [] then content0
                         else Some ((case content0 of None \<Rightarrow> new_content | Some k \<Rightarrow> k)\<lparr>ct_Protocol := protocol\<rparr>))
          in do {
            rctx \<leftarrow> session_Context (buildRoutingContext inb (outbound_session dest domain) content);
            case plane of
              Some (dialerTag, closed, forced) \<Rightarrow> do {
                (res, r', w') \<leftarrow> DialRouted env de dialerTag closed forced rctx dest r w;
                Some (dr_conn res, dr_events res, r', w')
              }
            | None \<Rightarrow> do {
                (route, d, r', w') \<leftarrow> route_dialer env (dp_outbounds de) rctx r w;
                Some (case d of
                        Inl e \<Rightarrow> (Inl (RoutingFailed e), [], r', w')
                      | Inr None \<Rightarrow>
                          (Inl (case route of Inl _ \<Rightarrow> NoDefaultOutbound | Inr rt \<Rightarrow> RoutedOutboundNotFound (rt_outboundTag rt)), [], r', w')
                      | Inr (Some k) \<Rightarrow>
                          ((case dp_dial de k dest of Inl e \<Rightarrow> Inl (DialFailed e) | Inr out \<Rightarrow> Inr out), [Dialed k dest], r', w'))
              }
          })"

end
