(* ===== verification/DispatcherProofs.thy ===== *)
theory DispatcherProofs
  imports Dispatcher SnifferProofs RouterProps
begin

text \<open>
  What the dispatcher promises of every connection: whatever a client claims in its first bytes only chooses the
  route, the destination that is dialed is the original one, the bytes are delivered as they came, and every
  connection is closed.
\<close>

section \<open>Routing leaves the outbounds alone\<close>

lemma Condition_Apply_outbounds: "Condition_Apply env k c w = Some (b, c', w') \<Longrightarrow> w_outbounds w' = w_outbounds w"
  by (cases k) (auto simp: Process_Apply_def Let_def split: if_splits option.splits MatcherAsType.splits prod.splits)

lemma Chan_Apply_outbounds: "Chan_Apply env ks c w = Some (b, c', w') \<Longrightarrow> w_outbounds w' = w_outbounds w"
proof (induction ks arbitrary: c w)
  case (Cons k ks)
  then show ?case by (fastforce dest: Condition_Apply_outbounds split: option.splits bool.splits prod.splits)
qed simp

lemma first_rule_outbounds: "first_rule env rules c w = Some (k, c', w') \<Longrightarrow> w_outbounds w' = w_outbounds w"
proof (induction rules arbitrary: c w)
  case (Cons rule rules)
  then show ?case by (fastforce simp: Rule_Apply_def dest: Chan_Apply_outbounds split: option.splits bool.splits prod.splits)
qed auto

lemma strategy_Pick_outbounds: "strategy_Pick env s tags w = Some (t, s', w') \<Longrightarrow> w_outbounds w' = w_outbounds w"
  by (cases s)
    (auto simp: RoundRobin_Pick_def Random_Pick_def LeastPing_Pick_def LeastLoad_Pick_def pickOutbounds_def getNodes_def
      living_def dice_Roll_def Let_def bind_eq_Some_conv split: if_splits observation.splits prod.splits)

lemma Balancer_Pick_outbounds: "Balancer_PickOutbound env b w = Some (t, b', w') \<Longrightarrow> w_outbounds w' = w_outbounds w"
  by (auto simp: Balancer_PickOutbound_def bind_eq_Some_conv dest: strategy_Pick_outbounds split: sum.splits if_splits)

lemma PickRoute_outbounds:
  assumes "PickRoute env r c w = Some (route, r', w')"
  shows "w_outbounds w' = w_outbounds w"
proof -
  have p: "w_outbounds w1 = w_outbounds w" if "pickRouteInternal env r c w = Some (res, c1, w1)" for res c1 w1
    using that by (fastforce simp: pickRouteInternal_def Let_def dest: first_rule_outbounds split: option.splits prod.splits if_splits)
  show ?thesis using assms p
    by (fastforce simp: PickRoute_def Rule_GetTag_def dest: Balancer_Pick_outbounds split: option.splits prod.splits sum.splits if_splits)
qed

section \<open>Choosing a dialer\<close>

lemma default_dialer_total: "manager_inv m \<Longrightarrow> GetDefaultDialer oe m \<noteq> None"
proof -
  assume m: "manager_inv m"
  have "al_get (m_handlers m) (m_order m ! 0) \<noteq> None" if "m_order m \<noteq> []"
    using that m nth_mem [of 0 "m_order m"] by (auto simp: manager_inv_def OutboundProofs.table_ok_def map_of_eq_None_iff)
  then show ?thesis by (auto simp: GetDefaultDialer_def)
qed

lemma route_dialer_total:
  assumes "router_inv (r, w)" "fair_env env" "pcache_fine env w" "manager_inv (w_outbounds w)"
  shows "\<exists>route d r' w'. route_dialer env oe c r w = Some (route, d, r', w')"
proof -
  obtain route r' w' where p: "PickRoute env r (BaseContext c) w = Some (route, r', w')" using PickRoute_total [OF assms(1-3)] by blast
  then have "GetDefaultDialer oe (w_outbounds w') \<noteq> None" using PickRoute_outbounds [OF p] default_dialer_total [OF assms(4)] by simp
  then show ?thesis using p by (auto simp: route_dialer_def pick_dialer_def split: sum.splits prod.splits)
qed

section \<open>Contexts\<close>

text \<open>Destinations with an address where they are valid, as listeners make them.\<close>

definition dest_ok :: "Destination \<Rightarrow> bool" where
  "dest_ok d \<longleftrightarrow> (DestIsValid d \<longrightarrow> DAddress d \<noteq> None)"

definition inbound_ok :: "Inbound option \<Rightarrow> bool" where
  "inbound_ok inb \<longleftrightarrow> (\<forall>i. inb = Some i \<longrightarrow> dest_ok (in_Source i) \<and> dest_ok (in_Local i))"

lemma dest_IPs_total: "dest_ok d \<Longrightarrow> \<exists>ps. dest_IPs d = Some ps"
proof -
  assume d: "dest_ok d"
  show ?thesis
  proof (cases "DestIsValid d")
    case True
    then obtain a where "DAddress d = Some a" using d by (auto simp: dest_ok_def)
    then show ?thesis by (cases a) (auto simp: dest_IPs_def IsIP_def IsIPv4_def IsIPv6_def)
  qed (simp add: dest_IPs_def)
qed

lemma target_domain_total:
  assumes "dest_ok dest"
  shows "\<exists>d. ses_TargetDomain (buildRoutingContext inb (outbound_session dest sniffed) content) = Some d"
proof (cases "DestIsValid dest")
  case True
  then obtain a where "DAddress dest = Some a" using assms by (auto simp: dest_ok_def)
  then show ?thesis
    by (cases a; cases "ParseAddress sniffed")
      (auto simp: ses_TargetDomain_def buildRoutingContext_def outbound_session_def route_target_def no_destination_def DestIsValid_def IsDomain_def)
qed (simp add: ses_TargetDomain_def buildRoutingContext_def outbound_session_def)

lemma routing_context_total:
  assumes "dest_ok dest" "inbound_ok inb"
  shows "\<exists>ctx. session_Context (buildRoutingContext inb (outbound_session dest sniffed) content) = Some ctx"
proof -
  let ?c = "buildRoutingContext inb (outbound_session dest sniffed) content"
  obtain d where "ses_TargetDomain ?c = Some d" using target_domain_total [OF assms(1)] by blast
  moreover obtain s where "ses_SourceIPs ?c = Some s"
    using assms(2) dest_IPs_total by (cases inb) (auto simp: ses_SourceIPs_def buildRoutingContext_def inbound_ok_def)
  moreover obtain l where "ses_LocalIPs ?c = Some l"
    using assms(2) dest_IPs_total by (cases inb) (auto simp: ses_LocalIPs_def buildRoutingContext_def inbound_ok_def)
  moreover obtain t where "ses_TargetIPs ?c = Some t"
    using dest_IPs_total [OF assms(1)] by (auto simp: ses_TargetIPs_def buildRoutingContext_def outbound_session_def)
  ultimately show ?thesis by (simp add: session_Context_def)
qed

lemma SniffMetadata_stream:
  "\<exists>w domain protocol. SniffMetadata s c = Some (w, domain, protocol) \<and> sc_bytes w = conn_bytes c"
proof (cases "sn_enabled s")
  case True
  then show ?thesis using sniff_loop_keeps [of 4096 0 "[]" "sn_maxBytes s" c] by (auto simp: SniffMetadata_def)
qed (simp add: SniffMetadata_def)

lemma sniff_content_stream:
  "\<exists>conn sniffed content'. sniff_content sniffer c content = Some (conn, sniffed, content') \<and> sc_bytes conn = conn_bytes c"
proof (cases sniffer)
  case (Some s)
  then show ?thesis using SniffMetadata_stream [of s c] by (auto simp: sniff_content_def Let_def)
qed (simp add: sniff_content_def)

section \<open>Events\<close>

text \<open>What the events of a dispatch must be: one dial at most, to the original destination; a connection that was
  dialed is closed, and so is the inbound, once; what is bridged carries the bytes of the client.\<close>

fun is_dial :: "dispatch_event \<Rightarrow> bool" where
  "is_dial (Dialed d t) = True"
| "is_dial e = False"

definition events_ok :: "dispatch_env \<Rightarrow> Destination \<Rightarrow> byte list \<Rightarrow> dispatch_event list \<Rightarrow> bool" where
  "events_ok de dest bytes evs \<longleftrightarrow> length (filter is_dial evs) \<le> 1 \<and> count_list evs InboundClosed = 1 \<and>
     (\<forall>d t. Dialed d t \<in> set evs \<longrightarrow> t = dest \<and> (\<forall>out. dp_dial de d dest = Inr out \<longrightarrow> OutboundClosed out \<in> set evs)) \<and>
     (\<forall>conn out. Bridged conn out \<in> set evs \<longrightarrow> sc_bytes conn = bytes \<and> (\<exists>d. Dialed d dest \<in> set evs \<and> dp_dial de d dest = Inr out))"

lemma bridge_ok: "sc_bytes conn = bytes \<Longrightarrow> bridge de conn d dest = (err, evs) \<Longrightarrow> events_ok de dest bytes evs"
  by (auto simp: bridge_def bridge_events_def events_ok_def split: sum.splits)

lemma closed_only_ok: "events_ok de dest bytes [InboundClosed]"
  by (simp add: events_ok_def)

lemma dial_snapshot_ok:
  assumes "dial_snapshot env de dialerTag forced ctx dest r w = Some (res, r', w')" "sc_bytes conn = bytes"
  shows "case dr_conn res of
      Inl e \<Rightarrow> events_ok de dest bytes (dr_events res @ [InboundClosed])
    | Inr out \<Rightarrow> events_ok de dest bytes (dr_events res @ snd (bridge_events de conn out))"
proof -
  obtain route d where rd: "route_dialer env (dp_outbounds de) ctx r w = Some (route, d, r', w')"
    using assms(1) by (auto simp: dial_snapshot_def bind_eq_Some_conv Let_def)
  consider (err) e where "d = Inl e" | (none) "d = Inr None" | (dial) k where "d = Inr (Some k)" by (metis option.exhaust sum.exhaust)
  then show ?thesis
  proof cases
    case dial
    then show ?thesis using assms rd
      by (cases "dp_dial de k dest") (auto simp: dial_snapshot_def Let_def bridge_events_def events_ok_def)
  qed (use assms rd in \<open>auto simp: dial_snapshot_def Let_def closed_only_ok\<close>)
qed

lemma DialRouted_ok:
  assumes "DialRouted env de dialerTag closed forced ctx dest r w = Some (res, r', w')" "sc_bytes conn = bytes"
  shows "case dr_conn res of
      Inl e \<Rightarrow> events_ok de dest bytes (dr_events res @ [InboundClosed])
    | Inr out \<Rightarrow> events_ok de dest bytes (dr_events res @ snd (bridge_events de conn out))"
proof (cases closed)
  case True
  then show ?thesis using assms(1) by (auto simp: DialRouted_def closed_only_ok)
next
  case False
  then show ?thesis using assms(1) dial_snapshot_ok [OF _ assms(2)] by (simp add: DialRouted_def)
qed

section \<open>An example\<close>

definition ex_dispatch :: dispatch_env where
  "ex_dispatch = \<lparr>dp_outbounds = ex_ob_env\<lparr>oe_factory := \<lambda>ob. Some 7\<rparr>, dp_dial = (\<lambda>k dest. Inr 42), dp_bridge = (\<lambda>conn out. None),
     dp_quic = (\<lambda>xs. ([], False))\<rparr>"

definition ex_target :: Destination where
  "ex_target = TCPDestination (Some (ipv4Address [203, 0, 113, 9])) 443"

lemma ex_target_ok: "dest_ok ex_target" "inbound_ok None"
  by (simp_all add: dest_ok_def ex_target_def TCPDestination_def inbound_ok_def)

lemma ex_world_manager: "manager_reachable ex_ob_env (w_outbounds ex_world)"
  using ex_manager_reachable by (simp add: ex_world_def)

text \<open>C5. Every connection that is dispatched ends, without a panic, in one of the ways the events allow: at most one
  dial, always to the original destination, whatever name the sniffer found; the bytes of the client bridged
  unchanged; the inbound and every dialed connection closed, on each path through errors too. The router is in
  a reachable state, and listeners give valid destinations an address.\<close>

theorem dispatch_safe:
  assumes "router_reachable env (r, w)" "fair_env env" "pcache_fine env w" "manager_reachable oe (w_outbounds w)"
    "dest_ok dest" "inbound_ok inb"
  shows "\<exists>err evs r' w'. Dispatch env de plane sniffer inb content dest c r w = Some (err, evs, r', w') \<and>
    events_ok de dest (conn_bytes c) evs"
proof -
  have inv: "router_inv (r, w)" "manager_inv (w_outbounds w)"
    using router_reachable_inv [OF assms(1)] manager_reachable_inv [OF assms(4)] by simp_all
  obtain conn sniffed content' where sn: "sniff_content sniffer c (case content of None \<Rightarrow> new_content | Some k \<Rightarrow> k) = Some (conn, sniffed, content')"
      "sc_bytes conn = conn_bytes c" using sniff_content_stream by blast
  obtain ctx where ctx: "session_Context (buildRoutingContext inb (outbound_session dest sniffed) (Some content')) = Some ctx"
    using routing_context_total [OF assms(5,6)] by blast
  obtain route d r1 w1 where rd: "route_dialer env (dp_outbounds de) ctx r w = Some (route, d, r1, w1)"
    using route_dialer_total [OF inv(1) assms(2,3) inv(2)] by blast
  show ?thesis
  proof (cases plane)
    case None
    consider (err) e where "d = Inl e" | (none) "d = Inr None" | (dial) k where "d = Inr (Some k)" by (metis option.exhaust sum.exhaust)
    then show ?thesis
    proof cases
      case dial
      obtain err evs where b: "bridge de conn k dest = (err, evs)" by fastforce
      then show ?thesis using sn ctx rd None dial bridge_ok [OF sn(2) b] by (simp add: Dispatch_def)
    qed (use sn ctx rd None in \<open>simp_all add: Dispatch_def closed_only_ok\<close>)
  next
    case (Some p)
    obtain dialerTag closed forced where p: "p = (dialerTag, closed, forced)" by (metis prod.exhaust)
    obtain res r2 w2 where res: "DialRouted env de dialerTag closed forced ctx dest r w = Some (res, r2, w2)"
      using rd by (cases closed) (simp_all add: DialRouted_def dial_snapshot_def Let_def)
    then show ?thesis using sn ctx Some p DialRouted_ok [OF res sn(2)] by (cases "dr_conn res") (auto simp: Dispatch_def split: prod.splits)
  qed
qed

theorem dispatch_safe_witness:
  "\<exists>err evs r' w'. Dispatch ex_renv ex_dispatch None (Some (NewSniffer True)) None None ex_target [(ex_request_bytes, None)] ex_router ex_world =
     Some (err, evs, r', w') \<and> events_ok ex_dispatch ex_target (conn_bytes [(ex_request_bytes, None)]) evs"
  by (rule dispatch_safe [OF ex_reachable ex_fair ex_world_manager ex_target_ok])

text \<open>What a route says about the dialer.\<close>

definition dialer_of_route :: "outbound_env \<Rightarrow> router_error + Route \<Rightarrow> Manager \<Rightarrow> nat \<Rightarrow> bool" where
  "dialer_of_route oe route m d \<longleftrightarrow>
     (case route of
        Inl e \<Rightarrow> e = ErrNoClue \<and> map_option fst (GetDefaultDialer oe m) = Some (Some d)
      | Inr rt \<Rightarrow> fst (GetDialer oe (rt_outboundTag rt) m) = Some d)"

lemma route_dialer_route:
  assumes "route_dialer env oe ctx r w = Some (route, Inr (Some d), r', w')"
  shows "\<exists>w1. PickRoute env r (BaseContext ctx) w = Some (route, r', w1) \<and> dialer_of_route oe route (w_outbounds w) d"
proof -
  obtain w1 m' where p: "PickRoute env r (BaseContext ctx) w = Some (route, r', w1)" "pick_dialer oe route (w_outbounds w1) = Some (Inr (Some d), m')"
    using assms by (auto simp: route_dialer_def bind_eq_Some_conv)
  then show ?thesis using PickRoute_outbounds [OF p(1)]
    by (auto simp: pick_dialer_def dialer_of_route_def split: sum.splits if_splits prod.splits)
qed

lemma Dispatch_dialed:
  assumes "Dispatch env de plane sniffer inb content dest c r w = Some (err, evs, r', w')" "Dialed d t \<in> set evs"
  shows "\<exists>conn sniffed content' ctx route. sniff_content sniffer c (case content of None \<Rightarrow> new_content | Some k \<Rightarrow> k) = Some (conn, sniffed, content') \<and>
    session_Context (buildRoutingContext inb (outbound_session dest sniffed) (Some content')) = Some ctx \<and>
    route_dialer env (dp_outbounds de) ctx r w = Some (route, Inr (Some d), r', w')"
proof -
  obtain conn sniffed content' ctx where s: "sniff_content sniffer c (case content of None \<Rightarrow> new_content | Some k \<Rightarrow> k) = Some (conn, sniffed, content')"
      "session_Context (buildRoutingContext inb (outbound_session dest sniffed) (Some content')) = Some ctx"
    using assms(1) by (auto simp: Dispatch_def bind_eq_Some_conv)
  have "\<exists>route. route_dialer env (dp_outbounds de) ctx r w = Some (route, Inr (Some d), r', w')"
  proof (cases plane)
    case None
    obtain route x r1 w1 where rd: "route_dialer env (dp_outbounds de) ctx r w = Some (route, x, r1, w1)"
      using assms(1) s None by (auto simp: Dispatch_def bind_eq_Some_conv)
    then have "x = Inr (Some d) \<and> r1 = r' \<and> w1 = w'" using assms s None
      by (auto simp: Dispatch_def bridge_def bridge_events_def split: sum.splits option.splits prod.splits)
    then show ?thesis using rd by blast
  next
    case (Some p)
    obtain dialerTag closed forced where p: "p = (dialerTag, closed, forced)" by (metis prod.exhaust)
    then have c: "\<not> closed" using assms s Some by (auto simp: Dispatch_def DialRouted_def)
    then obtain route x r1 w1 where rd: "route_dialer env (dp_outbounds de) ctx r w = Some (route, x, r1, w1)"
      using assms(1) s Some p by (auto simp: Dispatch_def DialRouted_def dial_snapshot_def bind_eq_Some_conv Let_def)
    then have "x = Inr (Some d) \<and> r1 = r' \<and> w1 = w'" using assms s Some p c
      by (auto simp: Dispatch_def DialRouted_def dial_snapshot_def Let_def bridge_events_def split: sum.splits option.splits prod.splits if_splits)
    then show ?thesis using rd by blast
  qed
  then show ?thesis using s by blast
qed

lemma context_of_session:
  assumes "session_Context c = Some ctx"
  shows "ses_TargetIPs c = Some (base_TargetIPs ctx)" "ses_TargetDomain c = Some (GetTargetDomain ctx)"
  using assms by (auto simp: session_Context_def bind_eq_Some_conv)

text \<open>C6. The outbound that is dialed is the one of the route: routing sees the address the client connected to and, as
  the domain, the name that was sniffed; the dialer is that of the outbound the router picks for this
  context, or the default one when no rule holds.\<close>

theorem dispatch_follows_route:
  assumes "Dispatch env de plane sniffer inb content dest c r w = Some (err, evs, r', w')" "Dialed d t \<in> set evs"
    "DestIsValid dest" "DAddress dest = Some a" "AddrIP a = Some p" "\<not> IsDomain (Family a)"
  shows "\<exists>conn sniffed content' ctx route w1.
    sniff_content sniffer c (case content of None \<Rightarrow> new_content | Some k \<Rightarrow> k) = Some (conn, sniffed, content') \<and>
    base_TargetIPs ctx = [p] \<and>
    GetTargetDomain ctx = (case ParseAddress sniffed of domainAddress x \<Rightarrow> if sniffed = [] then [] else x | _ \<Rightarrow> []) \<and>
    PickRoute env r (BaseContext ctx) w = Some (route, r', w1) \<and> dialer_of_route (dp_outbounds de) route (w_outbounds w) d"
proof -
  obtain conn sniffed content' ctx route where s: "sniff_content sniffer c (case content of None \<Rightarrow> new_content | Some k \<Rightarrow> k) = Some (conn, sniffed, content')"
      "session_Context (buildRoutingContext inb (outbound_session dest sniffed) (Some content')) = Some ctx"
      "route_dialer env (dp_outbounds de) ctx r w = Some (route, Inr (Some d), r', w')"
    using Dispatch_dialed [OF assms(1,2)] by blast
  note g = context_of_session [OF s(2)]
  have "base_TargetIPs ctx = [p]"
    using g(1) assms(3-6) by (cases a) (auto simp: ses_TargetIPs_def buildRoutingContext_def outbound_session_def dest_IPs_def IsIP_def IsIPv4_def IsIPv6_def IsDomain_def)
  moreover have "GetTargetDomain ctx = (case ParseAddress sniffed of domainAddress x \<Rightarrow> if sniffed = [] then [] else x | _ \<Rightarrow> [])"
    using g(2) assms(3-6)
    by (cases "ParseAddress sniffed")
      (auto simp: ses_TargetDomain_def buildRoutingContext_def outbound_session_def route_target_def no_destination_def DestIsValid_def IsDomain_def split: if_splits)
  ultimately show ?thesis using s(1) route_dialer_route [OF s(3)] by blast
qed

definition ex_final_router :: Router where
  "ex_final_router = new_Router\<lparr>r_finalOutboundTag := ''wan1''\<rparr>"

lemma ex_dispatched:
  "\<exists>err w'. Dispatch ex_renv ex_dispatch None None None None ex_target [] ex_final_router ex_world =
     Some (err, [Dialed 7 ex_target, Bridged (PlainConn []) 42, InboundClosed, OutboundClosed 42], ex_final_router, w')"
  by (simp add: Dispatch_def sniff_content_def session_Context_def ses_SourceIPs_def ses_TargetIPs_def ses_LocalIPs_def ses_TargetDomain_def
      buildRoutingContext_def outbound_session_def ex_target_def TCPDestination_def dest_IPs_def DestIsValid_def IsIP_def IsIPv4_def IsDomain_def
      route_target_def no_destination_def route_dialer_def PickRoute_def pickRouteInternal_def ex_final_router_def new_Router_def Let_def
      pick_dialer_def GetDialer_def ex_world_def ex_manager_def NewManager_def Manager_Add_def TrimSpace_def is_space_def empty_manager_def
      getDialer_at_def ex_dispatch_def bridge_def bridge_events_def)

theorem dispatch_follows_route_witness:
  "\<exists>ctx route w1. base_TargetIPs ctx = [[203, 0, 113, 9]] \<and> PickRoute ex_renv ex_final_router (BaseContext ctx) ex_world = Some (route, ex_final_router, w1) \<and>
     dialer_of_route (dp_outbounds ex_dispatch) route (w_outbounds ex_world) 7"
proof -
  obtain err w' where d: "Dispatch ex_renv ex_dispatch None None None None ex_target [] ex_final_router ex_world =
     Some (err, [Dialed 7 ex_target, Bridged (PlainConn []) 42, InboundClosed, OutboundClosed 42], ex_final_router, w')"
    using ex_dispatched by blast
  have "DestIsValid ex_target" "DAddress ex_target = Some (ipv4Address [203, 0, 113, 9])"
    by (simp_all add: ex_target_def TCPDestination_def DestIsValid_def)
  from dispatch_follows_route [OF d _ this, of 7 ex_target] show ?thesis by (auto simp: IsDomain_def)
qed

end
