(* ===== verification/DnsMessage.thy ===== *)
theory DnsMessage
  imports Net "HOL-Library.Monad_Syntax"
begin

text \<open>
  \<open>app/dns/dnscommon.go\<close> and \<open>features/dns/wire.go\<close>: the records that answer a DNS request, how a response is
  checked against its request and turned into a record, and the check of raw responses. The package
  \<open>dnsmessage\<close> that decodes messages is a parameter. Times are nanoseconds.
\<close>

section \<open>Messages\<close>

record dns_header =
  dh_ID :: u16
  dh_Response :: bool
  dh_OpCode :: u16
  dh_RecursionDesired :: bool
  dh_RCode :: u16

record dns_question =
  dq_Name :: string
  dq_Type :: u16
  dq_Class :: u16

datatype dns_body = AResource ip | AAAAResource ip | CNAMEResource string
  | OPTResource "(nat \<times> byte list) list" | OtherResource

record dns_resource =
  rs_Name :: string
  rs_Type :: u16
  rs_Class :: u16
  rs_TTL :: u32
  rs_Body :: dns_body

abbreviation (input) "TypeA \<equiv> (1 :: u16)"
abbreviation (input) "TypeCNAME \<equiv> (5 :: u16)"
abbreviation (input) "TypeAAAA \<equiv> (28 :: u16)"
abbreviation (input) "ClassINET \<equiv> (1 :: u16)"

datatype question_result = QuestionOk dns_question | SectionDone | QuestionError

text \<open>What the code calls of \<open>dnsmessage\<close>: the header, the questions one after the other, the answers of a
  message that unpacks, all questions, whether the other sections can be skipped, which names are valid, and the
  header of an EDNS0 record.\<close>

record dns_wire =
  dw_Start :: "byte list \<Rightarrow> dns_header option"
  dw_Question :: "byte list \<Rightarrow> nat \<Rightarrow> question_result"
  dw_Unpack :: "byte list \<Rightarrow> dns_resource list option"
  dw_AllQuestions :: "byte list \<Rightarrow> dns_question list option"
  dw_SkipSections :: "byte list \<Rightarrow> bool"
  dw_ValidName :: "string \<Rightarrow> bool"
  dw_SetEDNS0 :: "nat \<Rightarrow> nat \<Rightarrow> bool \<Rightarrow> dns_resource option"

datatype dns_error =
    ErrRecordNotFound | ErrEmptyResponse | RCodeError u16 | ErrClosed | ErrContext | TransportError string
  | Combined "dns_error list" | BadRequest | BadHeader | NotAResponse | IDMismatch | OpcodeMismatch | NoQuestion
  | QuestionMismatch | ExtraQuestions | BadResponse | ConflictingCNAME | CNAMELoop | BadName
  | LookupFailed string dns_error | EmptyDomainName | ServerTagRequired | ServerTagNotFound string | NoRawSupport | NotAnIP
  | BadQueryLength | BadResponseLength | BadQuery | QueryIsResponse | QueryWithoutQuestion | HeaderMismatch

section \<open>Records\<close>

definition DefaultTTL :: nat where
  "DefaultTTL = 300"

record IPRecord =
  ir_ReqID :: u16
  ir_IP :: "ip list"
  ir_Expire :: int
  ir_RCode :: u16

text \<open>\<open>int32(math.Ceil(d.Seconds()))\<close> is floating-point arithmetic, a parameter of what uses it.\<close>

type_synonym ceil_seconds = "int \<Rightarrow> int"

definition getIPs :: "ceil_seconds \<Rightarrow> int \<Rightarrow> IPRecord option \<Rightarrow> ip list \<times> int \<times> dns_error option" where
  "getIPs secs now r =
     (case r of
        None \<Rightarrow> ([], 0, Some ErrRecordNotFound)
      | Some rec \<Rightarrow>
          let ttl = secs (ir_Expire rec - now)
          in if ir_RCode rec \<noteq> 0 then ([], ttl, Some (RCodeError (ir_RCode rec)))
             else if ir_IP rec = [] then ([], ttl, Some ErrEmptyResponse)
             else (ir_IP rec, ttl, None))"

definition Fqdn :: "string \<Rightarrow> string" where
  "Fqdn d = (if 0 < length d \<and> HasSuffix d ''.'' then d else d @ ''.'')"

record IPOption =
  IPv4Enable :: bool
  IPv6Enable :: bool
  FakeEnable :: bool

record dns_msg =
  ms_Header :: dns_header
  ms_Questions :: "dns_question list"
  ms_Additionals :: "dns_resource list"

record dnsRequest =
  rq_Type :: u16
  rq_domain :: string
  rq_start :: int
  rq_msg :: "dns_msg option"

text \<open>The EDNS0 record of a request: the client's network, padding, or both. \<open>None\<close> is a panic: an address
  that is neither four nor sixteen bytes long has a nil mask result, and a negative padding no slice.\<close>

definition EDNS0SUBNET :: nat where
  "EDNS0SUBNET = 8"

definition EDNS0PADDING :: nat where
  "EDNS0PADDING = 12"

definition subnet_option :: "byte list \<Rightarrow> (nat \<times> byte list) option" where
  "subnet_option clientIP =
     (if length clientIP = 4 then Some (EDNS0SUBNET, [0, 1, 24, 0] @ take 3 clientIP)
      else if length clientIP = 16 then Some (EDNS0SUBNET, [0, 2, 96, 0] @ take 12 clientIP)
      else None)"

definition genEDNS0Options :: "dns_wire \<Rightarrow> byte list \<Rightarrow> int \<Rightarrow> dns_resource option option" where
  "genEDNS0Options dw clientIP padding =
     (if clientIP = [] \<and> padding = 0 then Some None
      else do {
        opt \<leftarrow> dw_SetEDNS0 dw 1350 65024 True;
        subnet \<leftarrow> (if clientIP \<noteq> [] then map_option (\<lambda>x. [x]) (subnet_option clientIP) else Some []);
        pad \<leftarrow> (if padding = 0 then Some []
                else if padding < 0 then None
                else Some [(EDNS0PADDING, replicate (nat padding) 0)]);
        Some (Some (opt\<lparr>rs_Body := OPTResource (subnet @ pad)\<rparr>))
      })"

definition req_msg :: "string \<Rightarrow> u16 \<Rightarrow> u16 \<Rightarrow> dns_resource option \<Rightarrow> int \<Rightarrow> dnsRequest" where
  "req_msg d t rid reqOpts now =
     \<lparr>rq_Type = t, rq_domain = d, rq_start = now,
      rq_msg = Some \<lparr>ms_Header = \<lparr>dh_ID = rid, dh_Response = False, dh_OpCode = 0, dh_RecursionDesired = True, dh_RCode = 0\<rparr>,
                     ms_Questions = [\<lparr>dq_Name = d, dq_Type = t, dq_Class = ClassINET\<rparr>],
                     ms_Additionals = (case reqOpts of None \<Rightarrow> [] | Some r \<Rightarrow> [r])\<rparr>\<rparr>"

definition buildReqMsgs :: "dns_wire \<Rightarrow> string \<Rightarrow> IPOption \<Rightarrow> (nat \<Rightarrow> u16) \<Rightarrow> dns_resource option \<Rightarrow> int \<Rightarrow>
    dns_error + dnsRequest list" where
  "buildReqMsgs dw d opt ids reqOpts now =
     (if \<not> dw_ValidName dw d then Inl BadName
      else Inr ((if IPv4Enable opt then [req_msg d TypeA (ids 0) reqOpts now] else []) @
                (if IPv6Enable opt then [req_msg d TypeAAAA (ids (if IPv4Enable opt then 1 else 0)) reqOpts now] else [])))"

section \<open>Responses\<close>

definition MaxInt32 :: nat where
  "MaxInt32 = 2 ^ 31 - 1"

type_synonym ttl_state = "nat \<times> bool"

definition includeTTL :: "u32 \<Rightarrow> ttl_state \<Rightarrow> ttl_state" where
  "includeTTL value0 st =
     (let v = (if value0 = 0 then 1 else unat value0); v' = (if MaxInt32 < v then MaxInt32 else v)
      in case st of (ttl, hasTTL) \<Rightarrow> (if \<not> hasTTL \<or> v' < ttl then v' else ttl, True))"

definition cname_of :: "dns_resource \<Rightarrow> string option" where
  "cname_of r = (case rs_Body r of CNAMEResource c \<Rightarrow> Some c | _ \<Rightarrow> None)"

text \<open>The aliases of a message; \<open>None\<close> is the panic of a CNAME record without a CNAME body.\<close>

fun collect_aliases :: "u16 \<Rightarrow> dns_resource list \<Rightarrow> (string, dns_resource) go_map \<Rightarrow>
    (dns_error + (string, dns_resource) go_map) option" where
  "collect_aliases cls [] m = Some (Inr m)"
| "collect_aliases cls (r # rs) m =
     (if rs_Class r \<noteq> cls \<or> rs_Type r \<noteq> TypeCNAME then collect_aliases cls rs m
      else
        let owner = ToLower (rs_Name r)
        in case al_get m owner of
             None \<Rightarrow> collect_aliases cls rs (al_put owner r m)
           | Some previous \<Rightarrow> do {
               a \<leftarrow> cname_of previous;
               b \<leftarrow> cname_of r;
               if \<not> EqualFold a b then Some (Inl ConflictingCNAME) else collect_aliases cls rs (al_put owner r m)
             })"

function chase_aliases :: "(string, dns_resource) go_map \<Rightarrow> string \<Rightarrow> string list \<Rightarrow> ttl_state \<Rightarrow>
    (dns_error + string \<times> ttl_state) option" where
  "chase_aliases m owner visited st =
     (if owner \<in> set visited then Some (Inl CNAMELoop)
      else case al_get m owner of
             None \<Rightarrow> Some (Inr (owner, st))
           | Some alias \<Rightarrow> do {
               c \<leftarrow> cname_of alias;
               chase_aliases m (ToLower c) (owner # visited) (includeTTL (rs_TTL alias) st)
             })"
  by pat_completeness auto
termination
proof (relation "measure (\<lambda>(m, _, visited, _). length (filter (\<lambda>k. k \<notin> set visited) (map fst m)))", goal_cases)
  case (2 m owner visited st r c)
  then have "owner \<in> set (map fst m)" by (force dest: map_of_SomeD)
  then have "length (filter (\<lambda>k. k \<notin> set (owner # visited)) (map fst m)) < length (filter (\<lambda>k. k \<notin> set visited) (map fst m))"
    using 2(1)
  proof (induction m)
    case (Cons p m)
    have "length (filter (\<lambda>k. k \<notin> set (owner # visited)) (map fst m)) \<le> length (filter (\<lambda>k. k \<notin> set visited) (map fst m))"
      by (induction m) auto
    then show ?case using Cons by auto
  qed simp
  then show ?case by simp
qed simp

declare chase_aliases.simps [simp del]

definition body_ip :: "dns_body \<Rightarrow> ip option" where
  "body_ip b =
     (case b of AResource p \<Rightarrow> IPAddress p \<bind> AddrIP | AAAAResource p \<Rightarrow> IPAddress p \<bind> AddrIP | _ \<Rightarrow> None)"

text \<open>An address of four or sixteen bytes has an address value; the nil of any other length would panic.\<close>

fun collect_ips :: "dns_question \<Rightarrow> string \<Rightarrow> dns_resource list \<Rightarrow> ttl_state \<Rightarrow> (ip list \<times> ttl_state) option" where
  "collect_ips q owner [] st = Some ([], st)"
| "collect_ips q owner (r # rs) st =
     (if rs_Class r \<noteq> dq_Class q \<or> rs_Type r \<noteq> dq_Type q \<or> \<not> EqualFold (rs_Name r) owner then collect_ips q owner rs st
      else case rs_Body r of
             CNAMEResource c \<Rightarrow> collect_ips q owner rs st
           | OPTResource os \<Rightarrow> collect_ips q owner rs st
           | OtherResource \<Rightarrow> collect_ips q owner rs st
           | b \<Rightarrow> do {
               p \<leftarrow> body_ip b;
               (ps, st') \<leftarrow> collect_ips q owner rs (includeTTL (rs_TTL r) st);
               Some (p # ps, st')
             })"

definition parseResponseForRequest :: "dns_wire \<Rightarrow> byte list \<Rightarrow> dnsRequest option \<Rightarrow> int \<Rightarrow> (dns_error + IPRecord) option" where
  "parseResponseForRequest dw payload req now =
     (case req \<bind> rq_msg of
        None \<Rightarrow> Some (Inl BadRequest)
      | Some msg \<Rightarrow>
          (case ms_Questions msg of
             [expected] \<Rightarrow>
               (case dw_Start dw payload of
                  None \<Rightarrow> Some (Inl BadHeader)
                | Some header \<Rightarrow>
                    if \<not> dh_Response header then Some (Inl NotAResponse)
                    else if dh_ID header \<noteq> dh_ID (ms_Header msg) then Some (Inl IDMismatch)
                    else if dh_OpCode header \<noteq> dh_OpCode (ms_Header msg) then Some (Inl OpcodeMismatch)
                    else (case dw_Question dw payload 0 of
                            QuestionOk question \<Rightarrow>
                              if \<not> EqualFold (dq_Name question) (dq_Name expected) \<or> dq_Type question \<noteq> dq_Type expected \<or>
                                 dq_Class question \<noteq> dq_Class expected
                              then Some (Inl QuestionMismatch)
                              else if dw_Question dw payload 1 \<noteq> SectionDone then Some (Inl ExtraQuestions)
                              else (case dw_Unpack dw payload of
                                      None \<Rightarrow> Some (Inl BadResponse)
                                    | Some answers \<Rightarrow>
                                        (case collect_aliases (dq_Class expected) answers [] of
                                           None \<Rightarrow> None
                                         | Some (Inl e) \<Rightarrow> Some (Inl e)
                                         | Some (Inr aliases) \<Rightarrow>
                                             (case chase_aliases aliases (ToLower (dq_Name expected)) [] (DefaultTTL, False) of
                                                None \<Rightarrow> None
                                              | Some (Inl e) \<Rightarrow> Some (Inl e)
                                              | Some (Inr (owner, st)) \<Rightarrow> do {
                                                  (ps, st') \<leftarrow> collect_ips expected owner answers st;
                                                  Some (Inr \<lparr>ir_ReqID = dh_ID header, ir_IP = ps,
                                                             ir_Expire = now + int (fst st') * 1000000000, ir_RCode = dh_RCode header\<rparr>)
                                                })))
                          | _ \<Rightarrow> Some (Inl NoQuestion)))
           | _ \<Rightarrow> Some (Inl BadRequest)))"

section \<open>Raw responses\<close>

definition maxWireMessageSize :: nat where
  "maxWireMessageSize = 65535"

definition parseWireQuestions :: "dns_wire \<Rightarrow> byte list \<Rightarrow> (dns_header \<times> dns_question list) option" where
  "parseWireQuestions dw message = do {
     header \<leftarrow> dw_Start dw message;
     questions \<leftarrow> dw_AllQuestions dw message;
     if dw_SkipSections dw message then Some (header, questions) else None
   }"

definition same_question :: "dns_question \<Rightarrow> dns_question \<Rightarrow> bool" where
  "same_question a b \<longleftrightarrow> EqualFold (dq_Name a) (dq_Name b) \<and> dq_Type a = dq_Type b \<and> dq_Class a = dq_Class b"

definition ValidateRawResponse :: "dns_wire \<Rightarrow> byte list \<Rightarrow> byte list \<Rightarrow> dns_error option" where
  "ValidateRawResponse dw query response =
     (if length query < 12 \<or> maxWireMessageSize < length query then Some BadQueryLength
      else if length response < 12 \<or> maxWireMessageSize < length response then Some BadResponseLength
      else case parseWireQuestions dw query of
             None \<Rightarrow> Some BadQuery
           | Some (qh, qs) \<Rightarrow>
               if dh_Response qh then Some QueryIsResponse
               else if qs = [] then Some QueryWithoutQuestion
               else (case parseWireQuestions dw response of
                       None \<Rightarrow> Some BadResponse
                     | Some (rh, rs) \<Rightarrow>
                         if \<not> dh_Response rh \<or> dh_ID rh \<noteq> dh_ID qh \<or> dh_OpCode rh \<noteq> dh_OpCode qh then Some HeaderMismatch
                         else if length rs \<noteq> length qs then Some QuestionMismatch
                         else if list_all2 same_question rs qs then None
                         else Some QuestionMismatch))"

end
