(* ===== verification/DnsMessageProofs.thy ===== *)
theory DnsMessageProofs
  imports DnsMessage
begin

text \<open>
  What a DNS response must be to enter the cache, and which of its records count.
\<close>

section \<open>Aliases\<close>

text \<open>The aliases of a message: the last CNAME record of a name counts, and two records of one name with
  different targets are a conflict. Names are compared without case.\<close>

definition is_alias :: "u16 \<Rightarrow> dns_resource \<Rightarrow> bool" where
  "is_alias cls r \<longleftrightarrow> rs_Class r = cls \<and> rs_Type r = TypeCNAME"

definition alias_of :: "u16 \<Rightarrow> dns_resource list \<Rightarrow> string \<Rightarrow> dns_resource option" where
  "alias_of cls answers k = List.find (\<lambda>r. is_alias cls r \<and> ToLower (rs_Name r) = k) (rev answers)"

definition target_of :: "dns_resource \<Rightarrow> string option" where
  "target_of r = map_option ToLower (cname_of r)"

definition aliases_conflict :: "u16 \<Rightarrow> dns_resource list \<Rightarrow> bool" where
  "aliases_conflict cls answers \<longleftrightarrow> (\<exists>r \<in> set answers. \<exists>r' \<in> set answers. is_alias cls r \<and> is_alias cls r' \<and>
     ToLower (rs_Name r) = ToLower (rs_Name r') \<and> target_of r \<noteq> target_of r')"

text \<open>Following the aliases from a name leads to an end, a name without one.\<close>

inductive alias_path :: "(string \<Rightarrow> dns_resource option) \<Rightarrow> string \<Rightarrow> string \<Rightarrow> dns_resource list \<Rightarrow> bool" for f where
  here: "f name = None \<Longrightarrow> alias_path f name name []"
| follow: "f name = Some r \<Longrightarrow> target_of r = Some c \<Longrightarrow> alias_path f c target rs \<Longrightarrow> alias_path f name target (r # rs)"

inductive_cases alias_pathE: "alias_path f name target rs"

lemma alias_of_snoc:
  "alias_of cls (rs @ [r]) k = (if is_alias cls r \<and> ToLower (rs_Name r) = k then Some r else alias_of cls rs k)"
  by (simp add: alias_of_def)

lemma alias_of_Some: "alias_of cls rs k = Some r \<Longrightarrow> r \<in> set rs \<and> is_alias cls r \<and> ToLower (rs_Name r) = k"
  unfolding alias_of_def find_Some_iff by (metis nth_mem set_rev)

lemma alias_of_None: "alias_of cls rs k = None \<longleftrightarrow> (\<forall>r \<in> set rs. is_alias cls r \<longrightarrow> ToLower (rs_Name r) \<noteq> k)"
  by (auto simp: alias_of_def find_None_iff)

lemma aliases_conflict_mono: "aliases_conflict cls rs \<Longrightarrow> set rs \<subseteq> set rs' \<Longrightarrow> aliases_conflict cls rs'"
  unfolding aliases_conflict_def by blast

lemma aliases_conflict_snoc:
  assumes "\<not> aliases_conflict cls rs"
  shows "aliases_conflict cls (rs @ [r]) \<longleftrightarrow>
    is_alias cls r \<and> (\<exists>p. alias_of cls rs (ToLower (rs_Name r)) = Some p \<and> target_of p \<noteq> target_of r)"
proof
  assume "aliases_conflict cls (rs @ [r])"
  then obtain x where x: "x \<in> set rs" "is_alias cls x" "is_alias cls r" "ToLower (rs_Name x) = ToLower (rs_Name r)" "target_of x \<noteq> target_of r"
    using assms unfolding aliases_conflict_def set_append list.set by (metis Un_iff empty_iff insert_iff)
  have "alias_of cls rs (ToLower (rs_Name r)) \<noteq> None" using x(1,2,4) unfolding alias_of_None by blast
  then obtain p where p: "alias_of cls rs (ToLower (rs_Name r)) = Some p" by blast
  then have "target_of p = target_of x"
    using assms x(1,2,4) alias_of_Some [OF p] unfolding aliases_conflict_def by metis
  then show "is_alias cls r \<and> (\<exists>p. alias_of cls rs (ToLower (rs_Name r)) = Some p \<and> target_of p \<noteq> target_of r)" using p x by auto
next
  assume "is_alias cls r \<and> (\<exists>p. alias_of cls rs (ToLower (rs_Name r)) = Some p \<and> target_of p \<noteq> target_of r)"
  then obtain p where p: "is_alias cls r" "alias_of cls rs (ToLower (rs_Name r)) = Some p" "target_of p \<noteq> target_of r" by blast
  then show "aliases_conflict cls (rs @ [r])" using alias_of_Some [OF p(2)] unfolding aliases_conflict_def by auto
qed

definition aliases_seen :: "u16 \<Rightarrow> dns_resource list \<Rightarrow> (string, dns_resource) go_map \<Rightarrow> bool" where
  "aliases_seen cls seen m \<longleftrightarrow> \<not> aliases_conflict cls seen \<and> (\<forall>k. al_get m k = alias_of cls seen k)"

lemma collect_aliases_spec:
  assumes "aliases_seen cls seen m" "\<forall>r \<in> set (seen @ rs). rs_Type r = TypeCNAME \<longrightarrow> cname_of r \<noteq> None"
  shows "\<exists>m'. collect_aliases cls rs m = Some (if aliases_conflict cls (seen @ rs) then Inl ConflictingCNAME else Inr m') \<and>
    (\<not> aliases_conflict cls (seen @ rs) \<longrightarrow> aliases_seen cls (seen @ rs) m')"
  using assms
proof (induction rs arbitrary: seen m)
  case (Cons r rs)
  have nc: "\<not> aliases_conflict cls seen" and get: "\<And>k. al_get m k = alias_of cls seen k"
    using Cons(2) by (simp_all add: aliases_seen_def)
  have bodies: "\<forall>x \<in> set ((seen @ [r]) @ rs). rs_Type x = TypeCNAME \<longrightarrow> cname_of x \<noteq> None" using Cons(3) by simp
  show ?case
  proof (cases "is_alias cls r")
    case False
    then have "aliases_seen cls (seen @ [r]) m" using nc get by (simp add: aliases_seen_def aliases_conflict_snoc alias_of_snoc)
    from Cons(1) [OF this bodies] False show ?thesis by (auto simp: is_alias_def)
  next
    case True
    let ?k = "ToLower (rs_Name r)"
    have r: "\<not> (rs_Class r \<noteq> cls \<or> rs_Type r \<noteq> TypeCNAME)" using True by (simp add: is_alias_def)
    obtain b where b: "cname_of r = Some b" using Cons(3) True by (auto simp: is_alias_def)
    have go: ?thesis if "\<not> aliases_conflict cls (seen @ [r])" "collect_aliases cls (r # rs) m = collect_aliases cls rs (al_put ?k r m)"
    proof -
      have "aliases_seen cls (seen @ [r]) (al_put ?k r m)"
        using that(1) get True by (simp add: aliases_seen_def al_simps alias_of_snoc)
      from Cons(1) [OF this bodies] show ?thesis unfolding that(2) by simp
    qed
    show ?thesis
    proof (cases "alias_of cls seen ?k")
      case None
      then show ?thesis using nc r get by (intro go) (simp_all add: aliases_conflict_snoc Let_def)
    next
      case (Some p)
      then obtain a where a: "cname_of p = Some a" using alias_of_Some [OF Some] Cons(3) by (auto simp: is_alias_def)
      have eq: "EqualFold a b \<longleftrightarrow> target_of p = target_of r" by (simp add: EqualFold_def target_of_def a b)
      show ?thesis
      proof (cases "EqualFold a b")
        case True
        then show ?thesis using nc r get Some a b eq by (intro go) (simp_all add: aliases_conflict_snoc Let_def)
      next
        case False
        then have "aliases_conflict cls (seen @ [r])" using nc True Some eq by (simp add: aliases_conflict_snoc)
        then have "aliases_conflict cls (seen @ r # rs)" by (rule aliases_conflict_mono) auto
        then show ?thesis using r get Some a b False by (simp add: Let_def)
      qed
    qed
  qed
qed (auto simp: aliases_seen_def)

text \<open>A name that leads back to itself has no end.\<close>

definition alias_step :: "(string \<Rightarrow> dns_resource option) \<Rightarrow> string \<Rightarrow> string \<Rightarrow> bool" where
  "alias_step f a b \<longleftrightarrow> (\<exists>r. f a = Some r \<and> target_of r = Some b)"

lemma alias_path_step: "alias_path f a t rs \<Longrightarrow> alias_step f a b \<Longrightarrow> \<exists>rs'. alias_path f b t rs' \<and> length rs' < length rs"
  by (erule alias_pathE) (auto simp: alias_step_def)

lemma alias_path_steps: "(alias_step f)\<^sup>+\<^sup>+ a b \<Longrightarrow> alias_path f a t rs \<Longrightarrow> \<exists>rs'. alias_path f b t rs' \<and> length rs' < length rs"
proof (induction rule: tranclp_induct)
  case (base b)
  then show ?case using alias_path_step by blast
next
  case (step b c)
  then show ?case using alias_path_step less_trans by metis
qed

lemma alias_loop_no_path:
  assumes "(alias_step f)\<^sup>+\<^sup>+ a a"
  shows "\<not> alias_path f a t rs"
proof (induction "length rs" arbitrary: rs rule: less_induct)
  case less
  then show ?case using alias_path_steps [OF assms] by blast
qed

section \<open>Lifetimes\<close>

definition clamp_ttl :: "u32 \<Rightarrow> nat" where
  "clamp_ttl v = min (max 1 (unat v)) MaxInt32"

lemma includeTTL_spec: "includeTTL v (ttl, has) = (if has then min ttl (clamp_ttl v) else clamp_ttl v, True)"
proof -
  have "v \<noteq> 0 \<Longrightarrow> 1 \<le> unat v" by (simp add: Suc_leI unat_gt_0)
  then show ?thesis by (auto simp: includeTTL_def clamp_ttl_def Let_def MaxInt32_def min_def max_def)
qed

lemma clamp_bounds: "1 \<le> clamp_ttl v \<and> clamp_ttl v \<le> MaxInt32"
  by (simp add: clamp_ttl_def MaxInt32_def)

definition include_all :: "dns_resource list \<Rightarrow> ttl_state \<Rightarrow> ttl_state" where
  "include_all rs = fold (\<lambda>r. includeTTL (rs_TTL r)) rs"

lemma chase_aliases_spec:
  assumes "\<forall>k. al_get m k = f k" "\<forall>k r. f k = Some r \<longrightarrow> cname_of r \<noteq> None" "\<forall>v \<in> set visited. (alias_step f)\<^sup>+\<^sup>+ v owner"
  shows "(\<exists>t rs. alias_path f owner t rs \<and> chase_aliases m owner visited st = Some (Inr (t, include_all rs st))) \<or>
    (\<nexists>t rs. alias_path f owner t rs) \<and> chase_aliases m owner visited st = Some (Inl CNAMELoop)"
  using assms
proof (induction m owner visited st rule: chase_aliases.induct)
  case (1 m owner visited st)
  show ?case
  proof (cases "owner \<in> set visited")
    case True
    then show ?thesis using 1(4) alias_loop_no_path by (subst (2) chase_aliases.simps) auto
  next
    case False
    show ?thesis
    proof (cases "f owner")
      case None
      then have "chase_aliases m owner visited st = Some (Inr (owner, include_all [] st))"
        using False 1(2) by (subst chase_aliases.simps) (simp add: include_all_def)
      then show ?thesis using alias_path.here [of f owner, OF None] by blast
    next
      case (Some r)
      then obtain c where c: "cname_of r = Some c" using 1(3) by blast
      have st: "alias_step f owner (ToLower c)" using Some c by (simp add: alias_step_def target_of_def)
      have get: "al_get m owner = Some r" using 1(2) Some by simp
      have eq: "chase_aliases m owner visited st = chase_aliases m (ToLower c) (owner # visited) (includeTTL (rs_TTL r) st)"
        using False get c by (subst chase_aliases.simps) simp
      have "\<forall>v \<in> set (owner # visited). (alias_step f)\<^sup>+\<^sup>+ v (ToLower c)"
        using 1(4) st by (auto intro: tranclp.intros)
      note ih = 1(1) [OF False get c 1(2,3) this]
      have path: "alias_path f owner t (r # rs)" if "alias_path f (ToLower c) t rs" for t rs
        using that Some c by (intro alias_path.follow) (simp_all add: target_of_def)
      have none: "\<nexists>t rs. alias_path f owner t rs" if "\<nexists>t rs. alias_path f (ToLower c) t rs"
        using that alias_path_step [OF _ st] by blast
      have inc: "include_all rs (includeTTL (rs_TTL r) st) = include_all (r # rs) st" for rs by (simp add: include_all_def)
      show ?thesis using ih path none unfolding eq inc by blast
    qed
  qed
qed

text \<open>The life of a record: the least of the lives of the records used, or the default without any.\<close>

definition life_of :: "dns_resource list \<Rightarrow> nat" where
  "life_of rs = (if rs = [] then DefaultTTL else Min ((\<lambda>r. clamp_ttl (rs_TTL r)) ` set rs))"

lemma include_all_known:
  "include_all rs (t, True) = (Min (insert t ((\<lambda>r. clamp_ttl (rs_TTL r)) ` set rs)), True)"
proof (induction rs arbitrary: t)
  case (Cons r rs)
  have "include_all (r # rs) (t, True) = include_all rs (min t (clamp_ttl (rs_TTL r)), True)"
    by (simp add: include_all_def includeTTL_spec)
  then show ?case unfolding Cons by (cases "rs = []") (simp_all add: min.assoc)
qed (simp add: include_all_def)

lemma include_all_life: "fst (include_all rs (DefaultTTL, False)) = life_of rs"
proof (cases rs)
  case (Cons r rs')
  then have "include_all rs (DefaultTTL, False) = include_all rs' (clamp_ttl (rs_TTL r), True)"
    by (simp add: include_all_def includeTTL_spec)
  then show ?thesis unfolding include_all_known Cons by (simp add: life_of_def)
qed (simp add: include_all_def life_of_def)

section \<open>Addresses\<close>

definition belongs :: "dns_question \<Rightarrow> string \<Rightarrow> dns_resource \<Rightarrow> bool" where
  "belongs q owner r \<longleftrightarrow> rs_Class r = dq_Class q \<and> rs_Type r = dq_Type q \<and> EqualFold (rs_Name r) owner \<and>
     (\<exists>p. rs_Body r = AResource p \<or> rs_Body r = AAAAResource p)"

lemma collect_ips_spec:
  "collect_ips q owner rs st = Some (ps, st') \<Longrightarrow>
   map Some ps = map (\<lambda>r. body_ip (rs_Body r)) (filter (belongs q owner) rs) \<and> st' = include_all (filter (belongs q owner) rs) st"
proof (induction rs arbitrary: st ps)
  case (Cons r rs)
  show ?case
  proof (cases "belongs q owner r")
    case False
    then have "collect_ips q owner rs st = Some (ps, st')" using Cons(2) by (auto simp: belongs_def split: if_splits dns_body.splits)
    from Cons(1) [OF this] False show ?thesis by simp
  next
    case True
    then obtain p ps' where p: "body_ip (rs_Body r) = Some p" "collect_ips q owner rs (includeTTL (rs_TTL r) st) = Some (ps', st')" "ps = p # ps'"
      using Cons(2) by (auto simp: belongs_def bind_eq_Some_conv)
    from Cons(1) [OF p(2)] True p show ?thesis by (simp add: include_all_def)
  qed
qed (simp add: include_all_def)

lemma collect_ips_total: "\<forall>r \<in> set rs. belongs q owner r \<longrightarrow> body_ip (rs_Body r) \<noteq> None \<Longrightarrow> \<exists>res. collect_ips q owner rs st = Some res"
proof (induction rs arbitrary: st)
  case (Cons r rs)
  then obtain ps st' where "collect_ips q owner rs (includeTTL (rs_TTL r) st) = Some (ps, st')" by fastforce
  then show ?case using Cons by (auto simp: belongs_def split: dns_body.splits)
qed simp

section \<open>Properties\<close>

text \<open>What the package promises of a message that unpacks: the body of a record fits its type, and addresses
  have their length.\<close>

definition answers_ok :: "dns_resource list \<Rightarrow> bool" where
  "answers_ok rs \<longleftrightarrow> (\<forall>r \<in> set rs. (rs_Type r = TypeCNAME \<longrightarrow> cname_of r \<noteq> None) \<and>
     (\<forall>p. rs_Body r = AResource p \<longrightarrow> length p = 4) \<and> (\<forall>p. rs_Body r = AAAAResource p \<longrightarrow> length p = 16))"

lemma IPAddress_total: "length p = 4 \<or> length p = 16 \<Longrightarrow> IPAddress p \<bind> AddrIP \<noteq> None"
  by (auto simp: IPAddress_def Let_def split: option.splits if_splits)

lemma answers_ok_ips: "answers_ok rs \<Longrightarrow> r \<in> set rs \<Longrightarrow> belongs q owner r \<Longrightarrow> body_ip (rs_Body r) \<noteq> None"
  using IPAddress_total by (auto simp: answers_ok_def belongs_def body_ip_def)

text \<open>The conditions under which a response is looked at.\<close>

definition response_for :: "dns_wire \<Rightarrow> byte list \<Rightarrow> dns_msg \<Rightarrow> dns_question \<Rightarrow> dns_header \<Rightarrow> bool" where
  "response_for dw payload msg q header \<longleftrightarrow> ms_Questions msg = [q] \<and> dw_Start dw payload = Some header \<and> dh_Response header \<and>
     dh_ID header = dh_ID (ms_Header msg) \<and> dh_OpCode header = dh_OpCode (ms_Header msg) \<and>
     (\<exists>question. dw_Question dw payload 0 = QuestionOk question \<and> same_question question q) \<and> dw_Question dw payload 1 = SectionDone"

lemma parse_rejects:
  assumes "\<not> (\<exists>rq msg q header. req = Some rq \<and> rq_msg rq = Some msg \<and> response_for dw payload msg q header)"
  shows "\<exists>e. parseResponseForRequest dw payload req now = Some (Inl e)"
proof (cases "\<exists>rq msg q header. req = Some rq \<and> rq_msg rq = Some msg \<and> ms_Questions msg = [q] \<and> dw_Start dw payload = Some header")
  case False
  then show ?thesis by (cases req) (auto simp: parseResponseForRequest_def split: option.split list.split)
next
  case True
  then obtain rq msg q header where h: "req = Some rq" "rq_msg rq = Some msg" "ms_Questions msg = [q]" "dw_Start dw payload = Some header" by blast
  then have "\<not> response_for dw payload msg q header" using assms by blast
  then show ?thesis using h by (cases "dw_Question dw payload 0") (auto simp: parseResponseForRequest_def response_for_def same_question_def)
qed

text \<open>The second half of the check: aliases, chain and addresses of the answers of a message.\<close>

definition resolve_answers :: "dns_question \<Rightarrow> dns_header \<Rightarrow> dns_resource list \<Rightarrow> int \<Rightarrow> (dns_error + IPRecord) option" where
  "resolve_answers q header answers now = do {
     res \<leftarrow> collect_aliases (dq_Class q) answers [];
     case res of
       Inl e \<Rightarrow> Some (Inl e)
     | Inr aliases \<Rightarrow> (case chase_aliases aliases (ToLower (dq_Name q)) [] (DefaultTTL, False) of
          None \<Rightarrow> None
        | Some (Inl e) \<Rightarrow> Some (Inl e)
        | Some (Inr (owner, st)) \<Rightarrow> collect_ips q owner answers st \<bind> (\<lambda>(ps, st').
            Some (Inr \<lparr>ir_ReqID = dh_ID header, ir_IP = ps, ir_Expire = now + int (fst st') * 1000000000, ir_RCode = dh_RCode header\<rparr>)))
   }"

lemma parse_resolves:
  assumes "req = Some rq" "rq_msg rq = Some msg" "response_for dw payload msg q header" "dw_Unpack dw payload = Some answers"
  shows "parseResponseForRequest dw payload req now = resolve_answers q header answers now"
proof -
  obtain question where "dw_Question dw payload 0 = QuestionOk question" "same_question question q"
    using assms(3) by (auto simp: response_for_def)
  then show ?thesis using assms
    by (cases "collect_aliases (dq_Class q) answers []")
      (simp_all add: parseResponseForRequest_def response_for_def same_question_def resolve_answers_def)
qed

text \<open>What the answers of a message give: an error if two aliases of a name differ or if the aliases of the name
  asked for run in a circle, and else a record. It holds the addresses of the records of the question's type
  and class that belong to the name at the end of the chain, in order, and lives as long as the record with the
  least time to live among those of the chain and of the addresses.\<close>

definition record_of_answers :: "dns_question \<Rightarrow> dns_header \<Rightarrow> dns_resource list \<Rightarrow> int \<Rightarrow> string \<Rightarrow> dns_resource list \<Rightarrow> IPRecord \<Rightarrow> bool" where
  "record_of_answers q header answers now owner chain rec \<longleftrightarrow>
     ir_ReqID rec = dh_ID header \<and> ir_RCode rec = dh_RCode header \<and>
     map Some (ir_IP rec) = map (\<lambda>r. body_ip (rs_Body r)) (filter (belongs q owner) answers) \<and>
     ir_Expire rec = now + int (life_of (chain @ filter (belongs q owner) answers)) * 1000000000"

definition outcome_of_answers :: "dns_question \<Rightarrow> dns_header \<Rightarrow> dns_resource list \<Rightarrow> int \<Rightarrow> dns_error + IPRecord \<Rightarrow> bool" where
  "outcome_of_answers q header answers now res \<longleftrightarrow>
     (let path = alias_path (alias_of (dq_Class q) answers) (ToLower (dq_Name q))
      in if aliases_conflict (dq_Class q) answers then res = Inl ConflictingCNAME
         else (\<exists>owner chain rec. path owner chain \<and> res = Inr rec \<and> record_of_answers q header answers now owner chain rec) \<or>
           (\<nexists>owner chain. path owner chain) \<and> res = Inl CNAMELoop)"

text \<open>At most one chain starts at a name, so that the outcome is determined.\<close>

lemma alias_path_unique: "alias_path f n t rs \<Longrightarrow> alias_path f n t' rs' \<Longrightarrow> t = t' \<and> rs = rs'"
proof (induction arbitrary: t' rs' rule: alias_path.induct)
  case (follow name r c target rs)
  from follow(5) obtain rs1 where "rs' = r # rs1" "alias_path f c t' rs1"
    by (cases rule: alias_path.cases) (use follow(1,2) in simp_all)
  then show ?case using follow(4) by blast
next
  case (here name)
  from here(2) show ?case by (cases rule: alias_path.cases) (use here(1) in simp_all)
qed

lemma resolve_answers_outcome:
  assumes ok: "answers_ok answers"
  shows "\<exists>res. resolve_answers q header answers now = Some res \<and> outcome_of_answers q header answers now res"
proof -
  let ?cls = "dq_Class q" and ?f = "alias_of (dq_Class q) answers"
  have bodies: "\<forall>r \<in> set ([] @ answers). rs_Type r = TypeCNAME \<longrightarrow> cname_of r \<noteq> None" using ok by (simp add: answers_ok_def)
  have "aliases_seen ?cls [] []" by (simp add: aliases_seen_def aliases_conflict_def alias_of_def)
  from collect_aliases_spec [OF this bodies] obtain m where
    m: "collect_aliases ?cls answers [] = Some (if aliases_conflict ?cls answers then Inl ConflictingCNAME else Inr m)"
       "\<not> aliases_conflict ?cls answers \<longrightarrow> aliases_seen ?cls answers m" by auto
  show ?thesis
  proof (cases "aliases_conflict ?cls answers")
    case True
    then show ?thesis using m(1) by (simp add: resolve_answers_def outcome_of_answers_def Let_def)
  next
    case False
    then have get: "\<forall>k. al_get m k = ?f k" using m(2) by (simp add: aliases_seen_def)
    have names: "\<forall>k r. ?f k = Some r \<longrightarrow> cname_of r \<noteq> None" using alias_of_Some ok unfolding answers_ok_def is_alias_def by blast
    have "\<forall>v \<in> set []. (alias_step ?f)\<^sup>+\<^sup>+ v (ToLower (dq_Name q))" by simp
    note ch = chase_aliases_spec [OF get names this, of "(DefaultTTL, False)"]
    from ch show ?thesis
    proof
      assume "\<exists>t rs. alias_path ?f (ToLower (dq_Name q)) t rs \<and>
        chase_aliases m (ToLower (dq_Name q)) [] (DefaultTTL, False) = Some (Inr (t, include_all rs (DefaultTTL, False)))"
      then obtain owner chain where c: "alias_path ?f (ToLower (dq_Name q)) owner chain"
        "chase_aliases m (ToLower (dq_Name q)) [] (DefaultTTL, False) = Some (Inr (owner, include_all chain (DefaultTTL, False)))" by blast
      obtain ps st where ips: "collect_ips q owner answers (include_all chain (DefaultTTL, False)) = Some (ps, st)"
        using collect_ips_total [of answers q owner] answers_ok_ips [OF ok] by (metis prod.exhaust)
      have st: "st = include_all (chain @ filter (belongs q owner) answers) (DefaultTTL, False)"
        using collect_ips_spec [OF ips] by (simp add: include_all_def)
      let ?rec = "\<lparr>ir_ReqID = dh_ID header, ir_IP = ps, ir_Expire = now + int (fst st) * 1000000000, ir_RCode = dh_RCode header\<rparr>"
      have "record_of_answers q header answers now owner chain ?rec"
        using collect_ips_spec [OF ips, THEN conjunct1] include_all_life [of "chain @ filter (belongs q owner) answers"]
        by (simp add: record_of_answers_def st)
      moreover have "resolve_answers q header answers now = Some (Inr ?rec)" using m(1) False c(2) ips by (simp add: resolve_answers_def)
      ultimately show ?thesis using False c(1) unfolding outcome_of_answers_def Let_def by auto
    next
      assume "(\<nexists>t rs. alias_path ?f (ToLower (dq_Name q)) t rs) \<and>
        chase_aliases m (ToLower (dq_Name q)) [] (DefaultTTL, False) = Some (Inl CNAMELoop)"
      then show ?thesis using m(1) False by (simp add: resolve_answers_def outcome_of_answers_def Let_def)
    qed
  qed
qed

text \<open>C35. A response is parsed without a panic. One that does not answer the request, with the same identifier,
  operation and question, or that does not unpack, is an error. For one that does, the outcome is the one the
  answers mean: conflicting aliases and circles are errors; otherwise the record holds exactly the addresses of
  the question's type and class at the end of the chain of aliases, in order, and expires after the least time to
  live, at least a second, of the records of the chain and of the addresses, or after the default time when
  there are none. The package is assumed to give bodies that fit their types.\<close>

theorem dns_response_exact:
  assumes "\<And>rs. dw_Unpack dw payload = Some rs \<Longrightarrow> answers_ok rs"
  shows "\<exists>res. parseResponseForRequest dw payload req now = Some res \<and>
    (if \<exists>rq msg q header answers. req = Some rq \<and> rq_msg rq = Some msg \<and> response_for dw payload msg q header \<and> dw_Unpack dw payload = Some answers
     then \<exists>rq msg q header answers. req = Some rq \<and> rq_msg rq = Some msg \<and> response_for dw payload msg q header \<and>
       dw_Unpack dw payload = Some answers \<and> outcome_of_answers q header answers now res
     else \<exists>e. res = Inl e)"
proof (cases "\<exists>rq msg q header. req = Some rq \<and> rq_msg rq = Some msg \<and> response_for dw payload msg q header")
  case False
  moreover obtain e where "parseResponseForRequest dw payload req now = Some (Inl e)" using parse_rejects [OF False] by blast
  ultimately show ?thesis by auto
next
  case True
  then obtain rq msg q header where h: "req = Some rq" "rq_msg rq = Some msg" "response_for dw payload msg q header" by blast
  show ?thesis
  proof (cases "dw_Unpack dw payload")
    case None
    moreover have "parseResponseForRequest dw payload req now = Some (Inl BadResponse)"
      using h None by (auto simp: parseResponseForRequest_def response_for_def same_question_def)
    ultimately show ?thesis by simp
  next
    case (Some answers)
    obtain res where "parseResponseForRequest dw payload req now = Some res" "outcome_of_answers q header answers now res"
      using resolve_answers_outcome [OF assms [OF Some], of q header now] parse_resolves [OF h Some, of now] by auto
    then show ?thesis using h Some by auto
  qed
qed

definition ex_wire :: dns_wire where
  "ex_wire = \<lparr>dw_Start = (\<lambda>p. Some \<lparr>dh_ID = 7, dh_Response = True, dh_OpCode = 0, dh_RecursionDesired = True, dh_RCode = 0\<rparr>),
     dw_Question = (\<lambda>p n. if n = 0 then QuestionOk \<lparr>dq_Name = ''a.'', dq_Type = TypeA, dq_Class = ClassINET\<rparr> else SectionDone),
     dw_Unpack = (\<lambda>p. Some [\<lparr>rs_Name = ''a.'', rs_Type = TypeCNAME, rs_Class = ClassINET, rs_TTL = 60, rs_Body = CNAMEResource ''b.''\<rparr>,
       \<lparr>rs_Name = ''b.'', rs_Type = TypeA, rs_Class = ClassINET, rs_TTL = 30, rs_Body = AResource [10, 0, 0, 1]\<rparr>]),
     dw_AllQuestions = (\<lambda>p. None), dw_SkipSections = (\<lambda>p. True), dw_ValidName = (\<lambda>d. True),
     dw_SetEDNS0 = (\<lambda>n c k. Some \<lparr>rs_Name = ''.'', rs_Type = 41, rs_Class = of_nat n, rs_TTL = 0, rs_Body = OtherResource\<rparr>)\<rparr>"

lemma ex_lower: "ToLower ''a.'' = ''a.''" "ToLower ''b.'' = ''b.''"
  by (simp_all add: ToLower_def lower_char_def is_upper_def less_eq_char_def)

lemma ex_response: "\<exists>rec. parseResponseForRequest ex_wire [] (Some (req_msg ''a.'' TypeA 7 None 0)) 0 = Some (Inr rec)"
  by (simp add: parseResponseForRequest_def ex_wire_def req_msg_def Let_def cname_of_def body_ip_def IPAddress_def EqualFold_def ex_lower
      chase_aliases.simps)

theorem dns_response_exact_witness:
  "\<exists>rec q answers. parseResponseForRequest ex_wire [] (Some (req_msg ''a.'' TypeA 7 None 0)) 0 = Some (Inr rec) \<and>
     dw_Unpack ex_wire [] = Some answers \<and> outcome_of_answers q \<lparr>dh_ID = 7, dh_Response = True, dh_OpCode = 0, dh_RecursionDesired = True, dh_RCode = 0\<rparr>
       answers 0 (Inr rec)"
proof -
  have "answers_ok rs" if "dw_Unpack ex_wire [] = Some rs" for rs
    using that by (auto simp: ex_wire_def answers_ok_def cname_of_def)
  note t = dns_response_exact [of ex_wire "[]" "Some (req_msg ''a.'' TypeA 7 None 0)" 0, OF this]
  obtain rec where p: "parseResponseForRequest ex_wire [] (Some (req_msg ''a.'' TypeA 7 None 0)) 0 = Some (Inr rec)" using ex_response by blast
  from t p obtain q header answers msg where o1: "response_for ex_wire [] msg q header" "dw_Unpack ex_wire [] = Some answers"
      "outcome_of_answers q header answers 0 (Inr rec)" by (auto split: if_splits)
  then have "header = \<lparr>dh_ID = 7, dh_Response = True, dh_OpCode = 0, dh_RecursionDesired = True, dh_RCode = 0\<rparr>"
    by (simp add: response_for_def ex_wire_def)
  then show ?thesis using p o1 by blast
qed

section \<open>EDNS0\<close>

text \<open>An EDNS0 record tells of a client no more than its network: 24 bits of an IPv4 address and 96 of an IPv6
  address. It is built without a panic for addresses of either length.\<close>

lemma edns_subnet_prefix:
  assumes "length a = length b" "take (if length a = 4 then 3 else 12) a = take (if length a = 4 then 3 else 12) b"
  shows "genEDNS0Options dw a padding = genEDNS0Options dw b padding"
  using assms by (cases "a = []") (auto simp: genEDNS0Options_def subnet_option_def)

lemma edns_no_panic:
  assumes "length a \<in> {0, 4, 16}" "0 \<le> padding" "dw_SetEDNS0 dw 1350 65024 True \<noteq> None"
  shows "genEDNS0Options dw a padding \<noteq> None"
  using assms by (auto simp: genEDNS0Options_def subnet_option_def)

end
