(* ===== verification/DnsCache.thy ===== *)
theory DnsCache
  imports DnsMessage
begin

text \<open>
  \<open>app/dns/cache_controller.go\<close> and \<open>nameserver_cached.go\<close>: the cache of a name server with its cleanup and
  the migration that shrinks it in the background, and the query that answers from it. A migration is the list
  of entries its goroutine has still to move. The timer that starts cleanups, the single flight that joins
  fetches and the channels of subscribers are left out; what is published is a result.
\<close>

section \<open>State\<close>

record dns_record =
  rc_A :: "IPRecord option"
  rc_AAAA :: "IPRecord option"

type_synonym dns_records = "(string, dns_record) go_map"

record CacheController =
  cc_disableCache :: bool
  cc_serveStale :: bool
  cc_serveExpiredTTL :: int
  cc_ips :: dns_records
  cc_dirtyips :: "dns_records option"
  cc_highWatermark :: nat
  cc_closed :: bool
  cc_migration :: "(string \<times> dns_record) list"

definition minSizeForEmptyRebuild :: nat where
  "minSizeForEmptyRebuild = 512"

definition shrinkAbsoluteThreshold :: nat where
  "shrinkAbsoluteThreshold = 10240"

definition migrationBatchSize :: nat where
  "migrationBatchSize = 4096"

text \<open>\<open>-int32(serveExpiredTTL)\<close>, a conversion that wraps around.\<close>

definition NewCacheController :: "bool \<Rightarrow> bool \<Rightarrow> u32 \<Rightarrow> CacheController" where
  "NewCacheController disableCache serveStale ttl =
     \<lparr>cc_disableCache = disableCache, cc_serveStale = serveStale, cc_serveExpiredTTL = sint (- ttl), cc_ips = [],
      cc_dirtyips = None, cc_highWatermark = 0, cc_closed = False, cc_migration = []\<rparr>"

definition cache_Close :: "CacheController \<Rightarrow> CacheController" where
  "cache_Close c = c\<lparr>cc_closed := True\<rparr>"

section \<open>Cleanup\<close>

definition cleanup_time :: "CacheController \<Rightarrow> int \<Rightarrow> int" where
  "cleanup_time c now =
     (if cc_serveStale c \<and> cc_serveExpiredTTL c \<noteq> 0 then now + cc_serveExpiredTTL c * 1000000000 else now)"

definition expired :: "int \<Rightarrow> IPRecord option \<Rightarrow> bool" where
  "expired now r = (case r of None \<Rightarrow> False | Some x \<Rightarrow> ir_Expire x < now)"

definition collectExpiredKeys :: "CacheController \<Rightarrow> int \<Rightarrow> string list" where
  "collectExpiredKeys c now =
     (if cc_ips c = [] \<or> cc_dirtyips c \<noteq> None then []
      else map fst (filter (\<lambda>(d, r). expired (cleanup_time c now) (rc_A r) \<or> expired (cleanup_time c now) (rc_AAAA r)) (cc_ips c)))"

definition purge :: "int \<Rightarrow> dns_record \<Rightarrow> dns_record" where
  "purge now r =
     \<lparr>rc_A = (if expired now (rc_A r) then None else rc_A r), rc_AAAA = (if expired now (rc_AAAA r) then None else rc_AAAA r)\<rparr>"

fun expire_keys :: "int \<Rightarrow> string list \<Rightarrow> dns_records \<Rightarrow> dns_records" where
  "expire_keys now [] m = m"
| "expire_keys now (d # ds) m =
     expire_keys now ds
       (case al_get m d of
          None \<Rightarrow> m
        | Some r \<Rightarrow> if rc_A (purge now r) = None \<and> rc_AAAA (purge now r) = None then al_del d m else al_put d (purge now r) m)"

text \<open>The comparison with 65\% of the watermark is one of floating-point numbers, and a parameter. A map is
  visited in any order, so the migration gets its entries in an order of the environment.\<close>

record cache_env =
  ce_reduced :: "nat \<Rightarrow> nat \<Rightarrow> bool"
  ce_order :: "(string \<times> dns_record) list \<Rightarrow> (string \<times> dns_record) list"

definition writeAndShrink :: "cache_env \<Rightarrow> string list \<Rightarrow> int \<Rightarrow> CacheController \<Rightarrow> CacheController" where
  "writeAndShrink env expiredKeys now c =
     (if cc_dirtyips c \<noteq> None then c
      else
        let high = max (length (cc_ips c)) (cc_highWatermark c);
            ips' = expire_keys (cleanup_time c now) expiredKeys (cc_ips c);
            lenAfter = length ips';
            c1 = c\<lparr>cc_ips := ips', cc_highWatermark := high\<rparr>
        in if lenAfter = 0 then
             (if minSizeForEmptyRebuild \<le> high then c1\<lparr>cc_ips := [], cc_highWatermark := 0\<rparr> else c1)
           else if lenAfter + shrinkAbsoluteThreshold < high \<and> ce_reduced env (high - lenAfter) high then
             c1\<lparr>cc_dirtyips := Some ips', cc_ips := [], cc_highWatermark := lenAfter, cc_migration := ce_order env ips'\<rparr>
           else c1)"

definition CacheCleanup :: "cache_env \<Rightarrow> int \<Rightarrow> int \<Rightarrow> CacheController \<Rightarrow> CacheController" where
  "CacheCleanup env now now' c =
     (case collectExpiredKeys c now of [] \<Rightarrow> c | ks \<Rightarrow> writeAndShrink env ks now' c)"

section \<open>Migration\<close>

definition flush_entry :: "string \<times> dns_record \<Rightarrow> dns_records \<Rightarrow> dns_records" where
  "flush_entry dirty m =
     (case al_get m (fst dirty) of
        Some cur \<Rightarrow>
          al_put (fst dirty)
            \<lparr>rc_A = (if rc_A cur = None then rc_A (snd dirty) else rc_A cur),
             rc_AAAA = (if rc_AAAA cur = None then rc_AAAA (snd dirty) else rc_AAAA cur)\<rparr> m
      | None \<Rightarrow> al_put (fst dirty) (snd dirty) m)"

definition flush :: "(string \<times> dns_record) list \<Rightarrow> CacheController \<Rightarrow> CacheController" where
  "flush batch c = c\<lparr>cc_ips := fold flush_entry batch (cc_ips c)\<rparr>"

text \<open>What the goroutine does between two releases of the lock: a batch, or the end.\<close>

definition migrate_step :: "CacheController \<Rightarrow> CacheController" where
  "migrate_step c =
     (if cc_dirtyips c = None then c
      else case cc_migration c of
             [] \<Rightarrow> c\<lparr>cc_dirtyips := None\<rparr>
           | _ \<Rightarrow> (flush (take migrationBatchSize (cc_migration c)) c)\<lparr>cc_migration := drop migrationBatchSize (cc_migration c)\<rparr>)"

section \<open>Updates and lookups\<close>

definition updateRecord :: "ceil_seconds \<Rightarrow> int \<Rightarrow> dnsRequest \<Rightarrow> IPRecord \<Rightarrow> CacheController \<Rightarrow>
    (string \<times> IPRecord) list \<times> CacheController" where
  "updateRecord secs now req rep c =
     (if cc_closed c then ([], c)
      else
        let d = rq_domain req;
            first = (if rq_Type req = TypeA then [(d @ ''4'', rep)] else if rq_Type req = TypeAAAA then [(d @ ''6'', rep)] else [])
        in if cc_disableCache c then (first, c)
           else
             let oldRec = al_get (cc_ips c) d;
                 dirtyRec = (case cc_dirtyips c of None \<Rightarrow> None | Some m \<Rightarrow> al_get m d);
                 other = (\<lambda>f. (case oldRec \<bind> f of
                           Some x \<Rightarrow> (Some x, Some x)
                         | None \<Rightarrow> (case dirtyRec \<bind> f of Some x \<Rightarrow> (None, Some x) | None \<Rightarrow> (None, None))));
                 (newRec, pubRecord, suffix) =
                   (if rq_Type req = TypeA then
                      (case other rc_AAAA of (keep, p) \<Rightarrow> (\<lparr>rc_A = Some rep, rc_AAAA = keep\<rparr>, p, ''6''))
                    else if rq_Type req = TypeAAAA then
                      (case other rc_A of (keep, p) \<Rightarrow> (\<lparr>rc_A = keep, rc_AAAA = Some rep\<rparr>, p, ''4''))
                    else (\<lparr>rc_A = None, rc_AAAA = None\<rparr>, None, []))
             in (first @
                 (case pubRecord of
                    None \<Rightarrow> []
                  | Some r \<Rightarrow> (case getIPs secs now (Some r) of
                                 (_, ttl, e) \<Rightarrow> if 0 < ttl \<and> e \<noteq> Some ErrRecordNotFound then [(d @ suffix, r)] else [])),
                 c\<lparr>cc_ips := al_put d newRec (cc_ips c)\<rparr>))"

definition findRecords :: "CacheController \<Rightarrow> string \<Rightarrow> dns_record option" where
  "findRecords c d =
     (case al_get (cc_ips c) d of
        Some r \<Rightarrow> Some r
      | None \<Rightarrow> (case cc_dirtyips c of None \<Rightarrow> None | Some m \<Rightarrow> al_get m d))"

section \<open>Queries\<close>

text \<open>\<open>errors.Is\<close> on the errors of a lookup: the errors of records wrap nothing and a combined error has no
  \<open>Unwrap\<close>; what a transport error wraps is a parameter.\<close>

type_synonym err_is = "string \<Rightarrow> dns_error \<Rightarrow> bool"

definition Combine :: "dns_error option list \<Rightarrow> dns_error option" where
  "Combine es = (case filter (\<lambda>e. e \<noteq> None) es of [] \<Rightarrow> None | xs \<Rightarrow> Some (Combined (map the xs)))"

fun errors_Is :: "err_is \<Rightarrow> dns_error \<Rightarrow> dns_error \<Rightarrow> bool" where
  "errors_Is wraps (Combined es) t = False"
| "errors_Is wraps (TransportError s) t = (t = TransportError s \<or> wraps s t)"
| "errors_Is wraps (LookupFailed d e) t = (t = LookupFailed d e \<or> errors_Is wraps e t)"
| "errors_Is wraps e t = (e = t)"

definition is_error :: "err_is \<Rightarrow> dns_error option \<Rightarrow> dns_error \<Rightarrow> bool" where
  "is_error wraps e t = (case e of None \<Rightarrow> False | Some x \<Rightarrow> errors_Is wraps x t)"

type_synonym lookup_result = "ip list \<times> int \<times> dns_error option"

definition merge_family :: "ceil_seconds \<Rightarrow> int \<Rightarrow> IPRecord option \<Rightarrow> ip list \<times> int \<times> dns_error option list \<Rightarrow>
    ip list \<times> int \<times> dns_error option list" where
  "merge_family secs now rec acc =
     (case acc of (allIPs, rTTL, errs) \<Rightarrow>
        case getIPs secs now rec of
          (ps, ttl, e) \<Rightarrow>
            (let rTTL' = (if rec \<noteq> None \<and> ttl < rTTL then ttl else rTTL)
             in if ps \<noteq> [] then (allIPs @ ps, rTTL', errs) else (allIPs, rTTL', errs @ [e])))"

definition merge_single :: "err_is \<Rightarrow> ceil_seconds \<Rightarrow> int \<Rightarrow> IPRecord option \<Rightarrow> dns_error option list \<Rightarrow> lookup_result" where
  "merge_single wraps secs now rec errs =
     (case getIPs secs now rec of
        (ps, ttl, e) \<Rightarrow> if is_error wraps e ErrRecordNotFound \<and> errs \<noteq> [] then ([], ttl, Combine errs) else (ps, ttl, e))"

definition merge :: "err_is \<Rightarrow> ceil_seconds \<Rightarrow> int \<Rightarrow> IPOption \<Rightarrow> IPRecord option \<Rightarrow> IPRecord option \<Rightarrow> dns_error option list \<Rightarrow> lookup_result" where
  "merge wraps secs now opt rec4 rec6 errs =
     (if IPv4Enable opt \<and> \<not> IPv6Enable opt then merge_single wraps secs now rec4 errs
      else if IPv6Enable opt \<and> \<not> IPv4Enable opt then merge_single wraps secs now rec6 errs
      else
        case (if IPv4Enable opt then merge_family secs now rec6 (merge_family secs now rec4 ([], int DefaultTTL, errs)) else ([], int DefaultTTL, errs)) of
          (allIPs, rTTL, errs') \<Rightarrow>
            if allIPs \<noteq> [] then (allIPs, rTTL, None)
            else (case errs' of
                    [e1, Some e2] \<Rightarrow> if is_error wraps e1 e2 then ([], rTTL, e1) else ([], rTTL, Combine errs')
                  | [None, None] \<Rightarrow> ([], rTTL, None)
                  | _ \<Rightarrow> ([], rTTL, Combine errs')))"

text \<open>\<open>doFetch\<close> once the subscriptions of the requested families have answered: with a record, or with the error of
  the transport, the context or the closed cache.\<close>

datatype fetch_event = GotRecord IPRecord | GotError dns_error

definition onEvent :: "bool \<Rightarrow> fetch_event \<Rightarrow> IPRecord option \<times> dns_error option" where
  "onEvent subscribed ev =
     (if \<not> subscribed then (None, None) else case ev of GotRecord r \<Rightarrow> (Some r, None) | GotError e \<Rightarrow> (None, Some e))"

definition doFetch :: "err_is \<Rightarrow> ceil_seconds \<Rightarrow> int \<Rightarrow> IPOption \<Rightarrow> fetch_event \<Rightarrow> fetch_event \<Rightarrow> lookup_result" where
  "doFetch wraps secs now opt ev4 ev6 =
     (case (onEvent (IPv4Enable opt) ev4, onEvent (IPv6Enable opt) ev6) of
        ((rec4, err4), (rec6, err6)) \<Rightarrow>
          let errs = filter (\<lambda>e. e \<noteq> None) [err4, err6]
          in case merge wraps secs now opt rec4 rec6 errs of
               (ps, ttl, e) \<Rightarrow>
                 (ps, if 0 < ttl then ttl else if ttl = 0 \<and> is_error wraps e ErrRecordNotFound then 0 else 1, e))"

text \<open>The key under which fetches that run at the same time are joined.\<close>

definition fetch_key :: "string \<Rightarrow> IPOption \<Rightarrow> string" where
  "fetch_key fqdn opt =
     (if IPv4Enable opt \<and> IPv6Enable opt then fqdn @ ''46''
      else if IPv4Enable opt then fqdn @ ''4''
      else if IPv6Enable opt then fqdn @ ''6''
      else fqdn)"

datatype query_source = FromCache | FromStale | FromServer | FromNothing

text \<open>\<open>queryIP\<close>: the answer and where it came from; a stale answer also starts a fetch in the background. The
  fetch is a parameter.\<close>

definition queryIP :: "err_is \<Rightarrow> ceil_seconds \<Rightarrow> int \<Rightarrow> (string \<Rightarrow> IPOption \<Rightarrow> lookup_result) \<Rightarrow> CacheController \<Rightarrow> string \<Rightarrow> IPOption \<Rightarrow>
    lookup_result \<times> query_source" where
  "queryIP wraps secs now fetch c d opt =
     (let fqdn = Fqdn d
      in if cc_closed c then (([], 0, Some ErrClosed), FromNothing)
         else if cc_disableCache c then (fetch fqdn opt, FromServer)
         else (case findRecords c fqdn of
                 None \<Rightarrow> (fetch fqdn opt, FromServer)
               | Some rec \<Rightarrow>
                   if IPv4Enable opt \<and> rc_A rec = None \<or> IPv6Enable opt \<and> rc_AAAA rec = None then (fetch fqdn opt, FromServer)
                   else (case merge wraps secs now opt (rc_A rec) (rc_AAAA rec) [] of
                           (ps, ttl, e) \<Rightarrow>
                             if is_error wraps e ErrRecordNotFound then (fetch fqdn opt, FromServer)
                             else if 0 < ttl then ((ps, ttl, e), FromCache)
                             else if cc_serveStale c \<and> (cc_serveExpiredTTL c = 0 \<or> cc_serveExpiredTTL c < ttl) then ((ps, 1, e), FromStale)
                             else (fetch fqdn opt, FromServer))))"

section \<open>Steps\<close>

text \<open>The operations that take the lock, in any order: answers arrive, a cleanup writes with keys that were
  collected before, the migration goes on, and the cache is closed.\<close>

inductive cache_step :: "cache_env \<Rightarrow> CacheController \<Rightarrow> CacheController \<Rightarrow> bool" for env where
  update: "snd (updateRecord secs now req rep c) = c' \<Longrightarrow> rq_Type req \<in> {TypeA, TypeAAAA} \<Longrightarrow> cache_step env c c'"
| cleanup: "cache_step env c (writeAndShrink env ks now c)"
| migration: "cache_step env c (migrate_step c)"
| close: "cache_step env c (cache_Close c)"

inductive cache_reachable :: "cache_env \<Rightarrow> CacheController \<Rightarrow> bool" for env where
  new: "cache_reachable env (NewCacheController disableCache serveStale ttl)"
| step: "cache_reachable env c \<Longrightarrow> cache_step env c c' \<Longrightarrow> cache_reachable env c'"

end
