(* ===== verification/DnsCacheProofs.thy ===== *)
theory DnsCacheProofs
  imports DnsCache
begin

text \<open>
  What the DNS cache holds, seen as one map from domain and family to a record, and what its operations do to
  it: a migration between the two maps is invisible, an answer is stored under its own family, and a cleanup drops
  expired records only. Queries answer from this map.
\<close>

section \<open>Abstraction\<close>

datatype family = V4 | V6

fun family_of :: "family \<Rightarrow> dns_record \<Rightarrow> IPRecord option" where
  "family_of V4 r = rc_A r"
| "family_of V6 r = rc_AAAA r"

definition in_map :: "dns_records \<Rightarrow> string \<Rightarrow> family \<Rightarrow> IPRecord option" where
  "in_map m d f = (case al_get m d of None \<Rightarrow> None | Some r \<Rightarrow> family_of f r)"

definition dirty_map :: "CacheController \<Rightarrow> dns_records" where
  "dirty_map c = (case cc_dirtyips c of None \<Rightarrow> [] | Some m \<Rightarrow> m)"

definition cached :: "CacheController \<Rightarrow> string \<Rightarrow> family \<Rightarrow> IPRecord option" where
  "cached c d f = (case in_map (cc_ips c) d f of None \<Rightarrow> in_map (dirty_map c) d f | Some x \<Rightarrow> Some x)"

text \<open>The invariant of a migration: an entry still to be moved is one of the old map, and an entry that has
  been moved is covered by the new map.\<close>

definition cache_ok :: "CacheController \<Rightarrow> bool" where
  "cache_ok c \<longleftrightarrow> al_ok (cc_ips c) \<and> al_ok (dirty_map c) \<and>
     (cc_dirtyips c \<noteq> None \<longrightarrow> set (cc_migration c) \<subseteq> set (dirty_map c)) \<and>
     (\<forall>d r f x. al_get (dirty_map c) d = Some r \<longrightarrow> family_of f r = Some x \<longrightarrow>
        (d, r) \<in> set (cc_migration c) \<or> in_map (cc_ips c) d f \<noteq> None)"

definition type_family :: "u16 \<Rightarrow> family" where
  "type_family t = (if t = TypeA then V4 else V6)"

lemma dirty_map_ips [simp]: "dirty_map (c\<lparr>cc_ips := m\<rparr>) = dirty_map c"
  by (simp add: dirty_map_def)

lemma in_map_Nil [simp]: "in_map [] d f = None"
  by (simp add: in_map_def)

lemma in_map_put: "in_map (al_put k r m) d f = (if d = k then family_of f r else in_map m d f)"
  by (simp add: in_map_def al_simps)

lemma family_of_purge: "family_of f (purge t r) = (if expired t (family_of f r) then None else family_of f r)"
  by (cases f) (simp_all add: purge_def)

lemma expired_None [simp]: "\<not> expired t None"
  by (simp add: expired_def)

lemma no_families: "rc_A r = None \<and> rc_AAAA r = None \<longleftrightarrow> (\<forall>f. family_of f r = None)"
  by (metis family.exhaust family_of.simps)

section \<open>Cleanup\<close>

lemma expire_keys_get:
  "in_map (expire_keys t ks m) d f = (if d \<in> set ks \<and> expired t (in_map m d f) then None else in_map m d f)"
proof (induction t ks m rule: expire_keys.induct)
  case (2 t k ks m)
  show ?case
  proof (cases "al_get m k")
    case None
    then show ?thesis using 2 by (auto simp: in_map_def)
  next
    case (Some r)
    define m' where "m' = (if rc_A (purge t r) = None \<and> rc_AAAA (purge t r) = None then al_del k m else al_put k (purge t r) m)"
    have m': "in_map m' d f = (if d = k \<and> expired t (in_map m d f) then None else in_map m d f)"
    proof (cases "rc_A (purge t r) = None \<and> rc_AAAA (purge t r) = None")
      case True
      then have e: "family_of f (purge t r) = None" by (simp add: no_families)
      have "in_map m' d f = (if d = k then None else in_map m d f)"
        using True by (simp add: m'_def in_map_def al_simps)
      then show ?thesis using e Some by (auto simp: family_of_purge in_map_def split: if_splits)
    next
      case False
      then have "in_map m' d f = (if d = k then family_of f (purge t r) else in_map m d f)"
        unfolding m'_def by (simp only: if_False in_map_put)
      then show ?thesis using Some by (simp add: family_of_purge in_map_def)
    qed
    have "expire_keys t (k # ks) m = expire_keys t ks m'" using Some by (simp add: m'_def)
    moreover have "in_map (expire_keys t ks m') d f = (if d \<in> set ks \<and> expired t (in_map m' d f) then None else in_map m' d f)"
      using 2 Some unfolding m'_def by simp
    ultimately show ?thesis using m' by auto
  qed
qed simp

lemma expire_keys_ok: "al_ok m \<Longrightarrow> al_ok (expire_keys t ks m)"
proof (induction t ks m rule: expire_keys.induct)
  case (2 t k ks m)
  show ?case
  proof (cases "al_get m k")
    case (Some r)
    then show ?thesis using 2 by (simp add: al_simps)
  qed (use 2 in simp)
qed simp

lemma writeAndShrink_shape:
  fixes ks :: "string list" and now :: int
  assumes "cc_dirtyips c = None"
  defines "m \<equiv> expire_keys (cleanup_time c now) ks (cc_ips c)"
  shows "writeAndShrink env ks now c = c\<lparr>cc_ips := m, cc_highWatermark := max (length (cc_ips c)) (cc_highWatermark c)\<rparr> \<or>
    m = [] \<and> writeAndShrink env ks now c = c\<lparr>cc_ips := [], cc_highWatermark := 0\<rparr> \<or>
    writeAndShrink env ks now c = c\<lparr>cc_dirtyips := Some m, cc_ips := [], cc_highWatermark := length m, cc_migration := ce_order env m\<rparr>"
  using assms by (simp add: writeAndShrink_def Let_def)

lemma cached_writeAndShrink:
  "cached (writeAndShrink env ks now c) d f =
     (if cc_dirtyips c = None \<and> d \<in> set ks \<and> expired (cleanup_time c now) (cached c d f) then None else cached c d f)"
proof (cases "cc_dirtyips c")
  case None
  then have c: "cached c d f = in_map (cc_ips c) d f" by (simp add: cached_def dirty_map_def split: option.splits)
  define m where "m = expire_keys (cleanup_time c now) ks (cc_ips c)"
  have m: "in_map m d f = (if d \<in> set ks \<and> expired (cleanup_time c now) (cached c d f) then None else cached c d f)"
    unfolding m_def c by (rule expire_keys_get)
  have "cached (writeAndShrink env ks now c) d f = in_map m d f"
    using writeAndShrink_shape [OF None, of env ks now] None unfolding m_def [symmetric]
    by (elim disjE conjE) (simp_all add: cached_def dirty_map_def split: option.splits)
  with m None show ?thesis by simp
qed (simp add: writeAndShrink_def)

lemma cache_ok_writeAndShrink:
  assumes "cache_ok c" "range_order (ce_order env)"
  shows "cache_ok (writeAndShrink env ks now c)"
proof (cases "cc_dirtyips c")
  case None
  define m where "m = expire_keys (cleanup_time c now) ks (cc_ips c)"
  have ok: "al_ok m" using assms expire_keys_ok unfolding m_def cache_ok_def by blast
  have order: "set (ce_order env m) = set m" using assms(2) by simp
  consider (plain) h where "writeAndShrink env ks now c = c\<lparr>cc_ips := m, cc_highWatermark := h\<rparr>"
    | (empty) "writeAndShrink env ks now c = c\<lparr>cc_ips := [], cc_highWatermark := 0\<rparr>"
    | (shrink) "writeAndShrink env ks now c =
        c\<lparr>cc_dirtyips := Some m, cc_ips := [], cc_highWatermark := length m, cc_migration := ce_order env m\<rparr>"
    using writeAndShrink_shape [OF None, of env ks now] unfolding m_def [symmetric] by blast
  then show ?thesis
  proof cases
    case plain
    then show ?thesis using None ok by (simp add: cache_ok_def dirty_map_def)
  next
    case empty
    then show ?thesis using None by (simp add: cache_ok_def dirty_map_def)
  next
    case shrink
    have "\<And>d r. al_get m d = Some r \<Longrightarrow> (d, r) \<in> set m" by (rule map_of_SomeD)
    then show ?thesis using ok order unfolding shrink by (auto simp: cache_ok_def dirty_map_def)
  qed
next
  case (Some a)
  then have "writeAndShrink env ks now c = c" by (simp add: writeAndShrink_def)
  with assms show ?thesis by simp
qed

section \<open>Migration\<close>

lemma in_map_flush_entry:
  "in_map (flush_entry e m) d f =
     (if d = fst e \<and> in_map m d f = None then family_of f (snd e) else in_map m d f)"
proof (cases "al_get m (fst e)")
  case None
  then show ?thesis by (auto simp: flush_entry_def in_map_put) (simp_all add: in_map_def)
next
  case (Some cur)
  then have "in_map m (fst e) f = family_of f cur" by (simp add: in_map_def)
  with Some show ?thesis by (cases f) (auto simp: flush_entry_def in_map_put)
qed

lemma migrate_step_config [simp]:
  "cc_closed (migrate_step c) = cc_closed c" "cc_disableCache (migrate_step c) = cc_disableCache c"
  by (simp_all add: migrate_step_def flush_def split: list.splits)

lemma al_ok_flush_entry: "al_ok (flush_entry e m) \<longleftrightarrow> al_ok m"
  by (simp add: flush_entry_def al_simps split: option.splits)

lemma al_ok_flushes: "al_ok (fold flush_entry es m) \<longleftrightarrow> al_ok m"
  by (induction es arbitrary: m) (simp_all add: al_ok_flush_entry)

lemma in_map_flushes:
  assumes "\<forall>e \<in> set es. al_get old (fst e) = Some (snd e)"
  shows "in_map (fold flush_entry es m) d f =
    (if in_map m d f = None \<and> d \<in> fst ` set es then in_map old d f else in_map m d f)"
  using assms
proof (induction es arbitrary: m)
  case (Cons e es)
  have e: "in_map old (fst e) f = family_of f (snd e)" using Cons.prems by (simp add: in_map_def)
  show ?case using Cons.IH [of "flush_entry e m"] Cons.prems e by (auto simp: in_map_flush_entry)
qed simp

lemma migration_entries:
  assumes "cache_ok c" "cc_dirtyips c = Some old" "e \<in> set (cc_migration c)"
  shows "al_get old (fst e) = Some (snd e)"
  using assms by (cases e) (auto simp: cache_ok_def dirty_map_def)

lemma migrate_batch:
  assumes "cache_ok c" "cc_dirtyips c = Some old"
  defines "b \<equiv> take migrationBatchSize (cc_migration c)"
  shows "in_map (fold flush_entry b (cc_ips c)) d f =
    (if in_map (cc_ips c) d f = None \<and> d \<in> fst ` set b then in_map old d f else in_map (cc_ips c) d f)"
  by (rule in_map_flushes) (use migration_entries [OF assms(1,2)] in \<open>auto simp: b_def dest: in_set_takeD\<close>)

lemma covered_when_moved:
  assumes "cache_ok c" "cc_migration c = []" "in_map (cc_ips c) d f = None"
  shows "in_map (dirty_map c) d f = None"
proof (rule ccontr)
  assume "in_map (dirty_map c) d f \<noteq> None"
  then obtain r x where "al_get (dirty_map c) d = Some r" "family_of f r = Some x"
    by (auto simp: in_map_def split: option.splits)
  with assms show False unfolding cache_ok_def by (metis empty_iff list.set(1))
qed

lemma cached_migrate_step:
  assumes "cache_ok c"
  shows "cached (migrate_step c) d f = cached c d f"
proof (cases "cc_dirtyips c")
  case (Some old)
  show ?thesis
  proof (cases "cc_migration c")
    case Nil
    have "in_map (cc_ips c) d f = None \<Longrightarrow> in_map old d f = None"
      using covered_when_moved [OF assms, of d f] Nil Some by (simp add: dirty_map_def)
    then show ?thesis using Nil Some by (auto simp: migrate_step_def cached_def dirty_map_def split: option.splits)
  next
    case (Cons e es)
    then show ?thesis using migrate_batch [OF assms Some, of d f] Some
      by (auto simp: migrate_step_def flush_def cached_def dirty_map_def split: option.splits)
  qed
qed (simp add: migrate_step_def)

lemma cache_ok_migrate_step:
  assumes "cache_ok c"
  shows "cache_ok (migrate_step c)"
proof (cases "cc_dirtyips c = None \<or> cc_migration c = []")
  case True
  then show ?thesis using assms by (auto simp: migrate_step_def cache_ok_def dirty_map_def)
next
  case False
  then obtain old where old: "cc_dirtyips c = Some old" by auto
  define b where "b = take migrationBatchSize (cc_migration c)"
  define r where "r = drop migrationBatchSize (cc_migration c)"
  have s: "set (cc_migration c) = set b \<union> set r" unfolding b_def r_def by (metis append_take_drop_id set_append)
  have c': "migrate_step c = c\<lparr>cc_ips := fold flush_entry b (cc_ips c), cc_migration := r\<rparr>"
    using False by (auto simp: migrate_step_def flush_def b_def r_def split: list.splits)
  have "(d, x) \<in> set r \<or> in_map (fold flush_entry b (cc_ips c)) d f \<noteq> None"
    if "al_get old d = Some x" "family_of f x = Some y" for d x f y
  proof -
    have "(d, x) \<in> set (cc_migration c) \<or> in_map (cc_ips c) d f \<noteq> None"
      using assms that old by (auto simp: cache_ok_def dirty_map_def)
    moreover have "in_map old d f = Some y" using that by (simp add: in_map_def)
    moreover have "(d, x) \<in> set b \<Longrightarrow> d \<in> fst ` set b" by force
    ultimately show ?thesis using migrate_batch [OF assms old, of d f] s unfolding b_def [symmetric] by auto
  qed
  then show ?thesis using assms old s by (auto simp: c' cache_ok_def dirty_map_def al_ok_flushes)
qed

section \<open>Updates\<close>

lemma updateRecord_idle: "cc_closed c \<or> cc_disableCache c \<Longrightarrow> snd (updateRecord secs now req rep c) = c"
  by (auto simp: updateRecord_def Let_def)

lemma updateRecord_put:
  assumes "\<not> cc_closed c" "\<not> cc_disableCache c" "rq_Type req \<in> {TypeA, TypeAAAA}"
  shows "\<exists>r. snd (updateRecord secs now req rep c) = c\<lparr>cc_ips := al_put (rq_domain req) r (cc_ips c)\<rparr> \<and>
    (\<forall>f. family_of f r = (if f = type_family (rq_Type req) then Some rep else in_map (cc_ips c) (rq_domain req) f))"
proof (cases "rq_Type req = TypeA")
  case True
  define k where "k = in_map (cc_ips c) (rq_domain req) V6"
  define r where "r = \<lparr>rc_A = Some rep, rc_AAAA = k\<rparr>"
  have "snd (updateRecord secs now req rep c) = c\<lparr>cc_ips := al_put (rq_domain req) r (cc_ips c)\<rparr>"
    using assms True unfolding r_def k_def in_map_def
    by (auto simp: updateRecord_def Let_def split: option.splits Option.bind_splits)
  moreover have "family_of f r = (if f = type_family (rq_Type req) then Some rep else in_map (cc_ips c) (rq_domain req) f)" for f
    using True by (cases f) (simp_all add: r_def k_def type_family_def)
  ultimately show ?thesis by blast
next
  case False
  then have t: "rq_Type req = TypeAAAA" using assms(3) by simp
  define k where "k = in_map (cc_ips c) (rq_domain req) V4"
  define r where "r = \<lparr>rc_A = k, rc_AAAA = Some rep\<rparr>"
  have "snd (updateRecord secs now req rep c) = c\<lparr>cc_ips := al_put (rq_domain req) r (cc_ips c)\<rparr>"
    using assms t unfolding r_def k_def in_map_def
    by (auto simp: updateRecord_def Let_def split: option.splits Option.bind_splits)
  moreover have "family_of f r = (if f = type_family (rq_Type req) then Some rep else in_map (cc_ips c) (rq_domain req) f)" for f
    using t by (cases f) (simp_all add: r_def k_def type_family_def)
  ultimately show ?thesis by blast
qed

lemma cached_updateRecord:
  assumes "\<not> cc_closed c" "\<not> cc_disableCache c" "rq_Type req \<in> {TypeA, TypeAAAA}"
  shows "cached (snd (updateRecord secs now req rep c)) d f =
    (if d = rq_domain req \<and> f = type_family (rq_Type req) then Some rep else cached c d f)"
proof -
  obtain r where r: "snd (updateRecord secs now req rep c) = c\<lparr>cc_ips := al_put (rq_domain req) r (cc_ips c)\<rparr>"
      "\<And>f. family_of f r = (if f = type_family (rq_Type req) then Some rep else in_map (cc_ips c) (rq_domain req) f)"
    using updateRecord_put [OF assms, of secs now rep] by auto
  show ?thesis unfolding r(1) cached_def dirty_map_ips by (simp add: in_map_put r(2))
qed

lemma cache_ok_updateRecord:
  assumes "cache_ok c" "rq_Type req \<in> {TypeA, TypeAAAA}"
  shows "cache_ok (snd (updateRecord secs now req rep c))"
proof (cases "cc_closed c \<or> cc_disableCache c")
  case True
  then show ?thesis using assms by (simp add: updateRecord_idle)
next
  case False
  then obtain r where r: "snd (updateRecord secs now req rep c) = c\<lparr>cc_ips := al_put (rq_domain req) r (cc_ips c)\<rparr>"
      "\<And>f. family_of f r = (if f = type_family (rq_Type req) then Some rep else in_map (cc_ips c) (rq_domain req) f)"
    using updateRecord_put [OF _ _ assms(2), of c secs now rep] by auto
  have mono: "in_map (cc_ips c) d f \<noteq> None \<Longrightarrow> in_map (al_put (rq_domain req) r (cc_ips c)) d f \<noteq> None" for d f
    by (auto simp: in_map_put r(2))
  show ?thesis unfolding r(1)
    using assms(1) mono unfolding cache_ok_def by (simp add: al_ok_put del: not_None_eq map_of_eq_Some_iff) blast
qed

section \<open>Reachable states\<close>

inductive_cases cache_stepE: "cache_step env c c'"

lemma cache_ok_step: "cache_step env c c' \<Longrightarrow> cache_ok c \<Longrightarrow> range_order (ce_order env) \<Longrightarrow> cache_ok c'"
proof (induction rule: cache_step.induct)
  case (update secs now req rep c c')
  then show ?case using cache_ok_updateRecord by blast
next
  case (cleanup c ks now)
  then show ?case by (simp add: cache_ok_writeAndShrink)
next
  case (migration c)
  then show ?case by (simp add: cache_ok_migrate_step)
next
  case (close c)
  then show ?case by (simp add: cache_Close_def cache_ok_def dirty_map_def)
qed

lemma cache_ok_new: "cache_ok (NewCacheController disableCache serveStale ttl)"
  by (simp add: NewCacheController_def cache_ok_def dirty_map_def)

lemma cache_ok_reachable: "cache_reachable env c \<Longrightarrow> range_order (ce_order env) \<Longrightarrow> cache_ok c"
  by (induction rule: cache_reachable.induct) (auto intro: cache_ok_new cache_ok_step)

lemma cached_new: "cached (NewCacheController disableCache serveStale ttl) d f = None"
  by (simp add: NewCacheController_def cached_def dirty_map_def)

text \<open>The migration ends: every step of it makes the list of entries shorter, or finishes.\<close>

lemma migration_progress:
  "cc_dirtyips c \<noteq> None \<Longrightarrow> length (cc_migration c) < n \<Longrightarrow> cc_dirtyips ((migrate_step ^^ n) c) = None"
proof (induction n arbitrary: c)
  case (Suc n)
  show ?case
  proof (cases "cc_migration c")
    case Nil
    then have "cc_dirtyips (migrate_step c) = None" by (simp add: migrate_step_def)
    then have "(migrate_step ^^ k) (migrate_step c) = migrate_step c" for k
      by (induction k) (simp_all add: migrate_step_def)
    then show ?thesis using \<open>cc_dirtyips (migrate_step c) = None\<close> by (simp add: funpow_Suc_right del: funpow.simps)
  next
    case (Cons e es)
    then have "cc_dirtyips (migrate_step c) = cc_dirtyips c"
        "cc_migration (migrate_step c) = drop migrationBatchSize (cc_migration c)"
      using Suc.prems by (auto simp: migrate_step_def flush_def)
    then show ?thesis using Suc Cons by (simp add: migrationBatchSize_def funpow_Suc_right del: funpow.simps)
  qed
qed simp

lemma migration_ends: "\<exists>n. cc_dirtyips ((migrate_step ^^ n) c) = None"
proof (cases "cc_dirtyips c")
  case None
  then show ?thesis by (intro exI [of _ 0]) simp
next
  case (Some m)
  then show ?thesis by (intro exI [of _ "Suc (length (cc_migration c))"] migration_progress) simp_all
qed

text \<open>C25. In every history of the DNS cache, answers, cleanups, steps of a migration and closing do to the
  records of the two maps together what they would do to one map from domain and family to a record: an answer
  is stored for its own domain and family and nothing else changes; a cleanup drops exactly the expired records
  under the given keys, and nothing while a migration runs; a migration changes nothing, and it ends.\<close>

theorem dns_cache_refines:
  assumes "cache_reachable env c" "range_order (ce_order env)" "rq_Type req \<in> {TypeA, TypeAAAA}"
  shows "(cached (snd (updateRecord secs now req rep c)) d f =
        (if \<not> cc_closed c \<and> \<not> cc_disableCache c \<and> d = rq_domain req \<and> f = type_family (rq_Type req) then Some rep
         else cached c d f)) \<and>
    (cached (writeAndShrink env ks now c) d f =
        (if cc_dirtyips c = None \<and> d \<in> set ks \<and> expired (cleanup_time c now) (cached c d f) then None else cached c d f)) \<and>
    cached (migrate_step c) d f = cached c d f \<and>
    cached (cache_Close c) d f = cached c d f \<and>
    (\<exists>n. cc_dirtyips ((migrate_step ^^ n) c) = None)"
proof (intro conjI)
  have ok: "cache_ok c" using assms(1,2) by (rule cache_ok_reachable)
  show "cached (snd (updateRecord secs now req rep c)) d f =
        (if \<not> cc_closed c \<and> \<not> cc_disableCache c \<and> d = rq_domain req \<and> f = type_family (rq_Type req) then Some rep
         else cached c d f)"
    using cached_updateRecord [OF _ _ assms(3)] by (cases "cc_closed c \<or> cc_disableCache c") (auto simp: updateRecord_idle)
  show "cached (migrate_step c) d f = cached c d f" using ok by (rule cached_migrate_step)
  show "cached (cache_Close c) d f = cached c d f"
    by (simp add: cached_def cache_Close_def dirty_map_def cong: option.case_cong)
  show "\<exists>n. cc_dirtyips ((migrate_step ^^ n) c) = None"
    by (rule migration_ends)
qed (rule cached_writeAndShrink)

definition demo_request :: dnsRequest where
  "demo_request = req_msg ''a.'' TypeA 7 None 0"

definition demo_record :: IPRecord where
  "demo_record = \<lparr>ir_ReqID = 7, ir_IP = [[192, 0, 2, 1]], ir_Expire = 60000000000, ir_RCode = 0\<rparr>"

definition demo_cache_env :: cache_env where
  "demo_cache_env = \<lparr>ce_reduced = (\<lambda>a b. b * 65 < a * 100), ce_order = rev\<rparr>"

definition demo_secs :: ceil_seconds where
  "demo_secs d = - ((- d) div 1000000000)"

definition demo_cache :: CacheController where
  "demo_cache = snd (updateRecord demo_secs 0 demo_request demo_record (NewCacheController False True 30))"

lemma demo_cache_reachable: "cache_reachable demo_cache_env demo_cache"
  unfolding demo_cache_def
  by (rule cache_reachable.step [OF cache_reachable.new cache_step.update [OF refl]])
    (simp add: demo_request_def req_msg_def)

lemma demo_cached: "cached demo_cache ''a.'' V4 = Some demo_record"
  unfolding demo_cache_def
  by (subst cached_updateRecord) (simp_all add: NewCacheController_def demo_request_def req_msg_def type_family_def)

theorem dns_cache_refines_witness:
  "cached (writeAndShrink demo_cache_env [''a.''] 60000000001 demo_cache) ''a.'' V4 = Some demo_record \<and>
   cached (writeAndShrink demo_cache_env [''a.''] 90000000001 demo_cache) ''a.'' V4 = None"
proof -
  have t: "cleanup_time demo_cache x = x - 30000000000" "cc_dirtyips demo_cache = None" for x
    by (simp_all add: demo_cache_def updateRecord_def NewCacheController_def demo_request_def req_msg_def Let_def cleanup_time_def)
  have r: "rq_Type demo_request \<in> {TypeA, TypeAAAA}" by (simp add: demo_request_def req_msg_def)
  have o: "range_order (ce_order demo_cache_env)" by (simp add: demo_cache_env_def)
  note R = dns_cache_refines [OF demo_cache_reachable o r, where d = "''a.''" and f = V4, THEN conjunct2, THEN conjunct1]
  show ?thesis by (simp add: R t demo_cached expired_def) (simp add: demo_record_def)
qed

section \<open>Queries\<close>

definition families :: "IPOption \<Rightarrow> family list" where
  "families opt = (if IPv4Enable opt then [V4] else []) @ (if IPv6Enable opt then [V6] else [])"

definition served :: "IPRecord option \<Rightarrow> ip list" where
  "served r = (case r of None \<Rightarrow> [] | Some x \<Rightarrow> if ir_RCode x = 0 then ir_IP x else [])"

definition left :: "ceil_seconds \<Rightarrow> int \<Rightarrow> IPRecord \<Rightarrow> int" where
  "left secs now r = secs (ir_Expire r - now)"

definition record_err :: "IPRecord \<Rightarrow> dns_error option" where
  "record_err r = (if ir_RCode r \<noteq> 0 then Some (RCodeError (ir_RCode r)) else if ir_IP r = [] then Some ErrEmptyResponse else None)"

lemma getIPs_Some: "getIPs secs now (Some r) = (served (Some r), left secs now r, record_err r)"
  by (simp add: getIPs_def served_def left_def Let_def record_err_def)

lemma record_err_plain: "\<not> is_error wraps (record_err r) ErrRecordNotFound"
  by (simp add: is_error_def record_err_def)

lemma record_err_unserved: "served (Some r) = [] \<longleftrightarrow> (\<exists>e. record_err r = Some e)"
  by (simp add: served_def record_err_def)

lemma merge_one:
  assumes "IPv4Enable opt \<noteq> IPv6Enable opt"
  shows "merge wraps secs now opt rec4 rec6 [] = getIPs secs now (if IPv4Enable opt then rec4 else rec6)"
  using assms by (auto simp: merge_def merge_single_def split: prod.splits)

lemma merge_both:
  assumes "IPv4Enable opt" "IPv6Enable opt"
  shows "\<exists>e. merge wraps secs now opt (Some a) (Some b) [] =
      (served (Some a) @ served (Some b), min (int DefaultTTL) (min (left secs now a) (left secs now b)), e) \<and>
    \<not> is_error wraps e ErrRecordNotFound"
proof -
  define errs where "errs = (if served (Some a) = [] then [record_err a] else []) @ (if served (Some b) = [] then [record_err b] else [])"
  define ttl where "ttl = min (int DefaultTTL) (min (left secs now a) (left secs now b))"
  have f: "merge_family secs now (Some b) (merge_family secs now (Some a) ([], int DefaultTTL, [])) =
      (served (Some a) @ served (Some b), ttl, errs)"
    by (simp add: merge_family_def getIPs_Some errs_def ttl_def Let_def min_def)
  show ?thesis
  proof (cases "served (Some a) @ served (Some b) = []")
    case False
    then have "merge wraps secs now opt (Some a) (Some b) [] = (served (Some a) @ served (Some b), ttl, None)"
      using assms f by (simp add: merge_def)
    then show ?thesis by (simp add: ttl_def is_error_def)
  next
    case True
    then obtain x y where xy: "record_err a = Some x" "record_err b = Some y"
      using record_err_unserved by auto
    then have "errs = [Some x, Some y]" using True by (simp add: errs_def)
    then have "merge wraps secs now opt (Some a) (Some b) [] =
        ([], ttl, if is_error wraps (Some x) y then Some x else Some (Combined [x, y]))"
      using assms f True by (simp add: merge_def Combine_def)
    moreover have "\<not> is_error wraps (Some x) ErrRecordNotFound" using record_err_plain [of wraps a] xy by simp
    ultimately show ?thesis using True by (simp add: ttl_def is_error_def)
  qed
qed

text \<open>What a merge of the records of the requested families gives: their addresses in order, and the least of
  their times to live, cut to the default when both families are asked for.\<close>

lemma merge_records:
  assumes "\<And>f. f \<in> set (families opt) \<Longrightarrow> family_of f rec = Some (r f)" "families opt \<noteq> []"
  shows "\<exists>ttl e. merge wraps secs now opt (rc_A rec) (rc_AAAA rec) [] =
      (concat (map (\<lambda>f. served (Some (r f))) (families opt)), ttl, e) \<and> \<not> is_error wraps e ErrRecordNotFound \<and>
    (\<forall>f \<in> set (families opt). ttl \<le> left secs now (r f)) \<and>
    ((\<exists>f \<in> set (families opt). ttl = left secs now (r f)) \<or> ttl = int DefaultTTL)"
proof (cases "IPv4Enable opt \<and> IPv6Enable opt")
  case True
  then have "rc_A rec = Some (r V4)" "rc_AAAA rec = Some (r V6)" using assms(1) [of V4] assms(1) [of V6] by (simp_all add: families_def)
  moreover have "min x (min y z) \<le> y \<and> min x (min y z) \<le> z \<and> (min x (min y z) = y \<or> min x (min y z) = z \<or> min x (min y z) = x)"
    for x y z :: int by (auto simp: min_def)
  ultimately show ?thesis using merge_both [of opt wraps secs now "r V4" "r V6"] True by (auto simp: families_def)
next
  case False
  then have one: "IPv4Enable opt \<noteq> IPv6Enable opt" using assms(2) by (auto simp: families_def split: if_splits)
  define f where "f = (if IPv4Enable opt then V4 else V6)"
  have f: "families opt = [f]" using one by (auto simp: families_def f_def)
  have "(if IPv4Enable opt then rc_A rec else rc_AAAA rec) = Some (r f)"
    using assms(1) [of f] f by (auto simp: f_def)
  then have "merge wraps secs now opt (rc_A rec) (rc_AAAA rec) [] = (served (Some (r f)), left secs now (r f), record_err (r f))"
    using merge_one [OF one, of wraps secs now "rc_A rec" "rc_AAAA rec"] by (simp add: getIPs_Some)
  then show ?thesis by (simp add: f record_err_plain)
qed

lemma find_sound:
  "findRecords c d = Some rec \<Longrightarrow> family_of f rec = Some x \<Longrightarrow> cached c d f = Some x"
  by (auto simp: findRecords_def cached_def dirty_map_def in_map_def split: option.splits)

lemma find_complete:
  assumes "cc_dirtyips c = None" "cached c d f = Some x"
  shows "\<exists>rec. findRecords c d = Some rec \<and> (\<forall>f. family_of f rec = cached c d f)"
proof -
  have c: "cached c d g = in_map (cc_ips c) d g" for g using assms(1) by (auto simp: cached_def dirty_map_def split: option.splits)
  then obtain rec where "al_get (cc_ips c) d = Some rec" using assms(2) by (auto simp: in_map_def split: option.splits)
  then show ?thesis by (auto simp: findRecords_def c in_map_def)
qed

lemma family_missing:
  "IPv4Enable opt \<and> rc_A rec = None \<or> IPv6Enable opt \<and> rc_AAAA rec = None \<longleftrightarrow> (\<exists>f \<in> set (families opt). family_of f rec = None)"
  by (auto simp: families_def)

lemma query_hits:
  assumes "\<not> cc_closed c" "\<not> cc_disableCache c" "cc_dirtyips c = None" "families opt \<noteq> []"
    "\<And>f. f \<in> set (families opt) \<Longrightarrow> cached c (Fqdn d) f = Some (r f)"
    "\<And>f. f \<in> set (families opt) \<Longrightarrow> 0 < left secs now (r f)"
  shows "\<exists>ttl e. queryIP wraps secs now fetch c d opt = ((concat (map (\<lambda>f. served (Some (r f))) (families opt)), ttl, e), FromCache) \<and>
    merge wraps secs now opt (cached c (Fqdn d) V4) (cached c (Fqdn d) V6) [] = (concat (map (\<lambda>f. served (Some (r f))) (families opt)), ttl, e)"
proof -
  obtain g where g: "g \<in> set (families opt)" using assms(4) by (cases "families opt") auto
  obtain rec where rec: "findRecords c (Fqdn d) = Some rec" "\<And>f. family_of f rec = cached c (Fqdn d) f"
    using find_complete [OF assms(3) assms(5) [OF g]] by blast
  have fam: "\<And>f. f \<in> set (families opt) \<Longrightarrow> family_of f rec = Some (r f)" using rec(2) assms(5) by simp
  obtain ttl e where m: "merge wraps secs now opt (rc_A rec) (rc_AAAA rec) [] = (concat (map (\<lambda>f. served (Some (r f))) (families opt)), ttl, e)"
      "\<not> is_error wraps e ErrRecordNotFound" "(\<exists>f \<in> set (families opt). ttl = left secs now (r f)) \<or> ttl = int DefaultTTL"
    using merge_records [OF fam assms(4), of wraps secs now] by blast
  have "0 < ttl" using m(3) assms(6) by (auto simp: DefaultTTL_def)
  moreover have "\<not> (IPv4Enable opt \<and> rc_A rec = None \<or> IPv6Enable opt \<and> rc_AAAA rec = None)"
    unfolding family_missing using fam by simp
  ultimately have "queryIP wraps secs now fetch c d opt = ((concat (map (\<lambda>f. served (Some (r f))) (families opt)), ttl, e), FromCache)"
    using assms(1,2) rec(1) m(1,2) unfolding queryIP_def Let_def by (simp del: not_None_eq)
  then show ?thesis using m(1) rec(2) [of V4] rec(2) [of V6] by simp
qed

lemma query_cases:
  assumes "queryIP wraps secs now fetch c d opt = ((ps, ttl, e), src)" "src = FromCache \<or> src = FromStale"
  obtains rec t where "findRecords c (Fqdn d) = Some rec" "\<forall>f \<in> set (families opt). family_of f rec \<noteq> None"
    "merge wraps secs now opt (rc_A rec) (rc_AAAA rec) [] = (ps, t, e)" "src = FromCache \<Longrightarrow> 0 < t \<and> ttl = t"
    "src = FromStale \<Longrightarrow> t \<le> 0 \<and> ttl = 1 \<and> cc_serveStale c \<and> (cc_serveExpiredTTL c = 0 \<or> cc_serveExpiredTTL c < t)"
proof -
  obtain rec where rec: "findRecords c (Fqdn d) = Some rec"
    using assms by (cases "findRecords c (Fqdn d)") (auto simp: queryIP_def Let_def split: if_splits)
  obtain ps' t e' where m: "merge wraps secs now opt (rc_A rec) (rc_AAAA rec) [] = (ps', t, e')"
    by (metis prod_cases3)
  have some: "\<not> (\<exists>f \<in> set (families opt). family_of f rec = None)"
    using assms rec unfolding queryIP_def Let_def family_missing by (auto split: if_splits)
  have "ps' = ps \<and> e' = e \<and> (src = FromCache \<longrightarrow> 0 < t \<and> ttl = t) \<and>
      (src = FromStale \<longrightarrow> t \<le> 0 \<and> ttl = 1 \<and> cc_serveStale c \<and> (cc_serveExpiredTTL c = 0 \<or> cc_serveExpiredTTL c < t))"
    using assms rec m some unfolding queryIP_def Let_def family_missing by (auto split: if_splits)
  then show ?thesis using that [OF rec _ m [THEN trans]] some by auto
qed

text \<open>C26. A query that is answered from the cache is answered with the addresses of the cached records of the
  families it asks for, in order, and each of them is there. With a positive time to live none of them has expired
  and it exceeds the time left of none; a stale answer is given only when stale answers are configured, for one
  second, and within the configured limit.\<close>

theorem dns_query_from_cache:
  assumes "queryIP wraps secs now fetch c d opt = ((ps, ttl, e), src)" "src = FromCache \<or> src = FromStale"
    "families opt \<noteq> []" "\<forall>x. x \<le> 0 \<longrightarrow> secs x \<le> 0"
  shows "\<exists>r. (\<forall>f \<in> set (families opt). cached c (Fqdn d) f = Some (r f)) \<and>
    ps = concat (map (\<lambda>f. served (cached c (Fqdn d) f)) (families opt)) \<and>
    (src = FromCache \<longrightarrow> 0 < ttl \<and> (\<forall>f \<in> set (families opt). now < ir_Expire (r f) \<and> ttl \<le> left secs now (r f))) \<and>
    (src = FromStale \<longrightarrow> ttl = 1 \<and> cc_serveStale c \<and>
       (cc_serveExpiredTTL c = 0 \<or> (\<forall>f \<in> set (families opt). cc_serveExpiredTTL c < left secs now (r f))))"
proof -
  obtain rec t where q: "findRecords c (Fqdn d) = Some rec" "\<forall>f \<in> set (families opt). family_of f rec \<noteq> None"
      "merge wraps secs now opt (rc_A rec) (rc_AAAA rec) [] = (ps, t, e)" "src = FromCache \<Longrightarrow> 0 < t \<and> ttl = t"
      "src = FromStale \<Longrightarrow> t \<le> 0 \<and> ttl = 1 \<and> cc_serveStale c \<and> (cc_serveExpiredTTL c = 0 \<or> cc_serveExpiredTTL c < t)"
    using query_cases [OF assms(1,2)] by blast
  define r where "r f = the (family_of f rec)" for f
  have fam: "\<And>f. f \<in> set (families opt) \<Longrightarrow> family_of f rec = Some (r f)" using q(2) by (simp add: r_def)
  have c: "\<And>f. f \<in> set (families opt) \<Longrightarrow> cached c (Fqdn d) f = Some (r f)" using fam find_sound [OF q(1)] by blast
  have m: "ps = concat (map (\<lambda>f. served (Some (r f))) (families opt))" "\<forall>f \<in> set (families opt). t \<le> left secs now (r f)"
    using merge_records [OF fam assms(3), of wraps secs now] q(3) by auto
  have "now < ir_Expire (r f)" if "0 < left secs now (r f)" for f
    using that assms(4) [rule_format, of "ir_Expire (r f) - now"] unfolding left_def by linarith
  moreover have "ps = concat (map (\<lambda>f. served (cached c (Fqdn d) f)) (families opt))"
    using m(1) c by (metis (no_types, lifting) map_eq_conv)
  ultimately show ?thesis using c m(2) q(4,5) by (intro exI [of _ r]) force
qed

definition demo_option :: IPOption where
  "demo_option = \<lparr>IPv4Enable = True, IPv6Enable = False, FakeEnable = False\<rparr>"

lemma demo_cache_shape:
  "demo_cache = (NewCacheController False True 30)\<lparr>cc_ips := [(''a.'', \<lparr>rc_A = Some demo_record, rc_AAAA = None\<rparr>)]\<rparr>"
  by (simp add: demo_cache_def updateRecord_def NewCacheController_def demo_request_def req_msg_def Let_def)

lemma demo_fqdn: "Fqdn ''a'' = ''a.''"
  by (simp add: Fqdn_def HasSuffix_def suffix_def)

lemma demo_query:
  "queryIP (\<lambda>s t. False) demo_secs 20000000000 (\<lambda>d opt. ([], 0, None)) demo_cache ''a'' demo_option =
     (([[192, 0, 2, 1]], 40, None), FromCache)"
  unfolding demo_cache_shape
  by (simp add: queryIP_def Let_def NewCacheController_def findRecords_def demo_fqdn demo_option_def
      merge_def merge_single_def getIPs_def demo_record_def demo_secs_def is_error_def)

theorem dns_query_from_cache_witness:
  "\<exists>r. cached demo_cache ''a.'' V4 = Some r \<and> 20000000000 < ir_Expire r \<and> 40 \<le> left demo_secs 20000000000 r"
proof -
  have secs: "\<forall>x. x \<le> 0 \<longrightarrow> demo_secs x \<le> 0" by (simp add: demo_secs_def pos_imp_zdiv_nonneg_iff)
  have fam: "families demo_option = [V4]" by (simp add: families_def demo_option_def)
  show ?thesis using dns_query_from_cache [OF demo_query _ _ secs] by (auto simp: fam demo_fqdn)
qed

text \<open>C27. What a name server answers is what a query gets: after an answer for a family of a domain has been
  stored in a cache of any history, and a migration that may be running has ended, a query for that family is
  answered from the cache with its addresses and the time left, until it expires.\<close>

theorem dns_update_then_query:
  assumes "cache_reachable env c" "range_order (ce_order env)" "\<not> cc_closed c" "\<not> cc_disableCache c"
    "rq_Type req \<in> {TypeA, TypeAAAA}" "rq_domain req = Fqdn d" "families opt = [type_family (rq_Type req)]"
    "0 < left secs now' rep"
    "c' = (migrate_step ^^ n) (snd (updateRecord secs now req rep c))" "cc_dirtyips c' = None"
  shows "queryIP wraps secs now' fetch c' d opt = (getIPs secs now' (Some rep), FromCache)"
proof -
  define u where "u = snd (updateRecord secs now req rep c)"
  have u: "cache_ok u" "cached u (Fqdn d) (type_family (rq_Type req)) = Some rep" "\<not> cc_closed u" "\<not> cc_disableCache u"
    using cache_ok_updateRecord [OF cache_ok_reachable [OF assms(1,2)] assms(5)] cached_updateRecord [OF assms(3,4,5)]
      updateRecord_put [OF assms(3,4,5), of secs now rep] assms(3,4,6) unfolding u_def by auto
  have steps: "cache_ok ((migrate_step ^^ k) u) \<and> (\<forall>d f. cached ((migrate_step ^^ k) u) d f = cached u d f) \<and>
      cc_closed ((migrate_step ^^ k) u) = cc_closed u \<and> cc_disableCache ((migrate_step ^^ k) u) = cc_disableCache u" for k
  proof (induction k)
    case (Suc k)
    then show ?case by (simp add: cache_ok_migrate_step cached_migrate_step)
  qed (simp add: u)
  have c': "\<not> cc_closed c'" "\<not> cc_disableCache c'" "cached c' (Fqdn d) (type_family (rq_Type req)) = Some rep"
    using steps [of n] u unfolding assms(9) u_def by simp_all
  obtain ttl e where q: "queryIP wraps secs now' fetch c' d opt = ((concat (map (\<lambda>f. served (Some rep)) (families opt)), ttl, e), FromCache)"
      "merge wraps secs now' opt (cached c' (Fqdn d) V4) (cached c' (Fqdn d) V6) [] = (concat (map (\<lambda>f. served (Some rep)) (families opt)), ttl, e)"
    using query_hits [OF c'(1,2) assms(10), of opt d "\<lambda>f. rep" secs now' wraps fetch] assms(7,8) c'(3) by auto
  have one: "IPv4Enable opt \<noteq> IPv6Enable opt" using assms(7) by (auto simp: families_def split: if_splits)
  moreover have "(if IPv4Enable opt then cached c' (Fqdn d) V4 else cached c' (Fqdn d) V6) = Some rep"
    using assms(7) c'(3) by (auto simp: families_def split: if_splits)
  ultimately show ?thesis using q merge_one [OF one] by simp
qed

theorem dns_update_then_query_witness:
  "queryIP (\<lambda>s t. False) demo_secs 20000000000 (\<lambda>d opt. ([], 0, None))
     (snd (updateRecord demo_secs 0 demo_request demo_record (NewCacheController False True 30))) ''a'' demo_option =
   (getIPs demo_secs 20000000000 (Some demo_record), FromCache)"
proof (rule dns_update_then_query [OF cache_reachable.new, of demo_cache_env _ _ _ demo_request _ _ _ _ _ _ 0])
  show "range_order (ce_order demo_cache_env)" by (simp add: demo_cache_env_def)
  show "\<not> cc_closed (NewCacheController False True 30)" "\<not> cc_disableCache (NewCacheController False True 30)"
    by (simp_all add: NewCacheController_def)
  show "rq_Type demo_request \<in> {TypeA, TypeAAAA}" "rq_domain demo_request = Fqdn ''a''"
    "families demo_option = [type_family (rq_Type demo_request)]"
    by (simp_all add: demo_request_def req_msg_def demo_fqdn families_def demo_option_def type_family_def)
  show "0 < left demo_secs 20000000000 demo_record" by (simp add: left_def demo_secs_def demo_record_def)
  show "cc_dirtyips (snd (updateRecord demo_secs 0 demo_request demo_record (NewCacheController False True 30))) = None"
    unfolding demo_cache_def [symmetric] demo_cache_shape by (simp add: NewCacheController_def)
qed simp

section \<open>The limit of stale answers\<close>

text \<open>The limit is stored negated in 32 signed bits. Settings below \<open>2 ^ 31\<close> seconds are stored as meant; from
  there on the sign is lost, and a cleanup drops records long before they expire.\<close>

lemma serve_expired_ttl:
  assumes "unat ttl < 2 ^ 31"
  shows "cc_serveExpiredTTL (NewCacheController disableCache serveStale ttl) = - int (unat ttl)"
proof -
  define n where "n = int (unat ttl)"
  have n: "0 \<le> n" "n < 2 ^ 31" using of_nat_less_iff [of "unat ttl" "2 ^ 31", where 'a = int] assms unfolding n_def by simp_all
  have "- ttl = word_of_int (- n)" by (simp add: n_def)
  moreover have "sint (word_of_int (- n) :: u32) = signed_take_bit 31 (- n)" by (subst sint_sbintrunc') simp
  ultimately have "sint (- ttl) = signed_take_bit 31 (- n)" by (simp only:)
  also have "\<dots> = - n" using n by (intro signed_take_bit_int_eq_self) simp_all
  finally show ?thesis by (simp add: NewCacheController_def n_def)
qed

lemma serve_expired_ttl_wraps:
  "cc_serveExpiredTTL (NewCacheController False True 2147483649) = 2147483647"
  by (simp add: NewCacheController_def)

lemma fetch_key_inj:
  assumes "fetch_key (Fqdn a) o1 = fetch_key (Fqdn b) o2"
  shows "Fqdn a = Fqdn b \<and> families o1 = families o2"
proof -
  have e: "\<exists>x. Fqdn y = x @ ''.''" for y by (auto simp: Fqdn_def HasSuffix_def suffix_def)
  from e [of a] e [of b] assms show ?thesis
    by (auto simp: fetch_key_def families_def split: if_splits)
qed

end
