(* ===== verification/DnsHosts.thy ===== *)
theory DnsHosts
  imports DnsMessage Sniffer DomainFactory
begin

text \<open>
  \<open>app/dns/hosts.go\<close>: the static hosts of the DNS server. A mapping answers the domains of its rule with
  addresses, with another domain, or with a response code. The domain matcher is one of the registry, named by
  its index there. The outer option is \<open>None\<close> for a panic: an index beyond the responses, or an address taken
  from a response code.
\<close>

section \<open>Mappings\<close>

record Config_HostMapping =
  hm_Domain :: DomainRule
  hm_Ip :: "ip list"
  hm_ProxiedDomain :: string

text \<open>A \<open>net.Address\<close> of a response: an address proper, or an \<open>RCodeError\<close>, whose methods panic.\<close>

datatype host_rep = RepAddress Address | RepRCode u16

fun Rep_Family :: "host_rep \<Rightarrow> AddressFamily option" where
  "Rep_Family (RepAddress a) = Some (Family a)"
| "Rep_Family (RepRCode c) = None"

fun Rep_Domain :: "host_rep \<Rightarrow> string option" where
  "Rep_Domain (RepAddress a) = AddrDomain a"
| "Rep_Domain (RepRCode c) = None"

record StaticHosts =
  hs_responses :: "host_rep list list"
  hs_matcher :: "nat option"

datatype hosts_error = BadRCode string | HostRuleError domain_error

definition mapping_reps :: "Config_HostMapping \<Rightarrow> hosts_error + host_rep list" where
  "mapping_reps hm =
     (if hm_ProxiedDomain hm \<noteq> [] then
        (if hd (hm_ProxiedDomain hm) = CHR ''#'' then
           (case Atoi (tl (hm_ProxiedDomain hm)) of
              None \<Rightarrow> Inl (BadRCode (hm_ProxiedDomain hm))
            | Some rcode \<Rightarrow> Inr [RepRCode (word_of_int rcode)])
         else Inr [RepAddress (domainAddress (hm_ProxiedDomain hm))])
      else Inr (map RepAddress (List.map_filter IPAddress (hm_Ip hm))))"

fun hosts_reps :: "Config_HostMapping list \<Rightarrow> hosts_error + host_rep list list" where
  "hosts_reps [] = Inr []"
| "hosts_reps (hm # hms) =
     (case mapping_reps hm of
        Inl e \<Rightarrow> Inl e
      | Inr resp \<Rightarrow> (case hosts_reps hms of Inl e \<Rightarrow> Inl e | Inr reps \<Rightarrow> Inr (resp # reps)))"

definition NewStaticHosts :: "domain_env \<Rightarrow> Config_HostMapping list \<Rightarrow> DomainRegistry \<Rightarrow>
    ((hosts_error + StaticHosts) \<times> DomainRegistry) option" where
  "NewStaticHosts env hosts reg =
     (case hosts_reps hosts of
        Inl e \<Rightarrow> Some (Inl e, reg)
      | Inr reps \<Rightarrow>
          if hosts = [] then Some (Inr \<lparr>hs_responses = [], hs_matcher = None\<rparr>, reg)
          else (case BuildDomainMatcher env reg (map hm_Domain hosts) of
                  None \<Rightarrow> None
                | Some (Inl e, reg') \<Rightarrow> Some (Inl (HostRuleError e), reg')
                | Some (Inr d, reg') \<Rightarrow>
                    Some (Inr \<lparr>hs_responses = reps, hs_matcher = Some (length (dr_matchers reg))\<rparr>, reg')))"

section \<open>Lookups\<close>

definition family_enabled :: "IPOption \<Rightarrow> AddressFamily \<Rightarrow> bool" where
  "family_enabled opt f \<longleftrightarrow> IsIPv4 f \<and> IPv4Enable opt \<or> IsIPv6 f \<and> IPv6Enable opt"

fun filterIP :: "host_rep list \<Rightarrow> IPOption \<Rightarrow> host_rep list option" where
  "filterIP [] opt = Some []"
| "filterIP (p # ps) opt = do {
     f \<leftarrow> Rep_Family p;
     qs \<leftarrow> filterIP ps opt;
     Some (if family_enabled opt f then p # qs else qs)
   }"

fun rcode_of :: "host_rep list \<Rightarrow> u16 option" where
  "rcode_of [] = None"
| "rcode_of (RepRCode c # ps) = Some c"
| "rcode_of (RepAddress a # ps) = rcode_of ps"

fun hosts_loop :: "StaticHosts \<Rightarrow> u32 list \<Rightarrow> host_rep list \<Rightarrow> bool \<Rightarrow> (dns_error + host_rep list option) option" where
  "hosts_loop h [] acc found = Some (Inr (if found then Some acc else None))"
| "hosts_loop h (idx # ids) acc found =
     (if unat idx < length (hs_responses h) then
        let resp = hs_responses h ! unat idx
        in case rcode_of resp of
             Some c \<Rightarrow> Some (Inl (if c = 0 then ErrEmptyResponse else RCodeError c))
           | None \<Rightarrow> hosts_loop h ids (acc @ resp) True
      else None)"

definition lookupInternal :: "domain_env \<Rightarrow> DomainRegistry \<Rightarrow> StaticHosts \<Rightarrow> string \<Rightarrow>
    (dns_error + host_rep list option) option" where
  "lookupInternal env reg h d = do {
     i \<leftarrow> hs_matcher h;
     m \<leftarrow> (if i < length (dr_matchers reg) then Some (dr_matchers reg ! i) else None);
     ids \<leftarrow> dd_Match env m d;
     hosts_loop h ids [] False
   }"

definition sole_domain :: "host_rep list \<Rightarrow> bool option" where
  "sole_domain addrs = (if length addrs = 1 then map_option IsDomain (Rep_Family (hd addrs)) else Some False)"

function hosts_lookup :: "domain_env \<Rightarrow> DomainRegistry \<Rightarrow> StaticHosts \<Rightarrow> string \<Rightarrow> IPOption \<Rightarrow> nat \<Rightarrow>
    (dns_error + host_rep list option) option" where
  "hosts_lookup env reg h d0 opt maxDepth = do {
     r \<leftarrow> lookupInternal env reg h (ToLower d0);
     case r of
       Inl e \<Rightarrow> Some (Inl e)
     | Inr None \<Rightarrow> Some (Inr None)
     | Inr (Some addrs) \<Rightarrow>
         if addrs = [] then Some (Inr (Some []))
         else do {
           one \<leftarrow> sole_domain addrs;
           if one then do {
             d \<leftarrow> Rep_Domain (hd addrs);
             if 0 < maxDepth then do {
               u \<leftarrow> hosts_lookup env reg h d opt (maxDepth - 1);
               case u of
                 Inl e \<Rightarrow> Some (Inl e)
               | Inr (Some us) \<Rightarrow> Some (Inr (Some us))
               | Inr None \<Rightarrow> Some (Inr (Some addrs))
             }
             else Some (Inr (Some addrs))
           }
           else map_option (\<lambda>ps. Inr (Some ps)) (filterIP addrs opt)
         }
   }"
  by pat_completeness auto
termination
  by (relation "measure (\<lambda>(_, _, _, _, _, n). n)") auto

declare hosts_lookup.simps [simp del]

definition Hosts_Lookup :: "domain_env \<Rightarrow> DomainRegistry \<Rightarrow> StaticHosts \<Rightarrow> string \<Rightarrow> IPOption \<Rightarrow>
    (dns_error + host_rep list option) option" where
  "Hosts_Lookup env reg h d opt = (if hs_matcher h = None then Some (Inr None) else hosts_lookup env reg h d opt 5)"

section \<open>Conversion\<close>

text \<open>\<open>toNetIP\<close> of \<open>config.go\<close>.\<close>

fun toNetIP :: "host_rep list \<Rightarrow> (dns_error + ip list) option" where
  "toNetIP [] = Some (Inr [])"
| "toNetIP (RepRCode c # as) = None"
| "toNetIP (RepAddress a # as) =
     (if IsIP (Family a) then do {
        p \<leftarrow> AddrIP a;
        r \<leftarrow> toNetIP as;
        Some (case r of Inl e \<Rightarrow> Inl e | Inr ps \<Rightarrow> Inr (p # ps))
      }
      else Some (Inl NotAnIP))"

end
