(* ===== verification/DnsClient.thy ===== *)
theory DnsClient
  imports DnsCache DnsHosts IPFactoryDefs
begin

text \<open>
  \<open>app/dns/nameserver.go\<close>: a client, that is a transport with its policy of families, expected and unexpected
  addresses. The transports are a parameter: what a server answers may differ from one moment to the next, and
  moments are counted. A query carries the time its context leaves it. IP matchers are those of the registry, named by their index there.
\<close>

section \<open>Environment\<close>

record UpstreamStatus =
  us_ServerTag :: string
  us_Name :: string
  us_LastSuccess :: int
  us_LastFailure :: int
  us_LastLatencyMs :: int
  us_LastError :: "dns_error option"

record dns_client =
  cl_server :: nat
  cl_name :: string
  cl_supportsRaw :: bool
  cl_skipFallback :: bool
  cl_expectedIPs :: "nat option"
  cl_unexpectedIPs :: "nat option"
  cl_actPrior :: bool
  cl_actUnprior :: bool
  cl_tag :: string
  cl_timeout :: int
  cl_finalQuery :: bool
  cl_ipOption :: IPOption
  cl_checkSystem :: bool
  cl_policyID :: u32
  cl_localDirect :: bool
  cl_outboundTag :: string
  cl_metricTag :: string
  cl_status :: UpstreamStatus

record 's dns_env =
  dx_dom :: domain_env
  dx_netipx :: "'s netipx"
  dx_order :: view_order
  dx_load :: "geo_error ip_loader"
  dx_routes :: "nat \<Rightarrow> bool \<times> bool"
  dx_query :: "nat \<Rightarrow> nat \<Rightarrow> int \<Rightarrow> string \<Rightarrow> IPOption \<Rightarrow> lookup_result"
  dx_queryRaw :: "nat \<Rightarrow> nat \<Rightarrow> int \<Rightarrow> byte list \<Rightarrow> dns_error + byte list"
  dx_ctx :: "nat \<Rightarrow> dns_error option"
  dx_now :: "nat \<Rightarrow> int"
  dx_wraps :: err_is
  dx_wire :: dns_wire

section \<open>Addresses of servers\<close>

definition isLocalDNSAddress :: "Address \<Rightarrow> bool" where
  "isLocalDNSAddress a =
     (case a of
        domainAddress d \<Rightarrow>
          (let raw = ToLower d
           in raw = ''localhost'' \<or>
              (case index_of ''://'' raw of
                 None \<Rightarrow> False
               | Some separator \<Rightarrow> 0 < separator \<and> HasSuffix (take separator raw) ''+local''))
      | _ \<Rightarrow> False)"

definition stripLocalScheme :: "string \<Rightarrow> string" where
  "stripLocalScheme raw =
     (case index_of ''://'' raw of
        None \<Rightarrow> raw
      | Some separator \<Rightarrow>
          if separator = 0 \<or> \<not> HasSuffix (ToLower (take separator raw)) ''+local'' then raw
          else take (separator - length ''+local'') raw @ drop separator raw)"

section \<open>Families\<close>

datatype QueryStrategy = USE_IP | USE_IP4 | USE_IP6 | USE_SYS | OtherStrategy int

definition ResolveIpOptionOverride :: "QueryStrategy \<Rightarrow> IPOption \<Rightarrow> IPOption" where
  "ResolveIpOptionOverride s opt =
     (case s of
        USE_IP4 \<Rightarrow> \<lparr>IPv4Enable = IPv4Enable opt, IPv6Enable = False, FakeEnable = False\<rparr>
      | USE_IP6 \<Rightarrow> \<lparr>IPv4Enable = False, IPv6Enable = IPv6Enable opt, FakeEnable = False\<rparr>
      | _ \<Rightarrow> opt)"

text \<open>How a query is narrowed, by the routes of the system or by an option.\<close>

definition narrow :: "'s dns_env \<Rightarrow> nat \<Rightarrow> bool \<Rightarrow> IPOption \<Rightarrow> IPOption \<Rightarrow> IPOption" where
  "narrow env t checkSystem own opt =
     (if checkSystem then
        opt\<lparr>IPv4Enable := IPv4Enable opt \<and> fst (dx_routes env t), IPv6Enable := IPv6Enable opt \<and> snd (dx_routes env t)\<rparr>
      else opt\<lparr>IPv4Enable := IPv4Enable opt \<and> IPv4Enable own, IPv6Enable := IPv6Enable opt \<and> IPv6Enable own\<rparr>)"

section \<open>Queries\<close>

definition recordQuery :: "'s dns_env \<Rightarrow> nat \<Rightarrow> dns_error option \<Rightarrow> dns_client \<Rightarrow> dns_client" where
  "recordQuery env t e c =
     (let now = dx_now env (Suc t); st = (cl_status c)\<lparr>us_LastLatencyMs := (now - dx_now env t) div 1000000\<rparr>
      in c\<lparr>cl_status := (case e of
             None \<Rightarrow> st\<lparr>us_LastSuccess := now, us_LastError := None\<rparr>
           | Some x \<Rightarrow> st\<lparr>us_LastFailure := now, us_LastError := Some x\<rparr>)\<rparr>)"

text \<open>The four filters of a client, over any matchers with a \<open>FilterIPs\<close>.\<close>

definition strict_expected :: "('m \<Rightarrow> ip list \<Rightarrow> ip list \<times> ip list) \<Rightarrow> 'm option \<Rightarrow> bool \<Rightarrow> ip list \<Rightarrow> ip list" where
  "strict_expected filt m prior ps = (case m of Some x \<Rightarrow> if prior then ps else fst (filt x ps) | None \<Rightarrow> ps)"

definition strict_unexpected :: "('m \<Rightarrow> ip list \<Rightarrow> ip list \<times> ip list) \<Rightarrow> 'm option \<Rightarrow> bool \<Rightarrow> ip list \<Rightarrow> ip list" where
  "strict_unexpected filt m prior ps = (case m of Some x \<Rightarrow> if prior then ps else snd (filt x ps) | None \<Rightarrow> ps)"

definition prior_expected :: "('m \<Rightarrow> ip list \<Rightarrow> ip list \<times> ip list) \<Rightarrow> 'm option \<Rightarrow> bool \<Rightarrow> ip list \<Rightarrow> ip list" where
  "prior_expected filt m prior ps =
     (case m of Some x \<Rightarrow> if prior \<and> fst (filt x ps) \<noteq> [] then fst (filt x ps) else ps | None \<Rightarrow> ps)"

definition prior_unexpected :: "('m \<Rightarrow> ip list \<Rightarrow> ip list \<times> ip list) \<Rightarrow> 'm option \<Rightarrow> bool \<Rightarrow> ip list \<Rightarrow> ip list" where
  "prior_unexpected filt m prior ps =
     (case m of Some x \<Rightarrow> if prior \<and> snd (filt x ps) \<noteq> [] then snd (filt x ps) else ps | None \<Rightarrow> ps)"

definition apply_policy :: "('m \<Rightarrow> ip list \<Rightarrow> ip list \<times> ip list) \<Rightarrow> 'm option \<Rightarrow> 'm option \<Rightarrow> bool \<Rightarrow> bool \<Rightarrow> ip list \<Rightarrow>
    dns_error + ip list" where
  "apply_policy filt expected unexpected actPrior actUnprior ps =
     (let a = strict_expected filt expected actPrior ps
      in if expected \<noteq> None \<and> \<not> actPrior \<and> a = [] then Inl ErrEmptyResponse
         else
           let b = strict_unexpected filt unexpected actUnprior a
           in if unexpected \<noteq> None \<and> \<not> actUnprior \<and> b = [] then Inl ErrEmptyResponse
              else Inr (prior_unexpected filt unexpected actUnprior (prior_expected filt expected actPrior b)))"

text \<open>The matcher behind an index; the registry holds every matcher a client refers to.\<close>

definition matcher_at :: "'s IPRegistry \<Rightarrow> nat option \<Rightarrow> 's DynamicIPMatcher option" where
  "matcher_at reg i = map_option (\<lambda>k. reg_matchers reg ! k) i"

definition Client_QueryIP :: "'s dns_env \<Rightarrow> 's IPRegistry \<Rightarrow> nat \<Rightarrow> string \<Rightarrow> IPOption \<Rightarrow> dns_client \<Rightarrow> lookup_result \<times> dns_client" where
  "Client_QueryIP env reg t d opt0 c =
     (let opt = narrow env t (cl_checkSystem c) (cl_ipOption c) opt0
      in if \<not> IPv4Enable opt \<and> \<not> IPv6Enable opt then (([], 0, Some ErrEmptyResponse), c)
         else
           case dx_query env (cl_server c) t (cl_timeout c) d opt of
             (ps, ttl, e) \<Rightarrow>
               (let c' = recordQuery env t e c
                in case e of
                     Some x \<Rightarrow> (([], 0, Some x), c')
                   | None \<Rightarrow>
                       if ps = [] then (([], 0, Some ErrEmptyResponse), c')
                       else (case apply_policy (dyn_FilterIPs (dx_netipx env) (dx_order env)) (matcher_at reg (cl_expectedIPs c))
                                    (matcher_at reg (cl_unexpectedIPs c)) (cl_actPrior c) (cl_actUnprior c) ps of
                               Inl x \<Rightarrow> (([], 0, Some x), c')
                             | Inr qs \<Rightarrow> ((qs, ttl, None), c'))))"

definition Client_QueryRaw :: "'s dns_env \<Rightarrow> nat \<Rightarrow> byte list \<Rightarrow> dns_client \<Rightarrow> (dns_error + byte list) \<times> dns_client" where
  "Client_QueryRaw env t q c =
     (if \<not> cl_supportsRaw c then (Inl NoRawSupport, c)
      else let r = dx_queryRaw env (cl_server c) t (cl_timeout c) q
           in (r, recordQuery env t (case r of Inl e \<Rightarrow> Some e | Inr _ \<Rightarrow> None) c))"

section \<open>Construction\<close>

record NameServer =
  ns_Address :: Address
  ns_SkipFallback :: bool
  ns_Domain :: "DomainRule list"
  ns_ExpectedIp :: "IPRule list"
  ns_UnexpectedIp :: "IPRule list"
  ns_QueryStrategy :: QueryStrategy
  ns_ActPrior :: bool
  ns_ActUnprior :: bool
  ns_Tag :: string
  ns_TimeoutMs :: "64 word"
  ns_FinalQuery :: bool
  ns_PolicyID :: u32
  ns_OutboundTag :: string
  ns_ClientIp :: "byte list"
  ns_DisableCache :: "bool option"
  ns_ServeStale :: "bool option"
  ns_ServeExpiredTTL :: "u32 option"

datatype client_error = ServerFailed string | ExpectedIPsFailed "geo_error ip_error" | UnexpectedIPsFailed "geo_error ip_error"

text \<open>What \<open>NewServer\<close> makes of an address: a transport with its name, whether it takes raw queries, and whether
  it is the resolver of the system.\<close>

record server_settings =
  st_clientIP :: "byte list"
  st_disableCache :: bool
  st_serveStale :: bool
  st_serveExpiredTTL :: u32

record dns_server =
  sv_handle :: nat
  sv_Name :: string
  sv_Raw :: bool
  sv_Local :: bool

definition build_ip_filter :: "'s dns_env \<Rightarrow> IPRule list \<Rightarrow> 's IPRegistry \<Rightarrow> (geo_error ip_error + nat option) \<times> 's IPRegistry" where
  "build_ip_filter env rules reg =
     (if rules = [] then (Inr None, reg)
      else case BuildIPMatcher (dx_netipx env) (dx_load env) reg rules of
             (Inl e, reg') \<Rightarrow> (Inl e, reg')
           | (Inr m, reg') \<Rightarrow> (Inr (Some (length (reg_matchers reg))), reg'))"

definition client_of :: "NameServer \<Rightarrow> dns_server \<Rightarrow> nat option \<Rightarrow> nat option \<Rightarrow> string \<Rightarrow> IPOption \<Rightarrow> dns_client" where
  "client_of ns sv expected unexpected tag opt =
     (let metricTag = (if ns_Tag ns = [] then ''_default'' else ns_Tag ns)
      in \<lparr>cl_server = sv_handle sv, cl_name = sv_Name sv, cl_supportsRaw = sv_Raw sv, cl_skipFallback = ns_SkipFallback ns,
          cl_expectedIPs = expected, cl_unexpectedIPs = unexpected, cl_actPrior = ns_ActPrior ns, cl_actUnprior = ns_ActUnprior ns,
          cl_tag = tag, cl_timeout = (if 0 < ns_TimeoutMs ns then sint (ns_TimeoutMs ns * 1000000) else 4000 * 1000000),
          cl_finalQuery = ns_FinalQuery ns, cl_ipOption = opt, cl_checkSystem = (ns_QueryStrategy ns = USE_SYS),
          cl_policyID = ns_PolicyID ns, cl_localDirect = isLocalDNSAddress (ns_Address ns), cl_outboundTag = ns_OutboundTag ns,
          cl_metricTag = metricTag,
          cl_status = \<lparr>us_ServerTag = metricTag, us_Name = sv_Name sv, us_LastSuccess = 0, us_LastFailure = 0,
                       us_LastLatencyMs = 0, us_LastError = None\<rparr>\<rparr>)"

definition NewClient :: "'s dns_env \<Rightarrow> (NameServer \<Rightarrow> server_settings \<Rightarrow> string + dns_server) \<Rightarrow> NameServer \<Rightarrow> server_settings \<Rightarrow> string \<Rightarrow> IPOption \<Rightarrow> 's IPRegistry \<Rightarrow>
    (client_error + (dns_client \<times> bool)) \<times> 's IPRegistry" where
  "NewClient env newServer ns settings tag opt reg =
     (case newServer ns settings of
        Inl e \<Rightarrow> (Inl (ServerFailed e), reg)
      | Inr sv \<Rightarrow>
          (case build_ip_filter env (ns_ExpectedIp ns) reg of
             (Inl e, reg1) \<Rightarrow> (Inl (ExpectedIPsFailed e), reg1)
           | (Inr expected, reg1) \<Rightarrow>
               (case build_ip_filter env (ns_UnexpectedIp ns) reg1 of
                  (Inl e, reg2) \<Rightarrow> (Inl (UnexpectedIPsFailed e), reg2)
                | (Inr unexpected, reg2) \<Rightarrow> (Inr (client_of ns sv expected unexpected tag opt, sv_Local sv), reg2))))"

section \<open>The resolver of the system\<close>

text \<open>\<open>systemResolver.LookupIP\<close> of \<open>nameserver_local.go\<close>, over what the resolver of the standard library
  returns for the domain; \<open>LocalNameServer.QueryIP\<close> only adds log entries. A nil address is the empty list.\<close>

fun system_addresses :: "IPOption \<Rightarrow> ip list \<Rightarrow> ip list" where
  "system_addresses opt [] = []"
| "system_addresses opt (p # ps) =
     (case To4 p of
        Some v4 \<Rightarrow> if IPv4Enable opt then v4 # system_addresses opt ps else system_addresses opt ps
      | None \<Rightarrow>
          if IPv6Enable opt then (case To16 p of Some q \<Rightarrow> q | None \<Rightarrow> []) # system_addresses opt ps
          else system_addresses opt ps)"

definition systemResolver_LookupIP :: "dns_error + ip list \<Rightarrow> IPOption \<Rightarrow> lookup_result" where
  "systemResolver_LookupIP addrs opt =
     (case addrs of
        Inl e \<Rightarrow> ([], 0, Some e)
      | Inr ps \<Rightarrow>
          (let out = system_addresses opt ps
           in if out = [] then ([], 0, Some ErrEmptyResponse) else (out, int DefaultTTL, None)))"

text \<open>\<open>NewLocalDNSClient\<close> of \<open>nameserver_local.go\<close>: every field but the server and the option has its zero value.\<close>

definition NewLocalDNSClient :: "nat \<Rightarrow> IPOption \<Rightarrow> dns_client" where
  "NewLocalDNSClient handle opt =
     \<lparr>cl_server = handle, cl_name = ''localhost'', cl_supportsRaw = False, cl_skipFallback = False, cl_expectedIPs = None,
      cl_unexpectedIPs = None, cl_actPrior = False, cl_actUnprior = False, cl_tag = [], cl_timeout = 0, cl_finalQuery = False,
      cl_ipOption = opt, cl_checkSystem = False, cl_policyID = 0, cl_localDirect = False, cl_outboundTag = [],
      cl_metricTag = [],
      cl_status = \<lparr>us_ServerTag = [], us_Name = [], us_LastSuccess = 0, us_LastFailure = 0, us_LastLatencyMs = 0,
                   us_LastError = None\<rparr>\<rparr>"

end
