(* ===== verification/DnsServer.thy ===== *)
theory DnsServer
  imports DnsClient
begin

text \<open>
  \<open>app/dns/dns.go\<close>: the DNS server. It answers from the static hosts, or asks its clients in an order that the
  domain rules of the clients decide, one after the other or in parallel. The state keeps the clients, whose
  status changes, and the cache of client orders. Logging and the pool of scratch slices are left out.
\<close>

section \<open>State\<close>

record DomainMatcherInfo =
  mi_clientIdx :: u16
  mi_domainRule :: DomainRule

record DNS =
  s_disableFallback :: bool
  s_disableFallbackIfMatch :: bool
  s_enableParallelQuery :: bool
  s_ipOption :: IPOption
  s_hosts :: StaticHosts
  s_clients :: "dns_client list"
  s_domainMatcher :: "nat option"
  s_matcherInfos :: "DomainMatcherInfo list"
  s_checkSystem :: bool
  s_sortCache :: "(string, nat list) go_map"

record 's dns_world =
  dw_domains :: DomainRegistry
  dw_ips :: "'s IPRegistry"

section \<open>The order of clients\<close>

text \<open>The loops of \<open>sortClientsForDomain\<close>: over the rules that match, and over all clients. A client is named by
  its index. The outer option is a panic by an index out of range.\<close>

fun match_loop :: "DNS \<Rightarrow> u32 list \<Rightarrow> nat list \<Rightarrow> (nat list \<times> bool) option" where
  "match_loop s [] acc = Some (acc, False)"
| "match_loop s (v # vs) acc =
     (if length (s_matcherInfos s) \<le> unat v then None
      else
        let idx = unat (mi_clientIdx (s_matcherInfos s ! unat v))
        in if length (s_clients s) \<le> idx then None
           else if idx \<in> set acc then match_loop s vs acc
           else if cl_finalQuery (s_clients s ! idx) then Some (acc @ [idx], True)
           else match_loop s vs (acc @ [idx]))"

fun fallback_loop :: "DNS \<Rightarrow> nat list \<Rightarrow> nat list \<Rightarrow> nat list \<times> bool" where
  "fallback_loop s [] acc = (acc, False)"
| "fallback_loop s (idx # ids) acc =
     (if idx \<in> set acc \<or> cl_skipFallback (s_clients s ! idx) then fallback_loop s ids acc
      else if cl_finalQuery (s_clients s ! idx) then (acc @ [idx], True)
      else fallback_loop s ids (acc @ [idx]))"

definition sortClientsForDomain :: "domain_env \<Rightarrow> DomainRegistry \<Rightarrow> DNS \<Rightarrow> string \<Rightarrow> nat list option" where
  "sortClientsForDomain env reg s d = do {
     (clients, final) \<leftarrow>
       (case s_domainMatcher s of
          None \<Rightarrow> Some ([], False)
        | Some i \<Rightarrow> do {
            m \<leftarrow> (if i < length (dr_matchers reg) then Some (dr_matchers reg ! i) else None);
            ms \<leftarrow> dd_Match env m d;
            match_loop s (sort ms) []
          });
     let hasMatch = (clients \<noteq> []);
     let (all, final') =
       (if final then (clients, True)
        else if s_disableFallback s \<or> s_disableFallbackIfMatch s \<and> hasMatch then (clients, False)
        else fallback_loop s [0..<length (s_clients s)] clients);
     Some (if final' then all
           else if all = [] \<and> s_clients s \<noteq> [] then [0]
           else all)
   }"

definition sortClientCacheCap :: nat where
  "sortClientCacheCap = 4096"

definition sortClients :: "domain_env \<Rightarrow> DomainRegistry \<Rightarrow> string \<Rightarrow> DNS \<Rightarrow> (nat list \<times> DNS) option" where
  "sortClients env reg d s =
     (let key = ToLower d
      in case al_get (s_sortCache s) key of
           Some cs \<Rightarrow> Some (cs, s)
         | None \<Rightarrow> do {
             cs \<leftarrow> sortClientsForDomain env reg s key;
             let cache = (if sortClientCacheCap \<le> length (s_sortCache s) then [] else s_sortCache s);
             Some (cs, s\<lparr>s_sortCache := al_put key cs cache\<rparr>)
           })"

section \<open>Errors\<close>

fun merge_errors_loop :: "err_is \<Rightarrow> dns_error list \<Rightarrow> dns_error option \<Rightarrow> dns_error option option" where
  "merge_errors_loop wraps [] noRNF = Some noRNF"
| "merge_errors_loop wraps (e # es) noRNF =
     (if errors_Is wraps e ErrRecordNotFound then merge_errors_loop wraps es noRNF
      else case noRNF of
             None \<Rightarrow> merge_errors_loop wraps es (Some e)
           | Some x \<Rightarrow> if errors_Is wraps e x then merge_errors_loop wraps es noRNF else None)"

definition mergeQueryErrors :: "err_is \<Rightarrow> string \<Rightarrow> dns_error list \<Rightarrow> dns_error" where
  "mergeQueryErrors wraps d es =
     (if es = [] then ErrEmptyResponse
      else case merge_errors_loop wraps es None of
             None \<Rightarrow> LookupFailed d (Combined es)
           | Some noRNF \<Rightarrow>
               if is_error wraps noRNF ErrEmptyResponse then ErrEmptyResponse
               else LookupFailed d (case noRNF of None \<Rightarrow> ErrRecordNotFound | Some x \<Rightarrow> x))"

section \<open>Queries one after the other\<close>

definition set_client :: "nat \<Rightarrow> dns_client \<Rightarrow> DNS \<Rightarrow> DNS" where
  "set_client i c s = s\<lparr>s_clients := (s_clients s)[i := c]\<rparr>"

definition is_fake :: "dns_client \<Rightarrow> bool" where
  "is_fake c = EqualFold (cl_name c) ''FakeDNS''"

fun serial_loop :: "'s dns_env \<Rightarrow> 's IPRegistry \<Rightarrow> nat \<Rightarrow> string \<Rightarrow> IPOption \<Rightarrow> nat list \<Rightarrow> dns_error list \<Rightarrow> DNS \<Rightarrow> lookup_result \<times> DNS" where
  "serial_loop env ireg t d opt [] errs s = (([], 0, Some (mergeQueryErrors (dx_wraps env) d errs)), s)"
| "serial_loop env ireg t d opt (i # ids) errs s =
     (case dx_ctx env t of
        Some e \<Rightarrow> (([], 0, Some e), s)
      | None \<Rightarrow>
          if \<not> FakeEnable opt \<and> is_fake (s_clients s ! i) then serial_loop env ireg (Suc t) d opt ids errs s
          else (case Client_QueryIP env ireg t d opt (s_clients s ! i) of
                  ((ps, ttl, e), c') \<Rightarrow>
                    if ps \<noteq> [] then ((ps, ttl, None), set_client i c' s)
                    else serial_loop env ireg (Suc t) d opt ids (errs @ [case e of None \<Rightarrow> ErrEmptyResponse | Some x \<Rightarrow> x])
                           (set_client i c' s)))"

definition serialQuery :: "'s dns_env \<Rightarrow> 's dns_world \<Rightarrow> nat \<Rightarrow> string \<Rightarrow> IPOption \<Rightarrow> DNS \<Rightarrow> (lookup_result \<times> DNS) option" where
  "serialQuery env w t d opt s = do {
     (ids, s') \<leftarrow> sortClients (dx_dom env) (dw_domains w) d s;
     Some (serial_loop env (dw_ips w) t d opt ids [] s')
   }"

section \<open>Parallel queries\<close>

record group =
  g_start :: nat
  g_end :: nat

fun groups_loop :: "u32 list \<Rightarrow> nat \<Rightarrow> nat \<Rightarrow> nat \<Rightarrow> group list \<Rightarrow> nat list \<Rightarrow> group list \<times> nat list" where
  "groups_loop pids 0 s e gs gof =
     (gs @ [\<lparr>g_start = s, g_end = e\<rparr>], foldl (\<lambda>l k. l[k := length gs]) gof [s..<Suc e])"
| "groups_loop pids (Suc left) s e gs gof =
     (let i = length pids - Suc left
      in if pids ! (i - 1) = pids ! i then groups_loop pids left s i gs gof
         else groups_loop pids left i i (gs @ [\<lparr>g_start = s, g_end = e\<rparr>]) (foldl (\<lambda>l k. l[k := length gs]) gof [s..<Suc e]))"

text \<open>\<open>makeGroups\<close>: runs of neighbours with one policy, and the group of each client.\<close>

definition makeGroups :: "u32 list \<Rightarrow> group list \<times> nat list" where
  "makeGroups pids =
     (if pids = [] then ([], []) else groups_loop pids (length pids - 1) 0 0 [] (replicate (length pids) 0))"

definition group_success :: "lookup_result option list \<Rightarrow> group \<Rightarrow> nat option" where
  "group_success results g =
     List.find (\<lambda>j. case results ! j of Some (ps, ttl, None) \<Rightarrow> ps \<noteq> [] | _ \<Rightarrow> False) [g_start g..<Suc (g_end g)]"

datatype progress = Answer nat | Pending nat "dns_error list"

text \<open>The inner loop: the group whose turn it is answers, waits, or has failed. \<open>None\<close> is the panic of a missing
  result.\<close>

function advance :: "group list \<Rightarrow> lookup_result option list \<Rightarrow> nat list \<Rightarrow> nat \<Rightarrow> dns_error list \<Rightarrow> progress option" where
  "advance groups results pending nextGroup errs =
     (if nextGroup < length groups then
        let g = groups ! nextGroup
        in case group_success results g of
             Some j \<Rightarrow> Some (Answer j)
           | None \<Rightarrow>
               if 0 < pending ! nextGroup then Some (Pending nextGroup errs)
               else if \<exists>j \<in> set [g_start g..<Suc (g_end g)]. results ! j = None then None
               else advance groups results pending (Suc nextGroup)
                      (errs @ map (\<lambda>j. case snd (snd (the (results ! j))) of None \<Rightarrow> ErrEmptyResponse | Some x \<Rightarrow> x)
                                [g_start g..<Suc (g_end g)])
      else Some (Pending nextGroup errs))"
  by pat_completeness auto
termination
  by (relation "measure (\<lambda>(groups, _, _, n, _). length groups - n)") auto

declare advance.simps [simp del]

text \<open>What the loop receives: the result of a client, or the end of the context. Running out of arrivals before
  every client has answered is waiting for ever.\<close>

datatype arrival = Arrived nat lookup_result | ContextDone dns_error

fun parallel_loop :: "err_is \<Rightarrow> string \<Rightarrow> group list \<Rightarrow> nat list \<Rightarrow> nat \<Rightarrow> arrival list \<Rightarrow> lookup_result option list \<Rightarrow>
    nat list \<Rightarrow> nat \<Rightarrow> dns_error list \<Rightarrow> lookup_result option" where
  "parallel_loop wraps d groups groupOf 0 as results pending nextGroup errs = Some ([], 0, Some (mergeQueryErrors wraps d errs))"
| "parallel_loop wraps d groups groupOf (Suc n) [] results pending nextGroup errs = None"
| "parallel_loop wraps d groups groupOf (Suc n) (ContextDone e # as) results pending nextGroup errs = Some ([], 0, Some e)"
| "parallel_loop wraps d groups groupOf (Suc n) (Arrived i r # as) results pending nextGroup errs =
     (let results' = results[i := Some r]; pending' = pending[groupOf ! i := pending ! (groupOf ! i) - 1]
      in case advance groups results' pending' nextGroup errs of
           None \<Rightarrow> None
         | Some (Answer j) \<Rightarrow> (case results' ! j of Some (ps, ttl, e) \<Rightarrow> Some (ps, ttl, None) | None \<Rightarrow> None)
         | Some (Pending k errs') \<Rightarrow> parallel_loop wraps d groups groupOf n as results' pending' k errs')"

text \<open>What each client contributes, with the moment it is asked at; a fake client is skipped with an empty
  response. The status of the clients that answer is updated.\<close>

definition async_result :: "'s dns_env \<Rightarrow> 's IPRegistry \<Rightarrow> (nat \<Rightarrow> nat) \<Rightarrow> string \<Rightarrow> IPOption \<Rightarrow> dns_client list \<Rightarrow> nat \<Rightarrow>
    lookup_result \<times> dns_client" where
  "async_result env ireg at d opt clients k =
     (if \<not> FakeEnable opt \<and> is_fake (clients ! k) then (([], 0, Some ErrEmptyResponse), clients ! k)
      else Client_QueryIP env ireg (at k) d opt (clients ! k))"

text \<open>\<open>order\<close> is the order in which the results arrive, and \<open>done\<close> cuts it with the end of the context.\<close>

definition parallelQuery :: "'s dns_env \<Rightarrow> 's dns_world \<Rightarrow> (nat \<Rightarrow> nat) \<Rightarrow> nat list \<Rightarrow> (nat \<times> dns_error) option \<Rightarrow> string \<Rightarrow> IPOption \<Rightarrow> DNS \<Rightarrow>
    (lookup_result \<times> DNS) option" where
  "parallelQuery env w at order done d opt s = do {
     (ids, s') \<leftarrow> sortClients (dx_dom env) (dw_domains w) d s;
     let clients = map (\<lambda>i. s_clients s' ! i) ids;
     let (groups, groupOf) = makeGroups (map cl_policyID clients);
     let results = (\<lambda>k. async_result env (dw_ips w) at d opt clients k);
     let arrivals = map (\<lambda>k. Arrived k (fst (results k))) order;
     let arrivals' = (case done of None \<Rightarrow> arrivals | Some (n, e) \<Rightarrow> take n arrivals @ [ContextDone e]);
     r \<leftarrow> parallel_loop (dx_wraps env) d groups groupOf (length clients) arrivals' (replicate (length clients) None)
            (map (\<lambda>g. g_end g - g_start g + 1) groups) 0 [];
     Some (r, fold (\<lambda>k. set_client (ids ! k) (snd (results k))) order s')
   }"

section \<open>Lookups\<close>

definition host_error :: "err_is \<Rightarrow> string \<Rightarrow> dns_error \<Rightarrow> dns_error" where
  "host_error wraps d e = (if errors_Is wraps e ErrEmptyResponse then ErrEmptyResponse else LookupFailed d e)"

record query_plan =
  qp_at :: "nat \<Rightarrow> nat"
  qp_order :: "nat list"
  qp_done :: "(nat \<times> dns_error) option"

definition lookupIP :: "'s dns_env \<Rightarrow> 's dns_world \<Rightarrow> nat \<Rightarrow> query_plan \<Rightarrow> string \<Rightarrow> IPOption \<Rightarrow> DNS \<Rightarrow> (lookup_result \<times> DNS) option" where
  "lookupIP env w t plan d0 opt0 s =
     (case dx_ctx env t of
        Some e \<Rightarrow> Some (([], 0, Some e), s)
      | None \<Rightarrow>
          let d = TrimSuffix d0 ''.''; opt = narrow env t (s_checkSystem s) (s_ipOption s) opt0;
              query = (\<lambda>d. if s_enableParallelQuery s
                           then parallelQuery env w (qp_at plan) (qp_order plan) (qp_done plan) d opt s
                           else serialQuery env w (Suc t) d opt s)
          in if d = [] then Some (([], 0, Some EmptyDomainName), s)
             else if \<not> IPv4Enable opt \<and> \<not> IPv6Enable opt then Some (([], 0, Some ErrEmptyResponse), s)
             else do {
               r \<leftarrow> Hosts_Lookup (dx_dom env) (dw_domains w) (s_hosts s) d opt;
               case r of
                 Inl e \<Rightarrow> Some (([], 0, Some (host_error (dx_wraps env) d e)), s)
               | Inr None \<Rightarrow> query d
               | Inr (Some addrs) \<Rightarrow>
                   if addrs = [] then Some (([], 0, Some ErrEmptyResponse), s)
                   else do {
                     one \<leftarrow> sole_domain addrs;
                     if one then do { d' \<leftarrow> Rep_Domain (hd addrs); query d' }
                     else do {
                       ps \<leftarrow> toNetIP addrs;
                       Some (case ps of Inl e \<Rightarrow> ([], 0, Some e) | Inr qs \<Rightarrow> (qs, 10, None), s)
                     }
                   }
             })"

definition LookupIPByServerTag :: "'s dns_env \<Rightarrow> 's dns_world \<Rightarrow> nat \<Rightarrow> string \<Rightarrow> string \<Rightarrow> IPOption \<Rightarrow> DNS \<Rightarrow> lookup_result \<times> DNS" where
  "LookupIPByServerTag env w t serverTag0 d0 opt s =
     (case dx_ctx env t of
        Some e \<Rightarrow> (([], 0, Some e), s)
      | None \<Rightarrow>
          let serverTag = TrimSpace serverTag0; d = TrimSuffix (TrimSpace d0) ''.''
          in if serverTag = [] then (([], 0, Some ServerTagRequired), s)
             else if d = [] then (([], 0, Some EmptyDomainName), s)
             else (case List.find (\<lambda>i. cl_metricTag (s_clients s ! i) = serverTag) [0..<length (s_clients s)] of
                     None \<Rightarrow> (([], 0, Some (ServerTagNotFound serverTag)), s)
                   | Some i \<Rightarrow> (case Client_QueryIP env (dw_ips w) t d opt (s_clients s ! i) of (r, c') \<Rightarrow> (r, set_client i c' s))))"

fun raw_loop :: "'s dns_env \<Rightarrow> nat \<Rightarrow> byte list \<Rightarrow> nat list \<Rightarrow> dns_error option \<Rightarrow> DNS \<Rightarrow> (dns_error + byte list) \<times> DNS" where
  "raw_loop env t q [] lastErr s = (Inl (case lastErr of None \<Rightarrow> ErrEmptyResponse | Some e \<Rightarrow> e), s)"
| "raw_loop env t q (i # ids) lastErr s =
     (case Client_QueryRaw env t q (s_clients s ! i) of
        (Inl e, c') \<Rightarrow> raw_loop env (Suc t) q ids (Some e) (set_client i c' s)
      | (Inr response, c') \<Rightarrow>
          if response = [] then raw_loop env (Suc t) q ids (Some ErrEmptyResponse) (set_client i c' s)
          else (case ValidateRawResponse (dx_wire env) q response of
                  None \<Rightarrow> (Inr response, set_client i c' s)
                | Some e \<Rightarrow> raw_loop env (Suc t) q ids (Some e) (set_client i c' s)))"

definition LookupRawContext :: "'s dns_env \<Rightarrow> 's dns_world \<Rightarrow> nat \<Rightarrow> string \<Rightarrow> byte list \<Rightarrow> DNS \<Rightarrow> ((dns_error + byte list) \<times> DNS) option" where
  "LookupRawContext env w t d0 q s =
     (case dx_ctx env t of
        Some e \<Rightarrow> Some (Inl e, s)
      | None \<Rightarrow>
          let d = TrimSuffix d0 ''.''
          in if d = [] then Some (Inl EmptyDomainName, s)
             else do {
               (ids, s') \<leftarrow> sortClients (dx_dom env) (dw_domains w) d s;
               Some (raw_loop env (Suc t) q ids None s')
             })"

definition IsOwnLink :: "DNS \<Rightarrow> string option \<Rightarrow> bool" where
  "IsOwnLink s inboundTag = (case inboundTag of None \<Rightarrow> False | Some tag \<Rightarrow> list_ex (\<lambda>c. cl_tag c = tag) (s_clients s))"

definition DNS_UpstreamStatus :: "DNS \<Rightarrow> UpstreamStatus list" where
  "DNS_UpstreamStatus s = map cl_status (s_clients s)"

section \<open>Construction\<close>

definition localTLDsAndDotlessDomainsRules :: "DomainRule list" where
  "localTLDsAndDotlessDomainsRules =
     DomainRule_Custom (custom_domain Domain_Regex ''^[^.]+$'') #
     map (\<lambda>v. DomainRule_Custom (custom_domain Domain_Domain v))
       [''local'', ''localdomain'', ''localhost'', ''lan'', ''home.arpa'', ''example'', ''invalid'', ''test'']"

record DnsConfig =
  dc_ClientIp :: "byte list"
  dc_QueryStrategy :: QueryStrategy
  dc_StaticHosts :: "Config_HostMapping list"
  dc_Tag :: string
  dc_NameServer :: "NameServer list"
  dc_DisableCache :: bool
  dc_ServeStale :: bool
  dc_ServeExpiredTTL :: u32
  dc_DisableFallback :: bool
  dc_DisableFallbackIfMatch :: bool
  dc_EnableParallelQuery :: bool

datatype dns_config_error =
    BadClientIPLength nat | BadQueryStrategy QueryStrategy | HostsFailed hosts_error | NoQueryStrategy Address
  | ClientFailed client_error | DomainRulesFailed domain_error

definition strategy_option :: "QueryStrategy \<Rightarrow> (IPOption \<times> bool) option" where
  "strategy_option q =
     (case q of
        USE_IP \<Rightarrow> Some (\<lparr>IPv4Enable = True, IPv6Enable = True, FakeEnable = False\<rparr>, False)
      | USE_SYS \<Rightarrow> Some (\<lparr>IPv4Enable = True, IPv6Enable = True, FakeEnable = False\<rparr>, True)
      | USE_IP4 \<Rightarrow> Some (\<lparr>IPv4Enable = True, IPv6Enable = False, FakeEnable = False\<rparr>, False)
      | USE_IP6 \<Rightarrow> Some (\<lparr>IPv4Enable = False, IPv6Enable = True, FakeEnable = False\<rparr>, False)
      | OtherStrategy n \<Rightarrow> None)"

definition settings_of :: "DnsConfig \<Rightarrow> NameServer \<Rightarrow> server_settings" where
  "settings_of cfg ns =
     \<lparr>st_clientIP = (if length (ns_ClientIp ns) = 4 \<or> length (ns_ClientIp ns) = 16 then ns_ClientIp ns else dc_ClientIp cfg),
      st_disableCache = (case ns_DisableCache ns of Some b \<Rightarrow> b | None \<Rightarrow> dc_DisableCache cfg),
      st_serveStale = (case ns_ServeStale ns of Some b \<Rightarrow> b | None \<Rightarrow> dc_ServeStale cfg),
      st_serveExpiredTTL = (case ns_ServeExpiredTTL ns of Some n \<Rightarrow> n | None \<Rightarrow> dc_ServeExpiredTTL cfg)\<rparr>"

text \<open>The rules of a server come with one entry each that names it; \<open>uint16(clientIdx)\<close> keeps sixteen bits.\<close>

definition server_rules :: "bool \<Rightarrow> NameServer \<Rightarrow> DomainRule list" where
  "server_rules isLocal ns = (if isLocal then localTLDsAndDotlessDomainsRules else []) @ ns_Domain ns"

definition default_tag :: "nat \<Rightarrow> NameServer \<Rightarrow> dns_client \<Rightarrow> dns_client" where
  "default_tag clientIdx ns c =
     (if TrimSpace (ns_Tag ns) = [] then
        let tag = ''_default_'' @ nat_digits (Suc clientIdx)
        in c\<lparr>cl_metricTag := tag, cl_status := (cl_status c)\<lparr>us_ServerTag := tag\<rparr>\<rparr>
      else c)"

fun new_clients :: "'s dns_env \<Rightarrow> (NameServer \<Rightarrow> server_settings \<Rightarrow> string + dns_server) \<Rightarrow> DnsConfig \<Rightarrow> string \<Rightarrow> IPOption \<Rightarrow>
    NameServer list \<Rightarrow> dns_client list \<Rightarrow> DomainMatcherInfo list \<Rightarrow> DomainRule list \<Rightarrow> 's IPRegistry \<Rightarrow>
    (dns_config_error + (dns_client list \<times> DomainMatcherInfo list \<times> DomainRule list)) \<times> 's IPRegistry" where
  "new_clients env newServer cfg defaultTag opt [] clients infos rules reg = (Inr (clients, infos, rules), reg)"
| "new_clients env newServer cfg defaultTag opt (ns # nss) clients infos rules reg =
     (let clientIPOption = ResolveIpOptionOverride (ns_QueryStrategy ns) opt;
          tag = (if ns_Tag ns \<noteq> [] then ns_Tag ns else defaultTag)
      in if \<not> IPv4Enable clientIPOption \<and> \<not> IPv6Enable clientIPOption then (Inl (NoQueryStrategy (ns_Address ns)), reg)
         else (case NewClient env newServer ns (settings_of cfg ns) tag clientIPOption reg of
                 (Inl e, reg') \<Rightarrow> (Inl (ClientFailed e), reg')
               | (Inr (c, isLocal), reg') \<Rightarrow>
                   new_clients env newServer cfg defaultTag opt nss (clients @ [default_tag (length clients) ns c])
                     (infos @ map (\<lambda>r. \<lparr>mi_clientIdx = of_nat (length clients), mi_domainRule = r\<rparr>) (server_rules isLocal ns))
                     (rules @ server_rules isLocal ns) reg'))"

text \<open>The fields of the server; without a name server the resolver of the system is the only client.\<close>

definition server_of :: "DnsConfig \<Rightarrow> IPOption \<Rightarrow> bool \<Rightarrow> StaticHosts \<Rightarrow> nat \<Rightarrow> dns_client list \<Rightarrow> DomainMatcherInfo list \<Rightarrow> nat option \<Rightarrow> DNS" where
  "server_of cfg opt checkSystem hosts localHandle clients infos matcher =
     \<lparr>s_disableFallback = dc_DisableFallback cfg, s_disableFallbackIfMatch = dc_DisableFallbackIfMatch cfg,
      s_enableParallelQuery = dc_EnableParallelQuery cfg, s_ipOption = opt, s_hosts = hosts,
      s_clients = (if clients = [] then [NewLocalDNSClient localHandle opt] else clients),
      s_domainMatcher = matcher, s_matcherInfos = infos, s_checkSystem = checkSystem, s_sortCache = []\<rparr>"

definition DNS_New :: "'s dns_env \<Rightarrow> (NameServer \<Rightarrow> server_settings \<Rightarrow> string + dns_server) \<Rightarrow> string \<Rightarrow> nat \<Rightarrow> DnsConfig \<Rightarrow> 's dns_world \<Rightarrow>
    ((dns_config_error + DNS) \<times> 's dns_world) option" where
  "DNS_New env newServer randomTag localHandle cfg w =
     (if length (dc_ClientIp cfg) \<notin> {0, 4, 16} then Some (Inl (BadClientIPLength (length (dc_ClientIp cfg))), w)
      else case strategy_option (dc_QueryStrategy cfg) of
             None \<Rightarrow> Some (Inl (BadQueryStrategy (dc_QueryStrategy cfg)), w)
           | Some (opt, checkSystem) \<Rightarrow>
               (case NewStaticHosts (dx_dom env) (dc_StaticHosts cfg) (dw_domains w) of
                  None \<Rightarrow> None
                | Some (Inl e, reg) \<Rightarrow> Some (Inl (HostsFailed e), w\<lparr>dw_domains := reg\<rparr>)
                | Some (Inr hosts, reg) \<Rightarrow>
                    (case new_clients env newServer cfg (if dc_Tag cfg = [] then randomTag else dc_Tag cfg) opt (dc_NameServer cfg)
                            [] [] [] (dw_ips w) of
                       (Inl e, ireg) \<Rightarrow> Some (Inl e, w\<lparr>dw_domains := reg, dw_ips := ireg\<rparr>)
                     | (Inr (clients, infos, rules), ireg) \<Rightarrow>
                         let server = server_of cfg opt checkSystem hosts localHandle clients infos
                         in if rules = [] then Some (Inr (server None), w\<lparr>dw_domains := reg, dw_ips := ireg\<rparr>)
                            else (case BuildDomainMatcher (dx_dom env) reg rules of
                                    None \<Rightarrow> None
                                  | Some (Inl e, reg') \<Rightarrow> Some (Inl (DomainRulesFailed e), w\<lparr>dw_domains := reg', dw_ips := ireg\<rparr>)
                                  | Some (Inr m, reg') \<Rightarrow>
                                      Some (Inr (server (Some (length (dr_matchers reg)))), w\<lparr>dw_domains := reg', dw_ips := ireg\<rparr>)))))"

end
