(* ===== verification/DnsHostsProofs.thy ===== *)
theory DnsHostsProofs
  imports DnsHosts DomainProps
begin

text \<open>
  What a lookup in the static hosts gives, in terms of the mappings whose rules mean the domain: no panic, no
  address of a family that was not asked for, chains of replaced domains of bounded length, and response codes.
\<close>

section \<open>The matcher of the hosts\<close>

definition rule_hits :: "domain_env \<Rightarrow> DomainRule list \<Rightarrow> string \<Rightarrow> nat set" where
  "rule_hits env rules s = {i. i < length rules \<and> (\<exists>m \<in> set (rule_matchers env (rules ! i)). mMatch m s)}"

lemma rules_entries_set:
  "(m, v) \<in> set (rules_entries env k rules) \<longleftrightarrow>
     (\<exists>i < length rules. v = of_nat (k + i) \<and> m \<in> set (rule_matchers env (rules ! i)))"
proof (induction env k rules rule: rules_entries.induct)
  case (2 env k r rs)
  have "(\<exists>i < length (r # rs). v = of_nat (k + i) \<and> m \<in> set (rule_matchers env ((r # rs) ! i))) \<longleftrightarrow>
      (v = of_nat k \<and> m \<in> set (rule_matchers env r)) \<or>
      (\<exists>i < length rs. v = of_nat (Suc k + i) \<and> m \<in> set (rule_matchers env (rs ! i)))"
    by (auto simp: less_Suc_eq_0_disj)
  then show ?case using 2 by auto
qed simp

lemma mph_Match_hits:
  assumes "mph_built env rules g" "clean_rules env rules" "range_order (de_ord env)" "no_upper s"
  shows "\<exists>vs. MphValue_Match (de_mh env) g s = Some vs \<and> set vs = of_nat ` rule_hits env rules s"
proof -
  obtain vs where vs: "MphValue_Match (de_mh env) g s = Some vs"
      "set vs = {v. \<exists>m. (m, v) \<in> set (rules_entries env 0 rules) \<and> mMatch m s}"
    using MphValue_Match_spec(1) [OF _ _ _ clean_value_admissible [OF assms(2)] assms(3,4) assms(1) [unfolded mph_built_def]]
    by (auto simp: NewMphValueMatcher_def)
  then show ?thesis unfolding rules_entries_set rule_hits_def by (intro exI [of _ vs]) auto
qed

lemma no_upper_ToLower: "no_upper (ToLower d)"
proof -
  have "\<not> is_upper (lower_char c)" for c
  proof (cases "is_upper c")
    case True
    then have "is_lower (lower_char c)" by (rule lower_char_upper)
    moreover have "CHR ''Z'' < CHR ''a''" by (simp add: less_char_def)
    ultimately show ?thesis unfolding is_lower_def is_upper_def by (meson leD less_le_trans)
  qed (simp add: lower_char_not_upper)
  then show ?thesis by (simp add: no_upper_def ToLower_def list_all_iff)
qed

section \<open>Hosts in use\<close>

definition hosts_ready :: "domain_env \<Rightarrow> DomainRegistry \<Rightarrow> Config_HostMapping list \<Rightarrow> StaticHosts \<Rightarrow> bool" where
  "hosts_ready env reg hosts h \<longleftrightarrow> hosts_reps hosts = Inr (hs_responses h) \<and> clean_rules env (map hm_Domain hosts) \<and>
     range_order (de_ord env) \<and>
     (\<exists>i g. hs_matcher h = Some i \<and> i < length (dr_matchers reg) \<and> dd_matcher (dr_matchers reg ! i) = MphMatcher g \<and>
        mph_built env (map hm_Domain hosts) g)"

lemma hosts_reps_length: "hosts_reps hosts = Inr reps \<Longrightarrow> length reps = length hosts"
  by (induction hosts arbitrary: reps) (auto split: sum.splits)

lemma BuildDomainMatcher_mph:
  assumes "BuildDomainMatcher env reg rules = Some (Inr d, reg')" "dr_factory reg = MphFactory cache"
    "factory_ok env (dr_factory reg)" "list_all keyable rules"
  shows "\<exists>g cache'. dd_matcher d = MphMatcher g \<and> mph_built env rules g \<and> dr_matchers reg' = dr_matchers reg @ [d] \<and>
    dr_factory reg' = MphFactory cache' \<and> factory_ok env (dr_factory reg')"
proof -
  obtain m f where m: "BuildMatcher env (dr_factory reg) rules = Some (Inr m, f)" "dd_matcher d = m"
      "reg' = reg\<lparr>dr_factory := f, dr_matchers := dr_matchers reg @ [d]\<rparr>"
    using assms(1) by (auto simp: BuildDomainMatcher_def NewDynamicDomainMatcher_def dd_Reload_def Let_def split: option.splits sum.splits prod.splits)
  moreover obtain g c where "m = MphMatcher g" "f = MphFactory c" using m(1) assms(2) by (auto simp: map_sum_eq_Inr)
  ultimately show ?thesis using BuildMatcher_built [OF assms(3,4) m(1)] by auto
qed

lemma NewStaticHosts_ready:
  assumes "NewStaticHosts env hosts reg = Some (Inr h, reg')" "hosts \<noteq> []" "dr_factory reg = MphFactory cache"
    "factory_ok env (dr_factory reg)" "list_all keyable (map hm_Domain hosts)" "clean_rules env (map hm_Domain hosts)"
    "range_order (de_ord env)"
  shows "hosts_ready env reg' hosts h \<and> (\<exists>cache'. dr_factory reg' = MphFactory cache') \<and> factory_ok env (dr_factory reg')"
proof -
  obtain reps d where d: "hosts_reps hosts = Inr reps" "BuildDomainMatcher env reg (map hm_Domain hosts) = Some (Inr d, reg')"
      "h = \<lparr>hs_responses = reps, hs_matcher = Some (length (dr_matchers reg))\<rparr>"
    using assms(1,2) by (auto simp: NewStaticHosts_def split: sum.splits option.splits prod.splits)
  then show ?thesis using BuildDomainMatcher_mph [OF d(2) assms(3,4,5)] assms(6,7) by (auto simp: hosts_ready_def)
qed

text \<open>The mappings whose rules mean a domain, and what they answer.\<close>

abbreviation host_hits :: "domain_env \<Rightarrow> Config_HostMapping list \<Rightarrow> string \<Rightarrow> nat set" where
  "host_hits env hosts d \<equiv> rule_hits env (map hm_Domain hosts) (ToLower d)"

text \<open>The indices that the matcher of the hosts reports for a domain, one for every match.\<close>

definition host_report :: "domain_env \<Rightarrow> DomainRegistry \<Rightarrow> StaticHosts \<Rightarrow> string \<Rightarrow> nat list" where
  "host_report env reg h d =
     (case hs_matcher h of None \<Rightarrow> [] | Some i \<Rightarrow> map unat (the (dd_Match env (dr_matchers reg ! i) (ToLower d))))"

lemma lookup_hits:
  assumes "hosts_ready env reg hosts h"
  shows "\<exists>vs. lookupInternal env reg h (ToLower d) = hosts_loop h vs [] False \<and> map unat vs = host_report env reg h d \<and>
    set (host_report env reg h d) = host_hits env hosts d \<and> (\<forall>v \<in> set vs. unat v < length (hs_responses h))"
proof -
  obtain i g where g: "hs_matcher h = Some i" "i < length (dr_matchers reg)" "dd_matcher (dr_matchers reg ! i) = MphMatcher g"
      "mph_built env (map hm_Domain hosts) g" and c: "clean_rules env (map hm_Domain hosts)" "range_order (de_ord env)"
      and r: "hosts_reps hosts = Inr (hs_responses h)"
    using assms by (auto simp: hosts_ready_def)
  from mph_Match_hits [OF g(4) c no_upper_ToLower] obtain vs where
    vs: "MphValue_Match (de_mh env) g (ToLower d) = Some vs" "set vs = of_nat ` host_hits env hosts d" by blast
  have rep: "host_report env reg h d = map unat vs" using g vs(1) by (simp add: host_report_def dd_Match_def)
  have small: "unat (of_nat j :: u32) = j" if "j \<in> host_hits env hosts d" for j
  proof -
    have "j < 65536" using that c(1) by (auto simp: rule_hits_def clean_rules_def)
    then show ?thesis by (simp add: unat_of_nat)
  qed
  have hits: "unat ` set vs = host_hits env hosts d" unfolding vs(2) image_image using small by auto
  moreover have "\<forall>v \<in> set vs. unat v < length (hs_responses h)"
    using hits hosts_reps_length [OF r] by (auto simp: rule_hits_def)
  moreover have "lookupInternal env reg h (ToLower d) = hosts_loop h vs [] False"
    using g vs(1) by (simp add: lookupInternal_def dd_Match_def)
  ultimately show ?thesis using rep by auto
qed

lemma rcode_None: "rcode_of ps = None \<longleftrightarrow> (\<forall>a \<in> set ps. \<exists>p. a = RepAddress p)"
  by (induction ps rule: rcode_of.induct) auto

definition code_error :: "u16 \<Rightarrow> dns_error" where
  "code_error c = (if c = 0 then ErrEmptyResponse else RCodeError c)"

text \<open>What the mappings of a report say: the response codes among them, and the addresses.\<close>

definition host_codes :: "StaticHosts \<Rightarrow> nat list \<Rightarrow> u16 list" where
  "host_codes h js = List.map_filter (\<lambda>i. rcode_of (hs_responses h ! i)) js"

definition host_addrs :: "StaticHosts \<Rightarrow> nat list \<Rightarrow> host_rep list" where
  "host_addrs h js = concat (map (\<lambda>i. hs_responses h ! i) js)"

lemma hosts_loop_spec:
  "\<forall>v \<in> set vs. unat v < length (hs_responses h) \<Longrightarrow>
   hosts_loop h vs acc found = Some (case host_codes h (map unat vs) of
     c # cs \<Rightarrow> Inl (code_error c)
   | [] \<Rightarrow> Inr (if found \<or> vs \<noteq> [] then Some (acc @ host_addrs h (map unat vs)) else None))"
proof (induction h vs acc found rule: hosts_loop.induct)
  case (2 h w vs acc found)
  show ?case
  proof (cases "rcode_of (hs_responses h ! unat w)")
    case None
    then have "hosts_loop h (w # vs) acc found = hosts_loop h vs (acc @ hs_responses h ! unat w) True" using 2(2) by (simp add: Let_def)
    moreover have "host_codes h (map unat (w # vs)) = host_codes h (map unat vs)"
      "host_addrs h (map unat (w # vs)) = hs_responses h ! unat w @ host_addrs h (map unat vs)"
      using None by (simp_all add: host_codes_def host_addrs_def map_filter_simps)
    ultimately show ?thesis using 2 None by (simp del: hosts_loop.simps list.map split: list.splits)
  next
    case (Some c)
    then show ?thesis using 2(2) by (simp add: Let_def code_error_def host_codes_def map_filter_simps)
  qed
qed (simp add: host_codes_def host_addrs_def map_filter_simps)

text \<open>The result of one round of a lookup.\<close>

definition host_round :: "StaticHosts \<Rightarrow> nat list \<Rightarrow> dns_error + host_rep list option" where
  "host_round h js =
     (case host_codes h js of
        c # cs \<Rightarrow> Inl (code_error c)
      | [] \<Rightarrow> Inr (if js = [] then None else Some (host_addrs h js)))"

lemma lookup_round:
  assumes "hosts_ready env reg hosts h"
  shows "lookupInternal env reg h (ToLower d) = Some (host_round h (host_report env reg h d))"
    "set (host_report env reg h d) = host_hits env hosts d"
proof -
  obtain vs where vs: "lookupInternal env reg h (ToLower d) = hosts_loop h vs [] False" "map unat vs = host_report env reg h d"
      "set (host_report env reg h d) = host_hits env hosts d" "\<forall>v \<in> set vs. unat v < length (hs_responses h)"
    using lookup_hits [OF assms] by blast
  have "vs = [] \<longleftrightarrow> host_report env reg h d = []" using vs(2) by auto
  then show "lookupInternal env reg h (ToLower d) = Some (host_round h (host_report env reg h d))"
    using hosts_loop_spec [OF vs(4), of "[]" False] by (simp add: vs(1,2) host_round_def split: list.split)
  show "set (host_report env reg h d) = host_hits env hosts d" by (rule vs(3))
qed

section \<open>Lookups\<close>

fun rep_enabled :: "IPOption \<Rightarrow> host_rep \<Rightarrow> bool" where
  "rep_enabled opt (RepAddress p) = family_enabled opt (Family p)"
| "rep_enabled opt (RepRCode c) = False"

lemma filterIP_filter: "\<forall>a \<in> set ps. \<exists>p. a = RepAddress p \<Longrightarrow> filterIP ps opt = Some (filter (rep_enabled opt) ps)"
  by (induction ps opt rule: filterIP.induct) auto

lemma host_codes_None: "host_codes h js = [] \<Longrightarrow> a \<in> set (host_addrs h js) \<Longrightarrow> \<exists>p. a = RepAddress p"
proof (induction js)
  case (Cons j js)
  then have "rcode_of (hs_responses h ! j) = None" "host_codes h js = []"
    by (auto simp: host_codes_def map_filter_simps split: option.splits)
  then show ?case using Cons by (auto simp: rcode_None host_addrs_def)
qed (simp add: host_addrs_def)

text \<open>A domain is replaced when its mappings give one domain and nothing else; a chain of replaced domains, as the
  list of the domains after the first.\<close>

definition replaced :: "StaticHosts \<Rightarrow> (string \<Rightarrow> nat list) \<Rightarrow> string \<Rightarrow> string option" where
  "replaced h report d =
     (if host_codes h (report d) = []
      then (case host_addrs h (report d) of [RepAddress (domainAddress x)] \<Rightarrow> Some x | _ \<Rightarrow> None) else None)"

primrec replaced_path :: "(string \<Rightarrow> string option) \<Rightarrow> string \<Rightarrow> string list \<Rightarrow> string \<Rightarrow> bool" where
  "replaced_path f d [] e \<longleftrightarrow> d = e"
| "replaced_path f d (x # xs) e \<longleftrightarrow> f d = Some x \<and> replaced_path f x xs e"

text \<open>What a lookup answers when the chain ends at a domain: the first response code of its mappings; without a
  mapping nothing at all, or the domain itself when it replaced another; and else a replacement that was not
  followed any more, or the addresses of the families that were asked for.\<close>

definition host_answer :: "StaticHosts \<Rightarrow> (string \<Rightarrow> nat list) \<Rightarrow> IPOption \<Rightarrow> bool \<Rightarrow> string \<Rightarrow> dns_error + host_rep list option" where
  "host_answer h report opt first e =
     (case host_codes h (report e) of
        c # cs \<Rightarrow> Inl (code_error c)
      | [] \<Rightarrow>
          Inr (if report e = [] then (if first then None else Some [RepAddress (domainAddress e)])
               else case replaced h report e of
                      Some x \<Rightarrow> Some [RepAddress (domainAddress x)]
                    | None \<Rightarrow> Some (filter (rep_enabled opt) (host_addrs h (report e)))))"

text \<open>The chain has at most \<open>n\<close> steps, and stops earlier only at a domain that is not replaced.\<close>

definition host_outcome :: "StaticHosts \<Rightarrow> (string \<Rightarrow> nat list) \<Rightarrow> IPOption \<Rightarrow> nat \<Rightarrow> string \<Rightarrow> dns_error + host_rep list option \<Rightarrow> bool" where
  "host_outcome h report opt n d r \<longleftrightarrow>
     (\<exists>xs e. replaced_path (replaced h report) d xs e \<and> length xs \<le> n \<and> (length xs < n \<longrightarrow> replaced h report e = None) \<and>
        r = host_answer h report opt (xs = []) e)"

lemma replaced_Some:
  assumes "replaced h report d = Some x"
  shows "host_codes h (report d) = []" "host_addrs h (report d) = [RepAddress (domainAddress x)]" "report d \<noteq> []"
proof -
  show c: "host_codes h (report d) = []" "host_addrs h (report d) = [RepAddress (domainAddress x)]"
    using assms by (auto simp: replaced_def split: if_splits list.splits host_rep.splits Address.splits)
  then show "report d \<noteq> []" by (auto simp: host_addrs_def)
qed

lemma not_replaced_sole:
  assumes "replaced h report d = None" "host_codes h (report d) = []"
  shows "sole_domain (host_addrs h (report d)) = Some False"
proof (cases "length (host_addrs h (report d)) = 1")
  case True
  then obtain a where a: "host_addrs h (report d) = [a]" by (auto simp: length_Suc_conv)
  then obtain p where "a = RepAddress p" using host_codes_None [OF assms(2)] by auto
  then show ?thesis using assms a by (cases p) (auto simp: sole_domain_def IsDomain_def replaced_def)
qed (simp add: sole_domain_def)

lemma hosts_lookup_end:
  assumes "hosts_ready env reg hosts h" "replaced h (host_report env reg h) d = None"
  shows "hosts_lookup env reg h d opt n = Some (host_answer h (host_report env reg h) opt True d)"
proof (cases "host_codes h (host_report env reg h d) = [] \<and> host_report env reg h d \<noteq> []")
  case False
  then show ?thesis using lookup_round(1) [OF assms(1), of d]
    by (subst hosts_lookup.simps) (auto simp: host_round_def host_answer_def split: list.splits)
next
  case True
  let ?as = "host_addrs h (host_report env reg h d)"
  have "lookupInternal env reg h (ToLower d) = Some (Inr (Some ?as))" using lookup_round(1) [OF assms(1), of d] True by (simp add: host_round_def)
  moreover have "filterIP ?as opt = Some (filter (rep_enabled opt) ?as)" using host_codes_None True by (intro filterIP_filter) blast
  ultimately show ?thesis using True assms(2) not_replaced_sole [OF assms(2)]
    by (subst hosts_lookup.simps) (cases "?as = []"; simp add: host_answer_def)
qed

lemma hosts_lookup_follow:
  assumes "hosts_ready env reg hosts h" "replaced h (host_report env reg h) d = Some x"
  shows "hosts_lookup env reg h d opt 0 = Some (Inr (Some [RepAddress (domainAddress x)]))"
    "hosts_lookup env reg h x opt n = Some r \<Longrightarrow>
     hosts_lookup env reg h d opt (Suc n) = Some (if r = Inr None then Inr (Some [RepAddress (domainAddress x)]) else r)"
proof -
  note x = replaced_Some [OF assms(2)]
  have l: "lookupInternal env reg h (ToLower d) = Some (Inr (Some [RepAddress (domainAddress x)]))"
    using lookup_round(1) [OF assms(1), of d] x by (simp add: host_round_def)
  show "hosts_lookup env reg h d opt 0 = Some (Inr (Some [RepAddress (domainAddress x)]))"
    using l by (subst hosts_lookup.simps) (simp add: sole_domain_def IsDomain_def)
  show "hosts_lookup env reg h d opt (Suc n) = Some (if r = Inr None then Inr (Some [RepAddress (domainAddress x)]) else r)"
    if "hosts_lookup env reg h x opt n = Some r"
    using l that by (subst hosts_lookup.simps) (auto simp: sole_domain_def IsDomain_def split: sum.splits option.splits)
qed

lemma hosts_lookup_outcome:
  assumes "hosts_ready env reg hosts h"
  shows "\<exists>r. hosts_lookup env reg h d opt n = Some r \<and> host_outcome h (host_report env reg h) opt n d r"
proof (induction n arbitrary: d)
  case 0
  let ?r = "host_report env reg h"
  show ?case
  proof (cases "replaced h ?r d")
    case None
    then show ?thesis using hosts_lookup_end [OF assms None] by (auto simp: host_outcome_def)
  next
    case (Some x)
    then have "host_answer h ?r opt True d = Inr (Some [RepAddress (domainAddress x)])" using replaced_Some [OF Some] by (simp add: host_answer_def)
    then show ?thesis using hosts_lookup_follow(1) [OF assms Some] by (auto simp: host_outcome_def)
  qed
next
  case (Suc n)
  let ?r = "host_report env reg h"
  show ?case
  proof (cases "replaced h ?r d")
    case None
    then have "host_outcome h ?r opt (Suc n) d (host_answer h ?r opt True d)" unfolding host_outcome_def by (intro exI [of _ "[]"] exI [of _ d]) simp
    then show ?thesis using hosts_lookup_end [OF assms None] by blast
  next
    case (Some x)
    obtain xs e where o1: "hosts_lookup env reg h x opt n = Some (host_answer h ?r opt (xs = []) e)" "replaced_path (replaced h ?r) x xs e"
        "length xs \<le> n" "length xs < n \<longrightarrow> replaced h ?r e = None" using Suc [of x] by (auto simp: host_outcome_def)
    have none: "host_answer h ?r opt False e = (if host_answer h ?r opt (xs = []) e = Inr None then Inr (Some [RepAddress (domainAddress x)])
        else host_answer h ?r opt (xs = []) e)"
      using o1(2) by (cases xs) (auto simp: host_answer_def split: list.splits option.splits)
    have "host_outcome h ?r opt (Suc n) d (host_answer h ?r opt False e)"
      unfolding host_outcome_def using Some o1(2,3,4) by (intro exI [of _ "x # xs"] exI [of _ e]) simp
    then show ?thesis using hosts_lookup_follow(2) [OF assms Some o1(1)] none by auto
  qed
qed

text \<open>C34. A lookup in the static hosts never panics and always ends. The matcher reports exactly the mappings whose
  rules mean a domain, perhaps some more than once. The lookup follows the replaced domains, where the
  report gives one domain and nothing else, for exactly as long as they go, up to five; what it answers is decided by
  the domain where the chain ends: the first response code there; nothing when no mapping means the domain
  asked for; the last domain when no mapping means it, or when the chain is cut; and otherwise exactly the reported
  addresses of the families that were asked for, in order. The patterns of the rules are clean: no leading
  dots and at most 65536 rules.\<close>

theorem static_hosts_exact:
  assumes "hosts_ready env reg hosts h"
  shows "(\<forall>x. set (host_report env reg h x) = host_hits env hosts x) \<and>
    (\<exists>r. Hosts_Lookup env reg h d opt = Some r \<and> host_outcome h (host_report env reg h) opt 5 d r)"
proof -
  have "hs_matcher h \<noteq> None" using assms by (auto simp: hosts_ready_def)
  then have "Hosts_Lookup env reg h d opt = hosts_lookup env reg h d opt 5" unfolding Hosts_Lookup_def by (simp only: if_False)
  then show ?thesis using hosts_lookup_outcome [OF assms, of d opt 5] lookup_round(2) [OF assms] by auto
qed

section \<open>A substring rule that occurs twice\<close>

declare build_loop.simps [code] fail_path.simps [code]

definition keyword_group :: MphValueMatcher where
  "keyword_group = the (MphValue_Build (\<lambda>seed s. seed) (\<lambda>xs. xs) (MphValue_Add (SubstrMatcher ''a'') 0 NewMphValueMatcher))"

lemma keyword_build:
  "MphValue_Build (\<lambda>seed s. seed) (\<lambda>xs. xs) (MphValue_Add (SubstrMatcher ''a'') 0 NewMphValueMatcher) = Some keyword_group"
proof -
  have "MphValue_Build (\<lambda>seed s. seed) (\<lambda>xs. xs) (MphValue_Add (SubstrMatcher ''a'') 0 NewMphValueMatcher) \<noteq> None"
    by code_simp
  then show ?thesis by (simp add: keyword_group_def)
qed

lemma keyword_matches:
  "MphValue_Match (\<lambda>seed s. seed) keyword_group ''a'' = Some [0]"
  "MphValue_Match (\<lambda>seed s. seed) keyword_group ''aa'' = Some [0, 0]"
  "MphValue_Match (\<lambda>seed s. seed) keyword_group ''b'' = Some []"
  unfolding keyword_group_def by code_simp+

definition keyword_rule :: DomainRule where
  "keyword_rule = DomainRule_Custom (custom_domain 0 ''a'')"

definition keyword_hosts :: "Config_HostMapping list" where
  "keyword_hosts = [\<lparr>hm_Domain = keyword_rule, hm_Ip = [], hm_ProxiedDomain = ''b''\<rparr>]"

definition keyword_registry :: DomainRegistry where
  "keyword_registry = \<lparr>dr_factory = MphFactory [], dr_matchers = [\<lparr>dd_rules = [keyword_rule], dd_matcher = MphMatcher keyword_group\<rparr>]\<rparr>"

definition keyword_static :: StaticHosts where
  "keyword_static = \<lparr>hs_responses = [[RepAddress (domainAddress ''b'')]], hs_matcher = Some 0\<rparr>"

lemma keyword_matchers: "rule_matchers ex_env keyword_rule = [SubstrMatcher ''a'']"
  by (simp add: keyword_rule_def rule_matchers_def parsed_domains_def map_filter_simps parseDomain_def custom_domain_def
      NewDomainPattern_def pattern_result_def ex_ToDomain lower_ldh_def is_lower_def less_eq_char_def)

lemma keyword_ready: "hosts_ready ex_env keyword_registry keyword_hosts keyword_static"
proof -
  have "hosts_reps keyword_hosts = Inr (hs_responses keyword_static)"
    by (simp add: keyword_hosts_def keyword_static_def mapping_reps_def)
  moreover have "clean_rules ex_env (map hm_Domain keyword_hosts)"
    by (simp add: clean_rules_def keyword_hosts_def keyword_matchers)
  moreover have "mph_built ex_env (map hm_Domain keyword_hosts) keyword_group"
  proof -
    have "de_mh ex_env = (\<lambda>seed s. seed)" "de_ord ex_env = (\<lambda>xs. xs)" by (simp_all add: ex_env_def)
    then show ?thesis using keyword_build by (simp add: mph_built_def keyword_hosts_def keyword_matchers build_group_def)
  qed
  ultimately show ?thesis using ex_factory(2) by (simp add: hosts_ready_def keyword_registry_def keyword_static_def)
qed

lemma keyword_lookup:
  "lookupInternal ex_env keyword_registry keyword_static ''a'' = Some (Inr (Some [RepAddress (domainAddress ''b'')]))"
  "lookupInternal ex_env keyword_registry keyword_static ''aa'' =
     Some (Inr (Some [RepAddress (domainAddress ''b''), RepAddress (domainAddress ''b'')]))"
  "lookupInternal ex_env keyword_registry keyword_static ''b'' = Some (Inr None)"
  by (simp_all add: lookupInternal_def keyword_registry_def keyword_static_def dd_Match_def ex_env_def keyword_matches Let_def)

lemma keyword_lower: "ToLower ''a'' = ''a''" "ToLower ''aa'' = ''aa''" "ToLower ''b'' = ''b''"
  by (simp_all add: ToLower_def lower_char_def is_upper_def less_eq_char_def)

definition both_families :: IPOption where
  "both_families = \<lparr>IPv4Enable = True, IPv6Enable = True, FakeEnable = False\<rparr>"

theorem static_hosts_exact_witness:
  "\<exists>r. Hosts_Lookup ex_env keyword_registry keyword_static ''a'' both_families = Some r \<and>
     host_outcome keyword_static (host_report ex_env keyword_registry keyword_static) both_families 5 ''a'' r"
  using static_hosts_exact [OF keyword_ready] by blast

text \<open>A mapping of a substring rule to another domain is lost for domains that contain the substring
  twice: the matcher reports the rule once per occurrence, the two equal answers no longer count as one
  replaced domain, and the lookup ends with an empty list instead of the domain.\<close>

theorem hosts_replacement_lost:
  "Hosts_Lookup ex_env keyword_registry keyword_static ''a'' both_families = Some (Inr (Some [RepAddress (domainAddress ''b'')])) \<and>
   Hosts_Lookup ex_env keyword_registry keyword_static ''aa'' both_families = Some (Inr (Some []))"
proof -
  have m: "hs_matcher keyword_static \<noteq> None" by (simp add: keyword_static_def)
  have "hosts_lookup ex_env keyword_registry keyword_static ''b'' both_families n = Some (Inr None)" for n
    by (subst hosts_lookup.simps) (simp add: keyword_lower keyword_lookup)
  then have "hosts_lookup ex_env keyword_registry keyword_static ''a'' both_families 5 = Some (Inr (Some [RepAddress (domainAddress ''b'')]))"
    by (subst hosts_lookup.simps) (simp add: keyword_lower keyword_lookup sole_domain_def IsDomain_def)
  moreover have "hosts_lookup ex_env keyword_registry keyword_static ''aa'' both_families 5 = Some (Inr (Some []))"
    by (subst hosts_lookup.simps)
      (simp add: keyword_lower keyword_lookup sole_domain_def family_enabled_def IsIPv4_def IsIPv6_def)
  ultimately show ?thesis using m by (simp add: Hosts_Lookup_def)
qed

end
