(* ===== verification/DnsOrder.thy ===== *)
theory DnsOrder
  imports DnsServer DnsHostsProofs
begin

text \<open>
  The order in which the DNS server asks its clients, against a definition that says it at once: the clients whose
  rules mean the domain in the order of the rules, then the others, each once, up to the first that is final.
\<close>

section \<open>Lists without repetition\<close>

fun firsts :: "'a set \<Rightarrow> 'a list \<Rightarrow> 'a list" where
  "firsts S [] = []"
| "firsts S (x # xs) = (if x \<in> S then firsts S xs else x # firsts (insert x S) xs)"

fun upto_final :: "('a \<Rightarrow> bool) \<Rightarrow> 'a list \<Rightarrow> 'a list" where
  "upto_final p [] = []"
| "upto_final p (x # xs) = (if p x then [x] else x # upto_final p xs)"

lemma set_firsts: "set (firsts S xs) = set xs - S"
  by (induction S xs rule: firsts.induct) auto

lemma distinct_firsts: "distinct (firsts S xs)"
  by (induction S xs rule: firsts.induct) (auto simp: set_firsts)

lemma firsts_append: "firsts S (xs @ ys) = firsts S xs @ firsts (S \<union> set xs) ys"
  by (induction S xs rule: firsts.induct) (auto simp: insert_absorb)

lemma set_upto_final: "set (upto_final p xs) \<subseteq> set xs"
  by (induction xs) auto

lemma distinct_upto_final: "distinct xs \<Longrightarrow> distinct (upto_final p xs)"
  using set_upto_final by (induction xs) fastforce+

lemma upto_final_Nil: "upto_final p xs = [] \<longleftrightarrow> xs = []"
  by (cases xs) auto

lemma upto_final_append:
  "upto_final p (xs @ ys) = (if \<exists>x \<in> set xs. p x then upto_final p xs else xs @ upto_final p ys)"
  by (induction xs) auto

lemma upto_final_id: "\<not> (\<exists>x \<in> set xs. p x) \<Longrightarrow> upto_final p xs = xs"
  by (induction xs) auto

lemma upto_final_before: "k < length (upto_final p xs) - 1 \<Longrightarrow> \<not> p (upto_final p xs ! k)"
proof (induction xs arbitrary: k)
  case (Cons x xs)
  then show ?case by (cases k) (auto split: if_splits simp: Suc_less_eq2)
qed simp

lemma firsts_adj: "firsts S (map f (remdups_adj xs)) = firsts S (map f xs)"
proof (induction xs arbitrary: S rule: remdups_adj.induct)
  case (3 x y xs)
  then show ?case by (cases "x = y") auto
qed auto

lemma sorted_set_adj: "sorted_list_of_set (set xs) = remdups_adj (sort xs)"
proof -
  have "distinct (remdups_adj ys)" if "sorted ys" for ys :: "'a list"
    using that
  proof (induction ys rule: remdups_adj.induct)
    case (3 x y ys)
    then have "x \<noteq> y \<Longrightarrow> x \<notin> set (y # ys)" by auto
    with 3 show ?case by (cases "x = y") auto
  qed auto
  then show ?thesis
    by (intro sorted_distinct_set_unique) (simp_all add: sorted_remdups_adj)
qed

lemma firsts_sorted: "firsts S (map f (sort xs)) = firsts S (map f (sorted_list_of_set (set xs)))"
  by (simp add: sorted_set_adj firsts_adj)

section \<open>The loops\<close>

abbreviation final_client :: "DNS \<Rightarrow> nat \<Rightarrow> bool" where
  "final_client s i \<equiv> cl_finalQuery (s_clients s ! i)"

definition rule_client :: "DNS \<Rightarrow> nat \<Rightarrow> nat" where
  "rule_client s v = unat (mi_clientIdx (s_matcherInfos s ! v))"

definition infos_ok :: "DNS \<Rightarrow> bool" where
  "infos_ok s \<longleftrightarrow> (\<forall>v < length (s_matcherInfos s). rule_client s v < length (s_clients s))"

lemma match_loop_spec:
  assumes "infos_ok s" "\<forall>v \<in> set vs. unat v < length (s_matcherInfos s)"
  shows "match_loop s vs acc =
    (let cs = firsts (set acc) (map (rule_client s \<circ> unat) vs)
     in Some (acc @ upto_final (final_client s) cs, \<exists>c \<in> set cs. final_client s c))"
  using assms(2)
proof (induction vs arbitrary: acc)
  case (Cons v vs)
  have c: "rule_client s (unat v) < length (s_clients s)" using Cons.prems assms(1) by (simp add: infos_ok_def)
  show ?case using Cons c by (simp add: Let_def rule_client_def [symmetric] not_le insert_commute)
qed simp

lemma fallback_loop_spec:
  "fallback_loop s ids acc =
    (let cs = firsts (set acc) (filter (\<lambda>i. \<not> cl_skipFallback (s_clients s ! i)) ids)
     in (acc @ upto_final (final_client s) cs, \<exists>c \<in> set cs. final_client s c))"
  by (induction s ids acc rule: fallback_loop.induct) (simp_all add: Let_def insert_commute)

section \<open>The policy\<close>

definition policy_order :: "DNS \<Rightarrow> nat list \<Rightarrow> nat list" where
  "policy_order s hits =
     (let matched = map (rule_client s) hits;
          others = (if s_disableFallback s \<or> s_disableFallbackIfMatch s \<and> hits \<noteq> [] then []
                    else filter (\<lambda>i. \<not> cl_skipFallback (s_clients s ! i)) [0..<length (s_clients s)]);
          order = upto_final (final_client s) (firsts {} (matched @ others))
      in if order = [] \<and> s_clients s \<noteq> [] then [0] else order)"

lemma policy_loops:
  assumes "match_loop s vs [] = Some (clients, final)" "infos_ok s" "\<forall>v \<in> set vs. unat v < length (s_matcherInfos s)"
    "firsts {} (map (rule_client s \<circ> unat) vs) = firsts {} (map (rule_client s) hits)" "vs = [] \<longleftrightarrow> hits = []"
  shows "(let (all, final') = (if final then (clients, True)
        else if s_disableFallback s \<or> s_disableFallbackIfMatch s \<and> clients \<noteq> [] then (clients, False)
        else fallback_loop s [0..<length (s_clients s)] clients)
      in if final' then all else if all = [] \<and> s_clients s \<noteq> [] then [0] else all) = policy_order s hits"
proof -
  define cs where "cs = firsts {} (map (rule_client s) hits)"
  have m: "clients = upto_final (final_client s) cs" "final \<longleftrightarrow> (\<exists>c \<in> set cs. final_client s c)"
    using assms(1) match_loop_spec [OF assms(2,3), of "[]"] by (simp_all add: assms(4) cs_def Let_def)
  have ne: "clients = [] \<longleftrightarrow> hits = []" using m(1) by (cases hits) (auto simp: cs_def upto_final_Nil)
  have app: "firsts {} (map (rule_client s) hits @ others) = cs @ firsts (set cs) others" for others
    unfolding cs_def firsts_append by (simp add: set_firsts)
  show ?thesis
  proof (cases final)
    case True
    then have "clients \<noteq> []" using m by (auto simp: upto_final_Nil)
    then show ?thesis using True m by (simp add: policy_order_def app upto_final_append Let_def)
  next
    case False
    then have nf: "\<not> (\<exists>c \<in> set cs. final_client s c)" and cl: "clients = cs" using m by (simp_all add: upto_final_id)
    define others where "others = filter (\<lambda>i. \<not> cl_skipFallback (s_clients s ! i)) [0..<length (s_clients s)]"
    have fb: "fallback_loop s [0..<length (s_clients s)] cs =
        (cs @ upto_final (final_client s) (firsts (set cs) others), \<exists>c \<in> set (firsts (set cs) others). final_client s c)"
      by (simp add: fallback_loop_spec others_def Let_def)
    have po: "policy_order s hits = (let order = cs @ upto_final (final_client s) (firsts (set cs)
        (if s_disableFallback s \<or> s_disableFallbackIfMatch s \<and> hits \<noteq> [] then [] else others))
      in if order = [] \<and> s_clients s \<noteq> [] then [0] else order)"
      unfolding policy_order_def Let_def app others_def [symmetric] upto_final_append by (simp only: nf if_False)
    show ?thesis
    proof (cases "s_disableFallback s \<or> s_disableFallbackIfMatch s \<and> hits \<noteq> []")
      case True
      then show ?thesis using False cl ne po by simp
    next
      case no: False
      then have "\<not> (s_disableFallback s \<or> s_disableFallbackIfMatch s \<and> clients \<noteq> [])" using ne by simp
      then show ?thesis using False no cl po fb by (auto simp: Let_def upto_final_Nil)
    qed
  qed
qed

end
