(* ===== verification/DnsParallel.thy ===== *)
theory DnsParallel
  imports DnsServer
begin

text \<open>
  The parallel query: whatever the order in which the results arrive, the answer is that of a client of the first
  group with a success, and without a success the errors of all clients are merged in their order.
\<close>

section \<open>Groups\<close>

declare upt_Suc [simp del]

definition span :: "group \<Rightarrow> nat list" where
  "span g = [g_start g..<Suc (g_end g)]"

definition covers :: "group list \<Rightarrow> nat \<Rightarrow> bool" where
  "covers gs n \<longleftrightarrow> concat (map span gs) = [0..<n] \<and> (\<forall>g \<in> set gs. g_start g \<le> g_end g)"

definition grouped :: "group list \<Rightarrow> nat list \<Rightarrow> bool" where
  "grouped gs gof \<longleftrightarrow> (\<forall>j < length gs. \<forall>k \<in> set (span (gs ! j)). k < length gof \<and> gof ! k = j)"

lemma foldl_update:
  "length (foldl (\<lambda>l k. l[k := v]) gof ks) = length gof"
  "k < length gof \<Longrightarrow> foldl (\<lambda>l k. l[k := v]) gof ks ! k = (if k \<in> set ks then v else gof ! k)"
  by (induction ks arbitrary: gof) (auto simp: nth_list_update)

lemma covers_snoc:
  assumes "covers gs s" "s \<le> e"
  shows "covers (gs @ [\<lparr>g_start = s, g_end = e\<rparr>]) (Suc e)"
  using assms upt_add_eq_append [of 0 s "Suc e - s"] by (simp add: covers_def span_def)

lemma covers_below: "covers gs n \<Longrightarrow> g \<in> set gs \<Longrightarrow> k \<in> set (span g) \<Longrightarrow> k < n"
proof -
  assume "covers gs n" "g \<in> set gs" "k \<in> set (span g)"
  then have "k \<in> set (concat (map span gs))" by auto
  then have "k \<in> set [0..<n]" using \<open>covers gs n\<close> unfolding covers_def by (simp only:)
  then show "k < n" by simp
qed

lemma grouped_snoc:
  assumes "grouped gs gof" "covers gs s" "s \<le> e" "e < length gof"
  shows "grouped (gs @ [\<lparr>g_start = s, g_end = e\<rparr>]) (foldl (\<lambda>l k. l[k := length gs]) gof [s..<Suc e])"
  unfolding grouped_def
proof (intro allI impI ballI)
  fix j k
  assume j: "j < length (gs @ [\<lparr>g_start = s, g_end = e\<rparr>])" and k: "k \<in> set (span ((gs @ [\<lparr>g_start = s, g_end = e\<rparr>]) ! j))"
  show "k < length (foldl (\<lambda>l k. l[k := length gs]) gof [s..<Suc e]) \<and> foldl (\<lambda>l k. l[k := length gs]) gof [s..<Suc e] ! k = j"
  proof (cases "j < length gs")
    case True
    then have m: "gs ! j \<in> set gs" "k \<in> set (span (gs ! j))" using k by (simp_all add: nth_append)
    then have "k < length gof" "gof ! k = j" "k < s" using assms(1) True covers_below [OF assms(2) m] by (auto simp: grouped_def)
    then show ?thesis by (simp add: foldl_update)
  next
    case False
    then have "j = length gs" using j by simp
    then have "s \<le> k" "k \<le> e" using k by (auto simp: span_def)
    then show ?thesis using assms(4) \<open>j = length gs\<close> by (simp add: foldl_update)
  qed
qed

lemma groups_loop_spec:
  assumes "covers gs s" "grouped gs gof" "s \<le> e" "Suc e + left = length pids" "length gof = length pids"
    "groups_loop pids left s e gs gof = (gs', gof')"
  shows "covers gs' (length pids) \<and> grouped gs' gof' \<and> length gof' = length pids"
  using assms
proof (induction pids left s e gs gof rule: groups_loop.induct)
  case (1 pids s e gs gof)
  then show ?case using covers_snoc [of gs s e] grouped_snoc [of gs gof s e] by (auto simp: foldl_update)
next
  case (2 pids left s e gs gof)
  define i where "i = length pids - Suc left"
  have i: "i = Suc e" using 2(6) by (simp add: i_def)
  show ?case
  proof (cases "pids ! (i - 1) = pids ! i")
    case True
    then have "groups_loop pids left s i gs gof = (gs', gof')" using 2(8) by (simp add: i_def [symmetric] Let_def)
    then show ?thesis using 2(1) [OF i_def True 2(3,4)] 2(5-7) i by simp
  next
    case False
    have "covers (gs @ [\<lparr>g_start = s, g_end = e\<rparr>]) i" using covers_snoc [OF 2(3,5)] i by simp
    moreover have "grouped (gs @ [\<lparr>g_start = s, g_end = e\<rparr>]) (foldl (\<lambda>l k. l[k := length gs]) gof [s..<Suc e])"
      using grouped_snoc [OF 2(4,3,5)] 2(6,7) by simp
    moreover have "groups_loop pids left i i (gs @ [\<lparr>g_start = s, g_end = e\<rparr>]) (foldl (\<lambda>l k. l[k := length gs]) gof [s..<Suc e]) = (gs', gof')"
      using 2(8) False by (simp add: i_def [symmetric] Let_def)
    ultimately show ?thesis using 2(2) [OF i_def False] 2(6,7) i by (simp add: foldl_update)
  qed
qed

lemma makeGroups_spec:
  assumes "makeGroups pids = (gs, gof)"
  shows "covers gs (length pids) \<and> grouped gs gof \<and> length gof = length pids"
proof (cases "pids = []")
  case True
  then show ?thesis using assms by (simp add: makeGroups_def covers_def grouped_def)
next
  case False
  have "covers [] 0" "grouped [] (replicate (length pids) 0)" by (simp_all add: covers_def grouped_def)
  then show ?thesis using groups_loop_spec [of "[]" 0 "replicate (length pids) 0" 0 "length pids - 1" pids] assms False
    by (simp add: makeGroups_def)
qed

text \<open>A group has one policy throughout, so that clients whose neighbours have another policy are groups of their
  own.\<close>

definition uniform :: "u32 list \<Rightarrow> group list \<Rightarrow> bool" where
  "uniform pids gs \<longleftrightarrow> (\<forall>g \<in> set gs. \<forall>k \<in> set (span g). pids ! k = pids ! g_start g)"

lemma uniform_snoc:
  assumes "uniform pids gs" "\<forall>k \<in> {s..e}. pids ! k = pids ! s"
  shows "uniform pids (gs @ [\<lparr>g_start = s, g_end = e\<rparr>])"
proof -
  have "set (span \<lparr>g_start = s, g_end = e\<rparr>) = {s..e}" by (auto simp: span_def)
  then show ?thesis using assms unfolding uniform_def by (metis group.select_convs(1) in_set_conv_decomp rotate1.simps(2) set_ConsD set_rotate1)
qed

lemma groups_loop_uniform:
  assumes "uniform pids gs" "s \<le> e" "Suc e + left = length pids" "\<forall>k \<in> {s..e}. pids ! k = pids ! s"
    "groups_loop pids left s e gs gof = (gs', gof')"
  shows "uniform pids gs'"
  using assms
proof (induction pids left s e gs gof rule: groups_loop.induct)
  case (1 pids s e gs gof)
  then have "gs' = gs @ [\<lparr>g_start = s, g_end = e\<rparr>]" by simp
  then show ?case using uniform_snoc [OF 1(1,4)] by (simp only:)
next
  case (2 pids left s e gs gof)
  define i where "i = length pids - Suc left"
  have i: "i = Suc e" using 2(5) by (simp add: i_def)
  show ?case
  proof (cases "pids ! (i - 1) = pids ! i")
    case True
    then have loop: "groups_loop pids left s i gs gof = (gs', gof')" using 2(7) by (simp add: i_def [symmetric] Let_def)
    have run: "\<forall>k \<in> {s..i}. pids ! k = pids ! s"
    proof
      fix k
      assume "k \<in> {s..i}"
      then consider "k \<in> {s..e}" | "k = i" using i by fastforce
      then show "pids ! k = pids ! s"
      proof cases
        case 2
        then have "pids ! k = pids ! e" using True i by simp
        also have "\<dots> = pids ! s" using \<open>\<forall>k \<in> {s..e}. pids ! k = pids ! s\<close> \<open>s \<le> e\<close> by (metis atLeastAtMost_iff order_refl)
        finally show ?thesis .
      qed (use \<open>\<forall>k \<in> {s..e}. pids ! k = pids ! s\<close> in blast)
    qed
    have "s \<le> i" "Suc i + left = length pids" using 2(4,5) i by simp_all
    then show ?thesis using 2(1) [OF i_def True 2(3) _ _ run loop] by blast
  next
    case False
    have "uniform pids (gs @ [\<lparr>g_start = s, g_end = e\<rparr>])" using 2(3,6) by (rule uniform_snoc)
    moreover have "groups_loop pids left i i (gs @ [\<lparr>g_start = s, g_end = e\<rparr>]) (foldl (\<lambda>l k. l[k := length gs]) gof [s..<Suc e]) = (gs', gof')"
      using 2(7) False by (simp add: i_def [symmetric] Let_def)
    moreover have "Suc i + left = length pids" "\<forall>k \<in> {i..i}. pids ! k = pids ! i" using 2(5) i by simp_all
    ultimately show ?thesis using 2(2) [OF i_def False _ order_refl] by blast
  qed
qed

lemma makeGroups_uniform: "makeGroups pids = (gs, gof) \<Longrightarrow> uniform pids gs"
proof (cases "pids = []")
  case False
  moreover assume "makeGroups pids = (gs, gof)"
  ultimately show ?thesis using groups_loop_uniform [of pids "[]" 0 0 "length pids - 1" "replicate (length pids) 0" gs gof]
    by (simp add: makeGroups_def uniform_def)
qed (simp add: makeGroups_def uniform_def)

lemma single_groups:
  assumes "makeGroups pids = (gs, gof)" "\<forall>i. Suc i < length pids \<longrightarrow> pids ! i \<noteq> pids ! Suc i" "k < length pids"
  shows "gof ! k = k"
proof -
  have c: "covers gs (length pids)" "grouped gs gof" "uniform pids gs"
    using makeGroups_spec [OF assms(1)] makeGroups_uniform [OF assms(1)] by auto
  have "g_start g = g_end g" if g: "g \<in> set gs" for g
  proof (rule ccontr)
    assume "g_start g \<noteq> g_end g"
    moreover have "g_start g \<le> g_end g" using c(1) g by (simp add: covers_def)
    ultimately have "Suc (g_start g) \<in> set (span g)" by (simp add: span_def)
    moreover have "Suc (g_start g) < length pids" using covers_below [OF c(1) g calculation] .
    ultimately show False using c(3) g assms(2) unfolding uniform_def by metis
  qed
  then have "map span gs = map (\<lambda>g. [g_start g]) gs" by (auto simp: span_def upt_rec)
  then have "concat (map span gs) = map g_start gs" by (simp only: concat_map_singleton)
  then have "map g_start gs = [0..<length pids]" using c(1) by (simp add: covers_def)
  then have starts: "map g_start gs = [0..<length pids]" .
  have len: "length gs = length pids" using arg_cong [OF starts, of length] by simp
  have "g_start (gs ! k) = k" using arg_cong [OF starts, of "\<lambda>xs. xs ! k"] assms(3) len by simp
  moreover have "g_start (gs ! k) \<le> g_end (gs ! k)" using c(1) assms(3) len by (simp add: covers_def)
  ultimately have "k \<in> set (span (gs ! k))" by (simp add: span_def)
  then show ?thesis using c(2) assms(3) len unfolding grouped_def by simp
qed

section \<open>Results\<close>

definition succeeds :: "lookup_result \<Rightarrow> bool" where
  "succeeds r \<longleftrightarrow> fst r \<noteq> [] \<and> snd (snd r) = None"

definition err_of :: "lookup_result \<Rightarrow> dns_error" where
  "err_of r = (case snd (snd r) of None \<Rightarrow> ErrEmptyResponse | Some x \<Rightarrow> x)"

definition arrived_at :: "(nat \<Rightarrow> lookup_result) \<Rightarrow> nat set \<Rightarrow> nat \<Rightarrow> lookup_result option list \<Rightarrow> bool" where
  "arrived_at res A n results \<longleftrightarrow> length results = n \<and> (\<forall>k < n. results ! k = (if k \<in> A then Some (res k) else None))"

definition waiting :: "group list \<Rightarrow> nat set \<Rightarrow> nat list \<Rightarrow> bool" where
  "waiting gs A pending \<longleftrightarrow> length pending = length gs \<and> (\<forall>j < length gs. pending ! j = card (set (span (gs ! j)) - A))"

lemma group_success_cases:
  assumes "arrived_at res A n results" "covers gs n" "g \<in> set gs"
  shows "(\<exists>j \<in> set (span g). j \<in> A \<and> succeeds (res j) \<and> group_success results g = Some j) \<or>
    (\<forall>j \<in> set (span g). j \<in> A \<longrightarrow> \<not> succeeds (res j)) \<and> group_success results g = None"
proof -
  have p: "(case results ! j of Some (ps, ttl, None) \<Rightarrow> ps \<noteq> [] | _ \<Rightarrow> False) \<longleftrightarrow> j \<in> A \<and> succeeds (res j)" if "j \<in> set (span g)" for j
    using assms(1) covers_below [OF assms(2,3) that] by (auto simp: arrived_at_def succeeds_def split: option.splits prod.splits)
  show ?thesis
  proof (cases "group_success results g")
    case None
    then show ?thesis using p by (auto simp: group_success_def find_None_iff span_def)
  next
    case (Some j)
    then have "j \<in> set (span g) \<and> (case results ! j of Some (ps, ttl, None) \<Rightarrow> ps \<noteq> [] | _ \<Rightarrow> False)"
      unfolding group_success_def span_def by (metis (no_types, lifting) find_Some_iff nth_mem)
    then show ?thesis using p Some by auto
  qed
qed

text \<open>All groups before a number have arrived without a success.\<close>

definition failed_before :: "(nat \<Rightarrow> lookup_result) \<Rightarrow> group list \<Rightarrow> nat set \<Rightarrow> nat \<Rightarrow> bool" where
  "failed_before res gs A k \<longleftrightarrow> (\<forall>i < k. i < length gs \<longrightarrow> (\<forall>j \<in> set (span (gs ! i)). j \<in> A \<and> \<not> succeeds (res j)))"

definition errors_before :: "(nat \<Rightarrow> lookup_result) \<Rightarrow> group list \<Rightarrow> nat \<Rightarrow> dns_error list" where
  "errors_before res gs k = concat (map (\<lambda>g. map (\<lambda>j. err_of (res j)) (span g)) (take k gs))"

lemma advance_spec:
  assumes "arrived_at res A n results" "covers gs n" "waiting gs A pending"
    "failed_before res gs A k" "k \<le> length gs" "errs = errors_before res gs k"
  shows "(\<exists>j m. advance gs results pending k errs = Some (Answer j) \<and> m < length gs \<and> j \<in> set (span (gs ! m)) \<and> j \<in> A \<and>
      succeeds (res j) \<and> failed_before res gs A m) \<or>
    (\<exists>m. advance gs results pending k errs = Some (Pending m (errors_before res gs m)) \<and> m \<le> length gs \<and>
      failed_before res gs A m \<and> (m < length gs \<longrightarrow> 0 < pending ! m))"
  using assms(4-6)
proof (induction "length gs - k" arbitrary: k errs)
  case 0
  then show ?case by (subst (1 2) advance.simps) simp
next
  case (Suc x)
  then have k: "k < length gs" by simp
  let ?g = "gs ! k"
  have g: "?g \<in> set gs" using k by simp
  show ?case
  proof (cases "group_success results ?g")
    case (Some j)
    then have "j \<in> set (span ?g)" "j \<in> A" "succeeds (res j)" using group_success_cases [OF assms(1,2) g] by auto
    moreover have "advance gs results pending k errs = Some (Answer j)" using k Some by (subst advance.simps) (simp add: Let_def)
    ultimately show ?thesis using k Suc.prems(1) by blast
  next
    case None
    then have no: "\<forall>j \<in> set (span ?g). j \<in> A \<longrightarrow> \<not> succeeds (res j)" using group_success_cases [OF assms(1,2) g] by auto
    show ?thesis
    proof (cases "0 < pending ! k")
      case True
      then have "advance gs results pending k errs = Some (Pending k errs)" using k None by (subst advance.simps) (simp add: Let_def)
      then show ?thesis using True Suc.prems k by auto
    next
      case False
      then have all: "set (span ?g) \<subseteq> A" using assms(3) k by (simp add: waiting_def)
      have r: "results ! j = Some (res j)" if "j \<in> set (span ?g)" for j
        using assms(1) covers_below [OF assms(2) g that] all that by (auto simp: arrived_at_def)
      have m: "map (\<lambda>j. case snd (snd (the (results ! j))) of None \<Rightarrow> ErrEmptyResponse | Some x \<Rightarrow> x) (span ?g) = map (\<lambda>j. err_of (res j)) (span ?g)"
        using r by (simp add: err_of_def)
      have e: "errs @ map (\<lambda>j. err_of (res j)) (span ?g) = errors_before res gs (Suc k)"
        using k Suc.prems(3) by (simp add: errors_before_def take_Suc_conv_app_nth)
      have none: "\<not> (\<exists>j \<in> set (span ?g). results ! j = None)" using r by simp
      have "advance gs results pending k errs = advance gs results pending (Suc k) (errors_before res gs (Suc k))"
        by (subst advance.simps) (simp only: Let_def span_def [symmetric] k if_True None option.simps False if_False none m e)
      moreover have "failed_before res gs A (Suc k)" using Suc.prems(1) no all by (auto simp: failed_before_def less_Suc_eq)
      ultimately show ?thesis using Suc.hyps(1) [of "Suc k"] Suc.hyps(2) k by auto
    qed
  qed
qed

section \<open>Arrivals\<close>

lemma group_of:
  assumes "covers gs n" "grouped gs gof" "i < n"
  shows "gof ! i < length gs \<and> i \<in> set (span (gs ! (gof ! i)))"
proof -
  have "i \<in> set (concat (map span gs))" using assms(1,3) unfolding covers_def by simp
  then obtain g where "g \<in> set gs" "i \<in> set (span g)" by auto
  then obtain j where "j < length gs" "i \<in> set (span (gs ! j))" by (metis in_set_conv_nth)
  then show ?thesis using assms(2) by (auto simp: grouped_def)
qed

lemma waiting_arrival:
  assumes "waiting gs A pending" "covers gs n" "grouped gs gof" "i < n" "i \<notin> A"
  shows "waiting gs (insert i A) (pending[gof ! i := pending ! (gof ! i) - 1])"
  unfolding waiting_def
proof (intro conjI allI impI)
  show "length (pending[gof ! i := pending ! (gof ! i) - 1]) = length gs" using assms(1) by (simp add: waiting_def)
next
  fix j
  assume j: "j < length gs"
  note i = group_of [OF assms(2-4)]
  show "pending[gof ! i := pending ! (gof ! i) - 1] ! j = card (set (span (gs ! j)) - insert i A)"
  proof (cases "j = gof ! i")
    case True
    have "set (span (gs ! j)) - insert i A = (set (span (gs ! j)) - A) - {i}" by blast
    then have "card (set (span (gs ! j)) - insert i A) = card (set (span (gs ! j)) - A) - 1" using i assms(5) True by simp
    then show ?thesis using True i assms(1) by (simp add: waiting_def)
  next
    case False
    then have "i \<notin> set (span (gs ! j))" using assms(3) j by (auto simp: grouped_def)
    then have "set (span (gs ! j)) - insert i A = set (span (gs ! j)) - A" by blast
    then show ?thesis using False j assms(1) by (simp add: waiting_def)
  qed
qed

lemma arrived_arrival: "arrived_at res A n results \<Longrightarrow> i < n \<Longrightarrow> arrived_at res (insert i A) n (results[i := Some (res i)])"
  by (auto simp: arrived_at_def nth_list_update)

lemma failed_mono: "failed_before res gs A k \<Longrightarrow> failed_before res gs (insert i A) k"
  by (auto simp: failed_before_def)

definition policy_answer :: "err_is \<Rightarrow> string \<Rightarrow> nat list \<Rightarrow> (nat \<Rightarrow> lookup_result) \<Rightarrow> nat \<Rightarrow> lookup_result \<Rightarrow> bool" where
  "policy_answer wraps d gof res n r \<longleftrightarrow>
     (if \<exists>i < n. succeeds (res i)
      then \<exists>j < n. succeeds (res j) \<and> (\<forall>i < n. succeeds (res i) \<longrightarrow> gof ! j \<le> gof ! i) \<and> r = res j
      else r = ([], 0, Some (mergeQueryErrors wraps d (map (\<lambda>j. err_of (res j)) [0..<n]))))"

lemma policy_answer_first:
  assumes "covers gs n" "grouped gs gof" "m < length gs" "j \<in> set (span (gs ! m))" "succeeds (res j)" "failed_before res gs A m"
  shows "policy_answer wraps d gof res n (res j)"
proof -
  have j: "j < n" "gof ! j = m" using covers_below [OF assms(1) _ assms(4)] assms(2-4) by (auto simp: grouped_def)
  have "m \<le> gof ! i" if "i < n" "succeeds (res i)" for i
  proof (rule ccontr)
    assume "\<not> m \<le> gof ! i"
    then have "gof ! i < m" by simp
    then show False using group_of [OF assms(1,2) that(1)] assms(6) that(2) unfolding failed_before_def by blast
  qed
  then show ?thesis using j assms(5) unfolding policy_answer_def by auto
qed

lemma policy_answer_none:
  assumes "covers gs n" "grouped gs gof" "failed_before res gs A (length gs)"
  shows "policy_answer wraps d gof res n ([], 0, Some (mergeQueryErrors wraps d (errors_before res gs (length gs))))"
proof -
  have "\<not> succeeds (res i)" if "i < n" for i
    using group_of [OF assms(1,2) that] assms(3) by (auto simp: failed_before_def)
  moreover have "errors_before res gs (length gs) = map (\<lambda>j. err_of (res j)) [0..<n]"
  proof -
    have "errors_before res gs (length gs) = map (\<lambda>j. err_of (res j)) (concat (map span gs))"
      by (simp add: errors_before_def map_concat comp_def)
    then show ?thesis using assms(1) by (simp add: covers_def)
  qed
  ultimately show ?thesis by (auto simp: policy_answer_def)
qed

lemma parallel_loop_spec:
  assumes "covers gs n" "grouped gs gof" "arrived_at res A n results" "waiting gs A pending" "failed_before res gs A k"
    "k \<le> length gs" "k < length gs \<longrightarrow> 0 < pending ! k" "distinct order" "set order = {0..<n} - A"
  shows "\<exists>r. parallel_loop wraps d gs gof (length order) (map (\<lambda>k. Arrived k (res k)) order) results pending k (errors_before res gs k) = Some r \<and>
    policy_answer wraps d gof res n r"
  using assms(3-9)
proof (induction order arbitrary: A results pending k)
  case Nil
  have "k = length gs"
  proof (rule ccontr)
    assume "k \<noteq> length gs"
    then have k: "k < length gs" using Nil.prems(4) by simp
    have "set (span (gs ! k)) \<subseteq> A" using covers_below [OF assms(1)] k Nil.prems(7) by fastforce
    then have e: "set (span (gs ! k)) - A = {}" by blast
    have "pending ! k = card (set (span (gs ! k)) - A)" using k Nil.prems(2) by (simp add: waiting_def)
    then show False unfolding e using k Nil.prems(5) by simp
  qed
  then show ?case using policy_answer_none [OF assms(1,2)] Nil.prems(3) by auto
next
  case (Cons i order)
  have i: "i < n" "i \<notin> A" using Cons.prems(7) by auto
  let ?A = "insert i A" and ?R = "results[i := Some (res i)]" and ?P = "pending[gof ! i := pending ! (gof ! i) - 1]"
  have inv: "arrived_at res ?A n ?R" "waiting gs ?A ?P" "failed_before res gs ?A k"
    using arrived_arrival [OF Cons.prems(1) i(1)] waiting_arrival [OF Cons.prems(2) assms(1,2) i] failed_mono [OF Cons.prems(3)] .
  consider (answer) j m where "advance gs ?R ?P k (errors_before res gs k) = Some (Answer j)" "m < length gs" "j \<in> set (span (gs ! m))"
      "j \<in> ?A" "succeeds (res j)" "failed_before res gs ?A m"
    | (pending) m where "advance gs ?R ?P k (errors_before res gs k) = Some (Pending m (errors_before res gs m))" "m \<le> length gs"
      "failed_before res gs ?A m" "m < length gs \<longrightarrow> 0 < ?P ! m"
    using advance_spec [OF inv(1) assms(1) inv(2,3) Cons.prems(4) refl] by blast
  then show ?case
  proof cases
    case answer
    have "?R ! j = Some (res j)" using inv(1) answer(4) covers_below [OF assms(1) _ answer(3)] answer(2) by (auto simp: arrived_at_def)
    moreover have "res j = (fst (res j), fst (snd (res j)), None)" using answer(5) by (cases "res j") (simp add: succeeds_def)
    ultimately have "parallel_loop wraps d gs gof (length (i # order)) (map (\<lambda>k. Arrived k (res k)) (i # order)) results pending k
        (errors_before res gs k) = Some (res j)"
      using answer(1) by (auto simp: Let_def split: prod.splits)
    then show ?thesis using policy_answer_first [OF assms(1,2) answer(2,3,5,6)] by blast
  next
    case pending
    have "set order = {0..<n} - ?A" using Cons.prems(6,7) by auto
    then show ?thesis
      using Cons.IH [OF inv(1,2) pending(3,2,4)] Cons.prems(6) pending(1) by (simp add: Let_def)
  qed
qed

text \<open>When the context ends first, the query still returns.\<close>

lemma parallel_loop_cut:
  assumes "covers gs n" "grouped gs gof" "arrived_at res A n results" "waiting gs A pending" "failed_before res gs A k"
    "k \<le> length gs" "distinct order" "set order \<subseteq> {0..<n} - A"
  shows "\<exists>r. parallel_loop wraps d gs gof m (map (\<lambda>k. Arrived k (res k)) order @ [ContextDone e]) results pending k (errors_before res gs k) = Some r"
  using assms(3-8)
proof (induction order arbitrary: A results pending k m)
  case Nil
  show ?case by (cases m) simp_all
next
  case (Cons i order)
  show ?case
  proof (cases m)
    case (Suc m')
    have i: "i < n" "i \<notin> A" using Cons.prems(6) by auto
    let ?A = "insert i A" and ?R = "results[i := Some (res i)]" and ?P = "pending[gof ! i := pending ! (gof ! i) - 1]"
    have inv: "arrived_at res ?A n ?R" "waiting gs ?A ?P" "failed_before res gs ?A k"
      using arrived_arrival [OF Cons.prems(1) i(1)] waiting_arrival [OF Cons.prems(2) assms(1,2) i] failed_mono [OF Cons.prems(3)] .
    consider (answer) j mm where "advance gs ?R ?P k (errors_before res gs k) = Some (Answer j)" "mm < length gs" "j \<in> set (span (gs ! mm))" "j \<in> ?A"
      | (pending) mm where "advance gs ?R ?P k (errors_before res gs k) = Some (Pending mm (errors_before res gs mm))" "mm \<le> length gs"
        "failed_before res gs ?A mm"
      using advance_spec [OF inv(1) assms(1) inv(2,3) Cons.prems(4) refl] by blast
    then show ?thesis
    proof cases
      case answer
      have "?R ! j = Some (res j)" using inv(1) answer(4) covers_below [OF assms(1) _ answer(3)] answer(2) by (auto simp: arrived_at_def)
      then show ?thesis using answer(1) Suc by (auto simp: Let_def split: prod.splits)
    next
      case pending
      have "set order \<subseteq> {0..<n} - ?A" using Cons.prems(5,6) by auto
      then show ?thesis using Cons.IH [OF inv(1,2) pending(3,2), of m'] Cons.prems(5) pending(1) Suc by (simp add: Let_def)
    qed
  qed simp
qed

lemma first_round:
  assumes "covers gs n"
  shows "waiting gs {} (map (\<lambda>g. g_end g - g_start g + 1) gs)" "arrived_at res {} n (replicate n None)" "failed_before res gs {} 0"
    "errors_before res gs 0 = []"
  using assms by (auto simp: waiting_def span_def covers_def Suc_diff_le arrived_at_def failed_before_def errors_before_def)

lemma parallel_cut:
  assumes "makeGroups pids = (gs, gof)" "distinct order" "set order \<subseteq> {0..<length pids}"
  shows "\<exists>r. parallel_loop wraps d gs gof (length pids) (map (\<lambda>k. Arrived k (res k)) order @ [ContextDone e]) (replicate (length pids) None)
      (map (\<lambda>g. g_end g - g_start g + 1) gs) 0 [] = Some r"
proof -
  have g: "covers gs (length pids)" "grouped gs gof" using makeGroups_spec [OF assms(1)] by auto
  note f = first_round [OF g(1)]
  show ?thesis using parallel_loop_cut [OF g f(2,1,3) _ assms(2), where wraps = wraps and d = d and m = "length pids" and e = e] assms(3)
    by (simp add: f(4))
qed

lemma parallel_policy:
  assumes "makeGroups pids = (gs, gof)" "distinct order" "set order = {0..<length pids}"
  shows "\<exists>r. parallel_loop wraps d gs gof (length pids) (map (\<lambda>k. Arrived k (res k)) order) (replicate (length pids) None)
      (map (\<lambda>g. g_end g - g_start g + 1) gs) 0 [] = Some r \<and> policy_answer wraps d gof res (length pids) r"
proof -
  let ?n = "length pids"
  have g: "covers gs ?n" "grouped gs gof" using makeGroups_spec [OF assms(1)] by auto
  have "length order = ?n" using assms(2,3) distinct_card [OF assms(2)] by simp
  moreover have "waiting gs {} (map (\<lambda>g. g_end g - g_start g + 1) gs)"
    using g(1) by (auto simp: waiting_def span_def covers_def Suc_diff_le)
  moreover have "arrived_at res {} ?n (replicate ?n None)" by (simp add: arrived_at_def)
  moreover have "failed_before res gs {} 0" "errors_before res gs 0 = []" by (simp_all add: failed_before_def errors_before_def)
  ultimately show ?thesis using parallel_loop_spec [OF g, of res "{}" "replicate ?n None" "map (\<lambda>g. g_end g - g_start g + 1) gs" 0 order wraps d]
    assms(2,3) by simp
qed

declare upt_Suc [simp]

end
