(* ===== verification/DnsServerProps.thy ===== *)
theory DnsServerProps
  imports DnsOrder DnsParallel IPFactory DnsMessageProofs
begin

text \<open>
  Properties of the DNS server: the order of clients with its cache, queries one after the other and in parallel,
  the policy of a client, and lookups as a whole.
\<close>

section \<open>The order of clients\<close>

definition dns_ready :: "domain_env \<Rightarrow> DomainRegistry \<Rightarrow> DomainRule list \<Rightarrow> DNS \<Rightarrow> bool" where
  "dns_ready env reg rules s \<longleftrightarrow> infos_ok s \<and> length (s_matcherInfos s) = length rules \<and> clean_rules env rules \<and>
     range_order (de_ord env) \<and>
     (case s_domainMatcher s of
        None \<Rightarrow> rules = []
      | Some i \<Rightarrow> i < length (dr_matchers reg) \<and> (\<exists>g. dd_matcher (dr_matchers reg ! i) = MphMatcher g \<and> mph_built env rules g))"

definition order_for :: "domain_env \<Rightarrow> DomainRule list \<Rightarrow> DNS \<Rightarrow> string \<Rightarrow> nat list" where
  "order_for env rules s d = policy_order s (sorted_list_of_set (rule_hits env rules d))"

lemma finite_hits: "finite (rule_hits env rules d)"
  by (simp add: rule_hits_def)

lemma unat_sorted: "map unat (sorted_list_of_set (S :: u32 set)) = sorted_list_of_set (unat ` S)"
proof (rule sorted_distinct_set_unique)
  show "sorted (map unat (sorted_list_of_set S))"
    unfolding sorted_map by (rule sorted_wrt_mono_rel [OF _ sorted_list_of_set(2) [of S]]) (simp add: word_le_nat_alt)
  show "distinct (map unat (sorted_list_of_set S))" by (simp add: distinct_map inj_on_def) (metis word_eq_iff_unsigned)
qed simp_all

lemma sortForDomain_policy:
  assumes "dns_ready env reg rules s" "no_upper d"
  shows "sortClientsForDomain env reg s d = Some (order_for env rules s d)"
proof -
  have io: "infos_ok s" using assms(1) by (simp add: dns_ready_def)
  obtain vs where vs: "(case s_domainMatcher s of None \<Rightarrow> Some ([], False)
       | Some i \<Rightarrow> (if i < length (dr_matchers reg) then Some (dr_matchers reg ! i) else None) \<bind> (\<lambda>m. dd_Match env m d \<bind> (\<lambda>ms. match_loop s (sort ms) [])))
      = match_loop s (sort vs) []" "set vs = of_nat ` rule_hits env rules d"
  proof (cases "s_domainMatcher s")
    case None
    then have "rule_hits env rules d = {}" using assms(1) by (simp add: dns_ready_def rule_hits_def)
    then show ?thesis using that [of "[]"] None by simp
  next
    case (Some i)
    then obtain g where g: "i < length (dr_matchers reg)" "dd_matcher (dr_matchers reg ! i) = MphMatcher g" "mph_built env rules g"
      using assms(1) by (auto simp: dns_ready_def)
    then obtain ws where "MphValue_Match (de_mh env) g d = Some ws" "set ws = of_nat ` rule_hits env rules d"
      using mph_Match_hits [OF g(3) _ _ assms(2)] assms(1) by (auto simp: dns_ready_def)
    then show ?thesis using that [of ws] Some g by (simp add: dd_Match_def)
  qed
  have small: "unat (of_nat j :: u32) = j" if "j \<in> rule_hits env rules d" for j
  proof -
    have "j < 65536" using that assms(1) by (auto simp: dns_ready_def rule_hits_def clean_rules_def)
    then show ?thesis by (simp add: unat_of_nat)
  qed
  have im: "unat ` set vs = rule_hits env rules d" unfolding vs(2) image_image using small by auto
  have bound: "\<forall>v \<in> set (sort vs). unat v < length (s_matcherInfos s)"
    using im assms(1) by (auto simp: dns_ready_def rule_hits_def)
  have F1: "firsts {} (map (rule_client s \<circ> unat) (sort vs)) = firsts {} (map (rule_client s) (sorted_list_of_set (rule_hits env rules d)))"
    unfolding firsts_sorted im [symmetric] unat_sorted [symmetric] by simp
  have F2: "sort vs = [] \<longleftrightarrow> sorted_list_of_set (rule_hits env rules d) = []"
  proof -
    have "sort vs = [] \<longleftrightarrow> vs = []" by (metis length_0_conv length_sort)
    moreover have "vs = [] \<longleftrightarrow> rule_hits env rules d = {}" using im by auto
    ultimately show ?thesis by (simp add: finite_hits)
  qed
  obtain clients final where l: "match_loop s (sort vs) [] = Some (clients, final)"
    using match_loop_spec [OF io bound, of "[]"] by (simp add: Let_def)
  note P = policy_loops [OF l io bound F1 F2, folded order_for_def]
  define X where "X = (if final then (clients, True)
      else if s_disableFallback s \<or> s_disableFallbackIfMatch s \<and> clients \<noteq> [] then (clients, False)
      else fallback_loop s [0..<length (s_clients s)] clients)"
  have "sortClientsForDomain env reg s d =
      Some (let (all, final') = X in if final' then all else if all = [] \<and> s_clients s \<noteq> [] then [0] else all)"
    unfolding sortClientsForDomain_def vs(1) l X_def by (simp only: bind.bind_lunit case_prod_conv Let_def split_def fst_conv snd_conv)
  then show ?thesis using P unfolding X_def by (simp only:)
qed

definition order_cache_ok :: "domain_env \<Rightarrow> DomainRule list \<Rightarrow> DNS \<Rightarrow> bool" where
  "order_cache_ok env rules s \<longleftrightarrow> length (s_sortCache s) \<le> sortClientCacheCap \<and>
     (\<forall>k cs. al_get (s_sortCache s) k = Some cs \<longrightarrow> cs = order_for env rules s k)"

text \<open>The order depends on the flags of clients only, which queries never change.\<close>

definition same_flags :: "DNS \<Rightarrow> DNS \<Rightarrow> bool" where
  "same_flags s s' \<longleftrightarrow> s_matcherInfos s' = s_matcherInfos s \<and> s_disableFallback s' = s_disableFallback s \<and>
     s_disableFallbackIfMatch s' = s_disableFallbackIfMatch s \<and> s_domainMatcher s' = s_domainMatcher s \<and>
     map (\<lambda>c. (cl_finalQuery c, cl_skipFallback c)) (s_clients s') = map (\<lambda>c. (cl_finalQuery c, cl_skipFallback c)) (s_clients s)"

lemma rule_client_flags: "same_flags s s' \<Longrightarrow> rule_client s' = rule_client s"
  by (auto simp: same_flags_def rule_client_def)

lemma flags_nth:
  assumes "same_flags s s'" "i < length (s_clients s)"
  shows "final_client s' i = final_client s i" "cl_skipFallback (s_clients s' ! i) = cl_skipFallback (s_clients s ! i)"
proof -
  have e: "map (\<lambda>c. (cl_finalQuery c, cl_skipFallback c)) (s_clients s') = map (\<lambda>c. (cl_finalQuery c, cl_skipFallback c)) (s_clients s)"
    using assms(1) by (simp add: same_flags_def)
  have l: "length (s_clients s') = length (s_clients s)" using arg_cong [OF e, of length] by simp
  have "(cl_finalQuery (s_clients s' ! i), cl_skipFallback (s_clients s' ! i)) = (cl_finalQuery (s_clients s ! i), cl_skipFallback (s_clients s ! i))"
    using arg_cong [OF e, of "\<lambda>xs. xs ! i"] assms(2) l by simp
  then show "final_client s' i = final_client s i" "cl_skipFallback (s_clients s' ! i) = cl_skipFallback (s_clients s ! i)" by simp_all
qed

lemma upto_final_cong: "(\<And>x. x \<in> set xs \<Longrightarrow> p x = q x) \<Longrightarrow> upto_final p xs = upto_final q xs"
  by (induction xs) auto

lemma policy_order_flags:
  assumes "same_flags s s'" "\<forall>h \<in> set hits. rule_client s h < length (s_clients s)"
  shows "policy_order s' hits = policy_order s hits"
proof -
  have l: "length (s_clients s') = length (s_clients s)"
    using assms(1) unfolding same_flags_def by (metis length_map)
  have f: "filter (\<lambda>i. \<not> cl_skipFallback (s_clients s' ! i)) [0..<length (s_clients s)] =
      filter (\<lambda>i. \<not> cl_skipFallback (s_clients s ! i)) [0..<length (s_clients s)]"
    using flags_nth(2) [OF assms(1)] by (intro filter_cong) auto
  define xs where "xs = firsts {} (map (rule_client s) hits @
      (if s_disableFallback s \<or> s_disableFallbackIfMatch s \<and> hits \<noteq> [] then []
       else filter (\<lambda>i. \<not> cl_skipFallback (s_clients s ! i)) [0..<length (s_clients s)]))"
  have "\<forall>x \<in> set xs. x < length (s_clients s)" using assms(2) by (auto simp: xs_def set_firsts)
  then have u: "upto_final (final_client s') xs = upto_final (final_client s) xs"
    using flags_nth(1) [OF assms(1)] by (intro upto_final_cong) auto
  have e: "s_disableFallback s' = s_disableFallback s" "s_disableFallbackIfMatch s' = s_disableFallbackIfMatch s"
    using assms(1) by (auto simp: same_flags_def)
  have ne: "(s_clients s' \<noteq> []) = (s_clients s \<noteq> [])" using l by (metis length_0_conv)
  show ?thesis unfolding policy_order_def Let_def rule_client_flags [OF assms(1)] l f e xs_def [symmetric] u ne by (rule refl)
qed

lemma hits_below:
  assumes "dns_ready env reg rules s" "h \<in> set (sorted_list_of_set (rule_hits env rules d))"
  shows "rule_client s h < length (s_clients s)"
  using assms finite_hits [of env rules d] by (auto simp: dns_ready_def infos_ok_def rule_hits_def)

lemma order_for_flags:
  assumes "dns_ready env reg rules s" "same_flags s s'"
  shows "order_for env rules s' d = order_for env rules s d"
  unfolding order_for_def by (rule policy_order_flags [OF assms(2)]) (use hits_below [OF assms(1)] in blast)

lemma ready_flags:
  assumes "dns_ready env reg rules s" "same_flags s s'"
  shows "dns_ready env reg rules s'"
proof -
  have "length (s_clients s') = length (s_clients s)" using assms(2) unfolding same_flags_def by (metis length_map)
  then show ?thesis using assms rule_client_flags [OF assms(2)] by (simp add: dns_ready_def infos_ok_def same_flags_def)
qed

lemma order_cache_flags:
  assumes "dns_ready env reg rules s" "same_flags s s'" "order_cache_ok env rules s" "s_sortCache s' = s_sortCache s"
  shows "order_cache_ok env rules s'"
  using assms(3,4) order_for_flags [OF assms(1,2)] by (simp add: order_cache_ok_def)

lemma sortClients_policy:
  assumes "dns_ready env reg rules s" "order_cache_ok env rules s"
  shows "\<exists>s'. sortClients env reg d s = Some (order_for env rules s (ToLower d), s') \<and> order_cache_ok env rules s' \<and>
    (\<exists>cache. s' = s\<lparr>s_sortCache := cache\<rparr>)"
proof (cases "al_get (s_sortCache s) (ToLower d)")
  case (Some cs)
  then have "cs = order_for env rules s (ToLower d)" using assms(2) by (simp add: order_cache_ok_def)
  moreover have "s = s\<lparr>s_sortCache := s_sortCache s\<rparr>" by simp
  moreover have "sortClients env reg d s = Some (cs, s)" using Some by (simp add: sortClients_def Let_def)
  ultimately show ?thesis using assms(2) by blast
next
  case None
  define cache where "cache = (if sortClientCacheCap \<le> length (s_sortCache s) then [] else s_sortCache s)"
  define o1 where "o1 = order_for env rules s (ToLower d)"
  define s' where "s' = s\<lparr>s_sortCache := al_put (ToLower d) o1 cache\<rparr>"
  have sc: "sortClients env reg d s = Some (o1, s')"
    using None sortForDomain_policy [OF assms(1) no_upper_ToLower [of d]] by (simp add: sortClients_def Let_def cache_def o1_def s'_def)
  have fl: "same_flags s s'" by (simp add: same_flags_def s'_def)
  have "length cache < sortClientCacheCap" by (auto simp: cache_def sortClientCacheCap_def)
  then have "length (s_sortCache s') \<le> sortClientCacheCap" by (simp add: s'_def length_al_put)
  moreover have "cs = order_for env rules s' k" if "al_get (s_sortCache s') k = Some cs" for k cs
  proof (cases "k = ToLower d")
    case True
    then show ?thesis using that order_for_flags [OF assms(1) fl] by (simp add: s'_def al_get_put o1_def)
  next
    case False
    then have "al_get cache k = Some cs" using that by (simp add: s'_def al_get_put)
    then have "al_get (s_sortCache s) k = Some cs" by (simp add: cache_def split: if_splits)
    then show ?thesis using assms(2) order_for_flags [OF assms(1) fl] by (simp add: order_cache_ok_def)
  qed
  ultimately show ?thesis using sc unfolding o1_def by (auto simp: order_cache_ok_def s'_def)
qed

lemma policy_order_shape:
  assumes "\<forall>h \<in> set hits. rule_client s h < length (s_clients s)" "s_clients s \<noteq> []"
  defines "ids \<equiv> policy_order s hits"
  shows "distinct ids \<and> ids \<noteq> [] \<and> set ids \<subseteq> {0..<length (s_clients s)} \<and>
    (\<forall>k. Suc k < length ids \<longrightarrow> \<not> final_client s (ids ! k))"
proof -
  define xs where "xs = firsts {} (map (rule_client s) hits @
      (if s_disableFallback s \<or> s_disableFallbackIfMatch s \<and> hits \<noteq> [] then []
       else filter (\<lambda>i. \<not> cl_skipFallback (s_clients s ! i)) [0..<length (s_clients s)]))"
  have x: "\<forall>x \<in> set xs. x < length (s_clients s)" using assms(1) by (auto simp: xs_def set_firsts)
  have i: "ids = (if upto_final (final_client s) xs = [] then [0] else upto_final (final_client s) xs)"
    using assms(2) by (simp add: ids_def policy_order_def Let_def xs_def)
  show ?thesis
  proof (cases "upto_final (final_client s) xs = []")
    case True
    then show ?thesis using i assms(2) by simp
  next
    case False
    have "distinct xs" unfolding xs_def by (rule distinct_firsts)
    then have "distinct ids" using i False distinct_upto_final by simp
    moreover have "set ids \<subseteq> {0..<length (s_clients s)}" using i False set_upto_final [of "final_client s" xs] x by auto
    moreover have "\<forall>k. Suc k < length ids \<longrightarrow> \<not> final_client s (ids ! k)"
      using i False upto_final_before [of _ "final_client s" xs] by auto
    ultimately show ?thesis using i False by simp
  qed
qed

text \<open>C29. In every state with a faithful cache, the order of clients that the server computes or takes from the
  cache is the policy: clients whose rules mean the domain in the order of the rules, then the others unless
  fallback is off, each once and none after a final one, and at least one. The cache stays faithful and bounded.\<close>

theorem client_order_exact:
  assumes "dns_ready env reg rules s" "order_cache_ok env rules s" "s_clients s \<noteq> []"
  shows "\<exists>ids s'. sortClients env reg d s = Some (ids, s') \<and>
    ids = policy_order s (sorted_list_of_set (rule_hits env rules (ToLower d))) \<and>
    distinct ids \<and> ids \<noteq> [] \<and> set ids \<subseteq> {0..<length (s_clients s)} \<and> (\<forall>k. Suc k < length ids \<longrightarrow> \<not> final_client s (ids ! k)) \<and>
    dns_ready env reg rules s' \<and> order_cache_ok env rules s'"
proof -
  obtain s' cache where s': "sortClients env reg d s = Some (order_for env rules s (ToLower d), s')" "order_cache_ok env rules s'"
      "s' = s\<lparr>s_sortCache := cache\<rparr>"
    using sortClients_policy [OF assms(1,2), of d] by blast
  have "same_flags s s'" by (simp add: same_flags_def s'(3))
  then show ?thesis using s' ready_flags [OF assms(1)] policy_order_shape [OF _ assms(3)] hits_below [OF assms(1)]
    unfolding order_for_def by blast
qed

section \<open>An example\<close>

text \<open>Two clients; a rule on the substring \<open>a\<close> names the second. Only the second answers, and no client
  answers without time.\<close>

definition ex_dns_client :: "nat \<Rightarrow> dns_client" where
  "ex_dns_client k = (NewLocalDNSClient k both_families)\<lparr>cl_timeout := 4000000000, cl_policyID := of_nat k\<rparr>"

definition ex_dns :: DNS where
  "ex_dns = \<lparr>s_disableFallback = False, s_disableFallbackIfMatch = False, s_enableParallelQuery = False,
     s_ipOption = both_families, s_hosts = \<lparr>hs_responses = [], hs_matcher = None\<rparr>, s_clients = [ex_dns_client 0, ex_dns_client 1],
     s_domainMatcher = Some 0, s_matcherInfos = [\<lparr>mi_clientIdx = 1, mi_domainRule = keyword_rule\<rparr>], s_checkSystem = False,
     s_sortCache = []\<rparr>"

definition ex_dns_env :: "netprefix list dns_env" where
  "ex_dns_env = \<lparr>dx_dom = ex_env, dx_netipx = list_netipx, dx_order = \<lparr>ordH = (\<lambda>xs. xs), ordB = (\<lambda>xs. xs), ordP = (\<lambda>xs. xs)\<rparr>,
     dx_load = (\<lambda>f c. Inl EOF), dx_routes = (\<lambda>t. (True, True)),
     dx_query = (\<lambda>k t timeout d opt. if timeout \<le> 0 then ([], 0, Some ErrContext)
        else if k = 1 then ([[10, 0, 0, 1]], 60, None) else ([], 0, Some ErrEmptyResponse)),
     dx_queryRaw = (\<lambda>k t timeout q. Inl NoRawSupport), dx_ctx = (\<lambda>t. None), dx_now = int, dx_wraps = (\<lambda>s e. False), dx_wire = ex_wire\<rparr>"

definition ex_dns_world :: "netprefix list dns_world" where
  "ex_dns_world = \<lparr>dw_domains = keyword_registry, dw_ips = \<lparr>reg_cache = [], reg_matchers = []\<rparr>\<rparr>"

lemma ex_dns_ready: "dns_ready ex_env keyword_registry [keyword_rule] ex_dns" "order_cache_ok ex_env [keyword_rule] ex_dns"
  using keyword_ready
  by (simp_all add: dns_ready_def hosts_ready_def ex_dns_def infos_ok_def rule_client_def keyword_hosts_def keyword_static_def
      order_cache_ok_def)

lemma ex_sorted: "sortClients ex_env keyword_registry ''a'' ex_dns = Some ([1, 0], ex_dns\<lparr>s_sortCache := [(''a'', [1, 0])]\<rparr>)"
  by (simp add: sortClients_def sortClientsForDomain_def ex_dns_def keyword_lower keyword_registry_def dd_Match_def ex_env_def
      keyword_matches ex_dns_client_def NewLocalDNSClient_def Let_def sortClientCacheCap_def upt_rec)

theorem client_order_exact_witness:
  "\<exists>ids s'. sortClients ex_env keyword_registry ''a'' ex_dns = Some (ids, s') \<and>
     ids = policy_order ex_dns (sorted_list_of_set (rule_hits ex_env [keyword_rule] (ToLower ''a''))) \<and>
     distinct ids \<and> ids \<noteq> [] \<and> set ids \<subseteq> {0..<length (s_clients ex_dns)} \<and>
     (\<forall>k. Suc k < length ids \<longrightarrow> \<not> final_client ex_dns (ids ! k)) \<and>
     dns_ready ex_env keyword_registry [keyword_rule] s' \<and> order_cache_ok ex_env [keyword_rule] s'"
  by (rule client_order_exact [OF ex_dns_ready]) (simp add: ex_dns_def)

section \<open>Queries one after the other\<close>

abbreviation asked :: "'s dns_env \<Rightarrow> 's IPRegistry \<Rightarrow> string \<Rightarrow> IPOption \<Rightarrow> nat \<Rightarrow> dns_client \<Rightarrow> lookup_result" where
  "asked env ireg d opt t c \<equiv> fst (Client_QueryIP env ireg t d opt c)"

lemma asked_ok: "fst (asked env ireg d opt t c) \<noteq> [] \<Longrightarrow> snd (snd (asked env ireg d opt t c)) = None"
  by (auto simp: Client_QueryIP_def Let_def split: if_splits prod.splits option.splits sum.splits)

lemma recordQuery_flags:
  "cl_finalQuery (recordQuery env t e c) = cl_finalQuery c" "cl_skipFallback (recordQuery env t e c) = cl_skipFallback c"
  by (simp_all add: recordQuery_def Let_def)

lemma Client_QueryIP_flags:
  "cl_finalQuery (snd (Client_QueryIP env ireg t d opt c)) = cl_finalQuery c"
  "cl_skipFallback (snd (Client_QueryIP env ireg t d opt c)) = cl_skipFallback c"
  by (auto simp: Client_QueryIP_def Let_def recordQuery_flags split: if_splits prod.splits option.splits sum.splits)

lemma set_client_flags:
  assumes "cl_finalQuery c = cl_finalQuery (s_clients s ! i)" "cl_skipFallback c = cl_skipFallback (s_clients s ! i)"
  shows "same_flags s (set_client i c s)"
proof -
  have "map f ((s_clients s)[i := c]) = map f (s_clients s)" if "f c = f (s_clients s ! i)" for f :: "dns_client \<Rightarrow> bool \<times> bool"
    using that by (metis list_update_id map_update)
  then show ?thesis using assms by (simp add: same_flags_def set_client_def)
qed

fun serial_answer :: "err_is \<Rightarrow> string \<Rightarrow> dns_error list \<Rightarrow> lookup_result list \<Rightarrow> lookup_result" where
  "serial_answer wraps d errs [] = ([], 0, Some (mergeQueryErrors wraps d errs))"
| "serial_answer wraps d errs (r # rs) =
     (if fst r \<noteq> [] then (fst r, fst (snd r), None) else serial_answer wraps d (errs @ [err_of r]) rs)"

lemma serial_loop_answer:
  assumes "distinct ids" "\<forall>j < length ids. dx_ctx env (t + j) = None" "\<forall>i \<in> set ids. FakeEnable opt \<or> \<not> is_fake (s_clients s ! i)"
  shows "fst (serial_loop env ireg t d opt ids errs s) =
    serial_answer (dx_wraps env) d errs (map (\<lambda>j. asked env ireg d opt (t + j) (s_clients s ! (ids ! j))) [0..<length ids])"
  using assms
proof (induction ids arbitrary: t errs s)
  case (Cons i ids)
  obtain ps ttl e c' where q: "Client_QueryIP env ireg t d opt (s_clients s ! i) = ((ps, ttl, e), c')" by (metis prod_cases3 surj_pair)
  have ctx: "dx_ctx env t = None" using Cons.prems(2) by (metis add.right_neutral length_greater_0_conv list.discI)
  have cons_map: "map f [0..<Suc (length ids)] = f 0 # map (\<lambda>j. f (Suc j)) [0..<length ids]" for f :: "nat \<Rightarrow> lookup_result"
    by (simp add: upt_conv_Cons map_Suc_upt [symmetric] comp_def del: upt_Suc)
  have nf: "(\<not> FakeEnable opt \<and> is_fake (s_clients s ! i)) = False" using Cons.prems(3) by auto
  show ?case
  proof (cases "ps \<noteq> []")
    case True
    then show ?thesis using q ctx nf by (auto simp: cons_map simp del: upt_Suc)
  next
    case False
    let ?s = "set_client i c' s" and ?e = "case e of None \<Rightarrow> ErrEmptyResponse | Some x \<Rightarrow> x"
    have other: "s_clients ?s ! k = s_clients s ! k" if "k \<in> set ids" for k
      using that Cons.prems(1) by (cases "k = i") (auto simp: set_client_def)
    have m: "map (\<lambda>j. asked env ireg d opt (Suc t + j) (s_clients ?s ! (ids ! j))) [0..<length ids] =
        map (\<lambda>j. asked env ireg d opt (Suc (t + j)) (s_clients s ! (ids ! j))) [0..<length ids]"
      using other by auto
    have "fst (serial_loop env ireg (Suc t) d opt ids (errs @ [?e]) ?s) = serial_answer (dx_wraps env) d (errs @ [?e])
        (map (\<lambda>j. asked env ireg d opt (Suc t + j) (s_clients ?s ! (ids ! j))) [0..<length ids])"
      using Cons.prems other by (intro Cons.IH) auto
    then show ?thesis unfolding m using q ctx False nf by (auto simp: cons_map err_of_def simp del: upt_Suc)
  qed
qed simp

lemma serial_answer_policy:
  assumes "\<forall>r \<in> set rs. fst r \<noteq> [] \<longrightarrow> snd (snd r) = None"
  shows "(if \<exists>r \<in> set rs. succeeds r
    then \<exists>j < length rs. succeeds (rs ! j) \<and> (\<forall>i < j. \<not> succeeds (rs ! i)) \<and> serial_answer wraps d errs rs = rs ! j
    else serial_answer wraps d errs rs = ([], 0, Some (mergeQueryErrors wraps d (errs @ map err_of rs))))"
  using assms
proof (induction rs arbitrary: errs)
  case (Cons r rs)
  show ?case
  proof (cases "fst r \<noteq> []")
    case True
    then have "succeeds r" "serial_answer wraps d errs (r # rs) = r" using Cons.prems by (cases r; simp add: succeeds_def)+
    then show ?thesis by auto
  next
    case False
    then have n: "\<not> succeeds r" by (simp add: succeeds_def)
    have IH: "if \<exists>r \<in> set rs. succeeds r
      then \<exists>j < length rs. succeeds (rs ! j) \<and> (\<forall>i < j. \<not> succeeds (rs ! i)) \<and> serial_answer wraps d (errs @ [err_of r]) rs = rs ! j
      else serial_answer wraps d (errs @ [err_of r]) rs = ([], 0, Some (mergeQueryErrors wraps d ((errs @ [err_of r]) @ map err_of rs)))"
      by (rule Cons.IH) (use Cons.prems in simp)
    show ?thesis
    proof (cases "\<exists>r \<in> set rs. succeeds r")
      case True
      then obtain j where "j < length rs" "succeeds (rs ! j)" "\<forall>i < j. \<not> succeeds (rs ! i)"
          "serial_answer wraps d (errs @ [err_of r]) rs = rs ! j"
        using IH by auto
      then have "Suc j < length (r # rs) \<and> succeeds ((r # rs) ! Suc j) \<and> (\<forall>i < Suc j. \<not> succeeds ((r # rs) ! i)) \<and>
          serial_answer wraps d errs (r # rs) = (r # rs) ! Suc j"
        using False n by (auto simp: nth_Cons less_Suc_eq_0_disj split: nat.splits)
      then show ?thesis using True by auto
    next
      case none: False
      then show ?thesis using IH False n by simp
    qed
  qed
qed simp

section \<open>Parallel queries\<close>

lemma async_asked: "FakeEnable opt \<or> \<not> is_fake (clients ! k) \<Longrightarrow> fst (async_result env ireg at d opt clients k) = asked env ireg d opt (at k) (clients ! k)"
  by (auto simp: async_result_def)

lemma parallel_group_answer:
  assumes "sortClients (dx_dom env) (dw_domains w) d s = Some (ids, s')" "distinct order" "set order = {0..<length ids}"
    "clients = map (\<lambda>i. s_clients s' ! i) ids" "makeGroups (map cl_policyID clients) = (groups, groupOf)"
    "res = (\<lambda>k. fst (async_result env (dw_ips w) at d opt clients k))"
  shows "\<exists>r s''. parallelQuery env w at order None d opt s = Some (r, s'') \<and> policy_answer (dx_wraps env) d groupOf res (length ids) r"
proof -
  have n: "length clients = length ids" using assms(4) by simp
  then obtain r where r: "parallel_loop (dx_wraps env) d groups groupOf (length ids) (map (\<lambda>k. Arrived k (res k)) order)
      (replicate (length ids) None) (map (\<lambda>g. g_end g - g_start g + 1) groups) 0 [] = Some r"
      "policy_answer (dx_wraps env) d groupOf res (length ids) r"
    using parallel_policy [OF assms(5,2), of "dx_wraps env" d res] assms(3) by auto
  have "parallelQuery env w at order None d opt s =
      Some (r, fold (\<lambda>k. set_client (ids ! k) (snd (async_result env (dw_ips w) at d opt clients k))) order s')"
    using assms(5) n r(1) unfolding parallelQuery_def assms(1) assms(6)
    by (simp add: assms(4) [symmetric] Let_def del: map_map)
  then show ?thesis using r(2) by blast
qed

lemma parallel_cut_answer:
  assumes "sortClients (dx_dom env) (dw_domains w) d s = Some (ids, s')" "distinct order" "set order \<subseteq> {0..<length ids}"
  shows "\<exists>r s''. parallelQuery env w at order (Some (n, e)) d opt s = Some (r, s'')"
proof -
  define clients where "clients = map (\<lambda>i. s_clients s' ! i) ids"
  define res where "res = (\<lambda>k. fst (async_result env (dw_ips w) at d opt clients k))"
  have len: "length (map cl_policyID clients) = length ids" by (simp add: clients_def)
  obtain groups groupOf where g: "makeGroups (map cl_policyID clients) = (groups, groupOf)" by fastforce
  have "set (take n order) \<subseteq> {0..<length (map cl_policyID clients)}" using assms(3) set_take_subset unfolding len by fastforce
  from parallel_cut [OF g _ this, of "dx_wraps env" d res e] assms(2) obtain r where
    r: "parallel_loop (dx_wraps env) d groups groupOf (length ids) (map (\<lambda>k. Arrived k (res k)) (take n order) @ [ContextDone e])
      (replicate (length ids) None) (map (\<lambda>g. g_end g - g_start g + 1) groups) 0 [] = Some r" unfolding len by auto
  have "parallelQuery env w at order (Some (n, e)) d opt s =
      Some (r, fold (\<lambda>k. set_client (ids ! k) (snd (async_result env (dw_ips w) at d opt clients k))) order s')"
    using g r len unfolding parallelQuery_def assms(1) res_def
    by (simp add: clients_def [symmetric] Let_def take_map del: map_map)
  then show ?thesis by blast
qed

text \<open>Whatever the order in which the results of a parallel query arrive, it ends with an answer of a client in
  the first group that has one, the groups being runs of neighbours with one policy; without an answer it ends
  with the merged errors of all clients in their order.\<close>

theorem parallel_first_group:
  assumes "sortClients (dx_dom env) (dw_domains w) d s = Some (ids, s')" "distinct order" "set order = {0..<length ids}"
    "clients = map (\<lambda>i. s_clients s' ! i) ids" "makeGroups (map cl_policyID clients) = (groups, groupOf)"
    "res = (\<lambda>k. fst (async_result env (dw_ips w) at d opt clients k))"
  shows "\<exists>r s''. parallelQuery env w at order None d opt s = Some (r, s'') \<and> policy_answer (dx_wraps env) d groupOf res (length ids) r"
  using assms by (rule parallel_group_answer)

theorem parallel_first_group_witness:
  "\<exists>r s''. parallelQuery ex_dns_env ex_dns_world (\<lambda>k. k) [1, 0] None ''a'' both_families ex_dns = Some (r, s'') \<and>
     policy_answer (\<lambda>s e. False) ''a'' [0, 1]
       (\<lambda>k. fst (async_result ex_dns_env (dw_ips ex_dns_world) (\<lambda>k. k) ''a'' both_families [ex_dns_client 1, ex_dns_client 0] k)) 2 r"
proof -
  have g: "makeGroups (map cl_policyID [ex_dns_client 1, ex_dns_client 0]) =
      ([\<lparr>g_start = 0, g_end = 0\<rparr>, \<lparr>g_start = 1, g_end = 1\<rparr>], [0, 1])"
    by (simp add: makeGroups_def ex_dns_client_def Let_def upt_rec)
  have e: "dx_dom ex_dns_env = ex_env" "dw_domains ex_dns_world = keyword_registry" "dx_wraps ex_dns_env = (\<lambda>s e. False)"
    by (simp_all add: ex_dns_env_def ex_dns_world_def)
  have "set [1, 0] = {0..<length [1, 0 :: nat]}" by auto
  from parallel_first_group [where env = ex_dns_env and w = ex_dns_world, unfolded e, OF ex_sorted _ this _ g refl, of "\<lambda>k. k" both_families]
  show ?thesis by (simp add: ex_dns_def numeral_2_eq_2)
qed

lemma policy_answer_unique:
  assumes "policy_answer wraps d gof res n r" "\<And>k. k < n \<Longrightarrow> gof ! k = k"
  shows "r = (if \<exists>i < n. succeeds (res i) then res (LEAST i. i < n \<and> succeeds (res i))
    else ([], 0, Some (mergeQueryErrors wraps d (map (\<lambda>j. err_of (res j)) [0..<n]))))"
proof (cases "\<exists>i < n. succeeds (res i)")
  case True
  then obtain j where j: "j < n" "succeeds (res j)" "\<forall>i < n. succeeds (res i) \<longrightarrow> j \<le> i" "r = res j"
    using assms by (auto simp: policy_answer_def)
  then have "(LEAST i. i < n \<and> succeeds (res i)) = j" by (intro Least_equality) auto
  then show ?thesis using True j(4) by simp
next
  case False
  then show ?thesis using assms(1) unfolding policy_answer_def by (simp only: if_False)
qed

lemma policy_answer_same:
  assumes "policy_answer wraps d gof res n r" "policy_answer wraps d gof res n r'" "\<And>k. k < n \<Longrightarrow> gof ! k = k"
  shows "r = r'"
  by (rule trans [OF policy_answer_unique [OF assms(1,3)] policy_answer_unique [OF assms(2,3), symmetric]])

text \<open>C30. When neighbouring clients have different policies, a parallel query gives the result of asking the
  clients one after the other, for every order of arrival: concurrency changes the time it takes and nothing
  else. The clients answer as they do at the moments of the sequential query, and none is a fake one.\<close>

theorem parallel_equals_serial:
  assumes "sortClients (dx_dom env) (dw_domains w) d s = Some (ids, s')" "distinct ids" "distinct order" "set order = {0..<length ids}"
    "\<forall>k. Suc k < length ids \<longrightarrow> cl_policyID (s_clients s' ! (ids ! k)) \<noteq> cl_policyID (s_clients s' ! (ids ! Suc k))"
    "\<forall>j < length ids. dx_ctx env (t + j) = None" "\<forall>i \<in> set ids. FakeEnable opt \<or> \<not> is_fake (s_clients s' ! i)"
  shows "map_option fst (parallelQuery env w (\<lambda>k. t + k) order None d opt s) = map_option fst (serialQuery env w t d opt s)"
proof -
  define clients where "clients = map (\<lambda>i. s_clients s' ! i) ids"
  define res where "res = (\<lambda>k. fst (async_result env (dw_ips w) (\<lambda>k. t + k) d opt clients k))"
  obtain groups groupOf where g: "makeGroups (map cl_policyID clients) = (groups, groupOf)" by fastforce
  have single: "groupOf ! k = k" if "k < length ids" for k
    using single_groups [OF g, of k] assms(5) that by (simp add: clients_def)
  obtain r s'' where r: "parallelQuery env w (\<lambda>k. t + k) order None d opt s = Some (r, s'')"
      "policy_answer (dx_wraps env) d groupOf res (length ids) r"
    using parallel_group_answer [OF assms(1,3,4) clients_def g res_def] by blast
  let ?rs = "map res [0..<length ids]"
  have res: "res j = asked env (dw_ips w) d opt (t + j) (s_clients s' ! (ids ! j))" if "j < length ids" for j
  proof -
    have "FakeEnable opt \<or> \<not> is_fake (clients ! j)" using assms(7) that by (auto simp: clients_def)
    then show ?thesis using that by (simp add: res_def async_asked clients_def)
  qed
  have map_res: "?rs = map (\<lambda>j. asked env (dw_ips w) d opt (t + j) (s_clients s' ! (ids ! j))) [0..<length ids]"
    using res by simp
  have sl: "fst (serial_loop env (dw_ips w) t d opt ids [] s') = serial_answer (dx_wraps env) d [] ?rs"
    unfolding map_res by (rule serial_loop_answer [OF assms(2,6,7)])
  have ok: "\<forall>x \<in> set ?rs. fst x \<noteq> [] \<longrightarrow> snd (snd x) = None" unfolding map_res by (auto simp: asked_ok)
  note pol = serial_answer_policy [of ?rs "dx_wraps env" d "[]", OF ok]
  have "policy_answer (dx_wraps env) d groupOf res (length ids) (serial_answer (dx_wraps env) d [] ?rs)"
  proof (cases "\<exists>x \<in> set ?rs. succeeds x")
    case True
    then obtain j where j: "j < length ids" "succeeds (res j)" "\<forall>i < j. \<not> succeeds (res i)" "serial_answer (dx_wraps env) d [] ?rs = res j"
      using pol by auto
    then have "\<forall>i < length ids. succeeds (res i) \<longrightarrow> groupOf ! j \<le> groupOf ! i" using single by (metis not_le_imp_less)
    then show ?thesis using j True unfolding policy_answer_def by auto
  next
    case False
    then have "\<not> (\<exists>i < length ids. succeeds (res i))" by auto
    moreover have "serial_answer (dx_wraps env) d [] ?rs = ([], 0, Some (mergeQueryErrors (dx_wraps env) d (map (\<lambda>j. err_of (res j)) [0..<length ids])))"
      using pol False by (simp only: if_False append_Nil map_map comp_def)
    ultimately show ?thesis unfolding policy_answer_def by (simp only: if_False)
  qed
  then have "serial_answer (dx_wraps env) d [] ?rs = r"
    by (rule policy_answer_same [OF _ r(2) single])
  then show ?thesis using r(1) sl assms(1) by (simp add: serialQuery_def)
qed

theorem parallel_equals_serial_witness:
  "map_option fst (parallelQuery ex_dns_env ex_dns_world (\<lambda>k. 0 + k) [1, 0] None ''a'' both_families ex_dns) =
   map_option fst (serialQuery ex_dns_env ex_dns_world 0 ''a'' both_families ex_dns)"
proof -
  have e: "dx_dom ex_dns_env = ex_env" "dw_domains ex_dns_world = keyword_registry"
    by (simp_all add: ex_dns_env_def ex_dns_world_def)
  have "set [1, 0] = {0..<length [1, 0 :: nat]}" by auto
  from parallel_equals_serial [where env = ex_dns_env and w = ex_dns_world, unfolded e, OF ex_sorted _ _ this, of 0 both_families]
  show ?thesis
    by (simp add: ex_dns_def ex_dns_client_def NewLocalDNSClient_def ex_dns_env_def is_fake_def EqualFold_def ToLower_def lower_char_def)
qed

end
