(* ===== verification/DnsLookups.thy ===== *)
theory DnsLookups
  imports DnsServerProps IPFilters
begin

text \<open>
  The DNS server as a whole: the state that \<open>New\<close> makes satisfies the invariant of the server, every operation
  keeps it, and no operation panics; the filters of a client; the client that stands in when none is configured.
\<close>

section \<open>The filters of a client\<close>

text \<open>What a client lets through, said of sets of addresses.\<close>

definition prefer_set :: "('a \<Rightarrow> bool) \<Rightarrow> 'a set \<Rightarrow> 'a set" where
  "prefer_set P S = (if \<exists>p \<in> S. P p then {p \<in> S. P p} else S)"

definition strict_set :: "('m \<Rightarrow> ip \<Rightarrow> bool) \<Rightarrow> 'm option \<Rightarrow> 'm option \<Rightarrow> bool \<Rightarrow> bool \<Rightarrow> ip set \<Rightarrow> ip set" where
  "strict_set M e u pe pu S =
     {p \<in> S. (\<forall>m. e = Some m \<and> \<not> pe \<longrightarrow> M m p) \<and> (\<forall>m. u = Some m \<and> \<not> pu \<longrightarrow> std_addr p \<noteq> None \<and> \<not> M m p)}"

definition policy_set :: "('m \<Rightarrow> ip \<Rightarrow> bool) \<Rightarrow> 'm option \<Rightarrow> 'm option \<Rightarrow> bool \<Rightarrow> bool \<Rightarrow> ip set \<Rightarrow> ip set" where
  "policy_set M e u pe pu S =
     (let wanted = (case e of Some m \<Rightarrow> if pe then prefer_set (M m) else id | None \<Rightarrow> id);
          better = (case u of Some m \<Rightarrow> if pu then prefer_set (\<lambda>p. std_addr p \<noteq> None \<and> \<not> M m p) else id | None \<Rightarrow> id)
      in better (wanted (strict_set M e u pe pu S)))"

lemma prefer_set_empty [simp]: "prefer_set P S = {} \<longleftrightarrow> S = {}"
  by (auto simp: prefer_set_def)

lemma policy_set_empty: "policy_set M e u pe pu S = {} \<longleftrightarrow> strict_set M e u pe pu S = {}"
  by (simp add: policy_set_def Let_def split: option.splits)

lemma same_addrs_prefer:
  assumes "same_addrs A B" "\<And>p q. std_addr p = std_addr q \<Longrightarrow> P p \<longleftrightarrow> P q"
  shows "same_addrs (prefer_set P A) (prefer_set P B)"
proof -
  have "(\<exists>p \<in> A. P p) \<longleftrightarrow> (\<exists>p \<in> B. P p)"
    using same_addrs_empty [OF same_addrs_Collect [where P = P, OF assms]] by auto
  then show ?thesis using same_addrs_Collect [where P = P, OF assms] assms(1) by (simp add: prefer_set_def)
qed

lemma same_addrs_choose:
  assumes "same_addrs (set F) {p \<in> S. P p}"
  shows "same_addrs (if b \<and> F \<noteq> [] then set F else S) ((if b then prefer_set P else id) S)"
proof (cases "\<exists>p \<in> S. P p")
  case True
  then have "F \<noteq> []" using same_addrs_empty [OF assms] by auto
  then show ?thesis using True assms by (simp add: prefer_set_def)
next
  case False
  then have "F = []" using same_addrs_empty [OF assms] by auto
  then show ?thesis using False by (simp add: prefer_set_def)
qed

context ip_filter
begin

lemma not_match_same:
  "inv m \<Longrightarrow> std_addr p = std_addr q \<Longrightarrow> std_addr p \<noteq> None \<and> \<not> M m p \<longleftrightarrow> std_addr q \<noteq> None \<and> \<not> M m q"
  using match_same [of m p q] by simp

lemma strict_expected_set:
  assumes "\<forall>m. e = Some m \<longrightarrow> inv m"
  shows "same_addrs (set (strict_expected Filter e pe ps)) {p \<in> set ps. \<forall>m. e = Some m \<and> \<not> pe \<longrightarrow> M m p}"
  using assms matched by (cases e) (auto simp: strict_expected_def)

lemma strict_unexpected_set:
  assumes "\<forall>m. u = Some m \<longrightarrow> inv m \<and> splits m"
  shows "same_addrs (set (strict_unexpected Filter u pu ps))
    {p \<in> set ps. \<forall>m. u = Some m \<and> \<not> pu \<longrightarrow> std_addr p \<noteq> None \<and> \<not> M m p}"
  using assms unmatched by (cases u) (auto simp: strict_unexpected_def)

lemma strict_filters:
  assumes "\<forall>m. e = Some m \<longrightarrow> inv m" "\<forall>m. u = Some m \<longrightarrow> inv m \<and> splits m"
  shows "same_addrs (set (strict_unexpected Filter u pu (strict_expected Filter e pe ps))) (strict_set M e u pe pu (set ps))"
proof -
  let ?P = "\<lambda>p. \<forall>m. u = Some m \<and> \<not> pu \<longrightarrow> std_addr p \<noteq> None \<and> \<not> M m p"
  have "?P p \<longleftrightarrow> ?P q" if "std_addr p = std_addr q" for p q using assms(2) not_match_same [OF _ that] by metis
  from same_addrs_trans [OF strict_unexpected_set [OF assms(2)] same_addrs_Collect [OF strict_expected_set [OF assms(1)], where P = ?P, OF this]]
  show ?thesis by (simp add: strict_set_def conj_assoc)
qed

lemma prior_expected_set:
  assumes "\<forall>m. e = Some m \<longrightarrow> inv m"
  shows "same_addrs (set (prior_expected Filter e pe ps)) ((case e of Some m \<Rightarrow> if pe then prefer_set (M m) else id | None \<Rightarrow> id) (set ps))"
proof (cases e)
  case (Some m)
  then have "same_addrs (set (fst (Filter m ps))) {p \<in> set ps. M m p}" using assms matched by blast
  from same_addrs_choose [OF this, of pe] show ?thesis unfolding Some by (simp add: prior_expected_def split: if_splits)
qed (simp add: prior_expected_def)

lemma prior_unexpected_set:
  assumes "\<forall>m. u = Some m \<longrightarrow> inv m \<and> splits m"
  shows "same_addrs (set (prior_unexpected Filter u pu ps))
    ((case u of Some m \<Rightarrow> if pu then prefer_set (\<lambda>p. std_addr p \<noteq> None \<and> \<not> M m p) else id | None \<Rightarrow> id) (set ps))"
proof (cases u)
  case (Some m)
  then have "same_addrs (set (snd (Filter m ps))) {p \<in> set ps. std_addr p \<noteq> None \<and> \<not> M m p}" using assms unmatched by blast
  from same_addrs_choose [OF this, of pu] show ?thesis unfolding Some by (simp only: prior_unexpected_def option.case if_distrib [of set])
qed (simp add: prior_unexpected_def)

lemma prior_filters:
  assumes "\<forall>m. e = Some m \<longrightarrow> inv m" "\<forall>m. u = Some m \<longrightarrow> inv m \<and> splits m"
    and b: "same_addrs (set b) (strict_set M e u pe pu S)"
  shows "same_addrs (set (prior_unexpected Filter u pu (prior_expected Filter e pe b))) (policy_set M e u pe pu S)"
proof -
  let ?w = "case e of Some m \<Rightarrow> if pe then prefer_set (M m) else id | None \<Rightarrow> id"
  let ?x = "case u of Some m \<Rightarrow> if pu then prefer_set (\<lambda>p. std_addr p \<noteq> None \<and> \<not> M m p) else id | None \<Rightarrow> id"
  have w: "same_addrs (?w A) (?w B)" if "same_addrs A B" for A B
  proof (cases e)
    case (Some m)
    then have "inv m" using assms(1) by simp
    from same_addrs_prefer [OF that match_same [OF this]] show ?thesis using that by (cases pe) (simp_all only: Some option.case if_True if_False id_apply)
  qed (use that in simp)
  have x: "same_addrs (?x A) (?x B)" if "same_addrs A B" for A B
  proof (cases u)
    case (Some m)
    then have "inv m" using assms(2) by simp
    have "same_addrs (prefer_set (\<lambda>p. std_addr p \<noteq> None \<and> \<not> M m p) A) (prefer_set (\<lambda>p. std_addr p \<noteq> None \<and> \<not> M m p) B)"
      by (rule same_addrs_prefer [OF that]) (rule not_match_same [OF \<open>inv m\<close>])
    then show ?thesis unfolding Some option.case using that by (cases pu) (simp_all only: if_True if_False id_apply)
  qed (use that in simp)
  from same_addrs_trans [OF prior_unexpected_set [OF assms(2)] x [OF same_addrs_trans [OF prior_expected_set [OF assms(1)] w [OF b]]]]
  show ?thesis by (simp add: policy_set_def Let_def)
qed

lemma strict_expected_empty:
  assumes "\<forall>m. u = Some m \<longrightarrow> inv m \<and> splits m"
  shows "strict_unexpected Filter u pu [] = []"
  using same_addrs_empty [OF strict_unexpected_set [OF assms, of pu "[]"]] by simp

lemma apply_policy_set:
  assumes "\<forall>m. e = Some m \<longrightarrow> inv m" "\<forall>m. u = Some m \<longrightarrow> inv m \<and> splits m" "ps \<noteq> []"
  shows "if policy_set M e u pe pu (set ps) = {} then apply_policy Filter e u pe pu ps = Inl ErrEmptyResponse
    else \<exists>qs. apply_policy Filter e u pe pu ps = Inr qs \<and> same_addrs (set qs) (policy_set M e u pe pu (set ps))"
proof (cases "strict_set M e u pe pu (set ps) = {}")
  case True
  then have b: "strict_unexpected Filter u pu (strict_expected Filter e pe ps) = []"
    using same_addrs_empty [OF strict_filters [OF assms(1,2), of pu pe ps]] by simp
  then have "e \<noteq> None \<and> \<not> pe \<and> strict_expected Filter e pe ps = [] \<or> u \<noteq> None \<and> \<not> pu"
    using assms(3) by (auto simp: strict_unexpected_def strict_expected_def split: option.splits if_splits)
  then show ?thesis using True b by (auto simp: policy_set_empty apply_policy_def Let_def)
next
  case False
  define b where "b = strict_unexpected Filter u pu (strict_expected Filter e pe ps)"
  have sb: "same_addrs (set b) (strict_set M e u pe pu (set ps))" using strict_filters [OF assms(1,2)] by (simp add: b_def)
  then have "b \<noteq> []" using False same_addrs_empty [OF sb] by auto
  then have "strict_expected Filter e pe ps \<noteq> []" using strict_expected_empty [OF assms(2), of pu] by (auto simp: b_def)
  then have "apply_policy Filter e u pe pu ps = Inr (prior_unexpected Filter u pu (prior_expected Filter e pe b))"
    using \<open>b \<noteq> []\<close> by (simp add: apply_policy_def Let_def b_def)
  then show ?thesis using False prior_filters [OF assms(1,2) sb] by (simp add: policy_set_empty)
qed

end

interpretation dynf: ip_filter "\<lambda>d. ipm_inv nx (dyn_matcher d) \<and> orders_ok o1" "dyn_Match nx" "\<lambda>d. one_view (dyn_matcher d)" "dyn_FilterIPs nx o1"
  for nx :: "'s netipx" and o1 :: view_order
proof
  fix d :: "'s DynamicIPMatcher" and p q :: ip and ps
  assume inv: "ipm_inv nx (dyn_matcher d) \<and> orders_ok o1"
  show "std_addr p = std_addr q \<Longrightarrow> dyn_Match nx d p \<longleftrightarrow> dyn_Match nx d q"
    unfolding dyn_Match_def by (rule ipmf.match_same [OF inv])
  show "same_addrs (set (fst (dyn_FilterIPs nx o1 d ps))) {p \<in> set ps. dyn_Match nx d p}"
    unfolding dyn_Match_def dyn_FilterIPs_def by (rule ipmf.matched [OF inv])
  show "one_view (dyn_matcher d) \<Longrightarrow> same_addrs (set (snd (dyn_FilterIPs nx o1 d ps))) {p \<in> set ps. std_addr p \<noteq> None \<and> \<not> dyn_Match nx d p}"
    unfolding dyn_Match_def dyn_FilterIPs_def by (rule ipmf.unmatched [OF inv])
qed

text \<open>C31. When the server of a client answers, the client passes on exactly the addresses its policy allows:
  with strict filters those that are expected and not unexpected, with the others the preferred ones as long as
  there are any; when none is left the answer is the error of an empty response. The expected filter is any matcher
  of the registry; the sets of the unexpected filter ask for the same view of each family (their longest IPv4
  prefixes are all at most 24 bits or all longer, their longest IPv6 prefixes all at most 64 bits or all longer),
  because over sets that do not the code lets unexpected addresses through. Of several forms of one address (4 or
  16 bytes) at least one is passed on.\<close>

theorem client_policy_exact:
  assumes "registry_inv (dx_netipx env) load reg" "orders_ok (dx_order env)"
    "\<forall>i. Some i \<in> {cl_expectedIPs c, cl_unexpectedIPs c} \<longrightarrow> i < length (reg_matchers reg)"
    "\<forall>m. matcher_at reg (cl_unexpectedIPs c) = Some m \<longrightarrow> one_view (dyn_matcher m)"
    "opt = narrow env t (cl_checkSystem c) (cl_ipOption c) opt0" "IPv4Enable opt \<or> IPv6Enable opt"
    "dx_query env (cl_server c) t (cl_timeout c) d opt = (ps, ttl, None)"
    "S = policy_set (dyn_Match (dx_netipx env)) (matcher_at reg (cl_expectedIPs c)) (matcher_at reg (cl_unexpectedIPs c))
       (cl_actPrior c) (cl_actUnprior c) (set ps)"
  shows "\<exists>qs. same_addrs (set qs) S \<and>
    fst (Client_QueryIP env reg t d opt0 c) = (if S = {} then ([], 0, Some ErrEmptyResponse) else (qs, ttl, None))"
proof (cases "ps = []")
  case True
  then have "S = {}" by (simp add: assms(8) policy_set_empty strict_set_def)
  then show ?thesis using assms(5-7) True by (auto simp: Client_QueryIP_def Let_def intro: exI [of _ "[]"])
next
  case False
  have inv: "ipm_inv (dx_netipx env) (dyn_matcher m) \<and> orders_ok (dx_order env)"
    if "matcher_at reg i = Some m" "i \<in> {cl_expectedIPs c, cl_unexpectedIPs c}" for i m
    using that assms(1-3) by (auto simp: matcher_at_def registry_inv_def list_all_length dyn_inv_def)
  have "if S = {} then apply_policy (dyn_FilterIPs (dx_netipx env) (dx_order env)) (matcher_at reg (cl_expectedIPs c))
      (matcher_at reg (cl_unexpectedIPs c)) (cl_actPrior c) (cl_actUnprior c) ps = Inl ErrEmptyResponse
    else \<exists>qs. apply_policy (dyn_FilterIPs (dx_netipx env) (dx_order env)) (matcher_at reg (cl_expectedIPs c))
      (matcher_at reg (cl_unexpectedIPs c)) (cl_actPrior c) (cl_actUnprior c) ps = Inr qs \<and> same_addrs (set qs) S"
    unfolding assms(8) using inv assms(4) by (intro dynf.apply_policy_set [OF _ _ False]) blast+
  then show ?thesis using assms(5-7) False
    by (cases "S = {}") (auto simp: Client_QueryIP_def Let_def intro: exI [of _ "[]"])
qed

text \<open>A registry with a matcher over 10.0.0.0/8, and one over the two sets 10.1.2.3/32 and 8.0.0.0/8, which have
  different views.\<close>

definition ex_filter_registry :: "netprefix list IPRegistry" where
  "ex_filter_registry = \<lparr>reg_cache = [],
     reg_matchers = [\<lparr>dyn_rules = [], dyn_matcher = Heuristic ex_pos, dyn_reverse = False, dyn_reverseSet = False\<rparr>,
       \<lparr>dyn_rules = [], dyn_matcher = HeuristicMulti [ex_host, ex_eight], dyn_reverse = False, dyn_reverseSet = False\<rparr>]\<rparr>"

definition ex_filter_env :: "ip list \<Rightarrow> netprefix list dns_env" where
  "ex_filter_env ps = ex_dns_env\<lparr>dx_query := \<lambda>k t timeout d opt. (ps, 60, None)\<rparr>"

lemma Match_list: "Match list_netipx m p = (case std_addr p of None \<Rightarrow> False | Some a \<Rightarrow> matchAddr list_netipx m a)"
  by (simp add: Match_def list_netipx_def split: option.splits)

lemma ex_filter_inv: "registry_inv list_netipx ex_load ex_filter_registry"
  by (simp add: registry_inv_def ex_filter_registry_def dyn_inv_def ex_inv ex_inv_eight list_netipx_ok rules_ok_def cache_ok_def
      posGeoip_def negGeoip_def)

lemmas ex_filter_defs = ex_filter_env_def ex_dns_env_def ex_filter_registry_def ex_dns_client_def NewLocalDNSClient_def matcher_at_def

theorem client_policy_exact_witness:
  "\<exists>qs. same_addrs (set qs) {[8, 8, 8, 8]} \<and>
     fst (Client_QueryIP (ex_filter_env [[10, 1, 2, 3], [8, 8, 8, 8], [10, 0, 0, 1]]) ex_filter_registry 0 ''a'' both_families
       ((ex_dns_client 1)\<lparr>cl_expectedIPs := Some 1, cl_unexpectedIPs := Some 0\<rparr>)) = (qs, 60, None)"
proof -
  let ?c = "(ex_dns_client 1)\<lparr>cl_expectedIPs := Some 1, cl_unexpectedIPs := Some 0\<rparr>"
  let ?ps = "[[10, 1, 2, 3], [8, 8, 8, 8], [10, 0, 0, 1]] :: ip list"
  let ?env = "ex_filter_env ?ps" and ?reg = ex_filter_registry
  have inv: "registry_inv (dx_netipx ?env) ex_load ?reg" using ex_filter_inv by (simp add: ex_filter_env_def ex_dns_env_def)
  have ord: "orders_ok (dx_order ?env)" by (simp add: orders_ok_def ex_filter_env_def ex_dns_env_def)
  have at: "\<forall>i. Some i \<in> {cl_expectedIPs ?c, cl_unexpectedIPs ?c} \<longrightarrow> i < length (reg_matchers ?reg)"
    "\<forall>m. matcher_at ?reg (cl_unexpectedIPs ?c) = Some m \<longrightarrow> one_view (dyn_matcher m)"
    by (simp_all add: ex_filter_defs)
  have f: "IPv4Enable (narrow ?env 0 (cl_checkSystem ?c) (cl_ipOption ?c) both_families)"
    by (simp add: narrow_def ex_dns_client_def NewLocalDNSClient_def both_families_def)
  have q: "dx_query ?env (cl_server ?c) 0 (cl_timeout ?c) ''a'' (narrow ?env 0 (cl_checkSystem ?c) (cl_ipOption ?c) both_families) = (?ps, 60, None)"
    by (simp add: ex_filter_env_def)
  have s: "policy_set (dyn_Match (dx_netipx ?env)) (matcher_at ?reg (cl_expectedIPs ?c)) (matcher_at ?reg (cl_unexpectedIPs ?c))
      (cl_actPrior ?c) (cl_actUnprior ?c) (set ?ps) = {[8, 8, 8, 8]}"
    by (auto simp: policy_set_def strict_set_def ex_filter_defs dyn_Match_def Match_list multi_Match_iff)
  show ?thesis
    using client_policy_exact [OF inv ord at refl disjI1 [OF f] q refl, unfolded s] by simp
qed

text \<open>Without the condition on the views unexpected addresses get through: a client whose unexpected addresses are
  10.1.2.3/32 and 8.0.0.0/8, given as an address and as a list, passes 10.1.2.3 and 8.8.8.8 on.\<close>

theorem unexpected_addresses_leak:
  "fst (Client_QueryIP (ex_filter_env [[10, 1, 2, 3], [8, 8, 8, 8]]) ex_filter_registry 0 ''a'' both_families
     ((ex_dns_client 1)\<lparr>cl_unexpectedIPs := Some 1\<rparr>)) = ([[10, 1, 2, 3], [8, 8, 8, 8]], 60, None)"
  using multi_filter_does_not_split
  by (simp add: Client_QueryIP_def ex_filter_defs apply_policy_def strict_expected_def strict_unexpected_def prior_expected_def
      prior_unexpected_def dyn_FilterIPs_def narrow_def both_families_def Let_def)

section \<open>The invariant of the server\<close>

definition server_inv :: "'s dns_env \<Rightarrow> 's dns_world \<Rightarrow> Config_HostMapping list \<Rightarrow> DomainRule list \<Rightarrow> DNS \<Rightarrow> bool" where
  "server_inv env w hosts rules s \<longleftrightarrow> dns_ready (dx_dom env) (dw_domains w) rules s \<and> order_cache_ok (dx_dom env) rules s \<and>
     s_clients s \<noteq> [] \<and> (hs_matcher (s_hosts s) = None \<or> hosts_ready (dx_dom env) (dw_domains w) hosts (s_hosts s))"

text \<open>What a query may change: the status of clients.\<close>

definition touched :: "DNS \<Rightarrow> DNS \<Rightarrow> bool" where
  "touched s s' \<longleftrightarrow> same_flags s s' \<and> s_sortCache s' = s_sortCache s \<and> s_hosts s' = s_hosts s"

lemma touched_refl [simp]: "touched s s"
  by (simp add: touched_def same_flags_def)

lemma touched_trans: "touched s s' \<Longrightarrow> touched s' s'' \<Longrightarrow> touched s s''"
  by (simp add: touched_def same_flags_def)

lemma server_inv_touched:
  assumes "server_inv env w hosts rules s" "touched s s'"
  shows "server_inv env w hosts rules s'"
proof -
  have f: "same_flags s s'" using assms(2) by (simp add: touched_def)
  then have "length (s_clients s') = length (s_clients s)" unfolding same_flags_def by (metis length_map)
  then have "s_clients s' \<noteq> []" using assms(1) by (auto simp: server_inv_def)
  then show ?thesis using assms ready_flags [OF _ f] order_cache_flags [OF _ f] by (auto simp: server_inv_def touched_def)
qed

lemma touched_set_client:
  assumes "cl_finalQuery c = cl_finalQuery (s_clients s ! i)" "cl_skipFallback c = cl_skipFallback (s_clients s ! i)"
  shows "touched s (set_client i c s)"
  using set_client_flags [OF assms] by (simp add: touched_def set_client_def)

lemma touched_QueryIP: "touched s (set_client i (snd (Client_QueryIP env ireg t d opt (s_clients s ! i))) s)"
  by (rule touched_set_client) (simp_all add: Client_QueryIP_flags)

lemma touched_QueryRaw: "touched s (set_client i (snd (Client_QueryRaw env t q (s_clients s ! i))) s)"
  by (rule touched_set_client) (simp_all add: Client_QueryRaw_def Let_def recordQuery_flags)

lemma touched_serial: "touched s (snd (serial_loop env ireg t d opt ids errs s))"
proof (induction env ireg t d opt ids errs s rule: serial_loop.induct)
  case (2 env ireg t d opt i ids errs s)
  obtain ps ttl e c' where q: "Client_QueryIP env ireg t d opt (s_clients s ! i) = ((ps, ttl, e), c')" by (metis prod_cases3 surj_pair)
  then have "touched s (set_client i c' s)" using touched_QueryIP [of s i env ireg t d opt] by simp
  then show ?case using 2 q by (auto split: option.splits intro: touched_trans)
qed simp

lemma touched_raw: "touched s (snd (raw_loop env t q ids err s))"
proof (induction env t q ids err s rule: raw_loop.induct)
  case (2 env t q i ids err s)
  obtain r c' where q: "Client_QueryRaw env t q (s_clients s ! i) = (r, c')" by fastforce
  then have "touched s (set_client i c' s)" using touched_QueryRaw [of s i env t q] by simp
  then show ?case using 2 q by (cases r) (auto split: option.splits intro: touched_trans)
qed simp

lemma client_flags_eq:
  assumes "same_flags s s'"
  shows "cl_finalQuery (s_clients s' ! i) = cl_finalQuery (s_clients s ! i) \<and> cl_skipFallback (s_clients s' ! i) = cl_skipFallback (s_clients s ! i) \<or>
    length (s_clients s) \<le> i"
  using flags_nth [OF assms, of i] by (auto simp: not_less)

lemma touched_async:
  "touched s0 s \<Longrightarrow> touched s0 (fold (\<lambda>k. set_client (ids ! k) (snd (async_result env ireg at d opt (map (\<lambda>i. s_clients s0 ! i) ids) k))) ks s)"
  if "\<forall>k \<in> set ks. k < length ids"
  using that
proof (induction ks arbitrary: s)
  case (Cons k ks)
  let ?c = "snd (async_result env ireg at d opt (map (\<lambda>i. s_clients s0 ! i) ids) k)"
  have fl: "cl_finalQuery ?c = cl_finalQuery (s_clients s0 ! (ids ! k))" "cl_skipFallback ?c = cl_skipFallback (s_clients s0 ! (ids ! k))"
    using Cons.prems(2) by (simp_all add: async_result_def Client_QueryIP_flags)
  have "touched s (set_client (ids ! k) ?c s)"
  proof (cases "ids ! k < length (s_clients s0)")
    case True
    then show ?thesis using fl client_flags_eq [of s0 s "ids ! k"] Cons.prems(1) by (intro touched_set_client) (auto simp: touched_def)
  next
    case False
    moreover have "length (s_clients s) = length (s_clients s0)" using Cons.prems(1) unfolding touched_def same_flags_def by (metis length_map)
    ultimately have "set_client (ids ! k) ?c s = s" by (simp add: set_client_def list_update_beyond)
    then show ?thesis by simp
  qed
  then have "touched s0 (set_client (ids ! k) ?c s)" using Cons.prems(1) touched_trans by blast
  then show ?case using Cons.IH Cons.prems(2) by simp
qed simp

lemma server_inv_sorted:
  assumes "server_inv env w hosts rules s"
  shows "\<exists>s'. sortClients (dx_dom env) (dw_domains w) d s = Some (order_for (dx_dom env) rules s (ToLower d), s') \<and> server_inv env w hosts rules s'"
proof -
  have a: "dns_ready (dx_dom env) (dw_domains w) rules s" "order_cache_ok (dx_dom env) rules s" using assms by (simp_all add: server_inv_def)
  obtain s' cache where s': "sortClients (dx_dom env) (dw_domains w) d s = Some (order_for (dx_dom env) rules s (ToLower d), s')"
      "order_cache_ok (dx_dom env) rules s'" "s' = s\<lparr>s_sortCache := cache\<rparr>"
    using sortClients_policy [OF a, of d] by blast
  moreover have "same_flags s s'" by (simp add: same_flags_def s'(3))
  ultimately show ?thesis using assms ready_flags [OF a(1)] by (auto simp: server_inv_def)
qed

text \<open>The domain a lookup asks for: the one the static hosts put in its place, if they do.\<close>

definition queried :: "'s dns_env \<Rightarrow> 's dns_world \<Rightarrow> nat \<Rightarrow> string \<Rightarrow> IPOption \<Rightarrow> DNS \<Rightarrow> string" where
  "queried env w t d opt s =
     (case Hosts_Lookup (dx_dom env) (dw_domains w) (s_hosts s) (TrimSuffix d ''.'') (narrow env t (s_checkSystem s) (s_ipOption s) opt) of
        Some (Inr (Some [RepAddress (domainAddress x)])) \<Rightarrow> x
      | _ \<Rightarrow> TrimSuffix d ''.'')"

text \<open>The plan of a parallel lookup: only clients that are asked for this domain answer, each at most once; each of them
  answers unless the context ends before.\<close>

definition plan_fits :: "'s dns_env \<Rightarrow> 's dns_world \<Rightarrow> DomainRule list \<Rightarrow> nat \<Rightarrow> string \<Rightarrow> IPOption \<Rightarrow> DNS \<Rightarrow> query_plan \<Rightarrow> bool" where
  "plan_fits env w rules t d opt s plan \<longleftrightarrow> (s_enableParallelQuery s \<longrightarrow>
     (let n = length (order_for (dx_dom env) rules s (ToLower (queried env w t d opt s)))
      in distinct (qp_order plan) \<and> set (qp_order plan) \<subseteq> {0..<n} \<and> (qp_done plan = None \<longrightarrow> set (qp_order plan) = {0..<n})))"

text \<open>Every order of arrival is a plan that fits, so that there is one for every lookup.\<close>

lemma plan_exists: "\<exists>plan. qp_done plan = None \<and> plan_fits env w rules t d opt s plan"
  by (rule exI [of _ "\<lparr>qp_at = id, qp_order = [0..<length (order_for (dx_dom env) rules s (ToLower (queried env w t d opt s)))], qp_done = None\<rparr>"])
    (simp add: plan_fits_def Let_def)

lemma serialQuery_inv:
  assumes "server_inv env w hosts rules s"
  shows "\<exists>r s'. serialQuery env w t d opt s = Some (r, s') \<and> server_inv env w hosts rules s'"
proof -
  obtain s' where s': "sortClients (dx_dom env) (dw_domains w) d s = Some (order_for (dx_dom env) rules s (ToLower d), s')" "server_inv env w hosts rules s'"
    using server_inv_sorted [OF assms] by blast
  let ?r = "serial_loop env (dw_ips w) t d opt (order_for (dx_dom env) rules s (ToLower d)) [] s'"
  have "serialQuery env w t d opt s = Some (fst ?r, snd ?r)" by (simp add: serialQuery_def s'(1))
  moreover have "server_inv env w hosts rules (snd ?r)" by (rule server_inv_touched [OF s'(2) touched_serial])
  ultimately show ?thesis by blast
qed

lemma parallelQuery_keeps:
  assumes "server_inv env w hosts rules s" "parallelQuery env w at order dn d opt s = Some (r, s')"
    "\<forall>k \<in> set order. k < length (order_for (dx_dom env) rules s (ToLower d))"
  shows "server_inv env w hosts rules s'"
proof -
  obtain s1 where s1: "sortClients (dx_dom env) (dw_domains w) d s = Some (order_for (dx_dom env) rules s (ToLower d), s1)" "server_inv env w hosts rules s1"
    using server_inv_sorted [OF assms(1)] by blast
  let ?ids = "order_for (dx_dom env) rules s (ToLower d)"
  have "s' = fold (\<lambda>k. set_client (?ids ! k) (snd (async_result env (dw_ips w) at d opt (map (\<lambda>i. s_clients s1 ! i) ?ids) k))) order s1"
    using assms(2) unfolding parallelQuery_def s1(1) by (auto simp: Let_def split: prod.splits bind_splits)
  then show ?thesis using server_inv_touched [OF s1(2) touched_async [OF assms(3) touched_refl]] by simp
qed

lemma parallelQuery_inv:
  assumes "server_inv env w hosts rules s" "distinct order" "set order \<subseteq> {0..<length (order_for (dx_dom env) rules s (ToLower d))}"
    "dn = None \<longrightarrow> set order = {0..<length (order_for (dx_dom env) rules s (ToLower d))}"
  shows "\<exists>r s'. parallelQuery env w at order dn d opt s = Some (r, s') \<and> server_inv env w hosts rules s'"
proof -
  obtain s1 where s1: "sortClients (dx_dom env) (dw_domains w) d s = Some (order_for (dx_dom env) rules s (ToLower d), s1)"
    using server_inv_sorted [OF assms(1)] by blast
  obtain groups groupOf where g: "makeGroups (map cl_policyID (map (\<lambda>i. s_clients s1 ! i) (order_for (dx_dom env) rules s (ToLower d)))) = (groups, groupOf)"
    by fastforce
  obtain r s' where "parallelQuery env w at order dn d opt s = Some (r, s')"
  proof (cases dn)
    case None
    then show ?thesis using that parallel_group_answer [OF s1 assms(2) _ refl g refl, of at opt] assms(4) by blast
  next
    case (Some p)
    then show ?thesis using that parallel_cut_answer [OF s1 assms(2,3), of at "fst p" "snd p" opt] by auto
  qed
  moreover from this have "server_inv env w hosts rules s'" using assms(3) by (intro parallelQuery_keeps [OF assms(1)]) auto
  ultimately show ?thesis by blast
qed

section \<open>Lookups\<close>

lemma host_outcome_addresses:
  assumes "host_outcome h report opt n d (Inr (Some as))" "a \<in> set as"
  shows "\<exists>p. a = RepAddress p"
proof -
  obtain first e where "host_answer h report opt first e = Inr (Some as)" using assms(1) unfolding host_outcome_def by metis
  moreover have "rep_enabled opt a \<Longrightarrow> \<exists>p. a = RepAddress p" by (cases a) simp_all
  ultimately show ?thesis using assms(2)
    by (cases "host_codes h (report e)"; cases "replaced h report e") (auto simp: host_answer_def split: if_splits)
qed

lemma toNetIP_total: "\<forall>a \<in> set as. \<exists>p. a = RepAddress p \<Longrightarrow> toNetIP as \<noteq> None"
proof (induction as rule: toNetIP.induct)
  case (3 a as)
  then show ?case by (cases a) (auto simp: IsIP_def IsIPv4_def IsIPv6_def)
qed auto

text \<open>What the hosts answer never makes a lookup panic.\<close>

lemma hosts_total:
  assumes "server_inv env w hosts rules s"
  shows "\<exists>r. Hosts_Lookup (dx_dom env) (dw_domains w) (s_hosts s) d opt = Some r \<and>
    (\<forall>as. r = Inr (Some as) \<longrightarrow> (\<forall>a \<in> set as. \<exists>p. a = RepAddress p))"
proof (cases "hs_matcher (s_hosts s) = None")
  case True
  then show ?thesis by (simp add: Hosts_Lookup_def)
next
  case False
  then have h: "hosts_ready (dx_dom env) (dw_domains w) hosts (s_hosts s)" using assms by (auto simp: server_inv_def)
  have "Hosts_Lookup (dx_dom env) (dw_domains w) (s_hosts s) d opt = hosts_lookup (dx_dom env) (dw_domains w) (s_hosts s) d opt 5"
    using False by (auto simp: Hosts_Lookup_def)
  then show ?thesis using hosts_lookup_outcome [OF h, of d opt 5] host_outcome_addresses by metis
qed

abbreviation plan_query :: "'s dns_env \<Rightarrow> 's dns_world \<Rightarrow> nat \<Rightarrow> query_plan \<Rightarrow> DNS \<Rightarrow> string \<Rightarrow> IPOption \<Rightarrow> (lookup_result \<times> DNS) option" where
  "plan_query env w t plan s d opt \<equiv>
     (if s_enableParallelQuery s then parallelQuery env w (qp_at plan) (qp_order plan) (qp_done plan) d opt s
      else serialQuery env w (Suc t) d opt s)"

lemma lookupIP_cases:
  assumes "server_inv env w hosts rules s"
  shows "(\<exists>r. lookupIP env w t plan d opt s = Some (r, s)) \<or>
    (\<exists>opt'. lookupIP env w t plan d opt s = plan_query env w t plan s (queried env w t d opt s) opt')"
proof (cases "dx_ctx env t")
  case None
  let ?d = "TrimSuffix d ''.''" and ?opt = "narrow env t (s_checkSystem s) (s_ipOption s) opt"
  obtain r where r: "Hosts_Lookup (dx_dom env) (dw_domains w) (s_hosts s) ?d ?opt = Some r"
      "\<forall>as. r = Inr (Some as) \<longrightarrow> (\<forall>a \<in> set as. \<exists>p. a = RepAddress p)"
    using hosts_total [OF assms] by blast
  show ?thesis
  proof (cases "?d = [] \<or> \<not> IPv4Enable ?opt \<and> \<not> IPv6Enable ?opt")
    case True
    then show ?thesis using None by (auto simp: lookupIP_def Let_def)
  next
    case False
    then have L: "lookupIP env w t plan d opt s = (case r of
        Inl e \<Rightarrow> Some (([], 0, Some (host_error (dx_wraps env) ?d e)), s)
      | Inr None \<Rightarrow> plan_query env w t plan s ?d ?opt
      | Inr (Some as) \<Rightarrow> if as = [] then Some (([], 0, Some ErrEmptyResponse), s)
          else do { one \<leftarrow> sole_domain as;
                    if one then do { d' \<leftarrow> Rep_Domain (hd as); plan_query env w t plan s d' ?opt }
                    else do { ps \<leftarrow> toNetIP as; Some (case ps of Inl e \<Rightarrow> ([], 0, Some e) | Inr qs \<Rightarrow> (qs, 10, None), s) } })"
      using None r(1) by (auto simp: lookupIP_def Let_def)
    show ?thesis
    proof (cases "\<exists>as. r = Inr (Some as) \<and> as \<noteq> []")
      case True
      then obtain a as where as: "r = Inr (Some (a # as))" by (metis list.exhaust)
      then obtain p where p: "a = RepAddress p" using r(2) by auto
      obtain ps where ps: "toNetIP (a # as) = Some ps" using toNetIP_total [of "a # as"] r(2) as by auto
      obtain one where one: "sole_domain (a # as) = Some one" using p by (cases "as = []") (auto simp: sole_domain_def)
      show ?thesis
      proof (cases one)
        case True
        then obtain d' where "p = domainAddress d'" using one p by (cases p) (auto simp: sole_domain_def IsDomain_def split: if_splits)
        moreover have "as = []" using one True by (auto simp: sole_domain_def split: if_splits)
        ultimately have "queried env w t d opt s = d'" "lookupIP env w t plan d opt s = plan_query env w t plan s d' ?opt"
          unfolding L as using one True p r(1) as by (simp_all add: queried_def)
        then show ?thesis by blast
      next
        case False
        then have "lookupIP env w t plan d opt s = Some (case ps of Inl e \<Rightarrow> ([], 0, Some e) | Inr qs \<Rightarrow> (qs, 10, None), s)"
          unfolding L as using one ps by (simp only: sum.case option.case list.distinct if_False bind.bind_lunit)
        then show ?thesis by blast
      qed
    next
      case False
      have "r = Inr None \<Longrightarrow> queried env w t d opt s = ?d" using r(1) by (simp add: queried_def)
      then show ?thesis using False unfolding L by (auto split: sum.splits option.splits)
    qed
  qed
qed (auto simp: lookupIP_def)

lemma lookupIP_total:
  assumes "server_inv env w hosts rules s" "plan_fits env w rules t d opt s plan"
  shows "\<exists>r s'. lookupIP env w t plan d opt s = Some (r, s') \<and> server_inv env w hosts rules s'"
proof -
  have "\<exists>r s'. plan_query env w t plan s (queried env w t d opt s) opt' = Some (r, s') \<and> server_inv env w hosts rules s'" for opt'
  proof (cases "s_enableParallelQuery s")
    case True
    then show ?thesis
      using assms(2) parallelQuery_inv [OF assms(1), of "qp_order plan" "queried env w t d opt s" "qp_done plan" "qp_at plan" opt']
      unfolding plan_fits_def Let_def by metis
  next
    case False
    then show ?thesis using serialQuery_inv [OF assms(1)] by simp
  qed
  then show ?thesis using lookupIP_cases [OF assms(1), of t plan d opt] assms(1) by metis
qed

lemma byTag_keeps:
  assumes "server_inv env w hosts rules s"
  shows "server_inv env w hosts rules (snd (LookupIPByServerTag env w t tag d opt s))"
proof -
  have "touched s (snd (LookupIPByServerTag env w t tag d opt s))"
    using touched_QueryIP [of s _ env "dw_ips w" t]
    by (auto simp: LookupIPByServerTag_def Let_def split: option.splits prod.splits) (metis snd_conv)
  then show ?thesis by (rule server_inv_touched [OF assms])
qed

lemma raw_total:
  assumes "server_inv env w hosts rules s"
  shows "\<exists>r s'. LookupRawContext env w t d q s = Some (r, s') \<and> server_inv env w hosts rules s'"
proof (cases "dx_ctx env t = None \<and> TrimSuffix d ''.'' \<noteq> []")
  case True
  let ?d = "TrimSuffix d ''.''"
  obtain s1 where s1: "sortClients (dx_dom env) (dw_domains w) ?d s = Some (order_for (dx_dom env) rules s (ToLower ?d), s1)" "server_inv env w hosts rules s1"
    using server_inv_sorted [OF assms] by blast
  let ?r = "raw_loop env (Suc t) q (order_for (dx_dom env) rules s (ToLower ?d)) None s1"
  have "LookupRawContext env w t d q s = Some (fst ?r, snd ?r)" using True s1(1) by (simp add: LookupRawContext_def Let_def)
  then show ?thesis using server_inv_touched [OF s1(2) touched_raw] by blast
next
  case False
  then show ?thesis using assms by (auto simp: LookupRawContext_def Let_def split: option.splits)
qed

section \<open>Construction\<close>

text \<open>The rules of the servers, each with the index of its server; \<open>locals\<close> says which servers are the resolver
  of the system.\<close>

fun rule_table :: "nat \<Rightarrow> bool list \<Rightarrow> NameServer list \<Rightarrow> DomainMatcherInfo list" where
  "rule_table k (l # ls) (ns # nss) =
     map (\<lambda>r. \<lparr>mi_clientIdx = of_nat k, mi_domainRule = r\<rparr>) (server_rules l ns) @ rule_table (Suc k) ls nss"
| "rule_table k ls nss = []"

lemma rule_table_below:
  assumes "k + length nss \<le> 65536" "i \<in> set (rule_table k ls nss)"
  shows "unat (mi_clientIdx i) < k + length nss"
  using assms
proof (induction k ls nss rule: rule_table.induct)
  case (1 k l ls ns nss)
  have "unat (of_nat k :: u16) = k" using 1(2) by (simp add: unat_of_nat)
  then show ?case using 1 by auto
qed simp_all

lemma new_clients_spec:
  assumes "new_clients env newServer cfg tag opt nss clients infos rules reg = (Inr (clients', infos', rules'), reg')"
    "map mi_domainRule infos = rules"
  shows "length clients' = length clients + length nss \<and> map mi_domainRule infos' = rules' \<and>
    (\<exists>ls. length ls = length nss \<and> infos' = infos @ rule_table (length clients) ls nss)"
  using assms
proof (induction nss arbitrary: clients infos rules reg)
  case (Cons ns nss)
  let ?opt = "ResolveIpOptionOverride (ns_QueryStrategy ns) opt"
  have en: "IPv4Enable ?opt \<or> IPv6Enable ?opt" using Cons.prems(1) by (auto simp: Let_def split: if_splits)
  obtain c l reg1 where c: "NewClient env newServer ns (settings_of cfg ns) (if ns_Tag ns \<noteq> [] then ns_Tag ns else tag) ?opt reg = (Inr (c, l), reg1)"
    using Cons.prems(1) en by (auto simp: Let_def split: sum.splits prod.splits)
  let ?infos = "infos @ map (\<lambda>r. \<lparr>mi_clientIdx = of_nat (length clients), mi_domainRule = r\<rparr>) (server_rules l ns)"
  have n: "new_clients env newServer cfg tag opt nss (clients @ [default_tag (length clients) ns c]) ?infos (rules @ server_rules l ns) reg1 =
      (Inr (clients', infos', rules'), reg')"
    using Cons.prems(1) en c by (auto simp: Let_def)
  have "map mi_domainRule ?infos = rules @ server_rules l ns" using Cons.prems(2) by (simp add: comp_def)
  from Cons.IH [OF n this] obtain ls where "length clients' = length clients + length (ns # nss)" "map mi_domainRule infos' = rules'"
      "length ls = length nss" "infos' = ?infos @ rule_table (Suc (length clients)) ls nss"
    by auto
  then show ?case by (intro conjI exI [of _ "l # ls"]) auto
qed simp

lemma DNS_New_parts:
  assumes "DNS_New env newServer tag handle cfg w = Some (Inr s, w')"
  obtains opt sys hosts reg clients infos rs ireg m where
    "strategy_option (dc_QueryStrategy cfg) = Some (opt, sys)"
    "NewStaticHosts (dx_dom env) (dc_StaticHosts cfg) (dw_domains w) = Some (Inr hosts, reg)"
    "new_clients env newServer cfg (if dc_Tag cfg = [] then tag else dc_Tag cfg) opt (dc_NameServer cfg) [] [] [] (dw_ips w) =
      (Inr (clients, infos, rs), ireg)"
    "s = server_of cfg opt sys hosts handle clients infos m"
    "rs = [] \<and> m = None \<and> dw_domains w' = reg \<or>
     rs \<noteq> [] \<and> m = Some (length (dr_matchers reg)) \<and> (\<exists>d. BuildDomainMatcher (dx_dom env) reg rs = Some (Inr d, dw_domains w'))"
proof -
  obtain opt sys where o1: "length (dc_ClientIp cfg) \<in> {0, 4, 16}" "strategy_option (dc_QueryStrategy cfg) = Some (opt, sys)"
    using assms(1) by (auto simp: DNS_New_def split: if_splits option.splits)
  obtain hosts reg where h: "NewStaticHosts (dx_dom env) (dc_StaticHosts cfg) (dw_domains w) = Some (Inr hosts, reg)"
    using assms(1) o1 by (auto simp: DNS_New_def split: if_splits option.splits sum.splits prod.splits)
  obtain clients infos rs ireg where n: "new_clients env newServer cfg (if dc_Tag cfg = [] then tag else dc_Tag cfg) opt (dc_NameServer cfg)
      [] [] [] (dw_ips w) = (Inr (clients, infos, rs), ireg)"
    using assms(1) o1 h by (auto simp: DNS_New_def split: if_splits option.splits sum.splits prod.splits)
  obtain m where "s = server_of cfg opt sys hosts handle clients infos m" "rs = [] \<and> m = None \<and> dw_domains w' = reg \<or>
     rs \<noteq> [] \<and> m = Some (length (dr_matchers reg)) \<and> (\<exists>d. BuildDomainMatcher (dx_dom env) reg rs = Some (Inr d, dw_domains w'))"
    using assms o1 h n by (auto simp: DNS_New_def Let_def split: if_splits option.splits sum.splits prod.splits)
  then show thesis using that o1(2) h n by blast
qed

lemma hosts_of_new:
  assumes "NewStaticHosts env hosts reg = Some (Inr h, reg')" "dr_factory reg = MphFactory cache" "factory_ok env (dr_factory reg)"
    "list_all keyable (map hm_Domain hosts) \<and> clean_rules env (map hm_Domain hosts)" "range_order (de_ord env)"
  shows "(\<exists>cache'. dr_factory reg' = MphFactory cache') \<and> factory_ok env (dr_factory reg') \<and>
    (hs_matcher h = None \<or> hosts_ready env reg' hosts h)"
proof (cases "hosts = []")
  case True
  then show ?thesis using assms(1-3) by (auto simp: NewStaticHosts_def)
next
  case False
  then show ?thesis using NewStaticHosts_ready [OF assms(1) False assms(2,3)] assms(4,5) by auto
qed

text \<open>C32. A configuration that \<open>New\<close> accepts gives a server that satisfies the invariant: every rule is named by
  the server that declares it, the matcher answers for these rules, the cache is empty and there is a client.
  There are at most 65536 servers, and the rules have readable cache keys and no pattern of a shape the tables
  treat apart.\<close>

theorem new_server_ready:
  assumes "DNS_New env newServer tag handle cfg w = Some (Inr s, w')" "length (dc_NameServer cfg) \<le> 65536"
    "dr_factory (dw_domains w) = MphFactory cache" "factory_ok (dx_dom env) (dr_factory (dw_domains w))"
    "rules = map mi_domainRule (s_matcherInfos s)" "\<forall>rs \<in> {rules, map hm_Domain (dc_StaticHosts cfg)}. list_all keyable rs \<and> clean_rules (dx_dom env) rs"
    "range_order (de_ord (dx_dom env))"
  shows "server_inv env w' (dc_StaticHosts cfg) rules s \<and> s_sortCache s = [] \<and>
    (\<exists>ls. length ls = length (dc_NameServer cfg) \<and> s_matcherInfos s = rule_table 0 ls (dc_NameServer cfg))"
proof -
  obtain opt sys hosts reg clients infos rs ireg mm where
    h: "NewStaticHosts (dx_dom env) (dc_StaticHosts cfg) (dw_domains w) = Some (Inr hosts, reg)"
    and n: "new_clients env newServer cfg (if dc_Tag cfg = [] then tag else dc_Tag cfg) opt (dc_NameServer cfg) [] [] [] (dw_ips w) =
      (Inr (clients, infos, rs), ireg)"
    and so: "s = server_of cfg opt sys hosts handle clients infos mm"
    and mm: "rs = [] \<and> mm = None \<and> dw_domains w' = reg \<or>
     rs \<noteq> [] \<and> mm = Some (length (dr_matchers reg)) \<and> (\<exists>d. BuildDomainMatcher (dx_dom env) reg rs = Some (Inr d, dw_domains w'))"
    by (rule DNS_New_parts [OF assms(1)])
  have s: "s_hosts s = hosts" "s_clients s = (if clients = [] then [NewLocalDNSClient handle opt] else clients)" "s_matcherInfos s = infos"
    "s_sortCache s = []" "s_domainMatcher s = mm" by (simp_all add: so server_of_def)
  note m = mm [folded s(5)]
  obtain ls where ls: "length clients = length (dc_NameServer cfg)" "map mi_domainRule infos = rs" "length ls = length (dc_NameServer cfg)"
      "infos = rule_table 0 ls (dc_NameServer cfg)"
    using new_clients_spec [OF n] by auto
  have rules: "rules = rs" using assms(5) s(3) ls(2) by simp
  have hk: "list_all keyable (map hm_Domain (dc_StaticHosts cfg)) \<and> clean_rules (dx_dom env) (map hm_Domain (dc_StaticHosts cfg))"
    using assms(6) by simp
  note hr = hosts_of_new [OF h assms(3,4) hk assms(7)]
  have below: "unat (mi_clientIdx i) < length (s_clients s)" if "i \<in> set infos" for i
    using rule_table_below [of 0 "dc_NameServer cfg" i ls] that assms(2) ls(1,4) s(2) by (auto split: if_splits)
  have "infos_ok s" using below nth_mem by (fastforce simp: infos_ok_def rule_client_def s(3))
  moreover have "length (s_matcherInfos s) = length rules" using assms(5) by simp
  moreover have table: "(case s_domainMatcher s of None \<Rightarrow> rules = [] | Some i \<Rightarrow> i < length (dr_matchers (dw_domains w')) \<and>
      (\<exists>g. dd_matcher (dr_matchers (dw_domains w') ! i) = MphMatcher g \<and> mph_built (dx_dom env) rules g)) \<and>
      (hs_matcher hosts = None \<or> hosts_ready (dx_dom env) (dw_domains w') (dc_StaticHosts cfg) hosts)"
    using m
  proof
    assume b: "rs \<noteq> [] \<and> s_domainMatcher s = Some (length (dr_matchers reg)) \<and> (\<exists>m. BuildDomainMatcher (dx_dom env) reg rs = Some (Inr m, dw_domains w'))"
    then obtain d g where d: "dd_matcher d = MphMatcher g" "mph_built (dx_dom env) rs g" "dr_matchers (dw_domains w') = dr_matchers reg @ [d]"
      using BuildDomainMatcher_mph assms(6) hr unfolding rules by (metis insertI1)
    then show ?thesis using b hr rules by (auto simp: hosts_ready_def nth_append)
  qed (use hr rules in auto)
  ultimately have "dns_ready (dx_dom env) (dw_domains w') rules s" using assms(6,7) by (simp add: dns_ready_def)
  moreover have "order_cache_ok (dx_dom env) rules s" using s(4) by (simp add: order_cache_ok_def)
  moreover have "s_clients s \<noteq> []" using s(2) by simp
  ultimately show ?thesis using table s(1,3,4) ls(3,4) by (auto simp: server_inv_def)
qed

definition ex_name_server :: NameServer where
  "ex_name_server = \<lparr>ns_Address = domainAddress ''tcp://dns'', ns_SkipFallback = False, ns_Domain = [keyword_rule], ns_ExpectedIp = [],
     ns_UnexpectedIp = [], ns_QueryStrategy = USE_IP, ns_ActPrior = False, ns_ActUnprior = False, ns_Tag = ''one'', ns_TimeoutMs = 0,
     ns_FinalQuery = False, ns_PolicyID = 0, ns_OutboundTag = [], ns_ClientIp = [], ns_DisableCache = None, ns_ServeStale = None,
     ns_ServeExpiredTTL = None\<rparr>"

definition ex_dns_config :: "NameServer list \<Rightarrow> DnsConfig" where
  "ex_dns_config nss = \<lparr>dc_ClientIp = [], dc_QueryStrategy = USE_IP, dc_StaticHosts = [], dc_Tag = ''dns'', dc_NameServer = nss,
     dc_DisableCache = False, dc_ServeStale = False, dc_ServeExpiredTTL = 0, dc_DisableFallback = False,
     dc_DisableFallbackIfMatch = False, dc_EnableParallelQuery = False\<rparr>"

definition ex_new_server :: "NameServer \<Rightarrow> server_settings \<Rightarrow> string + dns_server" where
  "ex_new_server ns st = Inr \<lparr>sv_handle = 1, sv_Name = ''TCP//dns'', sv_Raw = False, sv_Local = False\<rparr>"

definition ex_new_world :: "netprefix list dns_world" where
  "ex_new_world = \<lparr>dw_domains = \<lparr>dr_factory = MphFactory [], dr_matchers = []\<rparr>, dw_ips = \<lparr>reg_cache = [], reg_matchers = []\<rparr>\<rparr>"

lemma keyword_parse: "parseDomain ex_env (Some (custom_domain 0 ''a'')) = Some (Inr (SubstrMatcher ''a''))"
  by (simp add: parseDomain_def custom_domain_def NewDomainPattern_def pattern_result_def ex_ToDomain lower_ldh_def is_lower_def less_eq_char_def)

lemma keyword_domain_matcher:
  "BuildDomainMatcher ex_env \<lparr>dr_factory = MphFactory [], dr_matchers = []\<rparr> [keyword_rule] =
     Some (Inr \<lparr>dd_rules = [keyword_rule], dd_matcher = MphMatcher keyword_group\<rparr>, keyword_registry)"
proof -
  have "mph_add_rules ex_env 0 [keyword_rule] NewMphValueMatcher = Some (Inr (MphValue_Add (SubstrMatcher ''a'') 0 NewMphValueMatcher))"
    by (simp add: keyword_rule_def keyword_parse)
  moreover have "de_mh ex_env = (\<lambda>seed s. seed)" "de_ord ex_env = (\<lambda>xs. xs)" by (simp_all add: ex_env_def)
  ultimately have "Mph_BuildMatcher ex_env [] [keyword_rule] = Some (Inr keyword_group, [])"
    using keyword_build by (simp add: Mph_BuildMatcher_def buildDomainRulesKey_def keyword_rule_def is_geosite_def Let_def)
  then show ?thesis
    by (simp add: BuildDomainMatcher_def NewDynamicDomainMatcher_def dd_Reload_def Let_def keyword_registry_def)
qed

lemma ex_new: "\<exists>s. DNS_New ex_dns_env ex_new_server ''t'' 7 (ex_dns_config [ex_name_server]) ex_new_world =
    Some (Inr s, ex_new_world\<lparr>dw_domains := keyword_registry\<rparr>) \<and> map mi_domainRule (s_matcherInfos s) = [keyword_rule]"
  using keyword_domain_matcher
  by (simp add: DNS_New_def ex_dns_config_def strategy_option_def NewStaticHosts_def ex_dns_env_def ex_new_world_def ResolveIpOptionOverride_def
      ex_name_server_def NewClient_def ex_new_server_def build_ip_filter_def server_rules_def Let_def server_of_def)

lemma keyword_keyable: "list_all keyable [keyword_rule]" "clean_rules ex_env [keyword_rule]"
  by (simp_all add: keyword_rule_def custom_domain_def clean_rules_def keyword_matchers [unfolded keyword_rule_def custom_domain_def])

theorem new_server_ready_witness:
  "\<exists>s. DNS_New ex_dns_env ex_new_server ''t'' 7 (ex_dns_config [ex_name_server]) ex_new_world =
     Some (Inr s, ex_new_world\<lparr>dw_domains := keyword_registry\<rparr>) \<and>
     server_inv ex_dns_env (ex_new_world\<lparr>dw_domains := keyword_registry\<rparr>) [] [keyword_rule] s"
proof -
  obtain s where s: "DNS_New ex_dns_env ex_new_server ''t'' 7 (ex_dns_config [ex_name_server]) ex_new_world =
    Some (Inr s, ex_new_world\<lparr>dw_domains := keyword_registry\<rparr>)" "[keyword_rule] = map mi_domainRule (s_matcherInfos s)" using ex_new by metis
  have "dx_dom ex_dns_env = ex_env" "dr_factory (dw_domains ex_new_world) = MphFactory []" "length (dc_NameServer (ex_dns_config [ex_name_server])) \<le> 65536"
    "dc_StaticHosts (ex_dns_config [ex_name_server]) = []" by (simp_all add: ex_dns_env_def ex_new_world_def ex_dns_config_def)
  moreover have "clean_rules ex_env []" "factory_ok ex_env (MphFactory [])" by (simp_all add: clean_rules_def mph_cache_ok_def)
  ultimately show ?thesis using new_server_ready [OF s(1) _ _ _ s(2)] s(1) keyword_keyable ex_factory(2) by auto
qed

section \<open>Runs of the server\<close>

text \<open>One operation on the server; several run one after the other, each under the lock of what it changes.\<close>

inductive dns_step :: "'s dns_env \<Rightarrow> 's dns_world \<Rightarrow> DomainRule list \<Rightarrow> DNS \<Rightarrow> DNS \<Rightarrow> bool" for env w rules where
  lookup_ip: "plan_fits env w rules t d opt s plan \<Longrightarrow> lookupIP env w t plan d opt s = Some (r, s') \<Longrightarrow> dns_step env w rules s s'"
| by_tag: "LookupIPByServerTag env w t tag d opt s = (r, s') \<Longrightarrow> dns_step env w rules s s'"
| lookup_raw: "LookupRawContext env w t d q s = Some (x, s') \<Longrightarrow> dns_step env w rules s s'"

lemma dns_step_inv:
  assumes "dns_step env w rules s s'" "server_inv env w hosts rules s"
  shows "server_inv env w hosts rules s'"
  using assms
proof (induction rule: dns_step.induct)
  case (lookup_ip t d opt s plan r s')
  from lookupIP_total [OF lookup_ip(3,1)] lookup_ip(2) show ?case by auto
next
  case (by_tag t tag d opt s r s')
  then show ?case using byTag_keeps [of env w hosts rules s t tag d opt] by simp
next
  case (lookup_raw t d q s x s')
  then show ?case using raw_total [of env w hosts rules s t d q] by auto
qed

lemma dns_run_inv:
  assumes "(dns_step env w rules)\<^sup>*\<^sup>* s s'" "server_inv env w hosts rules s"
  shows "server_inv env w hosts rules s'"
  using assms by (induction rule: rtranclp_induct) (auto intro: dns_step_inv)

text \<open>C28. After any sequence of lookups the server still satisfies its invariant, and no lookup of any kind panics
  or hangs: the matchers answer for the rules of the clients, cached orders are those of the rules, and every lookup
  ends with a result. In a parallel lookup the clients that are asked for the domain may answer in any order, and
  each does unless the context ends first; there is such a plan for every lookup of every domain.\<close>

theorem dns_server_safe:
  assumes "server_inv env w hosts rules s" "(dns_step env w rules)\<^sup>*\<^sup>* s s'"
  shows "server_inv env w hosts rules s' \<and>
    (\<forall>t d opt. (\<exists>plan. qp_done plan = None \<and> plan_fits env w rules t d opt s' plan) \<and>
       (\<forall>plan. plan_fits env w rules t d opt s' plan \<longrightarrow> lookupIP env w t plan d opt s' \<noteq> None)) \<and>
    (\<forall>t d q. LookupRawContext env w t d q s' \<noteq> None)"
proof -
  have inv: "server_inv env w hosts rules s'" using dns_run_inv assms by blast
  have "lookupIP env w t plan d opt s' \<noteq> None" if "plan_fits env w rules t d opt s' plan" for t plan d opt
    using lookupIP_total [OF inv that] by auto
  moreover have "LookupRawContext env w t d q s' \<noteq> None" for t d q using raw_total [OF inv] by (metis option.distinct(1))
  ultimately show ?thesis using inv plan_exists by blast
qed

text \<open>A server that asks in parallel.\<close>

definition ex_dns_parallel :: DNS where
  "ex_dns_parallel = ex_dns\<lparr>s_enableParallelQuery := True\<rparr>"

lemma ex_server_inv: "server_inv ex_dns_env ex_dns_world [] [keyword_rule] ex_dns_parallel"
proof -
  have "same_flags ex_dns ex_dns_parallel" by (simp add: same_flags_def ex_dns_parallel_def)
  moreover have "s_sortCache ex_dns_parallel = s_sortCache ex_dns" by (simp add: ex_dns_parallel_def)
  ultimately have "dns_ready ex_env keyword_registry [keyword_rule] ex_dns_parallel" "order_cache_ok ex_env [keyword_rule] ex_dns_parallel"
    using ready_flags [OF ex_dns_ready(1)] order_cache_flags [OF ex_dns_ready(1) _ ex_dns_ready(2)] by auto
  then show ?thesis by (simp add: server_inv_def ex_dns_env_def ex_dns_world_def) (simp add: ex_dns_parallel_def ex_dns_def)
qed

theorem dns_server_safe_witness:
  "\<exists>r s' plan. LookupIPByServerTag ex_dns_env ex_dns_world 0 ''x'' ''a'' both_families ex_dns_parallel = (r, s') \<and>
     server_inv ex_dns_env ex_dns_world [] [keyword_rule] s' \<and>
     plan_fits ex_dns_env ex_dns_world [keyword_rule] 1 ''a'' both_families s' plan \<and>
     lookupIP ex_dns_env ex_dns_world 1 plan ''a'' both_families s' \<noteq> None"
proof -
  obtain r s' where s': "LookupIPByServerTag ex_dns_env ex_dns_world 0 ''x'' ''a'' both_families ex_dns_parallel = (r, s')" by fastforce
  then have "(dns_step ex_dns_env ex_dns_world [keyword_rule])\<^sup>*\<^sup>* ex_dns_parallel s'" using by_tag by (intro r_into_rtranclp) blast
  from dns_server_safe [OF ex_server_inv this] s' show ?thesis by blast
qed

section \<open>Without name servers\<close>

text \<open>A server configured without name servers has one client, the resolver of the system, and this client asks
  the resolver with a time-out of zero.\<close>

theorem local_fallback_no_time:
  assumes "DNS_New env newServer tag handle cfg w = Some (Inr s, w')" "dc_NameServer cfg = []"
  shows "\<exists>c. s_clients s = [c] \<and> cl_server c = handle \<and> cl_timeout c = 0"
proof -
  obtain opt0 sys hosts reg clients infos rs ireg m where
    n: "new_clients env newServer cfg (if dc_Tag cfg = [] then tag else dc_Tag cfg) opt0 (dc_NameServer cfg) [] [] [] (dw_ips w) =
      (Inr (clients, infos, rs), ireg)"
    and so: "s = server_of cfg opt0 sys hosts handle clients infos m"
    by (rule DNS_New_parts [OF assms(1)])
  have "clients = []" using n assms(2) by simp
  then have "s_clients s = [NewLocalDNSClient handle opt0]" by (simp add: so server_of_def)
  then show ?thesis by (simp add: NewLocalDNSClient_def)
qed

end
