(* ===== verification/RuntimeSnapshots.thy ===== *)
theory RuntimeSnapshots
  imports Prelude "HOL-Library.Multiset"
begin

text \<open>
  The life of runtime snapshots in \<open>cmd/bypasscore/runtime.go\<close>: leases counted by an atomic integer, retiring,
  draining with a timer, forced closing, the list of retired snapshots, reloads and shutdown. Every atomic operation
  and every section under a mutex is a step of its own, and the goroutines between two steps are tasks that may run
  in any order. A snapshot is named by a number. What a snapshot holds (router, outbounds, DNS) does not matter here;
  metrics and log entries are left out.
\<close>

section \<open>State\<close>

record snapshot =
  sp_refs :: int
  sp_retired :: bool
  sp_forced :: bool
  sp_closed :: bool
  sp_conns :: "nat list"
  sp_timer :: bool
  sp_torn :: nat

definition new_snapshot :: snapshot where
  "new_snapshot = \<lparr>sp_refs = 0, sp_retired = False, sp_forced = False, sp_closed = False, sp_conns = [], sp_timer = False, sp_torn = 0\<rparr>"

text \<open>What follows a call of \<open>retire\<close>: nothing, the rest of \<open>retireSnapshot\<close>, or the \<open>forceClose\<close> of \<open>Close\<close>.\<close>

datatype after_retire = Drop | Register | ForceNext

text \<open>A goroutine by what it does next. \<open>Lease\<close> holds a snapshot and will release it; \<open>ReleaseCheck\<close> is between the
  two operands of the condition in \<open>release\<close>; the next three are inside \<open>retire\<close>; the \<open>Register\<close> tasks are the
  rest of \<open>retireSnapshot\<close>; \<open>Forcing\<close> has the connections left to close; \<open>Closer\<close> is about to call
  \<open>closeResources\<close>, and \<open>Closing\<close> and \<open>Tearing\<close> are inside its \<open>closeOnce\<close>. \<open>Candidate\<close> is a reload with a
  built snapshot, and \<open>CloseRest\<close> the rest of \<open>Close\<close>.\<close>

datatype task =
    Lease nat | ReleaseCheck nat | RetireStart nat after_retire | RetireCheck nat after_retire | RetireTimer nat after_retire
  | RegisterCheck nat | RegisterList nat | Force nat | Forcing nat "nat list" | Closer nat | Closing nat | Tearing nat
  | Candidate nat | CloseRest "nat option"

record runtime =
  rs_store :: "nat \<Rightarrow> snapshot"
  rs_next :: nat
  rs_current :: "nat option"
  rs_shut :: bool
  rs_retired :: "nat list"
  rs_tasks :: "task multiset"

definition maxRetiredSnapshots :: nat where
  "maxRetiredSnapshots = 8"

definition newRuntimeService :: runtime where
  "newRuntimeService =
     \<lparr>rs_store = (\<lambda>i. new_snapshot), rs_next = 1, rs_current = Some 0, rs_shut = False, rs_retired = [], rs_tasks = {#}\<rparr>"

section \<open>Operations\<close>

definition upd :: "nat \<Rightarrow> (snapshot \<Rightarrow> snapshot) \<Rightarrow> runtime \<Rightarrow> runtime" where
  "upd i f s = s\<lparr>rs_store := (rs_store s)(i := f (rs_store s i))\<rparr>"

definition spawn :: "task \<Rightarrow> runtime \<Rightarrow> runtime" where
  "spawn t s = s\<lparr>rs_tasks := add_mset t (rs_tasks s)\<rparr>"

definition acquire :: "runtime \<Rightarrow> (nat \<times> runtime) option" where
  "acquire s =
     (if rs_shut s then None
      else case rs_current s of
             None \<Rightarrow> None
           | Some i \<Rightarrow> Some (i, spawn (Lease i) (upd i (\<lambda>p. p\<lparr>sp_refs := sp_refs p + 1\<rparr>) s)))"

text \<open>\<open>release\<close>: the decrement, and the check when it gave zero.\<close>

definition release :: "nat \<Rightarrow> runtime \<Rightarrow> runtime" where
  "release i s =
     (let s' = upd i (\<lambda>p. p\<lparr>sp_refs := sp_refs p - 1\<rparr>) s
      in if sp_refs (rs_store s' i) = 0 then spawn (ReleaseCheck i) s' else s')"

definition release_check :: "nat \<Rightarrow> runtime \<Rightarrow> runtime" where
  "release_check i s = (if sp_retired (rs_store s i) then spawn (Closer i) s else s)"

fun continue :: "nat \<Rightarrow> after_retire \<Rightarrow> runtime \<Rightarrow> runtime" where
  "continue i Drop s = s"
| "continue i Register s = spawn (RegisterCheck i) s"
| "continue i ForceNext s = spawn (Force i) s"

text \<open>\<open>retire\<close>: the exchange, the look at the references, and the section under \<open>timerMu\<close>.\<close>

definition retire :: "nat \<Rightarrow> after_retire \<Rightarrow> runtime \<Rightarrow> runtime" where
  "retire i k s =
     (if sp_retired (rs_store s i) then continue i k s
      else spawn (RetireCheck i k) (upd i (\<lambda>p. p\<lparr>sp_retired := True\<rparr>) s))"

definition retire_check :: "nat \<Rightarrow> after_retire \<Rightarrow> runtime \<Rightarrow> runtime" where
  "retire_check i k s =
     (if sp_refs (rs_store s i) = 0 then continue i k (spawn (Closer i) s) else spawn (RetireTimer i k) s)"

definition retire_timer :: "nat \<Rightarrow> after_retire \<Rightarrow> runtime \<Rightarrow> runtime" where
  "retire_timer i k s =
     continue i k (if sp_closed (rs_store s i) then s else upd i (\<lambda>p. p\<lparr>sp_timer := True\<rparr>) s)"

text \<open>The rest of \<open>retireSnapshot\<close>.\<close>

definition register_check :: "nat \<Rightarrow> runtime \<Rightarrow> runtime" where
  "register_check i s = (if sp_closed (rs_store s i) then s else spawn (RegisterList i) s)"

definition register :: "nat \<Rightarrow> runtime \<Rightarrow> runtime" where
  "register i s =
     (if rs_shut s then spawn (Force i) s
      else
        let kept = filter (\<lambda>k. \<not> sp_closed (rs_store s k)) (rs_retired s) @ [i]
        in if maxRetiredSnapshots < length kept then spawn (Force (hd kept)) (s\<lparr>rs_retired := tl kept\<rparr>)
           else s\<lparr>rs_retired := kept\<rparr>)"

text \<open>\<open>forceClose\<close>: the section under \<open>connMu\<close>, which takes the connections in any order, then their \<open>Close\<close>.
  \<open>leasedConn.Close\<close> acts once: it removes the connection and then releases its lease.\<close>

definition force :: "nat \<Rightarrow> nat list \<Rightarrow> runtime \<Rightarrow> runtime" where
  "force i cs s = spawn (Forcing i cs) (upd i (\<lambda>p. p\<lparr>sp_forced := True\<rparr>) s)"

definition close_conn :: "nat \<Rightarrow> nat \<Rightarrow> runtime \<Rightarrow> runtime" where
  "close_conn i c s =
     (if c \<in> set (sp_conns (rs_store s i))
      then spawn (Lease i) (upd i (\<lambda>p. p\<lparr>sp_conns := remove1 c (sp_conns p)\<rparr>) s) else s)"

fun forcing :: "nat \<Rightarrow> nat list \<Rightarrow> runtime \<Rightarrow> runtime" where
  "forcing i [] s = spawn (Closer i) s"
| "forcing i (c # cs) s = spawn (Forcing i cs) (close_conn i c s)"

text \<open>\<open>closeResources\<close>: the start of \<open>closeOnce\<close>, the section under \<open>timerMu\<close>, and the closing of what the snapshot
  holds.\<close>

definition closer :: "nat \<Rightarrow> runtime \<Rightarrow> runtime" where
  "closer i s = (if sp_closed (rs_store s i) then s else spawn (Closing i) (upd i (\<lambda>p. p\<lparr>sp_closed := True\<rparr>) s))"

definition closing :: "nat \<Rightarrow> runtime \<Rightarrow> runtime" where
  "closing i s = spawn (Tearing i) (upd i (\<lambda>p. p\<lparr>sp_timer := False\<rparr>) s)"

definition tearing :: "nat \<Rightarrow> runtime \<Rightarrow> runtime" where
  "tearing i s = upd i (\<lambda>p. p\<lparr>sp_torn := Suc (sp_torn p)\<rparr>) s"

text \<open>\<open>track\<close> hands a lease to a new connection, or refuses when the snapshot was forced; the lease is then still to
  be released.\<close>

definition track :: "nat \<Rightarrow> nat \<Rightarrow> runtime \<Rightarrow> runtime" where
  "track i c s =
     (if sp_forced (rs_store s i) then spawn (Lease i) s else upd i (\<lambda>p. p\<lparr>sp_conns := c # sp_conns p\<rparr>) s)"

text \<open>\<open>Reload\<close>: a snapshot is built, and published unless the service was closed; the old one goes to
  \<open>retireSnapshot\<close>. A reload that fails after building retires its snapshot.\<close>

definition build :: "runtime \<Rightarrow> runtime" where
  "build s = spawn (Candidate (rs_next s)) (s\<lparr>rs_next := Suc (rs_next s)\<rparr>)"

definition publish :: "nat \<Rightarrow> runtime \<Rightarrow> runtime" where
  "publish j s =
     (if rs_shut s then spawn (RetireStart j Drop) s
      else case rs_current s of
             None \<Rightarrow> s\<lparr>rs_current := Some j\<rparr>
           | Some i \<Rightarrow> spawn (RetireStart i Register) (s\<lparr>rs_current := Some j\<rparr>))"

text \<open>\<open>Close\<close>: the section under \<open>mu\<close>, then the retired snapshots and the current one are retired and forced.\<close>

definition close_service :: "runtime \<Rightarrow> runtime" where
  "close_service s =
     (if rs_shut s then s else spawn (CloseRest (rs_current s)) (s\<lparr>rs_shut := True, rs_current := None\<rparr>))"

definition close_rest :: "nat option \<Rightarrow> runtime \<Rightarrow> runtime" where
  "close_rest cur s =
     fold (\<lambda>i. spawn (RetireStart i ForceNext)) (rs_retired s @ (case cur of None \<Rightarrow> [] | Some i \<Rightarrow> [i])) (s\<lparr>rs_retired := []\<rparr>)"

section \<open>Steps\<close>

fun run_task :: "task \<Rightarrow> runtime \<Rightarrow> runtime" where
  "run_task (Lease i) s = release i s"
| "run_task (ReleaseCheck i) s = release_check i s"
| "run_task (RetireStart i k) s = retire i k s"
| "run_task (RetireCheck i k) s = retire_check i k s"
| "run_task (RetireTimer i k) s = retire_timer i k s"
| "run_task (RegisterCheck i) s = register_check i s"
| "run_task (RegisterList i) s = register i s"
| "run_task (Force i) s = force i (sp_conns (rs_store s i)) s"
| "run_task (Forcing i cs) s = forcing i cs s"
| "run_task (Closer i) s = closer i s"
| "run_task (Closing i) s = closing i s"
| "run_task (Tearing i) s = tearing i s"
| "run_task (Candidate j) s = publish j s"
| "run_task (CloseRest cur) s = close_rest cur s"

text \<open>One step of the service; \<open>calm\<close> forbids to acquire a snapshot while a release of it is between its decrement and
  its look at \<open>retired\<close>.\<close>

inductive runtime_step :: "bool \<Rightarrow> runtime \<Rightarrow> runtime \<Rightarrow> bool" for calm where
  acquire: "acquire s = Some (i, s') \<Longrightarrow> (calm \<longrightarrow> ReleaseCheck i \<notin># rs_tasks s) \<Longrightarrow> runtime_step calm s s'"
| task: "rs_tasks s = add_mset t ts \<Longrightarrow> runtime_step calm s (run_task t (s\<lparr>rs_tasks := ts\<rparr>))"
| reorder: "rs_tasks s = add_mset (Forcing i cs) ts \<Longrightarrow> mset cs = mset cs' \<Longrightarrow> runtime_step calm s (s\<lparr>rs_tasks := add_mset (Forcing i cs') ts\<rparr>)"
| track: "rs_tasks s = add_mset (Lease i) ts \<Longrightarrow> c \<notin> set (sp_conns (rs_store s i)) \<Longrightarrow> runtime_step calm s (track i c (s\<lparr>rs_tasks := ts\<rparr>))"
| close_conn: "runtime_step calm s (close_conn i c s)"
| drain: "sp_timer (rs_store s i) \<Longrightarrow> runtime_step calm s (spawn (Force i) (upd i (\<lambda>p. p\<lparr>sp_timer := False\<rparr>) s))"
| build: "runtime_step calm s (build s)"
| abandon: "rs_tasks s = add_mset (Candidate j) ts \<Longrightarrow> runtime_step calm s (spawn (RetireStart j Drop) (s\<lparr>rs_tasks := ts\<rparr>))"
| close_service: "runtime_step calm s (close_service s)"

inductive runtime_reachable :: "bool \<Rightarrow> runtime \<Rightarrow> bool" for calm where
  init: "runtime_reachable calm newRuntimeService"
| step: "runtime_reachable calm s \<Longrightarrow> runtime_step calm s s' \<Longrightarrow> runtime_reachable calm s'"

end
