(* ===== verification/RuntimeProofs.thy ===== *)
theory RuntimeProofs
  imports RuntimeSnapshots
begin

text \<open>
  Invariants of runtime snapshots under every interleaving: the count of references, who may still be acquired, that
  resources are closed once, and that no snapshot is forgotten.
\<close>

section \<open>Accounting\<close>

lemmas runtime_ops = upd_def spawn_def acquire_def release_def release_check_def retire_def retire_check_def retire_timer_def
  register_check_def register_def force_def close_conn_def closer_def closing_def tearing_def track_def build_def publish_def
  close_service_def Let_def

text \<open>Tasks that \<open>close_rest\<close> starts, and what it leaves alone.\<close>

lemma fold_spawn:
  "fold (\<lambda>i. spawn (f i)) xs s = s\<lparr>rs_tasks := mset (map f xs) + rs_tasks s\<rparr>"
  by (induction xs arbitrary: s) (simp_all add: spawn_def)

lemma close_rest_eq:
  "close_rest cur s = s\<lparr>rs_retired := [], rs_tasks := mset (map (\<lambda>i. RetireStart i ForceNext)
     (rs_retired s @ (case cur of None \<Rightarrow> [] | Some i \<Rightarrow> [i]))) + rs_tasks s\<rparr>"
  by (simp add: close_rest_def fold_spawn)

lemma continue_eq:
  "continue i k s = s\<lparr>rs_tasks := (case k of Drop \<Rightarrow> {#} | Register \<Rightarrow> {#RegisterCheck i#} | ForceNext \<Rightarrow> {#Force i#}) + rs_tasks s\<rparr>"
  by (cases k) (simp_all add: spawn_def)

lemma forcing_eq: "forcing i cs s = (case cs of [] \<Rightarrow> spawn (Closer i) s | c # cs' \<Rightarrow> spawn (Forcing i cs') (close_conn i c s))"
  by (cases cs) simp_all

declare continue.simps [simp del] forcing.simps [simp del]

lemmas runtime_steps = runtime_ops close_rest_eq continue_eq forcing_eq

definition refs_ok :: "runtime \<Rightarrow> bool" where
  "refs_ok s \<longleftrightarrow> (\<forall>i. sp_refs (rs_store s i) = int (count (rs_tasks s) (Lease i)) + int (length (sp_conns (rs_store s i))) \<and>
     distinct (sp_conns (rs_store s i)))"

lemma count_started [simp]:
  "(\<And>i. t \<noteq> RetireStart i ForceNext) \<Longrightarrow> count (image_mset (\<lambda>i. RetireStart i ForceNext) M) t = 0"
  by (auto simp: count_eq_zero_iff)

lemma int_remove1: "x \<in> set xs \<Longrightarrow> int (length (remove1 x xs)) = int (length xs) - 1"
  by (cases "length xs") (auto simp: length_remove1)

lemma refs_ok_run:
  assumes "refs_ok s" "rs_tasks s = add_mset t ts"
  shows "refs_ok (run_task t (s\<lparr>rs_tasks := ts\<rparr>))"
  using assms
  by (cases t) (auto simp: refs_ok_def runtime_steps int_remove1 split: option.splits after_retire.splits list.splits)

lemma refs_ok_step: "runtime_step calm s s' \<Longrightarrow> refs_ok s \<Longrightarrow> refs_ok s'"
proof (induction rule: runtime_step.induct)
  case (task s t ts)
  then show ?case by (intro refs_ok_run) simp_all
qed (auto simp: refs_ok_def runtime_steps int_remove1 split: option.splits if_splits)

section \<open>Order of events\<close>

text \<open>A snapshot that is detached is not current and is not a candidate any more, so that no one can acquire it.\<close>

definition detached :: "runtime \<Rightarrow> nat \<Rightarrow> bool" where
  "detached s i \<longleftrightarrow> i < rs_next s \<and> rs_current s \<noteq> Some i \<and> Candidate i \<notin># rs_tasks s"

text \<open>The tasks that only a retired snapshot has.\<close>

fun phase :: "task \<Rightarrow> nat option" where
  "phase (RetireCheck i k) = Some i"
| "phase (RetireTimer i k) = Some i"
| "phase (RegisterCheck i) = Some i"
| "phase (RegisterList i) = Some i"
| "phase (Force i) = Some i"
| "phase (Forcing i cs) = Some i"
| "phase (Closer i) = Some i"
| "phase (Closing i) = Some i"
| "phase (Tearing i) = Some i"
| "phase t = None"

definition tasks_ok :: "runtime \<Rightarrow> bool" where
  "tasks_ok s \<longleftrightarrow> (\<forall>t \<in># rs_tasks s. \<forall>i. phase t = Some i \<longrightarrow> sp_retired (rs_store s i)) \<and>
     (\<forall>i cs. Forcing i cs \<in># rs_tasks s \<longrightarrow> sp_forced (rs_store s i)) \<and>
     (\<forall>i k. RetireStart i k \<in># rs_tasks s \<longrightarrow> detached s i) \<and> (\<forall>i. CloseRest (Some i) \<in># rs_tasks s \<longrightarrow> detached s i) \<and>
     (\<forall>j. Candidate j \<in># rs_tasks s \<longrightarrow> j < rs_next s \<and> rs_current s \<noteq> Some j)"

definition flags_ok :: "runtime \<Rightarrow> bool" where
  "flags_ok s \<longleftrightarrow> (\<forall>i. rs_current s = Some i \<longrightarrow> i < rs_next s) \<and>
     (\<forall>i. sp_retired (rs_store s i) \<longrightarrow> detached s i) \<and> (\<forall>i \<in> set (rs_retired s). sp_retired (rs_store s i)) \<and>
     (\<forall>i. sp_timer (rs_store s i) \<or> sp_closed (rs_store s i) \<or> sp_forced (rs_store s i) \<longrightarrow> sp_retired (rs_store s i)) \<and>
     (rs_shut s \<longrightarrow> rs_current s = None) \<and> length (rs_retired s) \<le> maxRetiredSnapshots"

text \<open>A candidate is one reload's.\<close>

definition cand_once :: "task multiset \<Rightarrow> bool" where
  "cand_once T \<longleftrightarrow> (\<forall>j. count T (Candidate j) \<le> 1)"

lemma cand_once_add [simp]:
  "(\<And>j. t \<noteq> Candidate j) \<Longrightarrow> cand_once (add_mset t T) = cand_once T"
  "cand_once (add_mset (Candidate j) T) \<longleftrightarrow> cand_once T \<and> Candidate j \<notin># T"
  "cand_once (image_mset (\<lambda>i. RetireStart i ForceNext) M + T) = cand_once T"
proof -
  have "cand_once T \<and> Candidate j \<notin># T" if "cand_once (add_mset (Candidate j) T)"
  proof -
    have le: "count (add_mset (Candidate j) T) (Candidate k) \<le> 1" for k using that unfolding cand_once_def by blast
    have "count T (Candidate k) \<le> 1" for k using le [of k] by (simp split: if_splits)
    then show ?thesis using le [of j] by (simp add: cand_once_def not_in_iff)
  qed
  moreover have "cand_once (add_mset (Candidate j) T)" if "cand_once T" "Candidate j \<notin># T"
    using that by (simp add: cand_once_def not_in_iff)
  ultimately show "cand_once (add_mset (Candidate j) T) \<longleftrightarrow> cand_once T \<and> Candidate j \<notin># T" by blast
qed (simp_all add: cand_once_def)

definition order_ok :: "runtime \<Rightarrow> bool" where
  "order_ok s \<longleftrightarrow> tasks_ok s \<and> flags_ok s \<and> cand_once (rs_tasks s)"

lemmas order_defs = order_ok_def tasks_ok_def flags_ok_def detached_def

lemma candidate_fresh:
  assumes "order_ok s" "rs_tasks s = add_mset (Candidate j) ts"
  shows "j < rs_next s" "rs_current s \<noteq> Some j" "Candidate j \<notin># ts" "\<not> sp_retired (rs_store s j)" "\<forall>k. RetireStart j k \<notin># ts" "CloseRest (Some j) \<notin># ts"
  using assms by (auto simp: order_defs)

lemma order_ok_less:
  assumes "order_ok s" "rs_tasks s = add_mset t ts"
  shows "order_ok (s\<lparr>rs_tasks := ts\<rparr>)"
  using assms by (cases t) (auto simp: order_defs)

lemma order_ok_publish:
  assumes "order_ok s" "j < rs_next s" "rs_current s \<noteq> Some j" "\<not> sp_retired (rs_store s j)" "Candidate j \<notin># rs_tasks s" "\<forall>k. RetireStart j k \<notin># rs_tasks s"
    "CloseRest (Some j) \<notin># rs_tasks s"
  shows "order_ok (publish j s)"
proof (cases "rs_current s")
  case None
  then show ?thesis using assms by (auto simp: order_defs publish_def spawn_def)
next
  case (Some i)
  then show ?thesis using assms by (auto simp: order_defs publish_def spawn_def)
qed

lemma order_ok_run:
  assumes "order_ok s" "rs_tasks s = add_mset t ts"
  shows "order_ok (run_task t (s\<lparr>rs_tasks := ts\<rparr>))"
proof (cases t)
  case (Lease i)
  then show ?thesis using assms by (auto simp: order_defs runtime_steps)
next
  case (ReleaseCheck i)
  then show ?thesis using assms by (auto simp: order_defs runtime_steps)
next
  case (RetireStart i k)
  then show ?thesis using assms by (cases k) (auto simp: order_defs runtime_steps)
next
  case (RetireCheck i k)
  then show ?thesis using assms by (cases k) (auto simp: order_defs runtime_steps)
next
  case (RetireTimer i k)
  then show ?thesis using assms by (cases k) (auto simp: order_defs runtime_steps)
next
  case (RegisterCheck i)
  then show ?thesis using assms by (auto simp: order_defs runtime_steps)
next
  case (RegisterList i)
  define kept where "kept = filter (\<lambda>k. \<not> sp_closed (rs_store s k)) (rs_retired s) @ [i]"
  have k: "kept \<noteq> []" "\<forall>k \<in> set kept. sp_retired (rs_store s k)" "length kept \<le> Suc maxRetiredSnapshots"
    using assms RegisterList by (auto simp: order_defs kept_def intro: le_trans [OF length_filter_le])
  then have "\<forall>k \<in> set (tl kept). sp_retired (rs_store s k)" "sp_retired (rs_store s (hd kept))" by (auto dest: list.set_sel(2))
  note tail = this
  have base: "order_ok (s\<lparr>rs_tasks := ts, rs_retired := xs\<rparr>)"
    if "\<forall>k \<in> set xs. sp_retired (rs_store s k)" "length xs \<le> maxRetiredSnapshots" for xs
    using assms RegisterList that by (auto simp: order_defs)
  have add: "order_ok (spawn (Force j) s')" if "order_ok s'" "sp_retired (rs_store s' j)" for j s'
    using that by (auto simp: order_defs spawn_def)
  have i: "sp_retired (rs_store s i)" using assms RegisterList by (auto simp: order_defs)
  have same: "order_ok (s\<lparr>rs_tasks := ts\<rparr>)" using assms RegisterList base [of "rs_retired s"] by (simp add: order_defs)
  have "order_ok (spawn (Force (hd kept)) (s\<lparr>rs_tasks := ts, rs_retired := tl kept\<rparr>))"
    using tail k(3) by (intro add base) simp_all
  moreover have "order_ok (spawn (Force i) (s\<lparr>rs_tasks := ts\<rparr>))" using same i by (intro add) simp_all
  moreover have "length kept \<le> maxRetiredSnapshots \<Longrightarrow> order_ok (s\<lparr>rs_tasks := ts, rs_retired := kept\<rparr>)" using k by (intro base)
  ultimately show ?thesis using RegisterList by (simp add: register_def Let_def kept_def)
next
  case (Force i)
  then show ?thesis using assms by (auto simp: order_defs runtime_steps)
next
  case (Forcing i cs)
  then show ?thesis using assms by (cases cs) (auto simp: order_defs runtime_steps)
next
  case (Closer i)
  then show ?thesis using assms by (auto simp: order_defs runtime_steps)
next
  case (Closing i)
  then show ?thesis using assms by (auto simp: order_defs runtime_steps)
next
  case (Tearing i)
  then show ?thesis using assms by (auto simp: order_defs runtime_steps)
next
  case (Candidate j)
  then show ?thesis using order_ok_publish [OF order_ok_less [OF assms]] candidate_fresh [OF assms(1)] assms(2) by simp
next
  case (CloseRest cur)
  then show ?thesis using assms by (cases cur) (auto simp: order_defs runtime_steps)
qed

lemma order_ok_step: "runtime_step calm s s' \<Longrightarrow> order_ok s \<Longrightarrow> order_ok s'"
proof (induction rule: runtime_step.induct)
  case (task s t ts)
  then show ?case by (intro order_ok_run) simp_all
next
  case (reorder s i cs ts cs')
  then show ?case by (auto simp: order_defs)
next
  case (abandon s j ts)
  then have "order_ok (s\<lparr>rs_tasks := ts\<rparr>)" using order_ok_less by simp
  then show ?case using candidate_fresh [OF abandon(2,1)] by (auto simp: order_defs spawn_def)
next
  case (build s)
  let ?n = "rs_next s"
  have new: "rs_next (build s) = Suc ?n" "rs_tasks (build s) = add_mset (Candidate ?n) (rs_tasks s)" "rs_store (build s) = rs_store s"
    "rs_current (build s) = rs_current s" "rs_retired (build s) = rs_retired s" "rs_shut (build s) = rs_shut s"
    by (simp_all add: build_def spawn_def)
  have t: "tasks_ok s" and f: "flags_ok s" and c: "cand_once (rs_tasks s)" using build by (simp_all add: order_ok_def)
  have d: "detached (build s) i" if "detached s i" for i using that by (simp add: detached_def new)
  have n: "Candidate ?n \<notin># rs_tasks s" "rs_current s \<noteq> Some ?n" using t f by (auto simp: tasks_ok_def flags_ok_def)
  have "tasks_ok (build s)" using t n(2) d unfolding tasks_ok_def new
    by (simp add: less_Suc_eq)
  moreover have "flags_ok (build s)" using f d unfolding flags_ok_def new by (auto simp: less_Suc_eq)
  ultimately show ?case using c n(1) by (simp add: order_ok_def new)
next
  case (acquire s i s')
  then have "s' = spawn (Lease i) (upd i (\<lambda>p. p\<lparr>sp_refs := sp_refs p + 1\<rparr>) s)"
    by (simp add: acquire_def split: option.splits if_splits)
  then show ?case using acquire(3) by (auto simp: order_defs upd_def spawn_def)
next
  case (track s i ts c)
  then show ?case by (auto simp: order_defs runtime_steps)
next
  case (close_conn s i c)
  then show ?case by (auto simp: order_defs runtime_steps)
next
  case (drain s i)
  then show ?case by (auto simp: order_defs runtime_steps)
next
  case (close_service s)
  then show ?case by (cases "rs_current s") (auto simp: order_defs runtime_steps)
qed

section \<open>Closed once\<close>

definition closings :: "snapshot \<Rightarrow> nat" where
  "closings p = (if sp_closed p then 1 else 0)"

lemma closings_upd [simp]:
  "closings (sp_refs_update f p) = closings p" "closings (sp_retired_update g p) = closings p" "closings (sp_forced_update g p) = closings p"
  "closings (sp_conns_update h p) = closings p" "closings (sp_timer_update g p) = closings p" "closings (sp_torn_update k p) = closings p"
  "closings (sp_closed_update (\<lambda>b. True) p) = 1"
  by (simp_all add: closings_def)

definition once_ok :: "runtime \<Rightarrow> bool" where
  "once_ok s \<longleftrightarrow> (\<forall>i. sp_torn (rs_store s i) + count (rs_tasks s) (Closing i) + count (rs_tasks s) (Tearing i) =
     closings (rs_store s i))"

lemma once_ok_run:
  assumes "once_ok s" "rs_tasks s = add_mset t ts"
  shows "once_ok (run_task t (s\<lparr>rs_tasks := ts\<rparr>))"
proof -
  have o1: "sp_torn (rs_store s i) + count (add_mset t ts) (Closing i) + count (add_mset t ts) (Tearing i) = closings (rs_store s i)" for i
    using assms by (simp add: once_ok_def)
  show ?thesis
  proof (cases t)
    case (Closer i)
    then have "\<not> sp_closed (rs_store s i) \<Longrightarrow> closings (rs_store s i) = 0" by (simp add: closings_def)
    then show ?thesis using o1 o1 [of i] Closer by (auto simp: once_ok_def runtime_steps)
  next
    case (Closing i)
    then have "j \<noteq> i \<Longrightarrow> sp_torn (rs_store s j) + count ts (Closing j) + count ts (Tearing j) = closings (rs_store s j)" for j using o1 [of j] by simp
    then show ?thesis using o1 [of i] Closing by (auto simp: once_ok_def runtime_steps)
  next
    case (Tearing i)
    then have "j \<noteq> i \<Longrightarrow> sp_torn (rs_store s j) + count ts (Closing j) + count ts (Tearing j) = closings (rs_store s j)" for j using o1 [of j] by simp
    then show ?thesis using o1 [of i] Tearing by (auto simp: once_ok_def runtime_steps)
  qed (use o1 in \<open>auto simp: once_ok_def runtime_steps split: option.splits after_retire.splits list.splits\<close>)
qed

lemma once_ok_step: "runtime_step calm s s' \<Longrightarrow> once_ok s \<Longrightarrow> once_ok s'"
proof (induction rule: runtime_step.induct)
  case (task s t ts)
  then show ?case by (intro once_ok_run) simp_all
qed (auto simp: once_ok_def runtime_steps split: option.splits if_splits)

section \<open>Nothing is forgotten\<close>

text \<open>A retired snapshot without references is being closed; one with references has its timer armed or is being
  forced.\<close>

definition drained_ok :: "runtime \<Rightarrow> bool" where
  "drained_ok s \<longleftrightarrow> (\<forall>i. sp_retired (rs_store s i) \<and> \<not> sp_closed (rs_store s i) \<longrightarrow>
     (if sp_refs (rs_store s i) = 0
      then (\<exists>k. RetireCheck i k \<in># rs_tasks s) \<or> ReleaseCheck i \<in># rs_tasks s \<or> Closer i \<in># rs_tasks s
      else sp_timer (rs_store s i) \<or> (\<exists>k. RetireCheck i k \<in># rs_tasks s \<or> RetireTimer i k \<in># rs_tasks s) \<or>
        Force i \<in># rs_tasks s \<or> (\<exists>cs. Forcing i cs \<in># rs_tasks s) \<or> Closer i \<in># rs_tasks s))"

text \<open>Every snapshot that was built is current, a candidate, retired or about to be.\<close>

definition known_ok :: "runtime \<Rightarrow> bool" where
  "known_ok s \<longleftrightarrow> (\<forall>i < rs_next s. rs_current s = Some i \<or> Candidate i \<in># rs_tasks s \<or> sp_retired (rs_store s i) \<or>
     (\<exists>k. RetireStart i k \<in># rs_tasks s) \<or> CloseRest (Some i) \<in># rs_tasks s)"

lemma known_ok_run:
  assumes "known_ok s" "rs_tasks s = add_mset t ts"
  shows "known_ok (run_task t (s\<lparr>rs_tasks := ts\<rparr>))"
proof (cases t)
  case (CloseRest cur)
  then show ?thesis using assms by (cases cur) (auto simp: known_ok_def runtime_steps)
next
  case (Candidate j)
  then show ?thesis using assms by (cases "rs_current s") (fastforce simp: known_ok_def runtime_steps)+
qed (use assms in \<open>auto simp: known_ok_def runtime_steps split: option.splits after_retire.splits list.splits\<close>)

lemma known_ok_step: "runtime_step calm s s' \<Longrightarrow> known_ok s \<Longrightarrow> known_ok s'"
proof (induction rule: runtime_step.induct)
  case (task s t ts)
  then show ?case by (intro known_ok_run) simp_all
qed (auto simp: known_ok_def runtime_steps less_Suc_eq split: option.splits if_splits)

lemma drained_ok_run:
  assumes "drained_ok s" "once_ok s" "refs_ok s" "rs_tasks s = add_mset t ts"
  shows "drained_ok (run_task t (s\<lparr>rs_tasks := ts\<rparr>))"
proof -
  have o1: "sp_closed (rs_store s i)" if "t = Closing i" for i
    using assms(2,4) that by (auto simp: once_ok_def closings_def dest!: spec [of _ i] split: if_splits)
  show ?thesis
  proof (cases t)
    case (Lease i)
    then have "sp_refs (rs_store s i) \<noteq> 0" using assms(3,4) by (auto simp: refs_ok_def)
    then show ?thesis using assms(1,4) Lease by (auto simp: drained_ok_def runtime_steps split: if_splits)
  qed (use assms(1,4) o1 in \<open>auto simp: drained_ok_def runtime_steps split: option.splits after_retire.splits list.splits if_splits\<close>)
qed

end
