(* ===== verification/RuntimeProps.thy ===== *)
theory RuntimeProps
  imports RuntimeProofs
begin

text \<open>
  What the invariants of \<open>RuntimeProofs\<close> give: the accounting of leases, that no snapshot is forgotten, that shutdown
  closes everything, and when a snapshot's resources are closed.
\<close>

section \<open>Further invariants\<close>

lemma drained_ok_step:
  "runtime_step calm s s' \<Longrightarrow> drained_ok s \<and> order_ok s \<and> once_ok s \<and> refs_ok s \<Longrightarrow> drained_ok s'"
proof (induction rule: runtime_step.induct)
  case (task s t ts)
  then show ?case by (intro drained_ok_run) simp_all
next
  case (acquire s i s')
  then have s': "s' = spawn (Lease i) (upd i (\<lambda>p. p\<lparr>sp_refs := sp_refs p + 1\<rparr>) s)" "rs_current s = Some i"
    by (simp_all add: acquire_def split: option.splits if_splits)
  then have "\<not> sp_retired (rs_store s i)" using acquire(3) by (auto simp: order_defs)
  then show ?case using acquire(3) by (simp add: s'(1) drained_ok_def upd_def spawn_def)
next
  case (track s i ts c)
  then show ?case by (auto simp: drained_ok_def runtime_steps)
next
  case (close_conn s i c)
  then show ?case by (auto simp: drained_ok_def runtime_steps)
next
  case (drain s i)
  then show ?case by (auto simp: drained_ok_def runtime_steps)
next
  case (build s)
  then show ?case by (auto simp: drained_ok_def runtime_steps)
next
  case (abandon s j ts)
  then show ?case by (auto simp: drained_ok_def runtime_steps)
next
  case (close_service s)
  then show ?case by (auto simp: drained_ok_def runtime_steps)
next
  case (reorder s i cs ts cs')
  have "(\<exists>cs. Forcing k cs \<in># add_mset (Forcing i cs') ts) \<longleftrightarrow> (\<exists>cs. Forcing k cs \<in># rs_tasks s)" for k using reorder(1) by auto
  moreover have "t \<in># add_mset (Forcing i cs') ts \<longleftrightarrow> t \<in># rs_tasks s" if "\<And>cs. t \<noteq> Forcing i cs" for t using reorder(1) that by auto
  ultimately show ?case using reorder(3) by (simp add: drained_ok_def del: set_mset_add_mset_insert)
qed

text \<open>A snapshot that was never published has no references.\<close>

definition unleased :: "runtime \<Rightarrow> nat \<Rightarrow> bool" where
  "unleased s i \<longleftrightarrow> rs_next s \<le> i \<or> Candidate i \<in># rs_tasks s \<or> RetireStart i Drop \<in># rs_tasks s \<or>
     RetireCheck i Drop \<in># rs_tasks s \<or> RetireTimer i Drop \<in># rs_tasks s"

definition fresh_ok :: "runtime \<Rightarrow> bool" where
  "fresh_ok s \<longleftrightarrow> (\<forall>i. unleased s i \<longrightarrow> sp_refs (rs_store s i) = 0)"

lemma fresh_ok_run:
  assumes "fresh_ok s" "refs_ok s" "rs_tasks s = add_mset t ts"
  shows "fresh_ok (run_task t (s\<lparr>rs_tasks := ts\<rparr>))"
proof (cases t)
  case (Lease i)
  then have "sp_refs (rs_store s i) \<noteq> 0" using assms(2,3) by (auto simp: refs_ok_def)
  then have "\<not> unleased s i" using assms(1) by (auto simp: fresh_ok_def)
  then show ?thesis using assms(1,3) Lease by (auto simp: fresh_ok_def unleased_def runtime_steps)
next
  case (Candidate j)
  then show ?thesis using assms(1,3)
    by (cases "rs_current s") (auto simp: fresh_ok_def unleased_def runtime_steps)
next
  case (CloseRest cur)
  then show ?thesis using assms(1,3) by (cases cur) (auto simp: fresh_ok_def unleased_def runtime_steps)
next
  case (RetireStart i k)
  then show ?thesis using assms(1,3) by (cases k) (auto simp: fresh_ok_def unleased_def runtime_steps)
next
  case (RetireCheck i k)
  then show ?thesis using assms(1,3) by (cases k) (auto simp: fresh_ok_def unleased_def runtime_steps)
next
  case (RetireTimer i k)
  then show ?thesis using assms(1,3) by (cases k) (auto simp: fresh_ok_def unleased_def runtime_steps)
next
  case (Forcing i cs)
  then show ?thesis using assms(1,3) by (cases cs) (auto simp: fresh_ok_def unleased_def runtime_steps)
qed (use assms(1,3) in \<open>auto simp: fresh_ok_def unleased_def runtime_steps\<close>)

lemma current_leased:
  assumes "order_ok s" "rs_current s = Some i"
  shows "\<not> unleased s i" "\<not> sp_retired (rs_store s i)"
proof -
  have t: "tasks_ok s" and f: "flags_ok s" using assms(1) by (simp_all add: order_ok_def)
  have d: "\<not> detached s i" using assms(2) by (simp add: detached_def)
  show r: "\<not> sp_retired (rs_store s i)" using f d unfolding flags_ok_def by blast
  have "RetireCheck i k \<notin># rs_tasks s" "RetireTimer i k \<notin># rs_tasks s" for k
    using t r phase.simps(1,2) [of i k] unfolding tasks_ok_def by blast+
  moreover have "RetireStart i k \<notin># rs_tasks s" for k using t d unfolding tasks_ok_def by blast
  moreover have "i < rs_next s" "Candidate i \<notin># rs_tasks s" using t f assms(2) unfolding tasks_ok_def flags_ok_def by blast+
  ultimately show "\<not> unleased s i" by (simp add: unleased_def)
qed

lemma acquire_eq:
  assumes "acquire s = Some (i, s')"
  shows "s' = spawn (Lease i) (upd i (\<lambda>p. p\<lparr>sp_refs := sp_refs p + 1\<rparr>) s)" "rs_current s = Some i" "\<not> rs_shut s"
  using assms by (simp_all add: acquire_def split: option.splits if_splits)

lemma fresh_ok_step:
  "runtime_step calm s s' \<Longrightarrow> fresh_ok s \<and> order_ok s \<and> refs_ok s \<Longrightarrow> fresh_ok s'"
proof (induction rule: runtime_step.induct)
  case (task s t ts)
  then show ?case by (intro fresh_ok_run) simp_all
next
  case (acquire s i s')
  have "\<not> unleased s i" using current_leased acquire_eq(2) [OF acquire(1)] acquire(3) by blast
  then show ?case using acquire(3) by (auto simp: acquire_eq(1) [OF acquire(1)] fresh_ok_def unleased_def upd_def spawn_def)
qed (auto simp: fresh_ok_def unleased_def runtime_steps)

text \<open>After shutdown the list of retired snapshots is empty, or \<open>Close\<close> is about to take it.\<close>

definition shut_ok :: "runtime \<Rightarrow> bool" where
  "shut_ok s \<longleftrightarrow> (rs_shut s \<longrightarrow> (\<exists>cur. CloseRest cur \<in># rs_tasks s) \<or> rs_retired s = [])"

lemma shut_ok_run:
  assumes "shut_ok s" "rs_tasks s = add_mset t ts"
  shows "shut_ok (run_task t (s\<lparr>rs_tasks := ts\<rparr>))"
  using assms
  by (cases t) (auto simp: shut_ok_def runtime_steps split: option.splits after_retire.splits list.splits)

lemma shut_ok_step: "runtime_step calm s s' \<Longrightarrow> shut_ok s \<Longrightarrow> shut_ok s'"
proof (induction rule: runtime_step.induct)
  case (task s t ts)
  then show ?case by (intro shut_ok_run) simp_all
qed (auto simp: shut_ok_def runtime_steps split: option.splits if_splits)

text \<open>A retired snapshot with references is on the list, or some goroutine will put it there, force it or close it.\<close>

definition watched :: "runtime \<Rightarrow> nat \<Rightarrow> bool" where
  "watched s i \<longleftrightarrow> i \<in> set (rs_retired s) \<or> (\<exists>k. RetireCheck i k \<in># rs_tasks s) \<or> (\<exists>k. RetireTimer i k \<in># rs_tasks s) \<or>
     RegisterCheck i \<in># rs_tasks s \<or> RegisterList i \<in># rs_tasks s \<or> Force i \<in># rs_tasks s \<or>
     (\<exists>cs. Forcing i cs \<in># rs_tasks s) \<or> Closer i \<in># rs_tasks s \<or> RetireStart i ForceNext \<in># rs_tasks s"

definition listed_ok :: "runtime \<Rightarrow> bool" where
  "listed_ok s \<longleftrightarrow> (\<forall>i. sp_retired (rs_store s i) \<longrightarrow> \<not> sp_closed (rs_store s i) \<longrightarrow> sp_refs (rs_store s i) \<noteq> 0 \<longrightarrow> watched s i)"

lemma listed_ok_run:
  assumes "listed_ok s" "refs_ok s" "fresh_ok s" "rs_tasks s = add_mset t ts"
  shows "listed_ok (run_task t (s\<lparr>rs_tasks := ts\<rparr>))"
proof (cases t)
  case (Lease i)
  then have "sp_refs (rs_store s i) \<noteq> 0" using assms(2,4) by (auto simp: refs_ok_def)
  then show ?thesis using assms(1,4) Lease by (auto simp: listed_ok_def watched_def runtime_steps)
next
  case (RetireStart i k)
  have "k = Drop \<Longrightarrow> sp_refs (rs_store s i) = 0" using assms(3,4) RetireStart by (simp add: fresh_ok_def unleased_def)
  then show ?thesis using assms(1,4) RetireStart by (cases k) (auto simp: listed_ok_def watched_def runtime_steps)
next
  case (RetireCheck i k)
  have "k = Drop \<Longrightarrow> sp_refs (rs_store s i) = 0" using assms(3,4) RetireCheck by (simp add: fresh_ok_def unleased_def)
  then show ?thesis using assms(1,4) RetireCheck by (cases k) (auto simp: listed_ok_def watched_def runtime_steps)
next
  case (RetireTimer i k)
  have "k = Drop \<Longrightarrow> sp_refs (rs_store s i) = 0" using assms(3,4) RetireTimer by (simp add: fresh_ok_def unleased_def)
  then show ?thesis using assms(1,4) RetireTimer by (cases k) (auto simp: listed_ok_def watched_def runtime_steps)
next
  case (RegisterList i)
  define kept where "kept = filter (\<lambda>k. \<not> sp_closed (rs_store s k)) (rs_retired s) @ [i]"
  have k: "kept = hd kept # tl kept" by (simp add: kept_def)
  have w: "j \<in> set kept \<or> watched (s\<lparr>rs_tasks := ts, rs_retired := []\<rparr>) j"
    if "sp_retired (rs_store s j)" "\<not> sp_closed (rs_store s j)" "sp_refs (rs_store s j) \<noteq> 0" for j
    using assms(1,4) RegisterList that by (auto simp: listed_ok_def watched_def kept_def)
  have h: "j \<in> set kept \<longleftrightarrow> j = hd kept \<or> j \<in> set (tl kept)" for j by (subst k) simp
  have "listed_ok (spawn (Force (hd kept)) (s\<lparr>rs_tasks := ts, rs_retired := tl kept\<rparr>))"
    using w by (auto simp: listed_ok_def watched_def spawn_def h)
  moreover have "listed_ok (s\<lparr>rs_tasks := ts, rs_retired := kept\<rparr>)" using w by (auto simp: listed_ok_def watched_def)
  moreover have "listed_ok (spawn (Force i) (s\<lparr>rs_tasks := ts\<rparr>))"
    using assms(1,4) RegisterList by (auto simp: listed_ok_def watched_def spawn_def)
  ultimately show ?thesis using RegisterList by (simp add: register_def Let_def kept_def)
next
  case (Candidate j)
  then show ?thesis using assms(1,4) by (cases "rs_current s") (auto simp: listed_ok_def watched_def runtime_steps)
next
  case (CloseRest cur)
  then show ?thesis using assms(1,4) by (cases cur) (auto simp: listed_ok_def watched_def runtime_steps)
next
  case (Forcing i cs)
  then show ?thesis using assms(1,4) by (cases cs) (auto simp: listed_ok_def watched_def runtime_steps)
qed (use assms(1,4) in \<open>auto simp: listed_ok_def watched_def runtime_steps\<close>)

lemma listed_ok_step:
  "runtime_step calm s s' \<Longrightarrow> listed_ok s \<and> order_ok s \<and> refs_ok s \<and> fresh_ok s \<Longrightarrow> listed_ok s'"
proof (induction rule: runtime_step.induct)
  case (task s t ts)
  then show ?case by (intro listed_ok_run) simp_all
next
  case (acquire s i s')
  have "\<not> sp_retired (rs_store s i)" using current_leased acquire_eq(2) [OF acquire(1)] acquire(3) by blast
  then show ?case using acquire(3) by (auto simp: acquire_eq(1) [OF acquire(1)] listed_ok_def watched_def upd_def spawn_def)
qed (auto simp: listed_ok_def watched_def runtime_steps)

section \<open>Closing under a lease\<close>

text \<open>Without the overlap that \<open>calm\<close> forbids, a snapshot is closed without references or by force.\<close>

definition idle_ok :: "runtime \<Rightarrow> bool" where
  "idle_ok s \<longleftrightarrow> (\<forall>i. ReleaseCheck i \<in># rs_tasks s \<longrightarrow> sp_refs (rs_store s i) = 0) \<and>
     (\<forall>i. Closer i \<in># rs_tasks s \<or> sp_closed (rs_store s i) \<longrightarrow> sp_refs (rs_store s i) = 0 \<or> sp_forced (rs_store s i))"

lemma idle_ok_run:
  assumes "idle_ok s" "refs_ok s" "order_ok s" "rs_tasks s = add_mset t ts"
  shows "idle_ok (run_task t (s\<lparr>rs_tasks := ts\<rparr>))"
proof (cases t)
  case (Lease i)
  then have "sp_refs (rs_store s i) \<noteq> 0" using assms(2,4) by (auto simp: refs_ok_def)
  then show ?thesis using assms(1,4) Lease by (auto simp: idle_ok_def runtime_steps)
next
  case (Forcing i cs)
  then have "sp_forced (rs_store s i)" using assms(3,4) by (auto simp: order_ok_def tasks_ok_def)
  then show ?thesis using assms(1,4) Forcing by (cases cs) (auto simp: idle_ok_def runtime_steps)
qed (use assms(1,4) in \<open>auto simp: idle_ok_def runtime_steps split: option.splits after_retire.splits\<close>)

lemma idle_ok_step:
  "runtime_step True s s' \<Longrightarrow> idle_ok s \<and> order_ok s \<and> refs_ok s \<Longrightarrow> idle_ok s'"
proof (induction rule: runtime_step.induct)
  case (task s t ts)
  then show ?case by (intro idle_ok_run) simp_all
next
  case (acquire s i s')
  have r: "\<not> sp_retired (rs_store s i)" using current_leased acquire_eq(2) [OF acquire(1)] acquire(3) by blast
  have t: "tasks_ok s" and f: "flags_ok s" using acquire(3) by (simp_all add: order_ok_def)
  have "\<not> sp_closed (rs_store s i)" using f r unfolding flags_ok_def by blast
  moreover have "Closer i \<notin># rs_tasks s" using t r phase.simps(7) [of i] unfolding tasks_ok_def by blast
  ultimately show ?case using acquire(2,3) by (auto simp: acquire_eq(1) [OF acquire(1)] idle_ok_def upd_def spawn_def)
qed (auto simp: idle_ok_def runtime_steps)

section \<open>The invariant\<close>

definition runtime_ok :: "runtime \<Rightarrow> bool" where
  "runtime_ok s \<longleftrightarrow> refs_ok s \<and> order_ok s \<and> once_ok s \<and> known_ok s \<and> drained_ok s \<and> fresh_ok s \<and> shut_ok s \<and> listed_ok s"

lemma runtime_ok_step:
  assumes "runtime_step calm s s'" "runtime_ok s"
  shows "runtime_ok s'"
  using assms(2) refs_ok_step [OF assms(1)] order_ok_step [OF assms(1)] once_ok_step [OF assms(1)] known_ok_step [OF assms(1)]
    drained_ok_step [OF assms(1)] fresh_ok_step [OF assms(1)] shut_ok_step [OF assms(1)] listed_ok_step [OF assms(1)]
  by (simp add: runtime_ok_def)

lemma runtime_ok_init: "runtime_ok newRuntimeService" "idle_ok newRuntimeService"
  by (auto simp: runtime_ok_def idle_ok_def refs_ok_def order_defs cand_once_def once_ok_def closings_def known_ok_def drained_ok_def
      fresh_ok_def shut_ok_def listed_ok_def newRuntimeService_def new_snapshot_def)

lemma runtime_ok_reachable: "runtime_reachable calm s \<Longrightarrow> runtime_ok s"
  by (induction rule: runtime_reachable.induct) (auto intro: runtime_ok_init runtime_ok_step)

lemma idle_ok_reachable: "runtime_reachable True s \<Longrightarrow> idle_ok s"
proof (induction rule: runtime_reachable.induct)
  case (step s s')
  then show ?case using idle_ok_step runtime_ok_reachable [OF step(1)] unfolding runtime_ok_def by blast
qed (rule runtime_ok_init)

lemma torn_once: "once_ok s \<Longrightarrow> sp_torn (rs_store s i) \<le> closings (rs_store s i)"
  unfolding once_ok_def by (drule spec [of _ i]) simp

lemma timer_or_closed:
  assumes "runtime_ok s" "\<forall>t \<in># rs_tasks s. \<exists>k. t = Lease k" "i < rs_next s" "rs_current s \<noteq> Some i"
  shows "sp_retired (rs_store s i)" "sp_closed (rs_store s i) \<or> sp_refs (rs_store s i) \<noteq> 0 \<and> sp_timer (rs_store s i)"
    "sp_closed (rs_store s i) \<Longrightarrow> sp_torn (rs_store s i) = 1"
proof -
  have no: "t \<notin># rs_tasks s" if "\<And>k. t \<noteq> Lease k" for t using assms(2) that by blast
  have "known_ok s" "drained_ok s" "once_ok s" using assms(1) by (simp_all add: runtime_ok_def)
  then show r: "sp_retired (rs_store s i)" using assms(3,4) by (auto simp: known_ok_def no)
  show "sp_closed (rs_store s i) \<or> sp_refs (rs_store s i) \<noteq> 0 \<and> sp_timer (rs_store s i)"
    using \<open>drained_ok s\<close> [unfolded drained_ok_def, THEN spec [of _ i]] r by (auto simp: no split: if_splits)
  show "sp_closed (rs_store s i) \<Longrightarrow> sp_torn (rs_store s i) = 1"
    using \<open>once_ok s\<close> [unfolded once_ok_def, THEN spec [of _ i]] no [of "Closing i"] no [of "Tearing i"]
    by (simp add: closings_def not_in_iff)
qed

section \<open>Goroutines end\<close>

text \<open>The connections of all snapshots, and a bound on the steps a task causes when there are \<open>n\<close> of them.\<close>

definition open_conns :: "runtime \<Rightarrow> nat" where
  "open_conns s = (\<Sum>i < rs_next s. length (sp_conns (rs_store s i)))"

fun work :: "nat \<Rightarrow> task \<Rightarrow> nat" where
  "work n (Lease i) = 5"
| "work n (ReleaseCheck i) = 4"
| "work n (RetireStart i k) = 13 + 6 * n"
| "work n (RetireCheck i k) = 12 + 6 * n"
| "work n (RetireTimer i k) = 8 + 6 * n"
| "work n (RegisterCheck i) = 7 + 6 * n"
| "work n (RegisterList i) = 6 + 6 * n"
| "work n (Force i) = 5 + 6 * n"
| "work n (Forcing i cs) = 4 + 6 * length cs"
| "work n (Closer i) = 3"
| "work n (Closing i) = 2"
| "work n (Tearing i) = 1"
| "work n (Candidate i) = 14 + 6 * n"
| "work n (CloseRest cur) = 10 * (13 + 6 * n)"

definition total_work :: "runtime \<Rightarrow> nat" where
  "total_work s = sum_mset (image_mset (work (open_conns s)) (rs_tasks s))"

definition task_step :: "runtime \<Rightarrow> runtime \<Rightarrow> bool" where
  "task_step s s' \<longleftrightarrow> (\<exists>t ts. rs_tasks s = add_mset t ts \<and> s' = run_task t (s\<lparr>rs_tasks := ts\<rparr>))"

lemma work_mono: "m \<le> n \<Longrightarrow> work m t \<le> work n t"
  by (cases t) simp_all

lemma sum_work_mono: "m \<le> n \<Longrightarrow> sum_mset (image_mset (work m) T) \<le> sum_mset (image_mset (work n) T)"
  by (intro sum_mset_mono work_mono)

lemma open_conns_le:
  assumes "rs_next s' = rs_next s" "\<forall>i. length (sp_conns (rs_store s' i)) \<le> length (sp_conns (rs_store s i))"
  shows "open_conns s' \<le> open_conns s"
  using assms by (simp add: open_conns_def sum_mono)

lemma conns_le: "i < rs_next s \<Longrightarrow> length (sp_conns (rs_store s i)) \<le> open_conns s"
  unfolding open_conns_def by (rule member_le_sum) simp_all

lemma run_task_keeps:
  "rs_next (run_task t s) = rs_next s" "length (sp_conns (rs_store (run_task t s) i)) \<le> length (sp_conns (rs_store s i))"
  "rs_shut (run_task t s) = rs_shut s"
  by (cases t; auto simp: runtime_steps length_remove1 split: option.splits after_retire.splits list.splits)+

text \<open>A task starts less work than it was.\<close>

lemma work_started:
  assumes "order_ok s" "rs_tasks s = add_mset t ts" "n = open_conns s"
  shows "sum_mset (image_mset (work n) (rs_tasks (run_task t (s\<lparr>rs_tasks := ts\<rparr>)))) < work n t + sum_mset (image_mset (work n) ts)"
proof (cases t)
  case (Force i)
  have "tasks_ok s" "flags_ok s" using assms(1) by (simp_all add: order_ok_def)
  then have "detached s i" using assms(2) Force unfolding tasks_ok_def flags_ok_def by auto
  then show ?thesis using Force conns_le [of i s] assms(3) by (simp add: runtime_steps detached_def)
next
  case (CloseRest cur)
  have "length (rs_retired s) \<le> 8" using assms(1) by (simp add: order_ok_def flags_ok_def maxRetiredSnapshots_def)
  then have "length (rs_retired s) * (13 + 6 * n) \<le> 8 * (13 + 6 * n)" by (rule mult_le_mono1)
  then show ?thesis using CloseRest by (cases cur) (simp_all add: runtime_steps image_mset.compositionality comp_def sum_mset_constant)
next
  case (RetireStart i k)
  then show ?thesis by (cases k) (simp_all add: runtime_steps)
next
  case (RetireCheck i k)
  then show ?thesis by (cases k) (simp_all add: runtime_steps)
next
  case (RetireTimer i k)
  then show ?thesis by (cases k) (simp_all add: runtime_steps)
next
  case (Forcing i cs)
  then show ?thesis by (cases cs) (simp_all add: runtime_steps)
next
  case (Candidate j)
  then show ?thesis by (cases "rs_current s") (simp_all add: runtime_steps)
qed (simp_all add: runtime_steps)

lemma total_work_decreases:
  assumes "order_ok s" "task_step s s'"
  shows "total_work s' < total_work s"
proof -
  obtain t ts where t: "rs_tasks s = add_mset t ts" "s' = run_task t (s\<lparr>rs_tasks := ts\<rparr>)" using assms(2) by (auto simp: task_step_def)
  let ?n = "open_conns s"
  have "open_conns s' \<le> ?n" unfolding t(2)
    using run_task_keeps [of t "s\<lparr>rs_tasks := ts\<rparr>"] by (intro open_conns_le) simp_all
  then have "total_work s' \<le> sum_mset (image_mset (work ?n) (rs_tasks s'))" unfolding total_work_def by (rule sum_work_mono)
  also have "\<dots> < work ?n t + sum_mset (image_mset (work ?n) ts)" using work_started [OF assms(1) t(1) refl] by (simp add: t(2))
  finally show ?thesis by (simp add: total_work_def t(1))
qed

lemma task_step_step: "task_step s s' \<Longrightarrow> runtime_step calm s s'"
  by (auto simp: task_step_def intro: runtime_step.task)

lemma task_run_reachable: "task_step\<^sup>*\<^sup>* s s' \<Longrightarrow> runtime_reachable calm s \<Longrightarrow> runtime_reachable calm s'"
  by (induction rule: rtranclp_induct) (auto intro: runtime_reachable.step task_step_step)

lemma task_run_keeps: "task_step\<^sup>*\<^sup>* s s' \<Longrightarrow> rs_shut s' = rs_shut s \<and> rs_next s' = rs_next s"
  by (induction rule: rtranclp_induct) (auto simp: task_step_def run_task_keeps)

lemma tasks_settle: "runtime_ok s \<Longrightarrow> \<exists>s'. task_step\<^sup>*\<^sup>* s s' \<and> rs_tasks s' = {#}"
proof (induction "total_work s" arbitrary: s rule: less_induct)
  case less
  show ?case
  proof (cases "rs_tasks s")
    case (add t ts)
    let ?s = "run_task t (s\<lparr>rs_tasks := ts\<rparr>)"
    have st: "task_step s ?s" using add by (auto simp: task_step_def)
    have "total_work ?s < total_work s" using total_work_decreases [OF _ st] less(2) by (simp add: runtime_ok_def)
    then obtain s' where "task_step\<^sup>*\<^sup>* ?s s'" "rs_tasks s' = {#}"
      using less(1) runtime_ok_step [OF task_step_step [OF st] less(2)] by blast
    then show ?thesis using converse_rtranclp_into_rtranclp [of task_step, OF st] by blast
  qed blast
qed

lemma no_infinite_run:
  assumes "runtime_ok (f 0)" "\<forall>n. task_step (f n) (f (Suc n))"
  shows False
proof -
  have ok: "runtime_ok (f n)" for n using assms by (induction n) (auto intro: runtime_ok_step task_step_step)
  have "total_work (f (Suc n)) < total_work (f n)" for n
    using total_work_decreases ok [of n] assms(2) by (simp add: runtime_ok_def)
  then have "total_work (f n) + n \<le> total_work (f 0)" for n
  proof (induction n)
    case (Suc n)
    then show ?case by (metis Suc_leI add_Suc_right add_Suc add_le_mono1 le_trans)
  qed simp
  from this [of "Suc (total_work (f 0))"] show False by simp
qed

section \<open>Properties\<close>

text \<open>A schedule of pending tasks, to reach a given state.\<close>

fun exec :: "task list \<Rightarrow> runtime \<Rightarrow> runtime option" where
  "exec [] s = Some s"
| "exec (t # ts) s = (if t \<in># rs_tasks s then exec ts (run_task t (s\<lparr>rs_tasks := rs_tasks s - {#t#}\<rparr>)) else None)"

lemma exec_reachable: "exec ts s = Some s' \<Longrightarrow> runtime_reachable calm s \<Longrightarrow> runtime_reachable calm s'"
proof (induction ts arbitrary: s)
  case (Cons t ts)
  then have t: "t \<in># rs_tasks s" by (simp split: if_splits)
  then have "runtime_step calm s (run_task t (s\<lparr>rs_tasks := rs_tasks s - {#t#}\<rparr>))" by (intro runtime_step.task) simp
  then show ?case using Cons t by (auto intro: runtime_reachable.step)
qed simp

text \<open>C7. In every reachable state of the runtime service, whatever the interleaving of its goroutines: the atomic
  counter of a snapshot is the number of leases that are still to be released plus the number of tracked connections;
  the current snapshot is not retired, forced or closed and its drain timer is not armed; the list of retired
  snapshots has at most eight entries, all retired; after shutdown there is no current snapshot; the resources of a
  snapshot are torn down at most once, and only after it was retired. A snapshot that \<open>Validate\<close> builds and closes is
  never published and is not part of the service.\<close>

theorem snapshot_accounting:
  assumes "runtime_reachable calm s"
  shows "sp_refs (rs_store s i) = int (count (rs_tasks s) (Lease i)) + int (length (sp_conns (rs_store s i))) \<and>
    (rs_current s = Some i \<longrightarrow> \<not> sp_retired (rs_store s i) \<and> \<not> sp_forced (rs_store s i) \<and> \<not> sp_closed (rs_store s i) \<and> \<not> sp_timer (rs_store s i)) \<and>
    length (rs_retired s) \<le> 8 \<and> (\<forall>k \<in> set (rs_retired s). sp_retired (rs_store s k)) \<and> (rs_shut s \<longrightarrow> rs_current s = None) \<and>
    sp_torn (rs_store s i) \<le> 1 \<and> (sp_torn (rs_store s i) = 1 \<longrightarrow> sp_closed (rs_store s i) \<and> sp_retired (rs_store s i))"
proof -
  have ok: "refs_ok s" "order_ok s" "once_ok s" using runtime_ok_reachable [OF assms] by (simp_all add: runtime_ok_def)
  have f: "flags_ok s" using ok(2) by (simp add: order_ok_def)
  have t: "sp_torn (rs_store s i) \<le> closings (rs_store s i)" using torn_once [OF ok(3)] .
  have r: "sp_forced (rs_store s i) \<or> sp_closed (rs_store s i) \<or> sp_timer (rs_store s i) \<Longrightarrow> sp_retired (rs_store s i)"
    using f unfolding flags_ok_def by blast
  moreover have "rs_current s = Some i \<Longrightarrow> \<not> sp_retired (rs_store s i)" using current_leased(2) [OF ok(2)] by blast
  moreover have "sp_torn (rs_store s i) \<le> 1" "sp_torn (rs_store s i) = 1 \<Longrightarrow> sp_closed (rs_store s i)"
    using t by (simp_all add: closings_def split: if_splits)
  moreover have "length (rs_retired s) \<le> 8 \<and> (\<forall>k \<in> set (rs_retired s). sp_retired (rs_store s k)) \<and> (rs_shut s \<longrightarrow> rs_current s = None)"
    using f unfolding flags_ok_def maxRetiredSnapshots_def by blast
  moreover have "sp_refs (rs_store s i) = int (count (rs_tasks s) (Lease i)) + int (length (sp_conns (rs_store s i)))"
    using ok(1) by (simp add: refs_ok_def)
  ultimately show ?thesis by blast
qed

theorem snapshot_accounting_witness:
  "\<exists>s. runtime_reachable True s \<and> Lease 0 \<in># rs_tasks s \<and> rs_current s = Some 0 \<and> sp_refs (rs_store s 0) = 1 \<and> \<not> sp_retired (rs_store s 0)"
proof -
  let ?s = "spawn (Lease 0) (upd 0 (\<lambda>p. p\<lparr>sp_refs := sp_refs p + 1\<rparr>) newRuntimeService)"
  have "runtime_step True newRuntimeService ?s" by (intro runtime_step.acquire [of _ 0]) (simp_all add: acquire_def newRuntimeService_def)
  then have r: "runtime_reachable True ?s" by (rule runtime_reachable.step [OF runtime_reachable.init])
  have "Lease 0 \<in># rs_tasks ?s" "rs_current ?s = Some 0" "rs_tasks ?s = {#Lease 0#}" "sp_conns (rs_store ?s 0) = []"
    by (simp_all add: spawn_def upd_def newRuntimeService_def new_snapshot_def)
  then show ?thesis using snapshot_accounting [OF r, of 0] r by (intro exI [of _ ?s]) simp
qed

text \<open>C8. No snapshot is forgotten. In a reachable state in which only leases are left to be released, every snapshot
  that was ever built is the current one, or its resources were torn down exactly once, or it is retired, still has
  references, and its drain timer is armed. After shutdown only the second is left: every snapshot was torn down,
  also those with leases.\<close>

theorem no_snapshot_forgotten:
  assumes "runtime_reachable calm s" "\<forall>t \<in># rs_tasks s. \<exists>k. t = Lease k" "i < rs_next s"
  shows "(rs_current s = Some i \<or> sp_torn (rs_store s i) = 1 \<or>
      sp_retired (rs_store s i) \<and> 0 < sp_refs (rs_store s i) \<and> sp_timer (rs_store s i)) \<and>
    (rs_shut s \<longrightarrow> sp_torn (rs_store s i) = 1)"
proof (intro conjI impI)
  note ok = runtime_ok_reachable [OF assms(1)]
  have "0 \<le> sp_refs (rs_store s i)" using ok by (simp add: runtime_ok_def refs_ok_def)
  then show "rs_current s = Some i \<or> sp_torn (rs_store s i) = 1 \<or>
      sp_retired (rs_store s i) \<and> 0 < sp_refs (rs_store s i) \<and> sp_timer (rs_store s i)"
    using timer_or_closed [OF ok assms(2,3)] by force
  assume sh: "rs_shut s"
  then have cur: "rs_current s \<noteq> Some i" using ok by (simp add: runtime_ok_def order_ok_def flags_ok_def)
  have no: "t \<notin># rs_tasks s" if "\<And>k. t \<noteq> Lease k" for t using assms(2) that by blast
  have "\<not> watched s i" using ok sh by (simp add: runtime_ok_def shut_ok_def watched_def no)
  then have "sp_closed (rs_store s i)"
    using ok timer_or_closed(1,2) [OF ok assms(2,3) cur] unfolding runtime_ok_def listed_ok_def by blast
  then show "sp_torn (rs_store s i) = 1" by (rule timer_or_closed(3) [OF ok assms(2,3) cur])
qed

theorem no_snapshot_forgotten_witness:
  "\<exists>s. runtime_reachable True s \<and> rs_shut s \<and> rs_tasks s = {#} \<and> sp_torn (rs_store s 0) = 1"
proof -
  obtain s where s: "exec [CloseRest (Some 0), RetireStart 0 ForceNext, RetireCheck 0 ForceNext, Closer 0, Closing 0, Tearing 0, Force 0,
      Forcing 0 [], Closer 0] (close_service newRuntimeService) = Some s" "rs_shut s" "rs_tasks s = {#}" "0 < rs_next s"
    by (simp add: runtime_steps newRuntimeService_def new_snapshot_def)
  have "runtime_reachable True (close_service newRuntimeService)"
    by (intro runtime_reachable.step [OF runtime_reachable.init] runtime_step.close_service)
  then have "runtime_reachable True s" using exec_reachable [OF s(1)] by blast
  then show ?thesis using no_snapshot_forgotten [of True s 0] s(2,3,4) by auto
qed

text \<open>C9. Goroutines end. From every reachable state there is no infinite schedule of the goroutines that are under
  way, so that \<open>Close\<close>, a reload's retirement and a forced close return; and they can all run to their end, which leads
  to a reachable state of the same service without pending work.\<close>

theorem goroutines_end:
  assumes "runtime_reachable calm s"
  shows "\<not> (\<exists>f. f 0 = s \<and> (\<forall>n. task_step (f n) (f (Suc n)))) \<and>
    (\<exists>s'. task_step\<^sup>*\<^sup>* s s' \<and> runtime_reachable calm s' \<and> rs_tasks s' = {#} \<and> rs_shut s' = rs_shut s \<and> rs_next s' = rs_next s)"
proof (rule conjI)
  note ok = runtime_ok_reachable [OF assms]
  show "\<not> (\<exists>f. f 0 = s \<and> (\<forall>n. task_step (f n) (f (Suc n))))" using no_infinite_run ok by blast
  obtain s' where "task_step\<^sup>*\<^sup>* s s'" "rs_tasks s' = {#}" using tasks_settle [OF ok] by blast
  then show "\<exists>s'. task_step\<^sup>*\<^sup>* s s' \<and> runtime_reachable calm s' \<and> rs_tasks s' = {#} \<and> rs_shut s' = rs_shut s \<and> rs_next s' = rs_next s"
    using task_run_reachable [OF _ assms] task_run_keeps by blast
qed

theorem goroutines_end_witness:
  "\<exists>s. task_step\<^sup>*\<^sup>* (close_service newRuntimeService) s \<and> rs_tasks s = {#} \<and> rs_shut s = rs_shut (close_service newRuntimeService)"
proof -
  have "runtime_reachable True (close_service newRuntimeService)"
    by (intro runtime_reachable.step [OF runtime_reachable.init] runtime_step.close_service)
  from goroutines_end [OF this] show ?thesis by blast
qed

text \<open>C10. Draining. As long as no snapshot is acquired while a release of it is between its decrement and its look at
  \<open>retired\<close>, the resources of a snapshot are closed only when it has no references left, that is no lease and no
  tracked connection, or when it was forced.\<close>

theorem closed_only_when_idle:
  assumes "runtime_reachable True s" "sp_closed (rs_store s i)" "\<not> sp_forced (rs_store s i)"
  shows "Lease i \<notin># rs_tasks s \<and> sp_conns (rs_store s i) = []"
proof -
  have "sp_refs (rs_store s i) = 0" using idle_ok_reachable [OF assms(1)] assms(2,3) unfolding idle_ok_def by blast
  moreover have "refs_ok s" using runtime_ok_reachable [OF assms(1)] by (simp add: runtime_ok_def)
  ultimately have "int (count (rs_tasks s) (Lease i)) + int (length (sp_conns (rs_store s i))) = 0" by (simp add: refs_ok_def)
  then have "count (rs_tasks s) (Lease i) = 0 \<and> length (sp_conns (rs_store s i)) = 0" by linarith
  then show ?thesis by (simp add: not_in_iff)
qed

theorem closed_only_when_idle_witness:
  "\<exists>s. runtime_reachable True s \<and> sp_closed (rs_store s 0) \<and> \<not> sp_forced (rs_store s 0) \<and> Lease 0 \<notin># rs_tasks s \<and> sp_conns (rs_store s 0) = []"
proof -
  obtain s where s: "exec [Candidate 1, RetireStart 0 Register, RetireCheck 0 Register, Closer 0] (build newRuntimeService) = Some s"
    "sp_closed (rs_store s 0)" "\<not> sp_forced (rs_store s 0)" by (simp add: runtime_steps newRuntimeService_def new_snapshot_def)
  have "runtime_reachable True (build newRuntimeService)" by (intro runtime_reachable.step [OF runtime_reachable.init] runtime_step.build)
  then have "runtime_reachable True s" using exec_reachable [OF s(1)] by blast
  then show ?thesis using closed_only_when_idle [of s 0] s(2,3) by blast
qed

text \<open>The overlap matters. There is a schedule in which a snapshot's resources are closed, not by force, while a
  lease of it is held: a release brings the counter to zero and stops before it looks at \<open>retired\<close>, the snapshot is
  acquired again, a reload publishes the next snapshot and retires this one, and then the release sees \<open>retired\<close> and
  closes the resources under the second lease.\<close>

theorem early_close_race:
  "\<exists>s. runtime_reachable False s \<and> sp_closed (rs_store s 0) \<and> \<not> sp_forced (rs_store s 0) \<and> Lease 0 \<in># rs_tasks s"
proof -
  let ?lease = "\<lambda>s. spawn (Lease 0) (upd 0 (\<lambda>p. p\<lparr>sp_refs := sp_refs p + 1\<rparr>) s)"
  have a: "runtime_reachable False (?lease s)" if "runtime_reachable False s" "rs_current s = Some 0" "\<not> rs_shut s" for s
  proof -
    have "acquire s = Some (0, ?lease s)" using that(2,3) by (simp add: acquire_def)
    then show ?thesis by (intro runtime_reachable.step [OF that(1)] runtime_step.acquire) simp_all
  qed
  obtain s1 where s1: "exec [Lease 0] (?lease newRuntimeService) = Some s1" "rs_current s1 = Some 0" "\<not> rs_shut s1"
    "exec [Candidate 1, RetireStart 0 Register, ReleaseCheck 0, Closer 0] (build (?lease s1)) \<noteq> None"
    "\<forall>s2. exec [Candidate 1, RetireStart 0 Register, ReleaseCheck 0, Closer 0] (build (?lease s1)) = Some s2 \<longrightarrow>
      sp_closed (rs_store s2 0) \<and> \<not> sp_forced (rs_store s2 0) \<and> Lease 0 \<in># rs_tasks s2"
    by (simp add: runtime_steps newRuntimeService_def new_snapshot_def)
  have "runtime_reachable False (?lease newRuntimeService)" by (intro a runtime_reachable.init) (simp_all add: newRuntimeService_def)
  then have "runtime_reachable False s1" using exec_reachable [OF s1(1)] by blast
  then have r: "runtime_reachable False (build (?lease s1))" using a s1(2,3) by (intro runtime_reachable.step [OF _ runtime_step.build])
  obtain s2 where "exec [Candidate 1, RetireStart 0 Register, ReleaseCheck 0, Closer 0] (build (?lease s1)) = Some s2" using s1(4) by blast
  then show ?thesis using s1(5) exec_reachable [OF _ r] by blast
qed

end
