(* ===== verification/Spec2Isabelle.thy ===== *)
theory Spec2Isabelle
  imports IPProps IPFilters StrProps GeoProps DomainProps OutboundProofs RouterProps SnifferProofs DispatcherProofs DnsMessageProofs
    DnsCacheProofs DnsLookups RuntimeProps
begin

text \<open>
  A model of BypassCore, a routing core for transparent proxies, and its correctness.

  \<^bold>\<open>The program and its parts.\<close> A listener accepts a connection and hands it, with the destination the kernel
  recovered, to the dispatcher (\<open>app/dispatcher/default.go\<close>). The dispatcher sniffs the first bytes for a TLS server
  name or an HTTP host (\<open>app/dispatcher/sniffer.go\<close>, \<open>common/protocol\<close>), asks the router for an outbound
  (\<open>app/router\<close>), takes its dialer from the outbound manager (\<open>app/outbound\<close>), dials the original destination and
  copies in both directions. The router evaluates rules made of conditions on domains, addresses, ports, processes and
  attributes; rules name an outbound or a balancer. Domains and addresses are decided by the matchers of
  \<open>common/geodata\<close>, which are built from GeoIP and GeoSite lists, cached, and rebuilt together when the data changes.
  When a rule needs addresses of a domain, the DNS server answers (\<open>app/dns\<close>): from static hosts, or from upstream
  clients in an order that their domain rules decide, each with a cache and with filters on the answer. The daemon
  (\<open>cmd/bypasscore/runtime.go\<close>) holds router, outbounds and DNS in a snapshot, which a reload replaces while old
  connections drain.

  \<^bold>\<open>Theories and sources.\<close> A definition has the name of the Go function, method or type it translates, with the
  receiver in front where names would clash, and stands in the order of the file. A struct is a record, an interface
  with known implementations a datatype, a map an association list (so that the order of an iteration can be a
  parameter), and an object that is shared through pointers a reference into a store.

  \<^item> \<open>Prelude\<close>, \<open>GoStrings\<close>, \<open>GoNet\<close>, \<open>RegexSyntax\<close>: shared lemmas, and what the sources use of \<open>strings\<close>,
    \<open>strconv\<close>, \<open>net\<close>, \<open>net/netip\<close> and \<open>regexp/syntax\<close>.
  \<^item> \<open>Net\<close>, \<open>NetText\<close>: \<open>common/net\<close>, addresses, port lists, networks and destinations with their text forms.
  \<^item> \<open>IPMatcherDefs\<close>, \<open>IPFactoryDefs\<close>: \<open>ip_matcher.go\<close> and \<open>ip_registry.go\<close>. \<open>IPMatcher\<close> states the contract of
    the interface as the locales \<open>ip_matcher\<close> and \<open>exact_ip_matcher\<close> and interprets them for the heuristic matcher,
    \<open>IPMulti\<close> for the matcher over several sets; \<open>IPFactory\<close> shows the factory, its cache keys and the registry,
    and \<open>IPProps\<close> collects the properties: testing one representative per /24 or /64 decides exactly, addresses are
    split with their multiplicities, the matcher built from rules accepts what the rules mean, and a reload replaces
    every matcher or none. \<open>IPFilters\<close> shows what \<open>FilterIPs\<close> over several sets returns, with the locale
    \<open>ip_filter\<close> as the contract of a filter: the matched addresses are exact, the unmatched ones only when all sets
    use the same view of each family (\<open>multi_filter_does_not_split\<close> is a case where they do not).
  \<^item> \<open>Matchers\<close>, \<open>MatcherSets\<close>, \<open>MatcherGroups\<close>, \<open>LinearMatchers\<close>, \<open>MphGroup\<close>, \<open>AcAutomaton\<close>: the package
    \<open>common/geodata/strmatcher\<close>. The locales \<open>matcher_set\<close> and \<open>matcher_group\<close> are its interfaces. \<open>MphProofs\<close> shows
    that a minimal perfect hash table answers exactly for every hash function of the runtime, where patterns with a
    leading dot also match as ends of a domain; \<open>AcTrie\<close>, \<open>AcBuild\<close>
    and \<open>AcProofs\<close> that the Aho-Corasick automaton is built, ends, and finds exactly the patterns that match;
    \<open>StrProps\<close> adds the prefilter of regular expressions and the substring group.
  \<^item> \<open>GeoLoader\<close>, \<open>RuleParser\<close>, \<open>GeoProps\<close>: finding an entry in a data file by its code, and parsing rules.
  \<^item> \<open>DomainFactory\<close>, \<open>DomainProofs\<close>, \<open>DomainProps\<close>: the two factories of domain matchers and their registry; the
    matcher accepts exactly the domains its rules mean, also when it comes from the cache.
  \<^item> \<open>RoutingContext\<close>, \<open>ProcessCache\<close>, \<open>Conditions\<close>, \<open>Balancing\<close>, \<open>Router\<close>: sessions and contexts that resolve
    lazily, the process cache, the conditions, the strategies, and the router with its reloads. \<open>RouterProofs\<close> shows
    that a decision is the first rule whose denotation holds; \<open>RouterInv\<close> and \<open>RouterProps\<close> give the invariant of
    every history, that routing always answers with what the rule asks for, and that reloading is atomic;
    \<open>BalancingProps\<close> the strategies.
  \<^item> \<open>OutboundManager\<close>, \<open>OutboundProofs\<close>: registration, lookup, selection and closing of outbounds over histories.
  \<^item> \<open>TlsSniff\<close>, \<open>Sniffer\<close>, \<open>TlsProofs\<close>, \<open>SnifferProofs\<close>: parsing without reads outside the data, recovery of the
    server name under every cut into records and segments, and that no byte of the connection is lost.
  \<^item> \<open>Dispatcher\<close>, \<open>DispatcherProofs\<close>: \<open>Dispatch\<close>, \<open>dialOutboundPackets\<close> and \<open>DialRouted\<close> as lists of events; one
    dial at most, to the original destination, with the dialer of the route, and everything closed on every path.
  \<^item> \<open>DnsMessage\<close>, \<open>DnsCache\<close>, \<open>DnsHosts\<close>, \<open>DnsClient\<close>, \<open>DnsServer\<close> with \<open>DnsMessageProofs\<close>, \<open>DnsCacheProofs\<close>,
    \<open>DnsHostsProofs\<close>, \<open>DnsOrder\<close>, \<open>DnsParallel\<close>, \<open>DnsServerProps\<close>, \<open>DnsLookups\<close>: responses are accepted only for their
    request and their record is what the answers mean; the cache with its background migration refines one map;
    static hosts follow replaced domains and answer from the mappings that mean the last one; the filters of a
    client pass on exactly what its policy allows, and \<open>unexpected_addresses_leak\<close> is the case outside the condition
    on the sets; the order of clients is the policy; a parallel query agrees with asking in order; the server
    built from a configuration satisfies an invariant that every lookup keeps, without a panic.
  \<^item> \<open>RuntimeSnapshots\<close>, \<open>RuntimeProofs\<close>, \<open>RuntimeProps\<close>: the snapshots of the daemon as a step relation in which
    every atomic operation and every section under a mutex is a step and goroutines are a multiset of tasks. In every
    interleaving the references are the leases and connections, resources are closed once, goroutines end, and no
    snapshot is forgotten, none at all after shutdown. The theorem \<open>early_close_race\<close> is the schedule in which a
    snapshot is closed under a lease, and \<open>closed_only_when_idle\<close> shows that this is the only way.

  \<^bold>\<open>Errors, bounds and loops.\<close> An error of Go is a value of a sum type. Where the code can panic (an index, a slice, a nil
  pointer, a division) or may run forever, the result is an option and \<open>None\<close> stands for it; that the code returns is
  then a theorem of its own. Loops recurse on data or have a termination proof; the search for a seed of the hash
  table, which may not end, is a partial function. Integers have their width where the code can wrap: hashes, varints,
  times to live, ports, packed positions. Bounds of the code are kept as they are: chains of replaced domains of five,
  client orders cached for 4096 domains, the limit of sniffed bytes, eight retired snapshots. Where the environment is
  asked several times, its answers depend on a counter of moments in the state, so that two questions may be answered
  differently.

  \<^bold>\<open>Parameters.\<close> Packages outside the repository and the operating system are arguments: IP sets (\<open>netipx\<close>), the
  decoding of messages (\<open>dnsmessage\<close>) and of protocol buffers, \<open>idna\<close>, the hash of the runtime, the search for
  processes, random numbers, floating-point numbers of least load, the observatory, transports and dialers, the order
  of map iterations and of results that arrive. What the proofs assume of them is a named predicate in the statement.

  \<^bold>\<open>Not modelled.\<close> Sockets and listeners (\<open>app/inbound\<close>), DNS transports, the proxy protocols, the copying of bytes in
  \<open>transport\<close>, the control API, metrics, logs, JSON configuration (\<open>infra/conf\<close>) and the command line are I/O or wiring
  around the modelled operations. Concurrency is modelled for the snapshots, the migration of the DNS cache and the
  results of parallel queries; elsewhere operations guarded by one mutex run one after the other. Snapshots that are
  built and closed without being published (\<open>Validate\<close>, a failing build) never enter the model of the service;
  \<open>register\<close> reads the flags of all retired snapshots at one instant. The order of a map iteration is a function of
  the entries, so that two iterations over equal maps give one order, a merge of the two families of a DNS answer
  reads the clock once, and the getters of a session are read when the routing context is made. Text is taken as
  ASCII where Go maps the case of Unicode letters.
\<close>

end
